(* ===== verification/Prelude.thy ===== *)
theory Prelude
  imports Main "HOL-Library.Word"
begin

text \<open>
  Shared vocabulary of the development: the widths of the Rust integers, the saturating and
  checked operations of the Rust standard library, decimal printing and parsing, and the
  generic lemmas on lists and parities that the component theories use.  The collections
  declared here are filled by the component theories.
\<close>

unbundle bit_operations_syntax

named_theorems row_simps \<open>unfolding rules for single Pauli rows\<close>
named_theorems ledger_simps \<open>effect of the ledger operations on the charged totals\<close>
named_theorems codec_simps \<open>readers applied to the bytes of their writers\<close>

type_synonym u8 = "8 word"
type_synonym u16 = "16 word"
type_synonym u32 = "32 word"
type_synonym u64 = "64 word"

section \<open>Rust integer operations\<close>

definition sat_add :: "'a::len word \<Rightarrow> 'a word \<Rightarrow> 'a word" where
  "sat_add a b = (if unat a + unat b < 2 ^ LENGTH('a) then a + b else - 1)"

definition sat_sub :: "'a::len word \<Rightarrow> 'a word \<Rightarrow> 'a word" where
  "sat_sub a b = (if b \<le> a then a - b else 0)"

definition sat_mul :: "'a::len word \<Rightarrow> 'a word \<Rightarrow> 'a word" where
  "sat_mul a b = (if unat a * unat b < 2 ^ LENGTH('a) then a * b else - 1)"

definition checked_add :: "'a::len word \<Rightarrow> 'a word \<Rightarrow> 'a word option" where
  "checked_add a b = (if unat a + unat b < 2 ^ LENGTH('a) then Some (a + b) else None)"

definition checked_mul :: "'a::len word \<Rightarrow> 'a word \<Rightarrow> 'a word option" where
  "checked_mul a b = (if unat a * unat b < 2 ^ LENGTH('a) then Some (a * b) else None)"

lemma unat_minus_one_max: "unat (- 1 :: 'a::len word) = 2 ^ LENGTH('a) - 1"
  by (simp add: unsigned_minus_1_eq_mask mask_eq_exp_minus_1)

lemma unat_bound: "unat (a :: 'a::len word) < 2 ^ LENGTH('a)"
  by (rule unsigned_less)

lemma unat_u64_of_nat: "n < 2 ^ 64 \<Longrightarrow> unat (of_nat n :: u64) = n"
  by (simp add: unat_of_nat)

lemma unat_sat_add:
  "unat (sat_add a b :: 'a::len word) = min (unat a + unat b) (2 ^ LENGTH('a) - 1)"
  by (auto simp: sat_add_def unat_word_ariths unat_minus_one_max)

lemma unat_sat_sub: "unat (sat_sub a b) = unat a - unat b"
  by (auto simp: sat_sub_def unat_sub word_le_nat_alt)

lemma unat_sat_mul:
  "unat (sat_mul a b :: 'a::len word) = min (unat a * unat b) (2 ^ LENGTH('a) - 1)"
  by (auto simp: sat_mul_def unat_word_ariths unat_minus_one_max)

lemma checked_add_Some_iff:
  "checked_add a b = Some c \<longleftrightarrow> unat c = unat a + unat (b :: 'a::len word)"
  using unat_bound [of c]
  by (auto simp: checked_add_def unat_word_ariths word_unat_eq_iff simp del: unsigned_less)

section \<open>Exclusive or of booleans, parities of counts\<close>

abbreviation bxor :: "bool \<Rightarrow> bool \<Rightarrow> bool" where
  "bxor a b \<equiv> (a \<noteq> b)"

text \<open>\<open>parity_of P n\<close>: whether an odd number of indices below \<open>n\<close> satisfy \<open>P\<close>.\<close>

fun parity_of :: "(nat \<Rightarrow> bool) \<Rightarrow> nat \<Rightarrow> bool" where
  "parity_of P 0 = False"
| "parity_of P (Suc n) = bxor (parity_of P n) (P n)"

lemma parity_of_cong: "(\<And>q. q < n \<Longrightarrow> P q = Q q) \<Longrightarrow> parity_of P n = parity_of Q n"
  by (induction n) auto

lemma parity_of_bxor: "parity_of (\<lambda>q. bxor (P q) (Q q)) n = bxor (parity_of P n) (parity_of Q n)"
  by (induction n) auto

lemma parity_of_False: "(\<And>q. q < n \<Longrightarrow> \<not> P q) \<Longrightarrow> \<not> parity_of P n"
  by (induction n) auto

lemma parity_of_single: "q < n \<Longrightarrow> parity_of (\<lambda>i. i = q \<and> P i) n = P q"
proof (induction n)
  case (Suc n)
  show ?case
  proof (cases "q = n")
    case True
    then have "\<not> parity_of (\<lambda>i. i = q \<and> P i) n" by (intro parity_of_False) auto
    with True show ?thesis by simp
  qed (use Suc in auto)
qed simp

lemma odd_length_filter_upt: "odd (length (filter P [0..<n])) = parity_of P n"
  by (induction n) auto

section \<open>Lists\<close>

lemma fold_nth_untouched:
  assumes "\<And>i rs. i \<noteq> k \<Longrightarrow> f i rs ! k = rs ! k"
  shows "k \<notin> set is \<Longrightarrow> fold f is rs ! k = rs ! k"
proof (induction "is" arbitrary: rs)
  case (Cons i "is")
  then show ?case using assms [of i rs] by simp
qed simp

lemma fold_length_invariant:
  "(\<And>i rs. length (f i rs) = length rs) \<Longrightarrow> length (fold f is rs) = length rs"
  by (induction "is" arbitrary: rs) auto

end
