(* ===== verification/Tableau.thy ===== *)
theory Tableau
  imports Prelude
begin

text \<open>
  The Aaronson--Gottesman stabilizer tableau of
  \<^verbatim>\<open>crates/omega-backend-pauli/src/stabilizer.rs\<close>.  A row stands for
  \<open>(-1)^sign\<close> times the tensor product over the qubits of \<open>i^(x*z) X^x Z^z\<close>; the first \<open>n\<close>
  rows of a tableau are destabilizers and the next \<open>n\<close> stabilizers.  An index that the Rust code
  reads out of range panics there; here such a call returns \<open>None\<close>.  The random bit that
  \<^verbatim>\<open>measure\<close> draws is an argument.
\<close>

section \<open>Rows\<close>

record pauli_row =
  row_n :: nat
  row_x :: "bool list"
  row_z :: "bool list"
  row_sign :: bool

definition row_identity :: "nat \<Rightarrow> pauli_row" where
  "row_identity n = \<lparr>row_n = n, row_x = replicate n False, row_z = replicate n False, row_sign = False\<rparr>"

definition row_anticommutes :: "pauli_row \<Rightarrow> pauli_row \<Rightarrow> bool" where
  "row_anticommutes a b =
     (length (filter (\<lambda>q. bxor (row_x a ! q \<and> row_z b ! q) (row_z a ! q \<and> row_x b ! q))
        [0..<row_n a]) mod 2 = 1)"

fun pauli_mult_phase :: "bool \<Rightarrow> bool \<Rightarrow> bool \<Rightarrow> bool \<Rightarrow> int" where
  "pauli_mult_phase False False _ _ = 0"
| "pauli_mult_phase _ _ False False = 0"
| "pauli_mult_phase True False False True = 3"
| "pauli_mult_phase False True True False = 1"
| "pauli_mult_phase True False True True = 1"
| "pauli_mult_phase True True True False = 3"
| "pauli_mult_phase False True True True = 3"
| "pauli_mult_phase True True False True = 1"
| "pauli_mult_phase _ _ _ _ = 0"

section \<open>The tableau\<close>

record tableau =
  tab_n :: nat
  tab_rows :: "pauli_row list"

definition zero_state :: "nat \<Rightarrow> tableau" where
  "zero_state n = \<lparr>tab_n = n,
     tab_rows = map (\<lambda>q. (row_identity n)\<lparr>row_x := (replicate n False)[q := True]\<rparr>) [0..<n] @
                map (\<lambda>q. (row_identity n)\<lparr>row_z := (replicate n False)[q := True]\<rparr>) [0..<n]\<rparr>"

text \<open>The loop \<^verbatim>\<open>for row in &mut self.rows\<close>; it panics when a row has no qubit \<open>q\<close>.\<close>

definition has_qubit :: "nat \<Rightarrow> pauli_row \<Rightarrow> bool" where
  "has_qubit q r = (q < length (row_x r) \<and> q < length (row_z r))"

definition each_row :: "nat list \<Rightarrow> (pauli_row \<Rightarrow> pauli_row) \<Rightarrow> tableau \<Rightarrow> tableau option" where
  "each_row qs f t =
     (if list_all (\<lambda>r. list_all (\<lambda>q. has_qubit q r) qs) (tab_rows t)
      then Some (t\<lparr>tab_rows := map f (tab_rows t)\<rparr>) else None)"

definition row_h :: "nat \<Rightarrow> pauli_row \<Rightarrow> pauli_row" where
  "row_h q r = r\<lparr>row_sign := bxor (row_sign r) (row_x r ! q \<and> row_z r ! q),
                 row_x := (row_x r)[q := row_z r ! q],
                 row_z := (row_z r)[q := row_x r ! q]\<rparr>"

definition row_s :: "nat \<Rightarrow> pauli_row \<Rightarrow> pauli_row" where
  "row_s q r = r\<lparr>row_sign := bxor (row_sign r) (row_x r ! q \<and> row_z r ! q),
                 row_z := (row_z r)[q := bxor (row_z r ! q) (row_x r ! q)]\<rparr>"

definition row_sdg :: "nat \<Rightarrow> pauli_row \<Rightarrow> pauli_row" where
  "row_sdg q r = r\<lparr>row_sign := bxor (row_sign r) (row_x r ! q \<and> \<not> row_z r ! q),
                   row_z := (row_z r)[q := bxor (row_z r ! q) (row_x r ! q)]\<rparr>"

definition row_sx :: "nat \<Rightarrow> pauli_row \<Rightarrow> pauli_row" where
  "row_sx q r = r\<lparr>row_sign := bxor (row_sign r) (row_z r ! q \<and> \<not> row_x r ! q),
                  row_x := (row_x r)[q := bxor (row_x r ! q) (row_z r ! q)]\<rparr>"

definition row_sxdg :: "nat \<Rightarrow> pauli_row \<Rightarrow> pauli_row" where
  "row_sxdg q r = r\<lparr>row_sign := bxor (row_sign r) (row_z r ! q \<and> row_x r ! q),
                    row_x := (row_x r)[q := bxor (row_x r ! q) (row_z r ! q)]\<rparr>"

definition row_cx :: "nat \<Rightarrow> nat \<Rightarrow> pauli_row \<Rightarrow> pauli_row" where
  "row_cx ctrl tgt r =
     (let s = bxor (row_sign r)
                (row_x r ! ctrl \<and> row_z r ! tgt \<and> bxor (bxor (row_x r ! tgt) (row_z r ! ctrl)) True);
          x' = (row_x r)[tgt := bxor (row_x r ! tgt) (row_x r ! ctrl)];
          z' = (row_z r)[ctrl := bxor (row_z r ! ctrl) (row_z r ! tgt)]
      in r\<lparr>row_sign := s, row_x := x', row_z := z'\<rparr>)"

definition row_pauli_x :: "nat \<Rightarrow> pauli_row \<Rightarrow> pauli_row" where
  "row_pauli_x q r = r\<lparr>row_sign := bxor (row_sign r) (row_z r ! q)\<rparr>"

definition row_pauli_y :: "nat \<Rightarrow> pauli_row \<Rightarrow> pauli_row" where
  "row_pauli_y q r = r\<lparr>row_sign := bxor (row_sign r) (bxor (row_x r ! q) (row_z r ! q))\<rparr>"

definition row_pauli_z :: "nat \<Rightarrow> pauli_row \<Rightarrow> pauli_row" where
  "row_pauli_z q r = r\<lparr>row_sign := bxor (row_sign r) (row_x r ! q)\<rparr>"

definition tab_h :: "nat \<Rightarrow> tableau \<Rightarrow> tableau option" where "tab_h q = each_row [q] (row_h q)"
definition tab_s :: "nat \<Rightarrow> tableau \<Rightarrow> tableau option" where "tab_s q = each_row [q] (row_s q)"
definition tab_sdg :: "nat \<Rightarrow> tableau \<Rightarrow> tableau option" where "tab_sdg q = each_row [q] (row_sdg q)"
definition tab_sx :: "nat \<Rightarrow> tableau \<Rightarrow> tableau option" where "tab_sx q = each_row [q] (row_sx q)"
definition tab_sxdg :: "nat \<Rightarrow> tableau \<Rightarrow> tableau option" where "tab_sxdg q = each_row [q] (row_sxdg q)"
definition tab_cx :: "nat \<Rightarrow> nat \<Rightarrow> tableau \<Rightarrow> tableau option" where
  "tab_cx ctrl tgt = each_row [ctrl, tgt] (row_cx ctrl tgt)"
definition tab_x :: "nat \<Rightarrow> tableau \<Rightarrow> tableau option" where "tab_x q = each_row [q] (row_pauli_x q)"
definition tab_y :: "nat \<Rightarrow> tableau \<Rightarrow> tableau option" where "tab_y q = each_row [q] (row_pauli_y q)"
definition tab_z :: "nat \<Rightarrow> tableau \<Rightarrow> tableau option" where "tab_z q = each_row [q] (row_pauli_z q)"

section \<open>Products of rows and measurement\<close>

text \<open>
  The loop of \<^verbatim>\<open>row_product\<close>: position by position, the phase is accumulated and the
  bits are added.  \<^verbatim>\<open>rowmult\<close> runs the same loop in place on row \<open>i\<close>: at position \<open>q\<close> it has
  written the positions below \<open>q\<close> only, so it reads the old bits.
\<close>

fun product_loop :: "nat list \<Rightarrow> pauli_row \<Rightarrow> pauli_row \<Rightarrow> int \<Rightarrow> pauli_row \<Rightarrow> int \<times> pauli_row" where
  "product_loop [] a b ph res = (ph, res)"
| "product_loop (q # qs) a b ph res =
     product_loop qs a b
       (ph + pauli_mult_phase (row_x a ! q) (row_z a ! q) (row_x b ! q) (row_z b ! q))
       (res\<lparr>row_x := (row_x res)[q := bxor (row_x res ! q) (row_x b ! q)],
            row_z := (row_z res)[q := bxor (row_z res ! q) (row_z b ! q)]\<rparr>)"

definition row_product :: "nat \<Rightarrow> pauli_row \<Rightarrow> pauli_row \<Rightarrow> pauli_row" where
  "row_product n a b =
     (let (ph, res) = product_loop [0..<n] a b 0 a;
          extra = ((ph mod 4 + 4) mod 4 = 2)
      in res\<lparr>row_sign := bxor (row_sign res) (bxor (row_sign b) extra)\<rparr>)"

fun rowmult_loop :: "nat list \<Rightarrow> pauli_row \<Rightarrow> int \<Rightarrow> pauli_row \<Rightarrow> int \<times> pauli_row" where
  "rowmult_loop [] rj ph ri = (ph, ri)"
| "rowmult_loop (q # qs) rj ph ri =
     rowmult_loop qs rj
       (ph + pauli_mult_phase (row_x ri ! q) (row_z ri ! q) (row_x rj ! q) (row_z rj ! q))
       (ri\<lparr>row_x := (row_x ri)[q := bxor (row_x ri ! q) (row_x rj ! q)],
           row_z := (row_z ri)[q := bxor (row_z ri ! q) (row_z rj ! q)]\<rparr>)"

definition rowmult :: "nat \<Rightarrow> nat \<Rightarrow> nat \<Rightarrow> pauli_row list \<Rightarrow> pauli_row list" where
  "rowmult n i j rows =
     (let rj = rows ! j;
          (ph, ri) = rowmult_loop [0..<n] rj 0 (rows ! i);
          extra = ((ph mod 4 + 4) mod 4 = 2)
      in rows[i := ri\<lparr>row_sign := bxor (row_sign ri) (bxor (row_sign rj) extra)\<rparr>])"

definition z_row :: "nat \<Rightarrow> nat \<Rightarrow> pauli_row" where
  "z_row n q = (row_identity n)\<lparr>row_z := (replicate n False)[q := True]\<rparr>"

definition find_anticommuting :: "tableau \<Rightarrow> nat \<Rightarrow> nat option" where
  "find_anticommuting t q =
     find (\<lambda>i. row_anticommutes (tab_rows t ! i) (z_row (tab_n t) q)) [tab_n t..<2 * tab_n t]"

definition deterministic_scratch :: "tableau \<Rightarrow> nat \<Rightarrow> pauli_row" where
  "deterministic_scratch t q =
     (let n = tab_n t in
      fold (\<lambda>i scratch. if row_anticommutes (tab_rows t ! i) (z_row n q)
                        then row_product n scratch (tab_rows t ! (n + i)) else scratch)
        [0..<n] (row_identity n))"

definition measure_update :: "nat \<Rightarrow> nat \<Rightarrow> nat \<Rightarrow> bool \<Rightarrow> pauli_row list \<Rightarrow> pauli_row list" where
  "measure_update n q p outcome rows0 =
     (let rows1 = fold (\<lambda>i rows. if i \<noteq> p \<and> row_anticommutes (rows ! i) (z_row n q)
                                 then rowmult n i p rows else rows) [0..<2 * n] rows0;
          rows2 = rows1[p - n := rows1 ! p];
          rows3 = rows2[p := row_identity n]
      in rows3[p := (rows3 ! p)\<lparr>row_z := (row_z (rows3 ! p))[q := True], row_sign := outcome\<rparr>])"

text \<open>\<open>measure t q coin\<close>: the outcome and the tableau after it; \<open>None\<close> is the index panic of
  \<^verbatim>\<open>z_q.z[q] = true\<close>.\<close>

definition measure_qubit :: "tableau \<Rightarrow> nat \<Rightarrow> bool \<Rightarrow> (bool \<times> tableau) option" where
  "measure_qubit t q coin =
     (if tab_n t \<le> q then None
      else case find_anticommuting t q of
        Some p \<Rightarrow> Some (coin, t\<lparr>tab_rows := measure_update (tab_n t) q p coin (tab_rows t)\<rparr>)
      | None \<Rightarrow> Some (row_sign (deterministic_scratch t q), t))"

text \<open>The probabilities \<^verbatim>\<open>(p0, p1)\<close> are counted in halves: 0, 1 or 2.\<close>

definition measure_prob :: "tableau \<Rightarrow> nat \<Rightarrow> (nat \<times> nat) option" where
  "measure_prob t q =
     (if tab_n t \<le> q then None
      else if list_ex (\<lambda>i. row_anticommutes (tab_rows t ! i) (z_row (tab_n t) q))
                [tab_n t..<2 * tab_n t]
      then Some (1, 1)
      else if row_sign (deterministic_scratch t q) then Some (0, 2) else Some (2, 0))"

definition stabilizer :: "tableau \<Rightarrow> nat \<Rightarrow> pauli_row option" where
  "stabilizer t k =
     (if tab_n t + k < length (tab_rows t) then Some (tab_rows t ! (tab_n t + k)) else None)"

section \<open>Phases of products\<close>

definition wf_row :: "nat \<Rightarrow> pauli_row \<Rightarrow> bool" where
  "wf_row n r \<longleftrightarrow> row_n r = n \<and> length (row_x r) = n \<and> length (row_z r) = n"

definition site_phase :: "pauli_row \<Rightarrow> pauli_row \<Rightarrow> nat \<Rightarrow> int" where
  "site_phase a b q = pauli_mult_phase (row_x a ! q) (row_z a ! q) (row_x b ! q) (row_z b ! q)"

definition phase_sum :: "nat \<Rightarrow> pauli_row \<Rightarrow> pauli_row \<Rightarrow> int" where
  "phase_sum n a b = (\<Sum>q<n. site_phase a b q)"

lemma odd_pauli_mult_phase:
  "odd (pauli_mult_phase x1 z1 x2 z2) = bxor (x1 \<and> z2) (z1 \<and> x2)"
  by (cases x1; cases z1; cases x2; cases z2) simp_all

lemma odd_sum_parity: "odd (\<Sum>q<n. f q :: int) = parity_of (\<lambda>q. odd (f q)) n"
  by (induction n) auto

lemma row_anticommutes_parity:
  "row_anticommutes a b =
     parity_of (\<lambda>q. bxor (row_x a ! q \<and> row_z b ! q) (row_z a ! q \<and> row_x b ! q)) (row_n a)"
  unfolding row_anticommutes_def odd_length_filter_upt [symmetric] odd_iff_mod_2_eq_one ..

lemma row_anticommutes_phase: "row_n a = n \<Longrightarrow> row_anticommutes a b = odd (phase_sum n a b)"
  by (simp add: row_anticommutes_parity phase_sum_def site_phase_def odd_sum_parity
      odd_pauli_mult_phase)

lemma phase_sum_remove:
  assumes "q < n"
  shows "phase_sum n a b = (\<Sum>i\<in>{..<n} - {q}. site_phase a b i) + site_phase a b q"
  using assms unfolding phase_sum_def by (simp add: sum.remove [of "{..<n}" q])

lemma phase_sum_remove2:
  assumes "c < n" "t < n" "c \<noteq> t"
  shows "phase_sum n a b =
    (\<Sum>i\<in>{..<n} - {c} - {t}. site_phase a b i) + site_phase a b t + site_phase a b c"
  using assms phase_sum_remove [of c n a b] by (simp add: sum.remove [of "{..<n} - {c}" t])

subsection \<open>What the product loops compute\<close>

lemma product_loop_phase:
  "fst (product_loop qs a b ph res) = ph + sum_list (map (site_phase a b) qs)"
  by (induction qs a b ph res rule: product_loop.induct) (simp_all add: site_phase_def)

lemma product_loop_fields:
  "row_n (snd (product_loop qs a b ph res)) = row_n res \<and>
   row_sign (snd (product_loop qs a b ph res)) = row_sign res \<and>
   length (row_x (snd (product_loop qs a b ph res))) = length (row_x res) \<and>
   length (row_z (snd (product_loop qs a b ph res))) = length (row_z res)"
  by (induction qs a b ph res rule: product_loop.induct) simp_all

lemma product_loop_x:
  "distinct qs \<Longrightarrow> q < length (row_x res) \<Longrightarrow>
   row_x (snd (product_loop qs a b ph res)) ! q =
     (if q \<in> set qs then bxor (row_x res ! q) (row_x b ! q) else row_x res ! q)"
proof (induction qs a b ph res rule: product_loop.induct)
  case (2 q' qs a b ph res)
  then show ?case by (cases "q = q'") auto
qed simp

lemma product_loop_z:
  "distinct qs \<Longrightarrow> q < length (row_z res) \<Longrightarrow>
   row_z (snd (product_loop qs a b ph res)) ! q =
     (if q \<in> set qs then bxor (row_z res ! q) (row_z b ! q) else row_z res ! q)"
proof (induction qs a b ph res rule: product_loop.induct)
  case (2 q' qs a b ph res)
  then show ?case by (cases "q = q'") auto
qed simp

lemma rowmult_loop_product_loop:
  "(\<And>q. q \<in> set qs \<Longrightarrow> row_x ri ! q = row_x a ! q \<and> row_z ri ! q = row_z a ! q) \<Longrightarrow>
   distinct qs \<Longrightarrow> rowmult_loop qs rj ph ri = product_loop qs a rj ph ri"
proof (induction qs rj ph ri rule: rowmult_loop.induct)
  case (2 q qs rj ph ri)
  have eq: "row_x ri ! q = row_x a ! q" "row_z ri ! q = row_z a ! q" using "2.prems"(1) by auto
  have ne: "q' \<in> set qs \<Longrightarrow> q \<noteq> q'" for q' using "2.prems"(2) by auto
  show ?case
    unfolding rowmult_loop.simps product_loop.simps eq [symmetric]
    by (rule "2.IH") (use "2.prems" ne in auto)
qed simp

text \<open>The product of two well-formed rows, field by field.\<close>

lemma row_product_facts:
  assumes "wf_row n a" "wf_row n b"
  shows wf_row_product [row_simps]: "wf_row n (row_product n a b)"
    and row_product_x [row_simps]:
      "q < n \<Longrightarrow> row_x (row_product n a b) ! q = bxor (row_x a ! q) (row_x b ! q)"
    and row_product_z [row_simps]:
      "q < n \<Longrightarrow> row_z (row_product n a b) ! q = bxor (row_z a ! q) (row_z b ! q)"
    and row_product_sign [row_simps]:
      "row_sign (row_product n a b) =
         bxor (row_sign a) (bxor (row_sign b) (phase_sum n a b mod 4 = 2))"
proof -
  have ph: "fst (product_loop [0..<n] a b 0 a) = phase_sum n a b"
    by (simp add: product_loop_phase phase_sum_def interv_sum_list_conv_sum_set_nat atLeast0LessThan)
  note f = product_loop_fields [of "[0..<n]" a b 0 a]
  show "wf_row n (row_product n a b)"
    using assms f by (simp add: wf_row_def row_product_def Let_def split_beta)
  show "q < n \<Longrightarrow> row_x (row_product n a b) ! q = bxor (row_x a ! q) (row_x b ! q)"
    using assms by (simp add: wf_row_def row_product_def Let_def split_beta product_loop_x)
  show "q < n \<Longrightarrow> row_z (row_product n a b) ! q = bxor (row_z a ! q) (row_z b ! q)"
    using assms by (simp add: wf_row_def row_product_def Let_def split_beta product_loop_z)
  show "row_sign (row_product n a b) =
         bxor (row_sign a) (bxor (row_sign b) (phase_sum n a b mod 4 = 2))"
    using f by (simp add: row_product_def Let_def split_beta ph)
qed

lemma rowmult_product:
  assumes "i < length rows"
  shows "rowmult n i j rows = rows[i := row_product n (rows ! i) (rows ! j)]"
proof -
  have "rowmult_loop [0..<n] (rows ! j) 0 (rows ! i) =
        product_loop [0..<n] (rows ! i) (rows ! j) 0 (rows ! i)"
    by (rule rowmult_loop_product_loop) auto
  then show ?thesis by (simp add: rowmult_def row_product_def Let_def split_beta)
qed

lemma pauli_row_eqI:
  assumes "wf_row n a" "wf_row n b" "row_sign a = row_sign b"
    and "\<And>q. q < n \<Longrightarrow> row_x a ! q = row_x b ! q"
    and "\<And>q. q < n \<Longrightarrow> row_z a ! q = row_z b ! q"
  shows "a = b"
  using assms by (cases a, cases b) (auto simp: wf_row_def intro!: nth_equalityI)


section \<open>Gates as conjugations\<close>

text \<open>
  A gate's row update is a Clifford conjugation when it keeps the shape of a row, flips the sign
  by a bit \<open>d\<close> that depends on the Pauli string only, is linear on the strings, and shifts the
  accumulated phase of a product by the flips.  Everything the tableau needs of a gate follows.
  \<open>valid\<close> says that the gate's operands are distinct qubits of the register.
\<close>

locale clifford_gate =
  fixes n :: nat
    and valid :: bool
    and act :: "pauli_row \<Rightarrow> pauli_row"
    and d :: "pauli_row \<Rightarrow> bool"
  assumes act_wf: "valid \<Longrightarrow> wf_row n r \<Longrightarrow> wf_row n (act r)"
    and act_sign: "valid \<Longrightarrow> wf_row n r \<Longrightarrow> row_sign (act r) = bxor (row_sign r) (d r)"
    and act_linear_x: "valid \<Longrightarrow> wf_row n a \<Longrightarrow> wf_row n b \<Longrightarrow> q < n \<Longrightarrow>
      row_x (act (row_product n a b)) ! q = bxor (row_x (act a) ! q) (row_x (act b) ! q)"
    and act_linear_z: "valid \<Longrightarrow> wf_row n a \<Longrightarrow> wf_row n b \<Longrightarrow> q < n \<Longrightarrow>
      row_z (act (row_product n a b)) ! q = bxor (row_z (act a) ! q) (row_z (act b) ! q)"
    and act_phase: "valid \<Longrightarrow> wf_row n a \<Longrightarrow> wf_row n b \<Longrightarrow>
      phase_sum n (act a) (act b) mod 4 =
        (phase_sum n a b + 2 * (of_bool (d a) + of_bool (d b) + of_bool (d (row_product n a b)))) mod 4"
begin

lemma act_anticommutes:
  assumes "valid" "wf_row n a" "wf_row n b"
  shows "row_anticommutes (act a) (act b) = row_anticommutes a b"
proof -
  have "phase_sum n (act a) (act b) mod 4 mod 2 = phase_sum n a b mod 2"
    unfolding act_phase [OF assms] by presburger
  then have "odd (phase_sum n (act a) (act b)) = odd (phase_sum n a b)"
    by presburger
  with assms act_wf show ?thesis by (simp add: row_anticommutes_phase wf_row_def)
qed

lemma act_product:
  assumes v: "valid" and wf: "wf_row n a" "wf_row n b" and comm: "\<not> row_anticommutes a b"
  shows "act (row_product n a b) = row_product n (act a) (act b)"
proof (rule pauli_row_eqI)
  note wfs = wf act_wf [OF v wf(1)] act_wf [OF v wf(2)] wf_row_product [OF wf]
  show "wf_row n (act (row_product n a b))" "wf_row n (row_product n (act a) (act b))"
    using wfs v by (auto intro: act_wf wf_row_product)
  have ev: "even (phase_sum n a b)"
    using comm wf by (simp add: row_anticommutes_phase wf_row_def)
  have "(phase_sum n (act a) (act b) mod 4 = 2) =
      bxor (phase_sum n a b mod 4 = 2) (bxor (d a) (bxor (d b) (d (row_product n a b))))"
    unfolding act_phase [OF v wf]
    using ev by (cases "d a"; cases "d b"; cases "d (row_product n a b)"; simp; presburger)
  then show "row_sign (act (row_product n a b)) = row_sign (row_product n (act a) (act b))"
    using wfs v by (auto simp: act_sign row_product_sign)
qed (use v wf in \<open>simp_all add: act_linear_x act_linear_z row_simps act_wf\<close>)

end

text \<open>A gate on one qubit, given by what it does to the two bits of that qubit.\<close>

locale one_qubit_gate =
  fixes n q :: nat
    and act :: "pauli_row \<Rightarrow> pauli_row"
    and gx gz gs :: "bool \<Rightarrow> bool \<Rightarrow> bool"
  assumes act_eq: "act r = r\<lparr>row_sign := bxor (row_sign r) (gs (row_x r ! q) (row_z r ! q)),
      row_x := (row_x r)[q := gx (row_x r ! q) (row_z r ! q)],
      row_z := (row_z r)[q := gz (row_x r ! q) (row_z r ! q)]\<rparr>"
    and gx_linear: "gx (bxor x1 x2) (bxor z1 z2) = bxor (gx x1 z1) (gx x2 z2)"
    and gz_linear: "gz (bxor x1 x2) (bxor z1 z2) = bxor (gz x1 z1) (gz x2 z2)"
    and g_phase: "pauli_mult_phase (gx x1 z1) (gz x1 z1) (gx x2 z2) (gz x2 z2) mod 4 =
      (pauli_mult_phase x1 z1 x2 z2 +
        2 * (of_bool (gs x1 z1) + of_bool (gs x2 z2) + of_bool (gs (bxor x1 x2) (bxor z1 z2)))) mod 4"

sublocale one_qubit_gate \<subseteq> clifford_gate n "q < n" act "\<lambda>r. gs (row_x r ! q) (row_z r ! q)"
proof unfold_locales
  fix a b :: pauli_row and q' :: nat
  assume v: "q < n" and wf: "wf_row n a" "wf_row n b"
  show "row_x (act (row_product n a b)) ! q' = bxor (row_x (act a) ! q') (row_x (act b) ! q')"
    if "q' < n"
    using v wf that wf_row_product [OF wf]
      gx_linear [of "row_x a ! q" "row_x b ! q" "row_z a ! q" "row_z b ! q"]
    by (cases "q' = q") (simp_all add: act_eq row_simps wf_row_def)
  show "row_z (act (row_product n a b)) ! q' = bxor (row_z (act a) ! q') (row_z (act b) ! q')"
    if "q' < n"
    using v wf that wf_row_product [OF wf]
      gz_linear [of "row_x a ! q" "row_x b ! q" "row_z a ! q" "row_z b ! q"]
    by (cases "q' = q") (simp_all add: act_eq row_simps wf_row_def)
  let ?S = "\<Sum>i\<in>{..<n} - {q}. site_phase a b i"
  have others: "(\<Sum>i\<in>{..<n} - {q}. site_phase (act a) (act b) i) = ?S"
    by (rule sum.cong) (auto simp: act_eq site_phase_def)
  have "site_phase (act a) (act b) q mod 4 = (site_phase a b q + 2 *
      (of_bool (gs (row_x a ! q) (row_z a ! q)) + of_bool (gs (row_x b ! q) (row_z b ! q)) +
       of_bool (gs (row_x (row_product n a b) ! q) (row_z (row_product n a b) ! q)))) mod 4"
    using v wf by (simp add: site_phase_def act_eq wf_row_def g_phase row_product_x [OF wf v]
        row_product_z [OF wf v])
  from mod_add_cong [OF refl this, of ?S]
  show "phase_sum n (act a) (act b) mod 4 = (phase_sum n a b + 2 *
      (of_bool (gs (row_x a ! q) (row_z a ! q)) + of_bool (gs (row_x b ! q) (row_z b ! q)) +
       of_bool (gs (row_x (row_product n a b) ! q) (row_z (row_product n a b) ! q)))) mod 4"
    using v by (simp add: phase_sum_remove others add.assoc)
qed (simp_all add: act_eq wf_row_def)

text \<open>The nine gates of the tableau are conjugations.\<close>

interpretation h: one_qubit_gate n q "row_h q"
  "\<lambda>x z. z" "\<lambda>x z. x" "\<lambda>x z. x \<and> z" for n q
proof
  fix x1 z1 x2 z2
  show "pauli_mult_phase (z1) (x1) (z2) (x2) mod 4 =
    (pauli_mult_phase x1 z1 x2 z2 + 2 * (of_bool (x1 \<and> z1) + of_bool (x2 \<and> z2) +
      of_bool ((bxor x1 x2) \<and> (bxor z1 z2)))) mod 4"
    by (cases x1; cases z1; cases x2; cases z2) simp_all
qed (auto simp: row_h_def)

interpretation s: one_qubit_gate n q "row_s q"
  "\<lambda>x z. x" "\<lambda>x z. bxor z x" "\<lambda>x z. x \<and> z" for n q
proof
  fix x1 z1 x2 z2
  show "pauli_mult_phase (x1) (bxor z1 x1) (x2) (bxor z2 x2) mod 4 =
    (pauli_mult_phase x1 z1 x2 z2 + 2 * (of_bool (x1 \<and> z1) + of_bool (x2 \<and> z2) +
      of_bool ((bxor x1 x2) \<and> (bxor z1 z2)))) mod 4"
    by (cases x1; cases z1; cases x2; cases z2) simp_all
qed (auto simp: row_s_def)

interpretation sdg: one_qubit_gate n q "row_sdg q"
  "\<lambda>x z. x" "\<lambda>x z. bxor z x" "\<lambda>x z. x \<and> \<not> z" for n q
proof
  fix x1 z1 x2 z2
  show "pauli_mult_phase (x1) (bxor z1 x1) (x2) (bxor z2 x2) mod 4 =
    (pauli_mult_phase x1 z1 x2 z2 + 2 * (of_bool (x1 \<and> \<not> z1) + of_bool (x2 \<and> \<not> z2) +
      of_bool ((bxor x1 x2) \<and> \<not> (bxor z1 z2)))) mod 4"
    by (cases x1; cases z1; cases x2; cases z2) simp_all
qed (auto simp: row_sdg_def)

interpretation sx: one_qubit_gate n q "row_sx q"
  "\<lambda>x z. bxor x z" "\<lambda>x z. z" "\<lambda>x z. z \<and> \<not> x" for n q
proof
  fix x1 z1 x2 z2
  show "pauli_mult_phase (bxor x1 z1) (z1) (bxor x2 z2) (z2) mod 4 =
    (pauli_mult_phase x1 z1 x2 z2 + 2 * (of_bool (z1 \<and> \<not> x1) + of_bool (z2 \<and> \<not> x2) +
      of_bool ((bxor z1 z2) \<and> \<not> (bxor x1 x2)))) mod 4"
    by (cases x1; cases z1; cases x2; cases z2) simp_all
qed (auto simp: row_sx_def)

interpretation sxdg: one_qubit_gate n q "row_sxdg q"
  "\<lambda>x z. bxor x z" "\<lambda>x z. z" "\<lambda>x z. z \<and> x" for n q
proof
  fix x1 z1 x2 z2
  show "pauli_mult_phase (bxor x1 z1) (z1) (bxor x2 z2) (z2) mod 4 =
    (pauli_mult_phase x1 z1 x2 z2 + 2 * (of_bool (z1 \<and> x1) + of_bool (z2 \<and> x2) +
      of_bool ((bxor z1 z2) \<and> (bxor x1 x2)))) mod 4"
    by (cases x1; cases z1; cases x2; cases z2) simp_all
qed (auto simp: row_sxdg_def)

interpretation px: one_qubit_gate n q "row_pauli_x q"
  "\<lambda>x z. x" "\<lambda>x z. z" "\<lambda>x z. z" for n q
proof
  fix x1 z1 x2 z2
  show "pauli_mult_phase (x1) (z1) (x2) (z2) mod 4 =
    (pauli_mult_phase x1 z1 x2 z2 + 2 * (of_bool (z1) + of_bool (z2) +
      of_bool ((bxor z1 z2)))) mod 4"
    by (cases x1; cases z1; cases x2; cases z2) simp_all
qed (auto simp: row_pauli_x_def)

interpretation py: one_qubit_gate n q "row_pauli_y q"
  "\<lambda>x z. x" "\<lambda>x z. z" "\<lambda>x z. bxor x z" for n q
proof
  fix x1 z1 x2 z2
  show "pauli_mult_phase (x1) (z1) (x2) (z2) mod 4 =
    (pauli_mult_phase x1 z1 x2 z2 + 2 * (of_bool (bxor x1 z1) + of_bool (bxor x2 z2) +
      of_bool (bxor (bxor x1 x2) (bxor z1 z2)))) mod 4"
    by (cases x1; cases z1; cases x2; cases z2) simp_all
qed (auto simp: row_pauli_y_def)

interpretation pz: one_qubit_gate n q "row_pauli_z q"
  "\<lambda>x z. x" "\<lambda>x z. z" "\<lambda>x z. x" for n q
proof
  fix x1 z1 x2 z2
  show "pauli_mult_phase (x1) (z1) (x2) (z2) mod 4 =
    (pauli_mult_phase x1 z1 x2 z2 + 2 * (of_bool (x1) + of_bool (x2) +
      of_bool ((bxor x1 x2)))) mod 4"
    by (cases x1; cases z1; cases x2; cases z2) simp_all
qed (auto simp: row_pauli_z_def)


lemma cx_site_phases:
  "(pauli_mult_phase xc1 (bxor zc1 zt1) xc2 (bxor zc2 zt2) +
    pauli_mult_phase (bxor xt1 xc1) zt1 (bxor xt2 xc2) zt2) mod 4 =
   (pauli_mult_phase xc1 zc1 xc2 zc2 + pauli_mult_phase xt1 zt1 xt2 zt2 +
     2 * (of_bool (xc1 \<and> zt1 \<and> bxor (bxor xt1 zc1) True) +
          of_bool (xc2 \<and> zt2 \<and> bxor (bxor xt2 zc2) True) +
          of_bool (bxor xc1 xc2 \<and> bxor zt1 zt2 \<and>
            bxor (bxor (bxor xt1 xt2) (bxor zc1 zc2)) True))) mod 4"
  by (cases xc1; cases zc1; cases xt1; cases zt1; cases xc2; cases zc2; cases xt2; cases zt2)
    simp_all

interpretation cx: clifford_gate n "c < n \<and> t < n \<and> c \<noteq> t" "row_cx c t"
  "\<lambda>r. row_x r ! c \<and> row_z r ! t \<and> bxor (bxor (row_x r ! t) (row_z r ! c)) True" for n c t
proof
  fix a b q
  assume v: "c < n \<and> t < n \<and> c \<noteq> t" and wf: "wf_row n a" "wf_row n b"
  note p = row_product_x [OF wf] row_product_z [OF wf]
  show "row_x (row_cx c t (row_product n a b)) ! q =
      bxor (row_x (row_cx c t a) ! q) (row_x (row_cx c t b) ! q)" if "q < n"
    using v wf that wf_row_product [OF wf]
    by (cases "q = t") (auto simp: row_cx_def Let_def p wf_row_def)
  show "row_z (row_cx c t (row_product n a b)) ! q =
      bxor (row_z (row_cx c t a) ! q) (row_z (row_cx c t b) ! q)" if "q < n"
    using v wf that wf_row_product [OF wf]
    by (cases "q = c") (auto simp: row_cx_def Let_def p wf_row_def)
  let ?d = "\<lambda>r. row_x r ! c \<and> row_z r ! t \<and> bxor (bxor (row_x r ! t) (row_z r ! c)) True"
  let ?S = "\<Sum>i\<in>{..<n} - {c} - {t}. site_phase a b i"
  have others: "(\<Sum>i\<in>{..<n} - {c} - {t}. site_phase (row_cx c t a) (row_cx c t b) i) = ?S"
    by (rule sum.cong) (auto simp: row_cx_def Let_def site_phase_def)
  have "(site_phase (row_cx c t a) (row_cx c t b) c +
         site_phase (row_cx c t a) (row_cx c t b) t) mod 4 =
    (site_phase a b c + site_phase a b t + 2 * (of_bool (?d a) + of_bool (?d b) +
      of_bool (?d (row_product n a b)))) mod 4"
    using v wf cx_site_phases [of "row_x a ! c" "row_z a ! c" "row_z a ! t" "row_x b ! c"
      "row_z b ! c" "row_z b ! t" "row_x a ! t" "row_x b ! t"]
    by (simp add: site_phase_def row_cx_def Let_def wf_row_def p)
  from mod_add_cong [OF refl this, of ?S]
  show "phase_sum n (row_cx c t a) (row_cx c t b) mod 4 = (phase_sum n a b + 2 *
      (of_bool (?d a) + of_bool (?d b) + of_bool (?d (row_product n a b)))) mod 4"
    using v by (simp add: phase_sum_remove2 [of c n t] others algebra_simps)
qed (auto simp: row_cx_def Let_def wf_row_def)

section \<open>The symplectic invariant of a tableau\<close>

text \<open>
  Rows \<open>i\<close> and \<open>j\<close> anticommute exactly when one is the destabilizer paired with the other
  stabilizer.  In particular the stabilizers commute with each other.
\<close>

definition tab_inv :: "tableau \<Rightarrow> bool" where
  "tab_inv t \<longleftrightarrow> length (tab_rows t) = 2 * tab_n t \<and>
     list_all (wf_row (tab_n t)) (tab_rows t) \<and>
     (\<forall>i < 2 * tab_n t. \<forall>j < 2 * tab_n t.
        row_anticommutes (tab_rows t ! i) (tab_rows t ! j) = (i + tab_n t = j \<or> j + tab_n t = i))"

lemma tab_inv_wf: "tab_inv t \<Longrightarrow> i < 2 * tab_n t \<Longrightarrow> wf_row (tab_n t) (tab_rows t ! i)"
  by (auto simp: tab_inv_def list_all_length)

lemma tab_inv_anticommutes:
  "tab_inv t \<Longrightarrow> i < 2 * tab_n t \<Longrightarrow> j < 2 * tab_n t \<Longrightarrow>
   row_anticommutes (tab_rows t ! i) (tab_rows t ! j) = (i + tab_n t = j \<or> j + tab_n t = i)"
  by (auto simp: tab_inv_def)

context clifford_gate begin

lemma each_row_inv:
  assumes "each_row qs act t = Some t'" "tab_inv t" "tab_n t = n" "valid"
  shows "tab_inv t' \<and> tab_n t' = n"
proof -
  from assms(1) have t': "t' = t\<lparr>tab_rows := map act (tab_rows t)\<rparr>"
    by (simp add: each_row_def split: if_splits)
  show ?thesis
    using assms unfolding t' tab_inv_def
    by (auto simp: list_all_length act_wf act_anticommutes)
qed

end

lemma row_anticommutes_replicate:
  "row_anticommutes \<lparr>row_n = n, row_x = xs, row_z = replicate n False, row_sign = s\<rparr>
     \<lparr>row_n = n, row_x = ys, row_z = replicate n False, row_sign = s'\<rparr> = False"
  "row_anticommutes \<lparr>row_n = n, row_x = replicate n False, row_z = xs, row_sign = s\<rparr>
     \<lparr>row_n = n, row_x = replicate n False, row_z = ys, row_sign = s'\<rparr> = False"
  by (auto simp: row_anticommutes_parity intro!: parity_of_False)

lemma row_anticommutes_units:
  assumes "i < n" "j < n"
  shows "row_anticommutes \<lparr>row_n = n, row_x = (replicate n False)[i := True],
            row_z = replicate n False, row_sign = s\<rparr>
     \<lparr>row_n = n, row_x = replicate n False, row_z = (replicate n False)[j := True], row_sign = s'\<rparr>
     = (i = j)"
    and "row_anticommutes \<lparr>row_n = n, row_x = replicate n False,
            row_z = (replicate n False)[i := True], row_sign = s\<rparr>
     \<lparr>row_n = n, row_x = (replicate n False)[j := True], row_z = replicate n False, row_sign = s'\<rparr>
     = (i = j)"
proof -
  have eq: "parity_of (\<lambda>q. (replicate n False)[i := True] ! q \<and> (replicate n False)[j := True] ! q) n
      = parity_of (\<lambda>q. q = i \<and> i = j) n"
    using assms by (intro parity_of_cong) (auto simp: nth_list_update)
  have "parity_of (\<lambda>q. q = i \<and> i = j) n = (i = j)"
    using assms parity_of_single [of i n "\<lambda>_. i = j"] by simp
  with eq have e: "parity_of (\<lambda>q. (replicate n False)[i := True] ! q \<and> (replicate n False)[j := True] ! q) n
      = (i = j)" by simp
  show "row_anticommutes \<lparr>row_n = n, row_x = (replicate n False)[i := True],
            row_z = replicate n False, row_sign = s\<rparr>
     \<lparr>row_n = n, row_x = replicate n False, row_z = (replicate n False)[j := True], row_sign = s'\<rparr>
     = (i = j)"
    by (simp add: row_anticommutes_parity flip: e, rule parity_of_cong) simp
  show "row_anticommutes \<lparr>row_n = n, row_x = replicate n False,
            row_z = (replicate n False)[i := True], row_sign = s\<rparr>
     \<lparr>row_n = n, row_x = (replicate n False)[j := True], row_z = replicate n False, row_sign = s'\<rparr>
     = (i = j)"
    by (simp add: row_anticommutes_parity flip: e, rule parity_of_cong) simp
qed

lemma zero_state_inv: "tab_inv (zero_state n)"
proof -
  have "row_anticommutes (tab_rows (zero_state n) ! i) (tab_rows (zero_state n) ! j) =
      (i + n = j \<or> j + n = i)" if "i < 2 * n" "j < 2 * n" for i j
    using that
    by (cases "i < n"; cases "j < n")
      (auto simp: zero_state_def nth_append row_identity_def row_anticommutes_replicate
        row_anticommutes_units)
  then show ?thesis
    by (auto simp: tab_inv_def zero_state_def list_all_iff wf_row_def row_identity_def)
qed

section \<open>Measurement\<close>

lemma wf_z_row [row_simps]: "wf_row n (z_row n q)"
  by (simp add: z_row_def row_identity_def wf_row_def)

lemma wf_row_identity [row_simps]: "wf_row n (row_identity n)"
  by (simp add: row_identity_def wf_row_def)

lemma anticommutes_z_row:
  assumes "wf_row n r" "q < n"
  shows "row_anticommutes r (z_row n q) = row_x r ! q"
proof -
  have "row_anticommutes r (z_row n q) = parity_of (\<lambda>i. i = q \<and> row_x r ! i) n"
    using assms unfolding row_anticommutes_parity
    by (simp add: wf_row_def z_row_def row_identity_def, intro parity_of_cong)
      (auto simp: nth_list_update)
  then show ?thesis using assms(2) by (simp add: parity_of_single)
qed

lemma row_anticommutes_sym:
  "row_n a = row_n b \<Longrightarrow> row_anticommutes a b = row_anticommutes b a"
  unfolding row_anticommutes_parity by (simp, intro parity_of_cong) auto

lemma row_anticommutes_wf_sym:
  "wf_row n a \<Longrightarrow> wf_row n b \<Longrightarrow> row_anticommutes a b = row_anticommutes b a"
  by (rule row_anticommutes_sym) (simp add: wf_row_def)

lemma row_anticommutes_cong:
  assumes "wf_row n a" "wf_row n a'"
    and "\<And>q. q < n \<Longrightarrow> row_x a ! q = row_x a' ! q" "\<And>q. q < n \<Longrightarrow> row_z a ! q = row_z a' ! q"
  shows "row_anticommutes a b = row_anticommutes a' b"
  using assms unfolding row_anticommutes_parity wf_row_def by (simp, intro parity_of_cong) auto

lemma row_anticommutes_product:
  assumes "wf_row n a" "wf_row n b"
  shows "row_anticommutes (row_product n a b) c = bxor (row_anticommutes a c) (row_anticommutes b c)"
proof -
  have n: "row_n (row_product n a b) = n" "row_n a = n" "row_n b = n"
    using assms wf_row_product [OF assms] by (auto simp: wf_row_def)
  show ?thesis
    unfolding row_anticommutes_parity n parity_of_bxor [symmetric]
    by (intro parity_of_cong) (auto simp: row_simps assms)
qed

lemma row_anticommutes_self: "\<not> row_anticommutes a a"
  unfolding row_anticommutes_parity by (rule parity_of_False) auto

text \<open>The row-by-row elimination of \<^verbatim>\<open>measure\<close>.\<close>

lemma measure_fold_nth:
  assumes "m \<le> length rows" "k < length rows" "p < length rows"
  shows "length (fold (\<lambda>i rows. if i \<noteq> p \<and> row_anticommutes (rows ! i) z
              then rowmult n i p rows else rows) [0..<m] rows) = length rows \<and>
    fold (\<lambda>i rows. if i \<noteq> p \<and> row_anticommutes (rows ! i) z
              then rowmult n i p rows else rows) [0..<m] rows ! k =
      (if k < m \<and> k \<noteq> p \<and> row_anticommutes (rows ! k) z
       then row_product n (rows ! k) (rows ! p) else rows ! k)"
  using assms
proof (induction m arbitrary: k)
  case (Suc m)
  let ?F = "fold (\<lambda>i rows. if i \<noteq> p \<and> row_anticommutes (rows ! i) z
              then rowmult n i p rows else rows) [0..<m] rows"
  have IH: "length ?F = length rows" "?F ! m = rows ! m" "?F ! p = rows ! p"
    "?F ! k = (if k < m \<and> k \<noteq> p \<and> row_anticommutes (rows ! k) z
       then row_product n (rows ! k) (rows ! p) else rows ! k)"
    using Suc.IH [of m] Suc.IH [of p] Suc.IH [of k] Suc.prems by auto
  show ?case
  proof (cases "k = m")
    case True
    then show ?thesis using Suc.prems IH by (auto simp: rowmult_product)
  next
    case False
    have "m \<noteq> p \<and> row_anticommutes (?F ! m) z \<Longrightarrow>
        rowmult n m p ?F ! k = ?F ! k \<and> length (rowmult n m p ?F) = length rows"
      using False Suc.prems IH(1) by (simp add: rowmult_product)
    with False IH show ?thesis by auto
  qed
qed simp

lemma measure_update_nth:
  assumes "length rows = 2 * n" "n \<le> p" "p < 2 * n" "k < 2 * n"
  shows "measure_update n q p outcome rows ! k =
    (if k = p then (z_row n q)\<lparr>row_sign := outcome\<rparr>
     else if k = p - n then rows ! p
     else if row_anticommutes (rows ! k) (z_row n q) then row_product n (rows ! k) (rows ! p)
     else rows ! k)"
    and "length (measure_update n q p outcome rows) = 2 * n"
proof -
  let ?F = "fold (\<lambda>i rows. if i \<noteq> p \<and> row_anticommutes (rows ! i) (z_row n q)
              then rowmult n i p rows else rows) [0..<2 * n] rows"
  have f: "length ?F = 2 * n" "?F ! p = rows ! p"
    "?F ! k = (if k \<noteq> p \<and> row_anticommutes (rows ! k) (z_row n q)
       then row_product n (rows ! k) (rows ! p) else rows ! k)"
    using measure_fold_nth [of "2 * n" rows k p] measure_fold_nth [of "2 * n" rows p p] assms
    by auto
  have zr: "row_z (row_identity n) = replicate n False" by (simp add: row_identity_def)
  show "measure_update n q p outcome rows ! k =
    (if k = p then (z_row n q)\<lparr>row_sign := outcome\<rparr>
     else if k = p - n then rows ! p
     else if row_anticommutes (rows ! k) (z_row n q) then row_product n (rows ! k) (rows ! p)
     else rows ! k)"
    using f assms unfolding measure_update_def Let_def
    by (auto simp: nth_list_update z_row_def zr)
  show "length (measure_update n q p outcome rows) = 2 * n"
    using f unfolding measure_update_def Let_def by simp
qed

lemma find_anticommuting_Some:
  assumes "find_anticommuting t q = Some p"
  shows "tab_n t \<le> p \<and> p < 2 * tab_n t \<and> row_anticommutes (tab_rows t ! p) (z_row (tab_n t) q)"
  using assms unfolding find_anticommuting_def find_Some_iff by auto

lemma find_anticommuting_None:
  "find_anticommuting t q = None \<longleftrightarrow>
   (\<forall>i. tab_n t \<le> i \<and> i < 2 * tab_n t \<longrightarrow> \<not> row_anticommutes (tab_rows t ! i) (z_row (tab_n t) q))"
  unfolding find_anticommuting_def find_None_iff by auto

lemma measured_row_x:
  assumes inv: "tab_inv t" and q: "q < tab_n t" and p: "find_anticommuting t q = Some p"
    and k: "k < 2 * tab_n t"
  shows "wf_row (tab_n t) (measure_update (tab_n t) q p out (tab_rows t) ! k)"
    and "row_x (measure_update (tab_n t) q p out (tab_rows t) ! k) ! q = (k = p - tab_n t)"
proof -
  note ps = find_anticommuting_Some [OF p]
  have len: "length (tab_rows t) = 2 * tab_n t" using inv by (simp add: tab_inv_def)
  have wf: "wf_row (tab_n t) (tab_rows t ! i)" if "i < 2 * tab_n t" for i
    using inv that by (rule tab_inv_wf)
  note n = measure_update_nth(1) [OF len, of p k] 
  have zwf: "wf_row (tab_n t) ((z_row (tab_n t) q)\<lparr>row_sign := out\<rparr>)"
    using wf_z_row [of "tab_n t" q] by (simp add: wf_row_def)
  show "wf_row (tab_n t) (measure_update (tab_n t) q p out (tab_rows t) ! k)"
    using n ps k zwf wf by (auto intro!: wf_row_product)
  have xp: "row_x (tab_rows t ! p) ! q"
    using ps anticommutes_z_row [OF wf q] by auto
  have zx: "row_x (z_row (tab_n t) q) ! q = False"
    using q by (simp add: z_row_def row_identity_def)
  show "row_x (measure_update (tab_n t) q p out (tab_rows t) ! k) ! q = (k = p - tab_n t)"
    using n ps k xp zx q wf
    by (auto simp: anticommutes_z_row [OF wf q] row_product_x [OF wf wf q])
qed


lemma measure_update_inv:
  assumes inv: "tab_inv t" and q: "q < tab_n t" and p: "find_anticommuting t q = Some p"
  shows "tab_inv (t\<lparr>tab_rows := measure_update (tab_n t) q p out (tab_rows t)\<rparr>)"
proof -
  define n where "n = tab_n t"
  define R where "R = tab_rows t"
  define S where "S = measure_update n q p out R"
  have ps: "n \<le> p" "p < 2 * n" and pz: "row_anticommutes (R ! p) (z_row n q)"
    using find_anticommuting_Some [OF p] by (auto simp: n_def R_def)
  have len: "length R = 2 * n" using inv by (simp add: tab_inv_def n_def R_def)
  have wf: "wf_row n (R ! i)" if "i < 2 * n" for i
    using inv that unfolding n_def R_def by (rule tab_inv_wf)
  have anti: "row_anticommutes (R ! i) (R ! j) = (i + n = j \<or> j + n = i)"
    if "i < 2 * n" "j < 2 * n" for i j
    using inv that unfolding n_def R_def by (rule tab_inv_anticommutes)
  have wfS: "wf_row n (S ! i)" if "i < 2 * n" for i
    using measured_row_x(1) [OF inv q p] that unfolding S_def n_def R_def by auto
  have Sk: "S ! k = (if k = p then (z_row n q)\<lparr>row_sign := out\<rparr> else if k = p - n then R ! p
     else if row_anticommutes (R ! k) (z_row n q) then row_product n (R ! k) (R ! p) else R ! k)"
    if "k < 2 * n" for k
    unfolding S_def by (rule measure_update_nth(1) [OF len ps that])
  have Zanti: "row_anticommutes (S ! i) ((z_row n q)\<lparr>row_sign := out\<rparr>) = (i = p - n)"
    if "i < 2 * n" for i
  proof -
    have "row_anticommutes (S ! i) ((z_row n q)\<lparr>row_sign := out\<rparr>) = row_anticommutes (S ! i) (z_row n q)"
      by (simp add: row_anticommutes_def)
    also have "\<dots> = row_x (S ! i) ! q"
      using q that wfS by (intro anticommutes_z_row) (auto simp flip: n_def)
    finally show ?thesis
      using measured_row_x(2) [OF inv q p] that unfolding S_def n_def R_def by auto
  qed
  have sym: "row_anticommutes (S ! i) (S ! j) = row_anticommutes (S ! j) (S ! i)"
    if "i < 2 * n" "j < 2 * n" for i j
    using wfS that by (intro row_anticommutes_wf_sym) auto
  have comp: "row_anticommutes (S ! i) c = bxor (row_anticommutes (R ! i) c)
      (row_anticommutes (R ! i) (z_row n q) \<and> row_anticommutes (R ! p) c)"
    if "i < 2 * n" "i \<noteq> p" "i \<noteq> p - n" for i c
    using that Sk [of i] ps wf by (auto simp: row_anticommutes_product)
  have compr: "row_anticommutes (R ! i) (S ! j) = bxor (row_anticommutes (R ! i) (R ! j))
      (row_anticommutes (R ! j) (z_row n q) \<and> row_anticommutes (R ! i) (R ! p))"
    if "i < 2 * n" "j < 2 * n" "j \<noteq> p" "j \<noteq> p - n" for i j
  proof -
    have "row_anticommutes (R ! i) (S ! j) = row_anticommutes (S ! j) (R ! i)"
      using wf [of i] wfS [of j] that by (intro row_anticommutes_wf_sym) auto
    then show ?thesis
      using comp [of j "R ! i"] that anti [of j i] anti [of i j] anti [of p i] anti [of i p] ps by auto
  qed
  have main: "row_anticommutes (S ! i) (S ! j) = (i + n = j \<or> j + n = i)"
    if ij: "i < 2 * n" "j < 2 * n" for i j
  proof -
    consider "i = p" | "j = p" | "i = p - n" "j = p - n" | "i = p - n" "j \<noteq> p" "j \<noteq> p - n"
      | "j = p - n" "i \<noteq> p" "i \<noteq> p - n" | "i \<noteq> p" "i \<noteq> p - n" "j \<noteq> p" "j \<noteq> p - n"
      by blast
    then show ?thesis
    proof cases
      case 1
      then show ?thesis using sym [OF ij] Zanti [OF ij(2)] Sk [of p] ps ij by auto
    next
      case 2
      then show ?thesis using Zanti [OF ij(1)] Sk [of p] ps ij by auto
    next
      case 3
      then show ?thesis using ps by (simp add: row_anticommutes_self)
    next
      case 4
      then show ?thesis
        using Sk [of i] ps ij compr [of p j] anti [of p j] anti [of p p] by auto
    next
      case 5
      then show ?thesis
        using Sk [of j] ps ij comp [of i "R ! p"] anti [of i p] anti [of p p] by auto
    next
      case 6
      have "\<not> row_anticommutes (R ! i) (R ! p)" "\<not> row_anticommutes (R ! p) (R ! j)"
        using 6 ij ps anti [of i p] anti [of p j] by auto
      then have "row_anticommutes (R ! i) (S ! j) = row_anticommutes (R ! i) (R ! j)"
        "\<not> row_anticommutes (R ! p) (S ! j)"
        using 6 ij ps by (simp_all add: compr row_anticommutes_self)
      then show ?thesis using 6 ij by (simp add: comp anti)
    qed
  qed
  have "length S = 2 * n" unfolding S_def by (rule measure_update_nth(2) [OF len ps, of 0]) (use ps in auto)
  then have "tab_inv (t\<lparr>tab_rows := S\<rparr>)"
    using main wfS unfolding tab_inv_def by (auto simp: list_all_length n_def)
  then show ?thesis unfolding S_def n_def R_def .
qed

lemma measure_qubit_inv:
  assumes "measure_qubit t q coin = Some (out, t')" "tab_inv t"
  shows "tab_inv t' \<and> tab_n t' = tab_n t"
  using assms measure_update_inv
  by (auto simp: measure_qubit_def split: if_splits option.splits)

text \<open>After a measurement the outcome is pinned: the deterministic branch reads it back.\<close>

lemma row_product_identity:
  assumes "wf_row n r"
  shows "row_product n (row_identity n) r = r"
proof -
  have "phase_sum n (row_identity n) r = 0"
    by (simp add: phase_sum_def site_phase_def row_identity_def)
  then show ?thesis
    using assms wf_row_identity [of n]
    by (intro pauli_row_eqI [of n]) (simp_all add: row_simps row_identity_def)
qed

lemma fold_single:
  assumes "k < n" "\<And>i. i < n \<Longrightarrow> P i = (i = k)"
  shows "fold (\<lambda>i s. if P i then f s i else s) [0..<n] s0 = f s0 k"
proof -
  have skip: "fold (\<lambda>i s. if P i then f s i else s) is s = s" if "\<forall>i \<in> set is. \<not> P i" for "is" s
    using that by (induction "is") auto
  have "[0..<n] = [0..<k] @ [k..<n]"
    using assms(1) upt_add_eq_append [of 0 k "n - k"] by simp
  then have "[0..<n] = [0..<k] @ k # [Suc k..<n]" using assms(1) by (simp add: upt_conv_Cons)
  then show ?thesis using assms by (simp add: skip)
qed

lemma measure_repeat:
  assumes inv: "tab_inv t" and m: "measure_qubit t q coin = Some (out, t')"
  shows "measure_qubit t' q coin' = Some (out, t')"
proof (cases "find_anticommuting t q")
  case None
  then show ?thesis using m by (auto simp: measure_qubit_def split: if_splits)
next
  case (Some p)
  define n where "n = tab_n t"
  define S where "S = measure_update n q p coin (tab_rows t)"
  have q: "q < n" and out: "out = coin" and t': "t' = t\<lparr>tab_rows := S\<rparr>"
    using m Some by (auto simp: measure_qubit_def n_def S_def split: if_splits)
  have ps: "n \<le> p" "p < 2 * n" using find_anticommuting_Some [OF Some] by (auto simp: n_def)
  have len: "length (tab_rows t) = 2 * n" using inv by (simp add: tab_inv_def n_def)
  note x = measured_row_x [OF inv q [unfolded n_def] Some, of _ coin, folded n_def, folded S_def]
  have n': "tab_n t' = n" "tab_rows t' = S" by (simp_all add: t' n_def)
  have anti: "row_anticommutes (S ! i) (z_row n q) = (i = p - n)" if "i < 2 * n" for i
    using x that q by (simp add: anticommutes_z_row)
  have none: "find_anticommuting t' q = None"
    using anti ps by (auto simp: find_anticommuting_None t' n_def [symmetric])
  have Sp: "S ! p = (z_row n q)\<lparr>row_sign := coin\<rparr>"
    unfolding S_def using measure_update_nth(1) [OF len ps ps(2)] by simp
  have "deterministic_scratch t' q = row_product n (row_identity n) (S ! (n + (p - n)))"
    unfolding deterministic_scratch_def Let_def n'
    by (rule fold_single) (use ps anti in auto)
  also have "\<dots> = S ! p"
    using ps x by (simp add: row_product_identity)
  finally have "row_sign (deterministic_scratch t' q) = coin" by (simp add: Sp)
  then show ?thesis using none q by (simp add: measure_qubit_def t' n_def out)
qed

text \<open>\<open>measure_prob\<close> counts, in halves, the coins that make \<open>measure\<close> answer 0 and 1.\<close>

lemma measure_prob_counts:
  assumes "q < tab_n t"
  shows "measure_prob t q = Some
    (card {c. \<exists>t'. measure_qubit t q c = Some (False, t')},
     card {c. \<exists>t'. measure_qubit t q c = Some (True, t')})"
proof (cases "find_anticommuting t q")
  case (Some p)
  then have "list_ex (\<lambda>i. row_anticommutes (tab_rows t ! i) (z_row (tab_n t) q))
      [tab_n t..<2 * tab_n t]"
    using find_anticommuting_Some [OF Some] by (auto simp: list_ex_iff)
  moreover have "{c. \<exists>t'. measure_qubit t q c = Some (b, t')} = {b}" for b
    using assms Some by (auto simp: measure_qubit_def)
  ultimately show ?thesis using assms by (simp add: measure_prob_def)
next
  case None
  then have "\<not> list_ex (\<lambda>i. row_anticommutes (tab_rows t ! i) (z_row (tab_n t) q))
      [tab_n t..<2 * tab_n t]"
    by (auto simp: find_anticommuting_None list_ex_iff)
  moreover have "{c. \<exists>t'. measure_qubit t q c = Some (b, t')} =
      (if b = row_sign (deterministic_scratch t q) then UNIV else {})" for b
    using assms None by (auto simp: measure_qubit_def)
  ultimately show ?thesis using assms by (simp add: measure_prob_def)
qed

section \<open>Reachable tableaux\<close>

text \<open>One call of a public operation of the tableau, the coin of \<^verbatim>\<open>measure\<close> arbitrary.\<close>

inductive tab_step :: "tableau \<Rightarrow> tableau \<Rightarrow> bool" where
  step_h: "tab_h q t = Some t' \<Longrightarrow> q < tab_n t \<Longrightarrow> tab_step t t'"
| step_s: "tab_s q t = Some t' \<Longrightarrow> q < tab_n t \<Longrightarrow> tab_step t t'"
| step_sdg: "tab_sdg q t = Some t' \<Longrightarrow> q < tab_n t \<Longrightarrow> tab_step t t'"
| step_sx: "tab_sx q t = Some t' \<Longrightarrow> q < tab_n t \<Longrightarrow> tab_step t t'"
| step_sxdg: "tab_sxdg q t = Some t' \<Longrightarrow> q < tab_n t \<Longrightarrow> tab_step t t'"
| step_cx: "tab_cx c b t = Some t' \<Longrightarrow> c < tab_n t \<Longrightarrow> b < tab_n t \<Longrightarrow> c \<noteq> b \<Longrightarrow> tab_step t t'"
| step_x: "tab_x q t = Some t' \<Longrightarrow> q < tab_n t \<Longrightarrow> tab_step t t'"
| step_y: "tab_y q t = Some t' \<Longrightarrow> q < tab_n t \<Longrightarrow> tab_step t t'"
| step_z: "tab_z q t = Some t' \<Longrightarrow> q < tab_n t \<Longrightarrow> tab_step t t'"
| step_measure: "measure_qubit t q coin = Some (out, t') \<Longrightarrow> tab_step t t'"

inductive tab_reachable :: "nat \<Rightarrow> tableau \<Rightarrow> bool" for n where
  start: "tab_reachable n (zero_state n)"
| step: "tab_reachable n t \<Longrightarrow> tab_step t t' \<Longrightarrow> tab_reachable n t'"

lemma tab_step_inv: "tab_step t t' \<Longrightarrow> tab_inv t \<Longrightarrow> tab_inv t' \<and> tab_n t' = tab_n t"
proof (induction rule: tab_step.induct)
  case (step_h q t t')
  then show ?case using h.each_row_inv by (auto simp: tab_h_def)
next
  case (step_s q t t')
  then show ?case using s.each_row_inv by (auto simp: tab_s_def)
next
  case (step_sdg q t t')
  then show ?case using sdg.each_row_inv by (auto simp: tab_sdg_def)
next
  case (step_sx q t t')
  then show ?case using sx.each_row_inv by (auto simp: tab_sx_def)
next
  case (step_sxdg q t t')
  then show ?case using sxdg.each_row_inv by (auto simp: tab_sxdg_def)
next
  case (step_cx c b t t')
  then show ?case using cx.each_row_inv by (auto simp: tab_cx_def)
next
  case (step_x q t t')
  then show ?case using px.each_row_inv by (auto simp: tab_x_def)
next
  case (step_y q t t')
  then show ?case using py.each_row_inv by (auto simp: tab_y_def)
next
  case (step_z q t t')
  then show ?case using pz.each_row_inv by (auto simp: tab_z_def)
next
  case (step_measure t q coin out t')
  then show ?case by (rule measure_qubit_inv)
qed

lemma tab_reachable_inv: "tab_reachable n t \<Longrightarrow> tab_inv t \<and> tab_n t = n"
proof (induction rule: tab_reachable.induct)
  case start
  then show ?case by (simp add: zero_state_inv) (simp add: zero_state_def)
next
  case (step t t')
  then show ?case using tab_step_inv by auto
qed

text \<open>No operation panics on a tableau that satisfies the invariant and has the qubit.\<close>

lemma each_row_total:
  assumes "tab_inv t" "list_all (\<lambda>q. q < tab_n t) qs"
  shows "\<exists>t'. each_row qs f t = Some t'"
  using assms by (auto simp: each_row_def tab_inv_def has_qubit_def wf_row_def list_all_iff)

section \<open>Properties\<close>

text \<open>A Bell pair, reached by two gates, for the concrete instances.\<close>

definition bell :: tableau where
  "bell = the (tab_cx 0 1 (the (tab_h 0 (zero_state 2))))"

lemma bell_reachable: "tab_reachable 2 bell"
proof -
  have h: "tab_h 0 (zero_state 2) = Some (the (tab_h 0 (zero_state 2)))"
    and cx: "tab_cx 0 1 (the (tab_h 0 (zero_state 2))) = Some bell"
    by (code_simp, simp add: bell_def) code_simp
  have n: "tab_n (the (tab_h 0 (zero_state 2))) = 2" by code_simp
  have "tab_step (zero_state 2) (the (tab_h 0 (zero_state 2)))"
    by (rule step_h [OF h]) (simp add: zero_state_def)
  then have "tab_reachable 2 (the (tab_h 0 (zero_state 2)))" by (rule tab_reachable.step [OF start])
  moreover have "tab_step (the (tab_h 0 (zero_state 2))) bell"
    by (rule step_cx [OF cx]) (simp_all add: n)
  ultimately show ?thesis by (rule tab_reachable.step)
qed

text \<open>C12: Every tableau reached from the all-zero state by gates on distinct in-range qubits and
  by measurements, in any order and with any coins, keeps \<open>2n\<close> rows of width \<open>n\<close> whose
  commutation pattern is that of the symplectic basis: row \<open>i\<close> anticommutes with row \<open>j\<close> exactly
  when they are a destabilizer and its stabilizer.\<close>

theorem tableau_reachable_invariant:
  assumes "tab_reachable n t"
  shows "tab_n t = n \<and> length (tab_rows t) = 2 * n \<and> (\<forall>i < 2 * n. wf_row n (tab_rows t ! i)) \<and>
    (\<forall>i < 2 * n. \<forall>j < 2 * n.
      row_anticommutes (tab_rows t ! i) (tab_rows t ! j) = (i + n = j \<or> j + n = i))"
  using tab_reachable_inv [OF assms] tab_inv_wf tab_inv_anticommutes by (auto simp: tab_inv_def)

theorem tableau_reachable_invariant_witness:
  "row_anticommutes (tab_rows bell ! 1) (tab_rows bell ! 3) \<and>
   \<not> row_anticommutes (tab_rows bell ! 2) (tab_rows bell ! 3)"
  using tableau_reachable_invariant [OF bell_reachable] by simp

text \<open>Every gate is a conjugation: on well-formed rows of any width that commute, the row
  update of each of the nine gates, on distinct in-range qubits, maps the product of two rows,
  sign included, to the product of their images.\<close>

theorem gates_respect_products:
  assumes "wf_row n a" "wf_row n b" "\<not> row_anticommutes a b" "q < n" "c < n" "c \<noteq> q"
    and "act \<in> {row_h q, row_s q, row_sdg q, row_sx q, row_sxdg q, row_pauli_x q, row_pauli_y q,
      row_pauli_z q, row_cx c q}"
  shows "act (row_product n a b) = row_product n (act a) (act b)"
  using assms h.act_product s.act_product sdg.act_product sx.act_product sxdg.act_product
    px.act_product py.act_product pz.act_product cx.act_product
  by (elim insertE emptyE) simp_all

theorem gates_respect_products_witness:
  "row_cx 0 1 (row_product 2 (z_row 2 0) (z_row 2 1)) =
   row_product 2 (row_cx 0 1 (z_row 2 0)) (row_cx 0 1 (z_row 2 1))"
  by (rule gates_respect_products [where q = 1 and c = 0])
    (auto simp: wf_row_def row_anticommutes_def z_row_def row_identity_def)

text \<open>C22: A measurement is repeatable: measuring the same qubit again gives the same outcome
  whatever the second coin, and leaves the tableau as it is; and neither call panics on a qubit
  of the register.\<close>

theorem measurement_repeatable:
  assumes "tab_reachable n t" "q < n"
  shows "\<exists>out t'. measure_qubit t q coin = Some (out, t') \<and> tab_reachable n t' \<and>
    (\<forall>coin'. measure_qubit t' q coin' = Some (out, t'))"
proof -
  note inv = tab_reachable_inv [OF assms(1)]
  obtain out t' where m: "measure_qubit t q coin = Some (out, t')"
    using assms(2) inv by (cases "find_anticommuting t q") (auto simp: measure_qubit_def)
  show ?thesis
    using m measure_repeat [OF _ m] inv tab_reachable.step [OF assms(1) step_measure [OF m]] by blast
qed

theorem measurement_repeatable_witness:
  "\<exists>out t'. measure_qubit bell 1 True = Some (out, t') \<and> tab_reachable 2 t' \<and>
    (\<forall>coin'. measure_qubit t' 1 coin' = Some (out, t'))"
  by (rule measurement_repeatable [OF bell_reachable]) simp

text \<open>\<open>measure_prob\<close> agrees with \<open>measure\<close>: counted in halves, the two probabilities are the
  numbers of coins for which the destructive measurement answers 0 and 1.\<close>

theorem measure_prob_agrees:
  assumes "q < tab_n t"
  shows "measure_prob t q = Some
    (card {c. \<exists>t'. measure_qubit t q c = Some (False, t')},
     card {c. \<exists>t'. measure_qubit t q c = Some (True, t')})"
  using assms by (rule measure_prob_counts)

theorem measure_prob_agrees_witness: "measure_prob bell 0 = Some (1, 1)"
proof -
  have "tab_n bell = 2" using bell_reachable tab_reachable_inv by blast
  moreover have "measure_qubit bell 0 True = Some (True, snd (the (measure_qubit bell 0 True)))"
    "measure_qubit bell 0 False = Some (False, snd (the (measure_qubit bell 0 False)))"
    by code_simp+
  then have "{c. \<exists>t'. measure_qubit bell 0 c = Some (False, t')} = {False}"
    "{c. \<exists>t'. measure_qubit bell 0 c = Some (True, t')} = {True}"
    by (auto split: bool.splits) (metis (full_types) Pair_inject option.inject)+
  ultimately show ?thesis using measure_prob_agrees [of 0 bell] by simp
qed

end
