(* ===== verification/PauliMatrix.thy ===== *)
theory PauliMatrix
  imports Complex_Main Tableau
begin

text \<open>
  The meaning of the tableau's bits: 2x2 complex matrices for the single-qubit Paulis and
  Cliffords, and 2x2 blocks of them for the controlled gate.  The phase table and the sign rules
  of \<^verbatim>\<open>stabilizer.rs\<close> are compared with matrix products, case by case on the bits.
\<close>

type_synonym mat2 = "complex \<times> complex \<times> complex \<times> complex"

fun mmul :: "mat2 \<Rightarrow> mat2 \<Rightarrow> mat2" where
  "mmul (a, b, c, d) (a', b', c', d') =
     (a * a' + b * c', a * b' + b * d', c * a' + d * c', c * b' + d * d')"

fun mscale :: "complex \<Rightarrow> mat2 \<Rightarrow> mat2" where
  "mscale k (a, b, c, d) = (k * a, k * b, k * c, k * d)"

fun madd :: "mat2 \<Rightarrow> mat2 \<Rightarrow> mat2" where
  "madd (a, b, c, d) (a', b', c', d') = (a + a', b + b', c + c', d + d')"

definition mat_x :: mat2 where "mat_x = (0, 1, 1, 0)"
definition mat_z :: mat2 where "mat_z = (1, 0, 0, - 1)"
definition mat_id :: mat2 where "mat_id = (1, 0, 0, 1)"

text \<open>\<open>site_matrix x z\<close> is \<open>i^(x*z) X^x Z^z\<close>, the convention of the module comment.\<close>

definition site_matrix :: "bool \<Rightarrow> bool \<Rightarrow> mat2" where
  "site_matrix x z = mscale (if x \<and> z then \<i> else 1)
     (mmul (if x then mat_x else mat_id) (if z then mat_z else mat_id))"

definition sign_of :: "bool \<Rightarrow> complex" where
  "sign_of s = (if s then - 1 else 1)"

definition mat_h :: mat2 where "mat_h = mscale (complex_of_real (1 / sqrt 2)) (1, 1, 1, - 1)"
definition mat_s :: mat2 where "mat_s = (1, 0, 0, \<i>)"
definition mat_sdg :: mat2 where "mat_sdg = (1, 0, 0, - \<i>)"
definition mat_sx :: mat2 where "mat_sx = mscale (1 / 2) (1 + \<i>, 1 - \<i>, 1 - \<i>, 1 + \<i>)"
definition mat_sxdg :: mat2 where "mat_sxdg = mscale (1 / 2) (1 - \<i>, 1 + \<i>, 1 + \<i>, 1 - \<i>)"
definition mat_y :: mat2 where "mat_y = (0, - \<i>, \<i>, 0)"

lemma site_matrix_cases:
  "site_matrix False False = (1, 0, 0, 1)" "site_matrix True False = (0, 1, 1, 0)"
  "site_matrix False True = (1, 0, 0, - 1)" "site_matrix True True = (0, - \<i>, \<i>, 0)"
  by (simp_all add: site_matrix_def mat_x_def mat_z_def mat_id_def)

lemma pauli_mult_phase_matrix_lemma:
  "mmul (site_matrix x1 z1) (site_matrix x2 z2) =
   mscale (\<i> ^ nat (pauli_mult_phase x1 z1 x2 z2)) (site_matrix (bxor x1 x2) (bxor z1 z2))"
  by (cases x1; cases z1; cases x2; cases z2)
    (simp_all add: site_matrix_cases eval_nat_numeral)

text \<open>\<open>conjugates U f\<close>: moving \<open>U\<close> past a row's site matrix is the row update \<open>f\<close>.\<close>

definition one_qubit_row :: "bool \<Rightarrow> bool \<Rightarrow> bool \<Rightarrow> pauli_row" where
  "one_qubit_row s x z = \<lparr>row_n = 1, row_x = [x], row_z = [z], row_sign = s\<rparr>"

definition row_matrix1 :: "pauli_row \<Rightarrow> mat2" where
  "row_matrix1 r = mscale (sign_of (row_sign r)) (site_matrix (row_x r ! 0) (row_z r ! 0))"

definition conjugates :: "mat2 \<Rightarrow> (pauli_row \<Rightarrow> pauli_row) \<Rightarrow> bool" where
  "conjugates U f \<longleftrightarrow> (\<forall>s x z. mmul U (row_matrix1 (one_qubit_row s x z)) =
     mmul (row_matrix1 (f (one_qubit_row s x z))) U)"

lemma conjugatesI:
  "(\<And>s x z. mmul U (row_matrix1 (one_qubit_row s x z)) =
     mmul (row_matrix1 (f (one_qubit_row s x z))) U) \<Longrightarrow> conjugates U f"
  by (simp add: conjugates_def)

lemmas matrix_defs = row_matrix1_def one_qubit_row_def sign_of_def site_matrix_cases
  mat_h_def mat_s_def mat_sdg_def mat_sx_def mat_sxdg_def mat_x_def mat_y_def mat_z_def

lemma conj_h: "conjugates mat_h (row_h 0)"
proof (rule conjugatesI)
  fix s x z
  show "mmul mat_h (row_matrix1 (one_qubit_row s x z)) =
      mmul (row_matrix1 (row_h 0 (one_qubit_row s x z))) mat_h"
    by (cases s; cases x; cases z) (simp_all add: matrix_defs row_h_def)
qed

lemma conj_s: "conjugates mat_s (row_s 0)"
proof (rule conjugatesI)
  fix s x z
  show "mmul mat_s (row_matrix1 (one_qubit_row s x z)) =
      mmul (row_matrix1 (row_s 0 (one_qubit_row s x z))) mat_s"
    by (cases s; cases x; cases z) (simp_all add: matrix_defs row_s_def)
qed

lemma conj_sdg: "conjugates mat_sdg (row_sdg 0)"
proof (rule conjugatesI)
  fix s x z
  show "mmul mat_sdg (row_matrix1 (one_qubit_row s x z)) =
      mmul (row_matrix1 (row_sdg 0 (one_qubit_row s x z))) mat_sdg"
    by (cases s; cases x; cases z) (simp_all add: matrix_defs row_sdg_def)
qed

lemma conj_sx: "conjugates mat_sx (row_sx 0)"
proof (rule conjugatesI)
  fix s x z
  show "mmul mat_sx (row_matrix1 (one_qubit_row s x z)) =
      mmul (row_matrix1 (row_sx 0 (one_qubit_row s x z))) mat_sx"
    by (cases s; cases x; cases z) (simp_all add: matrix_defs row_sx_def complex_eq_iff)
qed

lemma conj_sxdg: "conjugates mat_sxdg (row_sxdg 0)"
proof (rule conjugatesI)
  fix s x z
  show "mmul mat_sxdg (row_matrix1 (one_qubit_row s x z)) =
      mmul (row_matrix1 (row_sxdg 0 (one_qubit_row s x z))) mat_sxdg"
    by (cases s; cases x; cases z) (simp_all add: matrix_defs row_sxdg_def complex_eq_iff)
qed

lemma conj_paulis:
  "conjugates mat_x (row_pauli_x 0)" "conjugates mat_y (row_pauli_y 0)"
  "conjugates mat_z (row_pauli_z 0)"
proof -
  show "conjugates mat_x (row_pauli_x 0)"
  proof (rule conjugatesI)
    fix s x z
    show "mmul mat_x (row_matrix1 (one_qubit_row s x z)) =
        mmul (row_matrix1 (row_pauli_x 0 (one_qubit_row s x z))) mat_x"
      by (cases s; cases x; cases z) (simp_all add: matrix_defs row_pauli_x_def)
  qed
  show "conjugates mat_y (row_pauli_y 0)"
  proof (rule conjugatesI)
    fix s x z
    show "mmul mat_y (row_matrix1 (one_qubit_row s x z)) =
        mmul (row_matrix1 (row_pauli_y 0 (one_qubit_row s x z))) mat_y"
      by (cases s; cases x; cases z) (simp_all add: matrix_defs row_pauli_y_def)
  qed
  show "conjugates mat_z (row_pauli_z 0)"
  proof (rule conjugatesI)
    fix s x z
    show "mmul mat_z (row_matrix1 (one_qubit_row s x z)) =
        mmul (row_matrix1 (row_pauli_z 0 (one_qubit_row s x z))) mat_z"
      by (cases s; cases x; cases z) (simp_all add: matrix_defs row_pauli_z_def)
  qed
qed

text \<open>Two qubits: a 4x4 matrix as a 2x2 block of 2x2 matrices, the control being the block index.\<close>

type_synonym mat4 = "mat2 \<times> mat2 \<times> mat2 \<times> mat2"

fun bmul :: "mat4 \<Rightarrow> mat4 \<Rightarrow> mat4" where
  "bmul (a, b, c, d) (a', b', c', d') =
     (madd (mmul a a') (mmul b c'), madd (mmul a b') (mmul b d'),
      madd (mmul c a') (mmul d c'), madd (mmul c b') (mmul d d'))"

fun kron :: "mat2 \<Rightarrow> mat2 \<Rightarrow> mat4" where
  "kron (a, b, c, d) m = (mscale a m, mscale b m, mscale c m, mscale d m)"

definition mat_zero :: mat2 where "mat_zero = (0, 0, 0, 0)"

definition mat_cx :: mat4 where "mat_cx = (mat_id, mat_zero, mat_zero, mat_x)"

definition two_qubit_row :: "bool \<Rightarrow> bool \<Rightarrow> bool \<Rightarrow> bool \<Rightarrow> bool \<Rightarrow> pauli_row" where
  "two_qubit_row s xc zc xt zt = \<lparr>row_n = 2, row_x = [xc, xt], row_z = [zc, zt], row_sign = s\<rparr>"

definition row_matrix2 :: "pauli_row \<Rightarrow> mat4" where
  "row_matrix2 r = kron (mscale (sign_of (row_sign r)) (site_matrix (row_x r ! 0) (row_z r ! 0)))
     (site_matrix (row_x r ! 1) (row_z r ! 1))"

lemma conj_cx:
  "bmul mat_cx (row_matrix2 (two_qubit_row s xc zc xt zt)) =
   bmul (row_matrix2 (row_cx 0 1 (two_qubit_row s xc zc xt zt))) mat_cx"
  by (cases s; cases xc; cases zc; cases xt; cases zt)
    (simp_all add: row_matrix2_def two_qubit_row_def row_cx_def Let_def sign_of_def
      site_matrix_cases mat_cx_def mat_id_def mat_zero_def mat_x_def)

section \<open>Properties\<close>

text \<open>The phase table \<open>pauli_mult_phase\<close> is the product table of the Pauli matrices: the
  product of the site matrices \<open>i^(x*z) X^x Z^z\<close> is \<open>i^g\<close> times the site matrix of the exclusive
  ors, \<open>g\<close> the table's entry.\<close>

theorem pauli_mult_phase_matrix:
  "mmul (site_matrix x1 z1) (site_matrix x2 z2) =
   mscale (\<i> ^ nat (pauli_mult_phase x1 z1 x2 z2)) (site_matrix (bxor x1 x2) (bxor z1 z2))"
  by (rule pauli_mult_phase_matrix_lemma)

text \<open>Each of the one-qubit row updates is conjugation by its gate's unitary matrix, sign
  included, and so is the update of the controlled not on two qubits.\<close>

theorem gates_conjugate_matrices:
  "conjugates mat_h (row_h 0) \<and> conjugates mat_s (row_s 0) \<and> conjugates mat_sdg (row_sdg 0) \<and>
   conjugates mat_sx (row_sx 0) \<and> conjugates mat_sxdg (row_sxdg 0) \<and>
   conjugates mat_x (row_pauli_x 0) \<and> conjugates mat_y (row_pauli_y 0) \<and>
   conjugates mat_z (row_pauli_z 0) \<and>
   (\<forall>s xc zc xt zt. bmul mat_cx (row_matrix2 (two_qubit_row s xc zc xt zt)) =
      bmul (row_matrix2 (row_cx 0 1 (two_qubit_row s xc zc xt zt))) mat_cx)"
  using conj_h conj_s conj_sdg conj_sx conj_sxdg conj_paulis conj_cx by blast

end
