(* ===== verification/Gates.thy ===== *)
theory Gates
  imports Complex_Main
begin

text \<open>
  The gate matrices of \<^verbatim>\<open>crates/omega-backend-statevector/src/gates.rs\<close>, row by row, and the
  derivatives used by the adjoint gradient.  \<^verbatim>\<open>f64\<close> is real arithmetic.
\<close>

type_synonym gate1q = "complex list"
type_synonym gate2q = "complex list"

definition ei :: "real \<Rightarrow> complex" where "ei t = Complex (cos t) (sin t)"
definition isqrt2 :: complex where "isqrt2 = complex_of_real (1 / sqrt 2)"

definition gate_h :: gate1q where "gate_h = [isqrt2, isqrt2, isqrt2, - isqrt2]"
definition gate_x :: gate1q where "gate_x = [0, 1, 1, 0]"
definition gate_y :: gate1q where "gate_y = [0, - \<i>, \<i>, 0]"
definition gate_z :: gate1q where "gate_z = [1, 0, 0, - 1]"
definition gate_s :: gate1q where "gate_s = [1, 0, 0, \<i>]"
definition gate_sdg :: gate1q where "gate_sdg = [1, 0, 0, - \<i>]"
definition gate_sx :: gate1q where
  "gate_sx = (let a = Complex (1/2) (1/2); b = Complex (1/2) (- 1/2) in [a, b, b, a])"
definition gate_sxdg :: gate1q where
  "gate_sxdg = (let a = Complex (1/2) (- 1/2); b = Complex (1/2) (1/2) in [a, b, b, a])"
definition gate_t :: gate1q where "gate_t = [1, 0, 0, ei (pi / 4)]"
definition gate_tdg :: gate1q where "gate_tdg = [1, 0, 0, ei (- pi / 4)]"

definition gate_rx :: "real \<Rightarrow> gate1q" where
  "gate_rx \<theta> = (let cv = cos (\<theta> / 2); sv = sin (\<theta> / 2)
     in [Complex cv 0, Complex 0 (- sv), Complex 0 (- sv), Complex cv 0])"

definition gate_ry :: "real \<Rightarrow> gate1q" where
  "gate_ry \<theta> = (let cv = cos (\<theta> / 2); sv = sin (\<theta> / 2)
     in [Complex cv 0, Complex (- sv) 0, Complex sv 0, Complex cv 0])"

definition gate_rz :: "real \<Rightarrow> gate1q" where
  "gate_rz \<theta> = [ei (- \<theta> / 2), 0, 0, ei (\<theta> / 2)]"

definition gate_u3 :: "real \<Rightarrow> real \<Rightarrow> real \<Rightarrow> gate1q" where
  "gate_u3 \<theta> \<phi> l = (let ct = cos (\<theta> / 2); st = sin (\<theta> / 2)
     in [Complex ct 0, - ei l * of_real st, ei \<phi> * of_real st, ei (\<phi> + l) * of_real ct])"

definition gate_u2 :: "real \<Rightarrow> real \<Rightarrow> gate1q" where "gate_u2 \<phi> l = gate_u3 (pi / 2) \<phi> l"
definition gate_u1 :: "real \<Rightarrow> gate1q" where "gate_u1 l = [1, 0, 0, ei l]"

section \<open>Derivatives of the one-qubit gates\<close>

definition gate_drx :: "real \<Rightarrow> gate1q" where
  "gate_drx \<theta> = (let cv = cos (\<theta> / 2); sv = sin (\<theta> / 2)
     in [Complex (- sv / 2) 0, Complex 0 (- cv / 2), Complex 0 (- cv / 2), Complex (- sv / 2) 0])"

definition gate_dry :: "real \<Rightarrow> gate1q" where
  "gate_dry \<theta> = (let cv = cos (\<theta> / 2); sv = sin (\<theta> / 2)
     in [Complex (- sv / 2) 0, Complex (- cv / 2) 0, Complex (cv / 2) 0, Complex (- sv / 2) 0])"

definition gate_drz :: "real \<Rightarrow> gate1q" where
  "gate_drz \<theta> = [Complex 0 (- 1/2) * ei (- \<theta> / 2), 0, 0, Complex 0 (1/2) * ei (\<theta> / 2)]"

definition gate_du1_dl :: "real \<Rightarrow> gate1q" where "gate_du1_dl l = [0, 0, 0, \<i> * ei l]"

definition gate_du3_dt :: "real \<Rightarrow> real \<Rightarrow> real \<Rightarrow> gate1q" where
  "gate_du3_dt \<theta> \<phi> l = (let ct = cos (\<theta> / 2); st = sin (\<theta> / 2)
     in [Complex (- st / 2) 0, - ei l * of_real (ct / 2), ei \<phi> * of_real (ct / 2),
         - ei (\<phi> + l) * of_real (st / 2)])"

definition gate_du3_dp :: "real \<Rightarrow> real \<Rightarrow> real \<Rightarrow> gate1q" where
  "gate_du3_dp \<theta> \<phi> l = (let ct = cos (\<theta> / 2); st = sin (\<theta> / 2)
     in [0, 0, \<i> * ei \<phi> * of_real st, \<i> * ei (\<phi> + l) * of_real ct])"

definition gate_du3_dl :: "real \<Rightarrow> real \<Rightarrow> real \<Rightarrow> gate1q" where
  "gate_du3_dl \<theta> \<phi> l = (let ct = cos (\<theta> / 2); st = sin (\<theta> / 2)
     in [0, - \<i> * ei l * of_real st, 0, \<i> * ei (\<phi> + l) * of_real ct])"

definition gate_du2_dp :: "real \<Rightarrow> real \<Rightarrow> gate1q" where "gate_du2_dp \<phi> l = gate_du3_dp (pi / 2) \<phi> l"
definition gate_du2_dl :: "real \<Rightarrow> real \<Rightarrow> gate1q" where "gate_du2_dl \<phi> l = gate_du3_dl (pi / 2) \<phi> l"

definition adjoint_1q :: "gate1q \<Rightarrow> gate1q" where
  "adjoint_1q g = [cnj (g ! 0), cnj (g ! 2), cnj (g ! 1), cnj (g ! 3)]"

definition adjoint_2q :: "gate2q \<Rightarrow> gate2q" where
  "adjoint_2q g = concat (map (\<lambda>i. map (\<lambda>j. cnj (g ! (j * 4 + i))) [0..<4]) [0..<4])"

section \<open>Two-qubit gates\<close>

definition gate_cx :: gate2q where
  "gate_cx = [1, 0, 0, 0,  0, 1, 0, 0,  0, 0, 0, 1,  0, 0, 1, 0]"
definition gate_cy :: gate2q where
  "gate_cy = [1, 0, 0, 0,  0, 1, 0, 0,  0, 0, 0, - \<i>,  0, 0, \<i>, 0]"
definition gate_cz :: gate2q where
  "gate_cz = [1, 0, 0, 0,  0, 1, 0, 0,  0, 0, 1, 0,  0, 0, 0, - 1]"
definition gate_swap :: gate2q where
  "gate_swap = [1, 0, 0, 0,  0, 0, 1, 0,  0, 1, 0, 0,  0, 0, 0, 1]"
definition gate_crz :: "real \<Rightarrow> gate2q" where
  "gate_crz \<theta> = [1, 0, 0, 0,  0, 1, 0, 0,  0, 0, ei (- \<theta> / 2), 0,  0, 0, 0, ei (\<theta> / 2)]"
definition gate_cu3 :: "real \<Rightarrow> real \<Rightarrow> real \<Rightarrow> gate2q" where
  "gate_cu3 \<theta> \<phi> l = (let g = gate_u3 \<theta> \<phi> l
     in [1, 0, 0, 0,  0, 1, 0, 0,  0, 0, g ! 0, g ! 1,  0, 0, g ! 2, g ! 3])"
definition gate_rbs :: "real \<Rightarrow> gate2q" where
  "gate_rbs \<theta> = (let cv = Complex (cos \<theta>) 0; sv = Complex (sin \<theta>) 0
     in [1, 0, 0, 0,  0, cv, - sv, 0,  0, sv, cv, 0,  0, 0, 0, 1])"

definition gate_dcrz :: "real \<Rightarrow> gate2q" where
  "gate_dcrz \<theta> = [0, 0, 0, 0,  0, 0, 0, 0,  0, 0, Complex 0 (- 1/2) * ei (- \<theta> / 2), 0,
     0, 0, 0, Complex 0 (1/2) * ei (\<theta> / 2)]"
definition gate_drbs :: "real \<Rightarrow> gate2q" where
  "gate_drbs \<theta> = (let cv = Complex (cos \<theta>) 0; sv = Complex (sin \<theta>) 0
     in [0, 0, 0, 0,  0, - sv, - cv, 0,  0, cv, - sv, 0,  0, 0, 0, 0])"
definition lower_block :: "gate1q \<Rightarrow> gate2q" where
  "lower_block dg = [0, 0, 0, 0,  0, 0, 0, 0,  0, 0, dg ! 0, dg ! 1,  0, 0, dg ! 2, dg ! 3]"
definition gate_dcu3_dt :: "real \<Rightarrow> real \<Rightarrow> real \<Rightarrow> gate2q" where
  "gate_dcu3_dt \<theta> \<phi> l = lower_block (gate_du3_dt \<theta> \<phi> l)"
definition gate_dcu3_dp :: "real \<Rightarrow> real \<Rightarrow> real \<Rightarrow> gate2q" where
  "gate_dcu3_dp \<theta> \<phi> l = lower_block (gate_du3_dp \<theta> \<phi> l)"
definition gate_dcu3_dl :: "real \<Rightarrow> real \<Rightarrow> real \<Rightarrow> gate2q" where
  "gate_dcu3_dl \<theta> \<phi> l = lower_block (gate_du3_dl \<theta> \<phi> l)"

lemmas gate1q_defs = gate_h_def gate_x_def gate_y_def gate_z_def gate_s_def gate_sdg_def gate_sx_def
  gate_sxdg_def gate_t_def gate_tdg_def gate_rx_def gate_ry_def gate_rz_def gate_u3_def gate_u2_def gate_u1_def
lemmas gate2q_defs = gate_cx_def gate_cy_def gate_cz_def gate_swap_def gate_crz_def gate_cu3_def gate_rbs_def

section \<open>Unitarity\<close>

text \<open>Columns of the product of the adjoint with the matrix.\<close>

definition unitary1 :: "gate1q \<Rightarrow> bool" where
  "unitary1 g \<longleftrightarrow> length g = 4 \<and>
     (\<forall>i < 2. \<forall>j < 2. (\<Sum>k<2. cnj (g ! (2 * k + i)) * g ! (2 * k + j)) = (if i = j then 1 else 0))"

definition unitary2 :: "gate2q \<Rightarrow> bool" where
  "unitary2 g \<longleftrightarrow> length g = 16 \<and>
     (\<forall>i < 4. \<forall>j < 4. (\<Sum>k<4. cnj (g ! (4 * k + i)) * g ! (4 * k + j)) = (if i = j then 1 else 0))"

lemma unitary1_four:
  "unitary1 [a, b, c, d] \<longleftrightarrow>
     cnj a * a + cnj c * c = 1 \<and> cnj b * b + cnj d * d = 1 \<and> cnj a * b + cnj c * d = 0"
proof -
  have "cnj b * a + cnj d * c = cnj (cnj a * b + cnj c * d)" by simp
  then have "cnj a * b + cnj c * d = 0 \<Longrightarrow> cnj b * a + cnj d * c = 0" by simp
  then show ?thesis
    by (auto simp: unitary1_def numeral_2_eq_2 less_Suc_eq)
qed

lemma ei_norm: "cnj (ei t) * ei t = 1" "ei t * cnj (ei t) = 1"
proof -
  have "(cos t)\<^sup>2 + (sin t)\<^sup>2 = 1" by simp
  then show "cnj (ei t) * ei t = 1" "ei t * cnj (ei t) = 1"
    by (auto simp: ei_def complex_eq_iff power2_eq_square mult.commute)
qed

lemma ei_add: "ei (s + t) = ei s * ei t"
  by (simp add: ei_def complex_eq_iff cos_add sin_add)

lemma half_square: "(cos (t / 2)) * (cos (t / 2)) + (sin (t / 2)) * (sin (t / 2)) = (1 :: real)"
  using sin_cos_squared_add2 [of "t / 2"] by (simp add: power2_eq_square)

lemma unitary_phases:
  "cnj u * u = 1 \<Longrightarrow> cnj v * v = 1 \<Longrightarrow> unitary1 [u, 0, 0, v]"
  by (simp add: unitary1_four)

lemma phase_scale: "cnj (ei a * of_real x) * (ei b * of_real y) = cnj (ei a) * ei b * of_real (x * y)"
  by simp

lemma phase_scale_same: "cnj (ei a * of_real x) * (ei a * of_real x) = of_real (x * x)"
  by (simp only: phase_scale ei_norm mult_1)

lemma gate_u3_unitary: "unitary1 (gate_u3 \<theta> \<phi> l)"
proof -
  let ?c = "cos (\<theta> / 2)" and ?s = "sin (\<theta> / 2)"
  have c: "Complex ?c 0 = of_real ?c" by (simp add: complex_of_real_def)
  have "cnj (of_real ?c) * of_real ?c + cnj (ei \<phi> * of_real ?s) * (ei \<phi> * of_real ?s) = of_real (?c * ?c + ?s * ?s)"
    unfolding phase_scale_same by (simp only: complex_cnj_complex_of_real of_real_add of_real_mult)
  moreover have "cnj (- (ei l * of_real ?s)) * (- (ei l * of_real ?s)) +
      cnj (ei (\<phi> + l) * of_real ?c) * (ei (\<phi> + l) * of_real ?c) = of_real (?c * ?c + ?s * ?s)"
    unfolding complex_cnj_minus minus_mult_minus phase_scale_same by (simp only: of_real_add add.commute)
  moreover have "cnj (of_real ?c) * (- (ei l * of_real ?s)) + cnj (ei \<phi> * of_real ?s) * (ei (\<phi> + l) * of_real ?c) = 0"
  proof -
    have "cnj (ei \<phi>) * ei (\<phi> + l) = ei l" by (simp add: ei_add ei_norm(1) mult.assoc [symmetric])
    then show ?thesis unfolding phase_scale by (simp add: mult.commute mult.left_commute)
  qed
  ultimately show ?thesis
    by (simp only: gate_u3_def Let_def unitary1_four c half_square of_real_1 minus_mult_left [symmetric] simp_thms)
qed

lemma gate1q_unitary:
  "unitary1 gate_h" "unitary1 gate_x" "unitary1 gate_y" "unitary1 gate_z" "unitary1 gate_s" "unitary1 gate_sdg"
  "unitary1 gate_sx" "unitary1 gate_sxdg" "unitary1 gate_t" "unitary1 gate_tdg" "unitary1 (gate_rx \<theta>)"
  "unitary1 (gate_ry \<theta>)" "unitary1 (gate_rz \<theta>)" "unitary1 (gate_u2 \<phi> l)" "unitary1 (gate_u1 l)"
proof -
  have r: "complex_of_real (sqrt 2) * of_real (sqrt 2) = 2" by (simp flip: of_real_mult)
  show "unitary1 gate_h" by (simp add: gate_h_def unitary1_four isqrt2_def r)
  show "unitary1 (gate_rx \<theta>)" "unitary1 (gate_ry \<theta>)"
    using half_square [of \<theta>] half_square [of \<theta>, unfolded add.commute [of "cos _ * cos _"]]
    by (simp_all add: gate_rx_def gate_ry_def Let_def unitary1_four complex_eq_iff)
  show "unitary1 gate_sx" "unitary1 gate_sxdg"
    by (simp_all add: gate_sx_def gate_sxdg_def Let_def unitary1_four complex_eq_iff)
qed (simp_all add: gate_x_def gate_y_def gate_z_def gate_s_def gate_sdg_def gate_t_def gate_tdg_def
    gate_rz_def gate_u1_def gate_u2_def gate_u3_unitary unitary1_four ei_norm)

definition controlled_matrix :: "gate1q \<Rightarrow> gate2q" where
  "controlled_matrix m = [1, 0, 0, 0,  0, 1, 0, 0,  0, 0, m ! 0, m ! 1,  0, 0, m ! 2, m ! 3]"

lemma length4: "length g = 4 \<Longrightarrow> \<exists>a b c d. g = [a, b, c, d]"
  by (simp add: numeral_eq_Suc length_Suc_conv) blast

lemma all_less_4: "(\<forall>i < 4 :: nat. P i) \<longleftrightarrow> P 0 \<and> P 1 \<and> P 2 \<and> P 3"
  by (auto simp: numeral_eq_Suc less_Suc_eq)

lemma sum_4: "(\<Sum>k<4 :: nat. f k) = f 0 + f 1 + f 2 + (f 3 :: 'a :: comm_monoid_add)"
  by (simp add: numeral_eq_Suc)

lemma unitary1_cross: "unitary1 [a, b, c, d] \<Longrightarrow> cnj b * a + cnj d * c = 0"
proof -
  assume "unitary1 [a, b, c, d]"
  then have "cnj (cnj a * b + cnj c * d) = cnj 0" by (simp add: unitary1_four)
  then show ?thesis by (simp add: mult.commute)
qed

lemma controlled_unitary: "unitary1 m \<Longrightarrow> unitary2 (controlled_matrix m)"
proof -
  assume u: "unitary1 m"
  then obtain a b c d where m: "m = [a, b, c, d]" using length4 [of m] by (auto simp: unitary1_def)
  show ?thesis
    using u unitary1_cross [of a b c d] unfolding m
    by (simp add: unitary2_def all_less_4 sum_4 unitary1_four controlled_matrix_def)
qed

lemma controlled_gates:
  "gate_cx = controlled_matrix gate_x" "gate_cy = controlled_matrix gate_y" "gate_cz = controlled_matrix gate_z"
  "gate_crz \<theta> = controlled_matrix (gate_rz \<theta>)" "gate_cu3 \<theta> \<phi> l = controlled_matrix (gate_u3 \<theta> \<phi> l)"
  by (simp_all add: controlled_matrix_def gate2q_defs gate_x_def gate_y_def gate_z_def gate_rz_def Let_def)

lemma gate2q_unitary:
  "unitary2 gate_cx" "unitary2 gate_cy" "unitary2 gate_cz" "unitary2 (gate_crz \<theta>)" "unitary2 (gate_cu3 \<theta> \<phi> l)"
  "unitary2 gate_swap" "unitary2 (gate_rbs \<theta>)"
proof -
  have sq: "cos \<theta> * cos \<theta> + sin \<theta> * sin \<theta> = 1" "sin \<theta> * sin \<theta> + cos \<theta> * cos \<theta> = 1"
    using sin_cos_squared_add2 [of \<theta>] by (simp_all add: power2_eq_square add.commute)
  show "unitary2 (gate_rbs \<theta>)"
    by (simp add: unitary2_def all_less_4 sum_4 gate_rbs_def Let_def complex_eq_iff sq)
  show "unitary2 gate_swap" by (simp add: unitary2_def all_less_4 sum_4 gate_swap_def)
qed (simp_all add: controlled_gates controlled_unitary gate1q_unitary gate_u3_unitary)

text \<open>Taking the adjoint twice, and the adjoint of a unitary as a left inverse.\<close>

lemma adjoint_1q_adjoint: "length g = 4 \<Longrightarrow> adjoint_1q (adjoint_1q g) = g"
  using length4 [of g] by (auto simp: adjoint_1q_def)

section \<open>Derivatives\<close>

text \<open>Entry by entry, in the real and the imaginary part.\<close>

definition entry_derivatives :: "nat \<Rightarrow> (real \<Rightarrow> complex list) \<Rightarrow> complex list \<Rightarrow> real \<Rightarrow> bool" where
  "entry_derivatives n F D t \<longleftrightarrow>
     (\<forall>i < n. ((\<lambda>s. Re (F s ! i)) has_real_derivative Re (D ! i)) (at t) \<and>
              ((\<lambda>s. Im (F s ! i)) has_real_derivative Im (D ! i)) (at t))"

lemma entry_derivatives_1q:
  "entry_derivatives 4 gate_rx (gate_drx t) t" "entry_derivatives 4 gate_ry (gate_dry t) t"
  "entry_derivatives 4 gate_rz (gate_drz t) t" "entry_derivatives 4 gate_u1 (gate_du1_dl t) t"
  by (simp_all add: entry_derivatives_def all_less_4 gate1q_defs gate_drx_def gate_dry_def gate_drz_def
      gate_du1_dl_def Let_def ei_def)
    (auto intro!: derivative_eq_intros)

lemma entry_derivatives_u3:
  "entry_derivatives 4 (\<lambda>s. gate_u3 s \<phi> l) (gate_du3_dt \<theta> \<phi> l) \<theta>"
  "entry_derivatives 4 (\<lambda>s. gate_u3 \<theta> s l) (gate_du3_dp \<theta> \<phi> l) \<phi>"
  "entry_derivatives 4 (\<lambda>s. gate_u3 \<theta> \<phi> s) (gate_du3_dl \<theta> \<phi> l) l"
  by (simp_all add: entry_derivatives_def all_less_4 gate_u3_def gate_du3_dt_def gate_du3_dp_def
      gate_du3_dl_def Let_def ei_def)
    (auto intro!: derivative_eq_intros)

lemma entry_derivatives_lower:
  "entry_derivatives 4 F D t \<Longrightarrow>
     entry_derivatives 16 (\<lambda>s. controlled_matrix (F s)) (lower_block D) t"
  unfolding entry_derivatives_def
  by (simp add: numeral_eq_Suc all_less_4 less_Suc_eq all_conj_distrib controlled_matrix_def lower_block_def)

lemma entry_derivatives_2q:
  "entry_derivatives 16 gate_crz (gate_dcrz t) t" "entry_derivatives 16 gate_rbs (gate_drbs t) t"
  "entry_derivatives 16 (\<lambda>s. gate_cu3 s \<phi> l) (gate_dcu3_dt \<theta> \<phi> l) \<theta>"
  "entry_derivatives 16 (\<lambda>s. gate_cu3 \<theta> s l) (gate_dcu3_dp \<theta> \<phi> l) \<phi>"
  "entry_derivatives 16 (\<lambda>s. gate_cu3 \<theta> \<phi> s) (gate_dcu3_dl \<theta> \<phi> l) l"
proof -
  have "gate_dcrz t = lower_block (gate_drz t)" by (simp add: gate_dcrz_def lower_block_def gate_drz_def)
  then show "entry_derivatives 16 gate_crz (gate_dcrz t) t"
    using entry_derivatives_lower [OF entry_derivatives_1q(3)] by (simp add: controlled_gates(4) [abs_def])
  show "entry_derivatives 16 gate_rbs (gate_drbs t) t"
    unfolding entry_derivatives_def
    by (simp add: numeral_eq_Suc less_Suc_eq all_conj_distrib gate_rbs_def gate_drbs_def Let_def)
      (auto intro!: derivative_eq_intros)
qed (use entry_derivatives_lower [OF entry_derivatives_u3(1)] entry_derivatives_lower [OF entry_derivatives_u3(2)]
    entry_derivatives_lower [OF entry_derivatives_u3(3)]
    in \<open>simp_all add: controlled_gates(5) gate_dcu3_dt_def gate_dcu3_dp_def gate_dcu3_dl_def\<close>)

section \<open>Properties\<close>

text \<open>The derivative matrices of the adjoint gradient are the derivatives: for the rotations, the
  phase gate, the three angles of \<open>U3\<close>, their controlled forms and the beam splitter, every entry of
  the derivative matrix is the derivative of that entry of the gate matrix.\<close>

theorem gate_derivatives_exact:
  "entry_derivatives 4 gate_rx (gate_drx t) t \<and> entry_derivatives 4 gate_ry (gate_dry t) t \<and>
   entry_derivatives 4 gate_rz (gate_drz t) t \<and> entry_derivatives 4 gate_u1 (gate_du1_dl t) t \<and>
   entry_derivatives 4 (\<lambda>s. gate_u3 s \<phi> l) (gate_du3_dt t \<phi> l) t \<and>
   entry_derivatives 4 (\<lambda>s. gate_u3 \<theta> s l) (gate_du3_dp \<theta> t l) t \<and>
   entry_derivatives 4 (\<lambda>s. gate_u3 \<theta> \<phi> s) (gate_du3_dl \<theta> \<phi> t) t \<and>
   entry_derivatives 4 (\<lambda>s. gate_u2 s l) (gate_du2_dp t l) t \<and>
   entry_derivatives 4 (\<lambda>s. gate_u2 \<phi> s) (gate_du2_dl \<phi> t) t \<and>
   entry_derivatives 16 gate_crz (gate_dcrz t) t \<and> entry_derivatives 16 gate_rbs (gate_drbs t) t \<and>
   entry_derivatives 16 (\<lambda>s. gate_cu3 s \<phi> l) (gate_dcu3_dt t \<phi> l) t \<and>
   entry_derivatives 16 (\<lambda>s. gate_cu3 \<theta> s l) (gate_dcu3_dp \<theta> t l) t \<and>
   entry_derivatives 16 (\<lambda>s. gate_cu3 \<theta> \<phi> s) (gate_dcu3_dl \<theta> \<phi> t) t"
  by (simp add: entry_derivatives_1q entry_derivatives_u3 entry_derivatives_2q gate_u2_def gate_du2_dp_def
      gate_du2_dl_def)

end
