(* ===== verification/BitIndex.thy ===== *)
theory BitIndex
  imports Prelude "HOL-Library.Multiset"
begin

text \<open>
  Basis indices as natural numbers: inserting a zero bit at a position, which is how the kernels of
  the state-vector simulator enumerate the amplitudes of a gate, and walking disjoint groups of
  positions of a list, which is what every kernel does.
\<close>

section \<open>Bits of an index\<close>

definition insert_zero :: "nat \<Rightarrow> nat \<Rightarrow> nat" where
  "insert_zero p k = take_bit p k + push_bit (Suc p) (drop_bit p k)"

lemma insert_zero_disjoint: "insert_zero p k = take_bit p k OR push_bit (Suc p) (drop_bit p k)"
  unfolding insert_zero_def
  by (rule disjunctive_add) (auto simp: bit_take_bit_iff bit_push_bit_iff)

lemma bit_insert_zero:
  "bit (insert_zero p k) i = (if i < p then bit k i else if i = p then False else bit k (i - 1))"
  by (auto simp: insert_zero_disjoint bit_or_iff bit_take_bit_iff bit_push_bit_iff_nat bit_drop_bit_eq
      simp del: push_bit_Suc)

lemma insert_zero_inj: "insert_zero p a = insert_zero p b \<Longrightarrow> a = b"
proof (rule bit_eqI)
  fix i
  assume "insert_zero p a = insert_zero p b"
  then have "bit (insert_zero p a) (if i < p then i else Suc i) = bit (insert_zero p b) (if i < p then i else Suc i)"
    by simp
  then show "bit a i = bit b i" by (auto simp: bit_insert_zero split: if_splits)
qed

lemma less_exp_iff_bits: "(x :: nat) < 2 ^ n \<longleftrightarrow> (\<forall>i \<ge> n. \<not> bit x i)"
proof
  assume "x < 2 ^ n"
  then have "take_bit n x = x" by (simp add: take_bit_nat_eq_self)
  then show "\<forall>i \<ge> n. \<not> bit x i" by (metis bit_take_bit_iff not_less)
next
  assume "\<forall>i \<ge> n. \<not> bit x i"
  then have "take_bit n x = x" by (intro bit_eqI) (auto simp: bit_take_bit_iff not_le)
  then show "x < 2 ^ n" by (metis take_bit_nat_less_exp)
qed

lemma insert_zero_less: "k < 2 ^ m \<Longrightarrow> p \<le> m \<Longrightarrow> insert_zero p k < 2 ^ Suc m"
  unfolding less_exp_iff_bits by (auto simp: bit_insert_zero)

lemma insert_zero_surj:
  assumes "x < 2 ^ Suc m" "p \<le> m" "\<not> bit x p"
  shows "\<exists>k < 2 ^ m. x = insert_zero p k"
proof (intro exI conjI)
  let ?k = "take_bit p x OR push_bit p (drop_bit (Suc p) x)"
  have b: "bit ?k i = (if i < p then bit x i else bit x (Suc i))" for i
    by (auto simp: bit_simps)
  show "x = insert_zero p ?k"
  proof (rule bit_eqI)
    fix i
    show "bit x i = bit (insert_zero p ?k) i"
      using assms(3) by (cases "i = p") (auto simp: bit_insert_zero b)
  qed
  show "?k < 2 ^ m"
    unfolding less_exp_iff_bits b using assms(1) [unfolded less_exp_iff_bits] assms(2) by auto
qed

lemma insert_zero_image:
  assumes "p \<le> m"
  shows "insert_zero p ` {k. k < 2 ^ m \<and> P (insert_zero p k)} = {x. x < 2 ^ Suc m \<and> \<not> bit x p \<and> P x}"
proof
  show "insert_zero p ` {k. k < 2 ^ m \<and> P (insert_zero p k)} \<subseteq> {x. x < 2 ^ Suc m \<and> \<not> bit x p \<and> P x}"
    using insert_zero_less [OF _ assms] by (auto simp: bit_insert_zero)
  show "{x. x < 2 ^ Suc m \<and> \<not> bit x p \<and> P x} \<subseteq> insert_zero p ` {k. k < 2 ^ m \<and> P (insert_zero p k)}"
  proof
    fix x assume "x \<in> {x. x < 2 ^ Suc m \<and> \<not> bit x p \<and> P x}"
    moreover from this obtain k where "k < 2 ^ m" "x = insert_zero p k"
      using insert_zero_surj [OF _ assms, of x] by blast
    ultimately show "x \<in> insert_zero p ` {k. k < 2 ^ m \<and> P (insert_zero p k)}" by blast
  qed
qed

lemma plus_exp_set_bit: "\<not> bit (x :: nat) q \<Longrightarrow> x + 2 ^ q = set_bit q x"
proof -
  assume b: "\<not> bit x q"
  have "x + 2 ^ q = x OR 2 ^ q" using b by (intro disjunctive_add) (auto simp: bit_exp_iff)
  then show ?thesis by (simp add: set_bit_eq_or push_bit_eq_mult)
qed

lemma or_exp_set_bit: "(x :: nat) OR push_bit q 1 = set_bit q x"
  by (simp add: set_bit_eq_or)

lemma and_exp_bit: "(x :: nat) AND push_bit q 1 \<noteq> 0 \<longleftrightarrow> bit x q"
  by (metis and_exp_eq_0_iff_not_bit push_bit_of_1)

lemma bit_set_bit_nat: "bit (set_bit q (x :: nat)) i = (i = q \<or> bit x i)"
  by (auto simp: bit_set_bit_iff)

lemma bit_unset_bit_nat: "bit (unset_bit q (x :: nat)) i = (i \<noteq> q \<and> bit x i)"
  by (auto simp: bit_unset_bit_iff)

lemma set_bit_less: "x < 2 ^ n \<Longrightarrow> q < n \<Longrightarrow> set_bit q (x :: nat) < 2 ^ n"
  by (auto simp: less_exp_iff_bits bit_set_bit_nat)

lemma unset_bit_less: "x < 2 ^ n \<Longrightarrow> unset_bit q (x :: nat) < 2 ^ n"
  by (auto simp: less_exp_iff_bits bit_unset_bit_nat)

text \<open>The index with one bit given.\<close>

definition put_bit :: "nat \<Rightarrow> bool \<Rightarrow> nat \<Rightarrow> nat" where
  "put_bit q b x = (if b then set_bit q x else unset_bit q x)"

lemma bit_put_bit: "bit (put_bit q b x) i = (if i = q then b else bit x i)"
  by (auto simp: put_bit_def bit_set_bit_nat bit_unset_bit_nat)

lemma put_bit_less: "x < 2 ^ n \<Longrightarrow> q < n \<Longrightarrow> put_bit q b x < 2 ^ n"
  by (simp add: put_bit_def set_bit_less unset_bit_less)

lemma put_bit_same: "put_bit q (bit x q) x = x"
  by (rule bit_eqI) (simp add: bit_put_bit)

lemma put_bit_put_bit [simp]: "put_bit q b (put_bit q c x) = put_bit q b x"
  by (rule bit_eqI) (simp add: bit_put_bit)

lemma put_bit_swap: "q \<noteq> r \<Longrightarrow> put_bit q b (put_bit r c x) = put_bit r c (put_bit q b x)"
  by (rule bit_eqI) (auto simp: bit_put_bit)

lemma put_bit_eq_iff: "put_bit q b x = put_bit q c y \<longleftrightarrow> b = c \<and> (\<forall>i. i \<noteq> q \<longrightarrow> bit x i = bit y i)"
  by (auto simp: bit_eq_iff bit_put_bit)

section \<open>Walking disjoint groups of positions\<close>

text \<open>Replace the values at the positions of each group by a function of those values.  The groups
  of the kernels are disjoint, so that the result does not depend on the order of the walk.\<close>

definition put_all :: "nat list \<Rightarrow> 'a list \<Rightarrow> 'a list \<Rightarrow> 'a list" where
  "put_all is vs xs = fold (\<lambda>(i, v) ys. ys[i := v]) (zip is vs) xs"

definition walk_groups :: "('a list \<Rightarrow> 'a list) \<Rightarrow> nat list list \<Rightarrow> 'a list \<Rightarrow> 'a list" where
  "walk_groups f gs xs = fold (\<lambda>g ys. put_all g (f (map ((!) ys) g)) ys) gs xs"

lemma length_put_all [simp]: "length (put_all is vs xs) = length xs"
proof (induction "is" arbitrary: vs xs)
  case (Cons i "is")
  then show ?case by (cases vs) (simp_all add: put_all_def)
qed (simp add: put_all_def)

lemma put_all_other: "x \<notin> set is \<Longrightarrow> put_all is vs xs ! x = xs ! x"
proof (induction "is" arbitrary: vs xs)
  case (Cons i "is")
  then show ?case by (cases vs) (simp_all add: put_all_def)
qed (simp add: put_all_def)

lemma put_all_nth:
  "distinct is \<Longrightarrow> length vs = length is \<Longrightarrow> set is \<subseteq> {..<length xs} \<Longrightarrow> b < length is \<Longrightarrow>
     put_all is vs xs ! (is ! b) = vs ! b"
proof (induction "is" arbitrary: vs xs b)
  case (Cons i "is")
  obtain v vs' where vs: "vs = v # vs'" using Cons.prems(2) by (cases vs) auto
  have p: "put_all (i # is) vs xs = put_all is vs' (xs[i := v])" by (simp add: put_all_def vs)
  show ?case
  proof (cases b)
    case 0
    then show ?thesis using Cons.prems p put_all_other [of i "is" vs' "xs[i := v]"] by (simp add: vs)
  next
    case (Suc c)
    then show ?thesis using Cons.prems Cons.IH [of vs' "xs[i := v]" c] p by (simp add: vs)
  qed
qed simp

lemma length_walk_groups [simp]: "length (walk_groups f gs xs) = length xs"
  by (induction gs arbitrary: xs) (simp_all add: walk_groups_def)

lemma walk_groups_Cons:
  "walk_groups f (g # gs) xs = walk_groups f gs (put_all g (f (map ((!) xs) g)) xs)"
  by (simp add: walk_groups_def)

lemma walk_groups_other: "x \<notin> set (concat gs) \<Longrightarrow> walk_groups f gs xs ! x = xs ! x"
  by (induction gs arbitrary: xs) (simp_all add: walk_groups_Cons put_all_other walk_groups_def [of _ "[]"])

lemma walk_groups_nth:
  assumes "distinct (concat gs)" "set (concat gs) \<subseteq> {..<length xs}" "g \<in> set gs" "b < length g"
    and "\<And>h vs. h \<in> set gs \<Longrightarrow> length vs = length h \<Longrightarrow> length (f vs) = length h"
  shows "walk_groups f gs xs ! (g ! b) = f (map ((!) xs) g) ! b"
  using assms
proof (induction gs arbitrary: xs)
  case (Cons h gs)
  let ?xs = "put_all h (f (map ((!) xs) h)) xs"
  have apart: "set h \<inter> set (concat gs) = {}" using Cons.prems(1) by auto
  show ?case
  proof (cases "g = h")
    case True
    have "g ! b \<notin> set (concat gs)" using apart True Cons.prems(4) by (meson disjoint_iff nth_mem)
    then have "walk_groups f (h # gs) xs ! (g ! b) = ?xs ! (g ! b)"
      by (simp add: walk_groups_Cons walk_groups_other)
    also have "\<dots> = f (map ((!) xs) g) ! b"
      using Cons.prems True by (simp add: put_all_nth)
    finally show ?thesis .
  next
    case False
    then have g: "g \<in> set gs" using Cons.prems(3) by simp
    have "map ((!) ?xs) g = map ((!) xs) g"
      using apart g by (auto intro!: put_all_other)
    then show ?thesis
      using Cons.IH [of ?xs] Cons.prems g by (simp add: walk_groups_Cons del: map_eq_conv)
  qed
qed simp

text \<open>Any order of the groups gives the same list: the parallel walks of the simulator are
  deterministic.\<close>

lemma walk_groups_permute:
  assumes "distinct (concat gs)" "set (concat gs) \<subseteq> {..<length xs}" "mset hs = mset gs"
    and "\<And>h vs. h \<in> set gs \<Longrightarrow> length vs = length h \<Longrightarrow> length (f vs) = length h"
  shows "walk_groups f hs xs = walk_groups f gs xs"
proof (rule nth_equalityI)
  have set: "set hs = set gs" using assms(3) by (metis set_mset_mset)
  have "mset (concat hs) = mset (concat gs)"
    using assms(3) by (metis mset_concat mset_map sum_mset_sum_list mset_map)
  then have d: "distinct (concat hs)" using assms(1) by (metis mset_eq_imp_distinct_iff)
  have r: "set (concat hs) \<subseteq> {..<length xs}" using assms(2) set by auto
  fix x
  show "walk_groups f hs xs ! x = walk_groups f gs xs ! x"
  proof (cases "x \<in> set (concat gs)")
    case True
    then obtain g where g: "g \<in> set gs" "x \<in> set g" by auto
    then obtain b where "b < length g" "x = g ! b" by (metis in_set_conv_nth)
    then show ?thesis
      using walk_groups_nth [OF assms(1,2) g(1) _ assms(4)] walk_groups_nth [OF d r, of g b f] assms(4) g(1) set
      by simp
  next
    case False
    then show ?thesis using set by (simp add: walk_groups_other)
  qed
qed simp

text \<open>Consecutive blocks of a range are the range.\<close>

lemma concat_blocks:
  "concat (map (\<lambda>c. map (\<lambda>j. F (c * s + j)) [0..<s]) [0..<m]) = map F [0..<m * s]"
proof (induction m)
  case (Suc m)
  have "map (\<lambda>j. F (m * s + j)) [0..<s] = map F [m * s..<m * s + s]"
    by (simp add: map_add_upt [symmetric] add.commute del: upt_Suc) 
  moreover have "[0..<Suc m * s] = [0..<m * s] @ [m * s..<m * s + s]"
    using upt_add_eq_append [of 0 "m * s" s] by (simp add: add.commute)
  ultimately show ?case using Suc by simp
qed simp

lemma concat_blocks_blocks:
  "concat (map (\<lambda>c. concat (map (\<lambda>d. map (\<lambda>k. F ((c * m + d) * s + k)) [0..<s]) [0..<m])) [0..<N]) =
     map F [0..<N * (m * s)]"
proof -
  have "concat (map (\<lambda>d. map (\<lambda>k. F ((c * m + d) * s + k)) [0..<s]) [0..<m]) =
      map (\<lambda>j. F (c * (m * s) + j)) [0..<m * s]" for c
    using concat_blocks [of "\<lambda>j. F (c * (m * s) + j)" s m] by (simp add: algebra_simps)
  then show ?thesis using concat_blocks [of F "m * s" N] by simp
qed

end
