(* ===== verification/SvKernels.thy ===== *)
theory SvKernels
  imports Gates BitIndex
begin

text \<open>
  The gate kernels of \<^verbatim>\<open>crates/omega-backend-statevector/src/sim.rs\<close> on the list of the \<open>2^n\<close>
  amplitudes; qubit \<open>q\<close> is bit \<open>q\<close> of an index.  \<open>None\<close> is a panic: a failed assertion, a qubit
  outside the register or a shift by 64 or more.  A register has fewer than 64 qubits.  Below 4096 amplitudes a kernel is a loop and above it a parallel walk over
  the same groups; the groups are disjoint, so the walk is modelled by the loop and
  \<open>walk_groups_permute\<close> says that every order of the groups gives the same amplitudes.
\<close>

definition PAR_MIN_DIM :: nat where "PAR_MIN_DIM = push_bit 12 1"

text \<open>\<open>chunks_mut\<close>: where the whole chunks of a length start.\<close>

definition chunk_starts :: "nat \<Rightarrow> nat \<Rightarrow> nat list" where
  "chunk_starts whole len = map (\<lambda>c. c * len) [0..<whole div len]"

text \<open>A walk by computed indices: an index past the end is a panic.\<close>

definition index_walk :: "(complex list \<Rightarrow> complex list) \<Rightarrow> nat list list \<Rightarrow> complex list \<Rightarrow> complex list option" where
  "index_walk f gs state =
     (if list_all (list_all (\<lambda>i. i < length state)) gs then Some (walk_groups f gs state) else None)"

section \<open>One qubit\<close>

definition kernel_1q :: "gate1q \<Rightarrow> complex list \<Rightarrow> complex list" where
  "kernel_1q g a = [g ! 0 * a ! 0 + g ! 1 * a ! 1, g ! 2 * a ! 0 + g ! 3 * a ! 1]"

definition groups_1q :: "nat \<Rightarrow> nat \<Rightarrow> nat list list" where
  "groups_1q dm step =
     concat (map (\<lambda>i. map (\<lambda>k. [i + k, i + step + k]) [0..<step]) (chunk_starts dm (2 * step)))"

text \<open>At \<open>q = n\<close> the loop slices past the end, while the parallel walk finds no second half and does
  nothing.\<close>

definition apply_1q :: "complex list \<Rightarrow> nat \<Rightarrow> nat \<Rightarrow> gate1q \<Rightarrow> complex list option" where
  "apply_1q state n q g =
     (let dm = push_bit n 1; step = push_bit q 1 in
      if n < q \<or> dm < PAR_MIN_DIM \<and> n \<le> q then None
      else Some (walk_groups (kernel_1q g) (groups_1q dm step) state))"

definition apply_diagonal_1q :: "complex list \<Rightarrow> nat \<Rightarrow> nat \<Rightarrow> complex \<Rightarrow> complex \<Rightarrow> complex list" where
  "apply_diagonal_1q state n q a d =
     map (\<lambda>(i, amp). amp * (if i AND push_bit q 1 \<noteq> 0 then d else a)) (List.enumerate 0 state)"

definition diag_from :: "complex list \<Rightarrow> nat \<Rightarrow> nat \<Rightarrow> gate1q \<Rightarrow> complex list option" where
  "diag_from state n q g = (if 64 \<le> q then None else Some (apply_diagonal_1q state n q (g ! 0) (g ! 3)))"

section \<open>Two qubits\<close>

definition swap_at :: "nat \<Rightarrow> nat \<Rightarrow> 'a list \<Rightarrow> 'a list" where
  "swap_at i j xs = xs[i := xs ! j, j := xs ! i]"

text \<open>The relabelling of a matrix for the other order of its qubits.\<close>

definition relabel_2q :: "gate2q \<Rightarrow> gate2q" where
  "relabel_2q g =
     fold (\<lambda>row. swap_at (row * 4 + 1) (row * 4 + 2)) [0..<4]
       (fold (\<lambda>col. swap_at (4 + col) (2 * 4 + col)) [0..<4] g)"

definition diagonal_2q :: "gate2q \<Rightarrow> complex list option" where
  "diagonal_2q g =
     (if list_ex (\<lambda>row. list_ex (\<lambda>col. row \<noteq> col \<and> g ! (row * 4 + col) \<noteq> 0) [0..<4]) [0..<4]
      then None else Some [g ! 0, g ! 5, g ! 10, g ! 15])"

definition is_swap_2q :: "gate2q \<Rightarrow> bool" where
  "is_swap_2q g = list_all2 (=) g [1, 0, 0, 0,  0, 0, 1, 0,  0, 1, 0, 0,  0, 0, 0, 1]"

definition controlled_1q :: "gate2q \<Rightarrow> gate1q option" where
  "controlled_1q g =
     (if g ! 0 = 1 \<and> g ! 1 = 0 \<and> g ! 2 = 0 \<and> g ! 3 = 0 \<and> g ! 4 = 0 \<and> g ! 5 = 1 \<and> g ! 6 = 0 \<and> g ! 7 = 0
         \<and> g ! 8 = 0 \<and> g ! 9 = 0 \<and> g ! 12 = 0 \<and> g ! 13 = 0
      then Some [g ! 10, g ! 11, g ! 14, g ! 15] else None)"

definition middle_block_2q :: "gate2q \<Rightarrow> gate1q option" where
  "middle_block_2q g =
     (if g ! 0 = 1 \<and> g ! 15 = 1 \<and> g ! 1 = 0 \<and> g ! 2 = 0 \<and> g ! 3 = 0 \<and> g ! 4 = 0 \<and> g ! 7 = 0 \<and> g ! 8 = 0
         \<and> g ! 11 = 0 \<and> g ! 12 = 0 \<and> g ! 13 = 0 \<and> g ! 14 = 0
      then Some [g ! 5, g ! 6, g ! 9, g ! 10] else None)"

text \<open>Splitting a chunk panics when the higher qubit is above \<open>n\<close>; at \<open>n\<close> itself no chunk is whole and
  nothing is done.  The four positions of a group, in the order 00, 01, 10, 11 of the higher and the lower qubit.\<close>

definition groups_2q :: "nat \<Rightarrow> nat \<Rightarrow> nat \<Rightarrow> nat list list" where
  "groups_2q dm step_a step_b =
     concat (map (\<lambda>i. concat (map (\<lambda>j. map (\<lambda>k.
         [i + j + k, i + j + step_b + k, i + step_a + j + k, i + step_a + j + step_b + k]) [0..<step_b])
       (chunk_starts step_a (2 * step_b)))) (chunk_starts dm (2 * step_a)))"

definition kernel_2q :: "gate2q \<Rightarrow> complex list \<Rightarrow> complex list" where
  "kernel_2q g a = map (\<lambda>r. g ! (4 * r) * a ! 0 + g ! (4 * r + 1) * a ! 1 + g ! (4 * r + 2) * a ! 2
     + g ! (4 * r + 3) * a ! 3) [0..<4]"

definition kernel_diagonal :: "complex list \<Rightarrow> complex list \<Rightarrow> complex list" where
  "kernel_diagonal d a = [a ! 0 * d ! 0, a ! 1 * d ! 1, a ! 2 * d ! 2, a ! 3 * d ! 3]"

definition kernel_swap :: "complex list \<Rightarrow> complex list" where
  "kernel_swap a = [a ! 0, a ! 2, a ! 1, a ! 3]"

definition kernel_middle :: "gate1q \<Rightarrow> complex list \<Rightarrow> complex list" where
  "kernel_middle m a = [a ! 0, m ! 0 * a ! 1 + m ! 1 * a ! 2, m ! 2 * a ! 1 + m ! 3 * a ! 2, a ! 3]"

definition apply_diagonal_2q_ordered :: "complex list \<Rightarrow> nat \<Rightarrow> nat \<Rightarrow> nat \<Rightarrow> complex list \<Rightarrow> complex list option" where
  "apply_diagonal_2q_ordered state n qa qb d =
     (if qb < qa \<and> qa \<le> n then Some (walk_groups (kernel_diagonal d) (groups_2q (push_bit n 1) (push_bit qa 1) (push_bit qb 1)) state)
      else None)"

definition apply_swap_ordered :: "complex list \<Rightarrow> nat \<Rightarrow> nat \<Rightarrow> nat \<Rightarrow> complex list option" where
  "apply_swap_ordered state n qa qb =
     (if qb < qa \<and> qa \<le> n then Some (walk_groups kernel_swap (groups_2q (push_bit n 1) (push_bit qa 1) (push_bit qb 1)) state)
      else None)"

definition apply_middle_block_2q_ordered :: "complex list \<Rightarrow> nat \<Rightarrow> nat \<Rightarrow> nat \<Rightarrow> gate1q \<Rightarrow> complex list option" where
  "apply_middle_block_2q_ordered state n qa qb m =
     (if qb < qa \<and> qa \<le> n then Some (walk_groups (kernel_middle m) (groups_2q (push_bit n 1) (push_bit qa 1) (push_bit qb 1)) state)
      else None)"

text \<open>The index with zeros at two or three positions, from a compacted counter.\<close>

definition scatter2 :: "nat \<Rightarrow> nat \<Rightarrow> nat \<Rightarrow> nat" where
  "scatter2 lo hi k =
     (let low = k AND (push_bit lo 1 - 1); rest = drop_bit lo k;
          mid = rest AND (push_bit (hi - lo - 1) 1 - 1); top = drop_bit (hi - lo - 1) rest
      in low OR push_bit (lo + 1) mid OR push_bit (hi + 1) top)"

definition scatter3 :: "nat \<Rightarrow> nat \<Rightarrow> nat \<Rightarrow> nat \<Rightarrow> nat" where
  "scatter3 b0 b1 b2 k =
     (let low = k AND (push_bit b0 1 - 1); rest = drop_bit b0 k;
          mid = rest AND (push_bit (b1 - b0 - 1) 1 - 1); rest' = drop_bit (b1 - b0 - 1) rest;
          hi = rest' AND (push_bit (b2 - b1 - 1) 1 - 1); top = drop_bit (b2 - b1 - 1) rest'
      in low OR push_bit (b0 + 1) mid OR push_bit (b1 + 1) hi OR push_bit (b2 + 1) top)"

definition pair_of :: "nat \<Rightarrow> nat \<Rightarrow> nat \<Rightarrow> nat list" where
  "pair_of control target k =
     (let i = scatter2 (min control target) (max control target) k OR push_bit control 1
      in [i, i OR push_bit target 1])"

definition apply_controlled_1q :: "complex list \<Rightarrow> nat \<Rightarrow> nat \<Rightarrow> nat \<Rightarrow> gate1q \<Rightarrow> complex list option" where
  "apply_controlled_1q state n control target m =
     (if control = target then None
      else index_walk (kernel_1q m) (map (pair_of control target) [0..<drop_bit 2 (push_bit n 1)]) state)"

definition apply_cx :: "complex list \<Rightarrow> nat \<Rightarrow> nat \<Rightarrow> nat \<Rightarrow> complex list option" where
  "apply_cx state n control target =
     (if control = target then None
      else index_walk rev (map (pair_of control target) [0..<drop_bit 2 (push_bit n 1)]) state)"

definition apply_2q :: "complex list \<Rightarrow> nat \<Rightarrow> nat \<Rightarrow> nat \<Rightarrow> gate2q \<Rightarrow> complex list option" where
  "apply_2q state n q0 q1 gate =
     (case (if diagonal_2q gate = None then controlled_1q gate else None) of
        Some m \<Rightarrow> apply_controlled_1q state n q0 q1 m
      | None \<Rightarrow>
          let (qa, qb, g) = (if q1 < q0 then (q0, q1, gate) else (q1, q0, relabel_2q gate)) in
          if \<not> qb < qa \<or> n < qa then None
          else case diagonal_2q g of
            Some d \<Rightarrow> apply_diagonal_2q_ordered state n qa qb d
          | None \<Rightarrow>
              if is_swap_2q g then apply_swap_ordered state n qa qb
              else case middle_block_2q g of
                Some m \<Rightarrow> apply_middle_block_2q_ordered state n qa qb m
              | None \<Rightarrow> Some (walk_groups (kernel_2q g)
                  (groups_2q (push_bit n 1) (push_bit qa 1) (push_bit qb 1)) state))"

section \<open>Three qubits\<close>

definition triple_base :: "nat \<Rightarrow> nat \<Rightarrow> nat \<Rightarrow> nat \<Rightarrow> nat" where
  "triple_base a b c k = (let v = sort [a, b, c] in scatter3 (v ! 0) (v ! 1) (v ! 2) k)"

definition apply_ccx :: "complex list \<Rightarrow> nat \<Rightarrow> nat \<Rightarrow> nat \<Rightarrow> nat \<Rightarrow> complex list option" where
  "apply_ccx state n c0 c1 target =
     (if c0 = c1 \<or> c0 = target \<or> c1 = target then None
      else index_walk rev
        (map (\<lambda>k. let base = triple_base c0 c1 target k OR push_bit c0 1 OR push_bit c1 1
                  in [base, base OR push_bit target 1]) [0..<drop_bit 3 (push_bit n 1)]) state)"

text \<open>\<open>!mask_t0\<close> on an index clears one bit.\<close>

definition apply_cswap :: "complex list \<Rightarrow> nat \<Rightarrow> nat \<Rightarrow> nat \<Rightarrow> nat \<Rightarrow> complex list option" where
  "apply_cswap state n control t0 t1 =
     (if control = t0 \<or> control = t1 \<or> t0 = t1 then None
      else index_walk rev
        (map (\<lambda>k. let i = triple_base control t0 t1 k OR push_bit control 1 OR push_bit t0 1
                  in [i, unset_bit t0 i OR push_bit t1 1]) [0..<drop_bit 3 (push_bit n 1)]) state)"

end
