(* ===== verification/SvEquivalence.thy ===== *)
theory SvEquivalence
  imports SvKernels
begin

text \<open>
  Every kernel of the state-vector simulator computes the textbook action of its matrix: the
  amplitude of an index is the row of the matrix applied to the amplitudes whose index differs only
  in the bits of the gate's qubits.
\<close>

definition dense_1q :: "nat \<Rightarrow> gate1q \<Rightarrow> complex list \<Rightarrow> complex list" where
  "dense_1q q g st = map (\<lambda>x.
     g ! (2 * of_bool (bit x q)) * st ! put_bit q False x +
     g ! (2 * of_bool (bit x q) + 1) * st ! put_bit q True x) [0..<length st]"

definition row_2q :: "nat \<Rightarrow> nat \<Rightarrow> nat \<Rightarrow> nat" where
  "row_2q q0 q1 x = 2 * of_bool (bit x q0) + of_bool (bit x q1)"

definition dense_2q :: "nat \<Rightarrow> nat \<Rightarrow> gate2q \<Rightarrow> complex list \<Rightarrow> complex list" where
  "dense_2q q0 q1 g st = map (\<lambda>x.
     g ! (4 * row_2q q0 q1 x) * st ! put_bit q0 False (put_bit q1 False x) +
     g ! (4 * row_2q q0 q1 x + 1) * st ! put_bit q0 False (put_bit q1 True x) +
     g ! (4 * row_2q q0 q1 x + 2) * st ! put_bit q0 True (put_bit q1 False x) +
     g ! (4 * row_2q q0 q1 x + 3) * st ! put_bit q0 True (put_bit q1 True x)) [0..<length st]"

definition permuted :: "(nat \<Rightarrow> nat) \<Rightarrow> complex list \<Rightarrow> complex list" where
  "permuted \<pi> st = map (\<lambda>x. st ! \<pi> x) [0..<length st]"

lemma length_dense [simp]: "length (dense_1q q g st) = length st" "length (dense_2q q0 q1 g st) = length st"
  "length (permuted \<pi> st) = length st"
  by (simp_all add: dense_1q_def dense_2q_def permuted_def)

section \<open>Groups\<close>

text \<open>A family of groups whose members lead back to their number by some function is disjoint.\<close>

lemma distinct_concat_map:
  assumes "\<And>k. k < m \<Longrightarrow> distinct (G k)"
    and "\<And>k x. k < m \<Longrightarrow> x \<in> set (G k) \<Longrightarrow> r x = k"
  shows "distinct (concat (map G [0..<m]))"
  using assms
proof (induction m)
  case (Suc m)
  have "set (concat (map G [0..<m])) \<inter> set (G m) = {}"
  proof (rule ccontr)
    assume "set (concat (map G [0..<m])) \<inter> set (G m) \<noteq> {}"
    then obtain x k where "k < m" "x \<in> set (G k)" "x \<in> set (G m)" by auto
    then show False using Suc.prems(2) [of k x] Suc.prems(2) [of m x] by auto
  qed
  then show ?case using Suc by simp
qed simp

text \<open>What a walk over such a family computes at a member.\<close>

lemma walk_family:
  assumes "\<And>k. k < m \<Longrightarrow> distinct (G k)"
    and "\<And>k x. k < m \<Longrightarrow> x \<in> set (G k) \<Longrightarrow> r x = k \<and> x < length st"
    and "\<And>k vs. length vs = length (G k) \<Longrightarrow> length (f vs) = length vs" "k < m" "b < length (G k)" "x = G k ! b"
  shows "walk_groups f (map G [0..<m]) st ! x = f (map ((!) st) (G k)) ! b"
  unfolding assms(6)
proof (rule walk_groups_nth)
  show "distinct (concat (map G [0..<m]))" using assms(1,2) by (intro distinct_concat_map [where r = r]) auto
  show "set (concat (map G [0..<m])) \<subseteq> {..<length st}" using assms(2) by auto
qed (use assms in auto)

lemma walk_family_other:
  "(\<And>k. k < m \<Longrightarrow> x \<notin> set (G k)) \<Longrightarrow> walk_groups f (map G [0..<m]) st ! x = st ! x"
  by (intro walk_groups_other) auto

section \<open>Indices of the kernels\<close>

lemma push_one [simp]: "push_bit q (1 :: nat) = 2 ^ q"
  by (simp add: push_bit_eq_mult)

lemma insert_zero_block:
  "j < 2 ^ q \<Longrightarrow> insert_zero q (c * 2 ^ q + j) = c * 2 ^ Suc q + j"
  by (simp add: insert_zero_def take_bit_eq_mod drop_bit_eq_div push_bit_eq_mult)

lemma groups_1q_index:
  assumes "q < n"
  shows "groups_1q (2 ^ n) (2 ^ q) =
    map (\<lambda>k. [insert_zero q k, set_bit q (insert_zero q k)]) [0..<2 ^ (n - 1)]"
proof -
  have n: "n = Suc q + (n - Suc q)" using assms by simp
  have chunks: "(2 :: nat) ^ n div (2 * 2 ^ q) = 2 ^ (n - Suc q)"
    by (subst n) (simp add: power_add)
  have F: "[c * (2 * 2 ^ q) + k, c * (2 * 2 ^ q) + 2 ^ q + k] =
      [insert_zero q (c * 2 ^ q + k), set_bit q (insert_zero q (c * 2 ^ q + k))]" if "k < 2 ^ q" for c k :: nat
  proof -
    have "insert_zero q (c * 2 ^ q + k) + 2 ^ q = set_bit q (insert_zero q (c * 2 ^ q + k))"
      by (rule plus_exp_set_bit) (simp add: bit_insert_zero)
    then show ?thesis using insert_zero_block [OF that, of c] by simp
  qed
  have "groups_1q (2 ^ n) (2 ^ q) = concat (map (\<lambda>c. map (\<lambda>k. [insert_zero q (c * 2 ^ q + k),
      set_bit q (insert_zero q (c * 2 ^ q + k))]) [0..<2 ^ q]) [0..<2 ^ (n - Suc q)])"
    unfolding groups_1q_def chunk_starts_def chunks map_map comp_def
    using F by (intro arg_cong [of _ _ concat] map_cong refl) auto
  also have "\<dots> = map (\<lambda>k. [insert_zero q k, set_bit q (insert_zero q k)]) [0..<2 ^ (n - Suc q) * 2 ^ q]"
    by (rule concat_blocks)
  also have "2 ^ (n - Suc q) * 2 ^ q = (2 ^ (n - 1) :: nat)"
    using assms by (simp flip: power_add)
  finally show ?thesis .
qed

text \<open>The counter of an index: the index without the bit.\<close>

definition remove_bit :: "nat \<Rightarrow> nat \<Rightarrow> nat" where
  "remove_bit p x = take_bit p x OR push_bit p (drop_bit (Suc p) x)"

lemma bit_remove_bit: "bit (remove_bit p x) i = (if i < p then bit x i else bit x (Suc i))"
  by (auto simp: remove_bit_def bit_simps)

lemma remove_insert [simp]: "remove_bit p (insert_zero p k) = k"
  by (rule bit_eqI) (auto simp: bit_remove_bit bit_insert_zero)

lemma insert_remove: "insert_zero p (remove_bit p x) = unset_bit p x"
  by (rule bit_eqI) (auto simp: bit_remove_bit bit_insert_zero bit_unset_bit_nat)

lemma remove_set [simp]: "remove_bit p (set_bit p x) = remove_bit p x"
  by (rule bit_eqI) (auto simp: bit_remove_bit bit_set_bit_nat)

lemma remove_bit_less: "x < 2 ^ Suc m \<Longrightarrow> remove_bit p x < 2 ^ m" if "p \<le> m"
  unfolding less_exp_iff_bits using that by (auto simp: bit_remove_bit)

section \<open>One-qubit kernels\<close>

lemma apply_1q_dense:
  assumes "length st = 2 ^ n" "q < n"
  shows "apply_1q st n q g = Some (dense_1q q g st)"
proof -
  let ?G = "\<lambda>k. [insert_zero q k, set_bit q (insert_zero q k)]"
  obtain m where n: "n = Suc m" using assms(2) by (cases n) auto
  have q: "q \<le> m" using assms(2) n by simp
  have less: "insert_zero q k < 2 ^ n" if "k < 2 ^ m" for k
    using insert_zero_less [OF that q] n by simp
  have "walk_groups (kernel_1q g) (map ?G [0..<2 ^ m]) st = dense_1q q g st"
  proof (rule nth_equalityI)
    fix x assume "x < length (walk_groups (kernel_1q g) (map ?G [0..<2 ^ m]) st)"
    then have x: "x < 2 ^ n" using assms(1) by simp
    let ?k = "remove_bit q x" and ?b = "of_bool (bit x q) :: nat"
    have k: "?k < 2 ^ m" using x q n by (intro remove_bit_less) auto
    have g: "?G ?k = [put_bit q False x, put_bit q True x]"
      by (simp add: insert_remove put_bit_def) (rule bit_eqI, auto simp: bit_set_bit_nat bit_unset_bit_nat)
    have "walk_groups (kernel_1q g) (map ?G [0..<2 ^ m]) st ! x = kernel_1q g (map ((!) st) (?G ?k)) ! ?b"
    proof (rule walk_family [where r = "remove_bit q" and m = "2 ^ m"])
      show "distinct (?G k)" for k
        using bit_insert_zero [of q k q] bit_set_bit_nat [of q "insert_zero q k" q] by auto
      show "remove_bit q y = k \<and> y < length st" if "k < 2 ^ m" "y \<in> set (?G k)" for k y
        using that less [OF that(1)] assms(1,2) by (auto intro: set_bit_less)
      show "length vs = length (?G k) \<Longrightarrow> length (kernel_1q g vs) = length vs" for k vs
        by (simp add: kernel_1q_def)
      show "x = ?G ?k ! ?b" unfolding g using put_bit_same [of q x] by (cases "bit x q") auto
    qed (use k in auto)
    then show "walk_groups (kernel_1q g) (map ?G [0..<2 ^ m]) st ! x = dense_1q q g st ! x"
      unfolding g using x assms(1) by (cases "bit x q") (simp_all add: dense_1q_def kernel_1q_def)
  qed simp
  then show ?thesis
    using assms(2) groups_1q_index [OF assms(2)] n
    by (auto simp: apply_1q_def Let_def)
qed

lemma diag_from_dense:
  assumes "length st = 2 ^ n" "q < n" "n \<le> 64" "g ! 1 = 0" "g ! 2 = 0"
  shows "diag_from st n q g = Some (dense_1q q g st)"
proof -
  have "apply_diagonal_1q st n q (g ! 0) (g ! 3) = dense_1q q g st"
  proof (rule nth_equalityI)
    fix x assume "x < length (apply_diagonal_1q st n q (g ! 0) (g ! 3))"
    then have x: "x < length st" by (simp add: apply_diagonal_1q_def)
    show "apply_diagonal_1q st n q (g ! 0) (g ! 3) ! x = dense_1q q g st ! x"
      using x assms(4,5) put_bit_same [of q x] and_exp_bit [of x q]
      by (cases "bit x q") (simp_all add: apply_diagonal_1q_def nth_enumerate_eq dense_1q_def)
  qed (simp add: apply_diagonal_1q_def)
  then show ?thesis using assms(2,3) by (simp add: diag_from_def)
qed

section \<open>Two-qubit walks\<close>

lemma groups_2q_index:
  assumes "qb < qa" "qa < n"
  shows "groups_2q (2 ^ n) (2 ^ qa) (2 ^ qb) =
    map (\<lambda>k. let u = insert_zero qa (insert_zero qb k)
             in [u, set_bit qb u, set_bit qa u, set_bit qa (set_bit qb u)]) [0..<2 ^ (n - 2)]"
proof -
  let ?G = "\<lambda>k. let u = insert_zero qa (insert_zero qb k)
             in [u, set_bit qb u, set_bit qa u, set_bit qa (set_bit qb u)]"
  let ?m = "qa - Suc qb"
  have qa: "qa = Suc qb + ?m" and n: "n = Suc qa + (n - Suc qa)" using assms by simp_all
  have chunks: "(2 :: nat) ^ n div (2 * 2 ^ qa) = 2 ^ (n - Suc qa)" "(2 :: nat) ^ qa div (2 * 2 ^ qb) = 2 ^ ?m"
    by (subst n, simp add: power_add, subst qa, simp add: power_add)
  have F: "[c * (2 * 2 ^ qa) + d * (2 * 2 ^ qb) + k, c * (2 * 2 ^ qa) + d * (2 * 2 ^ qb) + 2 ^ qb + k,
      c * (2 * 2 ^ qa) + 2 ^ qa + d * (2 * 2 ^ qb) + k,
      c * (2 * 2 ^ qa) + 2 ^ qa + d * (2 * 2 ^ qb) + 2 ^ qb + k] = ?G ((c * 2 ^ ?m + d) * 2 ^ qb + k)"
    if k: "k < 2 ^ qb" and d: "d < 2 ^ ?m" for c d k :: nat
  proof -
    have "d * 2 ^ Suc qb + k < (d + 1) * 2 ^ Suc qb" using k by simp
    also have "\<dots> \<le> 2 ^ ?m * 2 ^ Suc qb" using d by (intro mult_right_mono) auto
    also have "\<dots> = 2 ^ qa" by (subst (2) qa) (simp add: power_add)
    finally have less: "d * 2 ^ Suc qb + k < 2 ^ qa" .
    have "insert_zero qb ((c * 2 ^ ?m + d) * 2 ^ qb + k) = (c * 2 ^ ?m + d) * 2 ^ Suc qb + k"
      by (rule insert_zero_block [OF k])
    also have "\<dots> = c * 2 ^ qa + (d * 2 ^ Suc qb + k)"
      by (subst (2) qa) (simp add: power_add algebra_simps)
    finally have b: "insert_zero qb ((c * 2 ^ ?m + d) * 2 ^ qb + k) = c * 2 ^ qa + (d * 2 ^ Suc qb + k)" .
    define u where "u = insert_zero qa (insert_zero qb ((c * 2 ^ ?m + d) * 2 ^ qb + k))"
    have u: "u = c * 2 ^ Suc qa + (d * 2 ^ Suc qb + k)"
      unfolding u_def b by (rule insert_zero_block [OF less])
    have bits: "\<not> bit u qb" "\<not> bit (set_bit qb u) qa"
      using assms(1) by (auto simp: u_def bit_insert_zero bit_set_bit_nat)
    have "\<not> bit u qa" by (simp add: u_def bit_insert_zero)
    then have "u + 2 ^ qa = set_bit qa u" "u + 2 ^ qb = set_bit qb u"
      "set_bit qb u + 2 ^ qa = set_bit qa (set_bit qb u)"
      using bits by (simp_all add: plus_exp_set_bit)
    then show ?thesis unfolding Let_def u_def [symmetric] by (simp add: u)
  qed
  have "groups_2q (2 ^ n) (2 ^ qa) (2 ^ qb) = concat (map (\<lambda>c. concat (map (\<lambda>d.
      map (\<lambda>k. ?G ((c * 2 ^ ?m + d) * 2 ^ qb + k)) [0..<2 ^ qb]) [0..<2 ^ ?m])) [0..<2 ^ (n - Suc qa)])"
    unfolding groups_2q_def chunk_starts_def chunks map_map comp_def
    using F by (intro arg_cong [of _ _ concat] map_cong refl) auto
  also have "\<dots> = map ?G [0..<2 ^ (n - Suc qa) * (2 ^ ?m * 2 ^ qb)]"
    by (rule concat_blocks_blocks)
  also have "2 ^ (n - Suc qa) * (2 ^ ?m * 2 ^ qb) = (2 ^ (n - 2) :: nat)"
    using assms by (simp flip: power_add)
  finally show ?thesis .
qed

lemma insert_zero_unset: "r < q \<Longrightarrow> insert_zero q (unset_bit r y) = unset_bit r (insert_zero q y)"
  by (intro bit_eqI) (auto simp: bit_insert_zero bit_unset_bit_nat)

lemma free_pair:
  "r < q \<Longrightarrow> insert_zero q (insert_zero r (remove_bit r (remove_bit q x))) = unset_bit r (unset_bit q x)"
  by (simp add: insert_remove insert_zero_unset)

text \<open>The amplitudes of the group of an index, and what a walk by quadruples computes there.\<close>

definition quad_at :: "nat \<Rightarrow> nat \<Rightarrow> complex list \<Rightarrow> nat \<Rightarrow> complex list" where
  "quad_at q0 q1 st x =
     [st ! put_bit q0 False (put_bit q1 False x), st ! put_bit q0 False (put_bit q1 True x),
      st ! put_bit q0 True (put_bit q1 False x), st ! put_bit q0 True (put_bit q1 True x)]"

lemma quad_walk:
  assumes "length st = 2 ^ n" "qb < qa" "qa < n" "\<And>vs. length vs = 4 \<Longrightarrow> length (f vs) = 4"
  shows "walk_groups f (groups_2q (2 ^ n) (2 ^ qa) (2 ^ qb)) st =
    map (\<lambda>x. f (quad_at qa qb st x) ! row_2q qa qb x) [0..<2 ^ n]"
proof (rule nth_equalityI)
  let ?G = "\<lambda>k. let u = insert_zero qa (insert_zero qb k)
             in [u, set_bit qb u, set_bit qa u, set_bit qa (set_bit qb u)]"
  obtain m where n: "n = Suc (Suc m)" using assms(2,3) by (metis Suc_lessE less_imp_Suc_add)
  fix x assume "x < length (walk_groups f (groups_2q (2 ^ n) (2 ^ qa) (2 ^ qb)) st)"
  then have x: "x < 2 ^ n" using assms(1) by simp
  let ?r = "\<lambda>x. remove_bit qb (remove_bit qa x)"
  let ?k = "?r x" and ?b = "row_2q qa qb x"
  have "remove_bit qa x < 2 ^ Suc m" using x assms(3) n by (intro remove_bit_less) auto
  then have k: "?k < 2 ^ m" using assms(2,3) n remove_bit_less [of qb m "remove_bit qa x"] by linarith
  have r_set: "remove_bit qb (remove_bit qa (set_bit qb y)) = ?r y" for y
    using assms(2) by (intro bit_eqI) (auto simp: bit_remove_bit bit_set_bit_nat)
  have g: "?G ?k = [put_bit qa False (put_bit qb False x), put_bit qa False (put_bit qb True x),
      put_bit qa True (put_bit qb False x), put_bit qa True (put_bit qb True x)]"
    using assms(2) unfolding Let_def list.inject free_pair [OF assms(2)]
    by (intro conjI refl; intro bit_eqI; auto simp: bit_put_bit bit_set_bit_nat bit_unset_bit_nat)
  have "walk_groups f (map ?G [0..<2 ^ m]) st ! x = f (map ((!) st) (?G ?k)) ! ?b"
  proof (rule walk_family [where r = ?r and m = "2 ^ m"])
    show "distinct (?G k)" for k
      using assms(2) unfolding Let_def
      by (simp, intro conjI; metis bit_insert_zero bit_set_bit_nat less_irrefl)
    show "?r y = k \<and> y < length st" if "k < 2 ^ m" "y \<in> set (?G k)" for k y
    proof
      let ?u = "insert_zero qa (insert_zero qb k)"
      have "insert_zero qb k < 2 ^ Suc m" using assms(2,3) n that(1) by (intro insert_zero_less) auto
      then have u: "?u < 2 ^ n" using assms(3) n insert_zero_less [of "insert_zero qb k" "Suc m" qa] by simp
      have y: "y = ?u \<or> y = set_bit qb ?u \<or> y = set_bit qa ?u \<or> y = set_bit qa (set_bit qb ?u)"
        using that(2) by (simp add: Let_def)
      then show "?r y = k" using r_set [of ?u] by auto
      have "qb < n" using assms(2,3) by simp
      then show "y < length st" using y u assms(1,3) by (auto intro!: set_bit_less)
    qed
    show "length vs = length (?G k) \<Longrightarrow> length (f vs) = length vs" for k vs
      using assms(4) by (simp add: Let_def)
    show "x = ?G ?k ! ?b"
      unfolding g using assms(2)
      by (cases "bit x qa"; cases "bit x qb"; simp add: row_2q_def; intro bit_eqI; auto simp: bit_put_bit)
    show "?b < length (?G ?k)" unfolding g by (simp add: row_2q_def)
  qed (use k in auto)
  moreover have "map ((!) st) (?G ?k) = quad_at qa qb st x" unfolding g by (simp add: quad_at_def)
  ultimately show "walk_groups f (groups_2q (2 ^ n) (2 ^ qa) (2 ^ qb)) st ! x =
      map (\<lambda>x. f (quad_at qa qb st x) ! row_2q qa qb x) [0..<2 ^ n] ! x"
    using x groups_2q_index [OF assms(2,3)] n by simp
qed (use assms(1) in simp)

lemma row_2q_cases: "row_2q q0 q1 x \<in> {0, 1, 2, 3}"
  by (simp add: row_2q_def)

lemma dense_2q_quad:
  assumes "length st = 2 ^ n"
    and "\<And>x. x < 2 ^ n \<Longrightarrow> f (quad_at q0 q1 st x) ! row_2q q0 q1 x =
      kernel_2q g (quad_at q0 q1 st x) ! row_2q q0 q1 x"
  shows "map (\<lambda>x. f (quad_at q0 q1 st x) ! row_2q q0 q1 x) [0..<2 ^ n] = dense_2q q0 q1 g st"
proof (rule nth_equalityI)
  fix x assume "x < length (map (\<lambda>x. f (quad_at q0 q1 st x) ! row_2q q0 q1 x) [0..<2 ^ n])"
  then have x: "x < 2 ^ n" by simp
  have "row_2q q0 q1 x < 4" using row_2q_cases [of q0 q1 x] by auto
  then show "map (\<lambda>x. f (quad_at q0 q1 st x) ! row_2q q0 q1 x) [0..<2 ^ n] ! x = dense_2q q0 q1 g st ! x"
    using assms x by (simp add: dense_2q_def kernel_2q_def quad_at_def)
qed (use assms(1) in simp)

lemma diagonal_2q_Some:
  assumes "diagonal_2q g = Some d"
  shows "d = [g ! 0, g ! 5, g ! 10, g ! 15]"
    and "\<And>row col. row < 4 \<Longrightarrow> col < 4 \<Longrightarrow> row \<noteq> col \<Longrightarrow> g ! (row * 4 + col) = 0"
proof -
  show "d = [g ! 0, g ! 5, g ! 10, g ! 15]" using assms by (auto simp: diagonal_2q_def split: if_splits)
  have "\<forall>row \<in> {0..<4}. \<forall>col \<in> {0..<4}. row = col \<or> g ! (row * 4 + col) = 0"
    using assms by (auto simp: diagonal_2q_def list_ex_iff split: if_splits)
  then show "\<And>row col. row < 4 \<Longrightarrow> col < 4 \<Longrightarrow> row \<noteq> col \<Longrightarrow> g ! (row * 4 + col) = 0"
    by (meson atLeastLessThan_iff zero_le)
qed

lemma kernel_diagonal_eq:
  assumes "diagonal_2q g = Some d" "b < 4"
  shows "kernel_diagonal d a ! b = kernel_2q g a ! b"
proof -
  note z = diagonal_2q_Some(2) [OF assms(1)]
  have "g ! 1 = 0" "g ! 2 = 0" "g ! 3 = 0" "g ! 4 = 0" "g ! 6 = 0" "g ! 7 = 0" "g ! 8 = 0" "g ! 9 = 0"
    "g ! 11 = 0" "g ! 12 = 0" "g ! 13 = 0" "g ! 14 = 0"
    using z [of 0 1] z [of 0 2] z [of 0 3] z [of 1 0] z [of 1 2] z [of 1 3] z [of 2 0] z [of 2 1] z [of 2 3]
      z [of 3 0] z [of 3 1] z [of 3 2] by (simp_all add: numeral_2_eq_2)
  moreover have "b = 0 \<or> b = 1 \<or> b = 2 \<or> b = 3" using assms(2) by auto
  ultimately show ?thesis
    by (auto simp: kernel_diagonal_def kernel_2q_def diagonal_2q_Some(1) [OF assms(1)] numeral_2_eq_2)
qed

lemma kernel_swap_eq:
  assumes "is_swap_2q g" "b < 4"
  shows "kernel_swap a ! b = kernel_2q g a ! b"
proof -
  have "g = [1, 0, 0, 0,  0, 0, 1, 0,  0, 1, 0, 0,  0, 0, 0, 1]"
    using assms(1) by (simp add: is_swap_2q_def list_all2_eq [symmetric])
  moreover have "b = 0 \<or> b = 1 \<or> b = 2 \<or> b = 3" using assms(2) by auto
  ultimately show ?thesis by (auto simp: kernel_swap_def kernel_2q_def)
qed

lemma kernel_middle_eq:
  assumes "middle_block_2q g = Some m" "b < 4"
  shows "kernel_middle m a ! b = kernel_2q g a ! b"
proof -
  have "b = 0 \<or> b = 1 \<or> b = 2 \<or> b = 3" using assms(2) by auto
  then show ?thesis
    using assms(1) by (auto simp: kernel_middle_def kernel_2q_def middle_block_2q_def numeral_2_eq_2 split: if_splits)
qed

section \<open>Relabelling\<close>

lemma length16: "length g = 16 \<Longrightarrow>
  g = [g ! 0, g ! 1, g ! 2, g ! 3, g ! 4, g ! 5, g ! 6, g ! 7, g ! 8, g ! 9, g ! 10, g ! 11, g ! 12, g ! 13, g ! 14, g ! 15]"
  by (intro nth_equalityI) (auto simp: numeral_eq_Suc less_Suc_eq)

lemma relabel_2q_list:
  "relabel_2q [a0, a1, a2, a3, a4, a5, a6, a7, a8, a9, a10, a11, a12, a13, a14, a15] =
     [a0, a2, a1, a3, a8, a10, a9, a11, a4, a6, a5, a7, a12, a14, a13, a15]"
  by (simp add: relabel_2q_def swap_at_def upt_rec)

lemma length_relabel [simp]: "length (relabel_2q g) = length g"
proof -
  have "length (fold (\<lambda>i. swap_at (h i) (k i)) is xs) = length xs" for h k and "is" :: "nat list" and xs :: "complex list"
    by (induction "is" arbitrary: xs) (simp_all add: swap_at_def)
  then show ?thesis by (simp add: relabel_2q_def)
qed

lemma relabel_dense:
  assumes "length g = 16" "q0 \<noteq> q1"
  shows "dense_2q q1 q0 (relabel_2q g) st = dense_2q q0 q1 g st"
proof (rule nth_equalityI)
  fix x assume "x < length (dense_2q q1 q0 (relabel_2q g) st)"
  then have x: "x < length st" by simp
  obtain a0 a1 a2 a3 a4 a5 a6 a7 a8 a9 a10 a11 a12 a13 a14 a15
    where g: "g = [a0, a1, a2, a3, a4, a5, a6, a7, a8, a9, a10, a11, a12, a13, a14, a15]"
    using length16 [OF assms(1)] by blast
  have swap: "put_bit q1 b (put_bit q0 c x) = put_bit q0 c (put_bit q1 b x)" for b c
    using assms(2) by (simp add: put_bit_swap)
  show "dense_2q q1 q0 (relabel_2q g) st ! x = dense_2q q0 q1 g st ! x"
    using x unfolding g relabel_2q_list
    by (cases "bit x q0"; cases "bit x q1"; simp add: dense_2q_def row_2q_def swap)
qed simp

section \<open>Kernels by computed indices\<close>

lemma mask_and: "(k :: nat) AND (2 ^ m - 1) = take_bit m k"
  by (simp add: take_bit_eq_mask mask_eq_exp_minus_1)

lemma bit_scatter2:
  assumes "lo < hi"
  shows "bit (scatter2 lo hi k) i = (i \<noteq> lo \<and> i \<noteq> hi \<and>
    bit k (if i < lo then i else if i < hi then i - 1 else i - 2))"
  using assms unfolding scatter2_def Let_def push_one mask_and
  by (auto simp: bit_or_iff bit_take_bit_iff bit_push_bit_iff_nat bit_drop_bit_eq Suc_diff_Suc numeral_2_eq_2
      simp del: push_bit_Suc)

lemma scatter2_insert: "lo < hi \<Longrightarrow> scatter2 lo hi k = insert_zero hi (insert_zero lo k)"
  by (rule bit_eqI) (auto simp: bit_scatter2 bit_insert_zero numeral_2_eq_2)

lemma scatter3_scatter2:
  assumes "b0 < b1" "b1 < b2"
  shows "scatter3 b0 b1 b2 k = insert_zero b2 (scatter2 b0 b1 k)"
proof (rule bit_eqI)
  fix i
  have b: "bit (scatter3 b0 b1 b2 k) i = (i \<noteq> b0 \<and> i \<noteq> b1 \<and> i \<noteq> b2 \<and>
    bit k (if i < b0 then i else if i < b1 then i - 1 else if i < b2 then i - 2 else i - 3))"
    using assms unfolding scatter3_def Let_def push_one mask_and
    by (auto simp: bit_or_iff bit_take_bit_iff bit_push_bit_iff_nat bit_drop_bit_eq Suc_diff_Suc
        numeral_2_eq_2 numeral_3_eq_3 simp del: push_bit_Suc)
  show "bit (scatter3 b0 b1 b2 k) i = bit (insert_zero b2 (scatter2 b0 b1 k)) i"
    using assms unfolding b by (auto simp: bit_scatter2 bit_insert_zero numeral_2_eq_2 numeral_3_eq_3)
qed

text \<open>The free index of a counter, for two and for three positions.\<close>

definition free2 :: "nat \<Rightarrow> nat \<Rightarrow> nat \<Rightarrow> nat" where
  "free2 a b k = insert_zero (max a b) (insert_zero (min a b) k)"

definition unfree2 :: "nat \<Rightarrow> nat \<Rightarrow> nat \<Rightarrow> nat" where
  "unfree2 a b x = remove_bit (min a b) (remove_bit (max a b) x)"

lemma bit_free2: "a \<noteq> b \<Longrightarrow> \<not> bit (free2 a b k) a" "a \<noteq> b \<Longrightarrow> \<not> bit (free2 a b k) b"
  by (auto simp: free2_def bit_insert_zero min_def max_def)

lemma free2_unfree2: "a \<noteq> b \<Longrightarrow> free2 a b (unfree2 a b x) = unset_bit a (unset_bit b x)"
proof -
  assume "a \<noteq> b"
  then have "free2 a b (unfree2 a b x) = unset_bit (min a b) (unset_bit (max a b) x)"
    by (simp add: free2_def unfree2_def free_pair min_def max_def)
  then show ?thesis by (simp add: min_def max_def) (auto intro!: bit_eqI simp: bit_unset_bit_nat)
qed

lemma unfree2_cong:
  "a \<noteq> b \<Longrightarrow> (\<And>i. i \<noteq> a \<Longrightarrow> i \<noteq> b \<Longrightarrow> bit x i = bit y i) \<Longrightarrow> unfree2 a b x = unfree2 a b y"
  by (rule bit_eqI) (auto simp: unfree2_def bit_remove_bit min_def max_def)

lemma unfree2_free2 [simp]: "unfree2 a b (free2 a b k) = k"
  by (simp add: free2_def unfree2_def)

lemma free2_less: "a \<noteq> b \<Longrightarrow> a < n \<Longrightarrow> b < n \<Longrightarrow> k < 2 ^ (n - 2) \<Longrightarrow> free2 a b k < 2 ^ n"
proof -
  assume h: "a \<noteq> b" "a < n" "b < n" "k < 2 ^ (n - 2)"
  then obtain m where n: "n = Suc (Suc m)" by (metis Suc_lessE less_Suc0 not_less_eq old.nat.exhaust)
  have "insert_zero (min a b) k < 2 ^ Suc m" using h n by (intro insert_zero_less) auto
  then have "insert_zero (max a b) (insert_zero (min a b) k) < 2 ^ Suc (Suc m)"
    using h n by (intro insert_zero_less) auto
  then show ?thesis by (simp add: free2_def n)
qed

lemma unfree2_less: "a \<noteq> b \<Longrightarrow> a < n \<Longrightarrow> b < n \<Longrightarrow> x < 2 ^ n \<Longrightarrow> unfree2 a b x < 2 ^ (n - 2)"
proof -
  assume h: "a \<noteq> b" "a < n" "b < n" "x < 2 ^ n"
  then obtain m where n: "n = Suc (Suc m)" by (metis Suc_lessE less_Suc0 not_less_eq old.nat.exhaust)
  have "remove_bit (max a b) x < 2 ^ Suc m" using h n remove_bit_less [of "max a b" "Suc m" x] by simp
  then show ?thesis using h n remove_bit_less [of "min a b" m] by (simp add: unfree2_def)
qed

lemma pair_of_free2:
  "c \<noteq> t \<Longrightarrow> pair_of c t k = [set_bit c (free2 c t k), set_bit t (set_bit c (free2 c t k))]"
  by (auto simp: pair_of_def Let_def scatter2_insert free2_def or_exp_set_bit [unfolded push_one] min_def max_def)

lemma pair_walk:
  assumes "length st = 2 ^ n" "c \<noteq> t" "c < n" "t < n" "\<And>vs. length vs = 2 \<Longrightarrow> length (f vs) = 2"
  shows "index_walk f (map (pair_of c t) [0..<2 ^ (n - 2)]) st =
    Some (map (\<lambda>x. if bit x c then f [st ! put_bit t False x, st ! put_bit t True x] ! of_bool (bit x t)
      else st ! x) [0..<2 ^ n])"
proof -
  let ?G = "pair_of c t"
  note G = pair_of_free2 [OF assms(2)]
  have mem: "bit y c \<and> unfree2 c t y = k \<and> y < length st" if "k < 2 ^ (n - 2)" "y \<in> set (?G k)" for k y
  proof -
    have "y = set_bit c (free2 c t k) \<or> y = set_bit t (set_bit c (free2 c t k))" using that(2) by (simp add: G)
    then show ?thesis
    proof
      assume y: "y = set_bit c (free2 c t k)"
      have "unfree2 c t y = unfree2 c t (free2 c t k)"
        unfolding y using assms(2) by (intro unfree2_cong) (auto simp: bit_set_bit_nat)
      then show ?thesis using y free2_less [OF assms(2-4) that(1)] assms
        by (simp add: bit_set_bit_nat set_bit_less)
    next
      assume y: "y = set_bit t (set_bit c (free2 c t k))"
      have "unfree2 c t y = unfree2 c t (free2 c t k)"
        unfolding y using assms(2) by (intro unfree2_cong) (auto simp: bit_set_bit_nat)
      then show ?thesis using y free2_less [OF assms(2-4) that(1)] assms
        by (simp add: bit_set_bit_nat set_bit_less)
    qed
  qed
  have "walk_groups f (map ?G [0..<2 ^ (n - 2)]) st =
      map (\<lambda>x. if bit x c then f [st ! put_bit t False x, st ! put_bit t True x] ! of_bool (bit x t)
      else st ! x) [0..<2 ^ n]"
  proof (rule nth_equalityI)
    fix x assume "x < length (walk_groups f (map ?G [0..<2 ^ (n - 2)]) st)"
    then have x: "x < 2 ^ n" using assms(1) by simp
    show "walk_groups f (map ?G [0..<2 ^ (n - 2)]) st ! x =
        map (\<lambda>x. if bit x c then f [st ! put_bit t False x, st ! put_bit t True x] ! of_bool (bit x t)
        else st ! x) [0..<2 ^ n] ! x"
    proof (cases "bit x c")
      case True
      let ?k = "unfree2 c t x"
      have g: "?G ?k = [put_bit t False x, put_bit t True x]"
        using assms(2) True unfolding G free2_unfree2 [OF assms(2)] list.inject
        by (intro conjI refl; intro bit_eqI; auto simp: bit_put_bit bit_set_bit_nat bit_unset_bit_nat)
      have "walk_groups f (map ?G [0..<2 ^ (n - 2)]) st ! x = f (map ((!) st) (?G ?k)) ! of_bool (bit x t)"
      proof (rule walk_family [where r = "unfree2 c t"])
        show "distinct (?G k)" for k
          using bit_free2(2) [OF assms(2), of k] bit_set_bit_nat [of t "set_bit c (free2 c t k)" t]
            bit_set_bit_nat [of c "free2 c t k" t] assms(2)
          by (auto simp: G)
        show "?k < 2 ^ (n - 2)" using unfree2_less assms x by blast
        show "x = ?G ?k ! of_bool (bit x t)" unfolding g using put_bit_same [of t x] by (cases "bit x t") auto
        show "of_bool (bit x t) < length (?G ?k)" unfolding g by simp
        show "length vs = length (?G k) \<Longrightarrow> length (f vs) = length vs" for k vs
          using assms(5) by (simp add: G)
      qed (use mem in auto)
      then show ?thesis unfolding g using x True by simp
    next
      case False
      then have "walk_groups f (map ?G [0..<2 ^ (n - 2)]) st ! x = st ! x"
        using mem by (intro walk_family_other) auto
      then show ?thesis using x False by simp
    qed
  qed (use assms(1) in simp)
  moreover have "list_all (list_all (\<lambda>i. i < length st)) (map ?G [0..<2 ^ (n - 2)])"
    using mem by (auto simp: list_all_iff)
  ultimately show ?thesis by (simp add: index_walk_def)
qed

lemma length_kernel [simp]: "length (kernel_1q g a) = 2" "length (kernel_2q g a) = 4"
  by (simp_all add: kernel_1q_def kernel_2q_def)

lemma pair_count: "q0 \<noteq> q1 \<Longrightarrow> q0 < n \<Longrightarrow> q1 < n \<Longrightarrow> drop_bit 2 (2 ^ n) = (2 :: nat) ^ (n - 2)"
  by (simp add: drop_bit_eq_div power_diff)

lemma controlled_1q_dense:
  assumes "length st = 2 ^ n" "q0 \<noteq> q1" "q0 < n" "q1 < n" "controlled_1q g = Some m"
  shows "apply_controlled_1q st n q0 q1 m = Some (dense_2q q0 q1 g st)"
proof -
  note d = pair_count [OF assms(2-4)]
  have "map (\<lambda>x. if bit x q0 then kernel_1q m [st ! put_bit q1 False x, st ! put_bit q1 True x] ! of_bool (bit x q1)
      else st ! x) [0..<2 ^ n] = dense_2q q0 q1 g st"
  proof (rule nth_equalityI)
    fix x assume "x < length (map (\<lambda>x. if bit x q0
      then kernel_1q m [st ! put_bit q1 False x, st ! put_bit q1 True x] ! of_bool (bit x q1) else st ! x) [0..<2 ^ n])"
    then have x: "x < 2 ^ n" by simp
    have p0: "put_bit q0 (bit x q0) (put_bit q1 b x) = put_bit q1 b x" for b
      using assms(2) by (intro bit_eqI) (auto simp: bit_put_bit)
    have p1: "put_bit q1 (bit x q1) x = x" by (rule put_bit_same)
    show "map (\<lambda>x. if bit x q0
      then kernel_1q m [st ! put_bit q1 False x, st ! put_bit q1 True x] ! of_bool (bit x q1) else st ! x) [0..<2 ^ n] ! x =
        dense_2q q0 q1 g st ! x"
      using x assms(1,5) p0 [of False] p0 [of True] p1
      by (cases "bit x q0"; cases "bit x q1")
        (auto simp: dense_2q_def row_2q_def kernel_1q_def controlled_1q_def numeral_2_eq_2 split: if_splits)
  qed (use assms(1) in simp)
  then show ?thesis
    using assms pair_walk [OF assms(1-4), of "kernel_1q m"]
    by (simp add: apply_controlled_1q_def d kernel_1q_def)
qed

lemma apply_cx_dense:
  assumes "length st = 2 ^ n" "q0 \<noteq> q1" "q0 < n" "q1 < n"
  shows "apply_cx st n q0 q1 = Some (dense_2q q0 q1 gate_cx st)"
proof -
  have c: "controlled_1q gate_cx = Some gate_x" by (simp add: controlled_1q_def gate_cx_def gate_x_def)
  have "map (\<lambda>x. if bit x q0 then rev [st ! put_bit q1 False x, st ! put_bit q1 True x] ! of_bool (bit x q1)
      else st ! x) [0..<2 ^ n] =
    map (\<lambda>x. if bit x q0 then kernel_1q gate_x [st ! put_bit q1 False x, st ! put_bit q1 True x] ! of_bool (bit x q1)
      else st ! x) [0..<2 ^ n]"
    by (auto simp: kernel_1q_def gate_x_def)
  then have "index_walk rev (map (pair_of q0 q1) [0..<2 ^ (n - 2)]) st =
      index_walk (kernel_1q gate_x) (map (pair_of q0 q1) [0..<2 ^ (n - 2)]) st"
    using pair_walk [OF assms, of rev] pair_walk [OF assms, of "kernel_1q gate_x"] by (simp del: map_eq_conv)
  then show ?thesis
    using controlled_1q_dense [OF assms c] assms
    by (simp add: apply_controlled_1q_def apply_cx_def pair_count [OF assms(2-4)])
qed

text \<open>All the dispatches of \<open>apply_2q\<close>.\<close>

lemma apply_2q_dense:
  assumes "length st = 2 ^ n" "q0 \<noteq> q1" "q0 < n" "q1 < n" "length g = 16"
  shows "apply_2q st n q0 q1 g = Some (dense_2q q0 q1 g st)"
proof (cases "if diagonal_2q g = None then controlled_1q g else None")
  case (Some m)
  then have "controlled_1q g = Some m" by (simp split: if_splits)
  then show ?thesis using controlled_1q_dense [OF assms(1-4)] Some by (simp add: apply_2q_def)
next
  case None
  define qa where "qa = max q0 q1"
  define qb where "qb = min q0 q1"
  define h where "h = (if q1 < q0 then g else relabel_2q g)"
  have q: "qb < qa" "qa < n" using assms(2-4) by (auto simp: qa_def qb_def)
  have h: "dense_2q qa qb h st = dense_2q q0 q1 g st"
    using assms(2) relabel_dense [OF assms(5,2)] by (auto simp: qa_def qb_def h_def max_def min_def)
  have walk: "walk_groups f (groups_2q (2 ^ n) (2 ^ qa) (2 ^ qb)) st = dense_2q qa qb h st"
    if "\<And>vs. length vs = 4 \<Longrightarrow> length (f vs) = 4" "\<And>a b. b < 4 \<Longrightarrow> f a ! b = kernel_2q h a ! b" for f
  proof -
    have "row_2q qa qb x < 4" for x using row_2q_cases [of qa qb x] by auto
    then show ?thesis
      using that(2) by (simp add: quad_walk [OF assms(1) q that(1)] dense_2q_quad [OF assms(1)])
  qed
  have dispatch: "(case diagonal_2q h of
      Some d \<Rightarrow> apply_diagonal_2q_ordered st n qa qb d
    | None \<Rightarrow>
        if is_swap_2q h then apply_swap_ordered st n qa qb
        else case middle_block_2q h of
          Some m \<Rightarrow> apply_middle_block_2q_ordered st n qa qb m
        | None \<Rightarrow> Some (walk_groups (kernel_2q h) (groups_2q (push_bit n 1) (push_bit qa 1) (push_bit qb 1)) st)) =
    Some (dense_2q qa qb h st)"
    using q
    by (auto simp: apply_diagonal_2q_ordered_def apply_swap_ordered_def apply_middle_block_2q_ordered_def
        kernel_diagonal_eq kernel_swap_eq kernel_middle_eq
        intro!: walk split: option.split)
      (auto simp: kernel_diagonal_def kernel_swap_def kernel_middle_def kernel_2q_def)
  show ?thesis
  proof (cases "q1 < q0")
    case True
    then have e: "qa = q0" "qb = q1" "h = g" by (simp_all add: qa_def qb_def h_def)
    show ?thesis using dispatch [unfolded e] None h [unfolded e] True assms(3) by (simp add: apply_2q_def)
  next
    case False
    then have e: "qa = q1" "qb = q0" "h = relabel_2q g" "q0 < q1" using assms(2) by (simp_all add: qa_def qb_def h_def)
    then show ?thesis using dispatch [unfolded e(1-3)] None h [unfolded e(1-3)] False assms(4) by (simp add: apply_2q_def)
  qed
qed

section \<open>Three-qubit kernels\<close>

definition free3 :: "nat \<Rightarrow> nat \<Rightarrow> nat \<Rightarrow> nat \<Rightarrow> nat" where
  "free3 a b c k = (let v = sort [a, b, c] in insert_zero (v ! 2) (insert_zero (v ! 1) (insert_zero (v ! 0) k)))"

definition unfree3 :: "nat \<Rightarrow> nat \<Rightarrow> nat \<Rightarrow> nat \<Rightarrow> nat" where
  "unfree3 a b c x = (let v = sort [a, b, c] in remove_bit (v ! 0) (remove_bit (v ! 1) (remove_bit (v ! 2) x)))"

lemma length3: "length xs = 3 \<Longrightarrow> \<exists>u v w. xs = [u, v, w]"
  by (auto simp: numeral_eq_Suc length_Suc_conv)

lemma sort_three:
  assumes "a \<noteq> b" "a \<noteq> c" "b \<noteq> (c :: nat)"
  obtains u v w where "sort [a, b, c] = [u, v, w]" "u < v" "v < w" "{u, v, w} = {a, b, c}"
proof -
  obtain u v w where s: "sort [a, b, c] = [u, v, w]"
    using length3 [of "sort [a, b, c]"] by (auto simp del: sort_key_simps)
  have "set (sort [a, b, c]) = {a, b, c}" "distinct (sort [a, b, c])" "sorted (sort [a, b, c])"
    using assms by (simp_all only: set_sort distinct_sort sorted_sort) auto
  then show thesis using s that [of u v w] by (auto simp del: sort_key_simps)
qed

lemma triple_base_free3:
  assumes "a \<noteq> b" "a \<noteq> c" "b \<noteq> c"
  shows "triple_base a b c k = free3 a b c k"
proof -
  obtain u v w where "sort [a, b, c] = [u, v, w]" "u < v" "v < w" using sort_three [OF assms] by metis
  then show ?thesis
    by (simp add: triple_base_def free3_def Let_def scatter3_scatter2 scatter2_insert numeral_2_eq_2 del: sort_key_simps)
qed

lemma free3_unfree3:
  assumes "a \<noteq> b" "a \<noteq> c" "b \<noteq> c"
  shows "free3 a b c (unfree3 a b c x) = unset_bit a (unset_bit b (unset_bit c x))"
proof -
  obtain u v w where s: "sort [a, b, c] = [u, v, w]" "u < v" "v < w" "{u, v, w} = {a, b, c}"
    using sort_three [OF assms] by metis
  have "free3 a b c (unfree3 a b c x) = unset_bit u (unset_bit v (unset_bit w x))"
    using s(2,3) insert_zero_unset [of u w] insert_zero_unset [of v w] 
    by (simp add: free3_def unfree3_def Let_def s(1) free_pair insert_remove insert_zero_unset numeral_2_eq_2
        del: sort_key_simps)
  also have "\<dots> = unset_bit a (unset_bit b (unset_bit c x))"
    using s(4) by (intro bit_eqI) (auto simp: bit_unset_bit_nat set_eq_iff)
  finally show ?thesis .
qed

lemma unfree3_free3 [simp]: "unfree3 a b c (free3 a b c k) = k"
  by (simp add: free3_def unfree3_def Let_def del: sort_key_simps)

text \<open>A walk that exchanges the two positions of each group is an involution of the indices.\<close>

lemma exchange_walk:
  assumes "length st = 2 ^ n"
    and "\<And>k. k < m \<Longrightarrow> G k = [A k, B k] \<and> A k \<noteq> B k \<and> A k < 2 ^ n \<and> B k < 2 ^ n"
    and "\<And>k. k < m \<Longrightarrow> r (A k) = k \<and> r (B k) = k"
    and "\<And>k. k < m \<Longrightarrow> \<pi> (A k) = B k \<and> \<pi> (B k) = A k"
    and "\<And>x. x < 2 ^ n \<Longrightarrow> \<pi> x \<noteq> x \<Longrightarrow> r x < m \<and> x \<in> {A (r x), B (r x)}"
  shows "index_walk rev (map G [0..<m]) st = Some (permuted \<pi> st)"
proof -
  have "walk_groups rev (map G [0..<m]) st = permuted \<pi> st"
  proof (rule nth_equalityI)
    fix x assume "x < length (walk_groups rev (map G [0..<m]) st)"
    then have x: "x < 2 ^ n" using assms(1) by simp
    have in_group: "walk_groups rev (map G [0..<m]) st ! x = st ! \<pi> x" if k: "k < m" "x = G k ! b" "b < 2" for k b
    proof -
      have "walk_groups rev (map G [0..<m]) st ! x = rev (map ((!) st) (G k)) ! b"
        by (rule walk_family [where r = r]) (use assms(1-3) k in auto)
      then show ?thesis using assms(2,4) k by (auto simp: less_2_cases_iff)
    qed
    show "walk_groups rev (map G [0..<m]) st ! x = permuted \<pi> st ! x"
    proof (cases "\<exists>k<m. x = A k \<or> x = B k")
      case True
      then obtain k where k: "k < m" "x = A k \<or> x = B k" by blast
      then have "x = G k ! 0 \<or> x = G k ! 1" using assms(2) by auto
      then show ?thesis using in_group [OF k(1), of 0] in_group [OF k(1), of 1] x assms(1)
        by (auto simp: permuted_def)
    next
      case False
      then have "walk_groups rev (map G [0..<m]) st ! x = st ! x"
        using assms(2) by (intro walk_family_other) auto
      moreover have "\<pi> x = x" using False assms(5) [OF x] by auto
      ultimately show ?thesis using x assms(1) by (simp add: permuted_def)
    qed
  qed simp
  moreover have "list_all (list_all (\<lambda>i. i < length st)) (map G [0..<m])"
    using assms(1,2) by (auto simp: list_all_iff)
  ultimately show ?thesis by (simp add: index_walk_def)
qed

lemma bit_free3:
  assumes "a \<noteq> b" "a \<noteq> c" "b \<noteq> c"
  shows "\<not> bit (free3 a b c k) a \<and> \<not> bit (free3 a b c k) b \<and> \<not> bit (free3 a b c k) c"
proof -
  have "free3 a b c k = unset_bit a (unset_bit b (unset_bit c (free3 a b c k)))"
    using free3_unfree3 [OF assms, of "free3 a b c k"] by simp
  from arg_cong [OF this, of "bit"] have "bit (free3 a b c k) i \<longleftrightarrow> i \<noteq> a \<and> i \<noteq> b \<and> i \<noteq> c \<and> bit (free3 a b c k) i" for i
    by (metis bit_unset_bit_nat)
  then show ?thesis by blast
qed

lemma free3_bounds:
  assumes "a \<noteq> b" "a \<noteq> c" "b \<noteq> c" "a < n" "b < n" "c < n"
  shows "k < 2 ^ (n - 3) \<Longrightarrow> free3 a b c k < 2 ^ n" "x < 2 ^ n \<Longrightarrow> unfree3 a b c x < 2 ^ (n - 3)"
proof -
  obtain u v w where s: "sort [a, b, c] = [u, v, w]" "u < v" "v < w" "{u, v, w} = {a, b, c}"
    using sort_three [OF assms(1-3)] by metis
  have "w < n" using s(4) assms(4-6) by auto
  then have "n = Suc (Suc (Suc (n - 3)))" using s(2,3) by arith
  then obtain m where n: "n = Suc (Suc (Suc m))" by metis
  have b: "u \<le> m" "v \<le> Suc m" "w \<le> Suc (Suc m)" using s(2,3) \<open>w < n\<close> n by auto
  show "k < 2 ^ (n - 3) \<Longrightarrow> free3 a b c k < 2 ^ n"
    using b n s(1) by (simp add: free3_def Let_def insert_zero_less del: sort_key_simps power_Suc)
  show "x < 2 ^ n \<Longrightarrow> unfree3 a b c x < 2 ^ (n - 3)"
    using b n s(1) remove_bit_less
    by (simp add: unfree3_def Let_def del: sort_key_simps power_Suc)
qed

lemma unfree3_cong:
  assumes "a \<noteq> b" "a \<noteq> c" "b \<noteq> c" "\<And>i. i \<notin> {a, b, c} \<Longrightarrow> bit x i = bit y i"
  shows "unfree3 a b c x = unfree3 a b c y"
proof -
  have "free3 a b c (unfree3 a b c x) = free3 a b c (unfree3 a b c y)"
    unfolding free3_unfree3 [OF assms(1-3)] using assms(4)
    by (intro bit_eqI) (auto simp: bit_unset_bit_nat)
  then show ?thesis by (metis unfree3_free3)
qed

lemma triple_count: "a \<noteq> b \<Longrightarrow> a \<noteq> c \<Longrightarrow> b \<noteq> c \<Longrightarrow> a < n \<Longrightarrow> b < n \<Longrightarrow> c < n \<Longrightarrow>
  drop_bit 3 (2 ^ n) = (2 :: nat) ^ (n - 3)"
  by (simp add: drop_bit_eq_div power_diff)

lemma apply_ccx_permuted:
  assumes "length st = 2 ^ n" "c0 \<noteq> c1" "c0 \<noteq> t" "c1 \<noteq> t" "c0 < n" "c1 < n" "t < n"
  shows "apply_ccx st n c0 c1 t =
    Some (permuted (\<lambda>x. if bit x c0 \<and> bit x c1 then put_bit t (\<not> bit x t) x else x) st)"
proof -
  define A where "A k = set_bit c1 (set_bit c0 (free3 c0 c1 t k))" for k
  define B where "B k = set_bit t (A k)" for k
  note ne = assms(2-4)
  note f = bit_free3 [OF ne]
  have r: "unfree3 c0 c1 t (A k) = k \<and> unfree3 c0 c1 t (B k) = k" for k
    using unfree3_cong [OF ne, of "A k" "free3 c0 c1 t k"] unfree3_cong [OF ne, of "B k" "free3 c0 c1 t k"]
    by (auto simp: A_def B_def bit_set_bit_nat)
  have "index_walk rev (map (\<lambda>k. [A k, B k]) [0..<2 ^ (n - 3)]) st =
      Some (permuted (\<lambda>x. if bit x c0 \<and> bit x c1 then put_bit t (\<not> bit x t) x else x) st)"
  proof (rule exchange_walk [where A = A and B = B and r = "unfree3 c0 c1 t"])
    fix k :: nat assume k: "k < 2 ^ (n - 3)"
    have "bit (B k) t" "\<not> bit (A k) t" using f ne by (auto simp: A_def B_def bit_set_bit_nat)
    then show "[A k, B k] = [A k, B k] \<and> A k \<noteq> B k \<and> A k < 2 ^ n \<and> B k < 2 ^ n"
      using free3_bounds(1) [OF ne assms(5-7) k] assms by (auto simp: A_def B_def set_bit_less)
    show "(if bit (A k) c0 \<and> bit (A k) c1 then put_bit t (\<not> bit (A k) t) (A k) else A k) = B k \<and>
      (if bit (B k) c0 \<and> bit (B k) c1 then put_bit t (\<not> bit (B k) t) (B k) else B k) = A k"
      using f [of k] ne by (intro conjI bit_eqI) (auto simp: A_def B_def bit_set_bit_nat bit_put_bit)
  next
    fix x assume x: "x < 2 ^ n" "(if bit x c0 \<and> bit x c1 then put_bit t (\<not> bit x t) x else x) \<noteq> x"
    then have b: "bit x c0" "bit x c1" by (auto split: if_splits)
    have "x = (if bit x t then B (unfree3 c0 c1 t x) else A (unfree3 c0 c1 t x))"
      unfolding A_def B_def free3_unfree3 [OF ne]
      by (rule bit_eqI) (use b in \<open>auto simp: bit_set_bit_nat bit_unset_bit_nat\<close>)
    then show "unfree3 c0 c1 t x < 2 ^ (n - 3) \<and> x \<in> {A (unfree3 c0 c1 t x), B (unfree3 c0 c1 t x)}"
      using free3_bounds(2) [OF ne assms(5-7) x(1)] by (simp split: if_splits)
  qed (use assms(1) r in auto)
  moreover have "(\<lambda>k. let base = triple_base c0 c1 t k OR push_bit c0 1 OR push_bit c1 1
      in [base, base OR push_bit t 1]) = (\<lambda>k. [A k, B k])"
    unfolding Let_def triple_base_free3 [OF ne] or.assoc [symmetric] by (simp only: or_exp_set_bit A_def B_def)
  ultimately show ?thesis using ne by (simp add: apply_ccx_def triple_count [OF ne assms(5-7)])
qed

lemma apply_cswap_permuted:
  assumes "length st = 2 ^ n" "c \<noteq> t0" "c \<noteq> t1" "t0 \<noteq> t1" "c < n" "t0 < n" "t1 < n"
  shows "apply_cswap st n c t0 t1 =
    Some (permuted (\<lambda>x. if bit x c then put_bit t0 (bit x t1) (put_bit t1 (bit x t0) x) else x) st)"
proof -
  define A where "A k = set_bit t0 (set_bit c (free3 c t0 t1 k))" for k
  define B where "B k = set_bit t1 (unset_bit t0 (A k))" for k
  let ?\<pi> = "\<lambda>x. if bit x c then put_bit t0 (bit x t1) (put_bit t1 (bit x t0) x) else x"
  note ne = assms(2-4)
  note f = bit_free3 [OF ne]
  have r: "unfree3 c t0 t1 (A k) = k \<and> unfree3 c t0 t1 (B k) = k" for k
    using unfree3_cong [OF ne, of "A k" "free3 c t0 t1 k"] unfree3_cong [OF ne, of "B k" "free3 c t0 t1 k"]
    by (auto simp: A_def B_def bit_set_bit_nat bit_unset_bit_nat)
  have "index_walk rev (map (\<lambda>k. [A k, B k]) [0..<2 ^ (n - 3)]) st = Some (permuted ?\<pi> st)"
  proof (rule exchange_walk [where A = A and B = B and r = "unfree3 c t0 t1"])
    fix k :: nat assume k: "k < 2 ^ (n - 3)"
    have "bit (B k) t1" "\<not> bit (A k) t1" using f ne by (auto simp: A_def B_def bit_set_bit_nat)
    then show "[A k, B k] = [A k, B k] \<and> A k \<noteq> B k \<and> A k < 2 ^ n \<and> B k < 2 ^ n"
      using free3_bounds(1) [OF ne assms(5-7) k] assms by (auto simp: A_def B_def set_bit_less unset_bit_less)
    show "?\<pi> (A k) = B k \<and> ?\<pi> (B k) = A k"
      using f [of k] ne
      by (intro conjI bit_eqI) (auto simp: A_def B_def bit_set_bit_nat bit_unset_bit_nat bit_put_bit)
  next
    fix x assume x: "x < 2 ^ n" "?\<pi> x \<noteq> x"
    then have b: "bit x c" by (auto split: if_splits)
    have d: "bit x t0 \<noteq> bit x t1"
    proof
      assume e: "bit x t0 = bit x t1"
      have "put_bit t0 (bit x t1) (put_bit t1 (bit x t0) x) = x"
        using e by (intro bit_eqI) (auto simp: bit_put_bit)
      then show False using x b by simp
    qed
    have "x = (if bit x t0 then A (unfree3 c t0 t1 x) else B (unfree3 c t0 t1 x))"
      unfolding A_def B_def free3_unfree3 [OF ne]
      by (rule bit_eqI) (use b d in \<open>auto simp: bit_set_bit_nat bit_unset_bit_nat\<close>)
    then show "unfree3 c t0 t1 x < 2 ^ (n - 3) \<and> x \<in> {A (unfree3 c t0 t1 x), B (unfree3 c t0 t1 x)}"
      using free3_bounds(2) [OF ne assms(5-7) x(1)] by (simp split: if_splits)
  qed (use assms(1) r in auto)
  moreover have "(\<lambda>k. let i = triple_base c t0 t1 k OR push_bit c 1 OR push_bit t0 1
      in [i, unset_bit t0 i OR push_bit t1 1]) = (\<lambda>k. [A k, B k])"
    unfolding Let_def triple_base_free3 [OF ne] or.assoc [symmetric] by (simp only: or_exp_set_bit A_def B_def)
  ultimately show ?thesis using ne by (simp add: apply_cswap_def triple_count [OF ne assms(5-7)])
qed

end
