(* ===== verification/SvNorm.thy ===== *)
theory SvNorm
  imports SvEquivalence
begin

text \<open>
  Norms of states: a kernel with a unitary matrix keeps the sum of the squared amplitudes, a
  permutation of the indices too.  The sums run over the groups of a gate by splitting the range of
  the indices at a bit.
\<close>

definition norm_sq :: "complex list \<Rightarrow> real" where
  "norm_sq st = (\<Sum>x<length st. (cmod (st ! x))\<^sup>2)"

lemma norm_sq_nonneg [simp]: "0 \<le> norm_sq st"
  by (simp add: norm_sq_def sum_nonneg)

section \<open>Splitting the range at a bit\<close>

definition clear_at :: "nat \<Rightarrow> nat \<Rightarrow> nat set" where
  "clear_at n q = {x. x < 2 ^ n \<and> \<not> bit x q}"

lemma finite_clear [simp]: "finite (clear_at n q)"
  by (rule finite_subset [of _ "{..<2 ^ n}"]) (auto simp: clear_at_def)

lemma sum_bit_split:
  fixes f :: "nat \<Rightarrow> 'a :: comm_monoid_add"
  assumes "q < n"
  shows "(\<Sum>x<2 ^ n. f x) = (\<Sum>x \<in> clear_at n q. f x + f (put_bit q True x))"
proof -
  have inj: "inj_on (put_bit q True) (clear_at n q)"
  proof (rule inj_onI)
    fix x y assume h: "x \<in> clear_at n q" "y \<in> clear_at n q" "put_bit q True x = put_bit q True y"
    show "x = y"
    proof (rule bit_eqI)
      fix i show "bit x i = bit y i"
        using h by (cases "i = q") (auto simp: clear_at_def put_bit_eq_iff)
    qed
  qed
  have "{..<(2 :: nat) ^ n} = clear_at n q \<union> put_bit q True ` clear_at n q"
  proof (intro equalityI subsetI)
    fix x :: nat assume x: "x \<in> {..<2 ^ n}"
    show "x \<in> clear_at n q \<union> put_bit q True ` clear_at n q"
    proof (cases "bit x q")
      case True
      have "x = put_bit q True (put_bit q False x)" using put_bit_same [of q x] True by simp
      moreover have "put_bit q False x \<in> clear_at n q"
        using x assms by (simp add: clear_at_def bit_put_bit put_bit_less)
      ultimately show ?thesis by blast
    qed (use x in \<open>simp add: clear_at_def\<close>)
  qed (use assms in \<open>auto simp: clear_at_def put_bit_less\<close>)
  moreover have "clear_at n q \<inter> put_bit q True ` clear_at n q = {}"
    by (auto simp: clear_at_def bit_put_bit)
  ultimately have "(\<Sum>x<2 ^ n. f x) = (\<Sum>x \<in> clear_at n q. f x) + (\<Sum>x \<in> put_bit q True ` clear_at n q. f x)"
    by (simp add: sum.union_disjoint)
  then show ?thesis by (simp add: sum.reindex [OF inj] sum.distrib)
qed

lemma sum_bit_split_put:
  fixes f :: "nat \<Rightarrow> 'a :: comm_monoid_add"
  assumes "q < n"
  shows "(\<Sum>x<2 ^ n. f x) = (\<Sum>x \<in> clear_at n q. f (put_bit q False x) + f (put_bit q True x))"
proof -
  have "x = put_bit q False x" if "x \<in> clear_at n q" for x
    using put_bit_same [of q x] that by (simp add: clear_at_def)
  then show ?thesis unfolding sum_bit_split [OF assms] by (intro sum.cong refl) metis
qed

text \<open>Two sums over the whole range agree when they agree on the groups of a bit, or of two bits.\<close>

lemma sum_cong_groups1:
  fixes f g :: "nat \<Rightarrow> 'a :: comm_monoid_add"
  assumes "q < n" "\<And>x. x < 2 ^ n \<Longrightarrow> f (put_bit q False x) + f (put_bit q True x) = g (put_bit q False x) + g (put_bit q True x)"
  shows "(\<Sum>x<2 ^ n. f x) = (\<Sum>x<2 ^ n. g x)"
  unfolding sum_bit_split_put [OF assms(1)] using assms(2) by (intro sum.cong) (auto simp: clear_at_def)

lemma sum_cong_groups2:
  fixes f g :: "nat \<Rightarrow> 'a :: field_char_0"
  assumes "q < n" "r < n" "q \<noteq> r"
    and "\<And>x. x < 2 ^ n \<Longrightarrow>
      f (put_bit q False (put_bit r False x)) + f (put_bit q False (put_bit r True x)) +
      f (put_bit q True (put_bit r False x)) + f (put_bit q True (put_bit r True x)) =
      g (put_bit q False (put_bit r False x)) + g (put_bit q False (put_bit r True x)) +
      g (put_bit q True (put_bit r False x)) + g (put_bit q True (put_bit r True x))"
  shows "(\<Sum>x<2 ^ n. f x) = (\<Sum>x<2 ^ n. g x)"
proof -
  define F where "F h x = h (put_bit q False x) + h (put_bit q True x)" for h :: "nat \<Rightarrow> 'a" and x
  have two: "2 * (\<Sum>x<2 ^ n. h x) = (\<Sum>x<2 ^ n. F h x)" for h :: "nat \<Rightarrow> 'a"
  proof -
    have "(\<Sum>x<2 ^ n. F h x) = (\<Sum>x \<in> clear_at n q. F h (put_bit q False x) + F h (put_bit q True x))"
      by (rule sum_bit_split_put [OF assms(1)])
    also have "\<dots> = (\<Sum>x \<in> clear_at n q. 2 * (h (put_bit q False x) + h (put_bit q True x)))"
      by (simp add: F_def algebra_simps)
    finally show ?thesis by (simp add: sum_bit_split_put [OF assms(1), of h] sum_distrib_left)
  qed
  have "(\<Sum>x<2 ^ n. F f x) = (\<Sum>x<2 ^ n. F g x)"
    by (rule sum_cong_groups1 [OF assms(2)]) (use assms(4) in \<open>simp add: F_def add.commute add.left_commute\<close>)
  then have "2 * (\<Sum>x<2 ^ n. f x) = 2 * (\<Sum>x<2 ^ n. g x)" by (simp only: two)
  then show ?thesis by simp
qed

section \<open>Isometries\<close>

lemma isometry:
  fixes G :: "nat \<Rightarrow> nat \<Rightarrow> complex"
  assumes "\<And>i j. i < m \<Longrightarrow> j < m \<Longrightarrow> (\<Sum>k<m. cnj (G k i) * G k j) = (if i = j then 1 else 0)"
  shows "(\<Sum>k<m. (cmod (\<Sum>j<m. G k j * v j))\<^sup>2) = (\<Sum>j<m. (cmod (v j))\<^sup>2)"
proof -
  have sq: "complex_of_real ((cmod z)\<^sup>2) = cnj z * z" for z
    by (simp only: complex_norm_square mult.commute)
  have "complex_of_real (\<Sum>k<m. (cmod (\<Sum>j<m. G k j * v j))\<^sup>2) =
      (\<Sum>k<m. (\<Sum>i<m. cnj (G k i) * cnj (v i)) * (\<Sum>j<m. G k j * v j))"
    by (simp only: of_real_sum sq cnj_sum complex_cnj_mult)
  also have "\<dots> = (\<Sum>k<m. \<Sum>i<m. \<Sum>j<m. cnj (v i) * v j * (cnj (G k i) * G k j))"
    unfolding sum_product by (intro sum.cong refl) (simp add: mult.commute mult.left_commute)
  also have "\<dots> = (\<Sum>i<m. \<Sum>k<m. \<Sum>j<m. cnj (v i) * v j * (cnj (G k i) * G k j))" by (rule sum.swap)
  also have "\<dots> = (\<Sum>i<m. \<Sum>j<m. \<Sum>k<m. cnj (v i) * v j * (cnj (G k i) * G k j))"
    by (intro sum.cong refl sum.swap)
  also have "\<dots> = (\<Sum>i<m. \<Sum>j<m. cnj (v i) * v j * (if i = j then 1 else 0))"
    using assms by (simp add: sum_distrib_left [symmetric])
  also have "\<dots> = (\<Sum>i<m. cnj (v i) * v i)" by (simp add: sum.delta if_distrib cong: if_cong)
  also have "\<dots> = complex_of_real (\<Sum>j<m. (cmod (v j))\<^sup>2)" by (simp only: of_real_sum sq)
  finally show ?thesis by (simp only: of_real_eq_iff)
qed

lemma sum_2: "(\<Sum>k<2 :: nat. f k) = f 0 + (f 1 :: 'a :: comm_monoid_add)"
  by (simp add: numeral_2_eq_2)

lemma unitary1_isometry:
  assumes "unitary1 g"
  shows "(cmod (g ! 0 * u + g ! 1 * v))\<^sup>2 + (cmod (g ! 2 * u + g ! 3 * v))\<^sup>2 = (cmod u)\<^sup>2 + (cmod v)\<^sup>2"
  using isometry [of 2 "\<lambda>k j. g ! (2 * k + j)" "(!) [u, v]"] assms
  by (simp add: unitary1_def sum_2 numeral_3_eq_3)

lemma unitary2_isometry:
  assumes "unitary2 g"
  shows "(\<Sum>r<4. (cmod (g ! (4 * r) * v ! 0 + g ! (4 * r + 1) * v ! 1 + g ! (4 * r + 2) * v ! 2 + g ! (4 * r + 3) * v ! 3))\<^sup>2) =
    (\<Sum>j<4. (cmod (v ! j))\<^sup>2)"
  using isometry [of 4 "\<lambda>k j. g ! (4 * k + j)" "(!) v"] assms
  by (simp add: unitary2_def sum_4)

lemma norm_dense_1q:
  assumes "length st = 2 ^ n" "q < n" "unitary1 g"
  shows "norm_sq (dense_1q q g st) = norm_sq st"
  unfolding norm_sq_def length_dense assms(1)
proof (rule sum_cong_groups1 [OF assms(2)])
  fix x :: nat assume x: "x < 2 ^ n"
  have "(cmod (dense_1q q g st ! put_bit q b x))\<^sup>2 =
      (cmod (g ! (2 * of_bool b) * st ! put_bit q False x + g ! (2 * of_bool b + 1) * st ! put_bit q True x))\<^sup>2" for b
    using put_bit_less [OF x assms(2), of b] assms(1) by (simp add: dense_1q_def bit_put_bit)
  then show "(cmod (dense_1q q g st ! put_bit q False x))\<^sup>2 + (cmod (dense_1q q g st ! put_bit q True x))\<^sup>2 =
      (cmod (st ! put_bit q False x))\<^sup>2 + (cmod (st ! put_bit q True x))\<^sup>2"
    using unitary1_isometry [OF assms(3)] by (simp add: numeral_2_eq_2 numeral_3_eq_3)
qed

lemma norm_dense_2q:
  assumes "length st = 2 ^ n" "q0 < n" "q1 < n" "q0 \<noteq> q1" "unitary2 g"
  shows "norm_sq (dense_2q q0 q1 g st) = norm_sq st"
  unfolding norm_sq_def length_dense assms(1)
proof (rule sum_cong_groups2 [OF assms(2-4)])
  fix x :: nat assume x: "x < 2 ^ n"
  let ?p = "\<lambda>a b. put_bit q0 a (put_bit q1 b x)"
  let ?v = "[st ! ?p False False, st ! ?p False True, st ! ?p True False, st ! ?p True True]"
  have p: "put_bit q0 c (put_bit q1 d (?p a b)) = ?p c d" for a b c d
    using assms(4) by (intro bit_eqI) (auto simp: bit_put_bit)
  have "dense_2q q0 q1 g st ! ?p a b =
      (let r = 2 * of_bool a + of_bool b in g ! (4 * r) * ?v ! 0 + g ! (4 * r + 1) * ?v ! 1 + g ! (4 * r + 2) * ?v ! 2
        + g ! (4 * r + 3) * ?v ! 3)" for a b
  proof -
    have l: "?p a b < 2 ^ n" using put_bit_less [OF put_bit_less [OF x assms(3)] assms(2)] .
    have "row_2q q0 q1 (?p a b) = 2 * of_bool a + of_bool b" using assms(4) by (simp add: row_2q_def bit_put_bit)
    then show ?thesis using l assms(1) by (simp add: dense_2q_def p Let_def)
  qed
  then show "(cmod (dense_2q q0 q1 g st ! ?p False False))\<^sup>2 + (cmod (dense_2q q0 q1 g st ! ?p False True))\<^sup>2 +
      (cmod (dense_2q q0 q1 g st ! ?p True False))\<^sup>2 + (cmod (dense_2q q0 q1 g st ! ?p True True))\<^sup>2 =
      (cmod (st ! ?p False False))\<^sup>2 + (cmod (st ! ?p False True))\<^sup>2 +
      (cmod (st ! ?p True False))\<^sup>2 + (cmod (st ! ?p True True))\<^sup>2"
    using unitary2_isometry [OF assms(5), of ?v] by (simp add: sum_4 Let_def)
qed

lemma norm_permuted:
  assumes "length st = 2 ^ n" "\<And>x. x < 2 ^ n \<Longrightarrow> \<pi> x < 2 ^ n" "\<And>x. x < 2 ^ n \<Longrightarrow> \<pi> (\<pi> x) = x"
  shows "norm_sq (permuted \<pi> st) = norm_sq st"
proof -
  have "bij_betw \<pi> {..<2 ^ n} {..<2 ^ n}"
    using assms(2,3) by (intro bij_betw_byWitness [where f' = \<pi>]) auto
  then have "(\<Sum>x<2 ^ n. (cmod (st ! \<pi> x))\<^sup>2) = (\<Sum>x<2 ^ n. (cmod (st ! x))\<^sup>2)"
    by (rule sum.reindex_bij_betw)
  then show ?thesis by (simp add: norm_sq_def permuted_def assms(1))
qed

end
