(* ===== verification/BTree.thy ===== *)
theory BTree
  imports Prelude "HOL-Library.List_Lexorder" "HOL-Library.Char_ord" "HOL-Library.Product_Lexorder"
begin

text \<open>
  \<^verbatim>\<open>BTreeMap\<close> of the Rust standard library: a map whose iteration visits the keys in ascending
  order, kept as the association list of its iteration.
\<close>

type_synonym ('k, 'v) btree = "('k \<times> 'v) list"

fun bt_insert :: "'k::linorder \<Rightarrow> 'v \<Rightarrow> ('k, 'v) btree \<Rightarrow> ('k, 'v) btree" where
  "bt_insert k v [] = [(k, v)]"
| "bt_insert k v ((k', v') # m) =
     (if k < k' then (k, v) # (k', v') # m
      else if k = k' then (k, v) # m
      else (k', v') # bt_insert k v m)"

definition bt_get :: "'k \<Rightarrow> ('k, 'v) btree \<Rightarrow> 'v option" where
  "bt_get k m = map_of m k"

definition bt_get_or :: "'v \<Rightarrow> 'k \<Rightarrow> ('k, 'v) btree \<Rightarrow> 'v" where
  "bt_get_or d k m = (case bt_get k m of Some v \<Rightarrow> v | None \<Rightarrow> d)"

definition bt_sorted :: "('k::linorder, 'v) btree \<Rightarrow> bool" where
  "bt_sorted m = sorted_wrt (<) (map fst m)"

text \<open>\<open>collect()\<close> of key and value pairs, later pairs overwriting earlier ones.\<close>

definition bt_collect :: "('k::linorder \<times> 'v) list \<Rightarrow> ('k, 'v) btree" where
  "bt_collect kvs = fold (\<lambda>(k, v) m. bt_insert k v m) kvs []"

text \<open>The interface the accounting uses: what a lookup returns after an insertion.\<close>

locale ordered_map =
  fixes valid :: "'m \<Rightarrow> bool"
    and get :: "'k \<Rightarrow> 'm \<Rightarrow> 'v option"
    and ins :: "'k \<Rightarrow> 'v \<Rightarrow> 'm \<Rightarrow> 'm"
    and emp :: 'm
  assumes get_ins: "valid m \<Longrightarrow> get k' (ins k v m) = (if k' = k then Some v else get k' m)"
    and valid_ins: "valid m \<Longrightarrow> valid (ins k v m)"
    and get_emp: "get k emp = None"
    and valid_emp: "valid emp"
begin

text \<open>Inserting along a list of pairs with distinct keys, each value computed from the old one.\<close>

lemma fold_update:
  assumes "valid m" "distinct (map fst kvs)"
  shows "valid (fold (\<lambda>(k, a) m. ins k (f (get k m) a) m) kvs m) \<and>
    (\<forall>k. get k (fold (\<lambda>(k, a) m. ins k (f (get k m) a) m) kvs m) =
      (case map_of kvs k of Some a \<Rightarrow> Some (f (get k m) a) | None \<Rightarrow> get k m))"
  using assms
proof (induction kvs arbitrary: m)
  case (Cons kv kvs)
  obtain k a where kv: "kv = (k, a)" by (cases kv)
  let ?m = "ins k (f (get k m) a) m"
  have v: "valid ?m" using Cons.prems by (simp add: valid_ins)
  have k: "map_of kvs k = None" using Cons.prems by (simp add: kv map_of_eq_None_iff)
  show ?case
    using Cons.IH [OF v] Cons.prems k
    by (auto simp: kv get_ins split: option.splits)
qed simp

end

lemma bt_insert_keys: "fst ` set (bt_insert k v m) = insert k (fst ` set m)"
  by (induction k v m rule: bt_insert.induct) (simp_all add: insert_commute)

lemma bt_sorted_Cons: "bt_sorted ((k, v) # m) = (bt_sorted m \<and> (\<forall>k' \<in> fst ` set m. k < k'))"
  by (auto simp: bt_sorted_def)

lemma bt_insert_sorted: "bt_sorted m \<Longrightarrow> bt_sorted (bt_insert k v m)"
proof (induction m)
  case (Cons kv m)
  then show ?case
    using bt_insert_keys [of k v m]
    by (cases kv) (auto simp: bt_sorted_Cons)
qed (simp add: bt_sorted_def)

lemma bt_insert_get: "bt_get k' (bt_insert k v m) = (if k' = k then Some v else bt_get k' m)"
  if "bt_sorted m"
  using that
proof (induction m)
  case (Cons kv m)
  then show ?case
    by (cases kv) (auto simp: bt_get_def bt_sorted_Cons)
qed (simp add: bt_get_def)

interpretation bt: ordered_map bt_sorted bt_get "bt_insert :: 'k::linorder \<Rightarrow> 'v \<Rightarrow> _" "[]"
  by unfold_locales (simp_all add: bt_insert_get bt_insert_sorted, simp_all add: bt_get_def bt_sorted_def)

lemma bt_sorted_distinct: "bt_sorted m \<Longrightarrow> distinct (map fst m)"
  by (auto simp: bt_sorted_def strict_sorted_iff)

lemma bt_get_in: "bt_sorted m \<Longrightarrow> (bt_get k m = Some v) = ((k, v) \<in> set m)"
  by (simp add: bt_get_def map_of_eq_Some_iff bt_sorted_distinct)

text \<open>Collecting a list with distinct keys loses nothing.\<close>

lemma bt_collect_get:
  assumes "distinct (map fst kvs)"
  shows "bt_sorted (bt_collect kvs)" "bt_get k (bt_collect kvs) = map_of kvs k"
proof -
  have "fold (\<lambda>(k, v) m. bt_insert k v m) kvs [] = fold (\<lambda>(k, a) m. bt_insert k ((\<lambda>_ a. a) (bt_get k m) a) m) kvs []"
    by simp
  with bt.fold_update [OF bt.valid_emp assms, of "\<lambda>_ a. a"]
  have "bt_sorted (bt_collect kvs) \<and> (\<forall>k. bt_get k (bt_collect kvs) =
      (case map_of kvs k of Some a \<Rightarrow> Some a | None \<Rightarrow> bt_get k []))"
    by (simp add: bt_collect_def)
  moreover have "bt_get k [] = None" for k :: 'a by (rule bt.get_emp)
  ultimately show "bt_sorted (bt_collect kvs)" "bt_get k (bt_collect kvs) = map_of kvs k"
    by (auto split: option.splits)
qed

lemma bt_collect_keys: "fst ` set (bt_collect kvs) = fst ` set kvs"
proof -
  have "fst ` set (fold (\<lambda>(k, v) m. bt_insert k v m) kvs m) = fst ` set m \<union> fst ` set kvs" for m
  proof (induction kvs arbitrary: m)
    case (Cons kv kvs)
    then show ?case by (cases kv) (simp add: bt_insert_keys)
  qed simp
  from this [of "[]"] show ?thesis by (simp add: bt_collect_def)
qed

end
