(* ===== verification/Circuit.thy ===== *)
theory Circuit
  imports Complex_Main BTree RustString
begin

text \<open>
  The circuit representation of \<^verbatim>\<open>crates/omega-core/src/circuit.rs\<close>: gates, operations with their
  classical condition, registers, and the measures of a circuit.  Parameters are the expressions
  over symbols of the same file, with real numbers for \<^verbatim>\<open>f64\<close>; the two hash maps of a circuit are
  kept as ordered maps.  The errors are those of \<^verbatim>\<open>error.rs\<close> that the modelled code returns; where
  the code formats a sentence, the error carries the values the sentence names.
\<close>

datatype param_expr = Concrete real | Symbol u32 | Negate param_expr
  | Add param_expr param_expr | Mul param_expr param_expr

fun is_concrete :: "param_expr \<Rightarrow> bool" where
  "is_concrete (Concrete _) = True"
| "is_concrete _ = False"

definition fallback_symbol_name :: "u32 \<Rightarrow> string" where
  "fallback_symbol_name i = ''sym_'' @ show_nat (unat i)"

datatype gate_kind = H | X | Y | Z | S | Sdg | T | Tdg | Sx | Sxdg | Id | Rx | Ry | Rz | U3 | U2 | U1
  | CX | CY | CZ | Swap | CRz | CU3 | Rbs | CCX | CSwap | PhaseShifter | BeamSplitterRx | Rxy | CSum
  | Custom u32 | Measure | Barrier | Reset

fun num_qubits :: "gate_kind \<Rightarrow> nat" where
  "num_qubits CX = 2" | "num_qubits CY = 2" | "num_qubits CZ = 2" | "num_qubits Swap = 2"
| "num_qubits CRz = 2" | "num_qubits CU3 = 2" | "num_qubits Rbs = 2" | "num_qubits CSum = 2"
| "num_qubits BeamSplitterRx = 2" | "num_qubits CCX = 3" | "num_qubits CSwap = 3"
| "num_qubits Measure = 0" | "num_qubits Barrier = 0" | "num_qubits (Custom _) = 0"
| "num_qubits _ = 1"

fun num_params :: "gate_kind \<Rightarrow> nat" where
  "num_params Rx = 1" | "num_params Ry = 1" | "num_params Rz = 1" | "num_params U1 = 1"
| "num_params CRz = 1" | "num_params Rbs = 1" | "num_params U2 = 2" | "num_params BeamSplitterRx = 2"
| "num_params U3 = 3" | "num_params CU3 = 3" | "num_params Rxy = 4" | "num_params PhaseShifter = 1"
| "num_params _ = 0"

record gate_op =
  op_gate :: gate_kind
  op_qubits :: "u32 list"
  op_params :: "param_expr list"
  op_cbit :: "u32 option"
  op_condition :: "(u32 \<times> u32 \<times> u64) option"

section \<open>Classical conditions\<close>

text \<open>The loop over the bits of the condition: \<open>None\<close> is the early return at a set bit above 63.  The
  index is computed in 32 bits, as the code does.\<close>

fun condition_loop :: "u32 \<Rightarrow> u8 list \<Rightarrow> nat list \<Rightarrow> u64 \<Rightarrow> u64 option" where
  "condition_loop start bits [] v = Some v"
| "condition_loop start bits (i # is) v =
     (let idx = unat (start + of_nat i);
          b = (if idx < length bits then bits ! idx AND 1 else 0)
      in if 64 \<le> i then (if b \<noteq> 0 then None else condition_loop start bits is v)
         else condition_loop start bits is (v OR push_bit i (ucast b)))"

definition condition_satisfied :: "gate_op \<Rightarrow> u8 list \<Rightarrow> bool" where
  "condition_satisfied op bits =
     (case op_condition op of
        None \<Rightarrow> True
      | Some (start, num_bits, expected) \<Rightarrow>
          (case condition_loop start bits [0..<unat num_bits] 0 of
             None \<Rightarrow> False | Some v \<Rightarrow> v = expected))"

section \<open>Circuits\<close>

datatype circuit_type = GateBased | Photonic | Fermionic

record fermionic_register =
  fr_name :: string
  fr_start :: u32
  fr_spatial :: u32
  fr_spin :: bool

record qudit_register =
  qr_name :: string
  qr_start :: u32
  qr_dims :: "u32 list"

datatype circuit_ir = CircuitIR
    (cir_qubits: u32) (cir_cbits: u32) (cir_ops: "gate_op list") (cir_type: circuit_type)
    (cir_symbols: "(u32 \<times> string) list") (cir_custom: "(u32 \<times> custom_gate_def) list")
    (cir_qudits: "qudit_register list") (cir_fermionic: "fermionic_register list")
  and custom_gate_def = CustomGateDef (cg_name: string) (cg_params: "u32 list") (cg_body: circuit_ir)

definition circuit_new :: "u32 \<Rightarrow> circuit_type \<Rightarrow> circuit_ir" where
  "circuit_new n t = CircuitIR n 0 [] t [] [] [] []"

fun with_ops :: "gate_op list \<Rightarrow> circuit_ir \<Rightarrow> circuit_ir" where
  "with_ops ops (CircuitIR n c _ t s g q f) = CircuitIR n c ops t s g q f"

definition add_op :: "gate_op \<Rightarrow> circuit_ir \<Rightarrow> circuit_ir" where
  "add_op op c = with_ops (cir_ops c @ [op]) c"

lemma with_ops_sel [simp]: "cir_ops (with_ops ops c) = ops" "cir_qubits (with_ops ops c) = cir_qubits c"
  "cir_cbits (with_ops ops c) = cir_cbits c" "cir_symbols (with_ops ops c) = cir_symbols c"
  by (cases c; simp)+

text \<open>\<open>find_map\<close> of the standard library.\<close>

fun find_map :: "('a \<Rightarrow> 'b option) \<Rightarrow> 'a list \<Rightarrow> 'b option" where
  "find_map f [] = None"
| "find_map f (x # xs) = (case f x of None \<Rightarrow> find_map f xs | Some y \<Rightarrow> Some y)"

definition wire_dim :: "circuit_ir \<Rightarrow> u32 \<Rightarrow> u32" where
  "wire_dim c w =
     (case find_map (\<lambda>r. if qr_start r \<le> w \<and> unat (w - qr_start r) < length (qr_dims r)
                         then Some (qr_dims r ! unat (w - qr_start r)) else None) (cir_qudits c) of
        Some d \<Rightarrow> d | None \<Rightarrow> 2)"

definition wire_dims :: "circuit_ir \<Rightarrow> u32 list" where
  "wire_dims c = map (\<lambda>w. wire_dim c (of_nat w)) [0..<unat (cir_qubits c)]"

definition first_qudit :: "circuit_ir \<Rightarrow> (qudit_register \<times> u32 \<times> u32) option" where
  "first_qudit c =
     find_map (\<lambda>r. map_option (\<lambda>(i, d). (r, qr_start r + of_nat i, d))
                 (find (\<lambda>(_, d). d \<noteq> 2) (List.enumerate 0 (qr_dims r)))) (cir_qudits c)"

text \<open>The reasons of \<^verbatim>\<open>defer_measure.rs\<close>.\<close>

datatype not_deferrable = Qubit_reused u32 nat | No_controlled_form gate_kind nat
  | Condition_not_single_bit u32 u64 nat | Condition_bit_never_measured u32 nat | Conditioned_measure nat

datatype unsupported =
    Qudit_register string string u32 u32
  | Gate_not_supported gate_kind
  | Entangled_reset nat
  | Too_many_qubits u32
  | Not_enough_memory u32 nat nat
  | Tape_too_large u32 nat nat
  | Observable_qubit u32 u32
  | Expectation_undefined not_deferrable
  | Adjoint_gate gate_kind
  | No_derivative gate_kind nat
  | Too_many_terms nat nat
  | Uninformative real real
  | Conditioned_gate gate_kind
  | Controlled_u3 real real real
  | Reset_channel
  | Expectation_only
  | Photonic_circuit
  | Random_reset nat
  | Exact_mode_limit

datatype invalid_circuit = Qubit_beyond gate_kind u32 nat | Qubit_twice gate_kind u32

datatype omega_error = Unbound_symbol u32 string | Parameter_count nat nat "string list"
  | Unsupported unsupported | Invalid_circuit invalid_circuit

definition refuse_qudits :: "circuit_ir \<Rightarrow> string \<Rightarrow> omega_error option" where
  "refuse_qudits c engine =
     (case first_qudit c of
        None \<Rightarrow> None
      | Some (r, w, d) \<Rightarrow> Some (Unsupported (Qudit_register engine (qr_name r) d w)))"

definition num_free_symbols :: "circuit_ir \<Rightarrow> nat" where
  "num_free_symbols c = length (cir_symbols c)"

definition sorted_symbol_ids :: "circuit_ir \<Rightarrow> u32 list" where
  "sorted_symbol_ids c = sort (map fst (cir_symbols c))"

definition symbol_name :: "circuit_ir \<Rightarrow> u32 \<Rightarrow> string" where
  "symbol_name c i = (case bt_get i (cir_symbols c) of Some s \<Rightarrow> s | None \<Rightarrow> fallback_symbol_name i)"

section \<open>Measures\<close>

definition gate_count :: "circuit_ir \<Rightarrow> nat" where
  "gate_count c = length (filter (\<lambda>op. op_gate op \<notin> {Measure, Barrier, Id}) (cir_ops c))"

text \<open>One step of the depth loop; \<open>None\<close> is the panic at a qubit out of range.\<close>

definition depth_step :: "gate_op \<Rightarrow> nat list \<Rightarrow> nat list option" where
  "depth_step op ds =
     (if op_gate op \<in> {Measure, Barrier, Id} then Some ds
      else if list_ex (\<lambda>q. length ds \<le> unat q) (op_qubits op) then None
      else let m = (if op_qubits op = [] then 0 else Max (set (map (\<lambda>q. ds ! unat q) (op_qubits op))))
           in Some (fold (\<lambda>q ds. ds[unat q := m + 1]) (op_qubits op) ds))"

fun depth_loop :: "gate_op list \<Rightarrow> nat list \<Rightarrow> nat list option" where
  "depth_loop [] ds = Some ds"
| "depth_loop (op # ops) ds = (case depth_step op ds of None \<Rightarrow> None | Some ds' \<Rightarrow> depth_loop ops ds')"

definition depth :: "circuit_ir \<Rightarrow> nat option" where
  "depth c =
     (if cir_qubits c = 0 then Some 0
      else map_option (\<lambda>ds. Max (set ds)) (depth_loop (cir_ops c) (replicate (unat (cir_qubits c)) 0)))"

definition t_count :: "circuit_ir \<Rightarrow> nat" where
  "t_count c = length (filter (\<lambda>op. op_gate op \<in> {T, Tdg}) (cir_ops c))"

definition cx_count :: "circuit_ir \<Rightarrow> nat" where
  "cx_count c = length (filter (\<lambda>op. op_gate op = CX) (cir_ops c))"

definition two_qubit_count :: "circuit_ir \<Rightarrow> nat" where
  "two_qubit_count c = length (filter (\<lambda>op. num_qubits (op_gate op) = 2) (cir_ops c))"

definition three_qubit_count :: "circuit_ir \<Rightarrow> nat" where
  "three_qubit_count c = length (filter (\<lambda>op. num_qubits (op_gate op) = 3) (cir_ops c))"

section \<open>Parameters\<close>

type_synonym binding = "(u32, real) btree"

definition bind_param :: "u32 \<Rightarrow> real \<Rightarrow> binding \<Rightarrow> binding" where
  "bind_param i v b = bt_insert i v b"

definition binding_of :: "(u32 \<times> real) list \<Rightarrow> binding" where
  "binding_of ps = fold (\<lambda>(i, v) b. bind_param i v b) ps []"

definition from_flat :: "circuit_ir \<Rightarrow> real list \<Rightarrow> omega_error + binding" where
  "from_flat c vs =
     (let ids = sorted_symbol_ids c in
      if length vs \<noteq> length ids
      then Inl (Parameter_count (length ids) (length vs)
             (map (symbol_name c) (drop (min (length vs) (length ids)) ids)))
      else Inr (binding_of (zip ids vs)))"

fun resolve_param :: "binding \<Rightarrow> param_expr \<Rightarrow> omega_error + real" where
  "resolve_param b (Concrete v) = Inr v"
| "resolve_param b (Symbol i) =
     (case bt_get i b of Some v \<Rightarrow> Inr v | None \<Rightarrow> Inl (Unbound_symbol i (fallback_symbol_name i)))"
| "resolve_param b (Negate e) = (case resolve_param b e of Inl err \<Rightarrow> Inl err | Inr v \<Rightarrow> Inr (- v))"
| "resolve_param b (Add e f) =
     (case resolve_param b e of Inl err \<Rightarrow> Inl err
      | Inr v \<Rightarrow> (case resolve_param b f of Inl err \<Rightarrow> Inl err | Inr w \<Rightarrow> Inr (v + w)))"
| "resolve_param b (Mul e f) =
     (case resolve_param b e of Inl err \<Rightarrow> Inl err
      | Inr v \<Rightarrow> (case resolve_param b f of Inl err \<Rightarrow> Inl err | Inr w \<Rightarrow> Inr (v * w)))"

fun differentiate :: "u32 \<Rightarrow> param_expr \<Rightarrow> param_expr" where
  "differentiate s (Concrete _) = Concrete 0"
| "differentiate s (Symbol i) = (if i = s then Concrete 1 else Concrete 0)"
| "differentiate s (Negate e) = Negate (differentiate s e)"
| "differentiate s (Add e f) = Add (differentiate s e) (differentiate s f)"
| "differentiate s (Mul e f) = Add (Mul (differentiate s e) f) (Mul e (differentiate s f))"

definition resolve_derivative :: "binding \<Rightarrow> param_expr \<Rightarrow> u32 \<Rightarrow> omega_error + real" where
  "resolve_derivative b e s = resolve_param b (differentiate s e)"

section \<open>Conditions read the register\<close>

definition creg_bit :: "u8 list \<Rightarrow> nat \<Rightarrow> nat" where
  "creg_bit bits i = (if i < length bits \<and> bit (bits ! i) 0 then 1 else 0)"

definition creg_value :: "u8 list \<Rightarrow> nat \<Rightarrow> nat \<Rightarrow> nat" where
  "creg_value bits start n = (\<Sum>i<n. creg_bit bits (start + i) * 2 ^ i)"

lemma and_one_bit: "(b :: u8) AND 1 = (if bit b 0 then 1 else 0)"
  by (simp add: and_one_eq mod_2_eq_odd bit_0)

lemma creg_value_less: "creg_value bits start n < 2 ^ n"
proof (induction n)
  case (Suc n)
  have "creg_bit bits (start + n) \<le> 1" by (simp add: creg_bit_def)
  then show ?case using Suc by (auto simp: creg_value_def le_Suc_eq)
qed (simp add: creg_value_def)

lemma condition_loop_low:
  "k \<le> n \<Longrightarrow> n \<le> 64 \<Longrightarrow> unat start + n \<le> 2 ^ 32 \<Longrightarrow>
     condition_loop start bits ([k..<n] @ is) (of_nat (creg_value bits (unat start) k)) =
     condition_loop start bits is (of_nat (creg_value bits (unat start) n))"
proof (induction "n - k" arbitrary: k)
  case (Suc d)
  then have k: "k < n" "k < 64" by auto
  then have up: "[k..<n] = k # [Suc k..<n]" by (simp add: upt_rec)
  have idx: "unat (start + of_nat k) = unat start + k"
    using Suc.prems k by (simp add: unat_word_ariths unat_of_nat)
  let ?b = "if unat start + k < length bits then bits ! (unat start + k) AND 1 else 0"
  have cb: "(ucast ?b :: u64) = of_nat (creg_bit bits (unat start + k))"
    by (simp add: creg_bit_def and_one_bit)
  have "(of_nat (creg_value bits (unat start) k) :: u64) OR push_bit k (ucast ?b) =
      of_nat (creg_value bits (unat start) k) + push_bit k (of_nat (creg_bit bits (unat start + k)))"
  proof (unfold cb, intro disjunctive_add [symmetric] allI)
    fix i
    have "\<not> bit (creg_value bits (unat start) k) i" if "k \<le> i"
      using creg_value_less [of bits "unat start" k] that
      by (metis bit_take_bit_iff not_less take_bit_nat_eq_self)
    then show "\<not> bit (of_nat (creg_value bits (unat start) k) :: u64) i \<or>
        \<not> bit (push_bit k (of_nat (creg_bit bits (unat start + k))) :: u64) i"
      by (auto simp: bit_push_bit_iff bit_of_nat_iff)
  qed
  also have "\<dots> = of_nat (creg_value bits (unat start) (Suc k))"
    by (simp add: creg_value_def push_bit_eq_mult)
  finally have step: "(of_nat (creg_value bits (unat start) k) :: u64) OR push_bit k (ucast ?b) =
      of_nat (creg_value bits (unat start) (Suc k))" .
  show ?case using Suc.hyps(1) [of "Suc k"] Suc.hyps(2) Suc.prems k by (simp add: up idx step Let_def)
qed simp

lemma condition_loop_high:
  "64 \<le> k \<Longrightarrow> unat start + n \<le> 2 ^ 32 \<Longrightarrow>
     condition_loop start bits [k..<n] v =
     (if \<exists>i. k \<le> i \<and> i < n \<and> creg_bit bits (unat start + i) = 1 then None else Some v)"
proof (induction "n - k" arbitrary: k)
  case (Suc d)
  then have k: "k < n" by auto
  then have up: "[k..<n] = k # [Suc k..<n]" by (simp add: upt_rec)
  have idx: "unat (start + of_nat k) = unat start + k"
    using Suc.prems k by (simp add: unat_word_ariths unat_of_nat)
  have "(\<exists>i. k \<le> i \<and> i < n \<and> creg_bit bits (unat start + i) = 1) \<longleftrightarrow>
      creg_bit bits (unat start + k) = 1 \<or> (\<exists>i. Suc k \<le> i \<and> i < n \<and> creg_bit bits (unat start + i) = 1)"
    using k by (metis Suc_leD Suc_leI le_neq_implies_less le_refl)
  moreover have "((if unat start + k < length bits then bits ! (unat start + k) AND 1 else 0) = 0) =
      (creg_bit bits (unat start + k) \<noteq> 1)"
    by (simp add: creg_bit_def and_one_bit)
  ultimately show ?case
    using Suc.hyps(1) [of "Suc k"] Suc.hyps(2) Suc.prems by (auto simp: up idx Let_def)
qed simp

lemma creg_value_split:
  "m \<le> n \<Longrightarrow> creg_value bits start n = creg_value bits start m + (\<Sum>i=m..<n. creg_bit bits (start + i) * 2 ^ i)"
  unfolding creg_value_def by (metis atLeast0LessThan sum.atLeastLessThan_concat zero_le)

lemma condition_value:
  assumes "op_condition op = Some (start, nb, expected)" "unat start + unat nb \<le> 2 ^ 32"
  shows "condition_satisfied op bits = (creg_value bits (unat start) (unat nb) = unat expected)"
proof (cases "unat nb \<le> 64")
  case True
  have "condition_loop start bits ([0..<unat nb] @ []) (of_nat (creg_value bits (unat start) 0)) =
      Some (of_nat (creg_value bits (unat start) (unat nb)))"
    using condition_loop_low [OF le0 True assms(2), of bits "[]"] by simp
  moreover have "creg_value bits (unat start) (unat nb) < 2 ^ 64"
    using creg_value_less [of bits "unat start" "unat nb"] True
    by (meson less_le_trans one_le_numeral power_increasing)
  ultimately show ?thesis
    by (auto simp: condition_satisfied_def assms(1) creg_value_def [of _ _ 0] word_unat_eq_iff unat_u64_of_nat)
next
  case False
  let ?lo = "creg_value bits (unat start) 64"
  have up: "[0..<unat nb] = [0..<64] @ [64..<unat nb]"
    using False by (metis le_add_diff_inverse nat_le_linear upt_add_eq_append zero_le)
  have loop: "condition_loop start bits [0..<unat nb] 0 =
      (if \<exists>i. 64 \<le> i \<and> i < unat nb \<and> creg_bit bits (unat start + i) = 1 then None else Some (of_nat ?lo))"
    using condition_loop_low [of 0 64 start bits "[64..<unat nb]"] False assms(2)
      condition_loop_high [of 64 start "unat nb" bits "of_nat ?lo"]
    by (simp add: up creg_value_def [of _ _ 0])
  have lo: "?lo < 2 ^ 64" by (rule creg_value_less)
  show ?thesis
  proof (cases "\<exists>i. 64 \<le> i \<and> i < unat nb \<and> creg_bit bits (unat start + i) = 1")
    case True
    then obtain i where i: "64 \<le> i" "i < unat nb" "creg_bit bits (unat start + i) = 1" by blast
    have "creg_bit bits (unat start + i) * 2 ^ i \<le> creg_value bits (unat start) (unat nb)"
      unfolding creg_value_def using i by (intro member_le_sum) auto
    moreover have "(2 :: nat) ^ 64 \<le> 2 ^ i" using i(1) by (rule power_increasing) simp
    ultimately have "unat expected < creg_value bits (unat start) (unat nb)"
      using i(3) unat_bound [of expected] by simp
    then show ?thesis using True loop by (simp add: condition_satisfied_def assms(1))
  next
    case none: False
    have "(\<Sum>i=64..<unat nb. creg_bit bits (unat start + i) * 2 ^ i) = 0"
      using none by (auto simp: creg_bit_def split: if_splits)
    then have "creg_value bits (unat start) (unat nb) = ?lo"
      using creg_value_split [of 64 "unat nb" bits "unat start"] False by simp
    then show ?thesis using none loop lo
      by (auto simp: condition_satisfied_def assms(1) word_unat_eq_iff unat_u64_of_nat)
  qed
qed

section \<open>Parameter expressions\<close>

text \<open>The meaning of an expression under an assignment of its symbols.\<close>

fun param_value :: "(u32 \<Rightarrow> real) \<Rightarrow> param_expr \<Rightarrow> real" where
  "param_value \<rho> (Concrete v) = v"
| "param_value \<rho> (Symbol i) = \<rho> i"
| "param_value \<rho> (Negate e) = - param_value \<rho> e"
| "param_value \<rho> (Add e f) = param_value \<rho> e + param_value \<rho> f"
| "param_value \<rho> (Mul e f) = param_value \<rho> e * param_value \<rho> f"

fun param_symbols :: "param_expr \<Rightarrow> u32 list" where
  "param_symbols (Concrete _) = []"
| "param_symbols (Symbol i) = [i]"
| "param_symbols (Negate e) = param_symbols e"
| "param_symbols (Add e f) = param_symbols e @ param_symbols f"
| "param_symbols (Mul e f) = param_symbols e @ param_symbols f"

definition bound :: "binding \<Rightarrow> u32 \<Rightarrow> bool" where
  "bound b i = (bt_get i b \<noteq> None)"

definition assignment :: "binding \<Rightarrow> u32 \<Rightarrow> real" where
  "assignment b i = the (bt_get i b)"

lemma resolve_param_value:
  "resolve_param b e =
     (case find (\<lambda>i. \<not> bound b i) (param_symbols e) of
        Some i \<Rightarrow> Inl (Unbound_symbol i (fallback_symbol_name i))
      | None \<Rightarrow> Inr (param_value (assignment b) e))"
proof -
  have app: "find P (xs @ ys) = (case find P xs of Some x \<Rightarrow> Some x | None \<Rightarrow> find P ys)"
    for P :: "u32 \<Rightarrow> bool" and xs ys by (induction xs) auto
  have g: "bt_get i b = (if bound b i then Some (assignment b i) else None)" for i
    by (auto simp: bound_def assignment_def)
  show ?thesis
    by (induction e) (auto simp: app g split: option.splits sum.splits)
qed

lemma differentiate_symbols: "set (param_symbols (differentiate s e)) \<subseteq> set (param_symbols e)"
  by (induction e) auto

lemma param_value_derivative:
  "((\<lambda>y. param_value (\<rho>(s := y)) e) has_real_derivative param_value (\<rho>(s := x)) (differentiate s e)) (at x)"
proof (induction e)
  case (Mul e f)
  then show ?case using DERIV_mult [OF Mul] by (simp add: mult.commute add.commute)
qed (auto intro: DERIV_minus DERIV_add)

lemma find_None_all: "(find P xs = None) = (\<forall>x \<in> set xs. \<not> P x)"
  by (auto simp: find_None_iff)

lemma bound_insert: "bt_sorted b \<Longrightarrow> bound (bind_param s x b) i = (i = s \<or> bound b i)"
  by (simp add: bound_def bind_param_def bt.get_ins)

lemma assignment_insert: "bt_sorted b \<Longrightarrow> assignment (bind_param s x b) = (assignment b)(s := x)"
  by (auto simp: assignment_def bind_param_def bt.get_ins)

lemma binding_of_collect: "binding_of ps = bt_collect ps"
  by (simp add: binding_of_def bt_collect_def bind_param_def)

section \<open>Properties\<close>

text \<open>A classical condition is decided exactly: for a register that lies below bit 2^32, an
  operation runs exactly when the number its bits spell, bit 0 first and bits past the end of the
  register file read as 0, equals the expected value, also for registers wider than the 64 bits of
  that value.\<close>

theorem condition_exact:
  assumes "op_condition op = Some (start, nb, expected)" "unat start + unat nb \<le> 2 ^ 32"
  shows "condition_satisfied op bits =
    ((\<Sum>i<unat nb. creg_bit bits (unat start + i) * 2 ^ i) = unat expected)"
  using condition_value [OF assms] by (simp add: creg_value_def)

theorem condition_exact_witness:
  "\<not> condition_satisfied \<lparr>op_gate = X, op_qubits = [0], op_params = [], op_cbit = None,
      op_condition = Some (0, 70, 1)\<rparr> (1 # replicate 63 0 @ [1])"
proof -
  let ?bits = "1 # replicate 63 0 @ [1 :: u8]"
  have b: "creg_bit ?bits 0 = 1" "creg_bit ?bits 64 = 1" by (simp_all add: creg_bit_def nth_append)
  have "(\<Sum>i\<in>{0, 64 :: nat}. creg_bit ?bits i * 2 ^ i) \<le> (\<Sum>i<70. creg_bit ?bits i * 2 ^ i)"
    by (intro sum_mono2) auto
  then have "(\<Sum>i<70. creg_bit ?bits i * 2 ^ i) \<noteq> 1" using b by simp
  then show ?thesis
    using condition_exact [of "\<lparr>op_gate = X, op_qubits = [0], op_params = [], op_cbit = None,
      op_condition = Some (0, 70, 1)\<rparr>" 0 70 1 ?bits] by simp
qed

text \<open>C39: The symbolic derivative is the derivative: under every binding an expression resolves or fails on
  its first unbound symbol, read from left to right; and wherever it resolves, its derivative with respect to
  any symbol resolves too, to the derivative of the resolved value as a function of that symbol's binding.\<close>

theorem differentiate_correct:
  assumes "bt_sorted b"
  shows "(resolve_param b e = Inl err) =
      (\<exists>i. find (\<lambda>i. \<not> bound b i) (param_symbols e) = Some i \<and> err = Unbound_symbol i (fallback_symbol_name i)) \<and>
    (\<forall>s x v. resolve_param (bind_param s x b) e = Inr v \<longrightarrow>
      (\<exists>d. resolve_derivative (bind_param s x b) e s = Inr d \<and>
        ((\<lambda>y. projr (resolve_param (bind_param s y b) e)) has_real_derivative d) (at x)))"
proof (intro conjI allI impI)
  show "(resolve_param b e = Inl err) =
      (\<exists>i. find (\<lambda>i. \<not> bound b i) (param_symbols e) = Some i \<and> err = Unbound_symbol i (fallback_symbol_name i))"
    by (auto simp: resolve_param_value split: option.splits)
next
  fix s x v assume v: "resolve_param (bind_param s x b) e = Inr v"
  have all: "\<forall>i \<in> set (param_symbols e). bound (bind_param s y b) i" for y
    using v bound_insert [OF assms]
    by (auto simp: resolve_param_value find_None_all split: option.splits)
  then have e: "resolve_param (bind_param s y b) e = Inr (param_value ((assignment b)(s := y)) e)" for y
    using find_None_all [of "\<lambda>i. \<not> bound (bind_param s y b) i" "param_symbols e"]
    by (simp add: resolve_param_value assignment_insert [OF assms])
  have "find (\<lambda>i. \<not> bound (bind_param s x b) i) (param_symbols (differentiate s e)) = None"
    using all [of x] differentiate_symbols [of s e] by (auto simp: find_None_all)
  then have "resolve_derivative (bind_param s x b) e s =
      Inr (param_value ((assignment b)(s := x)) (differentiate s e))"
    by (simp add: resolve_derivative_def resolve_param_value assignment_insert [OF assms])
  then show "\<exists>d. resolve_derivative (bind_param s x b) e s = Inr d \<and>
      ((\<lambda>y. projr (resolve_param (bind_param s y b) e)) has_real_derivative d) (at x)"
    using param_value_derivative [of "assignment b" s e x] by (simp add: e)
qed

theorem differentiate_correct_witness:
  "resolve_param [] (Mul (Symbol 9) (Symbol 7)) = Inl (Unbound_symbol 9 (fallback_symbol_name 9)) \<and>
   (\<exists>d. resolve_derivative (bind_param 7 2 []) (Mul (Symbol 7) (Symbol 7)) 7 = Inr d \<and>
    ((\<lambda>y. projr (resolve_param (bind_param 7 y []) (Mul (Symbol 7) (Symbol 7)))) has_real_derivative d) (at 2))"
proof -
  have "resolve_param (bind_param 7 2 []) (Mul (Symbol 7) (Symbol 7)) = Inr 4"
    by (simp add: bind_param_def bt_get_def)
  moreover have "find (\<lambda>i. \<not> bound [] i) (param_symbols (Mul (Symbol 9) (Symbol 7))) = Some 9"
    by (simp add: bound_def bt_get_def)
  ultimately show ?thesis
    using conjunct1 [OF differentiate_correct [OF bt.valid_emp, of "Mul (Symbol 9) (Symbol 7)"
        "Unbound_symbol 9 (fallback_symbol_name 9)"]]
      conjunct2 [OF differentiate_correct [OF bt.valid_emp, of "Mul (Symbol 7) (Symbol 7)" "Unbound_symbol 9 []"],
        rule_format, of 7 2 4]
    by (simp only:) simp
qed

text \<open>A flat parameter vector binds every free symbol or is refused: with distinct symbols the
  binding succeeds exactly when there is one value per symbol; then the symbol of each position in
  ascending order resolves to the value there; otherwise the error names both counts and the
  symbols left without a value.\<close>

theorem from_flat_exact:
  assumes "distinct (map fst (cir_symbols c))"
  shows "(if length vs = length (cir_symbols c)
     then (\<exists>b. from_flat c vs = Inr b \<and> bt_sorted b \<and>
       (\<forall>i. bound b i = (i \<in> fst ` set (cir_symbols c))) \<and>
       (\<forall>k < length vs. resolve_param b (Symbol (sorted_symbol_ids c ! k)) = Inr (vs ! k)))
     else from_flat c vs = Inl (Parameter_count (length (cir_symbols c)) (length vs)
       (map (symbol_name c) (drop (length vs) (sorted_symbol_ids c)))))"
proof (cases "length vs = length (cir_symbols c)")
  case True
  let ?ids = "sorted_symbol_ids c"
  have ids: "distinct ?ids" "length ?ids = length vs" "set ?ids = fst ` set (cir_symbols c)"
    using assms True by (simp_all add: sorted_symbol_ids_def)
  have dist: "distinct (map fst (zip ?ids vs))" using ids by simp
  let ?b = "bt_collect (zip ?ids vs)"
  note g = bt_collect_get [OF dist]
  have get: "bt_get (?ids ! k) ?b = Some (vs ! k)" if "k < length vs" for k
    using g(2) that ids by (simp add: map_of_zip_nth)
  have "bound ?b i = (i \<in> set ?ids)" for i
    using ids(2) g(2) [of i] by (simp add: bound_def map_of_eq_None_iff) (metis map_fst_zip set_map)
  then show ?thesis using True ids(2,3) g(1) get by (simp add: from_flat_def Let_def binding_of_collect)
next
  case False
  have l: "length (sorted_symbol_ids c) = length (cir_symbols c)" by (simp add: sorted_symbol_ids_def)
  have "drop (min (length vs) (length (cir_symbols c))) (sorted_symbol_ids c) = drop (length vs) (sorted_symbol_ids c)"
    by (simp add: min_def l)
  then show ?thesis using False l by (simp add: from_flat_def Let_def)
qed

theorem from_flat_exact_witness:
  "\<exists>b. from_flat (CircuitIR 1 0 [] GateBased [(2, ''b''), (1, ''a'')] [] [] []) [5, 6] = Inr b \<and>
     resolve_param b (Symbol 1) = Inr 5"
proof -
  let ?c = "CircuitIR 1 0 [] GateBased [(2, ''b''), (1, ''a'')] [] [] []"
  have "distinct (map fst (cir_symbols ?c))" by simp
  from from_flat_exact [OF this, of "[5, 6]"] obtain b where b: "from_flat ?c [5, 6] = Inr b"
    "\<forall>k < 2. resolve_param b (Symbol (sorted_symbol_ids ?c ! k)) = Inr ([5, 6] ! k)" by auto
  have "sorted_symbol_ids ?c ! 0 = 1" by (simp add: sorted_symbol_ids_def word_le_nat_alt)
  with b show ?thesis by (metis nth_Cons_0 zero_less_numeral)
qed

end
