(* ===== verification/Outcome.thy ===== *)
theory Outcome
  imports Circuit
begin

text \<open>
  Shot outcomes of any width, \<^verbatim>\<open>crates/omega-core/src/outcome.rs\<close>, and the functions of
  \<^verbatim>\<open>executor.rs\<close> that key counts by them.  An outcome is its width and its bits packed into 64-bit
  words, bit \<open>i\<close> at position \<open>i mod 64\<close> of word \<open>i div 64\<close>.  \<open>None\<close> is a panic; bit strings are ASCII, so that
  bytes and characters agree.  The maps of counts are kept as ordered maps.
\<close>

datatype outcome = Outcome (o_width: u32) (o_words: "u64 list")

text \<open>The derived order: the width, then the words as a list.\<close>

definition outcome_le :: "outcome \<Rightarrow> outcome \<Rightarrow> bool" where
  "outcome_le a b \<longleftrightarrow> o_width a < o_width b \<or> o_width a = o_width b \<and> o_words a \<le> o_words b"

definition outcome_lt :: "outcome \<Rightarrow> outcome \<Rightarrow> bool" where
  "outcome_lt a b \<longleftrightarrow> o_width a < o_width b \<or> o_width a = o_width b \<and> o_words a < o_words b"

instantiation outcome :: linorder
begin

definition less_eq_outcome :: "outcome \<Rightarrow> outcome \<Rightarrow> bool" where
  "less_eq_outcome = outcome_le"

definition less_outcome :: "outcome \<Rightarrow> outcome \<Rightarrow> bool" where
  "less_outcome = outcome_lt"

instance
  by standard (auto simp: less_eq_outcome_def less_outcome_def outcome_le_def outcome_lt_def outcome.expand)

end

definition words_for :: "u32 \<Rightarrow> nat" where
  "words_for width = max 1 ((unat width + 63) div 64)"

definition zeros :: "u32 \<Rightarrow> outcome" where
  "zeros width = Outcome width (replicate (words_for width) 0)"

fun chunks :: "nat \<Rightarrow> 'a list \<Rightarrow> 'a list list" where
  "chunks n xs = (if xs = [] \<or> n = 0 then [] else take n xs # chunks n (drop n xs))"

declare chunks.simps [simp del]

definition pack_word :: "u8 list \<Rightarrow> u64" where
  "pack_word chunk = fold (\<lambda>(i, b) w. w OR push_bit i (ucast (b AND 1))) (List.enumerate 0 chunk) 0"

definition from_bits :: "u8 list \<Rightarrow> outcome" where
  "from_bits bits = Outcome (of_nat (length bits)) (map pack_word (chunks 64 bits))"

definition from_u64 :: "u64 \<Rightarrow> u32 \<Rightarrow> outcome" where
  "from_u64 bits width =
     (let masked = (if 64 \<le> width then bits else bits AND (push_bit (unat width) 1 - 1));
          words = replicate (words_for width) 0
      in Outcome width (words[0 := masked]))"

definition as_u64 :: "outcome \<Rightarrow> u64 option" where
  "as_u64 o' = (if 64 < o_width o' then None
     else Some (case o_words o' of [] \<Rightarrow> 0 | w # _ \<Rightarrow> w))"

definition bit_at :: "outcome \<Rightarrow> u32 \<Rightarrow> u8" where
  "bit_at o' i = (if o_width o' \<le> i then 0
     else ucast (drop_bit (unat i mod 64) (o_words o' ! (unat i div 64)) AND 1))"

definition set_bit_at :: "u32 \<Rightarrow> u8 \<Rightarrow> outcome \<Rightarrow> outcome option" where
  "set_bit_at i v o' =
     (if \<not> i < o_width o' then None
      else let w = unat i div 64; b = unat i mod 64; old = o_words o' ! w in
        Some (Outcome (o_width o') ((o_words o')[w :=
          (if v AND 1 = 1 then old OR push_bit b 1 else old AND NOT (push_bit b 1))])))"

definition to_bitstring :: "outcome \<Rightarrow> string" where
  "to_bitstring o' = map (\<lambda>i. if bit_at o' (of_nat i) = 1 then CHR ''1'' else CHR ''0'') (rev [0..<unat (o_width o')])"

text \<open>The loop over the characters; the error names the offending one.\<close>

fun bitstring_loop :: "u32 \<Rightarrow> nat \<Rightarrow> string \<Rightarrow> outcome \<Rightarrow> (char + outcome) option" where
  "bitstring_loop width j [] o' = Some (Inr o')"
| "bitstring_loop width j (c # cs) o' =
     (if c \<noteq> CHR ''0'' \<and> c \<noteq> CHR ''1'' then Some (Inl c)
      else case set_bit_at (width - 1 - of_nat j) (if c = CHR ''1'' then 1 else 0) o' of
        None \<Rightarrow> None | Some o'' \<Rightarrow> bitstring_loop width (Suc j) cs o'')"

definition from_bitstring :: "string \<Rightarrow> (char + outcome) option" where
  "from_bitstring s = (let width = of_nat (length s) in bitstring_loop width 0 s (zeros width))"

section \<open>Counts\<close>

definition MAX_COUNTS_QUBITS :: nat where "MAX_COUNTS_QUBITS = 64"

text \<open>Checked builds panic on a set bit above 63, release builds skip it: \<open>checked\<close> tells which.\<close>

definition creg_to_u64 :: "bool \<Rightarrow> u8 list \<Rightarrow> u64 option" where
  "creg_to_u64 checked bits =
     (if checked \<and> list_ex (\<lambda>b. b AND 1 \<noteq> 0) (drop MAX_COUNTS_QUBITS bits) then None
      else Some (fold (\<lambda>(i, b) w. w OR push_bit i (ucast b AND 1)) (take MAX_COUNTS_QUBITS (List.enumerate 0 bits)) 0))"

definition check_counts_width :: "nat \<Rightarrow> omega_error option" where
  "check_counts_width n = None"

definition measure_pairs :: "circuit_ir \<Rightarrow> (u32 \<times> u32) list" where
  "measure_pairs c = List.map_filter (\<lambda>op.
     if op_gate op = Measure
     then (case op_qubits op of [] \<Rightarrow> None | q # _ \<Rightarrow> map_option (\<lambda>b. (q, b)) (op_cbit op))
     else None) (cir_ops c)"

definition counts_keyed_on_creg :: "circuit_ir \<Rightarrow> bool \<Rightarrow> bool" where
  "counts_keyed_on_creg c collapse =
     (collapse \<or> MAX_COUNTS_QUBITS < unat (cir_qubits c) \<and> measure_pairs c \<noteq> [])"

definition counts_outcome_width :: "circuit_ir \<Rightarrow> bool \<Rightarrow> nat" where
  "counts_outcome_width c by_creg =
     (if by_creg
      then max (unat (cir_cbits c)) (fold max (map (\<lambda>(_, b). unat b + 1) (measure_pairs c)) 0)
      else if cir_type c = Photonic then 4 * unat (cir_qubits c)
      else unat (cir_qubits c))"

type_synonym counts = "(outcome, u32) btree"

definition entry_add :: "'k::linorder \<Rightarrow> u32 \<Rightarrow> ('k, u32) btree \<Rightarrow> ('k, u32) btree" where
  "entry_add k n m = bt_insert k (bt_get_or 0 k m + n) m"

text \<open>In a checked build a key with a bit at or above the stated width fails a debug assertion.\<close>

definition counts_from_u64 :: "bool \<Rightarrow> (u64, u32) btree \<Rightarrow> u32 \<Rightarrow> counts option" where
  "counts_from_u64 checked m width =
     (if checked \<and> \<not> list_all (\<lambda>(k, _). 64 \<le> width \<or> k < push_bit (unat width) 1) m then None
      else Some (bt_collect (map (\<lambda>(k, v). (from_u64 k width, v)) m)))"

fun needs_collapse_loop :: "u32 list \<Rightarrow> gate_op list \<Rightarrow> bool" where
  "needs_collapse_loop seen [] = False"
| "needs_collapse_loop seen (op # ops) =
     (case (if op_gate op = Measure then op_cbit op else None) of
        None \<Rightarrow> needs_collapse_loop seen ops
      | Some c \<Rightarrow> c \<in> set seen \<or> needs_collapse_loop (c # seen) ops)"

fun later_op :: "gate_op list \<Rightarrow> bool" where
  "later_op [] = False"
| "later_op (op # ops) = (op_gate op = Measure \<and> list_ex (\<lambda>p. op_gate p \<noteq> Measure) ops \<or> later_op ops)"

definition needs_collapse :: "circuit_ir \<Rightarrow> bool" where
  "needs_collapse c =
     (if list_ex (\<lambda>op. op_condition op \<noteq> None) (cir_ops c) then True
      else needs_collapse_loop [] (cir_ops c) \<or> later_op (cir_ops c))"

text \<open>One outcome onto the classical register, then all of them.  Adding a count past 32 bits panics in a
  checked build and wraps in the others.  The width adds 1 to a classical bit: for the last 32-bit index a
  checked build panics there and the others in \<open>set_bit\<close>, which no width admits.\<close>

fun project_key :: "(u32 \<times> u32) list \<Rightarrow> outcome \<Rightarrow> outcome \<Rightarrow> outcome option" where
  "project_key [] o' key = Some key"
| "project_key ((q, c) # ps) o' key =
     (case set_bit_at c (bit_at o' q) key of None \<Rightarrow> None | Some key' \<Rightarrow> project_key ps o' key')"

fun project_loop :: "bool \<Rightarrow> (u32 \<times> u32) list \<Rightarrow> u32 \<Rightarrow> (outcome \<times> u32) list \<Rightarrow> counts \<Rightarrow> counts option" where
  "project_loop checked ps width [] m = Some m"
| "project_loop checked ps width ((o', n) # os) m =
     (case project_key ps o' (zeros width) of None \<Rightarrow> None
      | Some key \<Rightarrow>
          if checked \<and> 2 ^ 32 \<le> unat (bt_get_or 0 key m) + unat n then None
          else project_loop checked ps width os (entry_add key n m))"

definition project_counts :: "bool \<Rightarrow> counts \<Rightarrow> (u32 \<times> u32) list \<Rightarrow> counts option" where
  "project_counts checked m ps =
     (if ps = [] then Some m
      else if list_ex (\<lambda>(_, c). c = - 1) ps then None
      else project_loop checked ps (fold max (map (\<lambda>(_, c). c + 1) ps) 0) m [])"

section \<open>The bits of an outcome\<close>

definition outcome_bit :: "outcome \<Rightarrow> nat \<Rightarrow> bool" where
  "outcome_bit o' i = (i < unat (o_width o') \<and> bit (o_words o' ! (i div 64)) (i mod 64))"

definition wf_outcome :: "outcome \<Rightarrow> bool" where
  "wf_outcome o' \<longleftrightarrow> length (o_words o') = words_for (o_width o') \<and>
     (\<forall>w < length (o_words o'). \<forall>b < 64. bit (o_words o' ! w) b \<longrightarrow> 64 * w + b < unat (o_width o'))"

lemma words_for_bound: "i < unat width \<Longrightarrow> i div 64 < words_for width"
  unfolding words_for_def by linarith

lemma position_split: "(64 * w + b) div 64 = w \<and> (64 * w + b) mod 64 = b" if "b < 64" for b :: nat
  using that by simp

lemma wf_outcome_eqI:
  assumes "wf_outcome a" "wf_outcome b" "o_width a = o_width b"
    and "\<And>i. i < unat (o_width a) \<Longrightarrow> outcome_bit a i = outcome_bit b i"
  shows "a = b"
proof (rule outcome.expand, intro conjI)
  show "o_words a = o_words b"
  proof (rule nth_equalityI)
    show l: "length (o_words a) = length (o_words b)" using assms(1-3) by (simp add: wf_outcome_def)
    fix w assume w: "w < length (o_words a)"
    show "o_words a ! w = o_words b ! w"
    proof (rule bit_word_eqI)
      fix k assume "k < LENGTH(64)"
      then have k: "k < 64" by simp
      show "bit (o_words a ! w) k = bit (o_words b ! w) k"
        using assms k w l position_split [OF k, of w] unfolding wf_outcome_def outcome_bit_def by metis
    qed
  qed
qed (rule assms(3))

lemma wf_zeros [simp]: "wf_outcome (zeros width)" "\<not> outcome_bit (zeros width) i" "o_width (zeros width) = width"
  using words_for_bound [of i width] by (auto simp: zeros_def wf_outcome_def outcome_bit_def)

lemma bit_at_bit: "bit_at o' i = of_bool (outcome_bit o' (unat i))"
proof -
  have "ucast (w AND 1 :: u64) = (of_bool (bit w 0) :: u8)" for w
    by (simp add: and_one_eq mod_2_eq_odd bit_0)
  then show ?thesis by (auto simp: bit_at_def outcome_bit_def word_le_nat_alt bit_drop_bit_eq)
qed

lemma set_bit_at_spec:
  assumes "wf_outcome o'" "i < o_width o'"
  shows "\<exists>o''. set_bit_at i v o' = Some o'' \<and> wf_outcome o'' \<and> o_width o'' = o_width o' \<and>
    (\<forall>j. outcome_bit o'' j = (if j = unat i then bit v 0 else outcome_bit o' j))"
proof -
  let ?w = "unat i div 64" and ?b = "unat i mod 64"
  define old where "old = o_words o' ! ?w"
  define new where "new = (if v AND 1 = 1 then old OR push_bit ?b 1 else old AND NOT (push_bit ?b 1))"
  have odd: "(v AND 1 = 1) = bit v 0" by (simp add: and_one_eq mod_2_eq_odd bit_0)
  have i: "unat i < unat (o_width o')" using assms(2) by (simp add: word_less_nat_alt)
  have w: "?w < length (o_words o')" using words_for_bound [OF i] assms(1) by (simp add: wf_outcome_def)
  have bits: "bit new k = (if k = ?b then bit v 0 else bit old k)" if "k < 64" for k
    using that by (auto simp: new_def odd bit_or_iff bit_and_iff bit_not_iff bit_push_bit_iff bit_1_iff bit_exp_iff)
  have split: "unat i = 64 * ?w + ?b" by simp
  have nth: "bit ((o_words o')[?w := new] ! u) k = (if 64 * u + k = unat i then bit v 0 else bit (o_words o' ! u) k)"
    if "k < 64" "u < length (o_words o')" for u k
  proof (cases "u = ?w")
    case True
    then have "(64 * u + k = unat i) = (k = ?b)" by (intro iffI) (use split True in linarith)+
    then show ?thesis using True w bits [OF that(1)] by (simp add: old_def)
  next
    case False
    then have "64 * u + k \<noteq> unat i" using position_split [OF that(1), of u] by metis
    then show ?thesis using False by simp
  qed
  let ?o = "Outcome (o_width o') ((o_words o')[?w := new])"
  have wf: "wf_outcome ?o"
    using assms(1) i unfolding wf_outcome_def by (auto simp: nth)
  have "outcome_bit ?o j = (if j = unat i then bit v 0 else outcome_bit o' j)" for j
  proof (cases "j < unat (o_width o')")
    case True
    then have "j div 64 < length (o_words o')" using words_for_bound assms(1) by (simp add: wf_outcome_def)
    then show ?thesis using nth [of "j mod 64" "j div 64"] True by (simp add: outcome_bit_def)
  next
    case False
    then show ?thesis using i by (auto simp: outcome_bit_def)
  qed
  moreover have "set_bit_at i v o' = Some ?o"
    using assms(2) by (simp add: set_bit_at_def Let_def new_def old_def)
  ultimately show ?thesis using wf by simp
qed

text \<open>Packing bits: the word holds the low bit of each byte.\<close>

lemma pack_fold:
  assumes "\<And>b j. bit (f b) j = (j = 0 \<and> bit (b :: u8) 0)"
  shows "bit (fold (\<lambda>(i, b) w. w OR push_bit i (f b)) (List.enumerate k bs) (w :: u64)) i =
    (bit w i \<or> k \<le> i \<and> i < k + length bs \<and> i < 64 \<and> bit (bs ! (i - k)) 0)"
proof (induction bs arbitrary: k w)
  case (Cons b bs)
  then show ?case
    by (auto simp: bit_or_iff bit_push_bit_iff assms nth_Cons' Suc_le_eq)
qed (auto simp: bit_imp_le_length)

lemma low_bit: "bit (ucast (b AND 1) :: u64) j = (j = 0 \<and> bit (b :: u8) 0)" "bit (ucast b AND 1 :: u64) j = (j = 0 \<and> bit (b :: u8) 0)"
  by (auto simp: bit_simps bit_1_iff)

lemma bit_pack_word: "bit (pack_word chunk) i = (i < length chunk \<and> i < 64 \<and> bit (chunk ! i) 0)"
  unfolding pack_word_def by (simp add: pack_fold [where f = "\<lambda>b. ucast (b AND 1)", OF low_bit(1)])

lemma chunks_nth:
  "0 < n \<Longrightarrow> length (chunks n xs) = (length xs + n - 1) div n \<and>
    (\<forall>w < length (chunks n xs). chunks n xs ! w = take n (drop (w * n) xs))"
proof (induction n xs rule: chunks.induct)
  case (1 n xs)
  show ?case
  proof (cases "xs = []")
    case True
    then show ?thesis using 1(2) by (simp add: chunks.simps [of n])
  next
    case False
    have c: "chunks n xs = take n xs # chunks n (drop n xs)" using False 1(2) by (subst chunks.simps) simp
    have ih: "length (chunks n (drop n xs)) = (length xs - n + n - 1) div n"
      "\<forall>w < length (chunks n (drop n xs)). chunks n (drop n xs) ! w = take n (drop (w * n) (drop n xs))"
      using 1(1) [OF _ 1(2)] False 1(2) by auto
    have pos: "0 < length xs" using False by simp
    have "Suc ((length xs - n + n - 1) div n) = (length xs + n - 1) div n"
    proof (cases "n \<le> length xs")
      case True
      have e: "length xs + n - 1 = (length xs - 1) + n" "length xs - n + n - 1 = length xs - 1"
        using True pos by arith+
      show ?thesis unfolding e using 1(2) by (simp only: div_add_self2)
    next
      case short: False
      have e: "length xs + n - 1 = (length xs - 1) + n" "length xs - n + n - 1 = n - 1" "length xs - 1 < n" "n - 1 < n"
        using short pos by arith+
      show ?thesis unfolding e(1,2) using e(3,4) by simp
    qed
    moreover have "(take n xs # chunks n (drop n xs)) ! w = take n (drop (w * n) xs)"
      if "w < Suc (length (chunks n (drop n xs)))" for w
      using that ih(2) by (cases w) (simp_all add: add.commute)
    ultimately show ?thesis using ih(1) unfolding c by simp
  qed
qed

lemma from_bits_spec:
  assumes "length bits < 2 ^ 32"
  shows "o_width (from_bits bits) = of_nat (length bits)" "outcome_bit (from_bits bits) i = (i < length bits \<and> bit (bits ! i) 0)"
    "bits \<noteq> [] \<Longrightarrow> wf_outcome (from_bits bits)"
proof -
  have w: "unat (of_nat (length bits) :: u32) = length bits" using assms by (simp add: unat_of_nat)
  note c = chunks_nth [of 64 bits, simplified]
  have word: "bit (o_words (from_bits bits) ! u) k = (64 * u + k < length bits \<and> bit (bits ! (64 * u + k)) 0)"
    if "k < 64" "u < length (chunks 64 bits)" for u k
    using that c by (auto simp: from_bits_def bit_pack_word mult.commute)
  show "o_width (from_bits bits) = of_nat (length bits)" by (simp add: from_bits_def)
  have "i div 64 < length (chunks 64 bits)" if "i < length bits" using that c by linarith
  then show "outcome_bit (from_bits bits) i = (i < length bits \<and> bit (bits ! i) 0)"
    using word [of "i mod 64" "i div 64"] w by (auto simp: outcome_bit_def from_bits_def)
  assume "bits \<noteq> []"
  then have "length (chunks 64 bits) = words_for (of_nat (length bits))"
    using c w unfolding words_for_def by (cases bits) (auto simp: max_def)
  then show "wf_outcome (from_bits bits)"
    using word w by (auto simp: wf_outcome_def from_bits_def)
qed

lemma from_u64_spec:
  "o_width (from_u64 v width) = width" "outcome_bit (from_u64 v width) i = (i < unat width \<and> bit v i)"
  "wf_outcome (from_u64 v width)"
proof -
  let ?m = "if 64 \<le> width then v else v AND (push_bit (unat width) 1 - 1)"
  have m: "bit ?m k = (bit v k \<and> k < unat width)" if "k < 64" for k
  proof (cases "64 \<le> width")
    case True
    then show ?thesis using that by (simp add: word_le_nat_alt)
  next
    case False
    then have "unat width < 64" by (simp add: word_le_nat_alt)
    then show ?thesis
      using False that by (auto simp: push_bit_of_1 mask_eq_exp_minus_1 [symmetric] bit_and_iff bit_mask_iff)
  qed
  have words: "o_words (from_u64 v width) ! u = (if u = 0 then ?m else 0)" "length (o_words (from_u64 v width)) = words_for width"
    if "u < words_for width" for u
    using that by (auto simp: from_u64_def Let_def nth_list_update)
  have len: "length (o_words (from_u64 v width)) = words_for width" by (simp add: from_u64_def Let_def)
  show w: "o_width (from_u64 v width) = width" by (simp add: from_u64_def Let_def)
  show "outcome_bit (from_u64 v width) i = (i < unat width \<and> bit v i)"
  proof (cases "i < 64")
    case True
    then show ?thesis using words(1) [of 0] m [of i] w by (auto simp: outcome_bit_def words_for_def)
  next
    case False
    then have "\<not> bit v i" by (auto dest: bit_imp_le_length)
    then show ?thesis using words(1) [OF words_for_bound, of i] False w by (auto simp: outcome_bit_def)
  qed
  show "wf_outcome (from_u64 v width)"
    unfolding wf_outcome_def
  proof (intro conjI allI impI)
    fix u b assume h: "u < length (o_words (from_u64 v width))" "b < 64" "bit (o_words (from_u64 v width) ! u) b"
    then have "bit (if u = 0 then ?m else 0) b" using words(1) len by simp
    then show "64 * u + b < unat (o_width (from_u64 v width))" using m [OF h(2)] w by (cases "u = 0") auto
  qed (use len w in simp)
qed

section \<open>Bit strings\<close>

definition binary_char :: "char \<Rightarrow> bool" where
  "binary_char c = (c = CHR ''0'' \<or> c = CHR ''1'')"

lemma bitstring_loop_good:
  assumes "wf_outcome o'" "o_width o' = of_nat n" "n < 2 ^ 32" "j + length cs = n" "list_all binary_char cs"
  shows "\<exists>o''. bitstring_loop (of_nat n) j cs o' = Some (Inr o'') \<and> wf_outcome o'' \<and> o_width o'' = of_nat n \<and>
    (\<forall>i < n. outcome_bit o'' i = (if i < n - j then cs ! (n - 1 - j - i) = CHR ''1'' else outcome_bit o' i))"
  using assms
proof (induction cs arbitrary: j o')
  case (Cons c cs)
  have j: "j < n" using Cons.prems(4) by simp
  have pos: "unat (of_nat n - 1 - of_nat j :: u32) = n - 1 - j"
  proof -
    have "of_nat n - 1 - of_nat j = (of_nat (n - 1 - j) :: u32)" using j by (simp add: of_nat_diff)
    then show ?thesis using Cons.prems(3) by (simp add: unat_of_nat)
  qed
  then have "of_nat n - 1 - of_nat j < o_width o'"
    using Cons.prems(2,3) j by (simp add: word_less_nat_alt unat_of_nat)
  from set_bit_at_spec [OF Cons.prems(1) this, of "if c = CHR ''1'' then 1 else 0"]
  obtain o1 where o1: "set_bit_at (of_nat n - 1 - of_nat j) (if c = CHR ''1'' then 1 else 0) o' = Some o1"
    "wf_outcome o1" "o_width o1 = of_nat n"
    "\<forall>i. outcome_bit o1 i = (if i = n - 1 - j then c = CHR ''1'' else outcome_bit o' i)"
    using Cons.prems(2) pos by auto
  from Cons.IH [OF o1(2,3) Cons.prems(3), of "Suc j"] Cons.prems(4,5)
  obtain o2 where o2: "bitstring_loop (of_nat n) (Suc j) cs o1 = Some (Inr o2)" "wf_outcome o2" "o_width o2 = of_nat n"
    "\<forall>i < n. outcome_bit o2 i = (if i < n - Suc j then cs ! (n - 1 - Suc j - i) = CHR ''1'' else outcome_bit o1 i)" by auto
  have "outcome_bit o2 i = (if i < n - j then (c # cs) ! (n - 1 - j - i) = CHR ''1'' else outcome_bit o' i)"
    if i: "i < n" for i
  proof -
    consider "i < n - Suc j" | "i = n - Suc j" | "n - j \<le> i" using j by linarith
    then show ?thesis
    proof cases
      case 1
      then have "n - 1 - j - i = Suc (n - 1 - Suc j - i)" "i < n - j" by simp_all
      then show ?thesis using 1 o2(4) i by (simp only: if_True nth_Cons_Suc)
    qed (use o2(4) o1(4) i j in auto)
  qed
  moreover have "bitstring_loop (of_nat n) j (c # cs) o' = Some (Inr o2)"
    using o1(1) o2(1) Cons.prems(5) by (auto simp: binary_char_def)
  ultimately show ?case using o2(2,3) by blast
qed simp

lemma bitstring_loop_bad:
  assumes "wf_outcome o'" "o_width o' = of_nat n" "n < 2 ^ 32" "j + length cs = n"
    "find (\<lambda>c. \<not> binary_char c) cs = Some c"
  shows "bitstring_loop (of_nat n) j cs o' = Some (Inl c)"
  using assms
proof (induction cs arbitrary: j o')
  case (Cons d cs)
  have j: "j < n" using Cons.prems(4) by simp
  have "of_nat n - 1 - of_nat j = (of_nat (n - 1 - j) :: u32)" using j by (simp add: of_nat_diff)
  then have "unat (of_nat n - 1 - of_nat j :: u32) = n - 1 - j" using Cons.prems(3) by (simp add: unat_of_nat)
  then have "of_nat n - 1 - of_nat j < o_width o'"
    using Cons.prems(2,3) j by (simp add: word_less_nat_alt unat_of_nat)
  from set_bit_at_spec [OF Cons.prems(1) this, of "if d = CHR ''1'' then 1 else 0"]
  obtain o1 where o1: "set_bit_at (of_nat n - 1 - of_nat j) (if d = CHR ''1'' then 1 else 0) o' = Some o1"
    "wf_outcome o1" "o_width o1 = of_nat n"
    using Cons.prems(2) by auto
  show ?case
    using Cons.IH [OF o1(2,3) Cons.prems(3), of "Suc j"] Cons.prems(4,5) o1(1)
    by (auto simp: binary_char_def split: if_splits)
qed simp

lemma to_bitstring_length [simp]: "length (to_bitstring o') = unat (o_width o')"
  by (simp add: to_bitstring_def)

lemma to_bitstring_nth:
  "p < unat (o_width o') \<Longrightarrow>
     to_bitstring o' ! p = (if outcome_bit o' (unat (o_width o') - 1 - p) then CHR ''1'' else CHR ''0'')"
proof -
  assume p: "p < unat (o_width o')"
  have "unat (of_nat (unat (o_width o') - 1 - p) :: u32) = unat (o_width o') - 1 - p"
    using unat_bound [of "o_width o'"] by (simp add: unat_of_nat)
  then show ?thesis using p by (simp add: to_bitstring_def rev_nth bit_at_bit Suc_diff_Suc)
qed

section \<open>Counting\<close>

lemma entry_add_get: "bt_sorted m \<Longrightarrow> bt_get_or 0 k' (entry_add k n m) = bt_get_or 0 k' m + (if k' = k then n else 0)"
  by (simp add: entry_add_def bt_get_or_def bt.get_ins split: option.split)

lemma entry_add_sorted [simp]: "bt_sorted m \<Longrightarrow> bt_sorted (entry_add k n m)"
  by (simp add: entry_add_def bt.valid_ins)

lemma bt_insert_total:
  fixes m :: "('k::linorder, 'v::comm_ring_1) btree"
  shows "bt_sorted m \<Longrightarrow> sum_list (map snd (bt_insert k v m)) = sum_list (map snd m) - bt_get_or 0 k m + v"
proof (induction m)
  case (Cons kv m)
  obtain a b where kv: "kv = (a, b)" by (cases kv)
  have "\<forall>k' \<in> fst ` set m. a < k'" using Cons.prems by (simp add: kv bt_sorted_Cons)
  then have none: "map_of m k = None" if "k \<le> a"
    using that by (force simp: map_of_eq_None_iff)
  show ?case
    using Cons none by (auto simp: kv bt_get_or_def bt_get_def bt_sorted_Cons split: option.splits)
qed (simp add: bt_get_or_def bt_get_def)

lemma entry_add_total: "bt_sorted m \<Longrightarrow> sum_list (map snd (entry_add k n m)) = sum_list (map snd m) + n"
  by (simp add: entry_add_def bt_insert_total)

text \<open>The number of shots in a map of counts, as a natural number: no sum wraps.\<close>

definition shots_in :: "('k \<times> u32) list \<Rightarrow> nat" where
  "shots_in m = (\<Sum>(_, n)\<leftarrow>m. unat n)"

lemma shots_in_simps [simp]: "shots_in [] = 0" "shots_in ((k, n) # m) = unat n + shots_in m"
  by (simp_all add: shots_in_def)

lemma shots_in_insert:
  "bt_sorted m \<Longrightarrow> shots_in (bt_insert k v m) + unat (bt_get_or 0 k m) = shots_in m + unat v"
proof (induction m)
  case (Cons kv m)
  obtain a b where kv: "kv = (a, b)" by (cases kv)
  have "\<forall>k' \<in> fst ` set m. a < k'" using Cons.prems by (simp add: kv bt_sorted_Cons)
  then have none: "map_of m k = None" if "k \<le> a"
    using that by (force simp: map_of_eq_None_iff)
  show ?case
    using Cons none by (auto simp: kv bt_get_or_def bt_get_def bt_sorted_Cons split: option.splits)
qed (simp add: bt_get_or_def bt_get_def)

lemma count_le_shots: "unat (bt_get_or 0 k m) \<le> shots_in m"
  by (induction m) (auto simp: bt_get_or_def bt_get_def split: option.splits)

lemma shots_in_add:
  assumes "bt_sorted m" "unat (bt_get_or 0 k m) + unat n < 2 ^ 32"
  shows "shots_in (entry_add k n m) = shots_in m + unat n"
proof -
  have "unat (bt_get_or 0 k m + n) = unat (bt_get_or 0 k m) + unat n"
    using assms(2) by (simp add: unat_word_ariths)
  then show ?thesis using shots_in_insert [OF assms(1), of k "bt_get_or 0 k m + n"] by (simp add: entry_add_def)
qed

section \<open>Projection onto the classical register\<close>

text \<open>The bit a program leaves in a classical bit: the last measurement into it wins.\<close>

definition creg_of :: "(u32 \<times> u32) list \<Rightarrow> outcome \<Rightarrow> nat \<Rightarrow> bool" where
  "creg_of ps o' i = (case find (\<lambda>(_, c). unat c = i) (rev ps) of
     Some (q, _) \<Rightarrow> outcome_bit o' (unat q) | None \<Rightarrow> False)"

lemma project_key_spec:
  assumes "wf_outcome key" "\<forall>(q, c) \<in> set ps. c < o_width key"
  shows "\<exists>key'. project_key ps o' key = Some key' \<and> wf_outcome key' \<and> o_width key' = o_width key \<and>
    (\<forall>i. outcome_bit key' i =
      (case find (\<lambda>(_, c). unat c = i) (rev ps) of Some (q, _) \<Rightarrow> outcome_bit o' (unat q) | None \<Rightarrow> outcome_bit key i))"
  using assms
proof (induction ps arbitrary: key)
  case (Cons p ps)
  obtain q c where p: "p = (q, c)" by (cases p)
  have "c < o_width key" using Cons.prems(2) by (auto simp: p)
  from set_bit_at_spec [OF Cons.prems(1) this, of "bit_at o' q"]
  obtain k1 where k1: "set_bit_at c (bit_at o' q) key = Some k1" "wf_outcome k1" "o_width k1 = o_width key"
    "\<forall>i. outcome_bit k1 i = (if i = unat c then outcome_bit o' (unat q) else outcome_bit key i)"
    by (auto simp: bit_at_bit)
  have app: "find P (xs @ ys) = (case find P xs of Some x \<Rightarrow> Some x | None \<Rightarrow> find P ys)"
    for P and xs ys :: "(u32 \<times> u32) list" by (induction xs) auto
  from Cons.IH [OF k1(2)] Cons.prems(2) k1(3) obtain k2 where "project_key ps o' k1 = Some k2" "wf_outcome k2"
    "o_width k2 = o_width key" "\<forall>i. outcome_bit k2 i =
      (case find (\<lambda>(_, c). unat c = i) (rev ps) of Some (q, _) \<Rightarrow> outcome_bit o' (unat q) | None \<Rightarrow> outcome_bit k1 i)"
    by auto
  then show ?case using k1 by (auto simp: p app split: option.splits)
qed simp

lemma fold_max_ge: "x \<in> set xs \<or> x \<le> (a :: 'a :: linorder) \<Longrightarrow> x \<le> fold max xs a"
proof (induction xs arbitrary: a)
  case (Cons y xs)
  then show ?case by (cases "x = y") (auto simp: le_max_iff_disj)
qed simp

text \<open>What the outcomes bring to a key.\<close>

definition load :: "(outcome \<Rightarrow> outcome) \<Rightarrow> (outcome \<times> u32) list \<Rightarrow> outcome \<Rightarrow> nat" where
  "load P os k = shots_in (filter (\<lambda>(o', _). P o' = k) os)"

lemma load_simps: "load P [] k = 0" "load P ((o', n) # os) k = (if P o' = k then unat n else 0) + load P os k"
  by (simp_all add: load_def)

lemma project_loop_spec:
  assumes "\<And>o'. project_key ps o' (zeros width) = Some (P o')" "bt_sorted m"
  shows "if \<forall>k. unat (bt_get_or 0 k m) + load P os k < 2 ^ 32
    then \<exists>m'. project_loop checked ps width os m = Some m' \<and> bt_sorted m' \<and>
      (\<forall>k. unat (bt_get_or 0 k m') = unat (bt_get_or 0 k m) + load P os k) \<and> shots_in m' = shots_in m + shots_in os
    else checked \<longrightarrow> project_loop checked ps width os m = None"
  using assms(2)
proof (induction os arbitrary: m)
  case Nil
  have "unat (n :: u32) < 2 ^ 32" for n using unat_bound [of n] by simp
  then show ?case using Nil by (simp add: load_simps)
next
  case (Cons x os)
  obtain o' n where x: "x = (o', n)" by (cases x)
  let ?k = "P o'" and ?m = "entry_add (P o') n m"
  show ?case
  proof (cases "unat (bt_get_or 0 ?k m) + unat n < 2 ^ 32")
    case True
    have get: "unat (bt_get_or 0 k ?m) = unat (bt_get_or 0 k m) + (if ?k = k then unat n else 0)" for k
      using True unat_bound [of "bt_get_or 0 k m"] by (auto simp: entry_add_get [OF Cons.prems] unat_word_ariths)
    have l: "unat (bt_get_or 0 k ?m) + load P os k = unat (bt_get_or 0 k m) + load P (x # os) k" for k
      by (simp add: get x load_simps)
    have t: "shots_in ?m + shots_in os = shots_in m + shots_in (x # os)"
      by (simp add: x shots_in_add [OF Cons.prems True])
    have e: "project_loop checked ps width os ?m = project_loop checked ps width (x # os) m"
      using True by (simp add: x assms(1))
    show ?thesis using Cons.IH [OF entry_add_sorted [OF Cons.prems], of ?k n] unfolding l t e .
  next
    case False
    then have "\<not> unat (bt_get_or 0 ?k m) + load P (x # os) ?k < 2 ^ 32" by (simp add: x load_simps)
    then show ?thesis using False by (auto simp: x assms(1))
  qed
qed

section \<open>Properties\<close>



text \<open>C37: Bit strings round-trip, most significant bit first: printing a well-formed outcome and parsing
  it gives the outcome back; any string of zeros and ones parses to the outcome that prints as it; any
  other string is refused with its first character that is neither, and parsing never panics.\<close>

theorem bitstring_roundtrip:
  assumes "wf_outcome o'" "length s < 2 ^ 32"
  shows "from_bitstring (to_bitstring o') = Some (Inr o') \<and>
    (case find (\<lambda>c. \<not> binary_char c) s of
       Some c \<Rightarrow> from_bitstring s = Some (Inl c)
     | None \<Rightarrow> \<exists>r. from_bitstring s = Some (Inr r) \<and> wf_outcome r \<and> to_bitstring r = s)"
proof -
  have parse: "\<exists>r. from_bitstring s = Some (Inr r) \<and> wf_outcome r \<and> o_width r = of_nat (length s) \<and>
      (\<forall>i < length s. outcome_bit r i = (s ! (length s - 1 - i) = CHR ''1''))"
    if "list_all binary_char s" "length s < 2 ^ 32" for s
    using bitstring_loop_good [of "zeros (of_nat (length s))" "length s" 0 s] that by (auto simp: from_bitstring_def)
  have print: "to_bitstring r = s" if "list_all binary_char s" "length s < 2 ^ 32" "o_width r = of_nat (length s)"
    "\<forall>i < length s. outcome_bit r i = (s ! (length s - 1 - i) = CHR ''1'')" for r s
  proof (rule nth_equalityI)
    show l: "length (to_bitstring r) = length s" using that by (simp add: unat_of_nat)
    fix p assume "p < length (to_bitstring r)"
    then have p: "p < length s" using l by simp
    then have "binary_char (s ! p)" using that(1) by (simp add: list_all_length)
    moreover have "length s - 1 - (length s - 1 - p) = p" using p by simp
    ultimately show "to_bitstring r ! p = s ! p"
      using to_bitstring_nth [of p r] that(4) l p by (auto simp: binary_char_def)
  qed
  let ?s = "to_bitstring o'"
  have len: "of_nat (length ?s) = o_width o'" "length ?s < 2 ^ 32" using unat_bound [of "o_width o'"] by simp_all
  have "list_all binary_char ?s" by (auto simp: list_all_iff to_bitstring_def binary_char_def)
  from parse [OF this len(2)] obtain r where r: "from_bitstring ?s = Some (Inr r)" "wf_outcome r"
    "o_width r = of_nat (length ?s)" "\<forall>i < length ?s. outcome_bit r i = (?s ! (length ?s - 1 - i) = CHR ''1'')"
    by blast
  have "r = o'"
  proof (rule wf_outcome_eqI [OF r(2) assms(1)])
    fix i assume "i < unat (o_width r)"
    then have i: "i < length ?s" using r(3) len by simp
    then show "outcome_bit r i = outcome_bit o' i"
      using r(4) to_bitstring_nth [of "length ?s - 1 - i" o'] by (simp split: if_splits)
  qed (use r(3) len in simp)
  moreover have "case find (\<lambda>c. \<not> binary_char c) s of
       Some c \<Rightarrow> from_bitstring s = Some (Inl c)
     | None \<Rightarrow> \<exists>r. from_bitstring s = Some (Inr r) \<and> wf_outcome r \<and> to_bitstring r = s"
  proof (cases "find (\<lambda>c. \<not> binary_char c) s")
    case None
    then have "list_all binary_char s" by (simp add: find_None_iff list_all_iff)
    from parse [OF this assms(2)] print [OF this assms(2)] None show ?thesis by auto
  next
    case (Some c)
    then show ?thesis
      using bitstring_loop_bad [of "zeros (of_nat (length s))" "length s" 0 s c] assms(2)
      by (simp add: from_bitstring_def)
  qed
  ultimately show ?thesis using r(1) by simp
qed

theorem bitstring_roundtrip_witness:
  "from_bitstring (to_bitstring (zeros 70)) = Some (Inr (zeros 70)) \<and> from_bitstring ''0x1'' = Some (Inl CHR ''x'')"
  using bitstring_roundtrip [of "zeros 70" "''0x1''"] by (simp add: binary_char_def)

text \<open>C38: Counts are projected onto the classical register without losing a shot: unless a classical
  bit has the last 32-bit index, each outcome goes to the key as wide as the highest classical bit written
  whose bit is the last measurement into that bit and 0 where there is none; when no key receives \<open>2^32\<close>
  shots or more, the projection succeeds, the count of a key is the sum of the counts of the outcomes that
  go to it, and the total is kept, all without wrapping; and otherwise a build that checks its arithmetic
  panics.\<close>

theorem projection_exact:
  assumes "ps \<noteq> []" "list_all (\<lambda>(_, c). c \<noteq> - 1) ps"
  shows "\<exists>P. (\<forall>o'. wf_outcome (P o') \<and> o_width (P o') = Max ((\<lambda>(_, c). c + 1) ` set ps) \<and>
      (\<forall>i. outcome_bit (P o') i = creg_of ps o' i)) \<and>
    (if \<forall>k. load P m k < 2 ^ 32
     then \<exists>m'. project_counts checked m ps = Some m' \<and> bt_sorted m' \<and>
       (\<forall>k. unat (bt_get_or 0 k m') = load P m k) \<and> shots_in m' = shots_in m
     else checked \<longrightarrow> project_counts checked m ps = None)"
proof -
  let ?w = "fold max (map (\<lambda>(_, c). c + 1) ps) 0"
  have max: "?w = Max ((\<lambda>(_, c). c + 1) ` set ps)"
    using assms(1) Max.set_eq_fold [of 0 "map (\<lambda>(_, c). c + 1) ps"] by (simp add: max_def word_zero_le)
  have "c < ?w" if "(q, c) \<in> set ps" for q c
  proof -
    have "c + 1 \<le> ?w" by (rule fold_max_ge) (use that in force)
    moreover have "c \<noteq> - 1" using assms(2) that by (auto simp: list_all_iff)
    then have "1 + c \<noteq> 0" by (simp add: eq_neg_iff_add_eq_0 add.commute)
    then have "c < 1 + c" by (simp add: word_less_nat_alt unatSuc)
    then have "c < c + 1" by (simp only: add.commute)
    ultimately show ?thesis by (rule less_le_trans [rotated])
  qed
  then have lt: "\<forall>(q, c) \<in> set ps. c < o_width (zeros ?w)" by auto
  define P where "P o' = the (project_key ps o' (zeros ?w))" for o'
  note sp = project_key_spec [OF wf_zeros(1) lt, unfolded wf_zeros(3) wf_zeros(2) [THEN Eq_FalseI], folded creg_of_def]
  have P: "project_key ps o' (zeros ?w) = Some (P o')" "wf_outcome (P o')" "o_width (P o') = ?w"
    "outcome_bit (P o') i = creg_of ps o' i" for o' i
    using sp [of o'] by (auto simp: P_def)
  have pc: "project_counts checked m ps = project_loop checked ps ?w m []"
    using assms by (auto simp: project_counts_def list_all_iff list_ex_iff)
  have z: "unat (bt_get_or 0 k ([] :: counts)) = 0" for k by (simp add: bt_get_or_def bt.get_emp)
  have "if \<forall>k. load P m k < 2 ^ 32
    then \<exists>m'. project_loop checked ps ?w m [] = Some m' \<and> bt_sorted m' \<and>
      (\<forall>k. unat (bt_get_or 0 k m') = load P m k) \<and> shots_in m' = shots_in m
    else checked \<longrightarrow> project_loop checked ps ?w m [] = None"
    using project_loop_spec [of ps ?w P "[]" m checked, OF P(1) bt.valid_emp] by (simp only: z add_0 shots_in_simps)
  then show ?thesis unfolding pc max [symmetric] by (intro exI [of _ P] conjI allI) (simp_all only: P(2-4))
qed

theorem projection_exact_witness:
  "\<exists>m'. project_counts True [(zeros 2, 5)] [(0, 1), (1, 1)] = Some m' \<and> shots_in m' = 5"
proof -
  have "[(0, 1), (1, 1)] \<noteq> []" "list_all (\<lambda>(_, c). c \<noteq> - 1) [(0, 1 :: u32), (1 :: u32, 1)]" by simp_all
  note t = projection_exact [OF this, of "[(zeros 2, 5)]" True]
  have "load P [(zeros 2, 5)] k < 2 ^ 32" for P k by (simp add: load_simps)
  then show ?thesis using t by auto
qed

section \<open>Where the text and the code part\<close>

text \<open>The order compares words from the least significant one: bit 64 set sorts before bit 0 set.\<close>

lemma order_least_word_first: "Outcome 65 [0, 1] < Outcome 65 [1, 0]"
  by (simp add: less_outcome_def outcome_lt_def)

text \<open>A non-zero byte is a set bit only if it is odd, and the empty list of bits makes an outcome that
  differs from the empty outcome.\<close>

lemma from_bits_even_byte: "from_bits [2] = from_bits [0]"
  by (simp add: from_bits_def chunks.simps pack_word_def)

lemma from_bits_empty: "from_bits [] \<noteq> zeros 0"
  by (simp add: from_bits_def chunks.simps zeros_def words_for_def)

text \<open>The width check refuses nothing, while in release builds the key of a register loses bit 64.\<close>

lemma wide_register_truncated:
  "check_counts_width 65 = None \<and> creg_to_u64 False (replicate 64 0 @ [1]) = creg_to_u64 False (replicate 64 0 @ [0]) \<and>
   creg_to_u64 True (replicate 64 0 @ [1]) = None"
proof -
  have "take 64 (List.enumerate 0 (replicate 64 0 @ [b])) = List.enumerate 0 (replicate 64 (0 :: u8))" for b
    by (simp add: enumerate_append_eq)
  then show ?thesis by (simp add: check_counts_width_def creg_to_u64_def MAX_COUNTS_QUBITS_def)
qed

end
