(* ===== verification/StateVector.thy ===== *)
theory StateVector
  imports SvNorm Outcome "HOL-Library.Stream"
begin

text \<open>
  The state-vector backend, \<^verbatim>\<open>crates/omega-backend-statevector/src/sim.rs\<close> and \<^verbatim>\<open>capacity.rs\<close>: dispatch
  of the gates, measurement, reset, one trajectory, execution, sampling and Pauli expectations.
  The random generator is a pair of streams, the uniform draws from \<open>[0, 1)\<close> and the 64-bit words it
  hands out as seeds; the generator of a seed and the free memory of the host are parameters.  A run
  ends in a value, in an error or in a panic.
\<close>

datatype 'a run = Done 'a | Failed omega_error | Panicked

primrec bind_run :: "'a run \<Rightarrow> ('a \<Rightarrow> 'b run) \<Rightarrow> 'b run" where
  "bind_run (Done x) f = f x"
| "bind_run (Failed e) f = Failed e"
| "bind_run Panicked f = Panicked"

definition or_panic :: "'a option \<Rightarrow> 'a run" where
  "or_panic x = (case x of None \<Rightarrow> Panicked | Some y \<Rightarrow> Done y)"

definition or_fail :: "omega_error + 'a \<Rightarrow> 'a run" where
  "or_fail x = (case x of Inl e \<Rightarrow> Failed e | Inr y \<Rightarrow> Done y)"

definition unless_error :: "omega_error option \<Rightarrow> 'a run \<Rightarrow> 'a run" where
  "unless_error e r = (case e of None \<Rightarrow> r | Some err \<Rightarrow> Failed err)"

definition index_of :: "'a list \<Rightarrow> nat \<Rightarrow> 'a run" where
  "index_of xs i = (if i < length xs then Done (xs ! i) else Panicked)"

lemma bind_run_Done: "bind_run r f = Done y \<longleftrightarrow> (\<exists>x. r = Done x \<and> f x = Done y)"
  by (cases r) auto

section \<open>Capacity\<close>

text \<open>Whether the override is set, and the free bytes if the host reports them.\<close>

record host_memory =
  hm_oversubscribe :: bool
  hm_available :: "nat option"

definition BYTES_PER_AMPLITUDE :: nat where "BYTES_PER_AMPLITUDE = 16"
definition MAX_QUBITS :: u32 where "MAX_QUBITS = 64"

text \<open>128-bit arithmetic; \<open>None\<close> is its overflow.\<close>

definition required_bytes :: "u32 \<Rightarrow> bool \<Rightarrow> nat option" where
  "required_bytes n sampling =
     (let state = push_bit (unat n) 1 * BYTES_PER_AMPLITUDE
      in if unat n < 128 \<and> state < 2 ^ 128 then Some state else None)"

definition adjoint_tape_bytes :: "u32 \<Rightarrow> nat \<Rightarrow> nat \<Rightarrow> nat option" where
  "adjoint_tape_bytes n unitary_gates rows =
     (let state = push_bit (unat n) 1 * BYTES_PER_AMPLITUDE;
          per_row = state * (unitary_gates + 2)
      in if unat n < 128 \<and> per_row * max rows 1 < 2 ^ 128 then Some (per_row * max rows 1) else None)"

definition capacity_check :: "host_memory \<Rightarrow> u32 \<Rightarrow> bool \<Rightarrow> unit run" where
  "capacity_check h n sampling =
     (if MAX_QUBITS \<le> n then Failed (Unsupported (Too_many_qubits n))
      else if hm_oversubscribe h then Done ()
      else case hm_available h of
        None \<Rightarrow> Done ()
      | Some available \<Rightarrow>
          bind_run (or_panic (required_bytes n sampling)) (\<lambda>need.
            if available < need then Failed (Unsupported (Not_enough_memory n need available)) else Done ()))"

definition check_adjoint :: "host_memory \<Rightarrow> u32 \<Rightarrow> nat \<Rightarrow> nat \<Rightarrow> unit run" where
  "check_adjoint h n unitary_gates rows =
     bind_run (capacity_check h n False) (\<lambda>_.
       if hm_oversubscribe h then Done ()
       else case hm_available h of
         None \<Rightarrow> Done ()
       | Some available \<Rightarrow>
           bind_run (or_panic (adjoint_tape_bytes n unitary_gates rows)) (\<lambda>need.
             if available < need then Failed (Unsupported (Tape_too_large n need available)) else Done ()))"

section \<open>Measurement and reset\<close>

type_synonym rng = "real stream \<times> u64 stream"

definition draw_unit :: "rng \<Rightarrow> real \<times> rng" where
  "draw_unit r = (shd (fst r), stl (fst r), snd r)"

definition draw_seed :: "rng \<Rightarrow> u64 \<times> rng" where
  "draw_seed r = (shd (snd r), fst r, stl (snd r))"

definition prob_zero :: "complex list \<Rightarrow> nat \<Rightarrow> nat \<Rightarrow> real" where
  "prob_zero st n q =
     sum_list (map (\<lambda>i. (cmod (st ! i))\<^sup>2) (filter (\<lambda>i. i AND push_bit q 1 = 0) [0..<push_bit n 1]))"

definition collapse :: "complex list \<Rightarrow> nat \<Rightarrow> nat \<Rightarrow> complex list" where
  "collapse st q outcome =
     map (\<lambda>(i, amp). if drop_bit q i AND 1 \<noteq> outcome then 0 else amp) (List.enumerate 0 st)"

definition renormalize :: "complex list \<Rightarrow> complex list" where
  "renormalize st =
     (let s = sum_list (map (\<lambda>a. (cmod a)\<^sup>2) st)
      in if 0 < s then map (\<lambda>a. a * of_real (1 / sqrt s)) st else st)"

definition projective_measure :: "complex list \<Rightarrow> nat \<Rightarrow> nat \<Rightarrow> rng \<Rightarrow> (nat \<times> complex list \<times> rng) run" where
  "projective_measure st n q r =
     (if 64 \<le> q then Panicked
      else let (x, r') = draw_unit r;
               outcome = (if x < prob_zero st n q then 0 else 1)
           in Done (outcome, renormalize (collapse st q outcome), r'))"

text \<open>The entries of the reduced state of a qubit; the loop indexes the partner of every index with a
  clear bit.\<close>

definition reduced_purity :: "complex list \<Rightarrow> nat \<Rightarrow> nat \<Rightarrow> real run" where
  "reduced_purity st n q =
     (if n \<le> q then Panicked
      else let clear = filter (\<lambda>i. i AND push_bit q 1 = 0) [0..<push_bit n 1];
               set = filter (\<lambda>i. i AND push_bit q 1 \<noteq> 0) [0..<push_bit n 1];
               r00 = sum_list (map (\<lambda>i. (cmod (st ! i))\<^sup>2) clear);
               r01 = sum_list (map (\<lambda>i. st ! i * cnj (st ! (i OR push_bit q 1))) clear);
               r11 = sum_list (map (\<lambda>i. (cmod (st ! i))\<^sup>2) set)
           in Done (r00 * r00 + r11 * r11 + 2 * (cmod r01)\<^sup>2))"

definition reset_is_deterministic_within :: "complex list \<Rightarrow> nat \<Rightarrow> nat \<Rightarrow> real \<Rightarrow> bool run" where
  "reset_is_deterministic_within st n q tol =
     bind_run (reduced_purity st n q) (\<lambda>p. Done (\<bar>p - 1\<bar> < tol))"

definition reset_is_deterministic :: "complex list \<Rightarrow> nat \<Rightarrow> nat \<Rightarrow> bool run" where
  "reset_is_deterministic st n q = reset_is_deterministic_within st n q (1 / 10 ^ 9)"

definition apply_reset :: "complex list \<Rightarrow> nat \<Rightarrow> nat \<Rightarrow> rng \<Rightarrow> bool \<Rightarrow> (complex list \<times> rng) run" where
  "apply_reset st n q r analytic =
     bind_run (if analytic then reset_is_deterministic st n q else Done True) (\<lambda>ok.
       if \<not> ok then Failed (Unsupported (Entangled_reset q))
       else bind_run (projective_measure st n q r) (\<lambda>(outcome, st', r').
         if outcome = 1 then bind_run (or_panic (apply_1q st' n q gate_x)) (\<lambda>st''. Done (st'', r'))
         else Done (st', r')))"

section \<open>Gates\<close>

fun resolve_all :: "binding \<Rightarrow> param_expr list \<Rightarrow> omega_error + real list" where
  "resolve_all b [] = Inr []"
| "resolve_all b (p # ps) =
     (case resolve_param b p of Inl e \<Rightarrow> Inl e
      | Inr v \<Rightarrow> (case resolve_all b ps of Inl e \<Rightarrow> Inl e | Inr vs \<Rightarrow> Inr (v # vs)))"

definition qubit_of :: "gate_op \<Rightarrow> nat \<Rightarrow> nat run" where
  "qubit_of op i = bind_run (index_of (op_qubits op) i) (\<lambda>q. Done (unat q))"

text \<open>A kernel on the first one, two or three qubits of the operation.\<close>

definition on_1q :: "(nat \<Rightarrow> complex list option) \<Rightarrow> gate_op \<Rightarrow> complex list run" where
  "on_1q k op = bind_run (qubit_of op 0) (\<lambda>q. or_panic (k q))"

definition on_2q :: "(nat \<Rightarrow> nat \<Rightarrow> complex list option) \<Rightarrow> gate_op \<Rightarrow> complex list run" where
  "on_2q k op = bind_run (qubit_of op 0) (\<lambda>q0. bind_run (qubit_of op 1) (\<lambda>q1. or_panic (k q0 q1)))"

definition on_3q :: "(nat \<Rightarrow> nat \<Rightarrow> nat \<Rightarrow> complex list option) \<Rightarrow> gate_op \<Rightarrow> complex list run" where
  "on_3q k op = bind_run (qubit_of op 0) (\<lambda>q0. bind_run (qubit_of op 1) (\<lambda>q1.
     bind_run (qubit_of op 2) (\<lambda>q2. or_panic (k q0 q1 q2))))"

text \<open>A gate of one, two or three resolved parameters.\<close>

definition with1 :: "(real \<Rightarrow> 'a) \<Rightarrow> real list \<Rightarrow> 'a run" where
  "with1 g ps = bind_run (index_of ps 0) (\<lambda>a. Done (g a))"

definition with2 :: "(real \<Rightarrow> real \<Rightarrow> 'a) \<Rightarrow> real list \<Rightarrow> 'a run" where
  "with2 g ps = bind_run (index_of ps 0) (\<lambda>a. bind_run (index_of ps 1) (\<lambda>b. Done (g a b)))"

definition with3 :: "(real \<Rightarrow> real \<Rightarrow> real \<Rightarrow> 'a) \<Rightarrow> real list \<Rightarrow> 'a run" where
  "with3 g ps = bind_run (index_of ps 0) (\<lambda>a. bind_run (index_of ps 1) (\<lambda>b. bind_run (index_of ps 2) (\<lambda>c. Done (g a b c))))"

definition apply_gate :: "complex list \<Rightarrow> nat \<Rightarrow> gate_op \<Rightarrow> binding \<Rightarrow> rng \<Rightarrow> bool \<Rightarrow> (complex list \<times> rng) run" where
  "apply_gate st n op b r analytic =
     bind_run (or_fail (resolve_all b (op_params op))) (\<lambda>ps.
       let one = (\<lambda>g. bind_run (on_1q (\<lambda>q. apply_1q st n q g) op) (\<lambda>st'. Done (st', r)));
           diag = (\<lambda>g. bind_run (on_1q (\<lambda>q. diag_from st n q g) op) (\<lambda>st'. Done (st', r)));
           two = (\<lambda>g. bind_run (on_2q (\<lambda>q0 q1. apply_2q st n q0 q1 g) op) (\<lambda>st'. Done (st', r)))
       in case op_gate op of
         H \<Rightarrow> one gate_h
       | X \<Rightarrow> one gate_x
       | Y \<Rightarrow> one gate_y
       | Z \<Rightarrow> diag gate_z
       | S \<Rightarrow> diag gate_s
       | Sdg \<Rightarrow> diag gate_sdg
       | Sx \<Rightarrow> one gate_sx
       | Sxdg \<Rightarrow> one gate_sxdg
       | T \<Rightarrow> diag gate_t
       | Tdg \<Rightarrow> diag gate_tdg
       | Id \<Rightarrow> Done (st, r)
       | Rx \<Rightarrow> bind_run (with1 gate_rx ps) one
       | Ry \<Rightarrow> bind_run (with1 gate_ry ps) one
       | Rz \<Rightarrow> bind_run (with1 gate_rz ps) diag
       | U3 \<Rightarrow> bind_run (with3 gate_u3 ps) one
       | U2 \<Rightarrow> bind_run (with2 gate_u2 ps) one
       | U1 \<Rightarrow> bind_run (with1 gate_u1 ps) one
       | CX \<Rightarrow> bind_run (on_2q (apply_cx st n) op) (\<lambda>st'. Done (st', r))
       | CY \<Rightarrow> two gate_cy
       | CZ \<Rightarrow> two gate_cz
       | Swap \<Rightarrow> two gate_swap
       | CRz \<Rightarrow> bind_run (with1 gate_crz ps) two
       | CU3 \<Rightarrow> bind_run (with3 gate_cu3 ps) two
       | Rbs \<Rightarrow> bind_run (with1 gate_rbs ps) two
       | CCX \<Rightarrow> bind_run (on_3q (apply_ccx st n) op) (\<lambda>st'. Done (st', r))
       | CSwap \<Rightarrow> bind_run (on_3q (apply_cswap st n) op) (\<lambda>st'. Done (st', r))
       | Reset \<Rightarrow> bind_run (qubit_of op 0) (\<lambda>q. apply_reset st n q r analytic)
       | Measure \<Rightarrow> Done (st, r)
       | Barrier \<Rightarrow> Done (st, r)
       | g \<Rightarrow> Failed (Unsupported (Gate_not_supported g)))"

section \<open>One trajectory\<close>

datatype mid_circuit_mode = Skip | Collapse

record exec_config =
  cfg_shots :: "u32 option"
  cfg_seed :: "u64 option"
  cfg_mode :: mid_circuit_mode

definition set_cbit :: "u32 option \<Rightarrow> u8 \<Rightarrow> u8 list \<Rightarrow> u8 list" where
  "set_cbit c v bits = (case c of None \<Rightarrow> bits | Some i \<Rightarrow> if unat i < length bits then bits[unat i := v] else bits)"

definition evolve_op :: "mid_circuit_mode \<Rightarrow> nat \<Rightarrow> binding \<Rightarrow> bool \<Rightarrow> gate_op \<Rightarrow>
    complex list \<times> u8 list \<times> rng \<Rightarrow> (complex list \<times> u8 list \<times> rng) run" where
  "evolve_op mode n b analytic op = (\<lambda>(st, bits, r).
     if \<not> condition_satisfied op bits then Done (st, bits, r)
     else if op_gate op = Measure then
       (if mode = Collapse then
          bind_run (qubit_of op 0) (\<lambda>q. bind_run (projective_measure st n q r) (\<lambda>(outcome, st', r').
            Done (st', set_cbit (op_cbit op) (of_nat outcome) bits, r')))
        else Done (st, bits, r))
     else if op_gate op = Barrier then Done (st, bits, r)
     else bind_run (apply_gate st n op b r analytic) (\<lambda>(st', r'). Done (st', bits, r')))"

fun evolve_ops :: "mid_circuit_mode \<Rightarrow> nat \<Rightarrow> binding \<Rightarrow> bool \<Rightarrow> gate_op list \<Rightarrow>
    complex list \<times> u8 list \<times> rng \<Rightarrow> (complex list \<times> u8 list \<times> rng) run" where
  "evolve_ops mode n b analytic [] s = Done s"
| "evolve_ops mode n b analytic (op # ops) s =
     bind_run (evolve_op mode n b analytic op s) (evolve_ops mode n b analytic ops)"

definition sv_zero_state :: "nat \<Rightarrow> complex list" where
  "sv_zero_state n = (replicate (push_bit n 1) 0)[0 := 1]"

definition evolve_once :: "host_memory \<Rightarrow> circuit_ir \<Rightarrow> binding \<Rightarrow> exec_config \<Rightarrow> rng \<Rightarrow> bool \<Rightarrow>
    (complex list \<times> u8 list \<times> rng) run" where
  "evolve_once h c b cfg r analytic =
     bind_run (capacity_check h (cir_qubits c) (cfg_shots cfg \<noteq> None)) (\<lambda>_.
       let n = unat (cir_qubits c) in
       evolve_ops (cfg_mode cfg) n b analytic (cir_ops c)
         (sv_zero_state n, replicate (unat (cir_cbits c)) 0, r))"

section \<open>Sampling\<close>

text \<open>The walk over the amplitudes with the sorted draws: those passed by the running sum are counted
  at the index.\<close>

fun sample_walk :: "nat \<Rightarrow> complex list \<Rightarrow> real \<Rightarrow> real list \<Rightarrow> (u64, u32) btree \<Rightarrow> real list \<times> (u64, u32) btree" where
  "sample_walk idx [] acc ds m = (ds, m)"
| "sample_walk idx (a # as) acc ds m =
     (if ds = [] then (ds, m)
      else let acc' = acc + (cmod a)\<^sup>2 in
        sample_walk (Suc idx) as acc' (dropWhile (\<lambda>d. d \<le> acc') ds)
          (fold (\<lambda>_. entry_add (of_nat idx) 1) (takeWhile (\<lambda>d. d \<le> acc') ds) m))"

definition sample_counts :: "complex list \<Rightarrow> real list \<Rightarrow> (u64, u32) btree" where
  "sample_counts st draws =
     (let (ds, m) = sample_walk 0 st 0 (sort draws) []
      in fold (\<lambda>_. entry_add (of_nat (length st - 1)) 1) ds m)"

section \<open>Execution\<close>

definition collapses :: "circuit_ir \<Rightarrow> exec_config \<Rightarrow> bool" where
  "collapses c cfg = (cfg_mode cfg = Collapse \<and> 0 < cir_cbits c)"

definition circuit_has_reset :: "circuit_ir \<Rightarrow> bool" where
  "circuit_has_reset c = list_ex (\<lambda>op. op_gate op = Reset) (cir_ops c)"

definition stochastic_evolution :: "circuit_ir \<Rightarrow> exec_config \<Rightarrow> bool" where
  "stochastic_evolution c cfg = (collapses c cfg \<or> circuit_has_reset c)"

datatype exec_result = Statevector "complex list" | Counts counts

text \<open>What the backend relies on outside the repository: the memory of the host, the generator of a
  seed, the generator without a seed, and whether the build checks its debug assertions.\<close>

record sv_env =
  host_mem :: host_memory
  seeded :: "u64 \<Rightarrow> rng"
  unseeded :: rng
  checked_build :: bool

definition run_rng :: "sv_env \<Rightarrow> u64 option \<Rightarrow> rng" where
  "run_rng h seed = (case seed of Some s \<Rightarrow> seeded h s | None \<Rightarrow> unseeded h)"

text \<open>The draws of one sampling: its own generator, seeded by a word of the run's.\<close>

definition sample_seeded :: "sv_env \<Rightarrow> complex list \<Rightarrow> nat \<Rightarrow> rng \<Rightarrow> (u64, u32) btree \<times> rng" where
  "sample_seeded h st shots r =
     (let (s, r') = draw_seed r in (sample_counts st (stake shots (fst (seeded h s))), r'))"

text \<open>One trajectory per shot.\<close>

fun shot_loop :: "sv_env \<Rightarrow> circuit_ir \<Rightarrow> binding \<Rightarrow> exec_config \<Rightarrow> bool \<Rightarrow> nat \<Rightarrow> rng \<Rightarrow> (u64, u32) btree \<Rightarrow>
    (u64, u32) btree run" where
  "shot_loop h c b cfg by_creg 0 r m = Done m"
| "shot_loop h c b cfg by_creg (Suc k) r m =
     bind_run (evolve_once (host_mem h) c b cfg r False) (\<lambda>(st, bits, r').
       bind_run (if by_creg then bind_run (or_panic (creg_to_u64 (checked_build h) bits)) (\<lambda>key. Done (key, r'))
                 else let (counts, r'') = sample_seeded h st 1 r'
                      in Done (case counts of [] \<Rightarrow> 0 | (key, _) # _ \<Rightarrow> key, r''))
         (\<lambda>(key, r''). shot_loop h c b cfg by_creg k r'' (entry_add key 1 m)))"

definition counts_result :: "sv_env \<Rightarrow> (u64, u32) btree \<Rightarrow> u32 \<Rightarrow> exec_result run" where
  "counts_result h m width = bind_run (or_panic (counts_from_u64 (checked_build h) m width)) (\<lambda>cs. Done (Counts cs))"

definition execute :: "sv_env \<Rightarrow> circuit_ir \<Rightarrow> binding \<Rightarrow> exec_config \<Rightarrow> exec_result run" where
  "execute h c b cfg =
     unless_error (refuse_qudits c ''statevector'')
      (let n = unat (cir_qubits c);
           r = run_rng h (cfg_seed cfg);
           by_creg = collapses c cfg
       in unless_error (if cfg_shots cfg \<noteq> None then check_counts_width (counts_outcome_width c by_creg) else None)
         (case (stochastic_evolution c cfg, cfg_shots cfg) of
            (True, Some shots) \<Rightarrow>
              bind_run (shot_loop h c b cfg by_creg (unat shots) r []) (\<lambda>m.
                counts_result h m (of_nat (counts_outcome_width c by_creg)))
          | _ \<Rightarrow>
              bind_run (evolve_once (host_mem h) c b cfg r (cfg_shots cfg = None)) (\<lambda>(st, bits, r').
                case cfg_shots cfg of
                  None \<Rightarrow> Done (Statevector st)
                | Some shots \<Rightarrow>
                    if cfg_mode cfg = Collapse \<and> bits \<noteq> [] then
                      counts_result h
                        (bt_insert (fold (\<lambda>(i, v) w. w OR push_bit i (ucast v AND 1)) (take 64 (List.enumerate 0 bits)) 0) shots [])
                        (of_nat (counts_outcome_width c True))
                    else counts_result h (fst (sample_seeded h st (unat shots) r')) (of_nat n))))"

end
