(* ===== verification/SvGates.thy ===== *)
theory SvGates
  imports StateVector
begin

text \<open>
  What a gate of the state-vector backend does: every supported unitary gate of a valid operation
  acts as its matrix on its qubits, in the basis the circuit names, and keeps the norm.
\<close>

section \<open>The matrix of a gate\<close>

fun matrix1 :: "gate_kind \<Rightarrow> real list \<Rightarrow> gate1q option" where
  "matrix1 H ps = Some gate_h" | "matrix1 X ps = Some gate_x" | "matrix1 Y ps = Some gate_y"
| "matrix1 Z ps = Some gate_z" | "matrix1 S ps = Some gate_s" | "matrix1 Sdg ps = Some gate_sdg"
| "matrix1 Sx ps = Some gate_sx" | "matrix1 Sxdg ps = Some gate_sxdg" | "matrix1 T ps = Some gate_t"
| "matrix1 Tdg ps = Some gate_tdg" | "matrix1 Rx ps = Some (gate_rx (ps ! 0))"
| "matrix1 Ry ps = Some (gate_ry (ps ! 0))" | "matrix1 Rz ps = Some (gate_rz (ps ! 0))"
| "matrix1 U3 ps = Some (gate_u3 (ps ! 0) (ps ! 1) (ps ! 2))" | "matrix1 U2 ps = Some (gate_u2 (ps ! 0) (ps ! 1))"
| "matrix1 U1 ps = Some (gate_u1 (ps ! 0))" | "matrix1 _ ps = None"

fun matrix2 :: "gate_kind \<Rightarrow> real list \<Rightarrow> gate2q option" where
  "matrix2 CX ps = Some gate_cx" | "matrix2 CY ps = Some gate_cy" | "matrix2 CZ ps = Some gate_cz"
| "matrix2 Swap ps = Some gate_swap" | "matrix2 CRz ps = Some (gate_crz (ps ! 0))"
| "matrix2 CU3 ps = Some (gate_cu3 (ps ! 0) (ps ! 1) (ps ! 2))" | "matrix2 Rbs ps = Some (gate_rbs (ps ! 0))"
| "matrix2 _ ps = None"

definition toffoli :: "nat \<Rightarrow> nat \<Rightarrow> nat \<Rightarrow> nat \<Rightarrow> nat" where
  "toffoli c0 c1 t x = (if bit x c0 \<and> bit x c1 then put_bit t (\<not> bit x t) x else x)"

definition fredkin :: "nat \<Rightarrow> nat \<Rightarrow> nat \<Rightarrow> nat \<Rightarrow> nat" where
  "fredkin c t0 t1 x = (if bit x c then put_bit t0 (bit x t1) (put_bit t1 (bit x t0) x) else x)"

definition gate_action :: "gate_kind \<Rightarrow> real list \<Rightarrow> nat list \<Rightarrow> complex list \<Rightarrow> complex list" where
  "gate_action g ps qs st =
     (case matrix1 g ps of Some m \<Rightarrow> dense_1q (qs ! 0) m st
      | None \<Rightarrow> (case matrix2 g ps of Some m \<Rightarrow> dense_2q (qs ! 0) (qs ! 1) m st
      | None \<Rightarrow> if g = CCX then permuted (toffoli (qs ! 0) (qs ! 1) (qs ! 2)) st
               else if g = CSwap then permuted (fredkin (qs ! 0) (qs ! 1) (qs ! 2)) st else st))"

lemma gate_action_three:
  "gate_action CCX ps qs st = permuted (toffoli (qs ! 0) (qs ! 1) (qs ! 2)) st"
  "gate_action CSwap ps qs st = permuted (fredkin (qs ! 0) (qs ! 1) (qs ! 2)) st"
  by (simp_all add: gate_action_def)

fun unitary_gate :: "gate_kind \<Rightarrow> bool" where
  "unitary_gate PhaseShifter = False" | "unitary_gate BeamSplitterRx = False" | "unitary_gate Rxy = False"
| "unitary_gate CSum = False" | "unitary_gate (Custom _) = False" | "unitary_gate Measure = False"
| "unitary_gate Barrier = False" | "unitary_gate Reset = False" | "unitary_gate _ = True"

text \<open>An operation with enough distinct qubits of the register, and with enough parameters.\<close>

definition valid_op :: "nat \<Rightarrow> gate_op \<Rightarrow> bool" where
  "valid_op n op \<longleftrightarrow> distinct (op_qubits op) \<and> (\<forall>q \<in> set (op_qubits op). unat q < n) \<and>
     num_qubits (op_gate op) \<le> length (op_qubits op) \<and> num_params (op_gate op) \<le> length (op_params op) \<and>
     (op_gate op = Measure \<longrightarrow> op_qubits op \<noteq> [])"

lemma matrix1_unitary: "matrix1 g ps = Some m \<Longrightarrow> unitary1 m"
  by (induction g ps rule: matrix1.induct) (auto simp: gate1q_unitary gate_u3_unitary)

lemma matrix2_unitary: "matrix2 g ps = Some m \<Longrightarrow> unitary2 m"
  by (induction g ps rule: matrix2.induct) (auto simp: gate2q_unitary)

lemma length_gate_action [simp]: "length (gate_action g ps qs st) = length st"
  by (simp add: gate_action_def split: option.split)

lemma resolve_all_length: "resolve_all b ps = Inr vs \<Longrightarrow> length vs = length ps"
  by (induction ps arbitrary: vs) (auto split: sum.splits)

lemma num_bounds:
  "matrix1 g ps = Some m \<Longrightarrow> 0 < num_qubits g" "matrix2 g ps = Some m \<Longrightarrow> 1 < num_qubits g"
  by (induction g ps rule: matrix1.induct; simp) (induction g ps rule: matrix2.induct; simp)

section \<open>Dispatch\<close>

lemma valid_op_nth:
  assumes "valid_op n op" "i < num_qubits (op_gate op)"
  shows "qubit_of op i = Done (unat (op_qubits op ! i))" "unat (op_qubits op ! i) < n"
    "\<And>j. j < num_qubits (op_gate op) \<Longrightarrow> i \<noteq> j \<Longrightarrow> unat (op_qubits op ! i) \<noteq> unat (op_qubits op ! j)"
  using assms by (auto simp: valid_op_def qubit_of_def index_of_def nth_eq_iff_index_eq word_unat_eq_iff [symmetric])

lemma op_qubits_nth:
  "valid_op n op \<Longrightarrow> i < num_qubits (op_gate op) \<Longrightarrow> map unat (op_qubits op) ! i = unat (op_qubits op ! i)"
  by (simp add: valid_op_def)

lemma on_1q_valid:
  assumes "valid_op n op" "1 \<le> num_qubits (op_gate op)"
    and "\<And>q. q < n \<Longrightarrow> k q = Some (f q)"
  shows "on_1q k op = Done (f (unat (op_qubits op ! 0)))"
  using valid_op_nth [OF assms(1), of 0] assms(2,3) by (simp add: on_1q_def or_panic_def)

lemma on_2q_valid:
  assumes "valid_op n op" "2 \<le> num_qubits (op_gate op)"
    and "\<And>q r. q < n \<Longrightarrow> r < n \<Longrightarrow> q \<noteq> r \<Longrightarrow> k q r = Some (f q r)"
  shows "on_2q k op = Done (f (unat (op_qubits op ! 0)) (unat (op_qubits op ! 1)))"
  using valid_op_nth [OF assms(1), of 0] valid_op_nth [OF assms(1), of 1] assms(2,3)
  by (simp add: on_2q_def or_panic_def)

lemma on_3q_valid:
  assumes "valid_op n op" "3 \<le> num_qubits (op_gate op)"
    and "\<And>q r s. q < n \<Longrightarrow> r < n \<Longrightarrow> s < n \<Longrightarrow> q \<noteq> r \<Longrightarrow> q \<noteq> s \<Longrightarrow> r \<noteq> s \<Longrightarrow> k q r s = Some (f q r s)"
  shows "on_3q k op = Done (f (unat (op_qubits op ! 0)) (unat (op_qubits op ! 1)) (unat (op_qubits op ! 2)))"
  using valid_op_nth [OF assms(1), of 0] valid_op_nth [OF assms(1), of 1] valid_op_nth [OF assms(1), of 2] assms(2,3)
  by (simp add: on_3q_def or_panic_def)

lemma with_params:
  "Suc 0 \<le> length ps \<Longrightarrow> with1 g1 ps = Done (g1 (ps ! 0))"
  "1 < length ps \<Longrightarrow> with2 g2 ps = Done (g2 (ps ! 0) (ps ! 1))"
  "2 < length ps \<Longrightarrow> with3 g3 ps = Done (g3 (ps ! 0) (ps ! 1) (ps ! 2))"
  by (auto simp: with1_def with2_def with3_def index_of_def)

lemma length_matrix2: "matrix2 g ps = Some m \<Longrightarrow> length m = 16"
  using matrix2_unitary by (auto simp: unitary2_def)

lemma kernels:
  assumes "length st = 2 ^ n" "n \<le> 64"
  shows "q < n \<Longrightarrow> apply_1q st n q g = Some (dense_1q q g st)"
    "q < n \<Longrightarrow> g ! 1 = 0 \<Longrightarrow> g ! 2 = 0 \<Longrightarrow> diag_from st n q g = Some (dense_1q q g st)"
    "q < n \<Longrightarrow> s < n \<Longrightarrow> q \<noteq> s \<Longrightarrow> length g2 = 16 \<Longrightarrow> apply_2q st n q s g2 = Some (dense_2q q s g2 st)"
    "q < n \<Longrightarrow> s < n \<Longrightarrow> q \<noteq> s \<Longrightarrow> apply_cx st n q s = Some (dense_2q q s gate_cx st)"
    "q < n \<Longrightarrow> s < n \<Longrightarrow> t < n \<Longrightarrow> q \<noteq> s \<Longrightarrow> q \<noteq> t \<Longrightarrow> s \<noteq> t \<Longrightarrow> apply_ccx st n q s t = Some (permuted (toffoli q s t) st)"
    "q < n \<Longrightarrow> s < n \<Longrightarrow> t < n \<Longrightarrow> q \<noteq> s \<Longrightarrow> q \<noteq> t \<Longrightarrow> s \<noteq> t \<Longrightarrow> apply_cswap st n q s t = Some (permuted (fredkin q s t) st)"
  using assms apply_1q_dense [OF assms(1)] diag_from_dense [OF assms(1)] apply_2q_dense [OF assms(1)]
    apply_cx_dense [OF assms(1)] apply_ccx_permuted [OF assms(1)] apply_cswap_permuted [OF assms(1)]
  by (simp_all add: toffoli_def [abs_def] fredkin_def [abs_def])

text \<open>The gates one arity at a time.\<close>

lemma apply_gate_one:
  assumes "length st = 2 ^ n" "n \<le> 64" "valid_op n op" "resolve_all b (op_params op) = Inr ps"
    "matrix1 (op_gate op) ps = Some m"
  shows "apply_gate st n op b r analytic = Done (dense_1q (unat (op_qubits op ! 0)) m st, r)"
proof -
  have l: "num_params (op_gate op) \<le> length ps"
    using assms(3) resolve_all_length [OF assms(4)] by (simp add: valid_op_def)
  have q: "1 \<le> num_qubits (op_gate op)" using num_bounds(1) [OF assms(5)] by simp
  have one: "on_1q (\<lambda>q. apply_1q st n q g) op = Done (dense_1q (unat (op_qubits op ! 0)) g st)" for g
    by (rule on_1q_valid [OF assms(3) q]) (simp add: kernels [OF assms(1,2)])
  have diag: "g ! 1 = 0 \<Longrightarrow> g ! 2 = 0 \<Longrightarrow>
      on_1q (\<lambda>q. diag_from st n q g) op = Done (dense_1q (unat (op_qubits op ! 0)) g st)" for g
    by (rule on_1q_valid [OF assms(3) q]) (simp add: kernels [OF assms(1,2)])
  note diagonal = gate_z_def gate_s_def gate_sdg_def gate_t_def gate_tdg_def gate_rz_def
  show ?thesis
    using assms(4,5) l
    by (cases "op_gate op")
      (auto simp: apply_gate_def or_fail_def one diag diagonal with_params)
qed

lemma apply_gate_two:
  assumes "length st = 2 ^ n" "n \<le> 64" "valid_op n op" "resolve_all b (op_params op) = Inr ps"
    "matrix2 (op_gate op) ps = Some m"
  shows "apply_gate st n op b r analytic =
    Done (dense_2q (unat (op_qubits op ! 0)) (unat (op_qubits op ! 1)) m st, r)"
proof -
  have l: "num_params (op_gate op) \<le> length ps"
    using assms(3) resolve_all_length [OF assms(4)] by (simp add: valid_op_def)
  have q: "2 \<le> num_qubits (op_gate op)" using num_bounds(2) [OF assms(5)] by simp
  note len = length_matrix2 [OF assms(5)]
  have two: "on_2q (\<lambda>q0 q1. apply_2q st n q0 q1 m) op =
      Done (dense_2q (unat (op_qubits op ! 0)) (unat (op_qubits op ! 1)) m st)"
    by (rule on_2q_valid [OF assms(3) q]) (simp add: kernels [OF assms(1,2)] len)
  have cx: "on_2q (apply_cx st n) op =
      Done (dense_2q (unat (op_qubits op ! 0)) (unat (op_qubits op ! 1)) gate_cx st)"
    by (rule on_2q_valid [OF assms(3) q]) (simp add: kernels [OF assms(1,2)])
  show ?thesis
    using assms(4,5) l two cx
    by (cases "op_gate op") (auto simp: apply_gate_def or_fail_def with_params)
qed

lemma apply_gate_action:
  assumes "length st = 2 ^ n" "n \<le> 64" "valid_op n op" "resolve_all b (op_params op) = Inr ps"
    "unitary_gate (op_gate op)"
  shows "apply_gate st n op b r analytic = Done (gate_action (op_gate op) ps (map unat (op_qubits op)) st, r)"
proof -
  note nth = op_qubits_nth [OF assms(3)]
  consider m where "matrix1 (op_gate op) ps = Some m" | m where "matrix2 (op_gate op) ps = Some m" "matrix1 (op_gate op) ps = None"
    | "op_gate op = CCX" | "op_gate op = CSwap" | "op_gate op = Id"
    using assms(5) by (cases "op_gate op") auto
  then show ?thesis
  proof cases
    case 1
    then show ?thesis
      using apply_gate_one [OF assms(1-4) 1] nth [OF num_bounds(1) [OF 1]] by (simp add: gate_action_def)
  next
    case 2
    note b = num_bounds(2) [OF 2(1)]
    then have "0 < num_qubits (op_gate op)" by simp
    then show ?thesis
      using apply_gate_two [OF assms(1-4) 2(1)] nth [of 0] nth [OF b] 2 by (simp add: gate_action_def)
  next
    case 3
    then have "on_3q (apply_ccx st n) op = Done (permuted (toffoli (unat (op_qubits op ! 0)) (unat (op_qubits op ! 1)) (unat (op_qubits op ! 2))) st)"
      by (intro on_3q_valid [OF assms(3)]) (simp_all add: kernels [OF assms(1,2)])
    then show ?thesis using 3 assms(4) nth [of 0] nth [of 1] nth [of 2] by (simp add: apply_gate_def or_fail_def gate_action_def)
  next
    case 4
    then have "on_3q (apply_cswap st n) op = Done (permuted (fredkin (unat (op_qubits op ! 0)) (unat (op_qubits op ! 1)) (unat (op_qubits op ! 2))) st)"
      by (intro on_3q_valid [OF assms(3)]) (simp_all add: kernels [OF assms(1,2)])
    then show ?thesis using 4 assms(4) nth [of 0] nth [of 1] nth [of 2] by (simp add: apply_gate_def or_fail_def gate_action_def)
  next
    case 5
    then show ?thesis using assms(4) by (simp add: apply_gate_def or_fail_def gate_action_def)
  qed
qed

section \<open>Norm\<close>

lemma norm_gate_action:
  assumes "length st = 2 ^ n" "valid_op n op" "unitary_gate (op_gate op)"
  shows "norm_sq (gate_action (op_gate op) ps (map unat (op_qubits op)) st) = norm_sq st"
proof -
  note q = valid_op_nth [OF assms(2)]
  note nth = op_qubits_nth [OF assms(2)]
  consider m where "matrix1 (op_gate op) ps = Some m" | m where "matrix2 (op_gate op) ps = Some m" "matrix1 (op_gate op) ps = None"
    | "op_gate op = CCX" | "op_gate op = CSwap" | "op_gate op = Id"
    using assms(3) by (cases "op_gate op") auto
  then show ?thesis
  proof cases
    case 1
    then show ?thesis
      using norm_dense_1q [OF assms(1) q(2) [OF num_bounds(1) [OF 1]] matrix1_unitary [OF 1]] nth [OF num_bounds(1) [OF 1]]
      by (simp add: gate_action_def)
  next
    case 2
    note b = num_bounds(2) [OF 2(1)]
    then have b0: "0 < num_qubits (op_gate op)" by simp
    show ?thesis
      using norm_dense_2q [OF assms(1) q(2) [OF b0] q(2) [OF b] q(3) [OF b0 b] matrix2_unitary [OF 2(1)]] 2
        nth [OF b0] nth [OF b] by (simp add: gate_action_def)
  next
    case 3
    have b: "unat (op_qubits op ! i) < n" if "i < 3" for i using q(2) [of i] 3 that by simp
    show ?thesis
      unfolding 3 gate_action_three
    proof (rule norm_permuted [OF assms(1)])
      fix x :: nat assume x: "x < 2 ^ n"
      show "toffoli (map unat (op_qubits op) ! 0) (map unat (op_qubits op) ! 1) (map unat (op_qubits op) ! 2) x < 2 ^ n"
        using put_bit_less [OF x b [of 2]] x nth [of 2] 3 by (simp add: toffoli_def)
      have "unat (op_qubits op ! 2) \<noteq> unat (op_qubits op ! 0)" "unat (op_qubits op ! 2) \<noteq> unat (op_qubits op ! 1)"
        using q(3) [of 2 0] q(3) [of 2 1] 3 by simp_all
      then show "toffoli (map unat (op_qubits op) ! 0) (map unat (op_qubits op) ! 1) (map unat (op_qubits op) ! 2)
        (toffoli (map unat (op_qubits op) ! 0) (map unat (op_qubits op) ! 1) (map unat (op_qubits op) ! 2) x) = x"
        using nth [of 0] nth [of 1] nth [of 2] 3
        by (intro bit_eqI) (auto simp: toffoli_def bit_put_bit)
    qed
  next
    case 4
    have b: "unat (op_qubits op ! i) < n" if "i < 3" for i using q(2) [of i] 4 that by simp
    show ?thesis
      unfolding 4 gate_action_three
    proof (rule norm_permuted [OF assms(1)])
      fix x :: nat assume x: "x < 2 ^ n"
      show "fredkin (map unat (op_qubits op) ! 0) (map unat (op_qubits op) ! 1) (map unat (op_qubits op) ! 2) x < 2 ^ n"
        using put_bit_less [OF put_bit_less [OF x b [of 2]] b [of 1]] x nth [of 1] nth [of 2] 4 by (simp add: fredkin_def)
      have "unat (op_qubits op ! 2) \<noteq> unat (op_qubits op ! 0)" "unat (op_qubits op ! 1) \<noteq> unat (op_qubits op ! 0)"
        using q(3) [of 2 0] q(3) [of 1 0] 4 by simp_all
      then show "fredkin (map unat (op_qubits op) ! 0) (map unat (op_qubits op) ! 1) (map unat (op_qubits op) ! 2)
        (fredkin (map unat (op_qubits op) ! 0) (map unat (op_qubits op) ! 1) (map unat (op_qubits op) ! 2) x) = x"
        using nth [of 0] nth [of 1] nth [of 2] 4
        by (intro bit_eqI) (auto simp: fredkin_def bit_put_bit)
    qed
  next
    case 5
    then show ?thesis by (simp add: gate_action_def)
  qed
qed

end
