(* ===== verification/SvMeasure.thy ===== *)
theory SvMeasure
  imports SvGates
begin

text \<open>
  Measurement and reset of the state-vector backend: collapse to the normalised branch, drawn with
  the branch's weight, and what a reset leaves.
\<close>

section \<open>Weights of the branches\<close>

definition branch_weight :: "complex list \<Rightarrow> nat \<Rightarrow> bool \<Rightarrow> real" where
  "branch_weight st q b = (\<Sum>x \<in> {x. x < length st \<and> bit x q = b}. (cmod (st ! x))\<^sup>2)"

definition branch :: "complex list \<Rightarrow> nat \<Rightarrow> bool \<Rightarrow> complex list" where
  "branch st q b = map (\<lambda>x. if bit x q = b then st ! x else 0) [0..<length st]"

lemma branch_weight_nonneg: "0 \<le> branch_weight st q b"
  by (simp add: branch_weight_def sum_nonneg)

lemma branch_weights_sum: "branch_weight st q False + branch_weight st q True = norm_sq st"
proof -
  have "{..<length st} = {x. x < length st \<and> bit x q = False} \<union> {x. x < length st \<and> bit x q = True}" by auto
  then show ?thesis
    unfolding norm_sq_def branch_weight_def by (subst sum.union_disjoint [symmetric]) auto
qed

lemma length_branch [simp]: "length (branch st q b) = length st"
  by (simp add: branch_def)

lemma norm_branch: "norm_sq (branch st q b) = branch_weight st q b"
proof -
  have "(\<Sum>x<length st. (cmod (branch st q b ! x))\<^sup>2) =
      (\<Sum>x<length st. if bit x q = b then (cmod (st ! x))\<^sup>2 else 0)"
    by (intro sum.cong) (auto simp: branch_def)
  also have "\<dots> = branch_weight st q b"
    unfolding branch_weight_def by (simp add: sum.If_cases Collect_conj_eq lessThan_def)
  finally show ?thesis by (simp add: norm_sq_def)
qed

lemma sum_list_norm: "sum_list (map (\<lambda>a. (cmod a)\<^sup>2) st) = norm_sq st"
  by (simp add: norm_sq_def sum_list_sum_nth atLeast0LessThan)

lemma prob_zero_weight: "length st = 2 ^ n \<Longrightarrow> prob_zero st n q = branch_weight st q False"
proof -
  assume l: "length st = 2 ^ n"
  have "(i AND push_bit q 1 = 0) = (\<not> bit i q)" for i :: nat using and_exp_bit [of i q] by blast
  then have "prob_zero st n q = sum (\<lambda>i. (cmod (st ! i))\<^sup>2) (set (filter (\<lambda>i. \<not> bit i q) [0..<2 ^ n]))"
    unfolding prob_zero_def by (subst sum_list_distinct_conv_sum_set [symmetric]) simp_all
  moreover have "set (filter (\<lambda>i. \<not> bit i q) [0..<2 ^ n]) = {x. x < 2 ^ n \<and> bit x q = False}" by auto
  ultimately show ?thesis by (simp add: branch_weight_def l)
qed

lemma collapse_branch: "collapse st q (of_bool b) = branch st q b"
proof -
  have "(drop_bit q i AND 1 \<noteq> of_bool b) = (bit i q \<noteq> b)" for i :: nat
    by (auto simp: and_one_eq mod_2_eq_odd bit_iff_odd_drop_bit)
  then show ?thesis
    by (auto simp: collapse_def branch_def nth_enumerate_eq intro!: nth_equalityI)
qed

definition scaled :: "real \<Rightarrow> complex list \<Rightarrow> complex list" where
  "scaled c st = map (\<lambda>a. a * of_real c) st"

lemma norm_scaled: "norm_sq (scaled c st) = c\<^sup>2 * norm_sq st"
  by (simp add: norm_sq_def scaled_def norm_mult power_mult_distrib sum_distrib_left mult.commute)

lemma renormalize_scaled: "0 < norm_sq st \<Longrightarrow> renormalize st = scaled (1 / sqrt (norm_sq st)) st"
  by (simp add: renormalize_def sum_list_norm scaled_def)

lemma norm_renormalized: "0 < norm_sq st \<Longrightarrow> norm_sq (scaled (1 / sqrt (norm_sq st)) st) = 1"
  by (simp add: norm_scaled power_divide)

lemma length_scaled [simp]: "length (scaled c st) = length st"
  by (simp add: scaled_def)

lemma branch_idem: "branch (scaled c (branch st q b)) q b = scaled c (branch st q b)"
  "branch_weight (scaled c (branch st q b)) q b = norm_sq (scaled c (branch st q b))"
proof -
  show e: "branch (scaled c (branch st q b)) q b = scaled c (branch st q b)"
    by (rule nth_equalityI) (auto simp: branch_def scaled_def)
  show "branch_weight (scaled c (branch st q b)) q b = norm_sq (scaled c (branch st q b))"
    using norm_branch [of "scaled c (branch st q b)" q b] by (simp add: e)
qed

definition unit_draw :: "real \<Rightarrow> bool" where
  "unit_draw x \<longleftrightarrow> 0 \<le> x \<and> x < 1"

definition measured :: "complex list \<Rightarrow> nat \<Rightarrow> bool \<Rightarrow> complex list" where
  "measured st q b = scaled (1 / sqrt (branch_weight st q b)) (branch st q b)"

lemma measure_spec:
  assumes "length st = 2 ^ n" "q < 64" "norm_sq st = 1" "unit_draw (shd (fst r))"
  shows "let b = (branch_weight st q False \<le> shd (fst r)) in
    0 < branch_weight st q b \<and>
    projective_measure st n q r = Done (of_bool b, measured st q b, stl (fst r), snd r)"
proof -
  let ?x = "shd (fst r)"
  define b where "b = (branch_weight st q False \<le> ?x)"
  have w: "0 < branch_weight st q b"
    using branch_weights_sum [of st q] assms(3,4) by (cases b) (auto simp: b_def unit_draw_def)
  have "(if ?x < prob_zero st n q then 0 else 1) = (of_bool b :: nat)"
    by (simp add: prob_zero_weight [OF assms(1)] b_def not_less [symmetric])
  then have "projective_measure st n q r = Done (of_bool b, renormalize (branch st q b), stl (fst r), snd r)"
    using assms(2) unfolding projective_measure_def draw_unit_def Let_def
    by (simp add: collapse_branch del: of_bool_eq_iff)
  moreover have "renormalize (branch st q b) = measured st q b"
    using w by (simp add: renormalize_scaled norm_branch measured_def)
  ultimately show ?thesis using w by (simp add: Let_def b_def [symmetric])
qed

lemma measured_facts:
  assumes "0 < branch_weight st q b"
  shows "norm_sq (measured st q b) = 1" "length (measured st q b) = length st"
    "branch_weight (measured st q b) q b = 1" "branch_weight (measured st q b) q (\<not> b) = 0"
    "measured (measured st q b) q b = measured st q b"
proof -
  show n: "norm_sq (measured st q b) = 1"
    using norm_renormalized [of "branch st q b"] assms by (simp add: norm_branch measured_def)
  show "length (measured st q b) = length st" by (simp add: measured_def)
  show w: "branch_weight (measured st q b) q b = 1"
    using n branch_idem(2) [of "1 / sqrt (branch_weight st q b)" st q b] by (simp add: measured_def)
  show "branch_weight (measured st q b) q (\<not> b) = 0"
    using branch_weights_sum [of "measured st q b" q] n w by (cases b) simp_all
  show "measured (measured st q b) q b = measured st q b"
    unfolding measured_def [of "measured st q b"] w
    by (simp add: measured_def branch_idem(1)) (simp add: scaled_def)
qed

section \<open>Reset\<close>

text \<open>A reset leaves the weight of a branch on the indices with the bit clear.\<close>

definition reset_branch :: "complex list \<Rightarrow> nat \<Rightarrow> bool \<Rightarrow> complex list" where
  "reset_branch st q b = map (\<lambda>x. if bit x q then 0
     else st ! put_bit q b x / of_real (sqrt (branch_weight st q b))) [0..<length st]"

lemma flip_measured:
  assumes "length st = 2 ^ n" "q < n"
  shows "dense_1q q gate_x (measured st q True) = reset_branch st q True"
    "measured st q False = reset_branch st q False"
proof -
  have "measured st q b ! x = (if bit x q = b then st ! x / of_real (sqrt (branch_weight st q b)) else 0)"
    if "x < 2 ^ n" for x b
    using that assms(1) by (simp add: measured_def scaled_def branch_def of_real_divide)
  note m = this
  show "dense_1q q gate_x (measured st q True) = reset_branch st q True"
  proof (rule nth_equalityI)
    fix x assume "x < length (dense_1q q gate_x (measured st q True))"
    then have x: "x < 2 ^ n" using assms(1) by (simp add: measured_def)
    show "dense_1q q gate_x (measured st q True) ! x = reset_branch st q True ! x"
      using x m put_bit_less [OF x assms(2)] assms(1) put_bit_same [of q x]
      by (auto simp: dense_1q_def reset_branch_def gate_x_def bit_put_bit measured_def [of st q True, THEN arg_cong [of _ _ length]])
  qed (simp add: reset_branch_def measured_def)
  show "measured st q False = reset_branch st q False"
  proof (rule nth_equalityI)
    fix x assume "x < length (measured st q False)"
    then have x: "x < 2 ^ n" using assms(1) by (simp add: measured_def)
    then show "measured st q False ! x = reset_branch st q False ! x"
      using m assms(1) put_bit_same [of q x] by (auto simp: reset_branch_def)
  qed (simp add: reset_branch_def measured_def)
qed

lemma norm_reset_branch:
  assumes "length st = 2 ^ n" "q < n" "0 < branch_weight st q b"
  shows "norm_sq (reset_branch st q b) = 1" "branch_weight (reset_branch st q b) q True = 0"
proof -
  have n: "norm_sq (measured st q b) = 1" using measured_facts(1) [OF assms(3)] .
  have l: "length (measured st q b) = 2 ^ n" using measured_facts(2) [OF assms(3)] assms(1) by simp
  show "norm_sq (reset_branch st q b) = 1"
    using flip_measured [OF assms(1,2)] norm_dense_1q [OF l assms(2), of gate_x] n gate1q_unitary(2) by (cases b) auto
  show "branch_weight (reset_branch st q b) q True = 0"
    by (simp add: branch_weight_def reset_branch_def)
qed

lemma reset_spec:
  assumes "length st = 2 ^ n" "q < n" "n \<le> 64" "norm_sq st = 1" "unit_draw (shd (fst r))"
    and "\<not> analytic \<or> reset_is_deterministic st n q = Done True"
  shows "let b = (branch_weight st q False \<le> shd (fst r)) in
    0 < branch_weight st q b \<and> apply_reset st n q r analytic = Done (reset_branch st q b, stl (fst r), snd r)"
proof -
  define b where "b = (branch_weight st q False \<le> shd (fst r))"
  have w: "0 < branch_weight st q b"
    and m: "projective_measure st n q r = Done (of_bool b, measured st q b, stl (fst r), snd r)"
    using measure_spec [OF assms(1) less_le_trans [OF assms(2,3)] assms(4,5)] by (simp_all add: Let_def b_def)
  have l: "length (measured st q b) = 2 ^ n" using measured_facts(2) [OF w] assms(1) by simp
  have "apply_reset st n q r analytic = Done (reset_branch st q b, stl (fst r), snd r)"
    using assms(6) flip_measured [OF assms(1,2)] apply_1q_dense [OF l assms(2), of gate_x]
    by (cases b) (auto simp: apply_reset_def m or_panic_def)
  then show ?thesis using w by (simp add: Let_def b_def [symmetric])
qed

text \<open>Equality in the Cauchy-Schwarz inequality: the two vectors are parallel.\<close>

lemma cauchy_equality:
  fixes u v :: "nat \<Rightarrow> complex"
  assumes "finite C" "(cmod (\<Sum>x \<in> C. v x * cnj (u x)))\<^sup>2 = (\<Sum>x \<in> C. (cmod (u x))\<^sup>2) * (\<Sum>x \<in> C. (cmod (v x))\<^sup>2)" "x \<in> C"
  shows "of_real (\<Sum>x \<in> C. (cmod (u x))\<^sup>2) * v x = (\<Sum>x \<in> C. v x * cnj (u x)) * u x"
proof -
  define A B z where "A = (\<Sum>x \<in> C. (cmod (u x))\<^sup>2)" and "B = (\<Sum>x \<in> C. (cmod (v x))\<^sup>2)"
    and "z = (\<Sum>x \<in> C. v x * cnj (u x))"
  note sq = complex_norm_square
  have A: "complex_of_real A = (\<Sum>x \<in> C. u x * cnj (u x))" by (simp only: A_def of_real_sum sq)
  have B: "complex_of_real B = (\<Sum>x \<in> C. v x * cnj (v x))" by (simp only: B_def of_real_sum sq)
  have zc: "cnj z = (\<Sum>x \<in> C. u x * cnj (v x))" by (simp add: z_def mult.commute)
  have "complex_of_real (\<Sum>x \<in> C. (cmod (of_real A * v x - z * u x))\<^sup>2) =
      (\<Sum>x \<in> C. of_real A * of_real A * (v x * cnj (v x)) - of_real A * cnj z * (v x * cnj (u x))
        - of_real A * z * (u x * cnj (v x)) + z * cnj z * (u x * cnj (u x)))"
    unfolding of_real_sum sq by (intro sum.cong refl) (simp add: algebra_simps)
  also have "\<dots> = of_real A * of_real A * of_real B - of_real A * cnj z * z - of_real A * z * cnj z + z * cnj z * of_real A"
    unfolding sum.distrib sum_subtractf sum_distrib_left [symmetric] A [symmetric] B [symmetric] zc [symmetric]
      z_def [symmetric] ..
  also have "\<dots> = of_real A * (of_real A * of_real B - z * cnj z)" by (simp add: algebra_simps)
  also have "z * cnj z = of_real A * of_real B"
    using assms(2) by (simp only: sq [symmetric] z_def A_def B_def of_real_mult)
  finally have "(\<Sum>x \<in> C. (cmod (of_real A * v x - z * u x))\<^sup>2) = 0" by (simp flip: of_real_sum)
  then have "(cmod (of_real A * v x - z * u x))\<^sup>2 = 0"
    using assms(1,3) by (subst (asm) sum_nonneg_eq_0_iff) auto
  then show ?thesis by (simp add: A_def z_def)
qed

lemma weights_clear:
  assumes "length st = 2 ^ n" "q < n"
  shows "branch_weight st q False = (\<Sum>x \<in> clear_at n q. (cmod (st ! x))\<^sup>2)"
    "branch_weight st q True = (\<Sum>x \<in> clear_at n q. (cmod (st ! put_bit q True x))\<^sup>2)"
proof -
  show f: "branch_weight st q False = (\<Sum>x \<in> clear_at n q. (cmod (st ! x))\<^sup>2)"
    by (simp add: branch_weight_def clear_at_def assms(1))
  have "norm_sq st = (\<Sum>x \<in> clear_at n q. (cmod (st ! x))\<^sup>2 + (cmod (st ! put_bit q True x))\<^sup>2)"
    unfolding norm_sq_def assms(1) by (rule sum_bit_split [OF assms(2)])
  then show "branch_weight st q True = (\<Sum>x \<in> clear_at n q. (cmod (st ! put_bit q True x))\<^sup>2)"
    using branch_weights_sum [of st q] f by (simp add: sum.distrib)
qed

lemma purity_value:
  assumes "length st = 2 ^ n" "q < n"
  shows "reduced_purity st n q = Done ((branch_weight st q False)\<^sup>2 + (branch_weight st q True)\<^sup>2 +
    2 * (cmod (\<Sum>x \<in> clear_at n q. st ! put_bit q True x * cnj (st ! x)))\<^sup>2)"
proof -
  have z: "(i AND push_bit q 1 = 0) = (\<not> bit i q)" for i :: nat using and_exp_bit [of i q] by blast
  have clear: "set (filter (\<lambda>i. \<not> bit i q) [0..<2 ^ n]) = clear_at n q" by (auto simp: clear_at_def)
  have sums: "sum_list (map f (filter P [0..<2 ^ n])) = sum f (set (filter P [0..<2 ^ n]))"
    for f :: "nat \<Rightarrow> 'z :: comm_monoid_add" and P by (rule sum_list_distinct_conv_sum_set) simp
  have "set (filter (\<lambda>i. bit i q) [0..<2 ^ n]) = {x. x < 2 ^ n \<and> bit x q = True}" by auto
  then have r11: "sum_list (map (\<lambda>i. (cmod (st ! i))\<^sup>2) (filter (\<lambda>i. i AND push_bit q 1 \<noteq> 0) [0..<2 ^ n])) =
      branch_weight st q True"
    by (simp only: z not_not sums branch_weight_def assms(1))
  have r00: "sum_list (map (\<lambda>i. (cmod (st ! i))\<^sup>2) (filter (\<lambda>i. i AND push_bit q 1 = 0) [0..<2 ^ n])) =
      branch_weight st q False"
    by (simp only: z sums clear weights_clear(1) [OF assms])
  have "sum_list (map (\<lambda>i. st ! i * cnj (st ! (i OR push_bit q 1))) (filter (\<lambda>i. i AND push_bit q 1 = 0) [0..<2 ^ n])) =
      (\<Sum>x \<in> clear_at n q. st ! x * cnj (st ! put_bit q True x))"
    by (simp only: z sums clear or_exp_set_bit put_bit_def if_True)
  also have "\<dots> = cnj (\<Sum>x \<in> clear_at n q. st ! put_bit q True x * cnj (st ! x))" by (simp add: mult.commute)
  finally have "cmod (sum_list (map (\<lambda>i. st ! i * cnj (st ! (i OR push_bit q 1)))
      (filter (\<lambda>i. i AND push_bit q 1 = 0) [0..<2 ^ n]))) =
      cmod (\<Sum>x \<in> clear_at n q. st ! put_bit q True x * cnj (st ! x))"
    by (simp only: complex_mod_cnj)
  then show ?thesis
    unfolding reduced_purity_def Let_def push_bit_of_1 [of n] using assms(2) r00 r11
    by (simp only: power2_eq_square not_le [symmetric] simp_thms if_False)
qed

text \<open>On an unentangled qubit the two outcomes leave the same state, up to a global phase.\<close>

lemma pure_reset:
  assumes "length st = 2 ^ n" "q < n" "norm_sq st = 1" "reduced_purity st n q = Done 1"
    "0 < branch_weight st q False" "0 < branch_weight st q True"
  shows "\<exists>c. cmod c = 1 \<and> reset_branch st q True = map (\<lambda>a. c * a) (reset_branch st q False)"
proof -
  define A B z where "A = branch_weight st q False" and "B = branch_weight st q True"
    and "z = (\<Sum>x \<in> clear_at n q. st ! put_bit q True x * cnj (st ! x))"
  have AB: "A + B = 1" using branch_weights_sum [of st q] assms(3) by (simp add: A_def B_def)
  have "A\<^sup>2 + B\<^sup>2 + 2 * (cmod z)\<^sup>2 = 1"
    using purity_value [OF assms(1,2)] assms(4) by (simp add: A_def B_def z_def)
  moreover have "1 = A\<^sup>2 + B\<^sup>2 + 2 * (A * B)" using AB by (metis power_one power2_sum mult.assoc)
  ultimately have z2: "(cmod z)\<^sup>2 = A * B" by simp
  define c where "c = z / of_real (sqrt A * sqrt B)"
  have pos: "0 < A" "0 < B" using assms(5,6) by (simp_all add: A_def B_def)
  have "(cmod c)\<^sup>2 = 1"
    using z2 pos by (simp add: c_def norm_divide norm_mult power_divide power_mult_distrib)
  then have c1: "cmod c = 1" by (simp add: power2_eq_1_iff) (smt (verit) norm_ge_zero)
  have par: "of_real A * st ! put_bit q True x = z * st ! x" if "x \<in> clear_at n q" for x
    using cauchy_equality [of "clear_at n q" "\<lambda>x. st ! put_bit q True x" "(!) st" x] z2 that
    unfolding A_def B_def z_def weights_clear [OF assms(1,2)] by simp
  have "reset_branch st q True = map (\<lambda>a. c * a) (reset_branch st q False)"
  proof (rule nth_equalityI)
    fix x assume "x < length (reset_branch st q True)"
    then have x: "x < length st" by (simp add: reset_branch_def)
    show "reset_branch st q True ! x = map (\<lambda>a. c * a) (reset_branch st q False) ! x"
    proof (cases "bit x q")
      case False
      then have cl: "x \<in> clear_at n q" using x assms(1) by (simp add: clear_at_def)
      have same: "put_bit q False x = x" using put_bit_same [of q x] False by simp
      have "st ! put_bit q True x = z * st ! x / of_real A"
        using par [OF cl] pos(1) by (simp add: field_simps)
      moreover have "complex_of_real A = of_real (sqrt A) * of_real (sqrt A)"
        using pos(1) by (simp flip: of_real_mult)
      ultimately show ?thesis
        using x False pos same by (simp add: reset_branch_def A_def [symmetric] B_def [symmetric] c_def)
    qed (use x in \<open>simp add: reset_branch_def\<close>)
  qed (simp add: reset_branch_def)
  then show ?thesis using c1 by blast
qed

section \<open>Properties\<close>

text \<open>C14: Measurement obeys the Born rule and is repeatable: on a normalised state with a draw from [0, 1)
  the outcome is 0 exactly when the draw is below the weight of the amplitudes with the qubit clear;
  the branch measured has positive weight and the new state is that branch, normalised; measuring the
  qubit again gives the same outcome for every draw and leaves the state alone.\<close>

theorem measurement_born:
  assumes "length st = 2 ^ n" "q < n" "n \<le> 64" "norm_sq st = 1" "unit_draw (shd (fst r))" "unit_draw (shd (fst r'))"
  shows "let b = (branch_weight st q False \<le> shd (fst r)); st' = measured st q b in
    projective_measure st n q r = Done (of_bool b, st', stl (fst r), snd r) \<and>
    0 < branch_weight st q b \<and> length st' = 2 ^ n \<and> norm_sq st' = 1 \<and>
    (\<forall>x < 2 ^ n. st' ! x = (if bit x q = b then st ! x / of_real (sqrt (branch_weight st q b)) else 0)) \<and>
    projective_measure st' n q r' = Done (of_bool b, st', stl (fst r'), snd r')"
proof -
  have q: "q < 64" using assms(2,3) by simp
  define b where "b = (branch_weight st q False \<le> shd (fst r))"
  have w: "0 < branch_weight st q b"
    and m: "projective_measure st n q r = Done (of_bool b, measured st q b, stl (fst r), snd r)"
    using measure_spec [OF assms(1) q assms(4,5)] by (simp_all add: Let_def b_def)
  note f = measured_facts [OF w]
  have l: "length (measured st q b) = 2 ^ n" using f(2) assms(1) by simp
  have "branch_weight (measured st q b) q False = of_bool (\<not> b)" using f(3,4) by (cases b) simp_all
  then have "(branch_weight (measured st q b) q False \<le> shd (fst r')) = b"
    using assms(6) by (cases b) (auto simp: unit_draw_def)
  with measure_spec [OF l q f(1) assms(6)]
  have "projective_measure (measured st q b) n q r' = Done (of_bool b, measured st q b, stl (fst r'), snd r')"
    by (simp add: Let_def f(5))
  moreover have "\<forall>x < 2 ^ n. measured st q b ! x = (if bit x q = b then st ! x / of_real (sqrt (branch_weight st q b)) else 0)"
    using assms(1) by (simp add: measured_def scaled_def branch_def of_real_divide)
  ultimately show ?thesis using w m f(1) l by (simp add: Let_def b_def [symmetric])
qed

lemma one_qubit_weights:
  "branch_weight [a, b] 0 False = (cmod a)\<^sup>2" "branch_weight [a, b] 0 True = (cmod b)\<^sup>2"
  "norm_sq [a, b] = (cmod a)\<^sup>2 + (cmod b)\<^sup>2"
proof -
  have "{x :: nat. x < 2 \<and> bit x 0 = False} = {0}" "{x :: nat. x < 2 \<and> bit x 0 = True} = {1}"
    by (auto simp: less_2_cases_iff bit_0)
  then show "branch_weight [a, b] 0 False = (cmod a)\<^sup>2" "branch_weight [a, b] 0 True = (cmod b)\<^sup>2"
    unfolding branch_weight_def list.size One_nat_def [symmetric] by (simp_all add: numeral_2_eq_2)
  show "norm_sq [a, b] = (cmod a)\<^sup>2 + (cmod b)\<^sup>2" by (simp add: norm_sq_def)
qed

theorem measurement_born_witness:
  "\<exists>st. projective_measure [3 / 5, 4 / 5] 1 0 (sconst (1 / 2), sconst 0) = Done (1, st, sconst (1 / 2), sconst 0) \<and>
     st ! 0 = 0 \<and> st ! 1 = 1"
proof -
  have "sqrt (16 / 25) = 4 / (5 :: real)" by (rule real_sqrt_unique) (simp_all add: power_divide)
  then have root: "complex_of_real (sqrt (16 / 25)) = 4 / 5" by (simp only:) simp
  show ?thesis
    using measurement_born [of "[3 / 5, 4 / 5]" 1 0 "(sconst (1 / 2), sconst 0)" "(sconst 0, sconst 0)"]
    by (simp add: Let_def one_qubit_weights unit_draw_def power_divide bit_0 root)
qed



end
