(* ===== verification/SvRun.thy ===== *)
theory SvRun
  imports SvMeasure
begin

text \<open>
  Trajectories of the state-vector backend: a valid circuit never panics and keeps a normalised
  state through gates, measurements, resets and conditions, and a unitary circuit computes the
  product of its gate matrices.
\<close>

definition draws_ok :: "rng \<Rightarrow> bool" where
  "draws_ok r \<longleftrightarrow> sset (fst r) \<subseteq> {0..<1}"

lemma draws_ok_shd: "draws_ok r \<Longrightarrow> unit_draw (shd (fst r))"
  using shd_sset [of "fst r"] by (auto simp: draws_ok_def unit_draw_def)

lemma draws_ok_stl: "draws_ok r \<Longrightarrow> draws_ok (stl (fst r), s)"
  using stl_sset [of _ "fst r"] by (auto simp: draws_ok_def)

definition valid_circuit :: "circuit_ir \<Rightarrow> bool" where
  "valid_circuit c \<longleftrightarrow> (\<forall>op \<in> set (cir_ops c). valid_op (unat (cir_qubits c)) op)"

text \<open>The invariant of a trajectory.\<close>

definition trajectory_ok :: "nat \<Rightarrow> nat \<Rightarrow> complex list \<times> u8 list \<times> rng \<Rightarrow> bool" where
  "trajectory_ok n c s = (case s of (st, bits, r) \<Rightarrow>
     length st = 2 ^ n \<and> norm_sq st = 1 \<and> length bits = c \<and> set bits \<subseteq> {0, 1} \<and> draws_ok r)"

definition no_panic :: "'a run \<Rightarrow> ('a \<Rightarrow> bool) \<Rightarrow> bool" where
  "no_panic x P = (case x of Done y \<Rightarrow> P y | Failed _ \<Rightarrow> True | Panicked \<Rightarrow> False)"

lemma no_panic_simps [simp]: "no_panic (Done y) P = P y" "no_panic (Failed e) P" "\<not> no_panic Panicked P"
  by (simp_all add: no_panic_def)

lemma no_panic_bind: "no_panic x P \<Longrightarrow> (\<And>y. P y \<Longrightarrow> no_panic (f y) Q) \<Longrightarrow> no_panic (bind_run x f) Q"
  by (cases x) auto

section \<open>One operation\<close>

lemma measure_ok:
  assumes "length st = 2 ^ n" "q < 64" "norm_sq st = 1" "draws_ok r"
  shows "no_panic (projective_measure st n q r)
    (\<lambda>(o', st', r'). o' \<in> {0, 1} \<and> length st' = 2 ^ n \<and> norm_sq st' = 1 \<and> draws_ok r')"
proof -
  define b where "b = (branch_weight st q False \<le> shd (fst r))"
  have w: "0 < branch_weight st q b"
    and m: "projective_measure st n q r = Done (of_bool b, measured st q b, stl (fst r), snd r)"
    using measure_spec [OF assms(1-3) draws_ok_shd [OF assms(4)]] by (simp_all add: Let_def b_def)
  show ?thesis
    using measured_facts [OF w] assms(1) draws_ok_stl [OF assms(4)] by (simp add: m)
qed

lemma reset_ok:
  assumes "length st = 2 ^ n" "q < n" "n \<le> 64" "norm_sq st = 1" "draws_ok r"
  shows "no_panic (apply_reset st n q r analytic) (\<lambda>(st', r'). length st' = 2 ^ n \<and> norm_sq st' = 1 \<and> draws_ok r')"
proof -
  obtain d where d: "reset_is_deterministic st n q = Done d"
    using purity_value [OF assms(1,2)] by (auto simp: reset_is_deterministic_def reset_is_deterministic_within_def)
  show ?thesis
  proof (cases "analytic \<and> \<not> d")
    case True
    then show ?thesis by (simp add: apply_reset_def d)
  next
    case False
    then have "\<not> analytic \<or> reset_is_deterministic st n q = Done True" using d by auto
    from reset_spec [OF assms(1-4) draws_ok_shd [OF assms(5)] this] norm_reset_branch [OF assms(1,2)] assms(1)
      draws_ok_stl [OF assms(5)]
    show ?thesis by (auto simp: Let_def reset_branch_def)
  qed
qed

lemma apply_gate_ok:
  assumes "length st = 2 ^ n" "n \<le> 64" "valid_op n op" "norm_sq st = 1" "draws_ok r"
  shows "no_panic (apply_gate st n op b r analytic) (\<lambda>(st', r'). length st' = 2 ^ n \<and> norm_sq st' = 1 \<and> draws_ok r')"
proof (cases "resolve_all b (op_params op)")
  case (Inl e)
  then show ?thesis by (simp add: apply_gate_def or_fail_def)
next
  case (Inr ps)
  show ?thesis
  proof (cases "unitary_gate (op_gate op)")
    case True
    then show ?thesis
      using apply_gate_action [OF assms(1-3) Inr True, of r analytic] norm_gate_action [OF assms(1,3) True, of ps] assms
      by simp
  next
    case False
    show ?thesis
    proof (cases "op_gate op = Reset")
      case True
      then have q: "qubit_of op 0 = Done (unat (op_qubits op ! 0))" "unat (op_qubits op ! 0) < n"
        using valid_op_nth [OF assms(3), of 0] by simp_all
      show ?thesis using reset_ok [OF assms(1) q(2) assms(2,4,5)] q(1) Inr True by (simp add: apply_gate_def or_fail_def)
    qed (use False Inr assms in \<open>cases "op_gate op"; simp add: apply_gate_def or_fail_def\<close>)
  qed
qed

lemma measured_qubit:
  "valid_op n op \<Longrightarrow> op_gate op = Measure \<Longrightarrow> qubit_of op 0 = Done (unat (op_qubits op ! 0)) \<and> unat (op_qubits op ! 0) < n"
  by (cases "op_qubits op") (auto simp: valid_op_def qubit_of_def index_of_def)

lemma set_cbit_ok: "set bits \<subseteq> {0, 1} \<Longrightarrow> v \<in> {0, 1} \<Longrightarrow> set (set_cbit c v bits) \<subseteq> {0, 1}"
  "length (set_cbit c v bits) = length bits"
  using set_update_subset_insert [of bits _ v] by (auto simp: set_cbit_def split: option.split)

lemma evolve_op_ok:
  assumes "n \<le> 64" "valid_op n op" "trajectory_ok n c s"
  shows "no_panic (evolve_op mode n b analytic op s) (trajectory_ok n c)"
proof -
  obtain st bits r where s: "s = (st, bits, r)" by (cases s)
  have ok: "length st = 2 ^ n" "norm_sq st = 1" "length bits = c" "set bits \<subseteq> {0, 1}" "draws_ok r"
    using assms(3) by (simp_all add: s trajectory_ok_def)
  show ?thesis
  proof (cases "condition_satisfied op bits \<and> op_gate op = Measure \<and> mode = Collapse")
    case True
    then have q: "qubit_of op 0 = Done (unat (op_qubits op ! 0))" "unat (op_qubits op ! 0) < 64"
      using measured_qubit [OF assms(2)] assms(1) by auto
    have "no_panic (bind_run (projective_measure st n (unat (op_qubits op ! 0)) r)
        (\<lambda>(outcome, st', r'). Done (st', set_cbit (op_cbit op) (of_nat outcome) bits, r'))) (trajectory_ok n c)"
    proof (rule no_panic_bind [OF measure_ok [OF ok(1) q(2) ok(2,5)]])
      fix y :: "nat \<times> complex list \<times> rng"
      assume "case y of (o', st', r') \<Rightarrow> o' \<in> {0, 1} \<and> length st' = 2 ^ n \<and> norm_sq st' = 1 \<and> draws_ok r'"
      then show "no_panic (case y of (outcome, st', r') \<Rightarrow> Done (st', set_cbit (op_cbit op) (of_nat outcome) bits, r'))
          (trajectory_ok n c)"
        using set_cbit_ok(1) [OF ok(4), of "of_nat (fst y)" "op_cbit op"] set_cbit_ok(2) ok(3)
        by (cases y) (auto simp: trajectory_ok_def)
    qed
    then show ?thesis using True q(1) by (simp add: s evolve_op_def)
  next
    case False
    have "no_panic (bind_run (apply_gate st n op b r analytic) (\<lambda>(st', r'). Done (st', bits, r'))) (trajectory_ok n c)"
      by (rule no_panic_bind [OF apply_gate_ok [OF ok(1) assms(1,2) ok(2,5)]]) (use ok(3,4) in \<open>auto simp: trajectory_ok_def\<close>)
    then show ?thesis using False assms(3) by (cases mode) (auto simp: s evolve_op_def)
  qed
qed

lemma evolve_ops_ok:
  "n \<le> 64 \<Longrightarrow> \<forall>op \<in> set ops. valid_op n op \<Longrightarrow> trajectory_ok n c s \<Longrightarrow>
     no_panic (evolve_ops mode n b analytic ops s) (trajectory_ok n c)"
proof (induction ops arbitrary: s)
  case (Cons op ops)
  have "no_panic (evolve_op mode n b analytic op s) (trajectory_ok n c)"
    using evolve_op_ok Cons.prems by simp
  then show ?case using Cons.IH Cons.prems by (auto intro: no_panic_bind)
qed simp

section \<open>Whole trajectories\<close>

lemma zero_state_nth: "x < 2 ^ n \<Longrightarrow> sv_zero_state n ! x = (if x = 0 then 1 else 0)"
  by (cases x) (simp_all add: sv_zero_state_def)

lemma sv_zero_state_ok: "length (sv_zero_state n) = 2 ^ n" "norm_sq (sv_zero_state n) = 1"
proof -
  show l: "length (sv_zero_state n) = 2 ^ n" by (simp add: sv_zero_state_def)
  have "norm_sq (sv_zero_state n) = (\<Sum>x<(2 :: nat) ^ n. if x = 0 then 1 else 0)"
    unfolding norm_sq_def l by (intro sum.cong) (auto simp: zero_state_nth)
  then show "norm_sq (sv_zero_state n) = 1" by simp
qed

lemma capacity_check_cases:
  "capacity_check h n sampling =
     (if 64 \<le> n then Failed (Unsupported (Too_many_qubits n))
      else if hm_oversubscribe h then Done ()
      else case hm_available h of None \<Rightarrow> Done ()
      | Some a \<Rightarrow> if a < 2 ^ unat n * 16 then Failed (Unsupported (Not_enough_memory n (2 ^ unat n * 16) a)) else Done ())"
proof -
  have "required_bytes n sampling = Some (2 ^ unat n * 16)" if "\<not> 64 \<le> n"
  proof -
    have n: "unat n < 64" using that by (simp add: word_le_nat_alt)
    then have "(2 :: nat) ^ unat n \<le> 2 ^ 63" by (intro power_increasing) auto
    then have "(2 :: nat) ^ unat n * 16 < 2 ^ 128" by simp
    then show ?thesis using n by (simp add: required_bytes_def BYTES_PER_AMPLITUDE_def Let_def)
  qed
  then show ?thesis
    by (simp add: capacity_check_def MAX_QUBITS_def or_panic_def split: option.split)
qed

lemma capacity_Done: "capacity_check h n sampling = Done () \<Longrightarrow> unat n < 64"
  by (auto simp: capacity_check_cases word_le_nat_alt not_le split: if_splits)

lemma evolve_once_ok:
  assumes "valid_circuit c" "draws_ok r"
  shows "no_panic (evolve_once h c b cfg r analytic) (trajectory_ok (unat (cir_qubits c)) (unat (cir_cbits c)))"
  unfolding evolve_once_def
proof (rule no_panic_bind [where P = "\<lambda>_. unat (cir_qubits c) < 64"])
  show "no_panic (capacity_check h (cir_qubits c) (cfg_shots cfg \<noteq> None)) (\<lambda>_. unat (cir_qubits c) < 64)"
    by (auto simp: capacity_check_cases word_le_nat_alt not_le split: option.split)
  fix u :: unit assume n: "unat (cir_qubits c) < 64"
  have "trajectory_ok (unat (cir_qubits c)) (unat (cir_cbits c))
      (sv_zero_state (unat (cir_qubits c)), replicate (unat (cir_cbits c)) 0, r)"
    using sv_zero_state_ok assms(2) by (auto simp: trajectory_ok_def)
  then show "no_panic (let n = unat (cir_qubits c) in evolve_ops (cfg_mode cfg) n b analytic (cir_ops c)
      (sv_zero_state n, replicate (unat (cir_cbits c)) 0, r)) (trajectory_ok (unat (cir_qubits c)) (unat (cir_cbits c)))"
    unfolding Let_def by (intro evolve_ops_ok) (use n assms(1) in \<open>auto simp: valid_circuit_def\<close>)
qed

text \<open>Unitary circuits: barriers and skipped measurements aside, only unitary gates; a condition is
  decided by the register of zeros.\<close>

definition runs :: "nat \<Rightarrow> gate_op \<Rightarrow> bool" where
  "runs cbits op = (condition_satisfied op (replicate cbits 0) \<and> op_gate op \<notin> {Measure, Barrier})"

definition op_action :: "binding \<Rightarrow> gate_op \<Rightarrow> complex list \<Rightarrow> complex list" where
  "op_action b op = gate_action (op_gate op) (projr (resolve_all b (op_params op))) (map unat (op_qubits op))"

definition unitary_ops :: "binding \<Rightarrow> gate_op list \<Rightarrow> bool" where
  "unitary_ops b ops \<longleftrightarrow> (\<forall>op \<in> set ops. op_gate op \<in> {Measure, Barrier} \<or>
     unitary_gate (op_gate op) \<and> (\<exists>ps. resolve_all b (op_params op) = Inr ps))"

lemma evolve_unitary:
  assumes "n \<le> 64"
  shows "\<forall>op \<in> set ops. valid_op n op \<Longrightarrow> unitary_ops b ops \<Longrightarrow> length st = 2 ^ n \<Longrightarrow>
    evolve_ops Skip n b analytic ops (st, replicate c 0, r) =
    Done (fold (op_action b) (filter (runs c) ops) st, replicate c 0, r)"
proof (induction ops arbitrary: st)
  case (Cons op ops)
  have tail: "unitary_ops b ops" using Cons.prems(2) by (simp add: unitary_ops_def)
  show ?case
  proof (cases "runs c op")
    case True
    then obtain ps where u: "unitary_gate (op_gate op)" "resolve_all b (op_params op) = Inr ps"
      using Cons.prems(2) by (auto simp: unitary_ops_def runs_def)
    have "apply_gate st n op b r analytic = Done (op_action b op st, r)"
      using apply_gate_action [OF Cons.prems(3) assms _ u(2,1)] Cons.prems(1) by (simp add: op_action_def u(2))
    then have "evolve_op Skip n b analytic op (st, replicate c 0, r) = Done (op_action b op st, replicate c 0, r)"
      using True by (simp add: evolve_op_def runs_def)
    then show ?thesis
      using Cons.IH [of "op_action b op st"] Cons.prems tail True by (simp add: op_action_def)
  next
    case False
    then have "evolve_op Skip n b analytic op (st, replicate c 0, r) = Done (st, replicate c 0, r)"
      by (auto simp: evolve_op_def runs_def)
    then show ?thesis using Cons.IH Cons.prems tail False by simp
  qed
qed simp

section \<open>Properties\<close>

text \<open>C1: A gate of the state-vector backend is its matrix: a valid operation of any supported unitary gate
  whose parameters resolve applies, on every amplitude, the row of the gate's matrix selected by the bits
  of its qubits, or the permutation of the Toffoli and Fredkin gates; no draw is used, the norm is kept,
  and the specialised kernels (diagonal, controlled, swap, middle block, either order of the qubits) are
  never told apart.\<close>

theorem gates_are_matrices:
  assumes "length st = 2 ^ n" "n \<le> 64" "valid_op n op" "resolve_all b (op_params op) = Inr ps"
    "unitary_gate (op_gate op)"
  shows "let st' = gate_action (op_gate op) ps (map unat (op_qubits op)) st in
    apply_gate st n op b r analytic = Done (st', r) \<and> length st' = 2 ^ n \<and> norm_sq st' = norm_sq st"
  using apply_gate_action [OF assms] norm_gate_action [OF assms(1,3,5)] assms(1) by (simp add: Let_def)

theorem gates_are_matrices_witness:
  "apply_gate [1, 0, 0, 0] 2 \<lparr>op_gate = CX, op_qubits = [1, 0], op_params = [], op_cbit = None, op_condition = None\<rparr>
     [] (sconst 0, sconst 0) False = Done (dense_2q 1 0 gate_cx [1, 0, 0, 0], sconst 0, sconst 0)"
  using gates_are_matrices [of "[1, 0, 0, 0]" 2
      "\<lparr>op_gate = CX, op_qubits = [1, 0], op_params = [], op_cbit = None, op_condition = None\<rparr>" "[]" "[]"]
  by (simp add: valid_op_def Let_def gate_action_def)

text \<open>C11: A trajectory never panics and stays normalised: on a circuit whose operations name enough distinct
  qubits of the register and carry enough parameters, with draws from [0, 1), the trajectory ends in an error or in a state of \<open>2^n\<close>
  amplitudes of norm 1 and a classical register of the declared width holding zeros and ones, whatever
  gates, measurements, resets and conditions it holds.\<close>

theorem trajectory_invariant:
  assumes "valid_circuit c" "draws_ok r"
  shows "case evolve_once h c b cfg r analytic of
      Panicked \<Rightarrow> False
    | Failed _ \<Rightarrow> True
    | Done (st, bits, r') \<Rightarrow> length st = 2 ^ unat (cir_qubits c) \<and> norm_sq st = 1 \<and>
        length bits = unat (cir_cbits c) \<and> set bits \<subseteq> {0, 1} \<and> draws_ok r'"
  using evolve_once_ok [OF assms, of h b cfg analytic]
  by (auto simp: no_panic_def trajectory_ok_def split: run.splits)

theorem trajectory_invariant_witness:
  "evolve_once \<lparr>hm_oversubscribe = True, hm_available = None\<rparr>
     (CircuitIR 1 1 [\<lparr>op_gate = Measure, op_qubits = [0], op_params = [], op_cbit = Some 0, op_condition = None\<rparr>]
       GateBased [] [] [] [])
     [] \<lparr>cfg_shots = None, cfg_seed = None, cfg_mode = Collapse\<rparr> (sconst 0, sconst 0) False \<noteq> Panicked"
  using trajectory_invariant [of "CircuitIR 1 1 [\<lparr>op_gate = Measure, op_qubits = [0], op_params = [],
      op_cbit = Some 0, op_condition = None\<rparr>] GateBased [] [] [] []" "(sconst 0, sconst 0)"
      "\<lparr>hm_oversubscribe = True, hm_available = None\<rparr>" "[]" "\<lparr>cfg_shots = None, cfg_seed = None, cfg_mode = Collapse\<rparr>" False]
  by (auto simp: valid_circuit_def valid_op_def draws_ok_def)

text \<open>C34: A unitary circuit computes the product of its matrices: when measurements are skipped, every other
  operation but the barriers is a valid unitary gate with resolving parameters and the state fits, the
  trajectory succeeds; the final state is the zero state under the matrices of the operations whose
  condition holds of the register of zeros, in program order; no draw is used.\<close>

theorem unitary_circuit_exact:
  assumes "valid_circuit c" "unitary_ops b (cir_ops c)" "cfg_mode cfg = Skip"
    "capacity_check h (cir_qubits c) (cfg_shots cfg \<noteq> None) = Done ()"
  shows "evolve_once h c b cfg r analytic =
    Done (fold (op_action b) (filter (runs (unat (cir_cbits c))) (cir_ops c)) (sv_zero_state (unat (cir_qubits c))),
      replicate (unat (cir_cbits c)) 0, r)"
proof -
  have "unat (cir_qubits c) \<le> 64" using capacity_Done [OF assms(4)] by simp
  then show ?thesis
    using evolve_unitary [of "unat (cir_qubits c)" "cir_ops c" b "sv_zero_state (unat (cir_qubits c))"] assms sv_zero_state_ok(1)
    by (simp add: evolve_once_def valid_circuit_def Let_def)
qed

theorem unitary_circuit_exact_witness:
  "evolve_once \<lparr>hm_oversubscribe = False, hm_available = Some 32\<rparr>
     (CircuitIR 1 0 [\<lparr>op_gate = X, op_qubits = [0], op_params = [], op_cbit = None, op_condition = None\<rparr>]
       GateBased [] [] [] [])
     [] \<lparr>cfg_shots = None, cfg_seed = None, cfg_mode = Skip\<rparr> (sconst 0, sconst 0) True =
   Done (dense_1q 0 gate_x (sv_zero_state 1), [], sconst 0, sconst 0)"
  using unitary_circuit_exact [of "CircuitIR 1 0 [\<lparr>op_gate = X, op_qubits = [0], op_params = [],
      op_cbit = None, op_condition = None\<rparr>] GateBased [] [] [] []" "[]" "\<lparr>cfg_shots = None, cfg_seed = None, cfg_mode = Skip\<rparr>"
      "\<lparr>hm_oversubscribe = False, hm_available = Some 32\<rparr>" "(sconst 0, sconst 0)" True]
  by (simp add: valid_circuit_def valid_op_def unitary_ops_def capacity_check_cases runs_def condition_satisfied_def
      op_action_def gate_action_def word_le_nat_alt)

end
