(* ===== verification/SvSampler.thy ===== *)
theory SvSampler
  imports SvRun
begin

text \<open>
  Sampling from a state: the walk with sorted draws counts every draw at the index a separate search
  of the cumulative weights finds for it, and an execution with shots reports as many as were asked.
\<close>

section \<open>One draw at a time\<close>

definition cumulative :: "complex list \<Rightarrow> nat \<Rightarrow> real" where
  "cumulative st i = (\<Sum>x<Suc i. (cmod (st ! x))\<^sup>2)"

text \<open>The first index whose cumulative weight reaches the draw, and the last index where none does.\<close>

definition invert_draw :: "complex list \<Rightarrow> real \<Rightarrow> nat" where
  "invert_draw st r = (case find (\<lambda>i. r \<le> cumulative st i) [0..<length st] of Some i \<Rightarrow> i | None \<Rightarrow> length st - 1)"

fun invert_from :: "nat \<Rightarrow> complex list \<Rightarrow> real \<Rightarrow> nat \<Rightarrow> real \<Rightarrow> nat" where
  "invert_from idx [] acc lst r = lst"
| "invert_from idx (a # as) acc lst r =
     (if r \<le> acc + (cmod a)\<^sup>2 then idx else invert_from (Suc idx) as (acc + (cmod a)\<^sup>2) lst r)"

lemma invert_from_find:
  "k \<le> length st \<Longrightarrow> invert_from k (drop k st) (\<Sum>x<k. (cmod (st ! x))\<^sup>2) lst r =
     (case find (\<lambda>i. r \<le> cumulative st i) [k..<length st] of Some i \<Rightarrow> i | None \<Rightarrow> lst)"
proof (induction "length st - k" arbitrary: k)
  case (Suc d)
  then have k: "k < length st" by simp
  then have "drop k st = st ! k # drop (Suc k) st" "[k..<length st] = k # [Suc k..<length st]"
    by (simp_all add: Cons_nth_drop_Suc upt_rec)
  then show ?case using Suc.hyps(1) [of "Suc k"] Suc.hyps(2) k by (simp add: cumulative_def)
qed simp

lemma invert_from_start: "invert_from 0 st 0 (length st - 1) r = invert_draw st r"
  using invert_from_find [of 0 st "length st - 1" r] by (simp add: invert_draw_def)

text \<open>Counting the same key several times.\<close>

lemma fold_entry_add:
  "bt_sorted m \<Longrightarrow> bt_sorted (fold (\<lambda>_. entry_add key 1) ds m) \<and>
     bt_get_or 0 k (fold (\<lambda>_. entry_add key 1) ds m) = bt_get_or 0 k m + (if k = key then of_nat (length ds) else 0) \<and>
     sum_list (map snd (fold (\<lambda>_. entry_add key 1) ds m)) = sum_list (map snd m) + of_nat (length ds)"
  by (induction ds arbitrary: m) (auto simp: entry_add_get entry_add_total)

definition tally :: "(real \<Rightarrow> nat) \<Rightarrow> real list \<Rightarrow> u64 \<Rightarrow> u32" where
  "tally f ds k = of_nat (length (filter (\<lambda>r. of_nat (f r) = k) ds))"

lemma tally_append: "tally f (ds @ es) k = tally f ds k + tally f es k"
  by (simp add: tally_def)

lemma tally_cong: "(\<And>r. r \<in> set ds \<Longrightarrow> f r = g r) \<Longrightarrow> tally f ds k = tally g ds k"
  unfolding tally_def by (metis (mono_tags, lifting) filter_cong)

lemma tally_const: "(\<And>r. r \<in> set ds \<Longrightarrow> f r = idx) \<Longrightarrow> tally f ds k = (if k = of_nat idx then of_nat (length ds) else 0)"
  using tally_cong [of ds f "\<lambda>_. idx" k] by (auto simp: tally_def)

lemma sample_walk_tally:
  assumes "sorted ds" "bt_sorted m"
  shows "let (ds', m') = sample_walk idx as acc ds m; m'' = fold (\<lambda>_. entry_add (of_nat lst) 1) ds' m' in
    bt_sorted m'' \<and> (\<forall>k. bt_get_or 0 k m'' = bt_get_or 0 k m + tally (invert_from idx as acc lst) ds k) \<and>
    sum_list (map snd m'') = sum_list (map snd m) + of_nat (length ds)"
  using assms
proof (induction as arbitrary: idx acc ds m)
  case Nil
  then show ?case using fold_entry_add [of m] by (auto simp: Let_def tally_const [of _ _ lst])
next
  case (Cons a as)
  show ?case
  proof (cases "ds = []")
    case True
    then show ?thesis using Cons.prems by (simp add: tally_def)
  next
    case False
    define acc' where "acc' = acc + (cmod a)\<^sup>2"
    define ds1 where "ds1 = takeWhile (\<lambda>d. d \<le> acc') ds"
    define ds2 where "ds2 = dropWhile (\<lambda>d. d \<le> acc') ds"
    define m1 where "m1 = fold (\<lambda>_. entry_add (of_nat idx) 1) ds1 m"
    have split: "ds = ds1 @ ds2" by (simp add: ds1_def ds2_def)
    have s2: "sorted ds2" using Cons.prems(1) split by (metis sorted_append)
    note m1 = fold_entry_add [OF Cons.prems(2), of "of_nat idx" ds1, folded m1_def]
    have low: "r \<in> set ds1 \<Longrightarrow> r \<le> acc'" for r
      using set_takeWhileD [of r "\<lambda>d. d \<le> acc'" ds] by (simp add: ds1_def)
    have high: "\<not> r \<le> acc'" if "r \<in> set ds2" for r
    proof (cases ds2)
      case (Cons d ds3)
      then have "\<not> d \<le> acc'" by (metis ds2_def hd_dropWhile list.discI list.sel(1))
      then show ?thesis using s2 that Cons by auto
    qed (use that in simp)
    have walk: "sample_walk idx (a # as) acc ds m = sample_walk (Suc idx) as acc' ds2 m1"
      using False by (simp add: Let_def acc'_def ds1_def ds2_def m1_def)
    have "tally (invert_from idx (a # as) acc lst) ds k =
        (if k = of_nat idx then of_nat (length ds1) else 0) + tally (invert_from (Suc idx) as acc' lst) ds2 k" for k
    proof -
      have "tally (invert_from idx (a # as) acc lst) ds1 k = (if k = of_nat idx then of_nat (length ds1) else 0)"
        using low by (intro tally_const) (auto simp: acc'_def)
      moreover have "tally (invert_from idx (a # as) acc lst) ds2 k = tally (invert_from (Suc idx) as acc' lst) ds2 k"
        using high by (intro tally_cong) (auto simp: acc'_def)
      ultimately show ?thesis unfolding split by (simp add: tally_append)
    qed
    then show ?thesis
      using Cons.IH [OF s2, of m1 "Suc idx" acc'] m1 unfolding walk
      by (auto simp: Let_def split simp del: invert_from.simps split: prod.splits)
  qed
qed

lemma sample_counts_tally:
  "bt_sorted (sample_counts st draws) \<and>
   bt_get_or 0 k (sample_counts st draws) = tally (invert_draw st) draws k \<and>
   sum_list (map snd (sample_counts st draws)) = of_nat (length draws)"
proof -
  have perm: "tally f (sort draws) k = tally f draws k" for f
  proof -
    have "filter P (sort draws) = sort (filter P draws)" for P by (simp add: filter_sort)
    then show ?thesis by (simp add: tally_def)
  qed
  have none: "bt_get_or 0 k [] = (0 :: u32)" by (simp add: bt_get_or_def bt_get_def)
  have inv: "invert_from 0 st 0 (length st - Suc 0) = invert_draw st"
    using invert_from_start [of st] by (auto simp: One_nat_def)
  show ?thesis
    using sample_walk_tally [of "sort draws" "[]" 0 st 0 "length st - 1"] perm none
    by (auto simp: sample_counts_def Let_def bt.valid_emp inv split: prod.splits)
qed

text \<open>Fewer than \<open>2^32\<close> shots are counted without wrapping: no addition to a count overflows.\<close>

lemma add_one_shots:
  assumes "bt_sorted m" "shots_in m + 1 < 2 ^ 32"
  shows "shots_in (entry_add k 1 m) = shots_in m + 1"
  using shots_in_add [OF assms(1), of k 1] count_le_shots [of k m] assms(2) by simp

lemma fold_add_shots:
  "bt_sorted m \<Longrightarrow> shots_in m + length ds < 2 ^ 32 \<Longrightarrow>
     bt_sorted (fold (\<lambda>_. entry_add key 1) ds m) \<and> shots_in (fold (\<lambda>_. entry_add key 1) ds m) = shots_in m + length ds"
  by (induction ds arbitrary: m) (auto simp: add_one_shots)

lemma sample_walk_shots:
  "bt_sorted m \<Longrightarrow> shots_in m + length ds < 2 ^ 32 \<Longrightarrow>
     bt_sorted (snd (sample_walk idx as acc ds m)) \<and>
     shots_in (snd (sample_walk idx as acc ds m)) + length (fst (sample_walk idx as acc ds m)) = shots_in m + length ds"
proof (induction as arbitrary: idx acc ds m)
  case (Cons a as)
  let ?acc = "acc + (cmod a)\<^sup>2"
  let ?t = "takeWhile (\<lambda>d. d \<le> ?acc) ds" and ?d = "dropWhile (\<lambda>d. d \<le> ?acc) ds"
  have l: "length ?t + length ?d = length ds" by (metis length_append takeWhile_dropWhile_id)
  then have f: "bt_sorted (fold (\<lambda>_. entry_add (of_nat idx) 1) ?t m)"
    "shots_in (fold (\<lambda>_. entry_add (of_nat idx) 1) ?t m) = shots_in m + length ?t"
    using fold_add_shots [OF Cons.prems(1), of ?t] Cons.prems(2) by auto
  then show ?case using Cons.IH [OF f(1), of ?d "Suc idx" ?acc] Cons.prems l by (simp add: Let_def)
qed simp

lemma sample_counts_shots: "length draws < 2 ^ 32 \<Longrightarrow> shots_in (sample_counts st draws) = length draws"
  using sample_walk_shots [of "[]" "sort draws" 0 st 0]
    fold_add_shots [of "snd (sample_walk 0 st 0 (sort draws) [])" "fst (sample_walk 0 st 0 (sort draws) [])"]
  by (simp add: sample_counts_def Let_def case_prod_unfold bt.valid_emp)

text \<open>The interval of the draws of an index is as long as the index weighs.\<close>

lemma cumulative_mono: "i \<le> j \<Longrightarrow> cumulative st i \<le> cumulative st j"
  unfolding cumulative_def by (rule sum_mono2) auto

lemma invert_interval:
  assumes "norm_sq st = 1" "0 < r" "r \<le> 1" "k < length st"
  shows "(invert_draw st r = k) = (cumulative st k - (cmod (st ! k))\<^sup>2 < r \<and> r \<le> cumulative st k)"
proof -
  obtain lst where l: "length st = Suc lst" using assms(4) by (cases "length st") auto
  have top: "cumulative st lst = 1" using assms(1) by (simp add: cumulative_def norm_sq_def l)
  have "find (\<lambda>i. r \<le> cumulative st i) [0..<length st] \<noteq> None"
    using top assms(3) l by (auto simp: find_None_iff)
  then obtain i where f: "find (\<lambda>i. r \<le> cumulative st i) [0..<length st] = Some i" by auto
  then have i: "i < length st" "r \<le> cumulative st i" "\<And>j. j < i \<Longrightarrow> cumulative st j < r"
    by (auto simp: find_Some_iff nth_append)
  have prev: "cumulative st k - (cmod (st ! k))\<^sup>2 = (if k = 0 then 0 else cumulative st (k - 1))"
    by (cases k) (simp_all add: cumulative_def)
  have "(i = k) = (cumulative st k - (cmod (st ! k))\<^sup>2 < r \<and> r \<le> cumulative st k)"
  proof
    assume "i = k"
    then show "cumulative st k - (cmod (st ! k))\<^sup>2 < r \<and> r \<le> cumulative st k"
      using i assms(2) prev by (cases k) auto
  next
    assume h: "cumulative st k - (cmod (st ! k))\<^sup>2 < r \<and> r \<le> cumulative st k"
    show "i = k"
    proof (rule ccontr)
      assume "i \<noteq> k"
      then consider "i < k" | "k < i" by linarith
      then show False
      proof cases
        case 1
        then have "cumulative st i \<le> cumulative st (k - 1)" by (intro cumulative_mono) simp
        then show False using h i(2) prev 1 by simp
      qed (use i(3) h in force)
    qed
  qed
  then show ?thesis by (simp add: invert_draw_def f)
qed

section \<open>Keys\<close>

definition keys_below :: "nat \<Rightarrow> (u64, u32) btree \<Rightarrow> bool" where
  "keys_below w m \<longleftrightarrow> (\<forall>k \<in> fst ` set m. \<forall>i. bit k i \<longrightarrow> i < w)"

lemma keys_below_Nil [simp]: "keys_below w []"
  by (simp add: keys_below_def)

lemma keys_below_insert:
  "keys_below w m \<Longrightarrow> (\<And>i. bit k i \<Longrightarrow> i < w) \<Longrightarrow> keys_below w (bt_insert k v m)"
  unfolding keys_below_def bt_insert_keys by auto

lemma keys_below_fold:
  "keys_below w m \<Longrightarrow> (\<And>i. bit key i \<Longrightarrow> i < w) \<Longrightarrow> keys_below w (fold (\<lambda>_. entry_add key 1) ds m)"
  by (induction ds arbitrary: m) (auto simp: entry_add_def keys_below_insert)

lemma index_key: "idx < 2 ^ n \<Longrightarrow> bit (of_nat idx :: u64) i \<Longrightarrow> i < n"
  by (auto simp: bit_of_nat_iff less_exp_iff_bits not_less [symmetric])

lemma sample_walk_keys:
  "keys_below n m \<Longrightarrow> idx + length as \<le> 2 ^ n \<Longrightarrow> keys_below n (snd (sample_walk idx as acc ds m))"
proof (induction as arbitrary: idx acc ds m)
  case (Cons a as)
  then show ?case using index_key [of idx n] by (auto simp: Let_def intro!: Cons.IH keys_below_fold)
qed simp

lemma sample_counts_keys: "length st = 2 ^ n \<Longrightarrow> keys_below n (sample_counts st draws)"
proof -
  assume l: "length st = 2 ^ n"
  have "keys_below n (snd (sample_walk 0 st 0 (sort draws) []))" using l by (intro sample_walk_keys) auto
  then show ?thesis
    using index_key [of "length st - 1" n] l by (auto simp: sample_counts_def Let_def intro!: keys_below_fold split: prod.splits)
qed

lemma creg_to_u64_bits: "creg_to_u64 checked bits = Some k \<Longrightarrow> bit k i \<Longrightarrow> i < length bits"
proof -
  assume h: "creg_to_u64 checked bits = Some k" "bit k i"
  have "take 64 (List.enumerate 0 bits) = List.enumerate 0 (take 64 bits)"
    by (rule nth_equalityI) (simp_all add: nth_enumerate_eq)
  with h have "k = fold (\<lambda>(i, b) w. w OR push_bit i (ucast b AND 1)) (List.enumerate 0 (take 64 bits)) 0"
    by (simp add: creg_to_u64_def MAX_COUNTS_QUBITS_def split: if_splits)
  then have "bit k i = (bit (0 :: u64) i \<or> 0 \<le> i \<and> i < 0 + length (take 64 bits) \<and> i < 64 \<and> bit (take 64 bits ! (i - 0)) 0)"
    by (simp only: pack_fold [where f = "\<lambda>b. ucast b AND 1", OF low_bit(2)])
  then show "i < length bits" using h(2) by simp
qed

text \<open>Widening the keys of a map keeps every count.\<close>

lemma bt_insert_fresh: "bt_sorted m \<Longrightarrow> k \<notin> fst ` set m \<Longrightarrow> bt_get_or 0 k m = 0"
  by (simp add: bt_get_or_def bt_get_def map_of_eq_None_iff [THEN iffD2])

lemma collect_shots:
  fixes kvs :: "('k::linorder \<times> u32) list"
  assumes "distinct (map fst kvs)"
  shows "shots_in (bt_collect kvs) = shots_in kvs"
proof -
  have "shots_in (fold (\<lambda>(k, v) m. bt_insert k v m) kvs m) = shots_in m + shots_in kvs"
    if "bt_sorted m" "fst ` set m \<inter> fst ` set kvs = {}" for m
    using assms that
  proof (induction kvs arbitrary: m)
    case (Cons kv kvs)
    obtain k v where kv: "kv = (k, v)" by (cases kv)
    have k: "k \<notin> fst ` set m" using Cons.prems by (auto simp: kv)
    have "fst ` set (bt_insert k v m) \<inter> fst ` set kvs = {}"
      using Cons.prems by (auto simp: kv bt_insert_keys)
    then show ?case
      using Cons.IH [of "bt_insert k v m"] Cons.prems bt.valid_ins [OF Cons.prems(2)] k
        shots_in_insert [OF Cons.prems(2), of k v]
      by (simp add: kv bt_insert_fresh)
  qed simp
  then show ?thesis by (simp add: bt_collect_def bt.valid_emp)
qed

lemma key_below_width:
  fixes k :: u64
  assumes "\<And>i. bit k i \<Longrightarrow> i < w" "w < 64"
  shows "k < push_bit w 1"
proof -
  have "bit k i = bit (take_bit w k) i" for i using assms(1) by (auto simp: bit_take_bit_iff)
  then have "k = take_bit w k" by (intro bit_eqI) simp
  then have "unat k = take_bit w (unat k)" by (metis unsigned_take_bit_eq)
  then have "unat k < 2 ^ w" by (metis take_bit_nat_less_exp)
  moreover have "unat (push_bit w (1 :: u64)) = 2 ^ w"
  proof -
    have "(2 :: nat) ^ w < 2 ^ 64" using assms(2) by (intro power_strict_increasing) simp_all
    then have "unat (of_nat (2 ^ w) :: u64) = 2 ^ w" by (simp only: unsigned_of_nat take_bit_nat_eq_self len_num0 len_bit0 len_num1) (use assms(2) in simp)
    moreover have "push_bit w (1 :: u64) = of_nat (2 ^ w)" by (simp add: push_bit_eq_mult)
    ultimately show ?thesis by simp
  qed
  ultimately show ?thesis by (simp add: word_less_nat_alt)
qed

lemma counts_from_u64_total:
  assumes "bt_sorted m" "keys_below (unat w) m"
  shows "\<exists>cs. counts_from_u64 checked m w = Some cs \<and> shots_in cs = shots_in m \<and>
    (\<forall>k \<in> fst ` set cs. wf_outcome k \<and> o_width k = w)"
proof -
  let ?kvs = "map (\<lambda>(k, v). (from_u64 k w, v)) m"
  have "list_all (\<lambda>(k, _). 64 \<le> w \<or> k < push_bit (unat w) 1) m"
    using assms(2) key_below_width [of _ "unat w"]
    by (fastforce simp: list_all_iff keys_below_def word_le_nat_alt)
  then have c: "counts_from_u64 checked m w = Some (bt_collect ?kvs)" by (simp add: counts_from_u64_def)
  have inj: "inj_on (\<lambda>k. from_u64 k w) (fst ` set m)"
  proof (rule inj_onI)
    fix a b assume h: "a \<in> fst ` set m" "b \<in> fst ` set m" "from_u64 a w = from_u64 b w"
    show "a = b"
    proof (rule bit_word_eqI)
      fix i :: nat
      have "outcome_bit (from_u64 a w) i = outcome_bit (from_u64 b w) i" using h(3) by simp
      then show "bit a i = bit b i" using assms(2) h(1,2) by (auto simp: from_u64_spec(2) keys_below_def)
    qed
  qed
  have keys: "map fst ?kvs = map (\<lambda>k. from_u64 k w) (map fst m)" by auto
  have "distinct (map fst ?kvs)"
    unfolding keys using inj bt_sorted_distinct [OF assms(1)] by (subst distinct_map) simp
  then have "shots_in (bt_collect ?kvs) = shots_in m"
    by (simp add: collect_shots) (simp add: shots_in_def comp_def case_prod_unfold)
  moreover have "\<forall>k \<in> fst ` set (bt_collect ?kvs). wf_outcome k \<and> o_width k = w"
    unfolding bt_collect_keys by (auto simp: from_u64_spec)
  ultimately show ?thesis using c by blast
qed

section \<open>Executions\<close>

definition host_ok :: "sv_env \<Rightarrow> bool" where
  "host_ok h \<longleftrightarrow> (\<forall>s. draws_ok (seeded h s)) \<and> draws_ok (unseeded h)"

text \<open>Every classical bit named lies in the register.\<close>

definition cbits_ok :: "circuit_ir \<Rightarrow> bool" where
  "cbits_ok c \<longleftrightarrow> (\<forall>op \<in> set (cir_ops c). \<forall>b. op_cbit op = Some b \<longrightarrow> b < cir_cbits c)"

lemma fold_max_le: "(\<And>x. x \<in> set xs \<Longrightarrow> x \<le> b) \<Longrightarrow> a \<le> b \<Longrightarrow> fold max xs a \<le> (b :: 'a :: linorder)"
  by (induction xs arbitrary: a) auto

lemma in_map_filter: "x \<in> set (List.map_filter f xs) \<Longrightarrow> \<exists>y \<in> set xs. f y = Some x"
  by (induction xs) (auto split: option.splits)

lemma creg_width:
  assumes "cbits_ok c"
  shows "counts_outcome_width c True = unat (cir_cbits c)"
proof -
  have "unat b + 1 \<le> unat (cir_cbits c)" if m: "(q, b) \<in> set (measure_pairs c)" for q b
  proof -
    obtain op where op: "op \<in> set (cir_ops c)" "(if op_gate op = Measure
      then (case op_qubits op of [] \<Rightarrow> None | q # _ \<Rightarrow> map_option (\<lambda>b. (q, b)) (op_cbit op)) else None) = Some (q, b)"
      using in_map_filter [OF m [unfolded measure_pairs_def]] by blast
    from op(2) have "op_cbit op = Some b" by (cases "op_qubits op") (auto split: if_splits)
    with op(1) have "b < cir_cbits c" using assms by (auto simp: cbits_ok_def)
    then show ?thesis by (simp add: word_less_nat_alt)
  qed
  then have "fold max (map (\<lambda>(_, b). unat b + 1) (measure_pairs c)) 0 \<le> unat (cir_cbits c)"
    by (intro fold_max_le) auto
  then show ?thesis by (simp add: counts_outcome_width_def)
qed

definition counts_ok :: "nat \<Rightarrow> nat \<Rightarrow> (u64, u32) btree \<Rightarrow> bool" where
  "counts_ok w k m \<longleftrightarrow> bt_sorted m \<and> keys_below w m \<and> shots_in m = k"

lemma sample_seeded_ok: "length st = 2 ^ n \<Longrightarrow> shots < 2 ^ 32 \<Longrightarrow> counts_ok n shots (fst (sample_seeded h st shots r))"
  using sample_counts_tally [of st "stake shots (fst (seeded h (shd (snd r))))"]
    sample_counts_keys [of st n "stake shots (fst (seeded h (shd (snd r))))"]
    sample_counts_shots [of "stake shots (fst (seeded h (shd (snd r))))" st]
  by (simp add: counts_ok_def sample_seeded_def draw_seed_def)

lemma counts_ok_entry:
  "counts_ok w k m \<Longrightarrow> k + 1 < 2 ^ 32 \<Longrightarrow> (\<And>i. bit key i \<Longrightarrow> i < w) \<Longrightarrow> counts_ok w (k + 1) (entry_add key 1 m)"
  using add_one_shots [of m key] by (simp add: counts_ok_def) (simp add: entry_add_def keys_below_insert)

lemma shot_loop_ok:
  assumes "valid_circuit c" "host_ok h" "\<not> checked_build h \<or> unat (cir_cbits c) \<le> 64"
    "w = (if by_creg then unat (cir_cbits c) else unat (cir_qubits c))"
  shows "draws_ok r \<Longrightarrow> counts_ok w s m \<Longrightarrow> s + k < 2 ^ 32 \<Longrightarrow>
    no_panic (shot_loop h c b cfg by_creg k r m) (counts_ok w (s + k))"
proof (induction k arbitrary: r m s)
  case (Suc k)
  let ?n = "unat (cir_qubits c)"
  define pick where "pick st bits r' = (if by_creg then bind_run (or_panic (creg_to_u64 (checked_build h) bits)) (\<lambda>key. Done (key, r'))
    else let (counts, r'') = sample_seeded h st 1 r' in Done (case counts of [] \<Rightarrow> 0 | (key, _) # _ \<Rightarrow> key, r''))" for st bits r'
  have pick: "no_panic (pick st bits r') (\<lambda>(key, r''). (\<forall>i. bit key i \<longrightarrow> i < w) \<and> draws_ok r'')"
    if "trajectory_ok ?n (unat (cir_cbits c)) (st, bits, r')" for st bits r'
  proof (cases by_creg)
    case True
    have "length bits = unat (cir_cbits c)" "draws_ok r'" using that by (simp_all add: trajectory_ok_def)
    moreover have "creg_to_u64 (checked_build h) bits \<noteq> None"
      using assms(3) \<open>length bits = _\<close> by (auto simp: creg_to_u64_def MAX_COUNTS_QUBITS_def)
    ultimately show ?thesis
      using creg_to_u64_bits [of "checked_build h" bits] True assms(4) by (auto simp: pick_def or_panic_def)
  next
    case False
    have l: "length st = 2 ^ ?n" "draws_ok r'" using that by (simp_all add: trajectory_ok_def)
    obtain counts r'' where s: "sample_seeded h st (Suc 0) r' = (counts, r'')" by (cases "sample_seeded h st (Suc 0) r'")
    have "keys_below ?n counts" using sample_seeded_ok [OF l(1), of "Suc 0" h r'] s by (simp add: counts_ok_def)
    moreover have "draws_ok r''" using s l(2) by (auto simp: sample_seeded_def draw_seed_def draws_ok_def)
    ultimately show ?thesis
      using False assms(4) by (cases counts) (auto simp: pick_def s keys_below_def)
  qed
  have "no_panic (bind_run (pick st bits r') (\<lambda>(key, r''). shot_loop h c b cfg by_creg k r'' (entry_add key 1 m)))
      (counts_ok w (s + Suc k))" if "trajectory_ok ?n (unat (cir_cbits c)) (st, bits, r')" for st bits r'
  proof (rule no_panic_bind [OF pick [OF that]], clarify)
    fix key :: u64 and r'' assume "\<forall>i. bit key i \<longrightarrow> i < w" "draws_ok r''"
    then show "no_panic (shot_loop h c b cfg by_creg k r'' (entry_add key 1 m)) (counts_ok w (s + Suc k))"
      using Suc.IH [OF _ counts_ok_entry [OF Suc.prems(2)], of r'' key] Suc.prems(3) by simp
  qed
  then show ?case
    unfolding shot_loop.simps pick_def by (intro no_panic_bind [OF evolve_once_ok [OF assms(1) Suc.prems(1)]]) auto
qed simp

section \<open>Properties\<close>

text \<open>C18: The sampler draws from the Born distribution: the counts are the tally of the draws, each taken to
  the first index whose cumulative weight reaches it (so that sorting them first changes nothing), their
  total is the number of shots, and on a normalised state the draws from (0, 1] taken to an index are those
  of an interval as long as the squared amplitude of the index.\<close>

theorem sampler_born:
  assumes "k < length st" "length st \<le> 2 ^ 64" "norm_sq st = 1" "0 < r" "r \<le> 1"
  shows "bt_get_or 0 (of_nat k) (sample_counts st draws) =
      of_nat (length (filter (\<lambda>r. of_nat (invert_draw st r) = (of_nat k :: u64)) draws)) \<and>
    sum_list (map snd (sample_counts st draws)) = of_nat (length draws) \<and>
    (invert_draw st r = k) = (cumulative st k - (cmod (st ! k))\<^sup>2 < r \<and> r \<le> cumulative st k)"
  using sample_counts_tally [of st draws "of_nat k"] invert_interval [OF assms(3-5,1)] by (simp add: tally_def)

theorem sampler_born_witness:
  "invert_draw [3 / 5, 4 / 5] (1 / 2) = 1 \<and> sum_list (map snd (sample_counts [3 / 5, 4 / 5] [1 / 2, 1 / 10])) = 2"
proof -
  have "norm_sq [3 / 5, 4 / 5] = 1" by (simp add: one_qubit_weights power_divide)
  from sampler_born [of 1 "[3 / 5, 4 / 5]" "1 / 2" "[1 / 2, 1 / 10]", OF _ _ this]
  show ?thesis by (simp add: cumulative_def power_divide)
qed



text \<open>A draw of exactly 0 is counted at index 0 even where its amplitude is 0.\<close>

lemma zero_draw_impossible_outcome: "sample_counts [0, 1] [0] = [(0, 1)]"
  by (simp add: sample_counts_def Let_def entry_add_def bt_get_or_def bt_get_def)

end
