(* ===== verification/Observable.thy ===== *)
theory Observable
  imports Circuit
begin

text \<open>
  Observables of \<^verbatim>\<open>crates/omega-core/src/executor.rs\<close>: sums of Pauli strings with real coefficients,
  their arithmetic and their parser.  The parser of a coefficient, \<^verbatim>\<open>str::parse::<f64>\<close>, is an argument;
  a coefficient that is not a real number is outside the model.
\<close>

datatype pauli_op = Pauli_I | Pauli_X | Pauli_Y | Pauli_Z

type_synonym pauli_string = "(u32 \<times> pauli_op) list"
type_synonym observable = "(real \<times> pauli_string) list"

fun validate_string :: "u32 \<Rightarrow> pauli_string \<Rightarrow> omega_error option" where
  "validate_string n [] = None"
| "validate_string n ((q, p) # ps) =
     (if n \<le> q then Some (Unsupported (Observable_qubit q n)) else validate_string n ps)"

fun validate_qubits :: "u32 \<Rightarrow> observable \<Rightarrow> omega_error option" where
  "validate_qubits n [] = None"
| "validate_qubits n ((c, ps) # ts) =
     (case validate_string n ps of Some e \<Rightarrow> Some e | None \<Rightarrow> validate_qubits n ts)"

definition obs_identity :: observable where "obs_identity = [(1, [])]"
definition obs_pauli :: "u32 \<Rightarrow> pauli_op \<Rightarrow> observable" where "obs_pauli q p = [(1, [(q, p)])]"
definition obs_z :: "u32 \<Rightarrow> observable" where "obs_z q = obs_pauli q Pauli_Z"
definition obs_x :: "u32 \<Rightarrow> observable" where "obs_x q = obs_pauli q Pauli_X"
definition obs_y :: "u32 \<Rightarrow> observable" where "obs_y q = obs_pauli q Pauli_Y"
definition obs_zz :: "u32 \<Rightarrow> u32 \<Rightarrow> observable" where "obs_zz q r = [(1, [(q, Pauli_Z), (r, Pauli_Z)])]"
definition obs_xx :: "u32 \<Rightarrow> u32 \<Rightarrow> observable" where "obs_xx q r = [(1, [(q, Pauli_X), (r, Pauli_X)])]"
definition obs_yy :: "u32 \<Rightarrow> u32 \<Rightarrow> observable" where "obs_yy q r = [(1, [(q, Pauli_Y), (r, Pauli_Y)])]"

definition obs_add :: "observable \<Rightarrow> observable \<Rightarrow> observable" where "obs_add a b = a @ b"
definition obs_mul :: "observable \<Rightarrow> real \<Rightarrow> observable" where "obs_mul a s = map (\<lambda>(c, ps). (c * s, ps)) a"
definition mul_obs :: "real \<Rightarrow> observable \<Rightarrow> observable" where "mul_obs s a = map (\<lambda>(c, ps). (c * s, ps)) a"
definition obs_neg :: "observable \<Rightarrow> observable" where "obs_neg a = map (\<lambda>(c, ps). (- c, ps)) a"
definition obs_sub :: "observable \<Rightarrow> observable \<Rightarrow> observable" where "obs_sub a b = obs_add a (obs_neg b)"
definition obs_add_assign :: "observable \<Rightarrow> observable \<Rightarrow> observable" where "obs_add_assign a b = a @ b"
definition obs_mul_assign :: "observable \<Rightarrow> real \<Rightarrow> observable" where
  "obs_mul_assign a s = map (\<lambda>(c, ps). (c * s, ps)) a"

definition flips_on :: "u32 list \<Rightarrow> pauli_string \<Rightarrow> bool" where
  "flips_on measured ps = list_ex (\<lambda>(q, p). q \<in> set measured \<and> p \<in> {Pauli_X, Pauli_Y}) ps"

definition dephase :: "u32 list \<Rightarrow> observable \<Rightarrow> observable" where
  "dephase measured a = (if measured = [] then a else filter (\<lambda>(_, ps). \<not> flips_on measured ps) a)"

section \<open>Parsing\<close>

datatype obs_error = Bad_coefficient string | No_pauli_letter string | Bad_pauli char string
  | Missing_qubit string | Bad_qubit string | Empty_observable

fun pauli_of_char :: "char \<Rightarrow> pauli_op option" where
  "pauli_of_char c =
     (if c = CHR ''X'' \<or> c = CHR ''x'' then Some Pauli_X
      else if c = CHR ''Y'' \<or> c = CHR ''y'' then Some Pauli_Y
      else if c = CHR ''Z'' \<or> c = CHR ''z'' then Some Pauli_Z
      else if c = CHR ''I'' \<or> c = CHR ''i'' then Some Pauli_I
      else None)"

declare pauli_of_char.simps [simp del]

definition is_digit :: "char \<Rightarrow> bool" where
  "is_digit c = (digit_value c \<noteq> None)"

function pauli_loop :: "string \<Rightarrow> string \<Rightarrow> obs_error + pauli_string" where
  "pauli_loop s [] = Inr []"
| "pauli_loop s (c # cs) =
     (case pauli_of_char c of
        None \<Rightarrow> Inl (Bad_pauli c s)
      | Some p \<Rightarrow>
          if takeWhile is_digit cs = [] then Inl (Missing_qubit s)
          else case parse_u32 (takeWhile is_digit cs) of
            None \<Rightarrow> Inl (Bad_qubit (takeWhile is_digit cs))
          | Some q \<Rightarrow>
              (case pauli_loop s (dropWhile is_digit cs) of
                 Inl e \<Rightarrow> Inl e
               | Inr out \<Rightarrow> Inr (if p = Pauli_I then out else (q, p) # out)))"
  by pat_completeness auto
termination
  by (relation "measure (\<lambda>(_, cs). length cs)") (auto simp: le_imp_less_Suc length_dropWhile_le)

definition parse_pauli_string :: "string \<Rightarrow> obs_error + pauli_string" where
  "parse_pauli_string s = pauli_loop s s"

fun split_char :: "char \<Rightarrow> string \<Rightarrow> string \<Rightarrow> string list" where
  "split_char d cur [] = [rev cur]"
| "split_char d cur (c # cs) = (if c = d then rev cur # split_char d [] cs else split_char d (c # cur) cs)"

definition pauli_letters :: "char set" where
  "pauli_letters = {CHR ''X'', CHR ''Y'', CHR ''Z'', CHR ''I''}"

definition split_term :: "(string \<Rightarrow> real option) \<Rightarrow> string \<Rightarrow> obs_error + (real \<times> string)" where
  "split_term parse_f64 part =
     (let number = (\<lambda>s rest. case parse_f64 s of None \<Rightarrow> Inl (Bad_coefficient s) | Some c \<Rightarrow> Inr (c, rest)) in
      if CHR ''*'' \<in> set part then
        number (takeWhile (\<lambda>c. c \<noteq> CHR ''*'') part) (tl (dropWhile (\<lambda>c. c \<noteq> CHR ''*'') part))
      else if part \<noteq> [] \<and> hd part \<in> pauli_letters then Inr (1, part)
      else if \<not> list_ex (\<lambda>c. c \<in> pauli_letters) part then Inl (No_pauli_letter part)
      else number (takeWhile (\<lambda>c. c \<notin> pauli_letters) part) (dropWhile (\<lambda>c. c \<notin> pauli_letters) part))"

fun parse_terms :: "(string \<Rightarrow> real option) \<Rightarrow> string list \<Rightarrow> obs_error + observable" where
  "parse_terms parse_f64 [] = Inr []"
| "parse_terms parse_f64 (part # parts) =
     (if part = [] then parse_terms parse_f64 parts
      else case split_term parse_f64 part of
        Inl e \<Rightarrow> Inl e
      | Inr (c, s) \<Rightarrow>
          (case parse_pauli_string s of
             Inl e \<Rightarrow> Inl e
           | Inr ps \<Rightarrow> (case parse_terms parse_f64 parts of Inl e \<Rightarrow> Inl e | Inr ts \<Rightarrow> Inr ((c, ps) # ts))))"

definition parse_observable :: "(string \<Rightarrow> real option) \<Rightarrow> string \<Rightarrow> obs_error + observable" where
  "parse_observable parse_f64 s =
     (case parse_terms parse_f64 (split_char CHR ''+'' [] (filter (\<lambda>c. c \<noteq> CHR '' '') s)) of
        Inl e \<Rightarrow> Inl e
      | Inr [] \<Rightarrow> Inl Empty_observable
      | Inr ts \<Rightarrow> Inr ts)"

section \<open>Facts\<close>

lemma validate_string_ok: "(validate_string n ps = None) = (\<forall>(q, p) \<in> set ps. q < n)"
  by (induction n ps rule: validate_string.induct) auto

lemma validate_qubits_ok: "(validate_qubits n ts = None) = (\<forall>(c, ps) \<in> set ts. \<forall>(q, p) \<in> set ps. q < n)"
proof (induction n ts rule: validate_qubits.induct)
  case (2 n c ps ts)
  then show ?case using validate_string_ok [of n ps] by (cases "validate_string n ps") auto
qed simp

fun pauli_letter :: "pauli_op \<Rightarrow> char" where
  "pauli_letter Pauli_I = CHR ''I''" | "pauli_letter Pauli_X = CHR ''X''"
| "pauli_letter Pauli_Y = CHR ''Y''" | "pauli_letter Pauli_Z = CHR ''Z''"

definition show_pauli_string :: "pauli_string \<Rightarrow> string" where
  "show_pauli_string ps = concat (map (\<lambda>(q, p). pauli_letter p # show_nat (unat q)) ps)"

lemma pauli_of_letter [simp]: "pauli_of_char (pauli_letter p) = Some p"
  by (cases p) (simp_all add: pauli_of_char.simps)

lemma letter_not_digit: "\<not> is_digit (pauli_letter p)"
  by (cases p) (simp_all add: is_digit_def digit_value_def)

lemma show_digits: "list_all is_digit (show_nat n)"
  using show_nat_digits by (auto simp: list_all_iff is_digit_def)

lemma digits_then: "list_all P ds \<Longrightarrow> s = [] \<or> \<not> P (hd s) \<Longrightarrow> takeWhile P (ds @ s) = ds \<and> dropWhile P (ds @ s) = s"
  by (induction ds; cases s) auto

lemma parse_qubit [simp]: "parse_u32 (show_nat (unat (q :: u32))) = Some q"
  using parse_unsigned_show [of "unat q" "2 ^ 32"] unat_bound [of q] by (simp add: parse_u32_def)

lemma pauli_loop_show: "pauli_loop s (show_pauli_string ps) = Inr (filter (\<lambda>(_, p). p \<noteq> Pauli_I) ps)"
proof (induction ps)
  case (Cons x ps)
  obtain q p where x: "x = (q, p)" by (cases x)
  have "show_pauli_string ps = [] \<or> \<not> is_digit (hd (show_pauli_string ps))"
    by (cases ps) (auto simp: show_pauli_string_def letter_not_digit)
  note d = digits_then [OF show_digits [of "unat q"] this]
  show ?case
    using Cons d by (simp add: x show_pauli_string_def)
qed (simp add: show_pauli_string_def)

section \<open>Properties\<close>

text \<open>C35: The Pauli parser inverts printing: a string of Pauli letters, each followed by its qubit in
  decimal, parses to the list of its factors without the identities, for every 32-bit qubit; what follows
  such a string is refused, with the character or the whole text named, when it begins with a character that
  is no Pauli letter and no digit, with a Pauli letter that no digit follows, or with a Pauli letter
  followed by digits that are no 32-bit number.\<close>

theorem pauli_string_parsed:
  "parse_pauli_string (show_pauli_string ps) = Inr (filter (\<lambda>(_, p). p \<noteq> Pauli_I) ps) \<and>
   (let s = show_pauli_string ps @ c # rest; digits = takeWhile is_digit rest in
     (pauli_of_char c = None \<and> \<not> is_digit c \<longrightarrow> parse_pauli_string s = Inl (Bad_pauli c s)) \<and>
     (pauli_of_char c \<noteq> None \<and> digits = [] \<longrightarrow> parse_pauli_string s = Inl (Missing_qubit s)) \<and>
     (pauli_of_char c \<noteq> None \<and> digits \<noteq> [] \<and> parse_u32 digits = None \<longrightarrow> parse_pauli_string s = Inl (Bad_qubit digits)))"
proof -
  have prefix: "pauli_loop s (show_pauli_string ps @ c # rest) = Inl e"
    if h: "pauli_loop s (c # rest) = Inl e" "\<not> is_digit c" for s e
  proof (induction ps)
    case (Cons x ps)
    obtain q p where x: "x = (q, p)" by (cases x)
    have "show_pauli_string ps @ c # rest = [] \<or> \<not> is_digit (hd (show_pauli_string ps @ c # rest))"
      using h by (cases ps) (auto simp: show_pauli_string_def letter_not_digit)
    note d = digits_then [OF show_digits [of "unat q"] this]
    have "show_pauli_string (x # ps) @ c # rest = pauli_letter p # show_nat (unat q) @ (show_pauli_string ps @ c # rest)"
      by (simp add: x show_pauli_string_def)
    then show ?case using Cons d by (auto split: option.splits sum.splits)
  qed (use h in \<open>simp add: show_pauli_string_def\<close>)
  have "\<not> is_digit c" if "pauli_of_char c \<noteq> None"
    using that by (auto simp: pauli_of_char.simps is_digit_def digit_value_def split: if_splits)
  then show ?thesis
    using pauli_loop_show by (auto simp: parse_pauli_string_def Let_def intro!: prefix)
qed

theorem pauli_string_parsed_witness:
  "parse_pauli_string (show_pauli_string [(3, Pauli_X)] @ ''w'') = Inl (Bad_pauli CHR ''w'' (show_pauli_string [(3, Pauli_X)] @ ''w'')) \<and>
   parse_pauli_string (show_pauli_string [(3, Pauli_X)] @ ''Z'') = Inl (Missing_qubit (show_pauli_string [(3, Pauli_X)] @ ''Z''))"
  using pauli_string_parsed [of "[(3, Pauli_X)]" "CHR ''w''" "[]"] pauli_string_parsed [of "[(3, Pauli_X)]" "CHR ''Z''" "[]"]
  by (simp add: Let_def pauli_of_char.simps is_digit_def digit_value_def)

end
