(* ===== verification/DeferMeasure.thy ===== *)
theory DeferMeasure
  imports Observable
begin

text \<open>
  Deferred measurement, \<^verbatim>\<open>crates/omega-core/src/defer_measure.rs\<close>: measurements leave the circuit,
  operations conditioned on a measured bit become controlled gates.  The hash map from classical
  bits to qubits is kept as an ordered map.
\<close>

fun controlled_form :: "gate_kind \<Rightarrow> gate_kind option" where
  "controlled_form X = Some CX" | "controlled_form Z = Some CZ" | "controlled_form Y = Some CY"
| "controlled_form _ = None"

definition first_qubit :: "gate_op \<Rightarrow> u32 option" where
  "first_qubit op = (case op_qubits op of [] \<Rightarrow> None | q # _ \<Rightarrow> Some q)"

text \<open>The inner loop of the precondition: the first later operation that uses the measured qubit.\<close>

fun reuse_after :: "u32 \<Rightarrow> nat \<Rightarrow> gate_op list \<Rightarrow> not_deferrable option" where
  "reuse_after mq j [] = None"
| "reuse_after mq j (op # ops) =
     (if op_gate op \<in> {Id, Barrier} then reuse_after mq (Suc j) ops
      else if op_gate op = Measure \<and> first_qubit op = Some mq then reuse_after mq (Suc j) ops
      else if mq \<in> set (op_qubits op) then Some (Qubit_reused mq j)
      else reuse_after mq (Suc j) ops)"

fun defer_check :: "nat \<Rightarrow> gate_op list \<Rightarrow> not_deferrable option" where
  "defer_check i [] = None"
| "defer_check i (op # ops) =
     (if op_gate op \<noteq> Measure then defer_check (Suc i) ops
      else if op_condition op \<noteq> None then Some (Conditioned_measure i)
      else case first_qubit op of
        None \<Rightarrow> defer_check (Suc i) ops
      | Some mq \<Rightarrow>
          (case reuse_after mq (Suc i) ops of Some e \<Rightarrow> Some e | None \<Rightarrow> defer_check (Suc i) ops))"

definition controlled_op :: "gate_kind \<Rightarrow> u32 \<Rightarrow> gate_op \<Rightarrow> gate_op" where
  "controlled_op g ctrl op = \<lparr>op_gate = g, op_qubits = ctrl # op_qubits op, op_params = op_params op,
     op_cbit = None, op_condition = None\<rparr>"

text \<open>The walk over the operations, with the qubit that last wrote each classical bit and the qubits
  whose measurement was used so far.\<close>

fun defer_loop :: "nat \<Rightarrow> gate_op list \<Rightarrow> (u32, u32) btree \<Rightarrow> u32 list \<Rightarrow> not_deferrable + (gate_op list \<times> u32 list)" where
  "defer_loop i [] written measured = Inr ([], measured)"
| "defer_loop i (op # ops) written measured =
     (if op_gate op = Measure then
        defer_loop (Suc i) ops
          (case (op_cbit op, first_qubit op) of (Some c, Some q) \<Rightarrow> bt_insert c q written | _ \<Rightarrow> written) measured
      else case op_condition op of
        None \<Rightarrow> map_sum id (\<lambda>(out, ms). (op # out, ms)) (defer_loop (Suc i) ops written measured)
      | Some (cbit, num_bits, expected) \<Rightarrow>
          if num_bits \<noteq> 1 \<or> expected \<noteq> 1 then Inl (Condition_not_single_bit num_bits expected i)
          else case bt_get cbit written of
            None \<Rightarrow> Inl (Condition_bit_never_measured cbit i)
          | Some ctrl \<Rightarrow>
              (case controlled_form (op_gate op) of
                 None \<Rightarrow> Inl (No_controlled_form (op_gate op) i)
               | Some g \<Rightarrow>
                   if ctrl \<in> set (op_qubits op) then Inl (Qubit_reused ctrl i)
                   else map_sum id (\<lambda>(out, ms). (controlled_op g ctrl op # out, ms))
                     (defer_loop (Suc i) ops written (if ctrl \<in> set measured then measured else measured @ [ctrl]))))"

definition defer_measurements :: "circuit_ir \<Rightarrow> not_deferrable + (circuit_ir \<times> u32 list)" where
  "defer_measurements c =
     (case defer_check 0 (cir_ops c) of
        Some e \<Rightarrow> Inl e
      | None \<Rightarrow> map_sum id (\<lambda>(out, measured). (with_ops out c, measured)) (defer_loop 0 (cir_ops c) [] []))"

definition measures :: "circuit_ir \<Rightarrow> bool" where
  "measures c = list_ex (\<lambda>op. op_gate op = Measure) (cir_ops c)"

definition prepare_circuit_for_expectation :: "circuit_ir \<Rightarrow> omega_error + (circuit_ir \<times> u32 list)" where
  "prepare_circuit_for_expectation c =
     (if \<not> measures c then Inr (c, [])
      else map_sum (\<lambda>e. Unsupported (Expectation_undefined e)) id (defer_measurements c))"

definition prepare_for_expectation :: "circuit_ir \<Rightarrow> observable \<Rightarrow> omega_error + (circuit_ir \<times> observable)" where
  "prepare_for_expectation c a =
     map_sum id (\<lambda>(d, measured). (d, dephase measured a)) (prepare_circuit_for_expectation c)"

definition prepare_for_expectation_multi :: "circuit_ir \<Rightarrow> observable list \<Rightarrow> omega_error + (circuit_ir \<times> observable list)" where
  "prepare_for_expectation_multi c as =
     (if \<not> measures c then Inr (c, as)
      else map_sum (\<lambda>e. Unsupported (Expectation_undefined e)) (\<lambda>(d, measured). (d, map (dephase measured) as))
        (defer_measurements c))"

section \<open>What a deferred circuit looks like\<close>

lemma map_sum_Inr: "map_sum f g x = Inr y \<longleftrightarrow> (\<exists>z. x = Inr z \<and> y = g z)"
  by (cases x) auto

lemma map_sum_Inl: "map_sum f g x = Inl y \<longleftrightarrow> (\<exists>z. x = Inl z \<and> y = f z)"
  by (cases x) auto

lemma controlled_form_cases:
  "controlled_form g = Some g' \<Longrightarrow> g = X \<and> g' = CX \<or> g = Y \<and> g' = CY \<or> g = Z \<and> g' = CZ"
  by (cases g) auto

definition write_bit :: "gate_op \<Rightarrow> (u32, u32) btree \<Rightarrow> (u32, u32) btree" where
  "write_bit op w = (case (op_cbit op, first_qubit op) of (Some c, Some q) \<Rightarrow> bt_insert c q w | _ \<Rightarrow> w)"

lemma defer_loop_Cons:
  assumes "defer_loop i (op # ops) w m = Inr (out, ms)"
  obtains (measure) "op_gate op = Measure" "defer_loop (Suc i) ops (write_bit op w) m = Inr (out, ms)"
    | (keep) out' where "op_gate op \<noteq> Measure" "op_condition op = None" "out = op # out'"
        "defer_loop (Suc i) ops w m = Inr (out', ms)"
    | (control) cbit ctrl g out' m' where "op_gate op \<noteq> Measure" "op_condition op = Some (cbit, 1, 1)"
        "bt_get cbit w = Some ctrl" "controlled_form (op_gate op) = Some g" "ctrl \<notin> set (op_qubits op)"
        "out = controlled_op g ctrl op # out'" "defer_loop (Suc i) ops w m' = Inr (out', ms)"
proof (cases "op_gate op = Measure")
  case True
  then show ?thesis using assms measure by (simp add: write_bit_def)
next
  case False
  show ?thesis
  proof (cases "op_condition op")
    case None
    then show ?thesis using assms False keep by (auto simp: map_sum_Inr)
  next
    case (Some cond)
    obtain cbit nb ex where c: "cond = (cbit, nb, ex)" by (cases cond)
    have one: "nb = 1" "ex = 1" using assms False Some c by (auto split: if_splits)
    then obtain ctrl where w: "bt_get cbit w = Some ctrl" using assms False Some c by (auto split: option.splits)
    then obtain g where g: "controlled_form (op_gate op) = Some g"
      using assms False Some c one by (auto split: option.splits)
    then have q: "ctrl \<notin> set (op_qubits op)" using assms False Some c one w by (auto split: if_splits)
    then show ?thesis
      using assms False Some c one w g control [of cbit ctrl g] by (auto simp: map_sum_Inr)
  qed
qed

lemma defer_loop_clean:
  "defer_loop i ops w m = Inr (out, ms) \<Longrightarrow> \<forall>op \<in> set out. op_gate op \<noteq> Measure \<and> op_condition op = None"
proof (induction ops arbitrary: i w m out)
  case (Cons op ops)
  from Cons.prems show ?case
  proof (cases rule: defer_loop_Cons)
    case (control cbit ctrl g out' m')
    then show ?thesis
      using Cons.IH [OF control(7)] controlled_form_cases [OF control(4)] by (auto simp: controlled_op_def)
  qed (use Cons.IH in auto)
qed simp

text \<open>Preparing a circuit keeps its registers and only drops terms.\<close>

lemma prepare_keeps:
  assumes "prepare_for_expectation c a = Inr (d, a')"
  shows "cir_qubits d = cir_qubits c" "refuse_qudits d e = refuse_qudits c e" "set a' \<subseteq> set a"
proof -
  obtain ms where p: "prepare_circuit_for_expectation c = Inr (d, ms)" "a' = dephase ms a"
    using assms by (auto simp: prepare_for_expectation_def map_sum_Inr)
  have "cir_qudits (with_ops out c) = cir_qudits c" for out by (cases c) simp
  then have "d = c \<or> (\<exists>out. d = with_ops out c)"
    using p(1) by (auto simp: prepare_circuit_for_expectation_def map_sum_Inr defer_measurements_def split: if_splits option.splits)
  then show "cir_qubits d = cir_qubits c" "refuse_qudits d e = refuse_qudits c e"
    by (cases c; auto simp: refuse_qudits_def first_qudit_def)+
  show "set a' \<subseteq> set a" by (auto simp: p(2) dephase_def)
qed

end
