(* ===== verification/SvExpect.thy ===== *)
theory SvExpect
  imports SvSampler DeferMeasure
begin

text \<open>
  Expectations of the state-vector backend, \<^verbatim>\<open>expectation_pauli\<close> and the backend's \<^verbatim>\<open>expectation\<close> of
  \<^verbatim>\<open>sim.rs\<close>, compared with the inner product of the state and its image under the Pauli matrices.
\<close>

text \<open>One factor: the image of the index and the coefficient, both from the bit of the original index.\<close>

definition pauli_step :: "nat \<Rightarrow> u32 \<times> pauli_op \<Rightarrow> nat \<times> complex \<Rightarrow> nat \<times> complex" where
  "pauli_step i = (\<lambda>(q, p) (j, c). let b = drop_bit (unat q) i AND 1 in
     case p of
       Pauli_I \<Rightarrow> (j, c)
     | Pauli_Z \<Rightarrow> (j, if b = 1 then c * - 1 else c)
     | Pauli_X \<Rightarrow> (j XOR push_bit (unat q) 1, c)
     | Pauli_Y \<Rightarrow> (j XOR push_bit (unat q) 1, if b = 0 then c * \<i> else c * - \<i>))"

definition pauli_image :: "pauli_string \<Rightarrow> nat \<Rightarrow> nat \<times> complex" where
  "pauli_image ps i = fold (pauli_step i) ps (i, 1)"

definition expectation_pauli :: "complex list \<Rightarrow> u32 \<Rightarrow> pauli_string \<Rightarrow> real run" where
  "expectation_pauli sv nq ps =
     (let is = [0..<push_bit (unat nq) 1] in
      if list_ex (\<lambda>(q, _). 64 \<le> unat q) ps \<or> list_ex (\<lambda>i. length sv \<le> i \<or> length sv \<le> fst (pauli_image ps i)) is
      then Panicked
      else Done (Re (sum_list (map (\<lambda>i. case pauli_image ps i of (j, c) \<Rightarrow> cnj (sv ! j) * c * sv ! i) is))))"

fun observable_loop :: "complex list \<Rightarrow> u32 \<Rightarrow> observable \<Rightarrow> real \<Rightarrow> real run" where
  "observable_loop sv n [] acc = Done acc"
| "observable_loop sv n ((coeff, ps) # ts) acc =
     bind_run (expectation_pauli sv n ps) (\<lambda>v. observable_loop sv n ts (acc + coeff * v))"

definition statevector_of :: "exec_result run \<Rightarrow> complex list run" where
  "statevector_of r = bind_run r (\<lambda>x. case x of Statevector sv \<Rightarrow> Done sv | Counts _ \<Rightarrow> Panicked)"

definition analytic_config :: exec_config where
  "analytic_config = \<lparr>cfg_shots = None, cfg_seed = None, cfg_mode = Skip\<rparr>"

definition sv_expectation :: "sv_env \<Rightarrow> circuit_ir \<Rightarrow> binding \<Rightarrow> observable \<Rightarrow> real run" where
  "sv_expectation h c b a =
     unless_error (refuse_qudits c ''statevector'')
       (unless_error (validate_qubits (cir_qubits c) a)
         (bind_run (or_fail (prepare_for_expectation c a)) (\<lambda>(d, a').
           bind_run (statevector_of (execute h d b analytic_config)) (\<lambda>sv.
             observable_loop sv (cir_qubits d) a' 0))))"

fun all_observables :: "complex list \<Rightarrow> u32 \<Rightarrow> observable list \<Rightarrow> real list run" where
  "all_observables sv n [] = Done []"
| "all_observables sv n (a # as) =
     bind_run (observable_loop sv n a 0) (\<lambda>v. bind_run (all_observables sv n as) (\<lambda>vs. Done (v # vs)))"

fun validate_all :: "u32 \<Rightarrow> observable list \<Rightarrow> omega_error option" where
  "validate_all n [] = None"
| "validate_all n (a # as) = (case validate_qubits n a of Some e \<Rightarrow> Some e | None \<Rightarrow> validate_all n as)"

definition sv_expectation_multi :: "sv_env \<Rightarrow> circuit_ir \<Rightarrow> binding \<Rightarrow> observable list \<Rightarrow> real list run" where
  "sv_expectation_multi h c b as =
     unless_error (refuse_qudits c ''statevector'')
       (if as = [] then Done []
        else unless_error (validate_all (cir_qubits c) as)
          (bind_run (or_fail (prepare_for_expectation_multi c as)) (\<lambda>(d, as').
            bind_run (statevector_of (execute h d b analytic_config)) (\<lambda>sv.
              all_observables sv (cir_qubits d) as'))))"

section \<open>Pauli strings as operators\<close>

fun pauli_matrix :: "pauli_op \<Rightarrow> gate1q" where
  "pauli_matrix Pauli_I = [1, 0, 0, 1]" | "pauli_matrix Pauli_X = gate_x"
| "pauli_matrix Pauli_Y = gate_y" | "pauli_matrix Pauli_Z = gate_z"

definition pauli_apply :: "pauli_string \<Rightarrow> complex list \<Rightarrow> complex list" where
  "pauli_apply ps = fold (\<lambda>(q, p). dense_1q (unat q) (pauli_matrix p)) ps"

definition braket :: "complex list \<Rightarrow> complex list \<Rightarrow> complex" where
  "braket a b = (\<Sum>x<length a. cnj (a ! x) * b ! x)"

definition valid_string :: "nat \<Rightarrow> pauli_string \<Rightarrow> bool" where
  "valid_string n ps \<longleftrightarrow> distinct (map fst ps) \<and> (\<forall>(q, p) \<in> set ps. unat q < n)"

definition flip_at :: "pauli_string \<Rightarrow> nat \<Rightarrow> bool" where
  "flip_at ps q \<longleftrightarrow> (\<exists>(r, p) \<in> set ps. unat r = q \<and> p \<in> {Pauli_X, Pauli_Y})"

lemma flip_at_unfold: "flip_at ps (unat q) \<longleftrightarrow> (\<exists>p. (q, p) \<in> set ps \<and> p \<in> {Pauli_X, Pauli_Y})"
  unfolding flip_at_def word_unat_eq_iff [of _ q, symmetric] by blast

fun factor :: "nat \<Rightarrow> u32 \<times> pauli_op \<Rightarrow> complex" where
  "factor i (q, Pauli_I) = 1" | "factor i (q, Pauli_X) = 1"
| "factor i (q, Pauli_Z) = (if bit i (unat q) then - 1 else 1)"
| "factor i (q, Pauli_Y) = (if bit i (unat q) then - \<i> else \<i>)"

lemma length_pauli_apply [simp]: "length (pauli_apply ps st) = length st"
  by (induction ps arbitrary: st) (auto simp: pauli_apply_def)

lemma bit_low: "(drop_bit q i mod 2 = Suc 0) = bit i q" "(drop_bit q i mod 2 = (0 :: nat)) = (\<not> bit i q)"
  by (simp_all add: mod_2_eq_odd bit_iff_odd_drop_bit)

lemma pauli_image_snoc:
  "pauli_image (ps @ [(q, p)]) i =
     (if p \<in> {Pauli_X, Pauli_Y} then fst (pauli_image ps i) XOR 2 ^ unat q else fst (pauli_image ps i),
      snd (pauli_image ps i) * factor i (q, p))"
  by (cases "pauli_image ps i"; cases p) (simp_all add: pauli_image_def pauli_step_def Let_def bit_low)

lemma bit_xor_exp: "bit (j XOR 2 ^ q) k = (bit (j :: nat) k \<noteq> (k = q))"
  by (auto simp: bit_xor_iff bit_exp_iff)

lemma pauli_image_bit:
  "distinct (map fst ps) \<Longrightarrow> bit (fst (pauli_image ps i)) k = (bit i k \<noteq> flip_at ps k)"
proof (induction ps rule: rev_induct)
  case Nil
  then show ?case by (simp add: pauli_image_def flip_at_def)
next
  case (snoc x ps)
  obtain q p where x: "x = (q, p)" by (cases x)
  have "\<not> flip_at ps (unat q)" using snoc.prems by (force simp: x flip_at_def word_unat_eq_iff)
  then have "flip_at (ps @ [x]) k = (flip_at ps k \<noteq> (k = unat q \<and> p \<in> {Pauli_X, Pauli_Y}))"
    by (auto simp: x flip_at_def)
  then show ?case using snoc by (auto simp: x pauli_image_snoc bit_xor_exp)
qed

lemma pauli_image_coeff: "snd (pauli_image ps i) = prod_list (map (factor i) ps)"
  by (induction ps rule: rev_induct) (auto simp: pauli_image_snoc, simp add: pauli_image_def)

lemma factor_cong: "bit i (unat (fst x)) = bit j (unat (fst x)) \<Longrightarrow> factor i x = factor j x"
  by (cases x; cases "snd x") auto

text \<open>The operator moves the amplitude of an index to its image, times the coefficient.\<close>

lemma pauli_apply_image:
  assumes "length st = 2 ^ n" "valid_string n ps" "i < 2 ^ n"
  shows "fst (pauli_image ps i) < 2 ^ n \<and>
    pauli_apply ps st ! fst (pauli_image ps i) = snd (pauli_image ps i) * st ! i"
  using assms(2)
proof (induction ps rule: rev_induct)
  case Nil
  then show ?case using assms(3) by (simp add: pauli_image_def pauli_apply_def)
next
  case (snoc x ps)
  obtain q p where x: "x = (q, p)" by (cases x)
  have v: "valid_string n ps" "distinct (map fst ps)" "unat q < n" "q \<notin> fst ` set ps"
    using snoc.prems by (auto simp: valid_string_def x)
  let ?j = "fst (pauli_image ps i)" and ?c = "snd (pauli_image ps i)"
  have ih: "?j < 2 ^ n" "pauli_apply ps st ! ?j = ?c * st ! i" using snoc.IH [OF v(1)] by blast+
  have b: "bit ?j (unat q) = bit i (unat q)"
  proof -
    have "\<not> flip_at ps (unat q)" using v(4) by (force simp: flip_at_def word_unat_eq_iff)
    then show ?thesis by (simp add: pauli_image_bit [OF v(2)])
  qed
  have flip: "?j XOR 2 ^ unat q = put_bit (unat q) (\<not> bit ?j (unat q)) ?j"
    by (rule bit_eqI) (auto simp: bit_xor_exp bit_put_bit)
  have same: "put_bit (unat q) (bit ?j (unat q)) ?j = ?j" by (rule put_bit_same)
  have less: "put_bit (unat q) z ?j < 2 ^ n" for z using put_bit_less [OF ih(1) v(3)] .
  have app: "pauli_apply (ps @ [x]) st = dense_1q (unat q) (pauli_matrix p) (pauli_apply ps st)"
    by (simp add: pauli_apply_def x)
  show ?case
  proof (cases "p \<in> {Pauli_X, Pauli_Y}")
    case True
    then have im: "fst (pauli_image (ps @ [x]) i) = put_bit (unat q) (\<not> bit ?j (unat q)) ?j"
      by (simp only: x pauli_image_snoc if_True fst_conv flip)
    have "pauli_apply (ps @ [x]) st ! put_bit (unat q) (\<not> bit ?j (unat q)) ?j = factor i (q, p) * (?c * st ! i)"
      using True same less [of "\<not> bit ?j (unat q)"] b assms(1) ih(2)
      by (cases "bit i (unat q)") (auto simp: app dense_1q_def bit_put_bit gate_x_def gate_y_def numeral_2_eq_2 numeral_3_eq_3)
    then show ?thesis
      unfolding im using less by (simp add: x pauli_image_snoc mult.commute mult.left_commute)
  next
    case False
    then have im: "fst (pauli_image (ps @ [x]) i) = ?j" by (simp add: x pauli_image_snoc)
    have "pauli_apply (ps @ [x]) st ! ?j = factor i (q, p) * (?c * st ! i)"
      using False same ih b assms(1)
      by (cases p; cases "bit i (unat q)") (auto simp: app dense_1q_def gate_z_def numeral_2_eq_2 numeral_3_eq_3)
    then show ?thesis
      unfolding im using ih(1) by (simp add: x pauli_image_snoc mult.commute mult.left_commute)
  qed
qed

text \<open>The image is an involution whose coefficients are conjugate.\<close>

lemma pauli_image_involution:
  assumes "distinct (map fst ps)"
  shows "fst (pauli_image ps (fst (pauli_image ps i))) = i"
    "snd (pauli_image ps (fst (pauli_image ps i))) = cnj (snd (pauli_image ps i))"
proof -
  show "fst (pauli_image ps (fst (pauli_image ps i))) = i"
    by (rule bit_eqI) (auto simp: pauli_image_bit [OF assms])
  have "factor (fst (pauli_image ps i)) x = cnj (factor i x)" if "x \<in> set ps" for x
  proof -
    obtain q p where x: "x = (q, p)" by (cases x)
    have "p' = p" if "(q, p') \<in> set ps" for p'
      using eq_key_imp_eq_value [OF assms that] \<open>x \<in> set ps\<close> x by simp
    then have "flip_at ps (unat q) = (p \<in> {Pauli_X, Pauli_Y})"
      using \<open>x \<in> set ps\<close> x unfolding flip_at_unfold by blast
    then have "bit (fst (pauli_image ps i)) (unat q) = (bit i (unat q) \<noteq> (p \<in> {Pauli_X, Pauli_Y}))"
      by (simp add: pauli_image_bit [OF assms])
    then show ?thesis by (cases p) (auto simp: x)
  qed
  then have "prod_list (map (factor (fst (pauli_image ps i))) ps) = prod_list (map (\<lambda>x. cnj (factor i x)) ps)"
    by (metis (no_types, lifting) map_cong)
  also have "\<dots> = cnj (prod_list (map (factor i) ps))" by (induction ps) auto
  finally show "snd (pauli_image ps (fst (pauli_image ps i))) = cnj (snd (pauli_image ps i))"
    by (simp add: pauli_image_coeff)
qed

lemma pauli_image_bij:
  assumes "valid_string n ps"
  shows "bij_betw (\<lambda>i. fst (pauli_image ps i)) {..<2 ^ n} {..<2 ^ n}"
proof -
  have d: "distinct (map fst ps)" using assms by (simp add: valid_string_def)
  have "fst (pauli_image ps i) < 2 ^ n" if "i < 2 ^ n" for i
    using pauli_apply_image [of "replicate (2 ^ n) 0" n ps i] assms that by simp
  then show ?thesis
    using pauli_image_involution(1) [OF d] by (intro bij_betw_byWitness [where f' = "\<lambda>i. fst (pauli_image ps i)"]) auto
qed

lemma braket_image:
  assumes "length st = 2 ^ n" "valid_string n ps"
  shows "braket st (pauli_apply ps st) =
    (\<Sum>i<2 ^ n. cnj (st ! fst (pauli_image ps i)) * snd (pauli_image ps i) * st ! i)"
proof -
  have "braket st (pauli_apply ps st) = (\<Sum>x<2 ^ n. cnj (st ! x) * pauli_apply ps st ! x)"
    by (simp add: braket_def assms(1))
  also have "\<dots> = (\<Sum>i<2 ^ n. cnj (st ! fst (pauli_image ps i)) * pauli_apply ps st ! fst (pauli_image ps i))"
    by (rule sum.reindex_bij_betw [OF pauli_image_bij [OF assms(2)], symmetric])
  also have "\<dots> = (\<Sum>i<2 ^ n. cnj (st ! fst (pauli_image ps i)) * snd (pauli_image ps i) * st ! i)"
    using pauli_apply_image [OF assms] by (intro sum.cong) (auto simp: mult.assoc)
  finally show ?thesis .
qed

lemma braket_real:
  assumes "length st = 2 ^ n" "valid_string n ps"
  shows "Im (braket st (pauli_apply ps st)) = 0"
proof -
  have d: "distinct (map fst ps)" using assms(2) by (simp add: valid_string_def)
  let ?j = "\<lambda>i. fst (pauli_image ps i)" and ?c = "\<lambda>i. snd (pauli_image ps i)"
  let ?f = "\<lambda>i. cnj (st ! ?j i) * ?c i * st ! i"
  have "cnj (\<Sum>i<2 ^ n. ?f i) = (\<Sum>i<2 ^ n. ?f (?j i))"
    unfolding cnj_sum by (intro sum.cong refl) (simp add: pauli_image_involution [OF d] mult.commute mult.left_commute)
  also have "\<dots> = (\<Sum>i<2 ^ n. ?f i)" by (rule sum.reindex_bij_betw [OF pauli_image_bij [OF assms(2)]])
  finally have "cnj (braket st (pauli_apply ps st)) = braket st (pauli_apply ps st)"
    unfolding braket_image [OF assms] .
  then show ?thesis by (metis Reals_cnj_iff complex_is_Real_iff)
qed

lemma expectation_pauli_value:
  assumes "length sv = 2 ^ unat n" "unat n \<le> 64" "valid_string (unat n) ps"
  shows "expectation_pauli sv n ps = Done (Re (braket sv (pauli_apply ps sv)))"
proof -
  have ok: "\<not> list_ex (\<lambda>(q, _). 64 \<le> unat q) ps"
    using assms(2,3) by (fastforce simp: valid_string_def list_ex_iff)
  have "fst (pauli_image ps i) < length sv" if "i < 2 ^ unat n" for i
    using pauli_apply_image [OF assms(1,3) that] assms(1) by simp
  then have "\<not> list_ex (\<lambda>i. length sv \<le> i \<or> length sv \<le> fst (pauli_image ps i)) [0..<2 ^ unat n]"
    using assms(1) by (auto simp: list_ex_iff not_le)
  moreover have "sum_list (map (\<lambda>i. case pauli_image ps i of (j, c) \<Rightarrow> cnj (sv ! j) * c * sv ! i) [0..<2 ^ unat n]) =
      braket sv (pauli_apply ps sv)"
    unfolding braket_image [OF assms(1,3)] by (simp add: sum_list_distinct_conv_sum_set case_prod_unfold atLeast0LessThan)
  ultimately show ?thesis
    using ok by (simp add: expectation_pauli_def Let_def)
qed

section \<open>Measuring and dephasing\<close>

text \<open>The part of a state on the indices whose bits at some positions are given, here by the set of the
  positions that are set.\<close>

definition project :: "nat set \<Rightarrow> nat set \<Rightarrow> complex list \<Rightarrow> complex list" where
  "project M A st = map (\<lambda>x. if \<forall>q \<in> M. bit x q = (q \<in> A) then st ! x else 0) [0..<length st]"

lemma length_project [simp]: "length (project M A st) = length st"
  by (simp add: project_def)

lemma project_cong: "M \<inter> A = M \<inter> B \<Longrightarrow> project M A st = project M B st"
  by (auto simp: project_def)

text \<open>Exactly one outcome matches an index.\<close>

lemma sum_outcomes:
  fixes f :: "nat \<Rightarrow> complex"
  assumes "finite M"
  shows "(\<Sum>A \<in> Pow M. if \<forall>q \<in> M. bit (x :: nat) q = (q \<in> A) then c else 0) = (c :: complex)"
proof -
  have "(\<forall>q \<in> M. bit x q = (q \<in> A)) = (A = {q \<in> M. bit x q})" if "A \<in> Pow M" for A using that by auto
  then have "(\<Sum>A \<in> Pow M. if \<forall>q \<in> M. bit x q = (q \<in> A) then c else 0) =
      (\<Sum>A \<in> Pow M. if A = {q \<in> M. bit x q} then c else 0)" by (intro sum.cong) auto
  also have "\<dots> = c" using assms by (subst sum.delta) auto
  finally show ?thesis .
qed

lemma dephased_sum:
  assumes "length st = 2 ^ n" "valid_string n ps" "finite M"
  shows "(\<Sum>A \<in> Pow M. braket (project M A st) (pauli_apply ps (project M A st))) =
    (if \<exists>q \<in> M. flip_at ps q then 0 else braket st (pauli_apply ps st))"
proof -
  have d: "distinct (map fst ps)" using assms(2) by (simp add: valid_string_def)
  let ?j = "\<lambda>i. fst (pauli_image ps i)" and ?c = "\<lambda>i. snd (pauli_image ps i)"
  let ?f = "\<lambda>i. cnj (st ! ?j i) * ?c i * st ! i"
  have j: "?j i < 2 ^ n" if "i < 2 ^ n" for i using pauli_apply_image [OF assms(1,2) that] by blast
  have bits: "bit (?j i) q = (bit i q \<noteq> flip_at ps q)" for i q by (rule pauli_image_bit [OF d])
  have "(\<Sum>A \<in> Pow M. braket (project M A st) (pauli_apply ps (project M A st))) =
      (\<Sum>A \<in> Pow M. \<Sum>i<2 ^ n. cnj (project M A st ! ?j i) * ?c i * project M A st ! i)"
    using braket_image [OF _ assms(2)] assms(1) by simp
  also have "\<dots> = (\<Sum>i<2 ^ n. \<Sum>A \<in> Pow M. cnj (project M A st ! ?j i) * ?c i * project M A st ! i)"
    by (rule sum.swap)
  also have "\<dots> = (\<Sum>i<2 ^ n. if \<exists>q \<in> M. flip_at ps q then 0 else ?f i)"
  proof (intro sum.cong refl)
    fix i :: nat assume "i \<in> {..<2 ^ n}"
    then have i: "i < 2 ^ n" by simp
    have "(\<Sum>A \<in> Pow M. cnj (project M A st ! ?j i) * ?c i * project M A st ! i) =
        (\<Sum>A \<in> Pow M. if \<forall>q \<in> M. bit i q = (q \<in> A) then (if \<exists>q \<in> M. flip_at ps q then 0 else ?f i) else 0)"
      using i j [OF i] assms(1) by (intro sum.cong refl) (auto simp: project_def bits)
    then show "(\<Sum>A \<in> Pow M. cnj (project M A st ! ?j i) * ?c i * project M A st ! i) =
        (if \<exists>q \<in> M. flip_at ps q then 0 else ?f i)"
      using sum_outcomes [OF assms(3)] by simp
  qed
  finally show ?thesis using braket_image [OF assms(1,2)] by auto
qed

text \<open>The value of an observable on a state.\<close>

definition obs_value :: "observable \<Rightarrow> complex list \<Rightarrow> real" where
  "obs_value a st = sum_list (map (\<lambda>(c, ps). c * Re (braket st (pauli_apply ps st))) a)"

definition valid_observable :: "nat \<Rightarrow> observable \<Rightarrow> bool" where
  "valid_observable n a \<longleftrightarrow> (\<forall>(c, ps) \<in> set a. valid_string n ps)"

lemma observable_loop_value:
  assumes "length sv = 2 ^ unat n" "unat n \<le> 64"
  shows "valid_observable (unat n) a \<Longrightarrow> observable_loop sv n a acc = Done (acc + obs_value a sv)"
proof (induction a arbitrary: acc)
  case (Cons t a)
  then show ?case
    using expectation_pauli_value [OF assms] by (cases t) (auto simp: valid_observable_def obs_value_def add.assoc)
qed (simp add: obs_value_def)

lemma flips_on_flip_at: "flips_on ms ps = (\<exists>q \<in> unat ` set ms. flip_at ps q)"
proof -
  have "flips_on ms ps = (\<exists>q \<in> set ms. \<exists>p. (q, p) \<in> set ps \<and> p \<in> {Pauli_X, Pauli_Y})"
    unfolding flips_on_def list_ex_iff by blast
  then show ?thesis by (simp only: flip_at_unfold bex_simps)
qed

lemma dephase_value:
  assumes "length st = 2 ^ n" "valid_observable n a"
  shows "obs_value (dephase ms a) st = (\<Sum>A \<in> Pow (unat ` set ms). obs_value a (project (unat ` set ms) A st))"
proof -
  let ?M = "unat ` set ms"
  have filter_form: "dephase ms a = filter (\<lambda>(_, ps). \<not> flips_on ms ps) a"
    by (auto simp: dephase_def flips_on_def list_ex_iff intro!: filter_True [symmetric])
  have "obs_value (filter (\<lambda>(_, ps). \<not> flips_on ms ps) a) st = (\<Sum>A \<in> Pow ?M. obs_value a (project ?M A st))"
    using assms(2)
  proof (induction a)
    case (Cons t a)
    obtain c ps where t: "t = (c, ps)" by (cases t)
    have v: "valid_string n ps" "valid_observable n a" using Cons.prems by (auto simp: t valid_observable_def)
    have "(\<Sum>A \<in> Pow ?M. Re (braket (project ?M A st) (pauli_apply ps (project ?M A st)))) =
        (if flips_on ms ps then 0 else Re (braket st (pauli_apply ps st)))"
      unfolding Re_sum [symmetric] dephased_sum [OF assms(1) v(1) finite_imageI [OF finite_set]]
      by (simp add: flips_on_flip_at)
    then have "(\<Sum>A \<in> Pow ?M. c * Re (braket (project ?M A st) (pauli_apply ps (project ?M A st)))) =
        (if flips_on ms ps then 0 else c * Re (braket st (pauli_apply ps st)))"
      by (simp add: sum_distrib_left [symmetric])
    then show ?case using Cons.IH [OF v(2)] by (simp add: t obs_value_def sum.distrib)
  qed (simp add: obs_value_def)
  then show ?thesis by (simp only: filter_form)
qed

section \<open>Properties\<close>

text \<open>The Pauli expectation is the inner product: for a string naming distinct qubits of the register,
  the loop over the indices returns the inner product of the state with its image under the Pauli matrices
  of the string, factor by factor, and that inner product is real.\<close>

theorem expectation_pauli_exact:
  assumes "length sv = 2 ^ unat n" "unat n \<le> 64" "valid_string (unat n) ps"
  shows "\<exists>e. expectation_pauli sv n ps = Done e \<and> complex_of_real e = braket sv (pauli_apply ps sv)"
  using expectation_pauli_value [OF assms] braket_real [OF assms(1,3)] by (auto simp: complex_eq_iff)

theorem expectation_pauli_exact_witness:
  "\<exists>e. expectation_pauli [3 / 5, 4 / 5] 1 [(0, Pauli_Y)] = Done e \<and>
     complex_of_real e = braket [3 / 5, 4 / 5] (pauli_apply [(0, Pauli_Y)] [3 / 5, 4 / 5])"
  using expectation_pauli_exact [of "[3 / 5, 4 / 5]" 1 "[(0, Pauli_Y)]"] by (simp add: valid_string_def)



end
