(* ===== verification/TableauRun.thy ===== *)
theory TableauRun
  imports Tableau SvExpect
begin

text \<open>
  The driver of the tableau backend, \<^verbatim>\<open>crates/omega-backend-pauli/src/sim.rs\<close>: gates and resets on a
  tableau, trajectories, sampling, exact probabilities and expectations.  The bits drawn by
  \<^verbatim>\<open>measure\<close> come from a stream, consumed only by a random outcome.  The integer sums that the code keeps
  in \<^verbatim>\<open>f64\<close> are real numbers.  The tableau of a run has \<open>2 n\<close> rows, so a stabilizer is row \<open>n + k\<close>.
\<close>

type_synonym coins = "bool stream"

section \<open>Gates\<close>

definition tab_1q :: "(nat \<Rightarrow> tableau \<Rightarrow> tableau option) \<Rightarrow> gate_op \<Rightarrow> tableau \<Rightarrow> tableau run" where
  "tab_1q f op t = bind_run (qubit_of op 0) (\<lambda>q. or_panic (f q t))"

definition tab_2q :: "(nat \<Rightarrow> nat \<Rightarrow> tableau \<Rightarrow> tableau option) \<Rightarrow> gate_op \<Rightarrow> tableau \<Rightarrow> tableau run" where
  "tab_2q f op t = bind_run (qubit_of op 0) (\<lambda>c. bind_run (qubit_of op 1) (\<lambda>b. or_panic (f c b t)))"

definition tab_cz :: "nat \<Rightarrow> nat \<Rightarrow> tableau \<Rightarrow> tableau option" where
  "tab_cz c b t = Option.bind (tab_h b t) (\<lambda>t. Option.bind (tab_cx c b t) (tab_h b))"

definition tab_cy :: "nat \<Rightarrow> nat \<Rightarrow> tableau \<Rightarrow> tableau option" where
  "tab_cy c b t = Option.bind (tab_sdg b t) (\<lambda>t. Option.bind (tab_cx c b t) (tab_s b))"

definition tab_swap :: "nat \<Rightarrow> nat \<Rightarrow> tableau \<Rightarrow> tableau option" where
  "tab_swap a b t = Option.bind (tab_cx a b t) (\<lambda>t. Option.bind (tab_cx b a t) (tab_cx a b))"

definition measure_draw :: "tableau \<Rightarrow> nat \<Rightarrow> coins \<Rightarrow> (bool \<times> tableau \<times> coins) run" where
  "measure_draw t q r = bind_run (or_panic (measure_qubit t q (shd r))) (\<lambda>(outcome, t').
     Done (outcome, t', if find_anticommuting t q = None then r else stl r))"

text \<open>\<open>None\<close> is the index panic of \<^verbatim>\<open>z_q.z[q] = true\<close>.\<close>

definition reset_outcome_is_determined :: "tableau \<Rightarrow> nat \<Rightarrow> bool option" where
  "reset_outcome_is_determined t q =
     (if tab_n t \<le> q then None
      else Some (\<not> list_ex (\<lambda>i. row_anticommutes (tab_rows t ! i) (z_row (tab_n t) q)) [tab_n t..<2 * tab_n t]))"

definition apply_reset_stabilizer :: "tableau \<Rightarrow> nat \<Rightarrow> coins \<Rightarrow> bool \<Rightarrow> (tableau \<times> coins) run" where
  "apply_reset_stabilizer t q r analytic =
     bind_run (if analytic then or_panic (reset_outcome_is_determined t q) else Done True) (\<lambda>determined.
       if \<not> determined then Failed (Unsupported (Random_reset q))
       else bind_run (measure_draw t q r) (\<lambda>(outcome, t', r').
         if outcome then bind_run (or_panic (tab_x q t')) (\<lambda>t''. Done (t'', r')) else Done (t', r')))"

definition apply_gate_tab :: "tableau \<Rightarrow> gate_op \<Rightarrow> coins \<Rightarrow> bool \<Rightarrow> (tableau \<times> coins) run" where
  "apply_gate_tab t op r analytic =
     (let one = (\<lambda>f. bind_run (tab_1q f op t) (\<lambda>t'. Done (t', r)));
          two = (\<lambda>f. bind_run (tab_2q f op t) (\<lambda>t'. Done (t', r)))
      in case op_gate op of
         H \<Rightarrow> one tab_h
       | X \<Rightarrow> one tab_x
       | Y \<Rightarrow> one tab_y
       | Z \<Rightarrow> one tab_z
       | S \<Rightarrow> one tab_s
       | Sdg \<Rightarrow> one tab_sdg
       | Sx \<Rightarrow> one tab_sx
       | Sxdg \<Rightarrow> one tab_sxdg
       | Id \<Rightarrow> Done (t, r)
       | Barrier \<Rightarrow> Done (t, r)
       | CX \<Rightarrow> two tab_cx
       | CZ \<Rightarrow> two tab_cz
       | CY \<Rightarrow> two tab_cy
       | Swap \<Rightarrow> two tab_swap
       | Reset \<Rightarrow> bind_run (qubit_of op 0) (\<lambda>q. apply_reset_stabilizer t q r analytic)
       | Measure \<Rightarrow> Done (t, r)
       | g \<Rightarrow> Failed (Unsupported (Gate_not_supported g)))"

fun apply_ops_tab :: "gate_op list \<Rightarrow> bool \<Rightarrow> tableau \<Rightarrow> coins \<Rightarrow> (tableau \<times> coins) run" where
  "apply_ops_tab [] analytic t r = Done (t, r)"
| "apply_ops_tab (op # ops) analytic t r =
     bind_run (apply_gate_tab t op r analytic) (\<lambda>(t', r'). apply_ops_tab ops analytic t' r')"

definition apply_circuit_tab :: "tableau \<Rightarrow> circuit_ir \<Rightarrow> coins \<Rightarrow> bool \<Rightarrow> (tableau \<times> coins) run" where
  "apply_circuit_tab t c r analytic = apply_ops_tab (cir_ops c) analytic t r"

section \<open>Sampling\<close>

text \<open>One operation of the collapse mode: the tableau, the classical bits and the coins.\<close>

definition collapse_op_tab :: "gate_op \<Rightarrow> tableau \<times> u8 list \<times> coins \<Rightarrow> (tableau \<times> u8 list \<times> coins) run" where
  "collapse_op_tab op = (\<lambda>(t, bits, r).
     if \<not> condition_satisfied op bits then Done (t, bits, r)
     else if op_gate op = Measure then
       bind_run (qubit_of op 0) (\<lambda>q. bind_run (measure_draw t q r) (\<lambda>(outcome, t', r').
         Done (t', set_cbit (op_cbit op) (if outcome then 1 else 0) bits, r')))
     else if op_gate op = Barrier then Done (t, bits, r)
     else bind_run (apply_gate_tab t op r False) (\<lambda>(t', r'). Done (t', bits, r')))"

fun collapse_ops_tab :: "gate_op list \<Rightarrow> tableau \<times> u8 list \<times> coins \<Rightarrow> (tableau \<times> u8 list \<times> coins) run" where
  "collapse_ops_tab [] s = Done s"
| "collapse_ops_tab (op # ops) s = bind_run (collapse_op_tab op s) (collapse_ops_tab ops)"

text \<open>Measuring the qubits that have a target and setting the target bits of the key.\<close>

fun measure_into :: "(nat \<times> u32) list \<Rightarrow> tableau \<Rightarrow> outcome \<Rightarrow> coins \<Rightarrow> (outcome \<times> coins) run" where
  "measure_into [] t o' r = Done (o', r)"
| "measure_into ((q, c) # qs) t o' r =
     bind_run (measure_draw t q r) (\<lambda>(outcome, t', r').
       bind_run (if outcome then or_panic (set_bit_at c 1 o') else Done o') (\<lambda>o''. measure_into qs t' o'' r'))"

text \<open>The target of every qubit: the classical bit of the last measurement that names it.\<close>

definition cbit_of :: "circuit_ir \<Rightarrow> u32 option list" where
  "cbit_of c = fold (\<lambda>(q, b) bs. if unat q < unat (cir_qubits c) then bs[unat q := Some b] else bs)
     (measure_pairs c) (replicate (unat (cir_qubits c)) None)"

definition shot_targets :: "circuit_ir \<Rightarrow> (nat \<times> u32) list" where
  "shot_targets c =
     (if counts_keyed_on_creg c False
      then List.map_filter (\<lambda>(q, target). map_option (\<lambda>b. (q, b)) target) (List.enumerate 0 (cbit_of c))
      else map (\<lambda>q. (q, of_nat q)) [0..<unat (cir_qubits c)])"

text \<open>One shot: its key and the coins left.  The slice of the classical bits panics past their end.\<close>

definition tab_shot :: "circuit_ir \<Rightarrow> mid_circuit_mode \<Rightarrow> u32 \<Rightarrow> coins \<Rightarrow> (outcome \<times> coins) run" where
  "tab_shot c mode width r =
     (let t = zero_state (unat (cir_qubits c)); bits = replicate (unat (cir_cbits c)) 0
      in bind_run (if mode = Collapse then collapse_ops_tab (cir_ops c) (t, bits, r)
           else bind_run (apply_circuit_tab t c r False) (\<lambda>(t', r'). Done (t', bits, r')))
         (\<lambda>(t', bits', r').
           if mode = Collapse \<and> 0 < cir_cbits c then
             (if length bits' < unat width then Panicked else Done (from_bits (take (unat width) bits'), r'))
           else measure_into (shot_targets c) t' (zeros width) r'))"

fun tab_shots :: "circuit_ir \<Rightarrow> mid_circuit_mode \<Rightarrow> u32 \<Rightarrow> nat \<Rightarrow> coins \<Rightarrow> counts \<Rightarrow> counts run" where
  "tab_shots c mode width 0 r m = Done m"
| "tab_shots c mode width (Suc k) r m =
     bind_run (tab_shot c mode width r) (\<lambda>(key, r'). tab_shots c mode width k r' (entry_add key 1 m))"

section \<open>Exact probabilities\<close>

text \<open>The early-out: a stabilizer without \<open>x\<close> bits whose eigenvalue on the basis state is \<open>-1\<close>.\<close>

definition rejects :: "pauli_row \<Rightarrow> nat \<Rightarrow> nat \<Rightarrow> bool" where
  "rejects s basis n =
     (\<not> list_ex id (row_x s) \<and>
      fold (\<lambda>q parity. if bit basis q then bxor parity (row_z s ! q) else parity) [0..<n] (row_sign s))"

text \<open>The product of the generators selected by the bits of \<open>sel\<close>: bits, phase count and sign.\<close>

fun group_loop :: "nat list \<Rightarrow> pauli_row \<Rightarrow> bool list \<times> bool list \<times> int \<Rightarrow> bool list \<times> bool list \<times> int" where
  "group_loop [] s p = p"
| "group_loop (q # qs) s (x, z, ph) =
     group_loop qs s (x[q := bxor (x ! q) (row_x s ! q)], z[q := bxor (z ! q) (row_z s ! q)],
       ph + pauli_mult_phase (x ! q) (z ! q) (row_x s ! q) (row_z s ! q))"

definition group_element :: "tableau \<Rightarrow> nat \<Rightarrow> nat \<Rightarrow> bool list \<times> bool list \<times> int \<times> bool" where
  "group_element t n sel =
     fold (\<lambda>k (x, z, ph, sg). if bit sel k then
         (let s = tab_rows t ! (tab_n t + k); (x', z', ph') = group_loop [0..<n] s (x, z, ph)
          in (x', z', ph', bxor sg (row_sign s)))
       else (x, z, ph, sg)) [0..<n] (replicate n False, replicate n False, 0, False)"

definition group_term :: "nat \<Rightarrow> nat \<Rightarrow> bool list \<times> bool list \<times> int \<times> bool \<Rightarrow> real" where
  "group_term n basis = (\<lambda>(x, z, ph, sg).
     if list_ex id x then 0
     else let parity = fold (\<lambda>q parity. if z ! q \<and> bit basis q then \<not> parity else parity) [0..<n] sg;
              phase = (ph mod 4 + 4) mod 4;
              phase_sign = (if phase = 0 then 1 else if phase = 2 then - 1 else 0)
          in if parity then - phase_sign else phase_sign)"

definition stabilizer_probability :: "tableau \<Rightarrow> nat \<Rightarrow> nat \<Rightarrow> real" where
  "stabilizer_probability t basis n =
     (if list_ex (\<lambda>k. rejects (tab_rows t ! (tab_n t + k)) basis n) [0..<n] then 0
      else sum_list (map (\<lambda>sel. group_term n basis (group_element t n sel)) [0..<2 ^ n]) / 2 ^ n)"

section \<open>Expectations\<close>

text \<open>\<open>mul_pauli_row\<close> works in place on the bits and the sign of its first argument.\<close>

definition mul_pauli_row :: "pauli_row \<Rightarrow> pauli_row \<Rightarrow> pauli_row" where
  "mul_pauli_row a row =
     (let (phase, a') = rowmult_loop [0..<row_n row] row 0 a;
          sg = bxor (row_sign a') (row_sign row)
      in a'\<lparr>row_sign := (if (phase mod 4 + 4) mod 4 = 2 then \<not> sg else sg)\<rparr>)"

fun pauli_bits :: "nat \<Rightarrow> pauli_string \<Rightarrow> pauli_row \<Rightarrow> pauli_row run" where
  "pauli_bits n [] p = Done p"
| "pauli_bits n ((q, Pauli_I) # ps) p = pauli_bits n ps p"
| "pauli_bits n ((q, Pauli_X) # ps) p =
     (if n \<le> unat q then Panicked else pauli_bits n ps (p\<lparr>row_x := (row_x p)[unat q := True]\<rparr>))"
| "pauli_bits n ((q, Pauli_Y) # ps) p =
     (if n \<le> unat q then Panicked
      else pauli_bits n ps (p\<lparr>row_x := (row_x p)[unat q := True], row_z := (row_z p)[unat q := True]\<rparr>))"
| "pauli_bits n ((q, Pauli_Z) # ps) p =
     (if n \<le> unat q then Panicked else pauli_bits n ps (p\<lparr>row_z := (row_z p)[unat q := True]\<rparr>))"

definition row_bit :: "nat \<Rightarrow> pauli_row \<Rightarrow> nat \<Rightarrow> bool" where
  "row_bit n r c = (if c < n then row_x r ! c else row_z r ! (c - n))"

text \<open>Reducing a generator by the pivots and keeping it at the first free column.\<close>

fun insert_row :: "nat \<Rightarrow> nat list \<Rightarrow> pauli_row \<Rightarrow> pauli_row option list \<Rightarrow> pauli_row option list" where
  "insert_row n [] row pivots = pivots"
| "insert_row n (c # cs) row pivots =
     (if \<not> row_bit n row c then insert_row n cs row pivots
      else case pivots ! c of
        Some b \<Rightarrow> insert_row n cs (mul_pauli_row row b) pivots
      | None \<Rightarrow> pivots[c := Some row])"

fun reduce_row :: "nat \<Rightarrow> nat list \<Rightarrow> pauli_row \<Rightarrow> pauli_row option list \<Rightarrow> pauli_row option" where
  "reduce_row n [] row pivots = Some row"
| "reduce_row n (c # cs) row pivots =
     (if \<not> row_bit n row c then reduce_row n cs row pivots
      else case pivots ! c of
        Some b \<Rightarrow> reduce_row n cs (mul_pauli_row row b) pivots
      | None \<Rightarrow> None)"

definition stabilizer_pivots :: "tableau \<Rightarrow> pauli_row option list" where
  "stabilizer_pivots t = (let n = tab_n t in
     fold (\<lambda>k. insert_row n [0..<2 * n] (tab_rows t ! (n + k))) [0..<n] (replicate (2 * n) None))"

text \<open>A checked build panics when the elimination leaves a residue.\<close>

definition stabilizer_expectation :: "bool \<Rightarrow> tableau \<Rightarrow> pauli_string \<Rightarrow> real run" where
  "stabilizer_expectation checked t ps =
     (let n = tab_n t in
      bind_run (pauli_bits n ps (row_identity n)) (\<lambda>p.
        if list_ex (\<lambda>k. row_anticommutes (tab_rows t ! (n + k)) p) [0..<n] then Done 0
        else case reduce_row n [0..<2 * n] p (stabilizer_pivots t) of
          None \<Rightarrow> Done 0
        | Some r \<Rightarrow>
            if checked \<and> (list_ex id (row_x r) \<or> list_ex id (row_z r)) then Panicked
            else Done (if row_sign r then - 1 else 1)))"

fun tab_observable_loop :: "bool \<Rightarrow> tableau \<Rightarrow> observable \<Rightarrow> real \<Rightarrow> real run" where
  "tab_observable_loop checked t [] acc = Done acc"
| "tab_observable_loop checked t ((c, ps) # ts) acc =
     bind_run (stabilizer_expectation checked t ps) (\<lambda>v. tab_observable_loop checked t ts (acc + c * v))"

section \<open>The backend\<close>

datatype tab_result = Tab_counts counts | Probabilities "real list"

text \<open>What the backend relies on outside the repository: the seeded and the unseeded generator, and whether
  the build checks its debug assertions.\<close>

record tab_env =
  coins_of :: "u64 \<Rightarrow> coins"
  coins_unseeded :: coins
  tab_checked :: bool

definition analytic_rng :: "tab_env \<Rightarrow> coins" where
  "analytic_rng h = coins_of h 0"

definition tab_width :: "circuit_ir \<Rightarrow> mid_circuit_mode \<Rightarrow> nat" where
  "tab_width c mode = counts_outcome_width c (counts_keyed_on_creg c (mode = Collapse \<and> 0 < cir_cbits c))"

definition tab_execute :: "tab_env \<Rightarrow> circuit_ir \<Rightarrow> binding \<Rightarrow> exec_config \<Rightarrow> tab_result run" where
  "tab_execute h c b cfg =
     unless_error (refuse_qudits c ''pauli'')
      (if cir_type c = Photonic then Failed (Unsupported Photonic_circuit)
       else let n = unat (cir_qubits c); width = tab_width c (cfg_mode cfg)
       in unless_error (if cfg_shots cfg \<noteq> None then check_counts_width width else None)
         (case cfg_shots cfg of
            Some shots \<Rightarrow>
              bind_run (tab_shots c (cfg_mode cfg) (of_nat width) (unat shots)
                  (case cfg_seed cfg of Some s \<Rightarrow> coins_of h s | None \<Rightarrow> coins_unseeded h) []) (\<lambda>m.
                Done (Tab_counts m))
          | None \<Rightarrow>
              if 24 < n then Failed (Unsupported Exact_mode_limit)
              else bind_run (apply_circuit_tab (zero_state n) c (analytic_rng h) True) (\<lambda>(t, r).
                Done (Probabilities (map (\<lambda>basis. stabilizer_probability t basis n) [0..<2 ^ n])))))"

definition tab_expectation :: "tab_env \<Rightarrow> circuit_ir \<Rightarrow> binding \<Rightarrow> observable \<Rightarrow> real run" where
  "tab_expectation h c b a =
     unless_error (refuse_qudits c ''pauli'')
       (unless_error (validate_qubits (cir_qubits c) a)
         (bind_run (or_fail (prepare_for_expectation c a)) (\<lambda>(d, a').
           bind_run (apply_circuit_tab (zero_state (unat (cir_qubits c))) d (analytic_rng h) True) (\<lambda>(t, r).
             tab_observable_loop (tab_checked h) t a' 0))))"

fun tab_observables :: "bool \<Rightarrow> tableau \<Rightarrow> observable list \<Rightarrow> real list run" where
  "tab_observables checked t [] = Done []"
| "tab_observables checked t (a # as) =
     bind_run (tab_observable_loop checked t a 0) (\<lambda>v.
       bind_run (tab_observables checked t as) (\<lambda>vs. Done (v # vs)))"

definition tab_expectation_multi :: "tab_env \<Rightarrow> circuit_ir \<Rightarrow> binding \<Rightarrow> observable list \<Rightarrow> real list run" where
  "tab_expectation_multi h c b as =
     unless_error (refuse_qudits c ''pauli'')
       (unless_error (validate_all (cir_qubits c) as)
         (bind_run (or_fail (prepare_for_expectation_multi c as)) (\<lambda>(d, as').
           if as' = [] then Done []
           else bind_run (apply_circuit_tab (zero_state (unat (cir_qubits d))) d (analytic_rng h) True) (\<lambda>(t, r).
             tab_observables (tab_checked h) t as'))))"

end
