(* ===== verification/PackedBits.thy ===== *)
theory PackedBits
  imports Prelude
begin

text \<open>
  Bit sets packed into 64-bit words, bit \<open>q\<close> at position \<open>q mod 64\<close> of word \<open>q div 64\<close>.  The
  Pauli keys, the Majorana keys and the shot outcomes of the runtime all store their bits so.
\<close>

definition count_ones :: "'a::len word \<Rightarrow> nat" where
  "count_ones w = length (filter (bit w) [0..<LENGTH('a)])"

text \<open>\<open>n.div_ceil(64)\<close>.\<close>

definition div_ceil64 :: "nat \<Rightarrow> nat" where
  "div_ceil64 n = (n + 63) div 64"

text \<open>\<open>(ws[q / 64] >> (q % 64)) & 1 == 1\<close>, and the two in-place writes.\<close>

definition wbit :: "u64 list \<Rightarrow> nat \<Rightarrow> bool" where
  "wbit ws q = (drop_bit (q mod 64) (ws ! (q div 64)) AND 1 = 1)"

definition wset :: "u64 list \<Rightarrow> nat \<Rightarrow> u64 list" where
  "wset ws q = ws[q div 64 := ws ! (q div 64) OR push_bit (q mod 64) 1]"

definition wclear :: "u64 list \<Rightarrow> nat \<Rightarrow> u64 list" where
  "wclear ws q = ws[q div 64 := ws ! (q div 64) AND NOT (push_bit (q mod 64) 1)]"

text \<open>Mask of the live bits of the final word of \<open>n\<close> bits.\<close>

definition tail_mask64 :: "nat \<Rightarrow> u64" where
  "tail_mask64 n = (let r = n mod 64 in if r = 0 then NOT 0 else push_bit r 1 - 1)"

section \<open>Reading and writing single bits\<close>

lemma wbit_bit: "wbit ws q = bit (ws ! (q div 64)) (q mod 64)"
  unfolding wbit_def and_one_eq by (simp add: bit_iff_odd_drop_bit odd_iff_mod_2_eq_one)

lemma wbit_wset:
  assumes "q div 64 < length ws"
  shows "wbit (wset ws q) p = (p = q \<or> wbit ws p)"
proof (cases "p div 64 = q div 64")
  case True
  then have "p mod 64 = q mod 64 \<longleftrightarrow> p = q" by (metis mult_div_mod_eq)
  with True assms show ?thesis
    by (auto simp: wbit_bit wset_def bit_or_iff bit_exp_iff)
next
  case False
  then show ?thesis by (auto simp: wbit_bit wset_def)
qed

lemma wbit_wclear:
  assumes "q div 64 < length ws"
  shows "wbit (wclear ws q) p = (p \<noteq> q \<and> wbit ws p)"
proof (cases "p div 64 = q div 64")
  case True
  then have "p mod 64 = q mod 64 \<longleftrightarrow> p = q" by (metis mult_div_mod_eq)
  with True assms show ?thesis
    by (auto simp: wbit_bit wclear_def bit_and_iff bit_not_iff bit_exp_iff)
next
  case False
  then show ?thesis by (auto simp: wbit_bit wclear_def)
qed

lemma length_wset [simp]: "length (wset ws q) = length ws"
  by (simp add: wset_def)

lemma length_wclear [simp]: "length (wclear ws q) = length ws"
  by (simp add: wclear_def)

lemma wbit_replicate0: "q div 64 < m \<Longrightarrow> \<not> wbit (replicate m 0) q"
  by (simp add: wbit_bit)

lemma div_ceil64_bound: "q < n \<Longrightarrow> q div 64 < div_ceil64 n"
  unfolding div_ceil64_def by linarith

lemma div_ceil64_word: "i < div_ceil64 n \<longleftrightarrow> 64 * i < n"
  unfolding div_ceil64_def by linarith

section \<open>Canonical padding\<close>

text \<open>Bits at or above \<open>n\<close> in the stored words are zero.\<close>

definition canonical :: "nat \<Rightarrow> u64 list \<Rightarrow> bool" where
  "canonical n ws \<longleftrightarrow> length ws = div_ceil64 n \<and> (\<forall>q. n \<le> q \<and> q div 64 < length ws \<longrightarrow> \<not> wbit ws q)"

lemma bit_tail_mask64:
  "i < 64 \<Longrightarrow> bit (tail_mask64 n) i = (n mod 64 = 0 \<or> i < n mod 64)"
proof -
  assume "i < 64"
  have "push_bit r 1 - 1 = (mask r :: u64)" for r
    by (simp add: mask_eq_exp_minus_1)
  with \<open>i < 64\<close> show ?thesis
    by (auto simp: tail_mask64_def Let_def bit_mask_iff bit_not_iff)
qed

lemma last_word_bits:
  fixes n m q :: nat
  assumes "64 * m < n" "n \<le> 64 * m + 64" "q div 64 = m"
  shows "(n mod 64 = 0 \<or> q mod 64 < n mod 64) = (q < n)"
proof -
  obtain k where k: "n = 64 * m + k" "0 < k" "k \<le> 64"
    using assms(1,2) by (metis add_le_cancel_left less_imp_add_positive)
  have q: "q = 64 * m + q mod 64" using assms(3) by (metis mult_div_mod_eq)
  have "q mod 64 < 64" by simp
  show ?thesis
  proof (cases "k = 64")
    case True
    then have "n mod 64 = 0" using k by simp
    then show ?thesis using q True k \<open>q mod 64 < 64\<close> by linarith
  next
    case False
    then have "n mod 64 = k" using k by simp
    then show ?thesis using q k by linarith
  qed
qed

lemma canonical_tail_mask:
  assumes len: "length ws = div_ceil64 n" and n: "0 < n"
  shows "canonical n (ws[div_ceil64 n - 1 := ws ! (div_ceil64 n - 1) AND tail_mask64 n])"
    and "q < n \<Longrightarrow> wbit (ws[div_ceil64 n - 1 := ws ! (div_ceil64 n - 1) AND tail_mask64 n]) q = wbit ws q"
proof -
  let ?m = "div_ceil64 n - 1"
  let ?ws = "ws[?m := ws ! ?m AND tail_mask64 n]"
  have m: "?m < length ws" and w: "64 * ?m < n" "n \<le> 64 * ?m + 64"
    using len n unfolding div_ceil64_def by auto
  have last: "n mod 64 = 0 \<or> q mod 64 < n mod 64 \<longleftrightarrow> q < n" if "q div 64 = ?m" for q
    using w that by (rule last_word_bits)
  have "\<not> wbit ?ws q" if q: "n \<le> q" "q div 64 < length ?ws" for q
  proof -
    have "q div 64 = ?m" using q w len by simp
    with last [OF this] q m show ?thesis
      by (simp add: wbit_bit bit_and_iff bit_tail_mask64)
  qed
  then show "canonical n ?ws" by (simp add: canonical_def len)
  show "wbit ?ws q = wbit ws q" if "q < n"
    using that last [of q] m
    by (cases "q div 64 = ?m") (auto simp: wbit_bit bit_and_iff bit_tail_mask64)
qed

lemma canonical_eqI:
  assumes "canonical n ws" "canonical n vs" "\<And>q. q < n \<Longrightarrow> wbit ws q = wbit vs q"
  shows "ws = vs"
proof (rule nth_equalityI)
  show "length ws = length vs" using assms by (simp add: canonical_def)
  fix i assume i: "i < length ws"
  have "bit (ws ! i) j = bit (vs ! i) j" if "j < 64" for j
  proof -
    have d: "(64 * i + j) div 64 = i" "(64 * i + j) mod 64 = j" using that by auto
    have len: "i < length ws" "i < length vs" using i assms(1,2) by (simp_all add: canonical_def)
    show ?thesis
    proof (cases "64 * i + j < n")
      case True
      then show ?thesis using assms(3) [of "64 * i + j"] that by (simp add: wbit_bit d)
    next
      case False
      then have "\<not> wbit ws (64 * i + j)" "\<not> wbit vs (64 * i + j)"
        using assms(1,2) len d by (simp_all add: canonical_def)
      then show ?thesis using that by (simp add: wbit_bit d)
    qed
  qed
  then show "ws ! i = vs ! i"
    by (intro bit_eqI) simp
qed

section \<open>Population counts\<close>

definition count_below :: "(nat \<Rightarrow> bool) \<Rightarrow> nat \<Rightarrow> nat" where
  "count_below P n = length (filter P [0..<n])"

lemma count_below_Suc: "count_below P (Suc n) = count_below P n + of_bool (P n)"
  by (simp add: count_below_def)

lemma count_below_add: "count_below P (n + m) = count_below P n + count_below (\<lambda>i. P (n + i)) m"
  by (induction m) (simp_all add: count_below_Suc count_below_def)

lemma count_below_cong: "(\<And>q. q < n \<Longrightarrow> P q = Q q) \<Longrightarrow> count_below P n = count_below Q n"
  unfolding count_below_def by (metis (mono_tags, lifting) atLeastLessThan_iff filter_cong set_upt)

lemma count_below_card: "count_below P n = card {q. q < n \<and> P q}"
proof -
  have "{q. q < n \<and> P q} = set (filter P [0..<n])" by auto
  then show ?thesis unfolding count_below_def by (metis distinct_card distinct_filter distinct_upt)
qed

lemma odd_count_below: "odd (count_below P n) = parity_of P n"
  by (simp add: count_below_def odd_length_filter_upt)

lemma count_ones_below: "count_ones (w :: u64) = count_below (bit w) 64"
  by (simp add: count_ones_def count_below_def)

lemma count_ones_words:
  "(\<Sum>i<m. count_ones (f i :: u64)) = count_below (\<lambda>q. bit (f (q div 64)) (q mod 64)) (64 * m)"
proof (induction m)
  case (Suc m)
  have "count_below (\<lambda>i. bit (f ((64 * m + i) div 64)) ((64 * m + i) mod 64)) 64 =
      count_below (bit (f m)) 64"
    by (rule count_below_cong) simp
  then show ?case
    using Suc count_below_add [of "\<lambda>q. bit (f (q div 64)) (q mod 64)" "64 * m" 64]
    by (simp add: count_ones_below add.commute)
qed (simp add: count_below_def)

lemma count_below_extend:
  assumes "n \<le> m" "\<And>q. n \<le> q \<Longrightarrow> q < m \<Longrightarrow> \<not> P q"
  shows "count_below P m = count_below P n"
proof -
  obtain k where m: "m = n + k" using assms(1) le_Suc_ex by blast
  have "filter (\<lambda>i. P (n + i)) [0..<k] = []" using assms(2) m by (auto simp: filter_empty_conv)
  then have "count_below (\<lambda>i. P (n + i)) k = 0" by (simp add: count_below_def)
  then show ?thesis using m by (simp add: count_below_add)
qed

lemma canonical_bound: "n \<le> 64 * div_ceil64 n"
  unfolding div_ceil64_def by linarith

section \<open>Iterating over set bits\<close>

text \<open>\<open>x.trailing_zeros()\<close> of a 64-bit word, and the loop
  \<open>while x != 0 { \<dots> x.trailing_zeros() \<dots>; x &= x - 1 }\<close> as the list of positions it visits.\<close>

definition trailing_zeros :: "u64 \<Rightarrow> nat" where
  "trailing_zeros x = length (takeWhile (\<lambda>i. \<not> bit x i) [0..<64])"

lemma ex_bit:
  fixes x :: u64
  assumes "x \<noteq> 0" shows "\<exists>i<64. bit x i"
proof (rule ccontr)
  assume "\<not> ?thesis"
  then have "x = 0" by (intro bit_eqI) auto
  with assms show False ..
qed

lemma split_upt64: "t < (64::nat) \<Longrightarrow> [0..<64] = [0..<t] @ t # [Suc t..<64]"
  using upt_add_eq_append [of 0 t "64 - t"] by (simp add: upt_conv_Cons)

lemma trailing_zeros_eqI:
  assumes "t < 64" "bit x t" "\<And>i. i < t \<Longrightarrow> \<not> bit x i"
  shows "trailing_zeros x = t"
proof -
  have "[0..<64] = [0..<t] @ t # [Suc t..<64]"
    using assms(1) by (rule split_upt64)
  then show ?thesis
    unfolding trailing_zeros_def using assms(2,3) by (simp add: takeWhile_append)
qed

lemma trailing_zeros_props:
  assumes "x \<noteq> 0"
  shows "trailing_zeros x < 64" "bit x (trailing_zeros x)" "i < trailing_zeros x \<Longrightarrow> \<not> bit x i"
proof -
  have ex: "\<exists>i. i < 64 \<and> bit x i" using ex_bit [OF assms] by blast
  let ?t = "LEAST i. i < 64 \<and> bit x i"
  have t: "?t < 64" "bit x ?t" using LeastI_ex [OF ex] by blast+
  have below: "\<not> bit x i" if "i < ?t" for i
  proof -
    have "i < 64" using that t(1) by linarith
    then show ?thesis using not_less_Least [OF that] by blast
  qed
  have eq: "trailing_zeros x = ?t" using t below by (rule trailing_zeros_eqI)
  show "trailing_zeros x < 64" using t(1) unfolding eq .
  show "bit x (trailing_zeros x)" using t(2) unfolding eq .
  show "i < trailing_zeros x \<Longrightarrow> \<not> bit x i" unfolding eq by (rule below)
qed

lemma pred_push_bit:
  fixes y :: u64
  assumes "odd y" "t < 64"
  shows "push_bit t y - 1 = push_bit t (y - 1) OR mask t"
proof -
  have d: "push_bit t (y - 1) AND mask t = 0"
    by (rule bit_eqI) (auto simp: bit_and_iff bit_push_bit_iff bit_mask_iff)
  have "push_bit t y = push_bit t (y - 1) + push_bit t 1"
    by (simp add: push_bit_eq_mult algebra_simps)
  moreover have "mask t = (push_bit t 1 - 1 :: u64)" by (simp add: mask_eq_exp_minus_1)
  ultimately have "push_bit t y - 1 = push_bit t (y - 1) + mask t" by simp
  also have "\<dots> = push_bit t (y - 1) OR mask t"
    using d by (simp add: disjunctive_add_eq_or)
  finally show ?thesis .
qed

lemma clear_lowest_bit:
  fixes x :: u64
  assumes "x \<noteq> 0"
  shows "bit (x AND (x - 1)) i = (bit x i \<and> i \<noteq> trailing_zeros x)"
proof (cases "i < 64")
  case i: True
  let ?t = "trailing_zeros x"
  note tz = trailing_zeros_props [OF assms]
  define y where "y = drop_bit ?t x"
  have x: "x = push_bit ?t y"
  proof (rule bit_eqI)
    fix j assume "possible_bit TYPE(64 word) j"
    then show "bit x j = bit (push_bit ?t y) j"
      using tz(3) [of j] by (cases "j < ?t") (auto simp: y_def bit_push_bit_iff bit_drop_bit_eq)
  qed
  have y: "odd y" using tz(2) by (simp add: y_def bit_iff_odd_drop_bit)
  have "(y AND NOT 1) + 1 = (y AND NOT 1) OR 1"
    by (intro disjunctive_add_eq_or bit_eqI) (auto simp: bit_and_iff bit_not_iff bit_1_iff)
  also have "\<dots> = y"
    using y by (intro bit_eqI) (auto simp: bit_or_iff bit_and_iff bit_not_iff bit_1_iff bit_0)
  finally have y1: "y - 1 = y AND NOT 1" by (metis add_diff_cancel_right')
  have "x AND (x - 1) = push_bit ?t y AND (push_bit ?t (y AND NOT 1) OR mask ?t)"
    using pred_push_bit [OF y tz(1)] x y1 by metis
  moreover have "bit \<dots> i = (bit (push_bit ?t y) i \<and> i \<noteq> ?t)"
    using i by (auto simp: bit_and_iff bit_or_iff bit_push_bit_iff bit_mask_iff bit_not_iff bit_1_iff)
  ultimately show ?thesis using x by metis
qed (auto simp: bit_and_iff dest: bit_imp_le_length)

function bit_loop :: "u64 \<Rightarrow> nat list" where
  "bit_loop x = (if x = 0 then [] else trailing_zeros x # bit_loop (x AND (x - 1)))"
  by pat_completeness auto

termination bit_loop
proof (relation "measure unat")
  fix x :: u64
  assume "x \<noteq> 0"
  then have "x AND (x - 1) < x"
    by (metis measure_unat unat_mono word_and_le2 word_less_nat_alt order_le_less_trans and.commute word_and_le1)
  then show "(x AND (x - 1), x) \<in> measure unat" by (simp add: word_less_nat_alt)
qed simp

declare bit_loop.simps [simp del]

lemma bit_loop_filter: "bit_loop x = filter (bit x) [0..<64]"
proof (induction x rule: bit_loop.induct)
  case (1 x)
  show ?case
  proof (cases "x = 0")
    case False
    let ?t = "trailing_zeros x" and ?y = "x AND (x - 1)"
    note tz = trailing_zeros_props [OF False]
    have below: "filter (bit x) [0..<?t] = []" "filter (bit ?y) [0..<?t] = []"
      using tz(3) by (auto simp: filter_empty_conv clear_lowest_bit [OF False])
    have above: "filter (bit ?y) [Suc ?t..<64] = filter (bit x) [Suc ?t..<64]"
      by (rule filter_cong) (auto simp: clear_lowest_bit [OF False])
    have "filter (bit x) [0..<64] = ?t # filter (bit ?y) [0..<64]"
      unfolding split_upt64 [OF tz(1)]
      using below above tz(2) by (simp add: clear_lowest_bit [OF False])
    then show ?thesis using 1 [OF False] False by (simp add: bit_loop.simps [of x])
  qed (simp add: bit_loop.simps)
qed

end
