(* ===== verification/PauliKey.thy ===== *)
theory PauliKey
  imports Complex_Main PackedBits
begin

text \<open>
  Packed Pauli strings and the propagating sum of
  \<^verbatim>\<open>crates/omega-backend-pauliprop/src/pauli.rs\<close>.  A key holds the \<open>x\<close> words followed by the
  \<open>z\<close> words.  The \<^verbatim>\<open>HashMap\<close> from keys to weighted coefficients is a finite map; coefficients
  are exact complex numbers where the code has pairs of \<^verbatim>\<open>f64\<close>.  Index panics are \<open>None\<close>.
\<close>

record pauli_key =
  key_words :: "u64 list"
  key_n :: u32

definition key_width :: "pauli_key \<Rightarrow> nat" where
  "key_width k = div_ceil64 (unat (key_n k))"

definition key_identity :: "nat \<Rightarrow> pauli_key" where
  "key_identity n = \<lparr>key_words = replicate (2 * div_ceil64 n) 0, key_n = of_nat n\<rparr>"

text \<open>The loop of \<^verbatim>\<open>from_bits\<close> over the zipped bits, position by position.\<close>

fun from_bits_loop :: "nat \<Rightarrow> nat \<Rightarrow> (bool \<times> bool) list \<Rightarrow> u64 list \<Rightarrow> u64 list" where
  "from_bits_loop w q [] ws = ws"
| "from_bits_loop w q ((bx, bz) # bs) ws =
     (let ws1 = (if bx then wset ws q else ws);
          ws2 = (if bz then ws1[w + q div 64 := ws1 ! (w + q div 64) OR push_bit (q mod 64) 1] else ws1)
      in from_bits_loop w (Suc q) bs ws2)"

definition key_from_bits :: "bool list \<Rightarrow> bool list \<Rightarrow> pauli_key" where
  "key_from_bits x z =
     (let n = length x; w = div_ceil64 n
      in \<lparr>key_words = from_bits_loop w 0 (zip x z) (replicate (2 * w) 0), key_n = of_nat n\<rparr>)"

definition key_from_words :: "u64 list \<Rightarrow> u64 list \<Rightarrow> nat \<Rightarrow> pauli_key option" where
  "key_from_words x z n =
     (let w = div_ceil64 n
      in if length x < w \<or> length z < w then None
         else let ws = take w x @ take w z; m = tail_mask64 n;
                  ws' = (if 0 < w
                         then (let v = ws[w - 1 := ws ! (w - 1) AND m]
                               in v[2 * w - 1 := v ! (2 * w - 1) AND m])
                         else ws)
              in Some \<lparr>key_words = ws', key_n = of_nat n\<rparr>)"

definition x_words :: "pauli_key \<Rightarrow> u64 list" where
  "x_words k = take (key_width k) (key_words k)"

definition z_words :: "pauli_key \<Rightarrow> u64 list" where
  "z_words k = drop (key_width k) (key_words k)"

definition key_x :: "pauli_key \<Rightarrow> nat \<Rightarrow> bool option" where
  "key_x k q = (if q div 64 < length (key_words k) then Some (wbit (key_words k) q) else None)"

definition key_z :: "pauli_key \<Rightarrow> nat \<Rightarrow> bool option" where
  "key_z k q =
     (let i = key_width k + q div 64
      in if i < length (key_words k)
         then Some (drop_bit (q mod 64) (key_words k ! i) AND 1 = 1) else None)"

definition key_set_x :: "pauli_key \<Rightarrow> nat \<Rightarrow> bool \<Rightarrow> pauli_key option" where
  "key_set_x k q v =
     (if q div 64 < length (key_words k)
      then Some (k\<lparr>key_words := (if v then wset (key_words k) q else wclear (key_words k) q)\<rparr>)
      else None)"

definition key_set_z :: "pauli_key \<Rightarrow> nat \<Rightarrow> bool \<Rightarrow> pauli_key option" where
  "key_set_z k q v =
     (let i = key_width k + q div 64; b = push_bit (q mod 64) 1; ws = key_words k
      in if i < length ws
         then Some (k\<lparr>key_words := (if v then ws[i := ws ! i OR b] else ws[i := ws ! i AND NOT b])\<rparr>)
         else None)"

definition key_weight :: "pauli_key \<Rightarrow> nat" where
  "key_weight k =
     sum_list (map (\<lambda>i. count_ones (key_words k ! i OR key_words k ! (key_width k + i))) [0..<key_width k])"

definition key_is_all_iz :: "pauli_key \<Rightarrow> bool" where
  "key_is_all_iz k = list_all (\<lambda>v. v = 0) (x_words k)"

definition key_anticommutes_with :: "pauli_key \<Rightarrow> u64 list \<Rightarrow> u64 list \<Rightarrow> bool option" where
  "key_anticommutes_with k gx gz =
     (let w = key_width k; ws = key_words k
      in if length gx < w \<or> length gz < w then None
         else Some (odd (fold (\<lambda>i acc. acc + count_ones (ws ! i AND gz ! i)
                                           + count_ones (ws ! (w + i) AND gx ! i)) [0..<w] 0)))"

definition mul_raw_packed :: "u64 list \<Rightarrow> u64 list \<Rightarrow> pauli_key \<Rightarrow> (pauli_key \<times> int) option" where
  "mul_raw_packed gx gz key =
     (let w = key_width key; ws = key_words key
      in if length gx < w \<or> length gz < w then None
         else let (neg, out) = fold (\<lambda>i (neg, out).
                  (neg + count_ones (gz ! i AND ws ! i),
                   (out[i := gx ! i XOR ws ! i])[w + i := gz ! i XOR ws ! (w + i)])) [0..<w] (0, ws)
              in Some (key\<lparr>key_words := out\<rparr>, if even neg then 1 else - 1))"

section \<open>The propagating sum\<close>

record weighted =
  coeff :: complex
  freq :: u32

record pauli_sum =
  sum_terms :: "pauli_key \<rightharpoonup> weighted"
  dropped_mass :: real
  support :: "u64 list"

definition sum_new :: pauli_sum where
  "sum_new = \<lparr>sum_terms = Map.empty, dropped_mass = 0, support = []\<rparr>"

definition note_support :: "pauli_key \<Rightarrow> u64 list \<Rightarrow> u64 list" where
  "note_support k acc =
     (let w = key_width k; ws = key_words k;
          acc1 = (if length acc < w then acc @ replicate (w - length acc) 0 else acc)
      in fold (\<lambda>i s. s[i := s ! i OR (ws ! i OR ws ! (w + i))]) [0..<w] acc1)"

definition add_weighted :: "pauli_key \<Rightarrow> complex \<Rightarrow> u32 \<Rightarrow> pauli_sum \<Rightarrow> pauli_sum" where
  "add_weighted k c f s =
     s\<lparr>support := note_support k (support s),
       sum_terms := (sum_terms s)(k \<mapsto> (case sum_terms s k of
           Some w \<Rightarrow> \<lparr>coeff = coeff w + c, freq = min (freq w) f\<rparr>
         | None \<Rightarrow> \<lparr>coeff = c, freq = f\<rparr>))\<rparr>"

definition sum_add :: "pauli_key \<Rightarrow> complex \<Rightarrow> pauli_sum \<Rightarrow> pauli_sum" where
  "sum_add k c s = add_weighted k c 0 s"

definition touches_qubit :: "pauli_sum \<Rightarrow> nat \<Rightarrow> bool" where
  "touches_qubit s q = (if q div 64 < length (support s) then wbit (support s) q else False)"

definition word_or_zero :: "u64 list \<Rightarrow> nat \<Rightarrow> u64" where
  "word_or_zero ws i = (if i < length ws then ws ! i else 0)"

definition overlaps :: "pauli_sum \<Rightarrow> u64 list \<Rightarrow> u64 list \<Rightarrow> bool" where
  "overlaps s gx gz =
     list_ex (\<lambda>i. support s ! i AND (word_or_zero gx i OR word_or_zero gz i) \<noteq> 0) [0..<length (support s)]"

definition term_dropped :: "real \<Rightarrow> nat option \<Rightarrow> u32 option \<Rightarrow> pauli_key \<Rightarrow> weighted \<Rightarrow> bool" where
  "term_dropped coeff_min max_weight max_freq k w =
     (let too_small = cmod (coeff w) < coeff_min;
          too_heavy = (case max_weight of Some m \<Rightarrow> m < key_weight k | None \<Rightarrow> False);
          too_deep = (case max_freq of Some m \<Rightarrow> m < freq w | None \<Rightarrow> False)
      in too_small \<or> too_heavy \<or> too_deep)"

text \<open>\<^verbatim>\<open>retain\<close> visits the terms in the map's order; the exact sum does not depend on it.\<close>

definition sum_truncate :: "real \<Rightarrow> nat option \<Rightarrow> u32 option \<Rightarrow> pauli_sum \<Rightarrow> pauli_sum" where
  "sum_truncate coeff_min max_weight max_freq s =
     (let gone = (\<lambda>k. case sum_terms s k of
                    Some w \<Rightarrow> term_dropped coeff_min max_weight max_freq k w | None \<Rightarrow> False)
      in s\<lparr>sum_terms := (\<lambda>k. if gone k then None else sum_terms s k),
           dropped_mass := dropped_mass s +
             (\<Sum>k \<in> {k \<in> dom (sum_terms s). gone k}. cmod (coeff (the (sum_terms s k))))\<rparr>)"


section \<open>Keys as bit strings\<close>

definition xbit :: "pauli_key \<Rightarrow> nat \<Rightarrow> bool" where
  "xbit k q = wbit (x_words k) q"

definition zbit :: "pauli_key \<Rightarrow> nat \<Rightarrow> bool" where
  "zbit k q = wbit (z_words k) q"

definition canonical_key :: "pauli_key \<Rightarrow> bool" where
  "canonical_key k \<longleftrightarrow> length (key_words k) = 2 * key_width k \<and>
     canonical (unat (key_n k)) (x_words k) \<and> canonical (unat (key_n k)) (z_words k)"

lemma canonical_key_words:
  assumes "canonical_key k" "i < key_width k"
  shows "i < length (key_words k)" "key_width k + i < length (key_words k)"
    "x_words k ! i = key_words k ! i" "z_words k ! i = key_words k ! (key_width k + i)"
  using assms by (auto simp: canonical_key_def x_words_def z_words_def)

lemma canonical_key_off:
  assumes "canonical_key k" "unat (key_n k) \<le> q" "q < 64 * key_width k"
  shows "\<not> xbit k q" "\<not> zbit k q"
proof -
  have "q div 64 < key_width k" using assms(3) by auto
  with assms show "\<not> xbit k q" "\<not> zbit k q"
    by (auto simp: canonical_key_def canonical_def xbit_def zbit_def key_width_def)
qed

lemma canonical_key_eqI:
  assumes "canonical_key k" "canonical_key k'" "key_n k = key_n k'"
    and "\<And>q. q < unat (key_n k) \<Longrightarrow> xbit k q = xbit k' q \<and> zbit k q = zbit k' q"
  shows "k = k'"
proof -
  have "x_words k = x_words k'" "z_words k = z_words k'"
    using assms canonical_eqI unfolding canonical_key_def xbit_def zbit_def by metis+
  moreover have "key_words k'' = x_words k'' @ z_words k''" for k''
    by (simp add: x_words_def z_words_def)
  ultimately have "key_words k = key_words k'" by metis
  with assms(3) show ?thesis by simp
qed

lemma key_x_bit:
  assumes "canonical_key k" "q < unat (key_n k)"
  shows "key_x k q = Some (xbit k q)" "key_z k q = Some (zbit k q)"
proof -
  have w: "q div 64 < key_width k"
    using assms(2) by (simp add: key_width_def div_ceil64_bound)
  note c = canonical_key_words [OF assms(1) w]
  show "key_x k q = Some (xbit k q)"
    using c by (simp add: key_x_def xbit_def wbit_bit)
  show "key_z k q = Some (zbit k q)"
    using c wbit_def [of "z_words k" q] by (simp add: key_z_def Let_def zbit_def)
qed

lemma sum_list_upt_sum: "sum_list (map f [0..<m]) = (\<Sum>i<m. f i :: nat)"
  by (simp add: interv_sum_list_conv_sum_set_nat atLeast0LessThan)

lemma key_weight_card:
  assumes "canonical_key k"
  shows "key_weight k = card {q. q < unat (key_n k) \<and> (xbit k q \<or> zbit k q)}"
proof -
  let ?P = "\<lambda>q. bit (x_words k ! (q div 64) OR z_words k ! (q div 64)) (q mod 64)"
  have "key_weight k = (\<Sum>i<key_width k. count_ones (x_words k ! i OR z_words k ! i))"
    unfolding key_weight_def sum_list_upt_sum
    using canonical_key_words [OF assms] by (intro sum.cong) auto
  also have "\<dots> = count_below ?P (64 * key_width k)"
    by (rule count_ones_words)
  also have "\<dots> = count_below ?P (unat (key_n k))"
  proof (rule count_below_extend)
    show "unat (key_n k) \<le> 64 * key_width k" by (simp add: key_width_def canonical_bound)
    fix q assume "unat (key_n k) \<le> q" "q < 64 * key_width k"
    from canonical_key_off [OF assms this] show "\<not> ?P q"
      by (simp add: xbit_def zbit_def wbit_bit bit_or_iff)
  qed
  finally show ?thesis
    by (simp add: count_below_card xbit_def zbit_def wbit_bit bit_or_iff)
qed

lemma parity_words:
  assumes "n \<le> 64 * m" "\<And>q. n \<le> q \<Longrightarrow> q < 64 * m \<Longrightarrow> \<not> bit (f (q div 64) :: u64) (q mod 64)"
  shows "odd (\<Sum>i<m. count_ones (f i)) = parity_of (\<lambda>q. bit (f (q div 64)) (q mod 64)) n"
  using assms by (simp add: count_ones_words count_below_extend odd_count_below)

lemma fold_add_sum:
  "fold (\<lambda>i acc. acc + f i + g i) [0..<m] a = a + (\<Sum>i<m. f i) + (\<Sum>i<m. g i :: nat)"
  by (induction m) auto

text \<open>\<open>gbit g q\<close> reads bit \<open>q\<close> of a generator's words.\<close>

abbreviation gbit :: "u64 list \<Rightarrow> nat \<Rightarrow> bool" where
  "gbit \<equiv> wbit"

lemma key_anticommutes_with_parity:
  assumes c: "canonical_key k" and g: "key_width k \<le> length gx" "key_width k \<le> length gz"
  shows "key_anticommutes_with k gx gz = Some (parity_of
    (\<lambda>q. bxor (xbit k q \<and> gbit gz q) (zbit k q \<and> gbit gx q)) (unat (key_n k)))"
proof -
  let ?w = "key_width k" and ?n = "unat (key_n k)"
  have nw: "?n \<le> 64 * ?w" by (simp add: key_width_def canonical_bound)
  have x: "odd (\<Sum>i<?w. count_ones (x_words k ! i AND gz ! i)) = parity_of (\<lambda>q. xbit k q \<and> gbit gz q) ?n"
    using canonical_key_off(1) [OF c] parity_words [OF nw, of "\<lambda>i. x_words k ! i AND gz ! i"]
    by (simp add: bit_and_iff xbit_def wbit_bit)
  have z: "odd (\<Sum>i<?w. count_ones (z_words k ! i AND gx ! i)) = parity_of (\<lambda>q. zbit k q \<and> gbit gx q) ?n"
    using canonical_key_off(2) [OF c] parity_words [OF nw, of "\<lambda>i. z_words k ! i AND gx ! i"]
    by (simp add: bit_and_iff zbit_def wbit_bit)
  have "(\<Sum>i<?w. count_ones (key_words k ! i AND gz ! i)) = (\<Sum>i<?w. count_ones (x_words k ! i AND gz ! i))"
    "(\<Sum>i<?w. count_ones (key_words k ! (?w + i) AND gx ! i)) = (\<Sum>i<?w. count_ones (z_words k ! i AND gx ! i))"
    using canonical_key_words [OF c] by (auto intro!: sum.cong)
  then have "key_anticommutes_with k gx gz =
      Some (odd ((\<Sum>i<?w. count_ones (x_words k ! i AND gz ! i)) +
                 (\<Sum>i<?w. count_ones (z_words k ! i AND gx ! i))))"
    using g by (simp add: key_anticommutes_with_def Let_def fold_add_sum)
  also have "\<dots> = Some (bxor (odd (\<Sum>i<?w. count_ones (x_words k ! i AND gz ! i)))
                          (odd (\<Sum>i<?w. count_ones (z_words k ! i AND gx ! i))))"
    by auto
  finally show ?thesis unfolding x z parity_of_bxor .
qed

text \<open>The product loop.\<close>

lemma mul_fold:
  assumes "m \<le> w" "length ws = 2 * w"
  shows "\<exists>out. fold (\<lambda>i (neg, out). (neg + count_ones (gz ! i AND ws ! i),
             (out[i := gx ! i XOR ws ! i])[w + i := gz ! i XOR ws ! (w + i)])) [0..<m] (0, ws)
      = ((\<Sum>i<m. count_ones (gz ! i AND ws ! i)), out) \<and> length out = 2 * w \<and>
    (\<forall>i < w. out ! i = (if i < m then gx ! i XOR ws ! i else ws ! i) \<and>
             out ! (w + i) = (if i < m then gz ! i XOR ws ! (w + i) else ws ! (w + i)))"
  using assms
proof (induction m)
  case (Suc m)
  then obtain out where out: "fold (\<lambda>i (neg, out). (neg + count_ones (gz ! i AND ws ! i),
             (out[i := gx ! i XOR ws ! i])[w + i := gz ! i XOR ws ! (w + i)])) [0..<m] (0, ws)
      = ((\<Sum>i<m. count_ones (gz ! i AND ws ! i)), out)" and len: "length out = 2 * w"
    and nth: "\<forall>i < w. out ! i = (if i < m then gx ! i XOR ws ! i else ws ! i) \<and>
             out ! (w + i) = (if i < m then gz ! i XOR ws ! (w + i) else ws ! (w + i))"
    by auto
  let ?out = "(out[m := gx ! m XOR ws ! m])[w + m := gz ! m XOR ws ! (w + m)]"
  have "\<forall>i < w. ?out ! i = (if i < Suc m then gx ! i XOR ws ! i else ws ! i) \<and>
             ?out ! (w + i) = (if i < Suc m then gz ! i XOR ws ! (w + i) else ws ! (w + i))"
    using nth len Suc.prems by (auto simp: nth_list_update less_Suc_eq)
  then show ?case using out len by simp
qed simp

lemma mul_raw_facts:
  assumes c: "canonical_key k" and gc: "canonical (unat (key_n k)) gx" "canonical (unat (key_n k)) gz"
    and m: "mul_raw_packed gx gz k = Some (k', sg)"
  shows mul_raw_canonical: "canonical_key k'"
    and mul_raw_n: "key_n k' = key_n k"
    and mul_raw_xbit: "q < unat (key_n k) \<Longrightarrow> xbit k' q = bxor (gbit gx q) (xbit k q)"
    and mul_raw_zbit: "q < unat (key_n k) \<Longrightarrow> zbit k' q = bxor (gbit gz q) (zbit k q)"
    and mul_raw_sign: "sg = (if parity_of (\<lambda>q. gbit gz q \<and> xbit k q) (unat (key_n k)) then - 1 else 1)"
proof -
  let ?w = "key_width k" and ?n = "unat (key_n k)" and ?ws = "key_words k"
  have len: "length ?ws = 2 * ?w" using c by (simp add: canonical_key_def)
  obtain out where out: "fold (\<lambda>i (neg, out). (neg + count_ones (gz ! i AND ?ws ! i),
             (out[i := gx ! i XOR ?ws ! i])[?w + i := gz ! i XOR ?ws ! (?w + i)])) [0..<?w] (0, ?ws)
      = ((\<Sum>i<?w. count_ones (gz ! i AND ?ws ! i)), out)" and lo: "length out = 2 * ?w"
    and nth: "\<forall>i < ?w. out ! i = gx ! i XOR ?ws ! i \<and> out ! (?w + i) = gz ! i XOR ?ws ! (?w + i)"
    using mul_fold [of ?w ?w ?ws gz gx] len by auto
  have k': "k' = k\<lparr>key_words := out\<rparr>"
    and s: "sg = (if even (\<Sum>i<?w. count_ones (gz ! i AND ?ws ! i)) then 1 else - 1)"
    using m unfolding mul_raw_packed_def Let_def out by (auto split: if_splits)
  have w': "key_width k' = ?w" by (simp add: k' key_width_def)
  have xw: "x_words k' ! i = gx ! i XOR x_words k ! i"
    and zw: "z_words k' ! i = gz ! i XOR z_words k ! i" if "i < ?w" for i
    using nth that lo canonical_key_words [OF c that]
    by (auto simp: x_words_def z_words_def w') (auto simp: k')
  have xb: "xbit k' q = bxor (gbit gx q) (xbit k q)" and zb: "zbit k' q = bxor (gbit gz q) (zbit k q)"
    if "q div 64 < ?w" for q
    using xw [OF that] zw [OF that] by (auto simp: xbit_def zbit_def wbit_bit bit_xor_iff)
  show "key_n k' = key_n k" by (simp add: k')
  show "canonical_key k'"
    using c gc lo xb zb
    unfolding canonical_key_def w' canonical_def
    by (auto simp: x_words_def z_words_def w' k' xbit_def zbit_def key_width_def)
  show "xbit k' q = bxor (gbit gx q) (xbit k q)" if "q < ?n"
    using that by (intro xb) (simp add: key_width_def div_ceil64_bound)
  show "zbit k' q = bxor (gbit gz q) (zbit k q)" if "q < ?n"
    using that by (intro zb) (simp add: key_width_def div_ceil64_bound)
  have "odd (\<Sum>i<?w. count_ones (gz ! i AND x_words k ! i)) = parity_of (\<lambda>q. gbit gz q \<and> xbit k q) ?n"
    using canonical_key_off(1) [OF c] parity_words [of ?n ?w "\<lambda>i. gz ! i AND x_words k ! i"]
    by (simp add: bit_and_iff xbit_def wbit_bit key_width_def canonical_bound)
  moreover have "(\<Sum>i<?w. count_ones (gz ! i AND ?ws ! i)) = (\<Sum>i<?w. count_ones (gz ! i AND x_words k ! i))"
    using canonical_key_words [OF c] by (auto intro!: sum.cong)
  ultimately show "sg = (if parity_of (\<lambda>q. gbit gz q \<and> xbit k q) ?n then - 1 else 1)"
    using s by auto
qed

section \<open>Constructors\<close>

lemma from_bits_loop_bits:
  assumes "length ws = 2 * w" "\<And>i. i < length bs \<Longrightarrow> (q + i) div 64 < w"
  shows "length (from_bits_loop w q bs ws) = 2 * w \<and>
    (\<forall>p. p div 64 < w \<longrightarrow>
      wbit (take w (from_bits_loop w q bs ws)) p =
        (wbit (take w ws) p \<or> (q \<le> p \<and> p < q + length bs \<and> fst (bs ! (p - q)))) \<and>
      wbit (drop w (from_bits_loop w q bs ws)) p =
        (wbit (drop w ws) p \<or> (q \<le> p \<and> p < q + length bs \<and> snd (bs ! (p - q)))))"
  using assms
proof (induction w q bs ws rule: from_bits_loop.induct)
  case (2 w q bx bz bs ws)
  let ?ws1 = "if bx then wset ws q else ws"
  let ?ws2 = "if bz then ?ws1[w + q div 64 := ?ws1 ! (w + q div 64) OR push_bit (q mod 64) 1] else ?ws1"
  have q: "q div 64 < w" using "2.prems"(2) [of 0] by simp
  have len: "length ?ws2 = 2 * w" using "2.prems"(1) by simp
  have rng: "(Suc q + i) div 64 < w" if "i < length bs" for i
    using "2.prems"(2) [of "Suc i"] that by simp
  note IH = "2.IH" [OF refl refl len rng]
  have tk: "take w ?ws2 = (if bx then wset (take w ws) q else take w ws)"
    using q "2.prems"(1) by (auto simp: wset_def take_update_swap list_update_beyond)
  have x: "wbit (take w ?ws2) p = (wbit (take w ws) p \<or> p = q \<and> bx)" for p
    unfolding tk using q "2.prems"(1) wbit_wset [of q "take w ws" p] by auto
  have dr: "drop w ?ws2 = (if bz then wset (drop w ws) q else drop w ws)"
    using q "2.prems"(1) by (auto simp: wset_def drop_update_swap)
  have z: "wbit (drop w ?ws2) p = (wbit (drop w ws) p \<or> p = q \<and> bz)" for p
    unfolding dr using q "2.prems"(1) wbit_wset [of q "drop w ws" p] by auto
  have sh: "q \<le> p \<and> p < q + length ((bx, bz) # bs) \<and> P (((bx, bz) # bs) ! (p - q)) \<longleftrightarrow>
      p = q \<and> P (bx, bz) \<or> Suc q \<le> p \<and> p < Suc q + length bs \<and> P (bs ! (p - Suc q))" for p P
    by (cases "p = q") (auto simp: nth_Cons' Suc_diff_Suc less_Suc_eq_le)
  show ?case
    unfolding from_bits_loop.simps Let_def sh using IH x z by auto
qed auto

lemma from_bits_facts:
  assumes len: "length z = length x" and n: "length x < 2 ^ 32"
  shows from_bits_canonical: "canonical_key (key_from_bits x z)"
    and from_bits_n: "unat (key_n (key_from_bits x z)) = length x"
    and from_bits_x: "q < length x \<Longrightarrow> xbit (key_from_bits x z) q = x ! q"
    and from_bits_z: "q < length x \<Longrightarrow> zbit (key_from_bits x z) q = z ! q"
proof -
  let ?w = "div_ceil64 (length x)"
  let ?ws = "from_bits_loop ?w 0 (zip x z) (replicate (2 * ?w) 0)"
  have rng: "(0 + i) div 64 < ?w" if "i < length (zip x z)" for i
    using that by (simp add: div_ceil64_bound)
  have L: "length ?ws = 2 * ?w"
    "p div 64 < ?w \<Longrightarrow> wbit (take ?w ?ws) p = (p < length x \<and> x ! p)"
    "p div 64 < ?w \<Longrightarrow> wbit (drop ?w ?ws) p = (p < length x \<and> z ! p)" for p
    using from_bits_loop_bits [of "replicate (2 * ?w) 0" ?w "zip x z" 0, OF _ rng] len
    by (auto simp: wbit_replicate0)
  show nn: "unat (key_n (key_from_bits x z)) = length x"
    using n by (simp add: key_from_bits_def Let_def unat_of_nat)
  have kw: "key_width (key_from_bits x z) = ?w" by (simp add: key_width_def nn)
  have ws: "key_words (key_from_bits x z) = ?ws" by (simp add: key_from_bits_def Let_def)
  have xb: "xbit (key_from_bits x z) q = (q < length x \<and> x ! q)"
    and zb: "zbit (key_from_bits x z) q = (q < length x \<and> z ! q)" if "q div 64 < ?w" for q
    using L(2,3) [OF that]
    by (simp_all add: xbit_def zbit_def x_words_def z_words_def kw ws)
  show "canonical_key (key_from_bits x z)"
    using L(1) xb zb
    by (auto simp: canonical_key_def canonical_def kw ws nn xbit_def zbit_def x_words_def z_words_def)
  show "xbit (key_from_bits x z) q = x ! q" "zbit (key_from_bits x z) q = z ! q" if "q < length x"
    using that xb zb by (simp_all add: div_ceil64_bound)
qed

lemma identity_canonical:
  assumes "n < 2 ^ 32"
  shows "canonical_key (key_identity n)" "unat (key_n (key_identity n)) = n"
    "key_weight (key_identity n) = 0"
proof -
  show n: "unat (key_n (key_identity n)) = n" using assms by (simp add: key_identity_def unat_of_nat)
  then show c: "canonical_key (key_identity n)"
    by (auto simp: canonical_key_def canonical_def key_identity_def key_width_def x_words_def
        z_words_def wbit_replicate0)
  have "\<not> xbit (key_identity n) q" "\<not> zbit (key_identity n) q" if "q < n" for q
    using that div_ceil64_bound [OF that] n
    by (simp_all add: xbit_def zbit_def x_words_def z_words_def key_width_def)
      (simp_all add: key_identity_def wbit_replicate0)
  then have "{q. q < n \<and> (xbit (key_identity n) q \<or> zbit (key_identity n) q)} = {}" by auto
  then show "key_weight (key_identity n) = 0" by (simp only: key_weight_card [OF c] n) simp
qed

section \<open>The support mask\<close>

lemma note_support_fold:
  assumes "m \<le> length acc"
  shows "length (fold (\<lambda>i s. s[i := s ! i OR f i]) [0..<m] acc) = length acc \<and>
    (\<forall>i < length acc. fold (\<lambda>i s. s[i := s ! i OR f i]) [0..<m] acc ! i =
       (if i < m then acc ! i OR (f i :: u64) else acc ! i))"
  using assms by (induction m) (auto simp: nth_list_update less_Suc_eq)

lemma note_support_bits:
  assumes c: "canonical_key k"
  shows "key_width k \<le> length (note_support k acc)" "length acc \<le> length (note_support k acc)"
    and "q div 64 < length (note_support k acc) \<Longrightarrow> wbit (note_support k acc) q =
      ((q div 64 < length acc \<and> wbit acc q) \<or> (q div 64 < key_width k \<and> (xbit k q \<or> zbit k q)))"
proof -
  let ?w = "key_width k"
  let ?a = "if length acc < ?w then acc @ replicate (?w - length acc) 0 else acc"
  have le: "?w \<le> length ?a" by simp
  note F = note_support_fold [OF le, of "\<lambda>i. key_words k ! i OR key_words k ! (?w + i)"]
  have ns: "note_support k acc = fold (\<lambda>i s. s[i := s ! i OR (key_words k ! i OR key_words k ! (?w + i))])
      [0..<?w] ?a"
    by (simp add: note_support_def Let_def)
  then show "key_width k \<le> length (note_support k acc)" "length acc \<le> length (note_support k acc)"
    using F by auto
  assume q: "q div 64 < length (note_support k acc)"
  have old: "bit (?a ! (q div 64)) (q mod 64) = (q div 64 < length acc \<and> wbit acc q)"
    using q F ns by (auto simp: wbit_bit nth_append)
  have new: "bit (key_words k ! (q div 64) OR key_words k ! (?w + q div 64)) (q mod 64) =
      (xbit k q \<or> zbit k q)" if "q div 64 < ?w"
    using canonical_key_words [OF c that] by (simp add: xbit_def zbit_def wbit_bit bit_or_iff)
  show "wbit (note_support k acc) q =
      ((q div 64 < length acc \<and> wbit acc q) \<or> (q div 64 < ?w \<and> (xbit k q \<or> zbit k q)))"
  proof (cases "q div 64 < ?w")
    case True
    then have "wbit (note_support k acc) q =
        bit (?a ! (q div 64) OR (key_words k ! (q div 64) OR key_words k ! (?w + q div 64))) (q mod 64)"
      using F q ns by (auto simp: wbit_bit)
    also have "\<dots> = (bit (?a ! (q div 64)) (q mod 64) \<or>
        bit (key_words k ! (q div 64) OR key_words k ! (?w + q div 64)) (q mod 64))"
      by (simp only: bit_or_iff)
    finally show ?thesis using True by (simp only: old new) simp
  next
    case False
    then have "wbit (note_support k acc) q = bit (?a ! (q div 64)) (q mod 64)"
      using F q ns by (auto simp: wbit_bit)
    then show ?thesis using False by (simp only: old) simp
  qed
qed

text \<open>All keys of a sum are canonical strings on the same \<open>n\<close> qubits, and the mask covers them.\<close>

definition sum_inv :: "u32 \<Rightarrow> pauli_sum \<Rightarrow> bool" where
  "sum_inv n s \<longleftrightarrow> finite (dom (sum_terms s)) \<and>
     (\<forall>k \<in> dom (sum_terms s). canonical_key k \<and> key_n k = n \<and>
        (\<forall>q < unat n. xbit k q \<or> zbit k q \<longrightarrow> touches_qubit s q))"

lemma sum_new_inv: "sum_inv n sum_new"
  by (simp add: sum_inv_def sum_new_def)

lemma touches_add_weighted:
  assumes "canonical_key k"
  shows "touches_qubit (add_weighted k c f s) q =
    (touches_qubit s q \<or> (q div 64 < key_width k \<and> (xbit k q \<or> zbit k q)))"
  using note_support_bits [OF assms, where acc = "support s"]
  by (auto simp: touches_qubit_def add_weighted_def)

lemma add_weighted_inv:
  assumes "sum_inv n s" "canonical_key k" "key_n k = n"
  shows "sum_inv n (add_weighted k c f s)"
proof -
  have "touches_qubit (add_weighted k c f s) q" if "q < unat n" "xbit k q \<or> zbit k q" for q
    using that assms div_ceil64_bound [of q "unat n"]
    by (simp add: touches_add_weighted key_width_def)
  moreover have "touches_qubit (add_weighted k c f s) q" if "touches_qubit s q" for q
    using that assms(2) by (simp add: touches_add_weighted)
  ultimately show ?thesis
    using assms unfolding sum_inv_def by (auto simp: add_weighted_def split: if_splits)
qed

lemma truncate_inv: "sum_inv n s \<Longrightarrow> sum_inv n (sum_truncate cm mw mf s)"
  unfolding sum_inv_def sum_truncate_def Let_def touches_qubit_def
  by (auto elim!: finite_subset [rotated] split: if_splits)

lemma overlaps_bits:
  "overlaps s gx gz = (\<exists>q. q div 64 < length (support s) \<and> wbit (support s) q \<and>
     (q div 64 < length gx \<and> wbit gx q \<or> q div 64 < length gz \<and> wbit gz q))"
proof -
  have bit64: "w \<noteq> 0 \<longleftrightarrow> (\<exists>j<64. bit (w :: u64) j)" for w
    using bit_eq_iff [of w 0] by (auto simp: bit_imp_possible_bit)
  have wz: "bit (word_or_zero g i) j = (i < length g \<and> bit (g ! i) j)" for g i j
    by (simp add: word_or_zero_def)
  have "overlaps s gx gz = (\<exists>i<length (support s). \<exists>j<64. bit (support s ! i) j \<and>
      (i < length gx \<and> bit (gx ! i) j \<or> i < length gz \<and> bit (gz ! i) j))"
    by (auto simp: overlaps_def list_ex_iff bit64 bit_and_iff bit_or_iff wz)
  also have "\<dots> = (\<exists>q. q div 64 < length (support s) \<and> wbit (support s) q \<and>
     (q div 64 < length gx \<and> wbit gx q \<or> q div 64 < length gz \<and> wbit gz q))"
  proof safe
    fix i j assume "i < length (support s)" "j < (64::nat)" and b: "bit (support s ! i) j"
    moreover have "(64 * i + j) div 64 = i" "(64 * i + j) mod 64 = j" using \<open>j < 64\<close> by auto
    ultimately show "i < length gx \<Longrightarrow> bit (gx ! i) j \<Longrightarrow> \<exists>q. q div 64 < length (support s) \<and>
       wbit (support s) q \<and> (q div 64 < length gx \<and> wbit gx q \<or> q div 64 < length gz \<and> wbit gz q)"
      and "i < length gz \<Longrightarrow> bit (gz ! i) j \<Longrightarrow> \<exists>q. q div 64 < length (support s) \<and>
       wbit (support s) q \<and> (q div 64 < length gx \<and> wbit gx q \<or> q div 64 < length gz \<and> wbit gz q)"
      by (metis wbit_bit)+
  next
    fix q assume q: "q div 64 < length (support s)" "wbit (support s) q"
    have m: "q mod 64 < 64" by simp
    show "q div 64 < length gx \<Longrightarrow> wbit gx q \<Longrightarrow> \<exists>i<length (support s). \<exists>j<64. bit (support s ! i) j \<and>
      (i < length gx \<and> bit (gx ! i) j \<or> i < length gz \<and> bit (gz ! i) j)"
      and "q div 64 < length gz \<Longrightarrow> wbit gz q \<Longrightarrow> \<exists>i<length (support s). \<exists>j<64. bit (support s ! i) j \<and>
      (i < length gx \<and> bit (gx ! i) j \<or> i < length gz \<and> bit (gz ! i) j)"
      using q m unfolding wbit_bit by blast+
  qed
  finally show ?thesis .
qed

lemma no_overlap_commutes:
  assumes inv: "sum_inv n s" and no: "\<not> overlaps s gx gz" and k: "k \<in> dom (sum_terms s)"
    and g: "key_width k \<le> length gx" "key_width k \<le> length gz"
  shows "key_anticommutes_with k gx gz = Some False"
proof -
  have c: "canonical_key k" and n: "key_n k = n"
    and t: "\<And>q. q < unat n \<Longrightarrow> xbit k q \<or> zbit k q \<Longrightarrow> touches_qubit s q"
    using inv k by (auto simp: sum_inv_def)
  have "\<not> bxor (xbit k q \<and> gbit gz q) (zbit k q \<and> gbit gx q)" if q: "q < unat n" for q
  proof -
    have "q div 64 < key_width k" using q n by (simp add: key_width_def div_ceil64_bound)
    then show ?thesis
      using t [OF q] no g unfolding overlaps_bits touches_qubit_def
      by (metis order_less_le_trans)
  qed
  then have "\<not> parity_of (\<lambda>q. bxor (xbit k q \<and> gbit gz q) (zbit k q \<and> gbit gx q)) (unat (key_n k))"
    unfolding n by (rule parity_of_False)
  then show ?thesis by (simp only: key_anticommutes_with_parity [OF c g])
qed

section \<open>The value of a sum and the certified truncation error\<close>

definition sum_value :: "(pauli_key \<Rightarrow> complex) \<Rightarrow> pauli_sum \<Rightarrow> complex" where
  "sum_value e s = (\<Sum>k \<in> dom (sum_terms s). coeff (the (sum_terms s k)) * e k)"

lemma add_weighted_value:
  assumes "finite (dom (sum_terms s))"
  shows "sum_value e (add_weighted k c f s) = sum_value e s + c * e k"
proof -
  let ?D = "dom (sum_terms s)"
  have same: "(\<Sum>k' \<in> ?D - {k}. coeff (the (sum_terms (add_weighted k c f s) k')) * e k') =
      (\<Sum>k' \<in> ?D - {k}. coeff (the (sum_terms s k')) * e k')"
    by (intro sum.cong) (auto simp: add_weighted_def)
  have dom: "dom (sum_terms (add_weighted k c f s)) = insert k ?D"
    by (auto simp: add_weighted_def)
  have at: "coeff (the (sum_terms (add_weighted k c f s) k)) =
      (if k \<in> ?D then coeff (the (sum_terms s k)) + c else c)"
    by (auto simp: add_weighted_def split: option.splits)
  show ?thesis
  proof (cases "k \<in> ?D")
    case True
    then show ?thesis
      using assms at same unfolding sum_value_def dom
      by (simp add: insert_absorb sum.remove [of ?D k] algebra_simps)
  next
    case False
    then show ?thesis
      using assms at same unfolding sum_value_def dom by (simp add: algebra_simps)
  qed
qed

lemma truncate_error:
  assumes fin: "finite (dom (sum_terms s))" and b: "\<And>k. cmod (e k) \<le> 1"
  shows "cmod (sum_value e s - sum_value e (sum_truncate cm mw mf s)) \<le>
    dropped_mass (sum_truncate cm mw mf s) - dropped_mass s"
proof -
  let ?D = "dom (sum_terms s)"
  let ?gone = "\<lambda>k. case sum_terms s k of Some w \<Rightarrow> term_dropped cm mw mf k w | None \<Rightarrow> False"
  let ?G = "{k \<in> ?D. ?gone k}"
  let ?v = "\<lambda>k. coeff (the (sum_terms s k))"
  have dom: "dom (sum_terms (sum_truncate cm mw mf s)) = ?D - ?G"
    by (auto simp: sum_truncate_def split: if_splits)
  have "sum_value e (sum_truncate cm mw mf s) = (\<Sum>k \<in> ?D - ?G. ?v k * e k)"
    unfolding sum_value_def dom by (intro sum.cong) (auto simp: sum_truncate_def)
  then have "sum_value e s - sum_value e (sum_truncate cm mw mf s) = (\<Sum>k \<in> ?G. ?v k * e k)"
    using fin sum.subset_diff [of ?G ?D "\<lambda>k. ?v k * e k"] by (simp add: sum_value_def)
  also have "cmod \<dots> \<le> (\<Sum>k \<in> ?G. cmod (?v k * e k))" by (rule norm_sum)
  also have "\<dots> \<le> (\<Sum>k \<in> ?G. cmod (?v k))"
    using b by (intro sum_mono) (simp add: norm_mult mult_left_le)
  finally show ?thesis by (simp add: sum_truncate_def Let_def)
qed

section \<open>The support check\<close>

text \<open>\<^verbatim>\<open>support_superset_violation\<close>: the keys are visited in the map's iteration order, which is
  the argument.\<close>

definition recomputed_support :: "pauli_key list \<Rightarrow> u64 list" where
  "recomputed_support ks = fold note_support ks []"

definition support_superset_violation :: "pauli_key list \<Rightarrow> pauli_sum \<Rightarrow> (nat \<times> u64 \<times> u64) option" where
  "support_superset_violation ks s =
     (let r = recomputed_support ks
      in case find (\<lambda>i. r ! i AND NOT (word_or_zero (support s) i) \<noteq> 0) [0..<length r] of
           Some i \<Rightarrow> Some (i, r ! i, word_or_zero (support s) i) | None \<Rightarrow> None)"

lemma recomputed_support_bits:
  assumes "\<forall>k \<in> set ks. canonical_key k \<and> key_n k = n"
    "\<And>q. q div 64 < length acc \<Longrightarrow> wbit acc q \<Longrightarrow> P q"
    "\<And>k q. k \<in> set ks \<Longrightarrow> q < unat n \<Longrightarrow> xbit k q \<or> zbit k q \<Longrightarrow> P q"
    "q div 64 < length (fold note_support ks acc)" "wbit (fold note_support ks acc) q"
  shows "P q"
  using assms
proof (induction ks arbitrary: acc)
  case (Cons k ks)
  have c: "canonical_key k" "key_n k = n" using Cons.prems(1) by auto
  show ?case
  proof (rule Cons.IH [of "note_support k acc"])
    fix p assume p: "p div 64 < length (note_support k acc)" "wbit (note_support k acc) p"
    from note_support_bits(3) [OF c(1) p(1)] p(2)
    consider "p div 64 < length acc" "wbit acc p" | "p div 64 < key_width k" "xbit k p \<or> zbit k p" by blast
    then show "P p"
    proof cases
      case 2
      then have "p < 64 * key_width k" by (simp add: div_less_iff_less_mult mult.commute)
      then have "p < unat n" using 2 canonical_key_off [OF c(1)] c(2) by (meson not_less)
      then show ?thesis using Cons.prems(3) [of k p] 2 by simp
    qed (use Cons.prems(2) in blast)
  qed (use Cons.prems in auto)
qed simp

lemma no_support_violation:
  assumes inv: "sum_inv n s" and ks: "set ks = dom (sum_terms s)"
  shows "support_superset_violation ks s = None"
proof -
  let ?r = "recomputed_support ks"
  have "?r ! i AND NOT (word_or_zero (support s) i) = 0" if i: "i < length ?r" for i
  proof (rule bit_eqI)
    fix j assume "possible_bit TYPE(64 word) j"
    then have j: "j < 64" by simp
    have d: "(64 * i + j) div 64 = i" "(64 * i + j) mod 64 = j" using j by auto
    have "touches_qubit s (64 * i + j)" if "bit (?r ! i) j"
      unfolding recomputed_support_def
    proof (rule recomputed_support_bits [where P = "touches_qubit s" and ks = ks and acc = "[]" and n = n])
      show "(64 * i + j) div 64 < length (fold note_support ks [])"
        "wbit (fold note_support ks []) (64 * i + j)"
        using i that d by (simp_all add: recomputed_support_def wbit_bit)
    qed (use inv ks in \<open>auto simp: sum_inv_def\<close>)
    then show "bit (?r ! i AND NOT (word_or_zero (support s) i)) j = bit (0 :: u64) j"
      using j d by (auto simp: bit_and_iff bit_not_iff touches_qubit_def word_or_zero_def wbit_bit
          split: if_splits)
  qed
  then have "find (\<lambda>i. ?r ! i AND NOT (word_or_zero (support s) i) \<noteq> 0) [0..<length ?r] = None"
    by (auto simp: find_None_iff)
  then show ?thesis by (simp add: support_superset_violation_def Let_def)
qed

section \<open>Runs of the sum\<close>

text \<open>The mutating calls of the sum, and the exact value a run without truncation would have.\<close>

datatype sum_op = Add_weighted pauli_key complex u32 | Truncate real "nat option" "u32 option"

fun sum_step :: "sum_op \<Rightarrow> pauli_sum \<Rightarrow> pauli_sum" where
  "sum_step (Add_weighted k c f) s = add_weighted k c f s"
| "sum_step (Truncate cm mw mf) s = sum_truncate cm mw mf s"

definition sum_run :: "sum_op list \<Rightarrow> pauli_sum" where
  "sum_run ops = fold sum_step ops sum_new"

fun op_keys :: "sum_op \<Rightarrow> pauli_key set" where
  "op_keys (Add_weighted k c f) = {k}"
| "op_keys (Truncate cm mw mf) = {}"

fun op_exact :: "(pauli_key \<Rightarrow> complex) \<Rightarrow> sum_op \<Rightarrow> complex" where
  "op_exact e (Add_weighted k c f) = c * e k"
| "op_exact e (Truncate cm mw mf) = 0"

definition run_on :: "u32 \<Rightarrow> sum_op list \<Rightarrow> bool" where
  "run_on n ops \<longleftrightarrow> (\<forall>op \<in> set ops. \<forall>k \<in> op_keys op. canonical_key k \<and> key_n k = n)"

lemma sum_run_snoc: "sum_run (ops @ [op]) = sum_step op (sum_run ops)"
  by (simp add: sum_run_def)

lemma sum_run_inv: "run_on n ops \<Longrightarrow> sum_inv n (sum_run ops)"
proof (induction ops rule: rev_induct)
  case (snoc op ops)
  then show ?case
    by (cases op) (auto simp: sum_run_snoc run_on_def add_weighted_inv truncate_inv)
qed (simp add: sum_run_def sum_new_inv)

lemma sum_run_error:
  assumes b: "\<And>k. cmod (e k) \<le> 1"
  shows "run_on n ops \<Longrightarrow>
    cmod ((\<Sum>op\<leftarrow>ops. op_exact e op) - sum_value e (sum_run ops)) \<le> dropped_mass (sum_run ops)"
proof (induction ops rule: rev_induct)
  case (snoc op ops)
  let ?s = "sum_run ops" and ?x = "\<Sum>op\<leftarrow>ops. op_exact e op"
  have r: "run_on n ops" using snoc.prems by (simp add: run_on_def)
  have fin: "finite (dom (sum_terms ?s))" using sum_run_inv [OF r] by (simp add: sum_inv_def)
  show ?case
  proof (cases op)
    case (Add_weighted k c f)
    then show ?thesis
      using snoc.IH [OF r] add_weighted_value [OF fin, of e k c f]
      by (simp add: sum_run_snoc) (simp add: add_weighted_def)
  next
    case (Truncate cm mw mf)
    let ?t = "sum_truncate cm mw mf ?s"
    have "cmod (?x - sum_value e ?t) \<le> cmod (?x - sum_value e ?s) + cmod (sum_value e ?s - sum_value e ?t)"
      using norm_triangle_ineq [of "?x - sum_value e ?s" "sum_value e ?s - sum_value e ?t"] by simp
    also have "\<dots> \<le> dropped_mass ?s + (dropped_mass ?t - dropped_mass ?s)"
      using snoc.IH [OF r] truncate_error [OF fin b] by (rule add_mono)
    finally show ?thesis by (simp add: sum_run_snoc Truncate)
  qed
qed (simp add: sum_run_def sum_value_def sum_new_def)

section \<open>Properties\<close>

text \<open>C24: \<open>from_bits\<close> builds a canonical key (padding bits zero) that reads back every bit of its
  two arguments, and two canonical keys of one width are equal exactly when they agree on all
  qubits, so equality of keys is equality of operators.\<close>

theorem key_from_bits_roundtrip:
  assumes "length z = length x" "length x < 2 ^ 32" "canonical_key k" "key_n k = key_n (key_from_bits x z)"
  shows "canonical_key (key_from_bits x z) \<and>
    (\<forall>q < length x. key_x (key_from_bits x z) q = Some (x ! q) \<and> key_z (key_from_bits x z) q = Some (z ! q)) \<and>
    (k = key_from_bits x z) = (\<forall>q < length x. key_x k q = Some (x ! q) \<and> key_z k q = Some (z ! q))"
proof -
  note fb = from_bits_canonical [OF assms(1,2)] from_bits_n [OF assms(1,2)]
    from_bits_x [OF assms(1,2)] from_bits_z [OF assms(1,2)]
  have n: "unat (key_n k) = length x" using fb(2) assms(4) by simp
  have eq: "k = key_from_bits x z" if "\<forall>q < length x. xbit k q = x ! q \<and> zbit k q = z ! q"
    using that fb n assms by (intro canonical_key_eqI) auto
  show ?thesis using fb n eq assms(3) by (auto simp: key_x_bit)
qed

theorem key_from_bits_roundtrip_witness:
  "canonical_key (key_from_bits [True, False] [True, True]) \<and>
   key_z (key_from_bits [True, False] [True, True]) 1 = Some True"
proof -
  have c: "canonical_key (key_from_bits [True, False] [True, True])"
    by (rule from_bits_canonical) simp_all
  have z: "key_z (key_from_bits [True, False] [True, True]) 1 = Some ([True, True] ! 1)"
    using key_from_bits_roundtrip [OF _ _ c refl] by simp
  show ?thesis using c z by simp
qed

text \<open>\<open>anticommutes_with\<close> is the symplectic form: it tests whether the key and the generator
  anticommute on an odd number of qubits, whatever the generator's padding bits hold.\<close>

theorem key_anticommutes_symplectic:
  assumes "canonical_key k" "key_width k \<le> length gx" "key_width k \<le> length gz"
  shows "key_anticommutes_with k gx gz = Some (odd (card {q. q < unat (key_n k) \<and>
    bxor (xbit k q \<and> wbit gz q) (zbit k q \<and> wbit gx q)}))"
  unfolding key_anticommutes_with_parity [OF assms] odd_count_below [symmetric] count_below_card ..

theorem key_anticommutes_symplectic_witness:
  "key_anticommutes_with (key_from_bits [True] [False]) [0] [1] = Some True"
proof -
  let ?k = "key_from_bits [True] [False]"
  have c: "canonical_key ?k" "unat (key_n ?k) = 1" "xbit ?k 0" "\<not> zbit ?k 0"
    using from_bits_canonical [of "[False]" "[True]"] from_bits_n [of "[False]" "[True]"]
      from_bits_x [of "[False]" "[True]" 0] from_bits_z [of "[False]" "[True]" 0] by simp_all
  then have w: "key_width ?k = 1" by (simp add: key_width_def div_ceil64_def)
  have "{q. q < unat (key_n ?k) \<and> bxor (xbit ?k q \<and> wbit [1] q) (zbit ?k q \<and> wbit [0] q)} = {0}"
    using c by (auto simp: wbit_def)
  then show ?thesis
    using key_anticommutes_symplectic [OF c(1), of "[0]" "[1]"] w by simp
qed

text \<open>\<open>mul_raw_packed\<close> multiplies two raw strings \<open>X^x Z^z\<close>: the bits are the exclusive ors,
  the sign is the parity of the positions where the left factor's \<open>Z\<close> passes the right factor's
  \<open>X\<close>, and the padding stays canonical.\<close>

theorem mul_raw_product:
  assumes "canonical_key k" "canonical (unat (key_n k)) gx" "canonical (unat (key_n k)) gz"
  shows "\<exists>k' sg. mul_raw_packed gx gz k = Some (k', sg) \<and> canonical_key k' \<and> key_n k' = key_n k \<and>
    (\<forall>q < unat (key_n k). xbit k' q = bxor (wbit gx q) (xbit k q) \<and> zbit k' q = bxor (wbit gz q) (zbit k q)) \<and>
    sg = (- 1) ^ card {q. q < unat (key_n k) \<and> wbit gz q \<and> xbit k q}"
proof -
  have len: "length gx = key_width k" "length gz = key_width k"
    using assms(2,3) by (simp_all add: canonical_def key_width_def)
  obtain k' sg where m: "mul_raw_packed gx gz k = Some (k', sg)"
    using len by (cases "mul_raw_packed gx gz k") (auto simp: mul_raw_packed_def Let_def split_beta)
  note f = mul_raw_canonical [OF assms m] mul_raw_n [OF assms m] mul_raw_xbit [OF assms m]
    mul_raw_zbit [OF assms m] mul_raw_sign [OF assms m]
  have "odd (card {q. q < unat (key_n k) \<and> wbit gz q \<and> xbit k q}) =
      parity_of (\<lambda>q. wbit gz q \<and> xbit k q) (unat (key_n k))"
    by (simp add: odd_count_below [symmetric] count_below_card)
  then have "sg = (- 1) ^ card {q. q < unat (key_n k) \<and> wbit gz q \<and> xbit k q}"
    using f(5) by auto
  with m f show ?thesis by blast
qed

theorem mul_raw_product_witness:
  "\<exists>k' sg. mul_raw_packed [0] [1] (key_from_bits [True] [False]) = Some (k', sg) \<and> canonical_key k'"
proof -
  let ?k = "key_from_bits [True] [False]"
  have c: "canonical_key ?k" "unat (key_n ?k) = 1"
    using from_bits_canonical [of "[False]" "[True]"] from_bits_n [of "[False]" "[True]"] by simp_all
  have "canonical 1 [0]" by (auto simp: canonical_def div_ceil64_def wbit_bit)
  moreover have "canonical 1 [1]" by (auto simp: canonical_def div_ceil64_def wbit_bit bit_1_iff)
  ultimately show ?thesis using mul_raw_product [OF c(1), of "[0]" "[1]"] c by auto
qed

text \<open>C23: After any run of insertions of width-\<open>n\<close> keys and truncations, the support mask covers
  every live term: the debug check finds no violation whatever the map's iteration order, and a
  generator that does not overlap the mask commutes with every term, so skipping it is sound.\<close>

theorem sum_skip_sound:
  assumes "run_on n ops" "set ks = dom (sum_terms (sum_run ops))"
    "div_ceil64 (unat n) \<le> length gx" "div_ceil64 (unat n) \<le> length gz"
  shows "support_superset_violation ks (sum_run ops) = None \<and>
    (\<not> overlaps (sum_run ops) gx gz \<longrightarrow> (\<forall>k \<in> set ks. key_anticommutes_with k gx gz = Some False))"
proof -
  note inv = sum_run_inv [OF assms(1)]
  have "key_width k = div_ceil64 (unat n)" if "k \<in> set ks" for k
    using that inv assms(2) by (simp add: sum_inv_def key_width_def)
  then show ?thesis
    using no_support_violation [OF inv assms(2)] no_overlap_commutes [OF inv] assms by auto
qed

theorem sum_skip_sound_witness:
  "support_superset_violation [key_from_bits [True] [False]]
     (sum_run [Add_weighted (key_from_bits [True] [False]) 1 0]) = None"
proof -
  let ?k = "key_from_bits [True] [False]"
  have c: "canonical_key ?k" "unat (key_n ?k) = 1"
    using from_bits_canonical [of "[False]" "[True]"] from_bits_n [of "[False]" "[True]"] by simp_all
  have "run_on (key_n ?k) [Add_weighted ?k 1 0]" using c by (simp add: run_on_def)
  moreover have "set [?k] = dom (sum_terms (sum_run [Add_weighted ?k 1 0]))"
    by (simp add: sum_run_def add_weighted_def sum_new_def)
  ultimately show ?thesis
    using sum_skip_sound [of "key_n ?k" "[Add_weighted ?k 1 0]" "[?k]" "[0]" "[0]"] c
    by (simp add: div_ceil64_def)
qed

text \<open>C19: \<open>dropped_mass\<close> is a certified error bound: for every evaluation of the strings bounded by
  1 in modulus, the value of the truncated sum differs from that of the exact sum of all the
  insertions by at most the recorded mass.\<close>

theorem dropped_mass_bounds_error:
  assumes "run_on n ops" "\<And>k. cmod (e k) \<le> 1"
  shows "cmod ((\<Sum>op\<leftarrow>ops. op_exact e op) - sum_value e (sum_run ops)) \<le> dropped_mass (sum_run ops)"
  using assms(2,1) by (rule sum_run_error)

theorem dropped_mass_bounds_error_witness:
  "cmod (1 - sum_value (\<lambda>_. 1) (sum_run [Add_weighted (key_from_bits [True] [False]) 1 0, Truncate 2 None None]))
     \<le> dropped_mass (sum_run [Add_weighted (key_from_bits [True] [False]) 1 0, Truncate 2 None None])"
proof -
  let ?ops = "[Add_weighted (key_from_bits [True] [False]) 1 0, Truncate 2 None None]"
  have "run_on (key_n (key_from_bits [True] [False])) ?ops"
    using from_bits_canonical [of "[False]" "[True]"] by (simp add: run_on_def)
  from dropped_mass_bounds_error [OF this, of "\<lambda>_. 1"] show ?thesis by simp
qed

end
