(* ===== verification/PauliProp.thy ===== *)
theory PauliProp
  imports PauliKey SvExpect
begin

text \<open>
  Pauli propagation, \<^verbatim>\<open>crates/omega-backend-pauliprop/src/sim.rs\<close>: the observable is conjugated by the
  gates from the last to the first and read off at the zero state.  The order in which the hash map of
  a sum hands out its terms is an argument.  The engine runs without a noise model and without the
  accelerator of the branch step; the counters of skipped gates and of the peak number of terms,
  which are kept for tests, are left out.  A ceiling on the dropped mass is a number or infinite.
\<close>

type_synonym terms = "pauli_key \<rightharpoonup> weighted"
type_synonym drain = "terms \<Rightarrow> (pauli_key \<times> weighted) list"

record engine =
  coeff_min :: real
  max_weight :: "nat option"
  max_freq :: "u32 option"
  max_terms :: "nat option"
  max_dropped_mass :: "real option option"
  fold_zz :: bool

definition DEFAULT_MAX_TERMS :: nat where "DEFAULT_MAX_TERMS = push_bit 21 1"

definition engine_default :: engine where
  "engine_default = \<lparr>coeff_min = 0, max_weight = None, max_freq = None, max_terms = Some DEFAULT_MAX_TERMS,
     max_dropped_mass = None, fold_zz = True\<rparr>"

definition engine_with_truncation_freq :: "real \<Rightarrow> nat option \<Rightarrow> u32 option \<Rightarrow> engine" where
  "engine_with_truncation_freq cm mw mf = engine_default\<lparr>coeff_min := cm, max_weight := mw, max_freq := mf\<rparr>"

definition sum_len :: "pauli_sum \<Rightarrow> nat" where
  "sum_len s = card (dom (sum_terms s))"

section \<open>Images under the Clifford gates\<close>

record single_img =
  si_ax :: bool
  si_az :: bool
  si_fx :: complex
  si_bx :: bool
  si_bz :: bool
  si_fz :: complex

fun single_apply :: "single_img \<Rightarrow> bool \<Rightarrow> bool \<Rightarrow> bool \<times> bool \<times> complex" where
  "single_apply img False False = (False, False, 1)"
| "single_apply img True False = (si_ax img, si_az img, si_fx img)"
| "single_apply img False True = (si_bx img, si_bz img, si_fz img)"
| "single_apply img True True =
     (si_ax img \<noteq> si_bx img, si_az img \<noteq> si_bz img,
      si_fx img * si_fz img * (if si_az img \<and> si_bx img then - 1 else 1))"

definition CLIFF_H :: single_img where
  "CLIFF_H = \<lparr>si_ax = False, si_az = True, si_fx = 1, si_bx = True, si_bz = False, si_fz = 1\<rparr>"
definition CLIFF_X :: single_img where
  "CLIFF_X = \<lparr>si_ax = True, si_az = False, si_fx = 1, si_bx = False, si_bz = True, si_fz = - 1\<rparr>"
definition CLIFF_Y :: single_img where
  "CLIFF_Y = \<lparr>si_ax = True, si_az = False, si_fx = - 1, si_bx = False, si_bz = True, si_fz = - 1\<rparr>"
definition CLIFF_Z :: single_img where
  "CLIFF_Z = \<lparr>si_ax = True, si_az = False, si_fx = - 1, si_bx = False, si_bz = True, si_fz = 1\<rparr>"
definition CLIFF_S :: single_img where
  "CLIFF_S = \<lparr>si_ax = True, si_az = True, si_fx = - \<i>, si_bx = False, si_bz = True, si_fz = 1\<rparr>"
definition CLIFF_SDG :: single_img where
  "CLIFF_SDG = \<lparr>si_ax = True, si_az = True, si_fx = \<i>, si_bx = False, si_bz = True, si_fz = 1\<rparr>"
definition CLIFF_SX :: single_img where
  "CLIFF_SX = \<lparr>si_ax = True, si_az = False, si_fx = 1, si_bx = True, si_bz = True, si_fz = \<i>\<rparr>"
definition CLIFF_SXDG :: single_img where
  "CLIFF_SXDG = \<lparr>si_ax = True, si_az = False, si_fx = 1, si_bx = True, si_bz = True, si_fz = - \<i>\<rparr>"

record gen2 =
  g2_xc :: bool
  g2_zc :: bool
  g2_xt :: bool
  g2_zt :: bool
  g2_f :: complex

definition gen2_new :: "bool \<Rightarrow> bool \<Rightarrow> bool \<Rightarrow> bool \<Rightarrow> gen2" where
  "gen2_new xc zc xt zt = \<lparr>g2_xc = xc, g2_zc = zc, g2_xt = xt, g2_zt = zt, g2_f = 1\<rparr>"

definition gen2_ident :: gen2 where "gen2_ident = gen2_new False False False False"

definition gen2_mul :: "gen2 \<Rightarrow> gen2 \<Rightarrow> gen2" where
  "gen2_mul a c =
     (let neg = (if g2_zc a \<and> g2_xc c then 1 else 0) + (if g2_zt a \<and> g2_xt c then 1 else (0 :: nat))
      in \<lparr>g2_xc = (g2_xc a \<noteq> g2_xc c), g2_zc = (g2_zc a \<noteq> g2_zc c), g2_xt = (g2_xt a \<noteq> g2_xt c),
          g2_zt = (g2_zt a \<noteq> g2_zt c), g2_f = g2_f a * g2_f c * (if even neg then 1 else - 1)\<rparr>)"

record two_img =
  ti_xc :: gen2
  ti_zc :: gen2
  ti_xt :: gen2
  ti_zt :: gen2

definition CX_IMG :: two_img where
  "CX_IMG = \<lparr>ti_xc = gen2_new True False True False, ti_zc = gen2_new False True False False,
     ti_xt = gen2_new False False True False, ti_zt = gen2_new False True False True\<rparr>"
definition CZ_IMG :: two_img where
  "CZ_IMG = \<lparr>ti_xc = gen2_new True False False True, ti_zc = gen2_new False True False False,
     ti_xt = gen2_new False True True False, ti_zt = gen2_new False False False True\<rparr>"
definition CY_IMG :: two_img where
  "CY_IMG = \<lparr>ti_xc = (gen2_new True False True True)\<lparr>g2_f := \<i>\<rparr>, ti_zc = gen2_new False True False False,
     ti_xt = gen2_new False True True False, ti_zt = gen2_new False True False True\<rparr>"
definition SWAP_IMG :: two_img where
  "SWAP_IMG = \<lparr>ti_xc = gen2_new False False True False, ti_zc = gen2_new False False False True,
     ti_xt = gen2_new True False False False, ti_zt = gen2_new False True False False\<rparr>"

definition two_apply :: "two_img \<Rightarrow> bool \<Rightarrow> bool \<Rightarrow> bool \<Rightarrow> bool \<Rightarrow> gen2" where
  "two_apply img xc zc xt zt =
     (let a0 = gen2_ident;
          a1 = (if xc then gen2_mul a0 (ti_xc img) else a0);
          a2 = (if zc then gen2_mul a1 (ti_zc img) else a1);
          a3 = (if xt then gen2_mul a2 (ti_xt img) else a2)
      in if zt then gen2_mul a3 (ti_zt img) else a3)"

text \<open>The loops over the drained terms.\<close>

definition key_set :: "pauli_key \<Rightarrow> nat \<Rightarrow> bool \<Rightarrow> bool \<Rightarrow> pauli_key run" where
  "key_set k q x z = bind_run (or_panic (key_set_x k q x)) (\<lambda>k'. or_panic (key_set_z k' q z))"

fun map_single_loop :: "nat \<Rightarrow> single_img \<Rightarrow> (pauli_key \<times> weighted) list \<Rightarrow> pauli_sum \<Rightarrow> pauli_sum run" where
  "map_single_loop q img [] out = Done out"
| "map_single_loop q img ((key, w) # ts) out =
     bind_run (or_panic (key_x key q)) (\<lambda>x. bind_run (or_panic (key_z key q)) (\<lambda>z.
       let (nx, nz, f) = single_apply img x z in
       bind_run (key_set key q nx nz) (\<lambda>k.
         map_single_loop q img ts (add_weighted k (coeff w * f) (freq w) out))))"

definition map_single :: "drain \<Rightarrow> nat \<Rightarrow> single_img \<Rightarrow> pauli_sum \<Rightarrow> pauli_sum run" where
  "map_single drn q img s =
     (if \<not> touches_qubit s q then Done s
      else map_single_loop q img (drn (sum_terms s)) (sum_new\<lparr>dropped_mass := dropped_mass s\<rparr>))"

fun map_two_loop :: "nat \<Rightarrow> nat \<Rightarrow> two_img \<Rightarrow> (pauli_key \<times> weighted) list \<Rightarrow> pauli_sum \<Rightarrow> pauli_sum run" where
  "map_two_loop c t img [] out = Done out"
| "map_two_loop c t img ((key, w) # ts) out =
     bind_run (or_panic (key_x key c)) (\<lambda>xc. bind_run (or_panic (key_z key c)) (\<lambda>zc.
     bind_run (or_panic (key_x key t)) (\<lambda>xt. bind_run (or_panic (key_z key t)) (\<lambda>zt.
       let acc = two_apply img xc zc xt zt in
       bind_run (key_set key c (g2_xc acc) (g2_zc acc)) (\<lambda>k1.
       bind_run (key_set k1 t (g2_xt acc) (g2_zt acc)) (\<lambda>k.
         map_two_loop c t img ts (add_weighted k (coeff w * g2_f acc) (freq w) out)))))))"

definition map_two :: "drain \<Rightarrow> nat \<Rightarrow> nat \<Rightarrow> two_img \<Rightarrow> pauli_sum \<Rightarrow> pauli_sum run" where
  "map_two drn c t img s =
     (if \<not> touches_qubit s c \<and> \<not> touches_qubit s t then Done s
      else map_two_loop c t img (drn (sum_terms s)) (sum_new\<lparr>dropped_mass := dropped_mass s\<rparr>))"

section \<open>Rotations\<close>

record gen =
  gen_x :: "u64 list"
  gen_z :: "u64 list"
  gen_n :: nat
  gen_factor :: complex

definition gen_set_bit :: "u64 list \<Rightarrow> nat \<Rightarrow> u64 list run" where
  "gen_set_bit ws q = (if q div 64 < length ws then Done (wset ws q) else Panicked)"

definition zero_words :: "nat \<Rightarrow> u64 list" where
  "zero_words n = replicate (div_ceil64 n) 0"

fun gen_product_loop :: "(nat \<times> char) list \<Rightarrow> gen \<Rightarrow> gen run" where
  "gen_product_loop [] g = Done g"
| "gen_product_loop ((q, axis) # ps) g =
     (if axis = CHR ''z'' then bind_run (gen_set_bit (gen_z g) q) (\<lambda>gz. gen_product_loop ps (g\<lparr>gen_z := gz\<rparr>))
      else if axis = CHR ''x'' then bind_run (gen_set_bit (gen_x g) q) (\<lambda>gx. gen_product_loop ps (g\<lparr>gen_x := gx\<rparr>))
      else if axis = CHR ''y'' then
        bind_run (gen_set_bit (gen_x g) q) (\<lambda>gx. bind_run (gen_set_bit (gen_z g) q) (\<lambda>gz.
          gen_product_loop ps (g\<lparr>gen_x := gx, gen_z := gz, gen_factor := gen_factor g * \<i>\<rparr>)))
      else Panicked)"

definition gen_product :: "nat \<Rightarrow> (nat \<times> char) list \<Rightarrow> gen run" where
  "gen_product n ps = gen_product_loop ps \<lparr>gen_x = zero_words n, gen_z = zero_words n, gen_n = n, gen_factor = 1\<rparr>"

definition gen_single :: "nat \<Rightarrow> nat \<Rightarrow> char \<Rightarrow> gen run" where
  "gen_single n q axis = gen_product n [(q, axis)]"

definition gen_zz :: "nat \<Rightarrow> nat \<Rightarrow> nat \<Rightarrow> gen run" where
  "gen_zz n c t = gen_product n [(c, CHR ''z''), (t, CHR ''z'')]"

definition gen_z_product :: "nat \<Rightarrow> nat list \<Rightarrow> gen run" where
  "gen_z_product n qs = gen_product n (map (\<lambda>q. (q, CHR ''z'')) qs)"

text \<open>Whether the sum is past the ceiling.\<close>

definition check_cap :: "engine \<Rightarrow> pauli_sum \<Rightarrow> unit run" where
  "check_cap en s =
     (case max_terms en of
        Some cap \<Rightarrow> if cap < sum_len s then Failed (Unsupported (Too_many_terms (sum_len s) cap)) else Done ()
      | None \<Rightarrow> Done ())"

fun branch_loop :: "engine \<Rightarrow> gen \<Rightarrow> real \<Rightarrow> real \<Rightarrow> (pauli_key \<times> weighted) list \<Rightarrow> pauli_sum \<Rightarrow> pauli_sum run" where
  "branch_loop en r cv sv [] out = Done out"
| "branch_loop en r cv sv ((key, w) # ts) out =
     bind_run (or_panic (key_anticommutes_with key (gen_x r) (gen_z r))) (\<lambda>anti.
       if \<not> anti then
         (let out1 = add_weighted key (coeff w) (freq w) out in
          bind_run (check_cap en out1) (\<lambda>_. branch_loop en r cv sv ts out1))
       else
         (let out1 = add_weighted key (coeff w * of_real cv) (freq w) out;
              child_freq = freq w + 1;
              sin_coeff = coeff w * \<i> * of_real sv * gen_factor r
          in if (case max_freq en of Some m \<Rightarrow> m < child_freq | None \<Rightarrow> False) then
               branch_loop en r cv sv ts (out1\<lparr>dropped_mass := dropped_mass out1 + cmod sin_coeff\<rparr>)
             else
               bind_run (or_panic (mul_raw_packed (gen_x r) (gen_z r) key)) (\<lambda>(rk, sign).
                 let out2 = add_weighted rk (sin_coeff * of_int sign) child_freq out1 in
                 bind_run (check_cap en out2) (\<lambda>_. branch_loop en r cv sv ts out2))))"

definition branch_step :: "engine \<Rightarrow> drain \<Rightarrow> gen \<Rightarrow> real \<Rightarrow> pauli_sum \<Rightarrow> pauli_sum run" where
  "branch_step en drn r \<theta> s =
     (if \<not> overlaps s (gen_x r) (gen_z r) then Done s
      else bind_run (branch_loop en r (cos \<theta>) (sin \<theta>) (drn (sum_terms s)) (sum_new\<lparr>dropped_mass := dropped_mass s\<rparr>))
        (\<lambda>s'. bind_run (check_cap en s') (\<lambda>_. Done s')))"

section \<open>Conjugation by a gate\<close>

definition slot :: "gate_op \<Rightarrow> binding \<Rightarrow> nat \<Rightarrow> real run" where
  "slot op b i = bind_run (index_of (op_params op) i) (\<lambda>e. or_fail (resolve_param b e))"

text \<open>Every qubit lies in the register and none is named twice.\<close>

fun check_qubits :: "gate_kind \<Rightarrow> nat \<Rightarrow> u32 list \<Rightarrow> u32 list \<Rightarrow> omega_error option" where
  "check_qubits g n seen [] = None"
| "check_qubits g n seen (q # qs) =
     (if n \<le> unat q then Some (Invalid_circuit (Qubit_beyond g q n))
      else if q \<in> set seen then Some (Invalid_circuit (Qubit_twice g q))
      else check_qubits g n (seen @ [q]) qs)"

text \<open>A sequence of rotations, innermost first; each generator is built when its turn comes.\<close>

fun branches :: "engine \<Rightarrow> drain \<Rightarrow> (gen run \<times> real) list \<Rightarrow> pauli_sum \<Rightarrow> pauli_sum run" where
  "branches en drn [] s = Done s"
| "branches en drn ((g, \<theta>) # gs) s =
     bind_run g (\<lambda>r. bind_run (branch_step en drn r \<theta> s) (branches en drn gs))"

definition ccz_rotations :: "nat \<Rightarrow> nat \<Rightarrow> nat \<Rightarrow> nat \<Rightarrow> (gen run \<times> real) list" where
  "ccz_rotations n a b t =
     [(gen_z_product n [a], - pi / 4), (gen_z_product n [b], - pi / 4), (gen_z_product n [t], - pi / 4),
      (gen_z_product n [a, b], pi / 4), (gen_z_product n [a, t], pi / 4), (gen_z_product n [b, t], pi / 4),
      (gen_z_product n [a, b, t], - pi / 4)]"

definition conjugate_gate :: "engine \<Rightarrow> drain \<Rightarrow> gate_op \<Rightarrow> binding \<Rightarrow> nat \<Rightarrow> pauli_sum \<Rightarrow> pauli_sum run" where
  "conjugate_gate en drn op b n s =
     (let single = (\<lambda>img. bind_run (qubit_of op 0) (\<lambda>q. map_single drn q img s));
          two = (\<lambda>img. bind_run (qubit_of op 0) (\<lambda>c. bind_run (qubit_of op 1) (\<lambda>t. map_two drn c t img s)));
          rotation = (\<lambda>axis angle. bind_run (qubit_of op 0) (\<lambda>q. bind_run angle (\<lambda>\<theta>.
            branches en drn [(gen_single n q axis, \<theta>)] s)));
          euler = (\<lambda>\<theta> \<phi> l. bind_run (qubit_of op 0) (\<lambda>q. branches en drn
            [(gen_single n q (CHR ''z''), \<phi>), (gen_single n q (CHR ''y''), \<theta>), (gen_single n q (CHR ''z''), l)] s))
      in case op_gate op of
        H \<Rightarrow> single CLIFF_H
      | X \<Rightarrow> single CLIFF_X
      | Y \<Rightarrow> single CLIFF_Y
      | Z \<Rightarrow> single CLIFF_Z
      | S \<Rightarrow> single CLIFF_S
      | Sdg \<Rightarrow> single CLIFF_SDG
      | Sx \<Rightarrow> single CLIFF_SX
      | Sxdg \<Rightarrow> single CLIFF_SXDG
      | CX \<Rightarrow> two CX_IMG
      | CZ \<Rightarrow> two CZ_IMG
      | Swap \<Rightarrow> two SWAP_IMG
      | CY \<Rightarrow> two CY_IMG
      | Rz \<Rightarrow> rotation (CHR ''z'') (slot op b 0)
      | Rx \<Rightarrow> rotation (CHR ''x'') (slot op b 0)
      | Ry \<Rightarrow> rotation (CHR ''y'') (slot op b 0)
      | U1 \<Rightarrow> rotation (CHR ''z'') (slot op b 0)
      | T \<Rightarrow> rotation (CHR ''z'') (Done (pi / 4))
      | Tdg \<Rightarrow> rotation (CHR ''z'') (Done (- pi / 4))
      | CRz \<Rightarrow> bind_run (slot op b 0) (\<lambda>\<theta>. bind_run (qubit_of op 0) (\<lambda>c. bind_run (qubit_of op 1) (\<lambda>t.
          branches en drn [(gen_single n t (CHR ''z''), \<theta> / 2), (gen_zz n c t, - \<theta> / 2)] s)))
      | U3 \<Rightarrow> bind_run (slot op b 0) (\<lambda>\<theta>. bind_run (slot op b 1) (\<lambda>\<phi>. bind_run (slot op b 2) (euler \<theta> \<phi>)))
      | U2 \<Rightarrow> bind_run (slot op b 0) (\<lambda>\<phi>. bind_run (slot op b 1) (euler (pi / 2) \<phi>))
      | CU3 \<Rightarrow> bind_run (slot op b 0) (\<lambda>\<theta>. bind_run (slot op b 1) (\<lambda>\<phi>. bind_run (slot op b 2) (\<lambda>l.
          if 1 / 10 ^ 12 < \<bar>\<theta>\<bar> \<or> 1 / 10 ^ 12 < \<bar>\<phi>\<bar> then Failed (Unsupported (Controlled_u3 \<theta> \<phi> l))
          else branches en drn
            [(bind_run (qubit_of op 0) (\<lambda>c. gen_single n c (CHR ''z'')), l / 2),
             (bind_run (qubit_of op 1) (\<lambda>t. gen_single n t (CHR ''z'')), l / 2),
             (bind_run (qubit_of op 0) (\<lambda>c. bind_run (qubit_of op 1) (gen_zz n c)), - l / 2)] s)))
      | Rbs \<Rightarrow> bind_run (slot op b 0) (\<lambda>\<theta>. bind_run (qubit_of op 0) (\<lambda>c. bind_run (qubit_of op 1) (\<lambda>t.
          branches en drn [(gen_product n [(c, CHR ''y''), (t, CHR ''x'')], \<theta>),
            (gen_product n [(c, CHR ''x''), (t, CHR ''y'')], - \<theta>)] s)))
      | CCX \<Rightarrow> bind_run (qubit_of op 0) (\<lambda>a. bind_run (qubit_of op 1) (\<lambda>c. bind_run (qubit_of op 2) (\<lambda>t.
          bind_run (map_single drn t CLIFF_H s) (\<lambda>s1.
          bind_run (branches en drn (ccz_rotations n a c t) s1) (map_single drn t CLIFF_H)))))
      | CSwap \<Rightarrow> bind_run (qubit_of op 0) (\<lambda>c. bind_run (qubit_of op 1) (\<lambda>a. bind_run (qubit_of op 2) (\<lambda>t.
          bind_run (map_two drn t a CX_IMG s) (\<lambda>s1. bind_run (map_single drn t CLIFF_H s1) (\<lambda>s2.
          bind_run (branches en drn (ccz_rotations n c a t) s2) (\<lambda>s3.
          bind_run (map_single drn t CLIFF_H s3) (map_two drn t a CX_IMG)))))))
      | Id \<Rightarrow> Done s
      | Barrier \<Rightarrow> Done s
      | Measure \<Rightarrow> Done s
      | Reset \<Rightarrow> Failed (Unsupported Reset_channel)
      | g \<Rightarrow> Failed (Unsupported (Gate_not_supported g)))"

definition conjugate :: "engine \<Rightarrow> drain \<Rightarrow> gate_op \<Rightarrow> binding \<Rightarrow> nat \<Rightarrow> pauli_sum \<Rightarrow> pauli_sum run" where
  "conjugate en drn op b n s =
     unless_error (check_qubits (op_gate op) n [] (op_qubits op))
       (bind_run (conjugate_gate en drn op b n s) (\<lambda>s'. bind_run (check_cap en s') (\<lambda>_. Done s')))"

section \<open>Propagation\<close>

text \<open>The three operations before a position, when they are the lowering of a \<open>Z Z\<close> rotation.\<close>

definition match_zz_triple :: "gate_op list \<Rightarrow> nat \<Rightarrow> nat \<Rightarrow> (nat \<times> nat \<times> param_expr) option" where
  "match_zz_triple ops e n =
     (if e < 3 \<or> length ops < e then None
      else let first = ops ! (e - 3); rot = ops ! (e - 2); last = ops ! (e - 1) in
        if op_condition first \<noteq> None \<or> op_condition rot \<noteq> None \<or> op_condition last \<noteq> None then None
        else if op_gate first \<noteq> CX \<or> op_gate last \<noteq> CX \<or> op_gate rot \<noteq> Rz then None
        else case (op_qubits first, op_qubits rot, op_qubits last, op_params rot) of
          ([a, c], [r], [a', c'], [\<theta>]) \<Rightarrow>
            if a = c \<or> a' \<noteq> a \<or> c' \<noteq> c \<or> r \<noteq> c then None
            else if n \<le> unat a \<or> n \<le> unat c then None
            else Some (unat a, unat c, \<theta>)
        | _ \<Rightarrow> None)"

definition truncates :: "engine \<Rightarrow> bool" where
  "truncates en = (0 < coeff_min en \<or> max_weight en \<noteq> None \<or> max_freq en \<noteq> None)"

definition maybe_truncate :: "engine \<Rightarrow> pauli_sum \<Rightarrow> pauli_sum" where
  "maybe_truncate en s =
     (if truncates en then sum_truncate (coeff_min en) (max_weight en) (max_freq en) s else s)"

text \<open>The key and the coefficient of one term of the observable.\<close>

fun seed_term :: "nat \<Rightarrow> pauli_string \<Rightarrow> pauli_key \<Rightarrow> complex \<Rightarrow> (pauli_key \<times> complex) run" where
  "seed_term n [] key c = Done (key, c)"
| "seed_term n ((q, p) # ps) key c =
     (if n \<le> unat q then Failed (Unsupported (Observable_qubit q (of_nat n)))
      else case p of
        Pauli_I \<Rightarrow> seed_term n ps key c
      | Pauli_X \<Rightarrow> bind_run (or_panic (key_set_x key (unat q) True)) (\<lambda>k. seed_term n ps k c)
      | Pauli_Z \<Rightarrow> bind_run (or_panic (key_set_z key (unat q) True)) (\<lambda>k. seed_term n ps k c)
      | Pauli_Y \<Rightarrow> bind_run (key_set key (unat q) True True) (\<lambda>k. seed_term n ps k (c * \<i>)))"

fun seed :: "nat \<Rightarrow> observable \<Rightarrow> pauli_sum \<Rightarrow> pauli_sum run" where
  "seed n [] s = Done s"
| "seed n ((r, ps) # ts) s =
     bind_run (seed_term n ps (key_identity n) (of_real r)) (\<lambda>(key, c). seed n ts (sum_add key c s))"

text \<open>The walk towards the front of the circuit; \<open>i\<close> operations are left.\<close>

function propagate_loop :: "engine \<Rightarrow> drain \<Rightarrow> binding \<Rightarrow> nat \<Rightarrow> gate_op list \<Rightarrow> nat \<Rightarrow> pauli_sum \<Rightarrow> pauli_sum run" where
  "propagate_loop en drn b n ops i s =
     (if i = 0 then Done s
      else case (if fold_zz en then match_zz_triple ops i n else None) of
        Some (a, c, \<theta>e) \<Rightarrow>
          bind_run (or_fail (resolve_param b \<theta>e)) (\<lambda>\<theta>. bind_run (gen_zz n a c) (\<lambda>r.
          bind_run (branch_step en drn r \<theta> s) (\<lambda>s'.
            propagate_loop en drn b n ops (i - 3) (maybe_truncate en s'))))
      | None \<Rightarrow>
          bind_run (index_of ops (i - 1)) (\<lambda>op.
            if op_condition op \<noteq> None then Failed (Unsupported (Conditioned_gate (op_gate op)))
            else bind_run (conjugate en drn op b n s) (\<lambda>s'.
              propagate_loop en drn b n ops (i - 1) (maybe_truncate en s'))))"
  by pat_completeness auto
termination
  by (relation "measure (\<lambda>(en, drn, b, n, ops, i, s). i)") auto

declare propagate_loop.simps [simp del]

definition propagate :: "engine \<Rightarrow> drain \<Rightarrow> circuit_ir \<Rightarrow> binding \<Rightarrow> observable \<Rightarrow> pauli_sum run" where
  "propagate en drn c b a =
     (let n = unat (cir_qubits c) in
      bind_run (seed n a sum_new) (\<lambda>s. propagate_loop en drn b n (cir_ops c) (length (cir_ops c)) s))"

section \<open>The expectation and its certificate\<close>

record certificate =
  cert_dropped_mass :: real
  cert_final_terms :: nat
  cert_engine :: engine
  cert_range :: real
  cert_value :: real

definition is_exact :: "certificate \<Rightarrow> bool" where
  "is_exact c = (cert_dropped_mass c = 0)"

definition is_informative :: "certificate \<Rightarrow> bool" where
  "is_informative c = (cert_dropped_mass c < cert_range c + \<bar>cert_value c\<bar>)"

definition observable_l1_norm :: "observable \<Rightarrow> real" where
  "observable_l1_norm a = sum_list (map (\<lambda>(c, _). \<bar>c\<bar>) a)"

definition iz_value :: "(pauli_key \<times> weighted) list \<Rightarrow> complex" where
  "iz_value ts = sum_list (map (\<lambda>(k, w). if key_is_all_iz k then coeff w else 0) ts)"

definition past_ceiling :: "engine \<Rightarrow> certificate \<Rightarrow> omega_error option" where
  "past_ceiling en c =
     (case max_dropped_mass en of
        Some None \<Rightarrow> None
      | Some (Some x) \<Rightarrow> if x \<le> cert_dropped_mass c then Some (Unsupported (Uninformative (cert_dropped_mass c) x)) else None
      | None \<Rightarrow>
          let x = cert_range c + \<bar>cert_value c\<bar> in
          if x \<le> cert_dropped_mass c then Some (Unsupported (Uninformative (cert_dropped_mass c) x)) else None)"

definition expectation_with_certificate :: "engine \<Rightarrow> drain \<Rightarrow> circuit_ir \<Rightarrow> binding \<Rightarrow> observable \<Rightarrow> (real \<times> certificate) run" where
  "expectation_with_certificate en drn c b a =
     unless_error (refuse_qudits c ''pauliprop'')
       (bind_run (or_fail (prepare_for_expectation c a)) (\<lambda>(d, a').
         bind_run (propagate en drn d b a') (\<lambda>s.
           let v = iz_value (drn (sum_terms s));
               cert = \<lparr>cert_dropped_mass = dropped_mass s, cert_final_terms = sum_len s, cert_engine = en,
                 cert_range = observable_l1_norm a', cert_value = Re v\<rparr>
           in unless_error (past_ceiling en cert) (Done (Re v, cert)))))"

definition expectation_with_budget :: "engine \<Rightarrow> drain \<Rightarrow> circuit_ir \<Rightarrow> binding \<Rightarrow> observable \<Rightarrow> (real \<times> real) run" where
  "expectation_with_budget en drn c b a =
     unless_error (refuse_qudits c ''pauliprop'')
       (bind_run (or_fail (prepare_for_expectation c a)) (\<lambda>(d, a').
         bind_run (expectation_with_certificate en drn d b a') (\<lambda>(v, cert). Done (v, cert_dropped_mass cert))))"

definition pauliprop_expectation :: "engine \<Rightarrow> drain \<Rightarrow> circuit_ir \<Rightarrow> binding \<Rightarrow> observable \<Rightarrow> real run" where
  "pauliprop_expectation en drn c b a =
     unless_error (refuse_qudits c ''pauliprop'')
       (bind_run (expectation_with_budget en drn c b a) (\<lambda>(v, _). Done v))"

definition pauliprop_execute :: "circuit_ir \<Rightarrow> binding \<Rightarrow> exec_config \<Rightarrow> exec_result run" where
  "pauliprop_execute c b cfg = Failed (Unsupported Expectation_only)"

end
