(* ===== verification/SvAlgebra.thy ===== *)
theory SvAlgebra
  imports SvRun
begin

text \<open>
  The algebra of gate actions: products and commutation of one- and two-qubit actions, their
  linearity, and the distance of two states, which unitary gates keep.
\<close>

section \<open>Entries\<close>

lemma dense_1q_nth:
  "x < length st \<Longrightarrow> dense_1q q g st ! x =
     g ! (2 * of_bool (bit x q)) * st ! put_bit q False x + g ! (2 * of_bool (bit x q) + 1) * st ! put_bit q True x"
  by (simp add: dense_1q_def)

lemma diagonal_nth:
  assumes "x < length st"
  shows "dense_1q q [a, 0, 0, d] st ! x = (if bit x q then d else a) * st ! x"
  using assms put_bit_same [of q x] by (cases "bit x q") (simp_all add: dense_1q_nth numeral_3_eq_3)

lemma flip_nth: "x < length st \<Longrightarrow> dense_1q q gate_x st ! x = st ! put_bit q (\<not> bit x q) x"
  by (cases "bit x q") (simp_all add: dense_1q_nth gate_x_def numeral_3_eq_3)

lemma controlled_nth:
  assumes "q0 \<noteq> q1" "x < length st"
  shows "dense_2q q0 q1 (controlled_matrix g) st ! x = (if bit x q0 then dense_1q q1 g st ! x else st ! x)"
proof -
  have "put_bit q0 (bit x q0) (put_bit q1 b x) = put_bit q1 b x" for b
    using assms(1) by (intro bit_eqI) (auto simp: bit_put_bit)
  from this [of False] this [of True] show ?thesis
    using put_bit_same [of q1 x] assms(2)
    by (cases "bit x q0"; cases "bit x q1")
      (simp_all add: dense_2q_def dense_1q_nth row_2q_def controlled_matrix_def numeral_2_eq_2 numeral_3_eq_3)
qed

definition swap_bits :: "nat \<Rightarrow> nat \<Rightarrow> nat \<Rightarrow> nat" where
  "swap_bits q0 q1 x = put_bit q0 (bit x q1) (put_bit q1 (bit x q0) x)"

lemma swap_nth: "x < length st \<Longrightarrow> dense_2q q0 q1 gate_swap st ! x = st ! swap_bits q0 q1 x"
  by (cases "bit x q0"; cases "bit x q1") (simp_all add: dense_2q_def row_2q_def gate_swap_def swap_bits_def)

section \<open>Products\<close>

definition mul_1q :: "gate1q \<Rightarrow> gate1q \<Rightarrow> gate1q" where
  "mul_1q g h = [g ! 0 * h ! 0 + g ! 1 * h ! 2, g ! 0 * h ! 1 + g ! 1 * h ! 3,
     g ! 2 * h ! 0 + g ! 3 * h ! 2, g ! 2 * h ! 1 + g ! 3 * h ! 3]"

lemma dense_1q_compose:
  assumes "length st = 2 ^ n" "q < n"
  shows "dense_1q q g (dense_1q q h st) = dense_1q q (mul_1q g h) st"
proof (rule nth_equalityI)
  fix x assume "x < length (dense_1q q g (dense_1q q h st))"
  then have x: "x < 2 ^ n" using assms(1) by simp
  then show "dense_1q q g (dense_1q q h st) ! x = dense_1q q (mul_1q g h) st ! x"
    using put_bit_less [OF x assms(2)] assms(1)
    by (cases "bit x q") (simp_all add: dense_1q_nth mul_1q_def bit_put_bit numeral_3_eq_3 numeral_2_eq_2 algebra_simps)
qed simp

lemma dense_1q_one: "dense_1q q [1, 0, 0, 1] st = st"
  by (rule nth_equalityI) (simp_all add: diagonal_nth)

lemma controlled_compose:
  assumes "length st = 2 ^ n" "q0 < n" "q1 < n" "q0 \<noteq> q1"
  shows "dense_2q q0 q1 (controlled_matrix g) (dense_2q q0 q1 (controlled_matrix h) st) =
    dense_2q q0 q1 (controlled_matrix (mul_1q g h)) st"
proof (rule nth_equalityI)
  fix x assume "x < length (dense_2q q0 q1 (controlled_matrix g) (dense_2q q0 q1 (controlled_matrix h) st))"
  then have x: "x < 2 ^ n" using assms(1) by simp
  have "dense_1q q1 g (dense_2q q0 q1 (controlled_matrix h) st) ! x = dense_1q q1 g (dense_1q q1 h st) ! x" if "bit x q0"
    using x assms put_bit_less [OF x assms(3)] that by (simp add: dense_1q_nth [of x] controlled_nth bit_put_bit)
  then show "dense_2q q0 q1 (controlled_matrix g) (dense_2q q0 q1 (controlled_matrix h) st) ! x =
      dense_2q q0 q1 (controlled_matrix (mul_1q g h)) st ! x"
    using x assms by (simp add: controlled_nth dense_1q_compose)
qed simp

lemma controlled_one:
  assumes "length st = 2 ^ n" "q0 \<noteq> q1"
  shows "dense_2q q0 q1 (controlled_matrix [1, 0, 0, 1]) st = st"
  by (rule nth_equalityI) (use assms in \<open>simp_all add: controlled_nth dense_1q_one\<close>)

lemma swap_swap:
  assumes "length st = 2 ^ n" "q0 < n" "q1 < n"
  shows "dense_2q q0 q1 gate_swap (dense_2q q0 q1 gate_swap st) = st"
proof (rule nth_equalityI)
  fix x assume "x < length (dense_2q q0 q1 gate_swap (dense_2q q0 q1 gate_swap st))"
  then have x: "x < 2 ^ n" using assms(1) by simp
  have "swap_bits q0 q1 (swap_bits q0 q1 x) = x"
    by (rule bit_eqI) (auto simp: swap_bits_def bit_put_bit)
  moreover have "swap_bits q0 q1 x < 2 ^ n"
    using put_bit_less [OF put_bit_less [OF x assms(3)] assms(2)] by (simp add: swap_bits_def)
  ultimately show "dense_2q q0 q1 gate_swap (dense_2q q0 q1 gate_swap st) ! x = st ! x"
    using x assms(1) by (simp add: swap_nth)
qed simp

section \<open>Commutation\<close>

lemma dense_commute:
  assumes "length st = 2 ^ n" "q < n" "q0 < n" "q1 < n" "q \<noteq> q0" "q \<noteq> q1"
  shows "dense_1q q g (dense_2q q0 q1 h st) = dense_2q q0 q1 h (dense_1q q g st)"
proof (rule nth_equalityI)
  fix x assume "x < length (dense_1q q g (dense_2q q0 q1 h st))"
  then have x: "x < 2 ^ n" using assms(1) by simp
  have sw: "put_bit q a (put_bit q0 b y) = put_bit q0 b (put_bit q a y)"
    "put_bit q a (put_bit q1 b y) = put_bit q1 b (put_bit q a y)" for a b y
    using assms(5,6) by (simp_all add: put_bit_swap)
  have less: "put_bit q a x < 2 ^ n" "put_bit q0 a (put_bit q1 b x) < 2 ^ n" for a b
    using x assms put_bit_less by blast+
  have row: "row_2q q0 q1 (put_bit q a x) = row_2q q0 q1 x" for a
    using assms(5,6) by (simp add: row_2q_def bit_put_bit)
  show "dense_1q q g (dense_2q q0 q1 h st) ! x = dense_2q q0 q1 h (dense_1q q g st) ! x"
    using x assms(1) less assms(5,6)
    by (simp add: dense_1q_def dense_2q_def row bit_put_bit sw) (simp add: algebra_simps)
qed simp

lemma diagonal_control_commute:
  assumes "length st = 2 ^ n" "q0 < n" "q1 < n" "q0 \<noteq> q1"
  shows "dense_1q q0 [a, 0, 0, d] (dense_2q q0 q1 (controlled_matrix g) st) =
    dense_2q q0 q1 (controlled_matrix g) (dense_1q q0 [a, 0, 0, d] st)"
proof (rule nth_equalityI)
  fix x assume "x < length (dense_1q q0 [a, 0, 0, d] (dense_2q q0 q1 (controlled_matrix g) st))"
  then have x: "x < 2 ^ n" using assms(1) by simp
  show "dense_1q q0 [a, 0, 0, d] (dense_2q q0 q1 (controlled_matrix g) st) ! x =
      dense_2q q0 q1 (controlled_matrix g) (dense_1q q0 [a, 0, 0, d] st) ! x"
    using x assms put_bit_less [OF x assms(3)]
    by (simp add: diagonal_nth controlled_nth dense_1q_nth [where q = q1] bit_put_bit algebra_simps)
qed simp

lemma controlled_diagonal_nth:
  assumes "q0 \<noteq> q1" "x < length st"
  shows "dense_2q q0 q1 (controlled_matrix [a, 0, 0, d]) st ! x =
    (if bit x q0 then (if bit x q1 then d else a) else 1) * st ! x"
  using assms by (simp add: controlled_nth diagonal_nth)

lemma diagonal_target_commute:
  assumes "length st = 2 ^ n" "q0 \<noteq> q1"
  shows "dense_1q q1 [a, 0, 0, d] (dense_2q q0 q1 (controlled_matrix [u, 0, 0, v]) st) =
    dense_2q q0 q1 (controlled_matrix [u, 0, 0, v]) (dense_1q q1 [a, 0, 0, d] st)"
  by (rule nth_equalityI) (use assms in \<open>simp_all add: diagonal_nth controlled_diagonal_nth\<close>)

lemma flip_target_commute:
  assumes "length st = 2 ^ n" "q0 < n" "q1 < n" "q0 \<noteq> q1"
  shows "dense_1q q1 gate_x (dense_2q q0 q1 (controlled_matrix gate_x) st) =
    dense_2q q0 q1 (controlled_matrix gate_x) (dense_1q q1 gate_x st)"
proof (rule nth_equalityI)
  fix x assume "x < length (dense_1q q1 gate_x (dense_2q q0 q1 (controlled_matrix gate_x) st))"
  then have x: "x < 2 ^ n" using assms(1) by simp
  show "dense_1q q1 gate_x (dense_2q q0 q1 (controlled_matrix gate_x) st) ! x =
      dense_2q q0 q1 (controlled_matrix gate_x) (dense_1q q1 gate_x st) ! x"
    using x assms put_bit_less [OF x assms(3)] by (simp add: flip_nth controlled_nth bit_put_bit)
qed simp


section \<open>The distance of two states\<close>

definition sv_diff :: "complex list \<Rightarrow> complex list \<Rightarrow> complex list" where
  "sv_diff a b = map (\<lambda>x. a ! x - b ! x) [0..<length a]"

definition sv_dist :: "complex list \<Rightarrow> complex list \<Rightarrow> real" where
  "sv_dist a b = sqrt (norm_sq (sv_diff a b))"

lemma length_sv_diff [simp]: "length (sv_diff a b) = length a"
  by (simp add: sv_diff_def)

lemma sv_diff_nth [simp]: "x < length a \<Longrightarrow> sv_diff a b ! x = a ! x - b ! x"
  by (simp add: sv_diff_def)

lemma sv_dist_self [simp]: "sv_dist a a = 0"
  by (simp add: sv_dist_def norm_sq_def)

lemma sv_dist_nonneg [simp]: "0 \<le> sv_dist a b"
  by (simp add: sv_dist_def)

lemma cauchy_schwarz_sum:
  fixes f g :: "nat \<Rightarrow> real"
  assumes "\<And>x. 0 \<le> f x" "\<And>x. 0 \<le> g x"
  shows "(\<Sum>x<n. f x * g x) \<le> sqrt (\<Sum>x<n. (f x)\<^sup>2) * sqrt (\<Sum>x<n. (g x)\<^sup>2)"
proof -
  let ?A = "\<Sum>x<n. (f x)\<^sup>2" and ?B = "\<Sum>x<n. (g x)\<^sup>2" and ?C = "\<Sum>x<n. f x * g x"
  have pos: "0 \<le> ?A" "0 \<le> ?B" "0 \<le> ?C" using assms by (simp_all add: sum_nonneg)
  have "0 \<le> (\<Sum>x<n. (?B * f x - ?C * g x)\<^sup>2)" by (simp add: sum_nonneg)
  also have "\<dots> = (\<Sum>x<n. ?B\<^sup>2 * (f x)\<^sup>2 - 2 * ?B * ?C * (f x * g x) + ?C\<^sup>2 * (g x)\<^sup>2)"
    by (simp add: power2_diff power_mult_distrib algebra_simps)
  also have "\<dots> = ?B\<^sup>2 * ?A - 2 * ?B * ?C * ?C + ?C\<^sup>2 * ?B"
    by (simp only: sum.distrib sum_subtractf sum_distrib_left [symmetric])
  also have "\<dots> = ?B * (?A * ?B - ?C\<^sup>2)" by (simp add: algebra_simps power2_eq_square)
  finally have b: "0 \<le> ?B * (?A * ?B - ?C\<^sup>2)" .
  have "?C\<^sup>2 \<le> ?A * ?B"
  proof (cases "?B = 0")
    case True
    then have "\<forall>x \<in> {..<n}. (g x)\<^sup>2 = 0" by (subst (asm) sum_nonneg_eq_0_iff) simp_all
    then show ?thesis using True by (simp add: sum.neutral)
  next
    case False
    then show ?thesis using b pos(2) by (simp add: zero_le_mult_iff)
  qed
  then have "?C \<le> sqrt (?A * ?B)" by (rule real_le_rsqrt)
  then show ?thesis by (simp add: real_sqrt_mult)
qed

lemma sv_dist_triangle:
  assumes "length a = length b" "length b = length c"
  shows "sv_dist a c \<le> sv_dist a b + sv_dist b c"
proof -
  let ?f = "\<lambda>x. cmod (a ! x - b ! x)" and ?g = "\<lambda>x. cmod (b ! x - c ! x)" and ?n = "length a"
  have n: "norm_sq (sv_diff a c) = (\<Sum>x<?n. (cmod (a ! x - c ! x))\<^sup>2)" "norm_sq (sv_diff a b) = (\<Sum>x<?n. (?f x)\<^sup>2)"
    "norm_sq (sv_diff b c) = (\<Sum>x<?n. (?g x)\<^sup>2)"
    using assms by (simp_all add: norm_sq_def)
  have "(cmod (a ! x - c ! x))\<^sup>2 \<le> (?f x + ?g x)\<^sup>2" for x
    using norm_triangle_ineq [of "a ! x - b ! x" "b ! x - c ! x"] by (simp add: power_mono)
  then have "norm_sq (sv_diff a c) \<le> (\<Sum>x<?n. (?f x + ?g x)\<^sup>2)" unfolding n(1) by (intro sum_mono)
  also have "\<dots> = (\<Sum>x<?n. (?f x)\<^sup>2 + 2 * (?f x * ?g x) + (?g x)\<^sup>2)" by (simp add: power2_sum algebra_simps)
  also have "\<dots> = norm_sq (sv_diff a b) + 2 * (\<Sum>x<?n. ?f x * ?g x) + norm_sq (sv_diff b c)"
    by (simp add: n sum.distrib sum_distrib_left)
  also have "\<dots> \<le> norm_sq (sv_diff a b) + 2 * (sv_dist a b * sv_dist b c) + norm_sq (sv_diff b c)"
    using cauchy_schwarz_sum [of ?f ?g ?n] by (simp add: sv_dist_def n)
  also have "\<dots> = (sv_dist a b + sv_dist b c)\<^sup>2" by (simp add: sv_dist_def power2_sum)
  finally show ?thesis unfolding sv_dist_def [of a c] by (intro real_le_lsqrt) simp_all
qed

section \<open>Linearity\<close>

lemma dense_1q_diff:
  assumes "length a = 2 ^ n" "length b = 2 ^ n" "q < n"
  shows "dense_1q q g (sv_diff a b) = sv_diff (dense_1q q g a) (dense_1q q g b)"
proof (rule nth_equalityI)
  fix x assume "x < length (dense_1q q g (sv_diff a b))"
  then have x: "x < 2 ^ n" using assms(1) by simp
  show "dense_1q q g (sv_diff a b) ! x = sv_diff (dense_1q q g a) (dense_1q q g b) ! x"
    using x assms put_bit_less [OF x assms(3)] by (simp add: dense_1q_nth algebra_simps)
qed simp

lemma dense_2q_diff:
  assumes "length a = 2 ^ n" "length b = 2 ^ n" "q0 < n" "q1 < n"
  shows "dense_2q q0 q1 g (sv_diff a b) = sv_diff (dense_2q q0 q1 g a) (dense_2q q0 q1 g b)"
proof (rule nth_equalityI)
  fix x assume "x < length (dense_2q q0 q1 g (sv_diff a b))"
  then have x: "x < 2 ^ n" using assms(1) by simp
  have less: "put_bit q0 u (put_bit q1 v x) < 2 ^ n" for u v using put_bit_less [OF put_bit_less [OF x assms(4)] assms(3)] .
  show "dense_2q q0 q1 g (sv_diff a b) ! x = sv_diff (dense_2q q0 q1 g a) (dense_2q q0 q1 g b) ! x"
    using x assms less by (simp add: dense_2q_def algebra_simps)
qed simp

lemma permuted_diff:
  assumes "length a = 2 ^ n" "length b = 2 ^ n" "\<And>x. x < 2 ^ n \<Longrightarrow> \<pi> x < 2 ^ n"
  shows "permuted \<pi> (sv_diff a b) = sv_diff (permuted \<pi> a) (permuted \<pi> b)"
  by (rule nth_equalityI) (use assms in \<open>simp_all add: permuted_def\<close>)

lemma three_qubit_less:
  assumes "valid_op n op" "op_gate op \<in> {CCX, CSwap}" "x < 2 ^ n"
  shows "toffoli (map unat (op_qubits op) ! 0) (map unat (op_qubits op) ! 1) (map unat (op_qubits op) ! 2) x < 2 ^ n"
    "fredkin (map unat (op_qubits op) ! 0) (map unat (op_qubits op) ! 1) (map unat (op_qubits op) ! 2) x < 2 ^ n"
proof -
  have b: "unat (op_qubits op ! i) < n" "map unat (op_qubits op) ! i = unat (op_qubits op ! i)" if "i < 3" for i
    using valid_op_nth(2) [OF assms(1), of i] op_qubits_nth [OF assms(1), of i] assms(2) that by auto
  show "toffoli (map unat (op_qubits op) ! 0) (map unat (op_qubits op) ! 1) (map unat (op_qubits op) ! 2) x < 2 ^ n"
    using put_bit_less [OF assms(3) b(1) [of 2]] assms(3) b(2) by (simp add: toffoli_def)
  show "fredkin (map unat (op_qubits op) ! 0) (map unat (op_qubits op) ! 1) (map unat (op_qubits op) ! 2) x < 2 ^ n"
    using put_bit_less [OF put_bit_less [OF assms(3) b(1) [of 2]] b(1) [of 1]] assms(3) b(2) by (simp add: fredkin_def)
qed

lemma gate_action_diff:
  assumes "length a = 2 ^ n" "length c = 2 ^ n" "valid_op n op" "unitary_gate (op_gate op)"
  shows "gate_action (op_gate op) ps (map unat (op_qubits op)) (sv_diff a c) =
    sv_diff (gate_action (op_gate op) ps (map unat (op_qubits op)) a) (gate_action (op_gate op) ps (map unat (op_qubits op)) c)"
proof -
  note q = valid_op_nth(2) [OF assms(3)] and nth = op_qubits_nth [OF assms(3)]
  consider m where "matrix1 (op_gate op) ps = Some m" | m where "matrix2 (op_gate op) ps = Some m" "matrix1 (op_gate op) ps = None"
    | "op_gate op = CCX" | "op_gate op = CSwap" | "op_gate op = Id"
    using assms(4) by (cases "op_gate op") auto
  then show ?thesis
  proof cases
    case 1
    note b = num_bounds(1) [OF 1]
    show ?thesis using dense_1q_diff [OF assms(1,2) q [OF b]] nth [OF b] 1 by (simp add: gate_action_def)
  next
    case 2
    note b = num_bounds(2) [OF 2(1)]
    then have b0: "0 < num_qubits (op_gate op)" by simp
    show ?thesis using dense_2q_diff [OF assms(1,2) q [OF b0] q [OF b]] nth [OF b] nth [OF b0] 2 by (simp add: gate_action_def)
  next
    case 3
    then show ?thesis
      using permuted_diff [OF assms(1,2) three_qubit_less(1) [OF assms(3)]] by (simp add: gate_action_three)
  next
    case 4
    then show ?thesis
      using permuted_diff [OF assms(1,2) three_qubit_less(2) [OF assms(3)]] by (simp add: gate_action_three)
  qed (simp add: gate_action_def)
qed

end
