(* ===== verification/PauliOps.thy ===== *)
theory PauliOps
  imports PauliProp SvAlgebra
begin

text \<open>
  Pauli strings as operators on states: the string of a key first signs an amplitude by its \<open>z\<close> bits
  and then moves it by its \<open>x\<close> bits.  Products, adjoints, the value of a string in a state, and
  isometries in the form that keeps inner products.
\<close>

section \<open>Signs and flips\<close>

definition sign :: "bool \<Rightarrow> complex" where
  "sign b = (if b then - 1 else 1)"

lemma sign_simps [simp]: "sign True = - 1" "sign False = 1" "sign b * sign b = 1" "cnj (sign b) = sign b" "cmod (sign b) = 1"
  "sign b * (sign b * z) = z"
  by (cases b; simp add: sign_def)+

lemma sign_bxor: "sign (bxor a b) = sign a * sign b"
  by (simp add: sign_def)

definition chi :: "nat \<Rightarrow> (nat \<Rightarrow> bool) \<Rightarrow> nat \<Rightarrow> complex" where
  "chi n fz x = sign (parity_of (\<lambda>q. fz q \<and> bit x q) n)"

definition flip_bits :: "nat \<Rightarrow> (nat \<Rightarrow> bool) \<Rightarrow> nat \<Rightarrow> nat" where
  "flip_bits n fx x = x XOR horner_sum of_bool 2 (map fx [0..<n])"

definition cross :: "nat \<Rightarrow> (nat \<Rightarrow> bool) \<Rightarrow> (nat \<Rightarrow> bool) \<Rightarrow> complex" where
  "cross n fz fx = sign (parity_of (\<lambda>q. fz q \<and> fx q) n)"

lemma bit_flip_bits: "bit (flip_bits n fx x) q = bxor (bit x q) (q < n \<and> fx q)"
  by (auto simp: flip_bits_def bit_xor_iff bit_horner_sum_bit_iff)

lemma flip_bits_less: "x < 2 ^ n \<Longrightarrow> flip_bits n fx x < 2 ^ n"
  by (auto simp: less_exp_iff_bits bit_flip_bits)

lemma flip_flip [simp]: "flip_bits n fx (flip_bits n fx x) = x"
  by (rule bit_eqI) (auto simp: bit_flip_bits)

lemma flip_bits_bxor: "flip_bits n fx (flip_bits n gx x) = flip_bits n (\<lambda>q. bxor (fx q) (gx q)) x"
  by (rule bit_eqI) (auto simp: bit_flip_bits)

lemma flip_bits_none: "(\<And>q. q < n \<Longrightarrow> \<not> fx q) \<Longrightarrow> flip_bits n fx x = x"
  by (rule bit_eqI) (auto simp: bit_flip_bits)

lemma flip_bits_cong: "(\<And>q. q < n \<Longrightarrow> fx q = gx q) \<Longrightarrow> flip_bits n fx x = flip_bits n gx x"
  by (rule bit_eqI) (auto simp: bit_flip_bits)

lemma flip_bits_bij: "bij_betw (flip_bits n fx) {..<2 ^ n} {..<2 ^ n}"
  by (rule bij_betw_byWitness [where f' = "flip_bits n fx"]) (auto simp: flip_bits_less)

lemma chi_flip: "chi n fz (flip_bits n fx x) = chi n fz x * cross n fz fx"
proof -
  have "parity_of (\<lambda>q. fz q \<and> bit (flip_bits n fx x) q) n = parity_of (\<lambda>q. bxor (fz q \<and> bit x q) (fz q \<and> fx q)) n"
    by (rule parity_of_cong) (auto simp: bit_flip_bits)
  then show ?thesis unfolding chi_def cross_def by (simp only: parity_of_bxor sign_bxor)
qed

lemma chi_bxor: "chi n (\<lambda>q. bxor (fz q) (gz q)) x = chi n fz x * chi n gz x"
proof -
  have "parity_of (\<lambda>q. bxor (fz q) (gz q) \<and> bit x q) n = parity_of (\<lambda>q. bxor (fz q \<and> bit x q) (gz q \<and> bit x q)) n"
    by (rule parity_of_cong) auto
  then show ?thesis unfolding chi_def by (simp only: parity_of_bxor sign_bxor)
qed

lemma chi_simps [simp]: "cnj (chi n fz x) = chi n fz x" "cmod (chi n fz x) = 1" "chi n fz x * chi n fz x = 1"
  by (simp_all add: chi_def)

lemma cross_simps [simp]: "cnj (cross n fz fx) = cross n fz fx" "cross n fz fx * cross n fz fx = 1"
  "cross n fz fx * (cross n fz fx * c) = c"
  by (simp_all add: cross_def)

lemma chi_none: "(\<And>q. q < n \<Longrightarrow> \<not> fz q) \<Longrightarrow> chi n fz x = 1"
  by (simp add: chi_def parity_of_False)

lemma chi_cong: "(\<And>q. q < n \<Longrightarrow> fz q = gz q) \<Longrightarrow> chi n fz x = chi n gz x"
  using parity_of_cong [of n "\<lambda>q. fz q \<and> bit x q" "\<lambda>q. gz q \<and> bit x q"] by (simp add: chi_def)

lemma cross_none: "(\<And>q. q < n \<Longrightarrow> \<not> fx q) \<Longrightarrow> cross n fz fx = 1"
  by (simp add: cross_def parity_of_False)

section \<open>Strings as operators\<close>

definition raw :: "nat \<Rightarrow> (nat \<Rightarrow> bool) \<Rightarrow> (nat \<Rightarrow> bool) \<Rightarrow> complex list \<Rightarrow> complex list" where
  "raw n fx fz st = map (\<lambda>y. chi n fz (flip_bits n fx y) * st ! flip_bits n fx y) [0..<length st]"

definition scale :: "complex \<Rightarrow> complex list \<Rightarrow> complex list" where
  "scale c st = map ((*) c) st"

definition vplus :: "complex list \<Rightarrow> complex list \<Rightarrow> complex list" where
  "vplus a b = map (\<lambda>x. a ! x + b ! x) [0..<length a]"

lemma length_ops [simp]: "length (raw n fx fz st) = length st" "length (scale c st) = length st" "length (vplus a b) = length a"
  by (simp_all add: raw_def scale_def vplus_def)

lemma nth_ops [simp]:
  "x < length st \<Longrightarrow> raw n fx fz st ! x = chi n fz (flip_bits n fx x) * st ! flip_bits n fx x"
  "x < length st \<Longrightarrow> scale c st ! x = c * st ! x"
  "x < length a \<Longrightarrow> vplus a b ! x = a ! x + b ! x"
  by (simp_all add: raw_def scale_def vplus_def)

lemma raw_cong:
  "(\<And>q. q < n \<Longrightarrow> fx q = fx' q) \<Longrightarrow> (\<And>q. q < n \<Longrightarrow> fz q = fz' q) \<Longrightarrow> raw n fx fz st = raw n fx' fz' st"
  using flip_bits_cong [of n fx fx'] chi_cong [of n fz fz'] by (simp add: raw_def)

lemma raw_raw:
  assumes "length st = 2 ^ n"
  shows "raw n fx fz (raw n gx gz st) = scale (cross n fz gx) (raw n (\<lambda>q. bxor (fx q) (gx q)) (\<lambda>q. bxor (fz q) (gz q)) st)"
proof (rule nth_equalityI)
  fix y assume "y < length (raw n fx fz (raw n gx gz st))"
  then have y: "y < length st" "flip_bits n fx y < length st" using assms flip_bits_less [of y n fx] by simp_all
  let ?u = "flip_bits n gx (flip_bits n fx y)"
  have u: "flip_bits n (\<lambda>q. bxor (fx q) (gx q)) y = ?u"
    unfolding flip_bits_bxor by (rule arg_cong [of _ _ "\<lambda>f. flip_bits n f y"]) auto
  have "chi n fz ?u = chi n fz (flip_bits n fx y) * cross n fz gx" by (rule chi_flip)
  moreover have "raw n (\<lambda>q. bxor (fx q) (gx q)) (\<lambda>q. bxor (fz q) (gz q)) st ! y = chi n fz ?u * chi n gz ?u * st ! ?u"
    using y(1) by (simp only: nth_ops u chi_bxor)
  ultimately show "raw n fx fz (raw n gx gz st) ! y =
      scale (cross n fz gx) (raw n (\<lambda>q. bxor (fx q) (gx q)) (\<lambda>q. bxor (fz q) (gz q)) st) ! y"
    using y by (simp add: mult.commute mult.left_commute)
qed simp

lemma raw_none:
  assumes "length st = 2 ^ n" "\<And>q. q < n \<Longrightarrow> \<not> fx q" "\<And>q. q < n \<Longrightarrow> \<not> fz q"
  shows "raw n fx fz st = st"
  using assms flip_bits_none [of n fx] chi_none [of n fz] by (intro nth_equalityI) simp_all

lemma scale_scale [simp]: "scale a (scale b st) = scale (a * b) st"
  by (simp add: scale_def mult.assoc)

lemma scale_1 [simp]: "scale 1 st = st"
  by (rule nth_equalityI) simp_all

lemma raw_scale: "length st = 2 ^ n \<Longrightarrow> raw n fx fz (scale c st) = scale c (raw n fx fz st)"
  by (rule nth_equalityI) (simp_all add: flip_bits_less mult.left_commute)

lemma raw_vplus: "length a = 2 ^ n \<Longrightarrow> length b = 2 ^ n \<Longrightarrow> raw n fx fz (vplus a b) = vplus (raw n fx fz a) (raw n fx fz b)"
  by (rule nth_equalityI) (simp_all add: flip_bits_less algebra_simps)

lemma scale_vplus: "scale c (vplus a b) = vplus (scale c a) (scale c b)" if "length b = length a"
  using that by (intro nth_equalityI) (simp_all add: algebra_simps)

section \<open>Inner products\<close>

lemma braket_scale: "braket a (scale c b) = c * braket a b" "braket (scale c a) b = cnj c * braket a b" if "length a = length b"
  using that by (simp_all add: braket_def sum_distrib_left mult.commute mult.left_commute cong: sum.cong_simp)

lemma braket_vplus:
  "length b = length a \<Longrightarrow> braket a (vplus b c) = braket a b + braket a c"
  "braket (vplus a b) c = braket a c + braket b c" if "length a = length b"
  using that by (simp_all add: braket_def sum.distrib algebra_simps cong: sum.cong_simp)

lemma braket_raw:
  assumes "length a = 2 ^ n" "length b = 2 ^ n"
  shows "braket (raw n fx fz a) b = cross n fz fx * braket a (raw n fx fz b)"
proof -
  let ?f = "flip_bits n fx"
  have "braket (raw n fx fz a) b = (\<Sum>y<2 ^ n. chi n fz (?f y) * cnj (a ! ?f y) * b ! y)"
    using assms by (simp add: braket_def)
  also have "\<dots> = (\<Sum>y<2 ^ n. chi n fz (?f (?f y)) * cnj (a ! ?f (?f y)) * b ! ?f y)"
    by (rule sum.reindex_bij_betw [OF flip_bits_bij, symmetric])
  also have "\<dots> = (\<Sum>y<2 ^ n. cross n fz fx * (cnj (a ! y) * (chi n fz (?f y) * b ! ?f y)))"
    by (intro sum.cong refl) (simp add: chi_flip mult.commute mult.left_commute)
  also have "\<dots> = cross n fz fx * braket a (raw n fx fz b)"
    using assms by (simp add: braket_def sum_distrib_left)
  finally show ?thesis .
qed

lemma braket_self: "braket st st = of_real (norm_sq st)"
  by (simp add: braket_def norm_sq_def complex_norm_square mult.commute del: of_real_power)

lemma norm_raw:
  assumes "length st = 2 ^ n"
  shows "norm_sq (raw n fx fz st) = norm_sq st"
proof -
  have "norm_sq (raw n fx fz st) = (\<Sum>y<2 ^ n. (cmod (st ! flip_bits n fx y))\<^sup>2)"
    using assms by (simp add: norm_sq_def norm_mult)
  also have "\<dots> = norm_sq st"
    using sum.reindex_bij_betw [OF flip_bits_bij, of "\<lambda>y. (cmod (st ! y))\<^sup>2" n fx] assms by (simp add: norm_sq_def)
  finally show ?thesis .
qed

lemma braket_bound:
  assumes "length a = length b"
  shows "cmod (braket a b) \<le> sqrt (norm_sq a) * sqrt (norm_sq b)"
proof -
  have "cmod (braket a b) \<le> (\<Sum>x<length a. cmod (a ! x) * cmod (b ! x))"
    unfolding braket_def by (rule order_trans [OF norm_sum]) (simp add: norm_mult)
  also have "\<dots> \<le> sqrt (norm_sq a) * sqrt (norm_sq b)"
    using cauchy_schwarz_sum [of "\<lambda>x. cmod (a ! x)" "\<lambda>x. cmod (b ! x)" "length a"] assms by (simp add: norm_sq_def)
  finally show ?thesis .
qed

text \<open>The value of a string in a state.\<close>

definition string_value :: "nat \<Rightarrow> complex list \<Rightarrow> pauli_key \<Rightarrow> complex" where
  "string_value n st k = braket st (raw n (xbit k) (zbit k) st)"

lemma string_value_bound:
  assumes "length st = 2 ^ n" "norm_sq st = 1"
  shows "cmod (string_value n st k) \<le> 1"
  using braket_bound [of st "raw n (xbit k) (zbit k) st"] norm_raw [OF assms(1)] assms by (simp add: string_value_def)


section \<open>Isometries\<close>

definition isometric :: "nat \<Rightarrow> (complex list \<Rightarrow> complex list) \<Rightarrow> bool" where
  "isometric n U \<longleftrightarrow> (\<forall>a b. length a = 2 ^ n \<longrightarrow> length b = 2 ^ n \<longrightarrow>
     length (U a) = 2 ^ n \<and> braket (U a) (U b) = braket a b)"

lemma isometric_facts:
  assumes "isometric n U" "length a = 2 ^ n"
  shows "length (U a) = 2 ^ n" "norm_sq (U a) = norm_sq a" "length b = 2 ^ n \<Longrightarrow> braket (U a) (U b) = braket a b"
proof -
  show "length (U a) = 2 ^ n" using assms by (auto simp: isometric_def)
  have "braket (U a) (U a) = braket a a" using assms by (auto simp: isometric_def)
  then show "norm_sq (U a) = norm_sq a" unfolding braket_self by (simp only: of_real_eq_iff)
  show "length b = 2 ^ n \<Longrightarrow> braket (U a) (U b) = braket a b" using assms by (auto simp: isometric_def)
qed

lemma isometric_id: "isometric n (\<lambda>st. st)"
  by (simp add: isometric_def)

lemma isometric_comp: "isometric n U \<Longrightarrow> isometric n V \<Longrightarrow> isometric n (\<lambda>st. U (V st))"
  by (simp add: isometric_def)

lemma isometric_scale: "cnj c * c = 1 \<Longrightarrow> isometric n (scale c)"
  by (simp add: isometric_def braket_scale mult.commute [of c])

lemma inner_isometry:
  fixes G :: "nat \<Rightarrow> nat \<Rightarrow> complex"
  assumes "\<And>i j. i < m \<Longrightarrow> j < m \<Longrightarrow> (\<Sum>k<m. cnj (G k i) * G k j) = (if i = j then 1 else 0)"
  shows "(\<Sum>k<m. cnj (\<Sum>i<m. G k i * u i) * (\<Sum>j<m. G k j * v j)) = (\<Sum>j<m. cnj (u j) * v j)"
proof -
  have "(\<Sum>k<m. cnj (\<Sum>i<m. G k i * u i) * (\<Sum>j<m. G k j * v j)) =
      (\<Sum>k<m. \<Sum>i<m. \<Sum>j<m. cnj (u i) * v j * (cnj (G k i) * G k j))"
    unfolding cnj_sum sum_product by (intro sum.cong refl) (simp add: mult.commute mult.left_commute)
  also have "\<dots> = (\<Sum>i<m. \<Sum>k<m. \<Sum>j<m. cnj (u i) * v j * (cnj (G k i) * G k j))" by (rule sum.swap)
  also have "\<dots> = (\<Sum>i<m. \<Sum>j<m. \<Sum>k<m. cnj (u i) * v j * (cnj (G k i) * G k j))"
    by (intro sum.cong refl sum.swap)
  also have "\<dots> = (\<Sum>i<m. \<Sum>j<m. cnj (u i) * v j * (if i = j then 1 else 0))"
    using assms by (simp add: sum_distrib_left [symmetric])
  also have "\<dots> = (\<Sum>i<m. cnj (u i) * v i)" by (simp add: sum.delta if_distrib cong: if_cong)
  finally show ?thesis .
qed

lemma isometric_dense_1q:
  assumes "q < n" "unitary1 g"
  shows "isometric n (dense_1q q g)"
  unfolding isometric_def
proof (intro allI impI conjI)
  fix a b :: "complex list" assume l: "length a = 2 ^ n" "length b = 2 ^ n"
  show "length (dense_1q q g a) = 2 ^ n" using l by simp
  show "braket (dense_1q q g a) (dense_1q q g b) = braket a b"
    unfolding braket_def length_dense l(1)
  proof (rule sum_cong_groups1 [OF assms(1)])
    fix x :: nat assume x: "x < 2 ^ n"
    have e: "dense_1q q g st ! put_bit q c x = g ! (2 * of_bool c) * st ! put_bit q False x + g ! (2 * of_bool c + 1) * st ! put_bit q True x"
      if "length st = 2 ^ n" for st c
      using put_bit_less [OF x assms(1), of c] that by (simp add: dense_1q_def bit_put_bit)
    show "cnj (dense_1q q g a ! put_bit q False x) * dense_1q q g b ! put_bit q False x +
        cnj (dense_1q q g a ! put_bit q True x) * dense_1q q g b ! put_bit q True x =
        cnj (a ! put_bit q False x) * b ! put_bit q False x + cnj (a ! put_bit q True x) * b ! put_bit q True x"
      using inner_isometry [of 2 "\<lambda>k j. g ! (2 * k + j)" "(!) [a ! put_bit q False x, a ! put_bit q True x]"
          "(!) [b ! put_bit q False x, b ! put_bit q True x]"] assms(2)
      by (simp add: e [OF l(1)] e [OF l(2)] unitary1_def sum_2 numeral_3_eq_3)
  qed
qed

lemma isometric_dense_2q:
  assumes "q < n" "r < n" "q \<noteq> r" "unitary2 g"
  shows "isometric n (dense_2q q r g)"
  unfolding isometric_def
proof (intro allI impI conjI)
  fix a b :: "complex list" assume l: "length a = 2 ^ n" "length b = 2 ^ n"
  show "length (dense_2q q r g a) = 2 ^ n" using l by simp
  show "braket (dense_2q q r g a) (dense_2q q r g b) = braket a b"
    unfolding braket_def length_dense l(1)
  proof (rule sum_cong_groups2 [OF assms(1-3)])
    fix x :: nat assume x: "x < 2 ^ n"
    let ?p = "\<lambda>c d. put_bit q c (put_bit r d x)"
    let ?v = "\<lambda>st :: complex list. [st ! ?p False False, st ! ?p False True, st ! ?p True False, st ! ?p True True]"
    have p: "put_bit q c (put_bit r d (?p a b)) = ?p c d" for a b c d
      using assms(3) by (intro bit_eqI) (auto simp: bit_put_bit)
    have e: "dense_2q q r g st ! ?p c d =
        (let k = 2 * of_bool c + of_bool d in g ! (4 * k) * ?v st ! 0 + g ! (4 * k + 1) * ?v st ! 1 + g ! (4 * k + 2) * ?v st ! 2
          + g ! (4 * k + 3) * ?v st ! 3)" if "length st = 2 ^ n" for st c d
    proof -
      have b: "?p c d < 2 ^ n" using put_bit_less [OF put_bit_less [OF x assms(2)] assms(1)] .
      have "row_2q q r (?p c d) = 2 * of_bool c + of_bool d" using assms(3) by (simp add: row_2q_def bit_put_bit)
      then show ?thesis using b that by (simp add: dense_2q_def p Let_def)
    qed
    show "cnj (dense_2q q r g a ! ?p False False) * dense_2q q r g b ! ?p False False +
        cnj (dense_2q q r g a ! ?p False True) * dense_2q q r g b ! ?p False True +
        cnj (dense_2q q r g a ! ?p True False) * dense_2q q r g b ! ?p True False +
        cnj (dense_2q q r g a ! ?p True True) * dense_2q q r g b ! ?p True True =
        cnj (a ! ?p False False) * b ! ?p False False + cnj (a ! ?p False True) * b ! ?p False True +
        cnj (a ! ?p True False) * b ! ?p True False + cnj (a ! ?p True True) * b ! ?p True True"
      using inner_isometry [of 4 "\<lambda>k j. g ! (4 * k + j)" "(!) (?v a)" "(!) (?v b)"] assms(4)
      by (simp add: e [OF l(1)] e [OF l(2)] unitary2_def sum_4 Let_def)
  qed
qed

text \<open>Conjugation: if moving the string through the operation turns it into another one, so does taking
  its value after the operation.\<close>

lemma string_value_conj:
  assumes "isometric n U" "length st = 2 ^ n"
    "raw n (xbit k) (zbit k) (U st) = scale f (U (raw n (xbit k') (zbit k') st))"
  shows "string_value n (U st) k = f * string_value n st k'"
  using isometric_facts(1,3) [OF assms(1), where a = st] isometric_facts(1) [OF assms(1), where a = "raw n (xbit k') (zbit k') st"] assms(2)
  by (simp add: string_value_def assms(3) braket_scale)

end
