(* ===== verification/PauliClifford.thy ===== *)
theory PauliClifford
  imports PauliOps
begin

text \<open>
  The Clifford gates of Pauli propagation: the tables of images agree with conjugation by the gate
  matrices of the state-vector backend, and the loops over the terms keep the value of the sum.
\<close>

section \<open>Moving a string through a gate\<close>

lemma parity_of_one: "parity_of (\<lambda>p. p = q \<and> c) n = (q < n \<and> c)"
  by (induction n) auto

lemma chi_split:
  assumes "q < n"
  shows "chi n fz x = chi n (fz(q := False)) x * sign (fz q \<and> bit x q)"
proof -
  have "chi n fz x = chi n (\<lambda>p. bxor ((fz(q := False)) p) (p = q \<and> fz q)) x"
    by (rule chi_cong) auto
  also have "\<dots> = chi n (fz(q := False)) x * chi n (\<lambda>p. p = q \<and> fz q) x" by (rule chi_bxor)
  also have "chi n (\<lambda>p. p = q \<and> fz q) x = sign (fz q \<and> bit x q)"
  proof -
    have "parity_of (\<lambda>p. (p = q \<and> fz q) \<and> bit x p) n = parity_of (\<lambda>p. p = q \<and> fz q \<and> bit x q) n"
      by (rule parity_of_cong) auto
    then show ?thesis using assms by (simp only: chi_def parity_of_one simp_thms)
  qed
  finally show ?thesis .
qed

lemma chi_put: "chi n (fz(q := False)) (put_bit q c x) = chi n (fz(q := False)) x"
proof -
  have "parity_of (\<lambda>p. (fz(q := False)) p \<and> bit (put_bit q c x) p) n = parity_of (\<lambda>p. (fz(q := False)) p \<and> bit x p) n"
    by (rule parity_of_cong) (simp add: bit_put_bit)
  then show ?thesis by (simp only: chi_def)
qed

lemma chi_put_split: "q < n \<Longrightarrow> chi n fz (put_bit q c x) = chi n (fz(q := False)) x * sign (fz q \<and> c)"
  using chi_split [of q n fz "put_bit q c x"] by (simp only: chi_put bit_put_bit if_True simp_thms)

lemma flip_put:
  assumes "q < n" "\<And>p. p < n \<Longrightarrow> p \<noteq> q \<Longrightarrow> fx' p = fx p"
  shows "flip_bits n fx' (put_bit q c y) = put_bit q (bxor c (fx' q)) (flip_bits n fx y)"
  using assms by (intro bit_eqI) (auto simp: bit_flip_bits bit_put_bit)

text \<open>The condition on the entries of a one-qubit matrix: the string on the left with bits \<open>x z\<close>, on
  the right with \<open>x' z'\<close> and the factor.\<close>

definition moves1 :: "gate1q \<Rightarrow> bool \<Rightarrow> bool \<Rightarrow> bool \<Rightarrow> bool \<Rightarrow> complex \<Rightarrow> bool" where
  "moves1 g x z x' z' f \<longleftrightarrow> (\<forall>b j. sign (z \<and> bxor b x) * g ! (2 * of_bool (bxor b x) + of_bool j) =
     f * g ! (2 * of_bool b + of_bool (bxor j x')) * sign (z' \<and> j))"

lemma raw_dense_1q:
  assumes l: "length st = 2 ^ n" and q: "q < n" and x: "\<And>p. p < n \<Longrightarrow> p \<noteq> q \<Longrightarrow> fx' p = fx p"
    and z: "\<And>p. p < n \<Longrightarrow> p \<noteq> q \<Longrightarrow> fz' p = fz p" and m: "moves1 g (fx q) (fz q) (fx' q) (fz' q) f"
  shows "raw n fx fz (dense_1q q g st) = scale f (dense_1q q g (raw n fx' fz' st))"
proof (rule nth_equalityI)
  fix y assume "y < length (raw n fx fz (dense_1q q g st))"
  then have y: "y < 2 ^ n" using l by simp
  let ?w = "flip_bits n fx y" and ?b = "bit y q"
  have w: "?w < 2 ^ n" using flip_bits_less [OF y] .
  let ?c = "chi n (fz(q := False)) ?w" and ?s = "\<lambda>c. st ! put_bit q c ?w"
  have bw: "bit ?w q = bxor ?b (fx q)" using q by (simp add: bit_flip_bits)
  have zc: "chi n (fz'(q := False)) ?w = ?c" by (rule chi_cong) (use z in auto)
  have r: "raw n fx' fz' st ! put_bit q k y = ?c * sign (fz' q \<and> bxor k (fx' q)) * ?s (bxor k (fx' q))" for k
    using put_bit_less [OF y q, of k] l flip_put [OF q x, where c = k and y = y] chi_put_split [OF q, of fz'] zc by simp
  have "raw n fx fz (dense_1q q g st) ! y = ?c * sign (fz q \<and> bit ?w q) * dense_1q q g st ! ?w"
    using y l chi_split [OF q, of fz ?w] by simp
  also have "\<dots> = ?c * (sign (fz q \<and> bxor ?b (fx q)) * (g ! (2 * of_bool (bxor ?b (fx q)) + of_bool False) * ?s False +
      g ! (2 * of_bool (bxor ?b (fx q)) + of_bool True) * ?s True))"
    using w l unfolding bw [symmetric] by (simp add: dense_1q_nth)
  also have "\<dots> = ?c * (f * g ! (2 * of_bool ?b + of_bool (bxor False (fx' q))) * sign (fz' q \<and> False) * ?s False +
      f * g ! (2 * of_bool ?b + of_bool (bxor True (fx' q))) * sign (fz' q \<and> True) * ?s True)"
    using m unfolding moves1_def by (simp only: distrib_left mult.assoc [symmetric])
  also have "\<dots> = f * (g ! (2 * of_bool ?b + of_bool False) * raw n fx' fz' st ! put_bit q False y +
      g ! (2 * of_bool ?b + of_bool True) * raw n fx' fz' st ! put_bit q True y)"
    unfolding r by (cases "fx' q") (simp_all add: algebra_simps)
  also have "\<dots> = scale f (dense_1q q g (raw n fx' fz' st)) ! y"
    using y l by (simp add: dense_1q_nth)
  finally show "raw n fx fz (dense_1q q g st) ! y = scale f (dense_1q q g (raw n fx' fz' st)) ! y" .
qed simp

definition moves2 :: "gate2q \<Rightarrow> bool \<Rightarrow> bool \<Rightarrow> bool \<Rightarrow> bool \<Rightarrow> bool \<Rightarrow> bool \<Rightarrow> bool \<Rightarrow> bool \<Rightarrow> complex \<Rightarrow> bool" where
  "moves2 g x0 z0 x1 z1 x0' z0' x1' z1' f \<longleftrightarrow> (\<forall>b0 b1 j0 j1.
     sign (z0 \<and> bxor b0 x0) * sign (z1 \<and> bxor b1 x1) *
       g ! (4 * (2 * of_bool (bxor b0 x0) + of_bool (bxor b1 x1)) + (2 * of_bool j0 + of_bool j1)) =
     f * g ! (4 * (2 * of_bool b0 + of_bool b1) + (2 * of_bool (bxor j0 x0') + of_bool (bxor j1 x1'))) *
       sign (z0' \<and> j0) * sign (z1' \<and> j1))"

lemma chi_put_split2:
  assumes "q < n" "r < n" "q \<noteq> r"
  shows "chi n fz (put_bit q c (put_bit r d x)) =
    chi n (fz(q := False, r := False)) x * sign (fz q \<and> c) * sign (fz r \<and> d)"
proof -
  have "chi n fz (put_bit q c (put_bit r d x)) = chi n (fz(q := False)) (put_bit r d x) * sign (fz q \<and> c)"
    by (rule chi_put_split [OF assms(1)])
  also have "chi n (fz(q := False)) (put_bit r d x) = chi n (fz(q := False, r := False)) x * sign (fz r \<and> d)"
    using chi_put_split [OF assms(2), of "fz(q := False)" d x] assms(3) by simp
  finally show ?thesis by (simp add: mult.commute mult.left_commute)
qed

lemma flip_put2:
  assumes "q < n" "r < n" "q \<noteq> r" "\<And>p. p < n \<Longrightarrow> p \<noteq> q \<Longrightarrow> p \<noteq> r \<Longrightarrow> fx' p = fx p"
  shows "flip_bits n fx' (put_bit q c (put_bit r d y)) =
    put_bit q (bxor c (fx' q)) (put_bit r (bxor d (fx' r)) (flip_bits n fx y))"
  using assms by (intro bit_eqI) (auto simp: bit_flip_bits bit_put_bit)

lemma dense_2q_nth:
  "x < length st \<Longrightarrow> dense_2q q r g st ! x =
     g ! (4 * row_2q q r x + (2 * of_bool False + of_bool False)) * st ! put_bit q False (put_bit r False x) +
     g ! (4 * row_2q q r x + (2 * of_bool False + of_bool True)) * st ! put_bit q False (put_bit r True x) +
     g ! (4 * row_2q q r x + (2 * of_bool True + of_bool False)) * st ! put_bit q True (put_bit r False x) +
     g ! (4 * row_2q q r x + (2 * of_bool True + of_bool True)) * st ! put_bit q True (put_bit r True x)"
  by (simp add: dense_2q_def)

lemma raw_dense_2q:
  assumes l: "length st = 2 ^ n" and q: "q < n" "r < n" "q \<noteq> r"
    and x: "\<And>p. p < n \<Longrightarrow> p \<noteq> q \<Longrightarrow> p \<noteq> r \<Longrightarrow> fx' p = fx p"
    and z: "\<And>p. p < n \<Longrightarrow> p \<noteq> q \<Longrightarrow> p \<noteq> r \<Longrightarrow> fz' p = fz p"
    and m: "moves2 g (fx q) (fz q) (fx r) (fz r) (fx' q) (fz' q) (fx' r) (fz' r) f"
  shows "raw n fx fz (dense_2q q r g st) = scale f (dense_2q q r g (raw n fx' fz' st))"
proof (rule nth_equalityI)
  fix y assume "y < length (raw n fx fz (dense_2q q r g st))"
  then have y: "y < 2 ^ n" using l by simp
  let ?w = "flip_bits n fx y" and ?b = "bit y q" and ?d = "bit y r"
  have w: "?w < 2 ^ n" using flip_bits_less [OF y] .
  let ?c = "chi n (fz(q := False, r := False)) ?w" and ?s = "\<lambda>c d. st ! put_bit q c (put_bit r d ?w)"
  let ?G = "\<lambda>a b c d. g ! (4 * (2 * of_bool a + of_bool b) + (2 * of_bool c + of_bool d))"
  have bw: "bit ?w q = bxor ?b (fx q)" "bit ?w r = bxor ?d (fx r)" using q by (simp_all add: bit_flip_bits)
  have zc: "chi n (fz'(q := False, r := False)) ?w = ?c" by (rule chi_cong) (use z in auto)
  have R: "raw n fx' fz' st ! put_bit q k (put_bit r m y) =
      ?c * sign (fz' q \<and> bxor k (fx' q)) * sign (fz' r \<and> bxor m (fx' r)) * ?s (bxor k (fx' q)) (bxor m (fx' r))" for k m
    using put_bit_less [OF put_bit_less [OF y q(2)] q(1)] l flip_put2 [OF q x, where c = k and d = m and y = y]
      chi_put_split2 [OF q, of fz'] zc by simp
  have same: "put_bit q (bit ?w q) (put_bit r (bit ?w r) ?w) = ?w" by (simp add: put_bit_same)
  have "raw n fx fz (dense_2q q r g st) ! y =
      ?c * sign (fz q \<and> bit ?w q) * sign (fz r \<and> bit ?w r) * dense_2q q r g st ! ?w"
    using y l chi_put_split2 [OF q, of fz "bit ?w q" "bit ?w r" ?w] unfolding same by simp
  also have "\<dots> = ?c * (sign (fz q \<and> bxor ?b (fx q)) * sign (fz r \<and> bxor ?d (fx r)) *
      (?G (bxor ?b (fx q)) (bxor ?d (fx r)) False False * ?s False False + ?G (bxor ?b (fx q)) (bxor ?d (fx r)) False True * ?s False True +
       ?G (bxor ?b (fx q)) (bxor ?d (fx r)) True False * ?s True False + ?G (bxor ?b (fx q)) (bxor ?d (fx r)) True True * ?s True True))"
    using w l unfolding bw [symmetric] by (simp only: dense_2q_nth row_2q_def mult.assoc)
  also have "\<dots> = ?c *
      (f * ?G ?b ?d (bxor False (fx' q)) (bxor False (fx' r)) * sign (fz' q \<and> False) * sign (fz' r \<and> False) * ?s False False +
       f * ?G ?b ?d (bxor False (fx' q)) (bxor True (fx' r)) * sign (fz' q \<and> False) * sign (fz' r \<and> True) * ?s False True +
       f * ?G ?b ?d (bxor True (fx' q)) (bxor False (fx' r)) * sign (fz' q \<and> True) * sign (fz' r \<and> False) * ?s True False +
       f * ?G ?b ?d (bxor True (fx' q)) (bxor True (fx' r)) * sign (fz' q \<and> True) * sign (fz' r \<and> True) * ?s True True)"
    using m unfolding moves2_def by (simp only: distrib_left mult.assoc [symmetric])
  also have "\<dots> = f * (?G ?b ?d False False * raw n fx' fz' st ! put_bit q False (put_bit r False y) +
      ?G ?b ?d False True * raw n fx' fz' st ! put_bit q False (put_bit r True y) +
      ?G ?b ?d True False * raw n fx' fz' st ! put_bit q True (put_bit r False y) +
      ?G ?b ?d True True * raw n fx' fz' st ! put_bit q True (put_bit r True y))"
    unfolding R by (cases "fx' q"; cases "fx' r") (simp_all only: simp_thms, simp_all add: algebra_simps)
  also have "\<dots> = scale f (dense_2q q r g (raw n fx' fz' st)) ! y"
    using y l by (simp only: nth_ops dense_2q_nth length_dense length_ops row_2q_def)
  finally show "raw n fx fz (dense_2q q r g st) ! y = scale f (dense_2q q r g (raw n fx' fz' st)) ! y" .
qed simp


section \<open>The tables\<close>

definition table1 :: "single_img \<Rightarrow> gate1q \<Rightarrow> bool" where
  "table1 img g \<longleftrightarrow> (\<forall>x z. case single_apply img x z of (x', z', f) \<Rightarrow> moves1 g x z x' z' f)"

definition table2 :: "two_img \<Rightarrow> gate2q \<Rightarrow> bool" where
  "table2 img g \<longleftrightarrow> (\<forall>x0 z0 x1 z1. let a = two_apply img x0 z0 x1 z1 in
     moves2 g x0 z0 x1 z1 (g2_xc a) (g2_zc a) (g2_xt a) (g2_zt a) (g2_f a))"

lemma tables1:
  "table1 CLIFF_H gate_h" "table1 CLIFF_X gate_x" "table1 CLIFF_Y gate_y" "table1 CLIFF_Z gate_z"
  "table1 CLIFF_S gate_s" "table1 CLIFF_SDG gate_sdg" "table1 CLIFF_SX gate_sx" "table1 CLIFF_SXDG gate_sxdg"
  by (simp_all add: table1_def moves1_def all_bool_eq numeral_3_eq_3 numeral_2_eq_2 Let_def
      CLIFF_H_def CLIFF_X_def CLIFF_Y_def CLIFF_Z_def CLIFF_S_def CLIFF_SDG_def CLIFF_SX_def CLIFF_SXDG_def
      gate_h_def gate_x_def gate_y_def gate_z_def gate_s_def gate_sdg_def gate_sx_def gate_sxdg_def complex_eq_iff)

lemmas gen2_rules = two_apply_def gen2_mul_def gen2_ident_def gen2_new_def

lemma tables2: "table2 CX_IMG gate_cx" "table2 CZ_IMG gate_cz" "table2 CY_IMG gate_cy" "table2 SWAP_IMG gate_swap"
  by (simp_all add: table2_def moves2_def all_bool_eq gen2_rules CX_IMG_def CZ_IMG_def CY_IMG_def SWAP_IMG_def
      gate_cx_def gate_cz_def gate_cy_def gate_swap_def Let_def)

section \<open>Setting the bits of a key\<close>

lemma canonical_key_iff:
  "canonical_key k \<longleftrightarrow> length (key_words k) = 2 * key_width k \<and>
     (\<forall>q. unat (key_n k) \<le> q \<and> q div 64 < key_width k \<longrightarrow> \<not> xbit k q \<and> \<not> zbit k q)"
  by (auto simp: canonical_key_def canonical_def xbit_def zbit_def x_words_def z_words_def key_width_def)

lemma key_set_x_done:
  assumes "canonical_key k" "q < unat (key_n k)"
  shows "\<exists>k'. key_set_x k q v = Some k' \<and> canonical_key k' \<and> key_n k' = key_n k \<and>
    (\<forall>p < unat (key_n k). xbit k' p = (if p = q then v else xbit k p) \<and> zbit k' p = zbit k p)"
proof -
  let ?w = "key_width k" and ?ws = "if v then wset (key_words k) q else wclear (key_words k) q"
  have len: "length (key_words k) = 2 * ?w" using assms(1) by (simp add: canonical_key_def)
  have q: "q div 64 < ?w" using assms(2) by (simp add: key_width_def div_ceil64_bound)
  let ?k = "k\<lparr>key_words := ?ws\<rparr>"
  have w: "key_width ?k = ?w" by (simp add: key_width_def)
  have tk: "take ?w ?ws = (if v then wset (take ?w (key_words k)) q else wclear (take ?w (key_words k)) q)"
    using q len by (simp add: wset_def wclear_def take_update_swap)
  have dr: "drop ?w ?ws = drop ?w (key_words k)"
    using q by (simp add: wset_def wclear_def drop_update_cancel)
  have x: "xbit ?k p = (if p = q then v else xbit k p)" for p
    using q len by (simp add: xbit_def x_words_def w tk wbit_wset wbit_wclear)
  have z: "zbit ?k p = zbit k p" for p by (simp add: zbit_def z_words_def w dr)
  have lw: "length ?ws = length (key_words k)" by (simp add: wset_def wclear_def)
  have "canonical_key ?k"
    using assms lw len unfolding canonical_key_iff w x z by auto
  then show ?thesis
    using q len x z by (intro exI [of _ ?k]) (simp add: key_set_x_def)
qed

lemma key_set_z_done:
  assumes "canonical_key k" "q < unat (key_n k)"
  shows "\<exists>k'. key_set_z k q v = Some k' \<and> canonical_key k' \<and> key_n k' = key_n k \<and>
    (\<forall>p < unat (key_n k). zbit k' p = (if p = q then v else zbit k p) \<and> xbit k' p = xbit k p)"
proof -
  let ?w = "key_width k" and ?i = "key_width k + q div 64" and ?b = "push_bit (q mod 64) 1 :: u64"
  let ?ws = "if v then (key_words k)[?i := key_words k ! ?i OR ?b] else (key_words k)[?i := key_words k ! ?i AND NOT ?b]"
  have len: "length (key_words k) = 2 * ?w" using assms(1) by (simp add: canonical_key_def)
  have q: "q div 64 < ?w" using assms(2) by (simp add: key_width_def div_ceil64_bound)
  let ?k = "k\<lparr>key_words := ?ws\<rparr>"
  have w: "key_width ?k = ?w" by (simp add: key_width_def)
  have dr: "drop ?w ?ws = (if v then wset (drop ?w (key_words k)) q else wclear (drop ?w (key_words k)) q)"
    using q len by (simp add: wset_def wclear_def drop_update_swap)
  have tk: "take ?w ?ws = take ?w (key_words k)"
    using q by (simp add: take_update_cancel)
  have z: "zbit ?k p = (if p = q then v else zbit k p)" for p
    using q len by (simp add: zbit_def z_words_def w dr wbit_wset wbit_wclear)
  have x: "xbit ?k p = xbit k p" for p by (simp add: xbit_def x_words_def w tk)
  have "canonical_key ?k"
    using assms len unfolding canonical_key_iff w x z by auto
  then show ?thesis
    using q len x z by (intro exI [of _ ?k]) (simp add: key_set_z_def Let_def)
qed

text \<open>Both bits of a qubit, and of two qubits.\<close>

lemma key_set_done:
  assumes "canonical_key k" "q < unat (key_n k)"
  shows "\<exists>k'. key_set k q x z = Done k' \<and> canonical_key k' \<and> key_n k' = key_n k \<and>
    (\<forall>p < unat (key_n k). xbit k' p = ((xbit k)(q := x)) p \<and> zbit k' p = ((zbit k)(q := z)) p)"
proof -
  obtain k1 where k1: "key_set_x k q x = Some k1" "canonical_key k1" "key_n k1 = key_n k"
    "\<forall>p < unat (key_n k). xbit k1 p = (if p = q then x else xbit k p) \<and> zbit k1 p = zbit k p"
    using key_set_x_done [OF assms] by blast
  moreover obtain k2 where "key_set_z k1 q z = Some k2" "canonical_key k2" "key_n k2 = key_n k1"
    "\<forall>p < unat (key_n k1). zbit k2 p = (if p = q then z else zbit k1 p) \<and> xbit k2 p = xbit k1 p"
    using key_set_z_done [of k1 q z] k1 assms(2) by auto
  ultimately show ?thesis by (intro exI [of _ k2]) (simp add: key_set_def or_panic_def)
qed

end
