(* ===== verification/TableauRows.thy ===== *)
theory TableauRows
  imports TableauRun PauliClifford
begin

text \<open>
  Rows of a tableau as operators on states, and the gates of the tableau as conjugations of these operators
  by the gate matrices of the state-vector backend.
\<close>

section \<open>Rows as operators\<close>

definition y_factor :: "nat \<Rightarrow> pauli_row \<Rightarrow> complex" where
  "y_factor n r = (\<Prod>q<n. if row_x r ! q \<and> row_z r ! q then \<i> else 1)"

definition row_op :: "nat \<Rightarrow> pauli_row \<Rightarrow> complex list \<Rightarrow> complex list" where
  "row_op n r st = scale (sign (row_sign r) * y_factor n r) (raw n ((!) (row_x r)) ((!) (row_z r)) st)"

lemma length_row_op [simp]: "length (row_op n r st) = length st"
  by (simp add: row_op_def)

lemma row_op_scale: "length st = 2 ^ n \<Longrightarrow> row_op n r (scale c st) = scale c (row_op n r st)"
  by (simp add: row_op_def raw_scale mult.commute)

lemma row_op_vplus: "length a = 2 ^ n \<Longrightarrow> length b = 2 ^ n \<Longrightarrow> row_op n r (vplus a b) = vplus (row_op n r a) (row_op n r b)"
  by (simp add: row_op_def raw_vplus scale_vplus)

lemma sign_parity: "sign (parity_of f n) = (\<Prod>q<n. sign (f q))"
  by (induction n) (simp_all only: parity_of.simps sign_bxor prod.lessThan_Suc lessThan_0 prod.empty sign_simps)

lemma site_factors:
  "(if x1 \<and> z1 then \<i> else 1) * (if x2 \<and> z2 then \<i> else 1) * sign (z1 \<and> x2) =
     \<i> ^ nat (pauli_mult_phase x1 z1 x2 z2) * (if bxor x1 x2 \<and> bxor z1 z2 then \<i> else 1)"
  by (cases x1; cases z1; cases x2; cases z2) (simp_all add: eval_nat_numeral)

lemma i_power_even:
  assumes "0 \<le> (k :: int)" "even k"
  shows "\<i> ^ nat k = sign (k mod 4 = 2)"
proof -
  obtain m where k: "k = 2 * m" using assms(2) by (elim evenE)
  have m: "0 \<le> m" using assms(1) k by simp
  have "\<i> ^ nat k = (- 1) ^ nat m" using m by (simp add: k nat_mult_distrib power_mult)
  moreover have "(k mod 4 = 2) = odd (nat m)" using m unfolding k by (simp add: even_nat_iff) presburger
  ultimately show ?thesis by (simp add: sign_def)
qed

lemma phase_nonneg: "0 \<le> pauli_mult_phase x1 z1 x2 z2"
  by (cases x1; cases z1; cases x2; cases z2) simp_all

lemma i_phase_sum: "(\<Prod>q<n. \<i> ^ nat (site_phase a b q)) = \<i> ^ nat (phase_sum n a b)"
proof -
  have "nat (phase_sum n a b) = (\<Sum>q<n. nat (site_phase a b q))"
    unfolding phase_sum_def by (induction n) (simp_all add: nat_add_distrib site_phase_def phase_nonneg sum_nonneg)
  then show ?thesis by (simp add: power_sum)
qed

text \<open>Two rows applied in turn are their product up to a power of \<open>i\<close>, and up to nothing when they commute.\<close>

lemma row_op_row_op:
  assumes "wf_row n a" "wf_row n b" "length st = 2 ^ n" "\<not> row_anticommutes a b"
  shows "row_op n a (row_op n b st) = row_op n (row_product n a b) st"
proof -
  let ?p = "row_product n a b" and ?P = "phase_sum n a b"
  have "y_factor n a * y_factor n b * cross n ((!) (row_z a)) ((!) (row_x b)) =
      (\<Prod>q<n. (if row_x a ! q \<and> row_z a ! q then \<i> else 1) * (if row_x b ! q \<and> row_z b ! q then \<i> else 1) *
         sign (row_z a ! q \<and> row_x b ! q))"
    unfolding y_factor_def cross_def sign_parity by (simp only: prod.distrib)
  also have "\<dots> = (\<Prod>q<n. \<i> ^ nat (site_phase a b q) * (if row_x ?p ! q \<and> row_z ?p ! q then \<i> else 1))"
    by (intro prod.cong refl) (simp only: site_factors site_phase_def row_product_x [OF assms(1,2)] row_product_z [OF assms(1,2)] lessThan_iff)
  also have "\<dots> = \<i> ^ nat ?P * y_factor n ?p" unfolding y_factor_def i_phase_sum [symmetric] by (simp only: prod.distrib)
  also have "\<i> ^ nat ?P = sign (?P mod 4 = 2)"
    using assms by (intro i_power_even) (auto simp: phase_sum_def site_phase_def phase_nonneg row_anticommutes_phase wf_row_def intro: sum_nonneg)
  finally have y: "y_factor n a * y_factor n b * cross n ((!) (row_z a)) ((!) (row_x b)) = sign (?P mod 4 = 2) * y_factor n ?p" .
  have r: "raw n (\<lambda>q. bxor (row_x a ! q) (row_x b ! q)) (\<lambda>q. bxor (row_z a ! q) (row_z b ! q)) st =
      raw n ((!) (row_x ?p)) ((!) (row_z ?p)) st"
    by (rule raw_cong) (simp_all add: row_simps assms)
  have "row_op n a (row_op n b st) =
      scale (sign (row_sign a) * sign (row_sign b) * (y_factor n a * y_factor n b * cross n ((!) (row_z a)) ((!) (row_x b))))
        (raw n ((!) (row_x ?p)) ((!) (row_z ?p)) st)"
    using assms(3) by (simp add: row_op_def raw_scale raw_raw r mult_ac del: not_iff)
  also have "\<dots> = row_op n ?p st"
    unfolding y row_op_def row_product_sign [OF assms(1,2)] sign_bxor by (simp add: mult.assoc)
  finally show ?thesis .
qed

lemma row_op_swap:
  assumes "wf_row n a" "wf_row n b" "length st = 2 ^ n"
  shows "row_op n a (row_op n b st) = scale (sign (row_anticommutes a b)) (row_op n b (row_op n a st))"
proof -
  let ?u = "cross n ((!) (row_z a)) ((!) (row_x b))" and ?v = "cross n ((!) (row_z b)) ((!) (row_x a))"
  have "row_anticommutes a b = parity_of (\<lambda>q. bxor (row_z a ! q \<and> row_x b ! q) (row_z b ! q \<and> row_x a ! q)) n"
    using assms(1) unfolding row_anticommutes_parity wf_row_def by (simp only:, intro parity_of_cong) auto
  then have s: "sign (row_anticommutes a b) = ?u * ?v"
    by (simp only: parity_of_bxor sign_bxor cross_def)
  have r: "raw n (\<lambda>q. bxor (row_x a ! q) (row_x b ! q)) (\<lambda>q. bxor (row_z a ! q) (row_z b ! q)) st =
      raw n (\<lambda>q. bxor (row_x b ! q) (row_x a ! q)) (\<lambda>q. bxor (row_z b ! q) (row_z a ! q)) st"
    by (rule raw_cong) auto
  show ?thesis
    using assms(3) unfolding s by (simp add: row_op_def raw_scale raw_raw r mult_ac del: not_iff)
qed

lemma row_op_bits_none:
  assumes "length st = 2 ^ n" "\<forall>q < n. \<not> row_x r ! q" "\<forall>q < n. \<not> row_z r ! q"
  shows "row_op n r st = scale (sign (row_sign r)) st"
  using assms raw_none [of st n "(!) (row_x r)" "(!) (row_z r)"] by (simp add: row_op_def y_factor_def)

lemma row_op_negate: "row_op n (r\<lparr>row_sign := bxor (row_sign r) b\<rparr>) st = scale (sign b) (row_op n r st)"
  by (simp add: row_op_def y_factor_def sign_bxor mult_ac del: not_iff)

text \<open>Rows are hermitian.\<close>

lemma y_factor_cnj: "cnj (y_factor n r) * cross n ((!) (row_z r)) ((!) (row_x r)) = y_factor n r"
  unfolding y_factor_def cross_def sign_parity cnj_prod prod.distrib [symmetric] by (intro prod.cong refl) auto

lemma braket_row_op:
  assumes "length a = 2 ^ n" "length b = 2 ^ n"
  shows "braket (row_op n r a) b = braket a (row_op n r b)"
proof -
  have "braket (row_op n r a) b = sign (row_sign r) * (cnj (y_factor n r) * cross n ((!) (row_z r)) ((!) (row_x r))) *
      braket a (raw n ((!) (row_x r)) ((!) (row_z r)) b)"
    using assms by (simp add: row_op_def braket_scale braket_raw mult.assoc)
  then show ?thesis using assms unfolding y_factor_cnj by (simp add: row_op_def braket_scale mult.assoc)
qed


section \<open>Gates as conjugations\<close>

definition y1 :: "bool \<Rightarrow> bool \<Rightarrow> complex" where
  "y1 x z = (if x \<and> z then \<i> else 1)"

lemma cmod_y1: "cnj (y1 x z) * y1 x z = 1"
  by (simp add: y1_def)

lemma y_factor_remove:
  assumes "q < n"
  shows "y_factor n r = y1 (row_x r ! q) (row_z r ! q) * (\<Prod>p \<in> {..<n} - {q}. y1 (row_x r ! p) (row_z r ! p))"
  using assms unfolding y_factor_def y1_def [symmetric] by (simp add: prod.remove [of "{..<n}" q])

lemma dense_scale:
  "dense_1q q g (scale c st) = scale c (dense_1q q g st)" "dense_2q q r g (scale c st) = scale c (dense_2q q r g st)"
  if "length st = 2 ^ n" "q < n" "r < n"
  by (rule nth_equalityI; use that put_bit_less in \<open>simp add: dense_1q_nth dense_2q_nth algebra_simps\<close>)+

definition conjugates :: "nat \<Rightarrow> (pauli_row \<Rightarrow> pauli_row) \<Rightarrow> (complex list \<Rightarrow> complex list) \<Rightarrow> bool" where
  "conjugates n act U \<longleftrightarrow> (\<forall>r st. wf_row n r \<longrightarrow> length st = 2 ^ n \<longrightarrow>
     wf_row n (act r) \<and> length (U st) = 2 ^ n \<and> row_op n (act r) (U st) = U (row_op n r st))"

lemma conjugates_comp: "conjugates n f U \<Longrightarrow> conjugates n g V \<Longrightarrow> conjugates n (\<lambda>r. g (f r)) (\<lambda>st. V (U st))"
  by (simp add: conjugates_def)

text \<open>A row update of one qubit, and of two, that agrees with conjugation by the matrix.\<close>

lemma conjugates_one:
  assumes "q < n" "\<And>r. wf_row n r \<Longrightarrow> wf_row n (act r)"
    and other: "\<And>r p. wf_row n r \<Longrightarrow> p < n \<Longrightarrow> p \<noteq> q \<Longrightarrow> row_x (act r) ! p = row_x r ! p \<and> row_z (act r) ! p = row_z r ! p"
    and m: "\<And>r. wf_row n r \<Longrightarrow> moves1 g (row_x (act r) ! q) (row_z (act r) ! q) (row_x r ! q) (row_z r ! q)
      (y1 (row_x r ! q) (row_z r ! q) * sign (bxor (row_sign r) (row_sign (act r))) * cnj (y1 (row_x (act r) ! q) (row_z (act r) ! q)))"
  shows "conjugates n act (dense_1q q g)"
  unfolding conjugates_def
proof (intro allI impI conjI)
  fix r and st :: "complex list" assume r: "wf_row n r" and l: "length st = 2 ^ n"
  show "wf_row n (act r)" using assms(2) [OF r] .
  show "length (dense_1q q g st) = 2 ^ n" using l by simp
  let ?f = "y1 (row_x r ! q) (row_z r ! q) * sign (bxor (row_sign r) (row_sign (act r))) * cnj (y1 (row_x (act r) ! q) (row_z (act r) ! q))"
  have "(\<Prod>p \<in> {..<n} - {q}. y1 (row_x (act r) ! p) (row_z (act r) ! p)) = (\<Prod>p \<in> {..<n} - {q}. y1 (row_x r ! p) (row_z r ! p))"
    using other [OF r] by (intro prod.cong) auto
  then have "sign (row_sign (act r)) * y_factor n (act r) * ?f = sign (row_sign r) * y_factor n r"
    unfolding y_factor_remove [OF assms(1)] sign_bxor
    using cmod_y1 [of "row_x (act r) ! q" "row_z (act r) ! q"] by (simp add: mult_ac)
  moreover have "raw n ((!) (row_x (act r))) ((!) (row_z (act r))) (dense_1q q g st) =
      scale ?f (dense_1q q g (raw n ((!) (row_x r)) ((!) (row_z r)) st))"
    by (rule raw_dense_1q [OF l assms(1)]) (use other [OF r] m [OF r] in auto)
  ultimately show "row_op n (act r) (dense_1q q g st) = dense_1q q g (row_op n r st)"
    using l dense_scale(1) [of "raw n ((!) (row_x r)) ((!) (row_z r)) st" n q q] assms(1) by (simp add: row_op_def del: not_iff)
qed

lemma y_factor_remove2:
  assumes "c < n" "t < n" "c \<noteq> t"
  shows "y_factor n r = y1 (row_x r ! c) (row_z r ! c) * y1 (row_x r ! t) (row_z r ! t) *
    (\<Prod>p \<in> {..<n} - {c} - {t}. y1 (row_x r ! p) (row_z r ! p))"
  using assms unfolding y_factor_remove [OF assms(1)] by (simp add: prod.remove [of "{..<n} - {c}" t] mult.assoc)

lemma cancel_phases:
  fixes u :: complex
  assumes "u' * u = 1" "v' * v = 1" "s * s = 1"
  shows "s * (u * v * p) * (a * b * (r * s) * u' * v') = r * (a * b * p)"
proof -
  have "s * (u * v * p) * (a * b * (r * s) * u' * v') = (s * s) * (u' * u) * (v' * v) * (r * (a * b * p))"
    by (simp only: mult_ac)
  then show ?thesis using assms by simp
qed

lemma conjugates_two:
  assumes "c < n" "t < n" "c \<noteq> t" "\<And>r. wf_row n r \<Longrightarrow> wf_row n (act r)"
    and other: "\<And>r p. wf_row n r \<Longrightarrow> p < n \<Longrightarrow> p \<noteq> c \<Longrightarrow> p \<noteq> t \<Longrightarrow> row_x (act r) ! p = row_x r ! p \<and> row_z (act r) ! p = row_z r ! p"
    and m: "\<And>r. wf_row n r \<Longrightarrow> moves2 g (row_x (act r) ! c) (row_z (act r) ! c) (row_x (act r) ! t) (row_z (act r) ! t)
      (row_x r ! c) (row_z r ! c) (row_x r ! t) (row_z r ! t)
      (y1 (row_x r ! c) (row_z r ! c) * y1 (row_x r ! t) (row_z r ! t) * sign (bxor (row_sign r) (row_sign (act r))) *
       cnj (y1 (row_x (act r) ! c) (row_z (act r) ! c)) * cnj (y1 (row_x (act r) ! t) (row_z (act r) ! t)))"
  shows "conjugates n act (dense_2q c t g)"
  unfolding conjugates_def
proof (intro allI impI conjI)
  fix r and st :: "complex list" assume r: "wf_row n r" and l: "length st = 2 ^ n"
  show "wf_row n (act r)" using assms(4) [OF r] .
  show "length (dense_2q c t g st) = 2 ^ n" using l by simp
  let ?f = "y1 (row_x r ! c) (row_z r ! c) * y1 (row_x r ! t) (row_z r ! t) * sign (bxor (row_sign r) (row_sign (act r))) *
       cnj (y1 (row_x (act r) ! c) (row_z (act r) ! c)) * cnj (y1 (row_x (act r) ! t) (row_z (act r) ! t))"
  have "(\<Prod>p \<in> {..<n} - {c} - {t}. y1 (row_x (act r) ! p) (row_z (act r) ! p)) =
      (\<Prod>p \<in> {..<n} - {c} - {t}. y1 (row_x r ! p) (row_z r ! p))"
    using other [OF r] by (intro prod.cong) auto
  then have "sign (row_sign (act r)) * y_factor n (act r) * ?f = sign (row_sign r) * y_factor n r"
    unfolding y_factor_remove2 [OF assms(1-3)] sign_bxor
    by (simp only: cancel_phases [OF cmod_y1 cmod_y1 sign_simps(3)])
  moreover have "raw n ((!) (row_x (act r))) ((!) (row_z (act r))) (dense_2q c t g st) =
      scale ?f (dense_2q c t g (raw n ((!) (row_x r)) ((!) (row_z r)) st))"
    by (rule raw_dense_2q [OF l assms(1-3)]) (use other [OF r] m [OF r] in auto)
  ultimately show "row_op n (act r) (dense_2q c t g st) = dense_2q c t g (row_op n r st)"
    using l dense_scale(2) [of "raw n ((!) (row_x r)) ((!) (row_z r)) st" n c t] assms(1,2) by (simp add: row_op_def del: not_iff)
qed

lemmas row_gates = row_h_def row_s_def row_sdg_def row_sx_def row_sxdg_def row_pauli_x_def row_pauli_y_def row_pauli_z_def

lemma moves_gates:
  "moves1 gate_h z x x z (y1 x z * sign (x \<and> z) * cnj (y1 z x))"
  "moves1 gate_x x z x z (y1 x z * sign z * cnj (y1 x z))"
  "moves1 gate_y x z x z (y1 x z * sign (bxor x z) * cnj (y1 x z))"
  "moves1 gate_z x z x z (y1 x z * sign x * cnj (y1 x z))"
  "moves1 gate_s x (bxor z x) x z (y1 x z * sign (x \<and> z) * cnj (y1 x (bxor z x)))"
  "moves1 gate_sdg x (bxor z x) x z (y1 x z * sign (x \<and> \<not> z) * cnj (y1 x (bxor z x)))"
  "moves1 gate_sx (bxor x z) z x z (y1 x z * sign (z \<and> \<not> x) * cnj (y1 (bxor x z) z))"
  "moves1 gate_sxdg (bxor x z) z x z (y1 x z * sign (z \<and> x) * cnj (y1 (bxor x z) z))"
  by (induct x; induct z; simp add: moves1_def y1_def all_bool_eq numeral_3_eq_3 numeral_2_eq_2
      gate_h_def gate_x_def gate_y_def gate_z_def gate_s_def gate_sdg_def gate_sx_def gate_sxdg_def complex_eq_iff Let_def)+

lemma conjugates_gates:
  assumes "q < n"
  shows "conjugates n (row_h q) (dense_1q q gate_h)" "conjugates n (row_pauli_x q) (dense_1q q gate_x)"
    "conjugates n (row_pauli_y q) (dense_1q q gate_y)" "conjugates n (row_pauli_z q) (dense_1q q gate_z)"
    "conjugates n (row_s q) (dense_1q q gate_s)" "conjugates n (row_sdg q) (dense_1q q gate_sdg)"
    "conjugates n (row_sx q) (dense_1q q gate_sx)" "conjugates n (row_sxdg q) (dense_1q q gate_sxdg)"
proof -
  have s: "bxor a (bxor a b) = b" for a b by auto
  show "conjugates n (row_h q) (dense_1q q gate_h)" "conjugates n (row_pauli_x q) (dense_1q q gate_x)"
    "conjugates n (row_pauli_y q) (dense_1q q gate_y)" "conjugates n (row_pauli_z q) (dense_1q q gate_z)"
    "conjugates n (row_s q) (dense_1q q gate_s)" "conjugates n (row_sdg q) (dense_1q q gate_sdg)"
    "conjugates n (row_sx q) (dense_1q q gate_sx)" "conjugates n (row_sxdg q) (dense_1q q gate_sxdg)"
    by (rule conjugates_one [OF assms]; use assms in \<open>simp add: row_gates wf_row_def s moves_gates del: not_iff\<close>)+
qed

lemma moves_cx:
  assumes "x0 = (xc)" "z0 = (bxor zc zt)" "x1 = (bxor xt xc)" "z1 = (zt)" "s = (xc \<and> zt \<and> bxor (bxor xt zc) True)"
  shows "moves2 gate_cx x0 z0 x1 z1 xc zc xt zt (y1 xc zc * y1 xt zt * sign s * cnj (y1 x0 z0) * cnj (y1 x1 z1))"
  unfolding assms by (induct xc; induct zc; induct xt; induct zt; simp add: moves2_def y1_def all_bool_eq gate_cx_def)

lemma moves_cz:
  assumes "x0 = (xc)" "z0 = (bxor zc xt)" "x1 = (xt)" "z1 = (bxor zt xc)" "s = (xc \<and> xt \<and> bxor zc zt)"
  shows "moves2 gate_cz x0 z0 x1 z1 xc zc xt zt (y1 xc zc * y1 xt zt * sign s * cnj (y1 x0 z0) * cnj (y1 x1 z1))"
  unfolding assms by (induct xc; induct zc; induct xt; induct zt; simp add: moves2_def y1_def all_bool_eq gate_cz_def)

lemma moves_cy:
  assumes "x0 = (xc)" "z0 = (bxor (zc) (bxor zt xt))" "x1 = (bxor xt xc)" "z1 = (bxor zt xc)" "s = (bxor (bxor (xt \<and> \<not> zt) (xc \<and> bxor zt xt \<and> bxor (bxor xt zc) True)) (bxor xt xc \<and> bxor zt xt))"
  shows "moves2 gate_cy x0 z0 x1 z1 xc zc xt zt (y1 xc zc * y1 xt zt * sign s * cnj (y1 x0 z0) * cnj (y1 x1 z1))"
  unfolding assms by (induct xc; induct zc; induct xt; induct zt; simp add: moves2_def y1_def all_bool_eq gate_cy_def)

lemma moves_swap:
  assumes "x0 = (xt)" "z0 = (zt)" "x1 = (xc)" "z1 = (zc)" "s = (False)"
  shows "moves2 gate_swap x0 z0 x1 z1 xc zc xt zt (y1 xc zc * y1 xt zt * sign s * cnj (y1 x0 z0) * cnj (y1 x1 z1))"
  unfolding assms by (induct xc; induct zc; induct xt; induct zt; simp add: moves2_def y1_def all_bool_eq gate_swap_def)

lemma row_cx_simps:
  "row_n (row_cx c t r) = row_n r"
  "row_sign (row_cx c t r) = bxor (row_sign r) (row_x r ! c \<and> row_z r ! t \<and> bxor (bxor (row_x r ! t) (row_z r ! c)) True)"
  "row_x (row_cx c t r) = (row_x r)[t := bxor (row_x r ! t) (row_x r ! c)]"
  "row_z (row_cx c t r) = (row_z r)[c := bxor (row_z r ! c) (row_z r ! t)]"
  by (simp_all add: row_cx_def Let_def)

lemma conjugates_two_gates:
  assumes "c < n" "t < n" "c \<noteq> t"
  shows "conjugates n (row_cx c t) (dense_2q c t gate_cx)"
    "conjugates n (\<lambda>r. row_h t (row_cx c t (row_h t r))) (dense_2q c t gate_cz)"
    "conjugates n (\<lambda>r. row_s t (row_cx c t (row_sdg t r))) (dense_2q c t gate_cy)"
    "conjugates n (\<lambda>r. row_cx c t (row_cx t c (row_cx c t r))) (dense_2q c t gate_swap)"
proof -
  note rules = row_cx_simps row_h_def row_s_def row_sdg_def wf_row_def
  show "conjugates n (row_cx c t) (dense_2q c t gate_cx)"
    by (rule conjugates_two [OF assms]; (rule moves_cx)?; use assms in \<open>auto simp: rules\<close>)
  show "conjugates n (\<lambda>r. row_h t (row_cx c t (row_h t r))) (dense_2q c t gate_cz)"
    by (rule conjugates_two [OF assms]; (rule moves_cz)?; use assms in \<open>auto simp: rules\<close>)
  show "conjugates n (\<lambda>r. row_s t (row_cx c t (row_sdg t r))) (dense_2q c t gate_cy)"
    by (rule conjugates_two [OF assms]; (rule moves_cy)?; use assms in \<open>auto simp: rules\<close>)
  show "conjugates n (\<lambda>r. row_cx c t (row_cx t c (row_cx c t r))) (dense_2q c t gate_swap)"
    by (rule conjugates_two [OF assms]; (rule moves_swap)?; use assms in \<open>auto simp: rules\<close>)
qed

end
