(* ===== verification/TableauState.thy ===== *)
theory TableauState
  imports TableauRows SvRun
begin

text \<open>
  A tableau represents a state that its stabilizers fix.  The all-zero tableau represents the all-zero state
  and the gates of the backend keep the representation, with the state-vector backend's gates on the other
  side.
\<close>

section \<open>The representation\<close>

definition represents :: "nat \<Rightarrow> tableau \<Rightarrow> complex list \<Rightarrow> bool" where
  "represents n t st \<longleftrightarrow> tab_inv t \<and> tab_n t = n \<and> length st = 2 ^ n \<and> norm_sq st = 1 \<and>
     (\<forall>k < n. row_op n (tab_rows t ! (n + k)) st = st)"

lemma represents_row:
  assumes "represents n t st" "k < n"
  shows "wf_row n (tab_rows t ! (n + k))" "wf_row n (tab_rows t ! k)" "row_op n (tab_rows t ! (n + k)) st = st"
  using assms tab_inv_wf [of t "n + k"] tab_inv_wf [of t k] by (auto simp: represents_def)

lemma represents_map:
  assumes "represents n t st" "conjugates n act U" "tab_inv (t\<lparr>tab_rows := map act (tab_rows t)\<rparr>)" "norm_sq (U st) = 1"
  shows "represents n (t\<lparr>tab_rows := map act (tab_rows t)\<rparr>) (U st)"
proof -
  have l: "length (tab_rows t) = 2 * n" "length st = 2 ^ n" "tab_n t = n" using assms(1) by (auto simp: represents_def tab_inv_def)
  have "row_op n (act (tab_rows t ! (n + k))) (U st) = U st" if "k < n" for k
    using represents_row [OF assms(1) that] assms(2) l unfolding conjugates_def by auto
  moreover have "length (U st) = 2 ^ n" using assms(2) wf_row_identity [of n] l unfolding conjugates_def by blast
  ultimately show ?thesis using assms l by (simp add: represents_def)
qed

section \<open>The all-zero state\<close>

lemma zero_state_represents: "represents n (zero_state n) (sv_zero_state n)"
proof -
  let ?z = "sv_zero_state n"
  have "row_op n (tab_rows (zero_state n) ! (n + k)) ?z = ?z" if k: "k < n" for k
  proof -
    let ?r = "tab_rows (zero_state n) ! (n + k)"
    have r: "\<not> row_sign ?r" "row_x ?r = replicate n False" using k by (simp_all add: zero_state_def nth_append row_identity_def)
    have x: "\<not> row_x ?r ! q" if "q < n" for q using that by (simp add: r)
    have f: "flip_bits n ((!) (row_x ?r)) y = y" for y by (rule flip_bits_none) (rule x)
    have "y_factor n ?r = 1" using x by (simp add: y_factor_def)
    then have "row_op n ?r ?z = raw n ((!) (row_x ?r)) ((!) (row_z ?r)) ?z" by (simp add: row_op_def r)
    also have "\<dots> = ?z"
    proof (rule nth_equalityI)
      fix y assume "y < length (raw n ((!) (row_x ?r)) ((!) (row_z ?r)) ?z)"
      then have y: "y < 2 ^ n" using sv_zero_state_ok(1) [of n] by simp
      then show "raw n ((!) (row_x ?r)) ((!) (row_z ?r)) ?z ! y = ?z ! y"
        using sv_zero_state_ok(1) [of n] by (simp add: f zero_state_nth chi_def parity_of_False)
    qed simp
    finally show ?thesis .
  qed
  then show ?thesis using zero_state_inv [of n] sv_zero_state_ok [of n] by (simp add: represents_def zero_state_def)
qed

section \<open>Gates\<close>

text \<open>The row update of each gate of the backend on its first two qubits.\<close>

fun row_act :: "gate_kind \<Rightarrow> nat \<Rightarrow> nat \<Rightarrow> pauli_row \<Rightarrow> pauli_row" where
  "row_act H c t = row_h c" | "row_act X c t = row_pauli_x c" | "row_act Y c t = row_pauli_y c"
| "row_act Z c t = row_pauli_z c" | "row_act S c t = row_s c" | "row_act Sdg c t = row_sdg c"
| "row_act Sx c t = row_sx c" | "row_act Sxdg c t = row_sxdg c" | "row_act CX c t = row_cx c t"
| "row_act CZ c t = (\<lambda>r. row_h t (row_cx c t (row_h t r)))"
| "row_act CY c t = (\<lambda>r. row_s t (row_cx c t (row_sdg t r)))"
| "row_act Swap c t = (\<lambda>r. row_cx c t (row_cx t c (row_cx c t r)))"
| "row_act _ c t = (\<lambda>r. r)"

definition clifford :: "gate_kind \<Rightarrow> bool" where
  "clifford g \<longleftrightarrow> g \<in> {H, X, Y, Z, S, Sdg, Sx, Sxdg, Id, CX, CZ, CY, Swap}"

lemma each_row_map:
  assumes "tab_inv t" "\<forall>q \<in> set qs. q < tab_n t"
  shows "each_row qs f t = Some (t\<lparr>tab_rows := map f (tab_rows t)\<rparr>)"
  using assms by (auto simp: each_row_def tab_inv_def has_qubit_def wf_row_def list_all_iff)

lemma tab_gates:
  assumes "tab_inv t" "q < tab_n t"
  shows "tab_h q t = Some (t\<lparr>tab_rows := map (row_h q) (tab_rows t)\<rparr>)" "tab_inv (t\<lparr>tab_rows := map (row_h q) (tab_rows t)\<rparr>)"
    "tab_x q t = Some (t\<lparr>tab_rows := map (row_pauli_x q) (tab_rows t)\<rparr>)" "tab_inv (t\<lparr>tab_rows := map (row_pauli_x q) (tab_rows t)\<rparr>)"
    "tab_y q t = Some (t\<lparr>tab_rows := map (row_pauli_y q) (tab_rows t)\<rparr>)" "tab_inv (t\<lparr>tab_rows := map (row_pauli_y q) (tab_rows t)\<rparr>)"
    "tab_z q t = Some (t\<lparr>tab_rows := map (row_pauli_z q) (tab_rows t)\<rparr>)" "tab_inv (t\<lparr>tab_rows := map (row_pauli_z q) (tab_rows t)\<rparr>)"
    "tab_s q t = Some (t\<lparr>tab_rows := map (row_s q) (tab_rows t)\<rparr>)" "tab_inv (t\<lparr>tab_rows := map (row_s q) (tab_rows t)\<rparr>)"
    "tab_sdg q t = Some (t\<lparr>tab_rows := map (row_sdg q) (tab_rows t)\<rparr>)" "tab_inv (t\<lparr>tab_rows := map (row_sdg q) (tab_rows t)\<rparr>)"
    "tab_sx q t = Some (t\<lparr>tab_rows := map (row_sx q) (tab_rows t)\<rparr>)" "tab_inv (t\<lparr>tab_rows := map (row_sx q) (tab_rows t)\<rparr>)"
    "tab_sxdg q t = Some (t\<lparr>tab_rows := map (row_sxdg q) (tab_rows t)\<rparr>)" "tab_inv (t\<lparr>tab_rows := map (row_sxdg q) (tab_rows t)\<rparr>)"
proof -
  note e = each_row_map [OF assms(1), of "[q]", simplified, OF assms(2)]
  note i = h.each_row_inv [OF e assms(1) refl assms(2)] px.each_row_inv [OF e assms(1) refl assms(2)]
    py.each_row_inv [OF e assms(1) refl assms(2)] pz.each_row_inv [OF e assms(1) refl assms(2)]
    s.each_row_inv [OF e assms(1) refl assms(2)] sdg.each_row_inv [OF e assms(1) refl assms(2)]
    sx.each_row_inv [OF e assms(1) refl assms(2)] sxdg.each_row_inv [OF e assms(1) refl assms(2)]
  show "tab_h q t = Some (t\<lparr>tab_rows := map (row_h q) (tab_rows t)\<rparr>)" "tab_inv (t\<lparr>tab_rows := map (row_h q) (tab_rows t)\<rparr>)"
    "tab_x q t = Some (t\<lparr>tab_rows := map (row_pauli_x q) (tab_rows t)\<rparr>)" "tab_inv (t\<lparr>tab_rows := map (row_pauli_x q) (tab_rows t)\<rparr>)"
    "tab_y q t = Some (t\<lparr>tab_rows := map (row_pauli_y q) (tab_rows t)\<rparr>)" "tab_inv (t\<lparr>tab_rows := map (row_pauli_y q) (tab_rows t)\<rparr>)"
    "tab_z q t = Some (t\<lparr>tab_rows := map (row_pauli_z q) (tab_rows t)\<rparr>)" "tab_inv (t\<lparr>tab_rows := map (row_pauli_z q) (tab_rows t)\<rparr>)"
    "tab_s q t = Some (t\<lparr>tab_rows := map (row_s q) (tab_rows t)\<rparr>)" "tab_inv (t\<lparr>tab_rows := map (row_s q) (tab_rows t)\<rparr>)"
    "tab_sdg q t = Some (t\<lparr>tab_rows := map (row_sdg q) (tab_rows t)\<rparr>)" "tab_inv (t\<lparr>tab_rows := map (row_sdg q) (tab_rows t)\<rparr>)"
    "tab_sx q t = Some (t\<lparr>tab_rows := map (row_sx q) (tab_rows t)\<rparr>)" "tab_inv (t\<lparr>tab_rows := map (row_sx q) (tab_rows t)\<rparr>)"
    "tab_sxdg q t = Some (t\<lparr>tab_rows := map (row_sxdg q) (tab_rows t)\<rparr>)" "tab_inv (t\<lparr>tab_rows := map (row_sxdg q) (tab_rows t)\<rparr>)"
    using i e by (simp_all add: tab_h_def tab_x_def tab_y_def tab_z_def tab_s_def tab_sdg_def tab_sx_def tab_sxdg_def)
qed

lemma tab_cx_map:
  assumes "tab_inv t" "c < tab_n t" "b < tab_n t" "c \<noteq> b"
  shows "tab_cx c b t = Some (t\<lparr>tab_rows := map (row_cx c b) (tab_rows t)\<rparr>)" "tab_inv (t\<lparr>tab_rows := map (row_cx c b) (tab_rows t)\<rparr>)"
proof -
  have e: "each_row [c, b] f t = Some (t\<lparr>tab_rows := map f (tab_rows t)\<rparr>)" for f
    using each_row_map [OF assms(1), of "[c, b]"] assms by simp
  show "tab_cx c b t = Some (t\<lparr>tab_rows := map (row_cx c b) (tab_rows t)\<rparr>)" by (simp add: tab_cx_def e)
  show "tab_inv (t\<lparr>tab_rows := map (row_cx c b) (tab_rows t)\<rparr>)" using cx.each_row_inv [OF e assms(1) refl] assms by simp
qed

lemma tab_two:
  assumes "tab_inv t" "c < tab_n t" "b < tab_n t" "c \<noteq> b"
  shows "tab_cz c b t = Some (t\<lparr>tab_rows := map (row_act CZ c b) (tab_rows t)\<rparr>) \<and> tab_inv (t\<lparr>tab_rows := map (row_act CZ c b) (tab_rows t)\<rparr>)"
    "tab_cy c b t = Some (t\<lparr>tab_rows := map (row_act CY c b) (tab_rows t)\<rparr>) \<and> tab_inv (t\<lparr>tab_rows := map (row_act CY c b) (tab_rows t)\<rparr>)"
    "tab_swap c b t = Some (t\<lparr>tab_rows := map (row_act Swap c b) (tab_rows t)\<rparr>) \<and> tab_inv (t\<lparr>tab_rows := map (row_act Swap c b) (tab_rows t)\<rparr>)"
proof -
  note one = tab_gates and cx = tab_cx_map
  note m = comp_def
  let ?t = "\<lambda>f. t\<lparr>tab_rows := map f (tab_rows t)\<rparr>"
  have h: "tab_inv (?t (row_h b))" "tab_inv (?t (row_sdg b))" "tab_inv (?t (row_cx c b))"
    using one(2,12) [OF assms(1,3)] cx(2) [OF assms] by simp_all
  have h2: "tab_inv (?t (\<lambda>r. row_cx c b (row_h b r)))" "tab_inv (?t (\<lambda>r. row_cx c b (row_sdg b r)))" "tab_inv (?t (\<lambda>r. row_cx b c (row_cx c b r)))"
    using cx(2) [OF h(1), of c b] cx(2) [OF h(2), of c b] cx(2) [OF h(3), of b c] assms by (simp_all add: m)
  show "tab_cz c b t = Some (?t (row_act CZ c b)) \<and> tab_inv (?t (row_act CZ c b))"
    using one(1) [OF assms(1,3)] cx(1) [OF h(1), of c b] one(1,2) [OF h2(1), of b] assms
    by (simp add: tab_cz_def m)
  show "tab_cy c b t = Some (?t (row_act CY c b)) \<and> tab_inv (?t (row_act CY c b))"
    using one(11) [OF assms(1,3)] cx(1) [OF h(2), of c b] one(9,10) [OF h2(2), of b] assms
    by (simp add: tab_cy_def m)
  show "tab_swap c b t = Some (?t (row_act Swap c b)) \<and> tab_inv (?t (row_act Swap c b))"
    using cx(1) [OF assms] cx(1) [OF h(3), of b c] cx(1,2) [OF h2(3), of c b] assms
    by (simp add: tab_swap_def m)
qed

lemma apply_gate_rows:
  assumes "tab_inv t" "valid_op (tab_n t) op" "clifford (op_gate op)"
  shows "\<exists>t'. apply_gate_tab t op r analytic = Done (t', r) \<and> tab_inv t' \<and>
    t' = t\<lparr>tab_rows := map (row_act (op_gate op) (unat (op_qubits op ! 0)) (unat (op_qubits op ! 1))) (tab_rows t)\<rparr>"
proof -
  note q = valid_op_nth [OF assms(2)]
  show ?thesis
  proof (cases "num_qubits (op_gate op) = 2")
    case True
    then have q2: "qubit_of op 0 = Done (unat (op_qubits op ! 0))" "qubit_of op 1 = Done (unat (op_qubits op ! 1))"
      "unat (op_qubits op ! 0) < tab_n t" "unat (op_qubits op ! 1) < tab_n t" "unat (op_qubits op ! 0) \<noteq> unat (op_qubits op ! 1)"
      using q(1,2) [of 0] q(1,2) [of 1] q(3) [of 0 1] by simp_all
    have "op_gate op \<in> {CX, CZ, CY, Swap}" using True assms(3) by (auto simp: clifford_def)
    then show ?thesis
      using q2 tab_cx_map [OF assms(1) q2(3-5)] tab_two [OF assms(1) q2(3-5)]
      by (elim insertE emptyE) (simp_all add: apply_gate_tab_def tab_2q_def or_panic_def)
  next
    case False
    then have q1: "qubit_of op 0 = Done (unat (op_qubits op ! 0))" "unat (op_qubits op ! 0) < tab_n t"
      using q(1,2) [of 0] assms(3) by (auto simp: clifford_def)
    have "op_gate op \<in> {H, X, Y, Z, S, Sdg, Sx, Sxdg, Id}" using False assms(3) by (auto simp: clifford_def)
    then show ?thesis
      using q1(1) tab_gates [OF assms(1) q1(2)] assms(1)
      by (elim insertE emptyE) (simp_all add: apply_gate_tab_def tab_1q_def or_panic_def)
  qed
qed

lemma conjugates_row_act:
  assumes "valid_op n op" "clifford (op_gate op)"
  shows "conjugates n (row_act (op_gate op) (unat (op_qubits op ! 0)) (unat (op_qubits op ! 1)))
    (gate_action (op_gate op) ps (map unat (op_qubits op)))"
proof -
  note q = valid_op_nth [OF assms(1)] and nth = op_qubits_nth [OF assms(1)]
  show ?thesis
  proof (cases "num_qubits (op_gate op) = 2")
    case True
    then have "unat (op_qubits op ! 0) < n" "unat (op_qubits op ! 1) < n" "unat (op_qubits op ! 0) \<noteq> unat (op_qubits op ! 1)"
      using q(2) [of 0] q(2) [of 1] q(3) [of 0 1] by simp_all
    moreover have "op_gate op \<in> {CX, CZ, CY, Swap}" using True assms(2) by (auto simp: clifford_def)
    ultimately show ?thesis
      using conjugates_two_gates nth [of 0] nth [of 1] by (elim insertE emptyE) (simp_all add: gate_action_def [abs_def])
  next
    case False
    then have "unat (op_qubits op ! 0) < n" using q(2) [of 0] assms(2) by (auto simp: clifford_def)
    moreover have "op_gate op \<in> {H, X, Y, Z, S, Sdg, Sx, Sxdg, Id}" using False assms(2) by (auto simp: clifford_def)
    moreover have "conjugates n (\<lambda>r. r) (\<lambda>st. st)" by (simp add: conjugates_def)
    ultimately show ?thesis
      using conjugates_gates nth [of 0] by (elim insertE emptyE) (simp_all add: gate_action_def [abs_def])
  qed
qed

lemma clifford_unitary: "clifford g \<Longrightarrow> unitary_gate g"
  by (auto simp: clifford_def)

lemma apply_gate_clifford:
  assumes "represents n t st" "valid_op n op" "clifford (op_gate op)"
  shows "\<exists>t'. apply_gate_tab t op r analytic = Done (t', r) \<and>
    represents n t' (gate_action (op_gate op) ps (map unat (op_qubits op)) st)"
proof -
  have t: "tab_inv t" "tab_n t = n" "length st = 2 ^ n" "norm_sq st = 1" using assms(1) by (simp_all add: represents_def)
  show ?thesis
    using apply_gate_rows [OF t(1), of op r analytic] t(2) assms(2,3)
      represents_map [OF assms(1) conjugates_row_act [OF assms(2,3), of ps]]
      norm_gate_action [OF t(3) assms(2) clifford_unitary [OF assms(3)], of ps] t(4)
    by auto
qed

end
