(* ===== verification/TableauValue.thy ===== *)
theory TableauValue
  imports TableauState
begin

text \<open>
  The value of a Pauli string in the state a tableau represents: the rows of a tableau span all strings, the
  stabilizers span the strings that commute with them, and the elimination of \<^verbatim>\<open>stabilizer_expectation\<close>
  finds the product of stabilizers that is the string up to sign.
\<close>

section \<open>Columns of rows\<close>

lemma row_bit_product:
  "wf_row n a \<Longrightarrow> wf_row n b \<Longrightarrow> c < 2 * n \<Longrightarrow> row_bit n (row_product n a b) c = bxor (row_bit n a c) (row_bit n b c)"
  by (simp add: row_bit_def row_product_x row_product_z del: not_iff)

definition symp :: "nat \<Rightarrow> (nat \<Rightarrow> bool) \<Rightarrow> (nat \<Rightarrow> bool) \<Rightarrow> bool" where
  "symp n u v = parity_of (\<lambda>q. bxor (u q \<and> v (n + q)) (u (n + q) \<and> v q)) n"

lemma row_anticommutes_symp: "wf_row n a \<Longrightarrow> row_anticommutes a b = symp n (row_bit n a) (row_bit n b)"
  unfolding row_anticommutes_parity symp_def wf_row_def by (auto simp: row_bit_def intro!: parity_of_cong)

lemma symp_cong: "(\<And>c. c < 2 * n \<Longrightarrow> u c = u' c) \<Longrightarrow> symp n u v = symp n u' v"
  unfolding symp_def by (rule parity_of_cong) simp

lemma symp_bxor: "symp n (\<lambda>c. bxor (u c) (w c)) v = bxor (symp n u v) (symp n w v)"
  unfolding symp_def parity_of_bxor [symmetric] by (rule parity_of_cong) auto

text \<open>The sum of the vectors that a predicate selects.\<close>

definition comb :: "nat \<Rightarrow> (nat \<Rightarrow> nat \<Rightarrow> bool) \<Rightarrow> (nat \<Rightarrow> bool) \<Rightarrow> nat \<Rightarrow> bool" where
  "comb m V A c = parity_of (\<lambda>i. A i \<and> V i c) m"

lemma comb_cong: "(\<And>i. i < m \<Longrightarrow> A i = B i) \<Longrightarrow> (\<And>i. i < m \<Longrightarrow> A i \<Longrightarrow> V i c = W i c) \<Longrightarrow> comb m V A c = comb m W B c"
  unfolding comb_def by (rule parity_of_cong) auto

lemma comb_bxor: "comb m V (\<lambda>i. bxor (A i) (B i)) c = bxor (comb m V A c) (comb m V B c)"
  unfolding comb_def parity_of_bxor [symmetric] by (rule parity_of_cong) auto

lemma comb_single: "i < m \<Longrightarrow> comb m V (\<lambda>j. j = i) c = V i c"
  unfolding comb_def by (rule parity_of_single)

lemma symp_comb: "symp n (comb m V A) v = parity_of (\<lambda>i. A i \<and> symp n (V i) v) m"
proof (induction m)
  case 0
  then show ?case by (simp add: comb_def symp_def parity_of_False)
next
  case (Suc m)
  have "symp n (comb (Suc m) V A) v = symp n (\<lambda>c. bxor (comb m V A c) (A m \<and> V m c)) v"
    by (rule symp_cong) (simp add: comb_def)
  also have "\<dots> = bxor (symp n (comb m V A) v) (symp n (\<lambda>c. A m \<and> V m c) v)" by (rule symp_bxor)
  also have "symp n (\<lambda>c. A m \<and> V m c) v = (A m \<and> symp n (V m) v)"
    by (cases "A m") (simp_all add: symp_def parity_of_False)
  finally show ?case using Suc.IH by simp
qed

lemma parity_of_add: "parity_of P (m + k) = bxor (parity_of P m) (parity_of (\<lambda>i. P (m + i)) k)"
  by (induction k) auto

section \<open>The rows of a tableau span all strings\<close>

lemma partner_parity:
  assumes "j < 2 * n"
  shows "parity_of (\<lambda>i. A i \<and> (i + n = j \<or> j + n = i)) (2 * n) = A (if j < n then j + n else j - n)"
proof -
  let ?p = "if j < n then j + n else j - n"
  have "parity_of (\<lambda>i. A i \<and> (i + n = j \<or> j + n = i)) (2 * n) = parity_of (\<lambda>i. i = ?p \<and> A i) (2 * n)"
    using assms by (intro parity_of_cong) auto
  then show ?thesis using assms parity_of_single [of ?p "2 * n" A] by (cases "j < n") simp_all
qed

lemma tableau_coordinates:
  assumes "tab_inv t" "tab_n t = n" "j < 2 * n"
  shows "symp n (comb (2 * n) (\<lambda>i. row_bit n (tab_rows t ! i)) A) (row_bit n (tab_rows t ! j)) = A (if j < n then j + n else j - n)"
proof -
  have "symp n (row_bit n (tab_rows t ! i)) (row_bit n (tab_rows t ! j)) = (i + n = j \<or> j + n = i)" if "i < 2 * n" for i
    using tab_inv_anticommutes [OF assms(1), of i j] tab_inv_wf [OF assms(1), of i] row_anticommutes_symp assms that by auto
  then have "parity_of (\<lambda>i. A i \<and> symp n (row_bit n (tab_rows t ! i)) (row_bit n (tab_rows t ! j))) (2 * n) =
      parity_of (\<lambda>i. A i \<and> (i + n = j \<or> j + n = i)) (2 * n)" by (intro parity_of_cong) auto
  then show ?thesis unfolding symp_comb using partner_parity [OF assms(3)] by simp
qed

lemma tableau_spans:
  assumes "tab_inv t" "tab_n t = n"
  shows "\<exists>A. \<forall>c < 2 * n. v c = comb (2 * n) (\<lambda>i. row_bit n (tab_rows t ! i)) A c"
proof -
  let ?V = "\<lambda>i. row_bit n (tab_rows t ! i)"
  let ?f = "\<lambda>S. {c. c < 2 * n \<and> comb (2 * n) ?V (\<lambda>i. i \<in> S) c}"
  have "inj_on ?f (Pow {..<2 * n})"
  proof (rule inj_onI)
    fix S S' assume s: "S \<in> Pow {..<2 * n}" "S' \<in> Pow {..<2 * n}" "?f S = ?f S'"
    have "(i \<in> S) = (i \<in> S')" if i: "i < 2 * n" for i
    proof -
      let ?j = "if i < n then i + n else i - n"
      have j: "?j < 2 * n" "(if ?j < n then ?j + n else ?j - n) = i" using i by auto
      have "comb (2 * n) ?V (\<lambda>i. i \<in> S) c = comb (2 * n) ?V (\<lambda>i. i \<in> S') c" if "c < 2 * n" for c
        using s(3) that by auto
      then have "symp n (comb (2 * n) ?V (\<lambda>i. i \<in> S)) (?V ?j) = symp n (comb (2 * n) ?V (\<lambda>i. i \<in> S')) (?V ?j)"
        by (rule symp_cong)
      then show ?thesis unfolding tableau_coordinates [OF assms j(1)] j(2) .
    qed
    then show "S = S'" using s(1,2) by auto
  qed
  then have "?f ` Pow {..<2 * n} = Pow {..<2 * n}" by (intro endo_inj_surj) auto
  moreover have "{c. c < 2 * n \<and> v c} \<in> Pow {..<2 * n}" by auto
  ultimately obtain S where "{c. c < 2 * n \<and> v c} = ?f S" by (metis (no_types, lifting) imageE)
  then show ?thesis by (intro exI [of _ "\<lambda>i. i \<in> S"]) auto
qed

text \<open>What commutes with every stabilizer is a sum of stabilizers.\<close>

lemma stabilizers_span:
  assumes "tab_inv t" "tab_n t = n" "\<forall>k < n. \<not> symp n v (row_bit n (tab_rows t ! (n + k)))"
  shows "\<forall>c < 2 * n. v c = comb n (\<lambda>k. row_bit n (tab_rows t ! (n + k))) (\<lambda>k. symp n v (row_bit n (tab_rows t ! k))) c"
proof -
  let ?V = "\<lambda>i. row_bit n (tab_rows t ! i)"
  obtain A where A: "v c = comb (2 * n) ?V A c" if "c < 2 * n" for c using tableau_spans [OF assms(1,2)] by blast
  have none: "\<not> A k" if "k < n" for k
  proof -
    have "symp n v (?V (n + k)) = symp n (comb (2 * n) ?V A) (?V (n + k))" by (rule symp_cong) (rule A)
    then show ?thesis using tableau_coordinates [OF assms(1,2), of "n + k" A] assms(3) that by simp
  qed
  have some: "A (n + k) = symp n v (?V k)" if "k < n" for k
  proof -
    have "symp n v (?V k) = symp n (comb (2 * n) ?V A) (?V k)" by (rule symp_cong) (rule A)
    then show ?thesis using tableau_coordinates [OF assms(1,2), of k A] that by (simp add: add.commute)
  qed
  have "v c = comb n (\<lambda>k. ?V (n + k)) (\<lambda>k. A (n + k)) c" if "c < 2 * n" for c
    using A [OF that] parity_of_add [of "\<lambda>i. A i \<and> ?V i c" n n] parity_of_False [of n "\<lambda>i. A i \<and> ?V i c"] none
    by (simp add: comb_def mult_2)
  moreover have "comb n (\<lambda>k. ?V (n + k)) (\<lambda>k. A (n + k)) c = comb n (\<lambda>k. ?V (n + k)) (\<lambda>k. symp n v (?V k)) c" for c
    by (rule comb_cong) (simp_all add: some)
  ultimately show ?thesis by simp
qed

section \<open>Rows that fix a state\<close>

lemma fixed_commute:
  assumes "wf_row n a" "wf_row n b" "length st = 2 ^ n" "norm_sq st = 1" "row_op n a st = st" "row_op n b st = st"
  shows "\<not> row_anticommutes a b"
proof
  assume "row_anticommutes a b"
  then have "st = scale (- 1) st" using row_op_swap [OF assms(1-3)] assms(5,6) by simp
  then have "st ! x = - st ! x" if "x < length st" for x using that by (metis nth_ops(2) mult_minus1)
  then have "norm_sq st = 0" by (simp add: norm_sq_def)
  then show False using assms(4) by simp
qed

lemma mul_pauli_row_product:
  assumes "wf_row n a" "wf_row n b"
  shows "mul_pauli_row a b = row_product n a b"
proof -
  have "rowmult_loop [0..<n] b 0 a = product_loop [0..<n] a b 0 a"
    by (rule rowmult_loop_product_loop) auto
  then show ?thesis
    using assms(2) by (auto simp: mul_pauli_row_def row_product_def Let_def split_beta wf_row_def)
qed

text \<open>The rows that fix the state and commute with the string \<open>p\<close>.\<close>

definition good :: "nat \<Rightarrow> complex list \<Rightarrow> pauli_row \<Rightarrow> pauli_row \<Rightarrow> bool" where
  "good n st p r \<longleftrightarrow> wf_row n r \<and> row_op n r st = st \<and> \<not> row_anticommutes r p"

lemma good_product:
  assumes "length st = 2 ^ n" "norm_sq st = 1" "good n st p a" "good n st p b"
  shows "good n st p (row_product n a b)"
proof -
  have w: "wf_row n a" "wf_row n b" "row_op n a st = st" "row_op n b st = st" using assms(3,4) by (simp_all add: good_def)
  show ?thesis
    using row_op_row_op [OF w(1,2) assms(1) fixed_commute [OF w(1,2) assms(1,2) w(3,4)]] w assms(3,4)
    by (simp add: good_def wf_row_product row_anticommutes_product)
qed

section \<open>The pivots\<close>

definition pivots_ok :: "nat \<Rightarrow> complex list \<Rightarrow> pauli_row \<Rightarrow> pauli_row option list \<Rightarrow> bool" where
  "pivots_ok n st p pv \<longleftrightarrow> length pv = 2 * n \<and>
     (\<forall>c < 2 * n. \<forall>b. pv ! c = Some b \<longrightarrow> good n st p b \<and> row_bit n b c \<and> (\<forall>c' < c. \<not> row_bit n b c'))"

definition in_span :: "nat \<Rightarrow> pauli_row option list \<Rightarrow> (nat \<Rightarrow> bool) \<Rightarrow> bool" where
  "in_span n pv v \<longleftrightarrow> (\<exists>A. (\<forall>c. A c \<longrightarrow> c < 2 * n \<and> pv ! c \<noteq> None) \<and>
     (\<forall>c < 2 * n. v c = comb (2 * n) (\<lambda>i. row_bit n (the (pv ! i))) A c))"

lemma in_span_cong: "(\<And>c. c < 2 * n \<Longrightarrow> v c = w c) \<Longrightarrow> in_span n pv v = in_span n pv w"
  by (simp add: in_span_def)

lemma in_span_none: "(\<And>c. c < 2 * n \<Longrightarrow> \<not> v c) \<Longrightarrow> in_span n pv v"
  unfolding in_span_def by (rule exI [of _ "\<lambda>c. False"]) (simp add: comb_def parity_of_False)

lemma in_span_add:
  assumes "in_span n pv v" "in_span n pv w"
  shows "in_span n pv (\<lambda>c. bxor (v c) (w c))"
proof -
  obtain A B where "\<forall>c. A c \<longrightarrow> c < 2 * n \<and> pv ! c \<noteq> None" "\<forall>c < 2 * n. v c = comb (2 * n) (\<lambda>i. row_bit n (the (pv ! i))) A c"
    "\<forall>c. B c \<longrightarrow> c < 2 * n \<and> pv ! c \<noteq> None" "\<forall>c < 2 * n. w c = comb (2 * n) (\<lambda>i. row_bit n (the (pv ! i))) B c"
    using assms unfolding in_span_def by blast
  then show ?thesis
    unfolding in_span_def by (intro exI [of _ "\<lambda>c. bxor (A c) (B c)"]) (auto simp: comb_bxor simp del: not_iff)
qed

lemma in_span_pivot: "c < 2 * n \<Longrightarrow> pv ! c = Some b \<Longrightarrow> in_span n pv (row_bit n b)"
  unfolding in_span_def by (rule exI [of _ "\<lambda>i. i = c"]) (simp add: comb_single)

lemma in_span_new:
  assumes "in_span n pv v" "pv ! c = None"
  shows "in_span n (pv[c := Some r]) v"
proof -
  obtain A where A: "\<forall>c. A c \<longrightarrow> c < 2 * n \<and> pv ! c \<noteq> None" "\<forall>c < 2 * n. v c = comb (2 * n) (\<lambda>i. row_bit n (the (pv ! i))) A c"
    using assms(1) unfolding in_span_def by blast
  have ne: "A i \<Longrightarrow> i \<noteq> c" for i using A(1) assms(2) by auto
  have nth: "A i \<Longrightarrow> pv[c := Some r] ! i = pv ! i" for i using ne [of i] by (metis nth_list_update_neq)
  have "comb (2 * n) (\<lambda>i. row_bit n (the (pv[c := Some r] ! i))) A d = comb (2 * n) (\<lambda>i. row_bit n (the (pv ! i))) A d" for d
    using nth by (intro comb_cong refl) simp
  moreover have "A i \<Longrightarrow> pv[c := Some r] ! i \<noteq> None" for i using A(1) nth by auto
  ultimately show ?thesis using A unfolding in_span_def by (intro exI [of _ A]) auto
qed

lemma in_span_lead:
  assumes "pivots_ok n st p pv" "in_span n pv v" "c < 2 * n" "v c" "\<forall>d < c. \<not> v d"
  shows "pv ! c \<noteq> None"
proof -
  let ?V = "\<lambda>i. row_bit n (the (pv ! i))"
  obtain A where A: "\<And>i. A i \<Longrightarrow> i < 2 * n \<and> pv ! i \<noteq> None" "\<And>d. d < 2 * n \<Longrightarrow> v d = comb (2 * n) ?V A d"
    using assms(2) unfolding in_span_def by blast
  have V: "?V i i \<and> (\<forall>d < i. \<not> ?V i d)" if "A i" for i
    using assms(1) A(1) [OF that] unfolding pivots_ok_def by auto
  have "\<exists>i. A i" using A(2) [OF assms(3)] assms(4) parity_of_False [of "2 * n" "\<lambda>i. A i \<and> ?V i c"] by (auto simp: comb_def)
  then have m: "A (LEAST i. A i)" "\<And>i. A i \<Longrightarrow> (LEAST i. A i) \<le> i" by (auto intro: LeastI Least_le)
  define m where "m = (LEAST i. A i)"
  have Am: "A m" "\<And>i. A i \<Longrightarrow> m \<le> i" using m by (simp_all add: m_def)
  have "comb (2 * n) ?V A m = parity_of (\<lambda>i. i = m \<and> True) (2 * n)"
    unfolding comb_def using Am V by (intro parity_of_cong) (metis le_neq_implies_less)
  then have "v m" using A Am(1) parity_of_single [of m "2 * n" "\<lambda>i. True"] by auto
  moreover have "\<not> v d" if "d < m" for d
  proof -
    have "d < 2 * n" using that A(1) [OF Am(1)] by simp
    moreover have "\<not> (A i \<and> ?V i d)" for i using V [of i] Am(2) [of i] that by auto
    ultimately show ?thesis using A(2) parity_of_False [of "2 * n" "\<lambda>i. A i \<and> ?V i d"] by (simp add: comb_def)
  qed
  ultimately have "m = c" using assms(4,5) by (metis linorder_neqE_nat)
  then show ?thesis using A(1) Am(1) by simp
qed

lemma insert_row_ok:
  assumes l: "length st = 2 ^ n" "norm_sq st = 1"
  shows "pivots_ok n st p pv \<Longrightarrow> good n st p r \<Longrightarrow> \<forall>d < c. \<not> row_bit n r d \<Longrightarrow>
    pivots_ok n st p (insert_row n [c..<2 * n] r pv) \<and> in_span n (insert_row n [c..<2 * n] r pv) (row_bit n r) \<and>
    (\<forall>v. in_span n pv v \<longrightarrow> in_span n (insert_row n [c..<2 * n] r pv) v)"
proof (induction "2 * n - c" arbitrary: c r)
  case 0
  then show ?case by (auto intro: in_span_none)
next
  case (Suc k)
  then have c: "c < 2 * n" "k = 2 * n - Suc c" by auto
  show ?case
  proof (cases "row_bit n r c")
    case False
    then have "\<forall>d < Suc c. \<not> row_bit n r d" using Suc.prems(3) by (auto simp: less_Suc_eq)
    then show ?thesis using Suc.hyps(1) [OF c(2) Suc.prems(1,2)] c(1) False by (simp add: upt_conv_Cons)
  next
    case True
    show ?thesis
    proof (cases "pv ! c")
      case None
      have "pivots_ok n st p (pv[c := Some r])"
        using Suc.prems True c(1) by (auto simp: pivots_ok_def nth_list_update)
      moreover have "in_span n (pv[c := Some r]) (row_bit n r)"
        using Suc.prems(1) c(1) by (intro in_span_pivot [of c]) (simp_all add: pivots_ok_def)
      ultimately show ?thesis using in_span_new [OF _ None] None True c(1) by (simp add: upt_conv_Cons)
    next
      case (Some b)
      have b: "good n st p b" "row_bit n b c" "\<forall>d < c. \<not> row_bit n b d"
        using Suc.prems(1) Some c(1) by (auto simp: pivots_ok_def)
      have w: "wf_row n r" "wf_row n b" using Suc.prems(2) b(1) by (simp_all add: good_def)
      let ?r = "row_product n r b"
      have z: "\<forall>d < Suc c. \<not> row_bit n ?r d"
        using Suc.prems(3) b(2,3) True c(1) row_bit_product [OF w] by (auto simp: less_Suc_eq)
      note ih = Suc.hyps(1) [OF c(2) Suc.prems(1) good_product [OF l Suc.prems(2) b(1)] z]
      have e: "insert_row n [c..<2 * n] r pv = insert_row n [Suc c..<2 * n] ?r pv"
        using c(1) True Some by (simp add: upt_conv_Cons mul_pauli_row_product [OF w])
      have "in_span n (insert_row n [Suc c..<2 * n] ?r pv) (\<lambda>d. bxor (row_bit n ?r d) (row_bit n b d))"
        using ih in_span_pivot [of c n pv b, OF c(1) Some] by (blast intro: in_span_add)
      moreover have "bxor (row_bit n ?r d) (row_bit n b d) = row_bit n r d" if "d < 2 * n" for d
        using row_bit_product [OF w that] by auto
      ultimately have "in_span n (insert_row n [Suc c..<2 * n] ?r pv) (row_bit n r)" by (subst in_span_cong [symmetric]) auto
      then show ?thesis using ih unfolding e by blast
    qed
  qed
qed

lemma pivots_fold:
  assumes l: "length st = 2 ^ n" "norm_sq st = 1"
  shows "\<forall>k < m. good n st p (G k) \<Longrightarrow>
    let pv = fold (\<lambda>k. insert_row n [0..<2 * n] (G k)) [0..<m] (replicate (2 * n) None) in
    pivots_ok n st p pv \<and> (\<forall>k < m. in_span n pv (row_bit n (G k)))"
proof (induction m)
  case 0
  then show ?case by (simp add: pivots_ok_def)
next
  case (Suc m)
  then show ?case
    using insert_row_ok [OF l, of p "fold (\<lambda>k. insert_row n [0..<2 * n] (G k)) [0..<m] (replicate (2 * n) None)" "G m" 0]
    by (auto simp: Let_def less_Suc_eq)
qed

lemma in_span_comb:
  "(\<And>k. k < m \<Longrightarrow> in_span n pv (V k)) \<Longrightarrow> in_span n pv (comb m V B)"
proof (induction m)
  case 0
  then show ?case by (auto intro: in_span_none simp: comb_def)
next
  case (Suc m)
  have "in_span n pv (\<lambda>c. bxor (comb m V B c) (B m \<and> V m c))"
    by (rule in_span_add) (use Suc in \<open>cases "B m"; auto intro: in_span_none\<close>)+
  then show ?case by (subst in_span_cong [of _ _ "\<lambda>c. bxor (comb m V B c) (B m \<and> V m c)"]) (auto simp: comb_def)
qed

section \<open>The elimination\<close>

lemma reduce_row_ok:
  assumes l: "length st = 2 ^ n" "norm_sq st = 1" and pv: "pivots_ok n st p pv" and p: "wf_row n p"
  shows "wf_row n r \<Longrightarrow> \<forall>g. good n st p g \<longrightarrow> \<not> row_anticommutes r g \<Longrightarrow> in_span n pv (row_bit n r) \<Longrightarrow>
    \<forall>d < c. \<not> row_bit n r d \<Longrightarrow> \<exists>r'. reduce_row n [c..<2 * n] r pv = Some r' \<and> wf_row n r' \<and>
      (\<forall>d < 2 * n. \<not> row_bit n r' d) \<and> row_op n r' st = row_op n r st"
proof (induction "2 * n - c" arbitrary: c r)
  case 0
  then show ?case by auto
next
  case (Suc k)
  then have c: "c < 2 * n" "k = 2 * n - Suc c" by auto
  show ?case
  proof (cases "row_bit n r c")
    case False
    then have "\<forall>d < Suc c. \<not> row_bit n r d" using Suc.prems(4) by (auto simp: less_Suc_eq)
    then show ?thesis using Suc.hyps(1) [OF c(2) Suc.prems(1,2,3)] c(1) False by (simp add: upt_conv_Cons)
  next
    case True
    obtain b where Some: "pv ! c = Some b" using in_span_lead [OF pv Suc.prems(3) c(1) True Suc.prems(4)] by auto
    have b: "good n st p b" "row_bit n b c" "\<forall>d < c. \<not> row_bit n b d" using pv Some c(1) by (auto simp: pivots_ok_def)
    have w: "wf_row n r" "wf_row n b" using Suc.prems(1) b(1) by (simp_all add: good_def)
    let ?r = "row_product n r b"
    have z: "\<forall>d < Suc c. \<not> row_bit n ?r d"
      using Suc.prems(4) b(2,3) True c(1) row_bit_product [OF w] by (auto simp: less_Suc_eq)
    have g: "\<forall>g. good n st p g \<longrightarrow> \<not> row_anticommutes ?r g"
      using Suc.prems(2) fixed_commute [OF w(2) _ l] b(1) by (auto simp: row_anticommutes_product [OF w] good_def)
    have "in_span n pv (\<lambda>d. bxor (row_bit n r d) (row_bit n b d))"
      by (rule in_span_add [OF Suc.prems(3) in_span_pivot [OF c(1) Some]])
    then have s: "in_span n pv (row_bit n ?r)" by (subst in_span_cong) (auto simp: row_bit_product [OF w])
    have "row_op n ?r st = row_op n r st"
      using row_op_row_op [OF w l(1)] Suc.prems(2) b(1) by (simp add: good_def)
    then show ?thesis
      using Suc.hyps(1) [OF c(2) wf_row_product [OF w] g s z] c(1) True Some
      by (simp add: upt_conv_Cons mul_pauli_row_product [OF w])
  qed
qed

section \<open>The value of a row\<close>

lemma anticommuting_value:
  assumes "represents n t st" "wf_row n p" "k < n" "row_anticommutes (tab_rows t ! (n + k)) p"
  shows "braket st (row_op n p st) = 0"
proof -
  let ?s = "tab_rows t ! (n + k)"
  note s = represents_row [OF assms(1,3)]
  have l: "length st = 2 ^ n" using assms(1) by (simp add: represents_def)
  have "braket st (row_op n p st) = braket (row_op n ?s st) (row_op n p st)" using s(3) by simp
  also have "\<dots> = braket st (row_op n ?s (row_op n p st))" using l by (intro braket_row_op) simp_all
  also have "\<dots> = - braket st (row_op n p st)"
    using row_op_swap [OF s(1) assms(2) l] assms(4) s(3) l by (simp add: braket_scale)
  finally show ?thesis by simp
qed

lemma commuting_value:
  assumes "represents n t st" "wf_row n p" "\<forall>k < n. \<not> row_anticommutes (tab_rows t ! (n + k)) p"
  shows "\<exists>r. reduce_row n [0..<2 * n] p (stabilizer_pivots t) = Some r \<and> wf_row n r \<and> (\<forall>d < 2 * n. \<not> row_bit n r d) \<and>
    row_op n p st = scale (sign (row_sign r)) st"
proof -
  let ?S = "\<lambda>k. tab_rows t ! (n + k)"
  have t: "tab_inv t" "tab_n t = n" "length st = 2 ^ n" "norm_sq st = 1" using assms(1) by (simp_all add: represents_def)
  have "\<forall>k < n. good n st p (?S k)" using represents_row [OF assms(1)] assms(3) by (simp add: good_def)
  from pivots_fold [OF t(3,4) this]
  have pv: "pivots_ok n st p (stabilizer_pivots t)" "\<forall>k < n. in_span n (stabilizer_pivots t) (row_bit n (?S k))"
    by (simp_all add: stabilizer_pivots_def t(2) Let_def)
  have "\<not> symp n (row_bit n p) (row_bit n (?S k))" if "k < n" for k
    using assms(3) that row_anticommutes_symp [OF assms(2)] row_anticommutes_wf_sym [OF assms(2) represents_row(1) [OF assms(1) that]] by blast
  then have "\<forall>c < 2 * n. row_bit n p c = comb n (\<lambda>k. row_bit n (?S k)) (\<lambda>k. symp n (row_bit n p) (row_bit n (tab_rows t ! k))) c"
    using stabilizers_span [OF t(1,2)] by blast
  then have "in_span n (stabilizer_pivots t) (row_bit n p) =
      in_span n (stabilizer_pivots t) (comb n (\<lambda>k. row_bit n (?S k)) (\<lambda>k. symp n (row_bit n p) (row_bit n (tab_rows t ! k))))"
    by (intro in_span_cong) blast
  then have "in_span n (stabilizer_pivots t) (row_bit n p)" using in_span_comb pv(2) by simp
  moreover have "\<forall>g. good n st p g \<longrightarrow> \<not> row_anticommutes p g"
    using row_anticommutes_wf_sym [OF assms(2)] by (auto simp: good_def)
  ultimately obtain r where r: "reduce_row n [0..<2 * n] p (stabilizer_pivots t) = Some r" "wf_row n r"
    "\<forall>d < 2 * n. \<not> row_bit n r d" "row_op n r st = row_op n p st"
    using reduce_row_ok [OF t(3,4) pv(1) assms(2,2), of 0] by auto
  have "\<not> row_x r ! q" "\<not> row_z r ! q" if "q < n" for q
    using r(3) that spec [OF r(3), of q] spec [OF r(3), of "n + q"] by (auto simp: row_bit_def)
  then show ?thesis using r row_op_bits_none [OF t(3), of r] by metis
qed

end
