(* ===== verification/TableauMeasure.thy ===== *)
theory TableauMeasure
  imports TableauValue
begin

text \<open>
  Measurement and reset of a tableau: the outcome obeys Born's rule in the state the tableau represents, and
  the tableau after it represents the measured state.
\<close>

section \<open>The row of a measured qubit\<close>

lemma z_row_bits: "q < n \<Longrightarrow> p < n \<Longrightarrow> row_z (z_row n q) ! p = (p = q)" "p < n \<Longrightarrow> \<not> row_x (z_row n q) ! p"
  by (auto simp: z_row_def row_identity_def nth_list_update)

lemma chi_single: "q < n \<Longrightarrow> chi n (\<lambda>p. p = q) y = sign (bit y q)"
  using chi_split [of q n "\<lambda>p. p = q" y] by (simp add: chi_none)

lemma row_op_z:
  assumes "length st = 2 ^ n" "q < n" "y < 2 ^ n"
  shows "row_op n ((z_row n q)\<lparr>row_sign := b\<rparr>) st ! y = sign (bxor b (bit y q)) * st ! y"
proof -
  let ?r = "(z_row n q)\<lparr>row_sign := b\<rparr>"
  have f: "flip_bits n ((!) (row_x ?r)) y = y" using z_row_bits(2) by (intro flip_bits_none) simp
  have "chi n ((!) (row_z ?r)) y = chi n (\<lambda>p. p = q) y" using assms(2) by (intro chi_cong) (simp add: z_row_bits)
  moreover have "y_factor n ?r = 1" using z_row_bits(2) by (simp add: y_factor_def)
  ultimately show ?thesis using assms f by (simp add: row_op_def chi_single sign_bxor del: not_iff)
qed

lemma measured_nth:
  "y < length st \<Longrightarrow> measured st q b ! y = (if bit y q = b then st ! y / of_real (sqrt (branch_weight st q b)) else 0)"
  by (simp add: measured_def scaled_def branch_def)

text \<open>A fixed row with the bits of \<open>Z\<close> pins the outcome.\<close>

lemma pinned_outcome:
  assumes "length st = 2 ^ n" "norm_sq st = 1" "q < n" "row_op n ((z_row n q)\<lparr>row_sign := b\<rparr>) st = st"
  shows "branch_weight st q b = 1" "branch_weight st q (\<not> b) = 0" "measured st q b = st"
    "\<And>y. y < 2 ^ n \<Longrightarrow> bit y q \<noteq> b \<Longrightarrow> st ! y = 0"
proof -
  show z: "st ! y = 0" if "y < 2 ^ n" "bit y q \<noteq> b" for y
  proof -
    have "st ! y = sign (bxor b (bit y q)) * st ! y" using row_op_z [OF assms(1,3) that(1), of b] assms(4) by simp
    then show ?thesis using that(2) by (simp add: eq_commute [of b])
  qed
  show w0: "branch_weight st q (\<not> b) = 0" unfolding branch_weight_def using z assms(1) by (intro sum.neutral) auto
  then show w: "branch_weight st q b = 1" using branch_weights_sum [of st q] assms(2) by (cases b) simp_all
  show "measured st q b = st"
  proof (rule nth_equalityI)
    show l: "length (measured st q b) = length st" by (simp add: measured_def)
    fix y assume "y < length (measured st q b)"
    then have "y < length st" using l by simp
    then show "measured st q b ! y = st ! y" using z [of y] w assms(1) by (auto simp: measured_nth)
  qed
qed

section \<open>Determined outcomes\<close>

lemma row_op_bits_eq:
  assumes "wf_row n a" "wf_row n b" "\<forall>c < 2 * n. row_bit n a c = row_bit n b c"
  shows "row_op n (b\<lparr>row_sign := row_sign a\<rparr>) st = row_op n a st"
proof -
  have "row_x a ! q = row_x b ! q" "row_z a ! q = row_z b ! q" if "q < n" for q
    using that spec [OF assms(3), of q] spec [OF assms(3), of "n + q"] by (auto simp: row_bit_def)
  then have "a = b\<lparr>row_sign := row_sign a\<rparr>" using assms(1,2) by (intro pauli_row_eqI [of n]) (auto simp: wf_row_def)
  then show ?thesis by simp
qed

lemma scratch_fold:
  assumes l: "length st = 2 ^ n" "norm_sq st = 1" and G: "\<forall>k < n. wf_row n (G k) \<and> row_op n (G k) st = st"
  shows "m \<le> n \<Longrightarrow> let s = fold (\<lambda>i s. if P i then row_product n s (G i) else s) [0..<m] (row_identity n) in
    wf_row n s \<and> row_op n s st = st \<and> (\<forall>c < 2 * n. row_bit n s c = comb m (\<lambda>k. row_bit n (G k)) P c)"
proof (induction m)
  case 0
  have "row_op n (row_identity n) st = st"
    using row_op_bits_none [OF l(1), of "row_identity n"] by (simp add: row_identity_def)
  then show ?case
    using wf_row_identity [of n] by (auto simp: comb_def row_bit_def row_identity_def)
next
  case (Suc m)
  let ?s = "fold (\<lambda>i s. if P i then row_product n s (G i) else s) [0..<m] (row_identity n)"
  have ih: "wf_row n ?s" "row_op n ?s st = st" "\<forall>c < 2 * n. row_bit n ?s c = comb m (\<lambda>k. row_bit n (G k)) P c"
    using Suc by (simp_all add: Let_def)
  have g: "wf_row n (G m)" "row_op n (G m) st = st" using G Suc.prems by auto
  show ?case
  proof (cases "P m")
    case True
    then show ?thesis
      using ih g row_op_row_op [OF ih(1) g(1) l(1) fixed_commute [OF ih(1) g(1) l ih(2) g(2)]]
      by (simp add: Let_def wf_row_product row_bit_product comb_def del: not_iff)
  qed (use ih in \<open>simp add: Let_def comb_def\<close>)
qed

lemma determined_outcome:
  assumes "represents n t st" "q < n" "find_anticommuting t q = None"
  shows "row_op n ((z_row n q)\<lparr>row_sign := row_sign (deterministic_scratch t q)\<rparr>) st = st"
proof -
  let ?S = "\<lambda>k. tab_rows t ! (n + k)" and ?s = "deterministic_scratch t q" and ?z = "z_row n q"
  have t: "tab_inv t" "tab_n t = n" "length st = 2 ^ n" "norm_sq st = 1" using assms(1) by (simp_all add: represents_def)
  have z: "wf_row n ?z" by (rule wf_z_row)
  have P: "row_anticommutes (tab_rows t ! k) ?z = symp n (row_bit n ?z) (row_bit n (tab_rows t ! k))" if "k < 2 * n" for k
    using row_anticommutes_symp [OF z] row_anticommutes_wf_sym [OF z tab_inv_wf [OF t(1), unfolded t(2), OF that]] by blast
  have s: "wf_row n ?s" "row_op n ?s st = st"
    "\<forall>c < 2 * n. row_bit n ?s c = comb n (\<lambda>k. row_bit n (?S k)) (\<lambda>k. row_anticommutes (tab_rows t ! k) ?z) c"
    using scratch_fold [OF t(3,4), of ?S n "\<lambda>k. row_anticommutes (tab_rows t ! k) ?z"] represents_row [OF assms(1)]
    by (simp_all add: deterministic_scratch_def t(2) Let_def)
  have "\<forall>k < n. \<not> symp n (row_bit n ?z) (row_bit n (?S k))"
    using assms(3) P by (auto simp: find_anticommuting_None t(2))
  then have "\<forall>c < 2 * n. row_bit n ?z c = comb n (\<lambda>k. row_bit n (?S k)) (\<lambda>k. symp n (row_bit n ?z) (row_bit n (tab_rows t ! k))) c"
    by (rule stabilizers_span [OF t(1,2)])
  moreover have "comb n (\<lambda>k. row_bit n (?S k)) (\<lambda>k. symp n (row_bit n ?z) (row_bit n (tab_rows t ! k))) c =
      comb n (\<lambda>k. row_bit n (?S k)) (\<lambda>k. row_anticommutes (tab_rows t ! k) ?z) c" for c
    using P by (intro comb_cong) auto
  ultimately have "\<forall>c < 2 * n. row_bit n ?s c = row_bit n ?z c" using s(3) by simp
  then show ?thesis using row_op_bits_eq [OF s(1) z] s(2) by simp
qed

section \<open>Random outcomes\<close>

lemma weight_difference:
  assumes "length st = 2 ^ n" "q < n"
  shows "braket st (row_op n (z_row n q) st) = of_real (branch_weight st q False - branch_weight st q True)"
proof -
  have z: "(z_row n q)\<lparr>row_sign := False\<rparr> = z_row n q" by (simp add: z_row_def row_identity_def)
  have "braket st (row_op n (z_row n q) st) = (\<Sum>y<2 ^ n. sign (bit y q) * of_real ((cmod (st ! y))\<^sup>2))"
    unfolding braket_def assms(1) using row_op_z [OF assms, of _ False, unfolded z]
    by (intro sum.cong refl) (simp add: complex_norm_square mult.commute mult.left_commute del: of_real_power)
  also have "\<dots> = (\<Sum>y \<in> {y. y < 2 ^ n \<and> bit y q = False}. of_real ((cmod (st ! y))\<^sup>2)) -
      (\<Sum>y \<in> {y. y < 2 ^ n \<and> bit y q = True}. of_real ((cmod (st ! y))\<^sup>2))"
  proof -
    have "{..<2 ^ n} = {y. y < 2 ^ n \<and> bit y q = False} \<union> {y. y < (2 :: nat) ^ n \<and> bit y q = True}" by auto
    then have "(\<Sum>y<2 ^ n. sign (bit y q) * complex_of_real ((cmod (st ! y))\<^sup>2)) =
        (\<Sum>y \<in> {y. y < 2 ^ n \<and> bit y q = False}. sign (bit y q) * of_real ((cmod (st ! y))\<^sup>2)) +
        (\<Sum>y \<in> {y. y < 2 ^ n \<and> bit y q = True}. sign (bit y q) * of_real ((cmod (st ! y))\<^sup>2))"
      by (subst sum.union_disjoint [symmetric]) auto
    then show ?thesis by (simp add: sum_negf)
  qed
  finally show ?thesis by (simp add: branch_weight_def assms(1))
qed

text \<open>A row that fixes the state and commutes with the measured row fixes the measured state.\<close>

lemma fixes_measured:
  assumes "length st = 2 ^ n" "q < n" "wf_row n r" "row_op n r st = st" "\<not> row_x r ! q"
  shows "row_op n r (measured st q b) = measured st q b"
proof -
  let ?z = "(z_row n q)\<lparr>row_sign := b\<rparr>" and ?c = "complex_of_real (1 / sqrt (branch_weight st q b)) / 2"
  have m: "measured st q b = scale ?c (vplus st (row_op n ?z st))"
  proof (rule nth_equalityI)
    fix y assume "y < length (measured st q b)"
    then have y: "y < 2 ^ n" "y < length st" using assms(1) by (simp_all add: measured_def)
    show "measured st q b ! y = scale ?c (vplus st (row_op n ?z st)) ! y"
      using y row_op_z [OF assms(1,2) y(1), of b] by (cases "bit y q"; cases b) (simp_all add: measured_nth)
  qed (simp add: measured_def)
  have zw: "wf_row n ?z" using wf_z_row [of n q] by (simp add: wf_row_def)
  have "row_anticommutes r ?z = row_x r ! q"
    using anticommutes_z_row [OF assms(3,2)] by (simp add: row_anticommutes_def)
  then have "row_op n r (row_op n ?z st) = row_op n ?z st"
    using row_op_swap [OF assms(3) zw assms(1)] assms(4,5) by simp
  then show ?thesis unfolding m using assms(1,4) by (simp add: row_op_scale row_op_vplus)
qed

lemma z_fixes_measured:
  assumes "length st = 2 ^ n" "q < n"
  shows "row_op n ((z_row n q)\<lparr>row_sign := b\<rparr>) (measured st q b) = measured st q b"
proof (rule nth_equalityI)
  have l: "length (measured st q b) = 2 ^ n" using assms(1) by (simp add: measured_def)
  fix y assume "y < length (row_op n ((z_row n q)\<lparr>row_sign := b\<rparr>) (measured st q b))"
  then have y: "y < 2 ^ n" using l by simp
  show "row_op n ((z_row n q)\<lparr>row_sign := b\<rparr>) (measured st q b) ! y = measured st q b ! y"
    using row_op_z [OF l assms(2) y, of b] y assms(1) by (auto simp: measured_nth)
qed simp

lemma random_outcome:
  assumes "represents n t st" "q < n" "find_anticommuting t q = Some p"
  shows "branch_weight st q b = 1 / 2"
    "represents n (t\<lparr>tab_rows := measure_update n q p b (tab_rows t)\<rparr>) (measured st q b)"
proof -
  have t: "tab_inv t" "tab_n t = n" "length st = 2 ^ n" "norm_sq st = 1" using assms(1) by (simp_all add: represents_def)
  have p: "n \<le> p" "p < 2 * n" "row_anticommutes (tab_rows t ! p) (z_row n q)"
    using find_anticommuting_Some [OF assms(3)] t(2) by auto
  let ?S = "tab_rows t ! p"
  have s: "wf_row n ?S" "row_op n ?S st = st" using represents_row [OF assms(1), of "p - n"] p by auto
  have "braket st (row_op n (z_row n q) st) = braket (row_op n ?S st) (row_op n (z_row n q) st)" using s(2) by simp
  also have "\<dots> = braket st (row_op n ?S (row_op n (z_row n q) st))" using t(3) by (intro braket_row_op) simp_all
  also have "\<dots> = - braket st (row_op n (z_row n q) st)"
    using row_op_swap [OF s(1) wf_z_row t(3)] p(3) s(2) t(3) by (simp add: braket_scale)
  finally have "braket st (row_op n (z_row n q) st) = 0" by simp
  then have "branch_weight st q False = branch_weight st q True" using weight_difference [OF t(3) assms(2)] by simp
  then show w: "branch_weight st q b = 1 / 2" using branch_weights_sum [of st q] t(4) by (cases b) simp_all
  let ?R = "measure_update n q p b (tab_rows t)" and ?m = "measured st q b"
  have len: "length (tab_rows t) = 2 * n" using t by (simp add: tab_inv_def)
  have "row_op n (?R ! (n + k)) ?m = ?m" if k: "k < n" for k
  proof (cases "n + k = p")
    case True
    then show ?thesis
      using measure_update_nth(1) [OF len p(1,2), of "n + k"] z_fixes_measured [OF t(3) assms(2)] k by simp
  next
    case False
    have x: "wf_row n (?R ! (n + k))" "\<not> row_x (?R ! (n + k)) ! q"
      using measured_row_x [OF t(1) _ assms(3), of "n + k"] t(2) assms(2) k p by auto
    have r: "wf_row n (tab_rows t ! (n + k))" "row_op n (tab_rows t ! (n + k)) st = st" using represents_row [OF assms(1) k] by simp_all
    have "row_op n (?R ! (n + k)) st = st"
      using measure_update_nth(1) [OF len p(1,2), of "n + k"] False k p r
        row_op_row_op [OF r(1) s(1) t(3) fixed_commute [OF r(1) s(1) t(3,4) r(2) s(2)]] s(2) by simp
    then show ?thesis by (rule fixes_measured [OF t(3) assms(2) x(1) _ x(2)])
  qed
  then show "represents n (t\<lparr>tab_rows := ?R\<rparr>) ?m"
    using measure_update_inv [OF t(1) _ assms(3), of b] t measured_facts [of st q b] w assms(2) by (simp add: represents_def)
qed

lemma measure_represents:
  assumes "represents n t st" "q < n" "measure_qubit t q coin = Some (b, t')"
  shows "branch_weight st q b = (if find_anticommuting t q = None then 1 else 1 / 2)"
    "represents n t' (measured st q b)" "find_anticommuting t q = None \<Longrightarrow> t' = t \<and> measured st q b = st"
proof -
  have t: "tab_n t = n" "length st = 2 ^ n" "norm_sq st = 1" using assms(1) by (simp_all add: represents_def)
  show d: "t' = t \<and> measured st q b = st" if "find_anticommuting t q = None"
    using pinned_outcome(3) [OF t(2,3) assms(2) determined_outcome [OF assms(1,2) that]] assms(2,3) that t
    by (auto simp: measure_qubit_def)
  show "branch_weight st q b = (if find_anticommuting t q = None then 1 else 1 / 2)"
    using pinned_outcome(1) [OF t(2,3) assms(2) determined_outcome [OF assms(1,2)]] random_outcome(1) [OF assms(1,2)] assms(2,3) t
    by (cases "find_anticommuting t q") (auto simp: measure_qubit_def)
  show "represents n t' (measured st q b)"
    using d random_outcome(2) [OF assms(1,2)] assms t
    by (cases "find_anticommuting t q") (auto simp: measure_qubit_def)
qed

lemma measure_total: "q < tab_n t \<Longrightarrow> \<exists>b t'. measure_qubit t q coin = Some (b, t')"
  by (cases "find_anticommuting t q") (simp_all add: measure_qubit_def)

section \<open>The state-vector backend's measurement and reset\<close>

text \<open>A draw that leads the state-vector backend to the tableau's outcome.\<close>

definition draw_for :: "bool \<Rightarrow> real" where
  "draw_for b = (if b then 3 / 4 else 1 / 4)"

definition matching_draw :: "tableau \<Rightarrow> nat \<Rightarrow> bool \<Rightarrow> real \<Rightarrow> bool" where
  "matching_draw t q b x \<longleftrightarrow> unit_draw x \<and> (find_anticommuting t q = None \<or> x = draw_for b)"

lemma draw_for_matches: "matching_draw t q b (draw_for b)"
  by (simp add: matching_draw_def draw_for_def unit_draw_def)

lemma matching_outcome:
  assumes "represents n t st" "q < n" "measure_qubit t q coin = Some (b, t')" "matching_draw t q b x"
  shows "(branch_weight st q False \<le> x) = b"
proof -
  have x: "0 \<le> x" "x < 1" using assms(4) by (simp_all add: matching_draw_def unit_draw_def)
  have w: "branch_weight st q False + branch_weight st q True = 1" using branch_weights_sum [of st q] assms(1) by (simp add: represents_def)
  show ?thesis
  proof (cases "find_anticommuting t q = None")
    case True
    then show ?thesis using measure_represents(1) [OF assms(1-3)] w x by (cases b) simp_all
  next
    case False
    then have "x = draw_for b" using assms(4) by (auto simp: matching_draw_def)
    then show ?thesis using measure_represents(1) [OF assms(1-3)] w False by (cases b) (simp_all add: draw_for_def)
  qed
qed

lemma projective_match:
  assumes "represents n t st" "q < n" "n \<le> 64" "measure_qubit t q coin = Some (b, t')" "matching_draw t q b (shd (fst r))"
  shows "projective_measure st n q r = Done (of_bool b, measured st q b, stl (fst r), snd r)"
  using measure_spec [of st n q r] matching_outcome [OF assms(1,2,4,5)] assms by (simp add: represents_def matching_draw_def Let_def)

lemma pinned_reset:
  assumes "represents n t st" "q < n" "find_anticommuting t q = None"
  shows "reset_is_deterministic st n q = Done True"
proof -
  have t: "length st = 2 ^ n" "norm_sq st = 1" using assms(1) by (simp_all add: represents_def)
  note pin = pinned_outcome [OF t assms(2) determined_outcome [OF assms]]
  define b where "b = row_sign (deterministic_scratch t q)"
  have "st ! put_bit q True x * cnj (st ! x) = 0" if "x \<in> clear_at n q" for x
  proof -
    have x: "x < 2 ^ n" "\<not> bit x q" "put_bit q True x < 2 ^ n" "bit (put_bit q True x) q"
      using that put_bit_less [of x n q True] assms(2) by (simp_all add: clear_at_def bit_put_bit)
    then show ?thesis using pin(4) [of x] pin(4) [of "put_bit q True x"] by (cases "row_sign (deterministic_scratch t q)") auto
  qed
  then have "(\<Sum>x \<in> clear_at n q. st ! put_bit q True x * cnj (st ! x)) = 0" by (intro sum.neutral) blast
  moreover have "(branch_weight st q False)\<^sup>2 + (branch_weight st q True)\<^sup>2 = 1"
    using pin(1,2) by (cases "row_sign (deterministic_scratch t q)") simp_all
  ultimately show ?thesis
    using purity_value [OF t(1) assms(2)] by (simp add: reset_is_deterministic_def reset_is_deterministic_within_def)
qed

lemma reset_match:
  assumes "represents n t st" "q < n" "n \<le> 64" "measure_qubit t q coin = Some (b, t')" "matching_draw t q b (shd (fst r))"
    "analytic \<longrightarrow> find_anticommuting t q = None"
  shows "apply_reset st n q r analytic = Done (reset_branch st q b, stl (fst r), snd r)"
    "\<exists>t''. (if b then tab_x q t' else Some t') = Some t'' \<and> represents n t'' (reset_branch st q b)"
proof -
  have t: "length st = 2 ^ n" "norm_sq st = 1" using assms(1) by (simp_all add: represents_def)
  note m = measure_represents(2) [OF assms(1,2,4)]
  show "apply_reset st n q r analytic = Done (reset_branch st q b, stl (fst r), snd r)"
    using reset_spec [OF t(1) assms(2,3) t(2), of r analytic] matching_outcome [OF assms(1,2,4,5)] pinned_reset [OF assms(1,2)] assms(5,6)
    by (auto simp: matching_draw_def Let_def)
  show "\<exists>t''. (if b then tab_x q t' else Some t') = Some t'' \<and> represents n t'' (reset_branch st q b)"
  proof (cases b)
    case False
    then show ?thesis using m flip_measured(2) [OF t(1) assms(2)] by simp
  next
    case True
    have t': "tab_inv t'" "tab_n t' = n" "length (measured st q b) = 2 ^ n" "norm_sq (measured st q b) = 1"
      using m by (simp_all add: represents_def)
    have "norm_sq (dense_1q q gate_x (measured st q b)) = 1"
      using norm_dense_1q [OF t'(3) assms(2)] t'(4) by (simp add: gate1q_unitary)
    then have "represents n (t'\<lparr>tab_rows := map (row_pauli_x q) (tab_rows t')\<rparr>) (dense_1q q gate_x (measured st q b))"
      using represents_map [OF m conjugates_gates(2) [OF assms(2)]] tab_gates(4) [OF t'(1), of q] t'(2) assms(2) by simp
    then show ?thesis using True flip_measured(1) [OF t(1) assms(2)] tab_gates(3) [OF t'(1), of q] t'(2) assms(2) by simp
  qed
qed

end
