(* ===== verification/TableauSim.thy ===== *)
theory TableauSim
  imports TableauMeasure
begin

text \<open>
  Runs of the tableau backend against runs of the state-vector backend: one operation, then a circuit, in
  the analytic mode and in the collapse mode.
\<close>

section \<open>What the tableau backend refuses\<close>

definition tab_refuses :: "bool \<Rightarrow> gate_op \<Rightarrow> omega_error \<Rightarrow> bool" where
  "tab_refuses analytic op e \<longleftrightarrow>
     \<not> clifford (op_gate op) \<and> op_gate op \<notin> {Measure, Barrier, Reset} \<and> e = Unsupported (Gate_not_supported (op_gate op)) \<or>
     analytic \<and> op_gate op = Reset \<and> e = Unsupported (Random_reset (unat (op_qubits op ! 0)))"

text \<open>Operations the state-vector backend accepts: enough distinct qubits, and parameters that resolve.\<close>

definition runnable :: "binding \<Rightarrow> nat \<Rightarrow> gate_op \<Rightarrow> bool" where
  "runnable b n op \<longleftrightarrow> valid_op n op \<and> (\<exists>ps. resolve_all b (op_params op) = Inr ps)"

lemma tab_not_supported:
  "\<not> clifford (op_gate op) \<Longrightarrow> op_gate op \<notin> {Measure, Barrier, Reset} \<Longrightarrow>
     apply_gate_tab t op r analytic = Failed (Unsupported (Gate_not_supported (op_gate op)))"
  by (cases "op_gate op") (simp_all add: clifford_def apply_gate_tab_def Let_def)

lemma clifford_step:
  assumes "represents n t st" "runnable b n op" "n \<le> 64" "clifford (op_gate op)"
  shows "\<exists>t' st'. apply_gate_tab t op cs analytic = Done (t', cs) \<and> represents n t' st' \<and>
    (\<forall>r. apply_gate st n op b r analytic' = Done (st', r))"
proof -
  obtain ps where ps: "resolve_all b (op_params op) = Inr ps" and v: "valid_op n op" using assms(2) by (auto simp: runnable_def)
  have l: "length st = 2 ^ n" using assms(1) by (simp add: represents_def)
  show ?thesis
    using apply_gate_clifford [OF assms(1) v assms(4), of cs analytic ps] apply_gate_action [OF l assms(3) v ps clifford_unitary [OF assms(4)]]
    by blast
qed

section \<open>Analytic runs\<close>

lemma reset_analytic:
  assumes "represents n t st" "q < n" "n \<le> 64" "draws_ok r"
  shows "(\<exists>t' st' r'. apply_reset_stabilizer t q cs True = Done (t', cs) \<and> represents n t' st' \<and>
      apply_reset st n q r True = Done (st', r') \<and> draws_ok r') \<or>
    apply_reset_stabilizer t q cs True = Failed (Unsupported (Random_reset q))"
proof -
  have n: "tab_n t = n" using assms(1) by (simp add: represents_def)
  have d: "reset_outcome_is_determined t q = Some (find_anticommuting t q = None)"
    using assms(2) by (auto simp: reset_outcome_is_determined_def find_anticommuting_None n list_ex_iff)
  show ?thesis
  proof (cases "find_anticommuting t q = None")
    case True
    obtain b t' where m: "measure_qubit t q (shd cs) = Some (b, t')" using measure_total [of q t] assms(2) n by blast
    have x: "matching_draw t q b (shd (fst r))" using True draws_ok_shd [OF assms(4)] by (simp add: matching_draw_def)
    from reset_match [OF assms(1-3) m x, of True] obtain t'' where
      t'': "(if b then tab_x q t' else Some t') = Some t''" "represents n t'' (reset_branch st q b)"
      and r: "apply_reset st n q r True = Done (reset_branch st q b, stl (fst r), snd r)" using True by auto
    have "apply_reset_stabilizer t q cs True = Done (t'', cs)"
      using d True m t''(1) by (cases b) (simp_all add: apply_reset_stabilizer_def measure_draw_def or_panic_def)
    then show ?thesis using t''(2) r draws_ok_stl [OF assms(4)] by blast
  next
    case False
    then show ?thesis using d by (simp add: apply_reset_stabilizer_def or_panic_def)
  qed
qed

lemma analytic_op:
  assumes "represents n t st" "runnable b n op" "op_condition op = None" "n \<le> 64" "draws_ok r"
  shows "(\<exists>t' st' r'. apply_gate_tab t op cs True = Done (t', cs) \<and> represents n t' st' \<and>
      evolve_op Skip n b True op (st, bits, r) = Done (st', bits, r') \<and> draws_ok r') \<or>
    (\<exists>e. apply_gate_tab t op cs True = Failed e \<and> tab_refuses True op e)"
proof -
  have c: "condition_satisfied op bits" using assms(3) by (simp add: condition_satisfied_def)
  obtain ps where ps: "resolve_all b (op_params op) = Inr ps" and v: "valid_op n op" using assms(2) by (auto simp: runnable_def)
  consider "clifford (op_gate op)" | "op_gate op \<in> {Measure, Barrier}" | "op_gate op = Reset"
    | "\<not> clifford (op_gate op)" "op_gate op \<notin> {Measure, Barrier, Reset}" by blast
  then show ?thesis
  proof cases
    case 1
    then have "op_gate op \<notin> {Measure, Barrier}" by (auto simp: clifford_def)
    moreover obtain t' st' where "apply_gate_tab t op cs True = Done (t', cs)" "represents n t' st'"
      "\<And>r. apply_gate st n op b r True = Done (st', r)"
      using clifford_step [OF assms(1,2,4) 1] by blast
    ultimately show ?thesis using c assms(5) by (auto simp: evolve_op_def)
  next
    case 2
    then have "apply_gate_tab t op cs True = Done (t, cs)" "evolve_op Skip n b True op (st, bits, r) = Done (st, bits, r)"
      using c by (auto simp: evolve_op_def apply_gate_tab_def Let_def)
    then show ?thesis using assms(1,5) by blast
  next
    case 3
    then have q: "qubit_of op 0 = Done (unat (op_qubits op ! 0))" "unat (op_qubits op ! 0) < n"
      using valid_op_nth [OF v, of 0] by simp_all
    have e: "apply_gate_tab t op cs True = apply_reset_stabilizer t (unat (op_qubits op ! 0)) cs True"
      "apply_gate st n op b r True = apply_reset st n (unat (op_qubits op ! 0)) r True"
      using 3 q(1) ps by (simp_all add: apply_gate_tab_def apply_gate_def or_fail_def Let_def)
    show ?thesis
      using reset_analytic [OF assms(1) q(2) assms(4,5), of cs] c 3 by (auto simp: e evolve_op_def tab_refuses_def)
  next
    case 4
    then show ?thesis using tab_not_supported by (auto simp: tab_refuses_def)
  qed
qed

lemma analytic_ops:
  assumes "n \<le> 64"
  shows "represents n t st \<Longrightarrow> \<forall>op \<in> set ops. runnable b n op \<and> op_condition op = None \<Longrightarrow> draws_ok r \<Longrightarrow>
    (\<exists>t' st' r'. apply_ops_tab ops True t cs = Done (t', cs) \<and> represents n t' st' \<and>
      evolve_ops Skip n b True ops (st, bits, r) = Done (st', bits, r')) \<or>
    (\<exists>op \<in> set ops. \<exists>e. apply_ops_tab ops True t cs = Failed e \<and> tab_refuses True op e)"
proof (induction ops arbitrary: t st r)
  case (Cons op ops)
  have "runnable b n op" "op_condition op = None" using Cons.prems(2) by simp_all
  from analytic_op [OF Cons.prems(1) this assms Cons.prems(3), of cs bits] show ?case
  proof (elim disjE exE conjE)
    fix t' st' r' assume s: "apply_gate_tab t op cs True = Done (t', cs)" "represents n t' st'"
      "evolve_op Skip n b True op (st, bits, r) = Done (st', bits, r')" "draws_ok r'"
    then show ?thesis using Cons.IH [OF s(2) _ s(4)] Cons.prems(2) by auto
  qed auto
qed auto

section \<open>Trajectories\<close>

lemma measure_step:
  assumes "represents n t st" "q < n" "n \<le> 64"
  shows "\<exists>b t' cs'. measure_draw t q cs = Done (b, t', cs') \<and> represents n t' (measured st q b) \<and>
    (\<forall>s w. projective_measure st n q (draw_for b ## s, w) = Done (of_bool b, measured st q b, s, w))"
proof -
  obtain b t' where m: "measure_qubit t q (shd cs) = Some (b, t')"
    using measure_total [of q t "shd cs"] assms(1,2) by (metis represents_def)
  then show ?thesis
    using measure_represents(2) [OF assms(1,2) m] projective_match [OF assms m] draw_for_matches [of t q b]
    by (simp add: measure_draw_def or_panic_def)
qed

lemma reset_step:
  assumes "represents n t st" "q < n" "n \<le> 64"
  shows "\<exists>b t' st' cs'. apply_reset_stabilizer t q cs False = Done (t', cs') \<and> represents n t' st' \<and>
    (\<forall>s w. apply_reset st n q (draw_for b ## s, w) False = Done (st', s, w))"
proof -
  obtain b t' where m: "measure_qubit t q (shd cs) = Some (b, t')"
    using measure_total [of q t "shd cs"] assms(1,2) by (metis represents_def)
  have "\<exists>t''. (if b then tab_x q t' else Some t') = Some t'' \<and> represents n t'' (reset_branch st q b)"
    using reset_match(2) [OF assms m, of "(sconst (draw_for b), sconst 0)" False] draw_for_matches by simp
  then obtain t'' where t'': "(if b then tab_x q t' else Some t') = Some t''" "represents n t'' (reset_branch st q b)" by blast
  have "\<exists>cs'. apply_reset_stabilizer t q cs False = Done (t'', cs')"
    using m t''(1) by (cases b) (simp_all add: apply_reset_stabilizer_def measure_draw_def or_panic_def)
  moreover have "apply_reset st n q (draw_for b ## s, w) False = Done (reset_branch st q b, s, w)" for s w
    using reset_match(1) [OF assms m, of "(draw_for b ## s, w)" False] draw_for_matches by simp
  ultimately show ?thesis using t''(2) by blast
qed

lemma collapse_op_step:
  assumes "represents n t st" "runnable b n op" "n \<le> 64"
  shows "(\<exists>t' bits' cs' st' xs. collapse_op_tab op (t, bits, cs) = Done (t', bits', cs') \<and> represents n t' st' \<and>
      set xs \<subseteq> {1 / 4, 3 / 4} \<and>
      (\<forall>s w. evolve_op Collapse n b False op (st, bits, xs @- s, w) = Done (st', bits', s, w))) \<or>
    (\<exists>e. collapse_op_tab op (t, bits, cs) = Failed e \<and> tab_refuses False op e)"
proof -
  obtain ps where ps: "resolve_all b (op_params op) = Inr ps" and v: "valid_op n op" using assms(2) by (auto simp: runnable_def)
  have d: "draw_for o' \<in> {1 / 4, 3 / 4}" for o' by (simp add: draw_for_def)
  consider "\<not> condition_satisfied op bits \<or> op_gate op = Barrier" | "condition_satisfied op bits" "clifford (op_gate op)"
    | "condition_satisfied op bits" "op_gate op = Measure" | "condition_satisfied op bits" "op_gate op = Reset"
    | "condition_satisfied op bits" "\<not> clifford (op_gate op)" "op_gate op \<notin> {Measure, Barrier, Reset}" by blast
  then show ?thesis
  proof cases
    case 1
    then have "collapse_op_tab op (t, bits, cs) = Done (t, bits, cs)"
      "evolve_op Collapse n b False op (st, bits, [] @- s, w) = Done (st, bits, s, w)" for s w
      by (auto simp: collapse_op_tab_def evolve_op_def)
    then show ?thesis using assms(1) by (metis empty_subsetI list.set(1))
  next
    case 2
    then have "op_gate op \<notin> {Measure, Barrier}" by (auto simp: clifford_def)
    moreover obtain t' st' where s: "apply_gate_tab t op cs False = Done (t', cs)" "represents n t' st'"
      "\<And>r. apply_gate st n op b r False = Done (st', r)"
      using clifford_step [OF assms 2(2)] by blast
    ultimately have "collapse_op_tab op (t, bits, cs) = Done (t', bits, cs)"
      "evolve_op Collapse n b False op (st, bits, [] @- s, w) = Done (st', bits, s, w)" for s w
      using 2(1) by (auto simp: collapse_op_tab_def evolve_op_def)
    then show ?thesis using s(2) by (metis empty_subsetI list.set(1))
  next
    case 3
    then have q: "qubit_of op 0 = Done (unat (op_qubits op ! 0))" "unat (op_qubits op ! 0) < n"
      using measured_qubit [OF v] by simp_all
    from measure_step [OF assms(1) q(2) assms(3), of cs] obtain o' t' cs' where
      m: "measure_draw t (unat (op_qubits op ! 0)) cs = Done (o', t', cs')" "represents n t' (measured st (unat (op_qubits op ! 0)) o')"
      "\<And>s w. projective_measure st n (unat (op_qubits op ! 0)) (draw_for o' ## s, w) =
        Done (of_bool o', measured st (unat (op_qubits op ! 0)) o', s, w)" by blast
    have o: "(if o' then 1 else 0) = (of_nat (of_bool o') :: u8)" by simp
    have "collapse_op_tab op (t, bits, cs) = Done (t', set_cbit (op_cbit op) (of_nat (of_bool o')) bits, cs')"
      using 3 q(1) m(1) by (simp add: collapse_op_tab_def o)
    moreover have "evolve_op Collapse n b False op (st, bits, [draw_for o'] @- s, w) =
        Done (measured st (unat (op_qubits op ! 0)) o', set_cbit (op_cbit op) (of_nat (of_bool o')) bits, s, w)" for s w
      using 3 q(1) m(3) by (simp add: evolve_op_def)
    moreover have "set [draw_for o'] \<subseteq> {1 / 4, 3 / 4}" using d by simp
    ultimately show ?thesis using m(2) by blast
  next
    case 4
    then have q: "qubit_of op 0 = Done (unat (op_qubits op ! 0))" "unat (op_qubits op ! 0) < n"
      using valid_op_nth [OF v, of 0] by simp_all
    from reset_step [OF assms(1) q(2) assms(3), of cs] obtain o' t' st' cs' where
      m: "apply_reset_stabilizer t (unat (op_qubits op ! 0)) cs False = Done (t', cs')" "represents n t' st'"
      "\<And>s w. apply_reset st n (unat (op_qubits op ! 0)) (draw_for o' ## s, w) False = Done (st', s, w)" by blast
    have "collapse_op_tab op (t, bits, cs) = Done (t', bits, cs')"
      using 4 q(1) m(1) by (simp add: collapse_op_tab_def apply_gate_tab_def Let_def)
    moreover have "evolve_op Collapse n b False op (st, bits, [draw_for o'] @- s, w) = Done (st', bits, s, w)" for s w
      using 4 q(1) m(3) ps by (simp add: evolve_op_def apply_gate_def or_fail_def Let_def)
    moreover have "set [draw_for o'] \<subseteq> {1 / 4, 3 / 4}" using d by simp
    ultimately show ?thesis using m(2) by blast
  next
    case 5
    then show ?thesis using tab_not_supported by (auto simp: collapse_op_tab_def tab_refuses_def)
  qed
qed

lemma collapse_ops_step:
  assumes "n \<le> 64"
  shows "represents n t st \<Longrightarrow> \<forall>op \<in> set ops. runnable b n op \<Longrightarrow>
    (\<exists>t' bits' cs' st' xs. collapse_ops_tab ops (t, bits, cs) = Done (t', bits', cs') \<and> represents n t' st' \<and>
      set xs \<subseteq> {1 / 4, 3 / 4} \<and>
      (\<forall>s w. evolve_ops Collapse n b False ops (st, bits, xs @- s, w) = Done (st', bits', s, w))) \<or>
    (\<exists>op \<in> set ops. \<exists>e. collapse_ops_tab ops (t, bits, cs) = Failed e \<and> tab_refuses False op e)"
proof (induction ops arbitrary: t st bits cs)
  case Nil
  have "evolve_ops Collapse n b False [] (st, bits, [] @- s, w) = Done (st, bits, s, w)" for s w by simp
  then show ?case using Nil by (metis collapse_ops_tab.simps(1) empty_subsetI list.set(1))
next
  case (Cons op ops)
  from Cons.prems have p: "runnable b n op" "\<forall>op \<in> set ops. runnable b n op" by simp_all
  from collapse_op_step [OF Cons.prems(1) p(1) assms, of bits cs] show ?case
  proof (elim disjE exE conjE)
    fix t' bits' cs' st' xs assume s: "collapse_op_tab op (t, bits, cs) = Done (t', bits', cs')" "represents n t' st'"
      "set xs \<subseteq> {1 / 4, 3 / 4}" "\<forall>s w. evolve_op Collapse n b False op (st, bits, xs @- s, w) = Done (st', bits', s, w)"
    from Cons.IH [OF s(2) p(2), of bits' cs'] show ?thesis
    proof (elim disjE exE conjE)
      fix t2 b2 c2 st2 ys assume r: "collapse_ops_tab ops (t', bits', cs') = Done (t2, b2, c2)" "represents n t2 st2"
        "set ys \<subseteq> {1 / 4, 3 / 4}" "\<forall>s w. evolve_ops Collapse n b False ops (st', bits', ys @- s, w) = Done (st2, b2, s, w)"
      have "evolve_ops Collapse n b False (op # ops) (st, bits, (xs @ ys) @- s, w) = Done (st2, b2, s, w)" for s w
        using s(4) r(4) by simp
      moreover have "set (xs @ ys) \<subseteq> {1 / 4, 3 / 4}" using s(3) r(3) by simp
      moreover have "collapse_ops_tab (op # ops) (t, bits, cs) = Done (t2, b2, c2)" using s(1) r(1) by simp
      ultimately show ?thesis using r(2) by blast
    next
      assume "\<exists>op \<in> set ops. \<exists>e. collapse_ops_tab ops (t', bits', cs') = Failed e \<and> tab_refuses False op e"
      then show ?thesis using s(1) by auto
    qed
  qed auto
qed

end
