(* ===== verification/TableauProb.thy ===== *)
theory TableauProb
  imports TableauSim
begin

text \<open>
  Exact probabilities: the sum over the stabilizer group is the squared modulus of the amplitude.
\<close>

section \<open>Sums of characters\<close>

lemma chi_swap: "chi n (bit (w :: nat)) y = chi n (bit y) w"
  unfolding chi_def by (rule arg_cong [of _ _ sign], rule parity_of_cong) auto

lemma character_sum:
  assumes "x < 2 ^ n"
  shows "(\<Sum>w<(2 :: nat) ^ n. chi n (bit w) x) = (if x = 0 then 2 ^ n else 0)"
proof (cases "x = 0")
  case True
  then show ?thesis by (simp add: chi_def parity_of_False)
next
  case False
  then obtain q where q: "bit x q" using bit_eq_iff [of x 0] by auto
  have qn: "q < n" using q assms unfolding less_exp_iff_bits by (metis not_le)
  let ?f = "flip_bits n (\<lambda>p. p = q)"
  have "chi n (bit (?f w)) x = - chi n (bit w) x" for w :: nat
  proof -
    have "chi n (bit (?f w)) x = chi n (\<lambda>p. bxor (bit w p) (p = q)) x"
      by (rule chi_cong) (auto simp: bit_flip_bits)
    also have "\<dots> = chi n (bit w) x * chi n (\<lambda>p. p = q) x" by (rule chi_bxor)
    finally show ?thesis using chi_single [OF qn] q by simp
  qed
  then have "(\<Sum>w<(2 :: nat) ^ n. chi n (bit w) x) = - (\<Sum>w<(2 :: nat) ^ n. chi n (bit w) x)"
    using sum.reindex_bij_betw [OF flip_bits_bij, of "\<lambda>w. chi n (bit w) x" n "\<lambda>p. p = q"] by (simp add: sum_negf)
  then show ?thesis using False by simp
qed

section \<open>Diagonal rows\<close>

definition z_string :: "nat \<Rightarrow> nat \<Rightarrow> pauli_row" where
  "z_string n w = \<lparr>row_n = n, row_x = replicate n False, row_z = map (bit w) [0..<n], row_sign = False\<rparr>"

lemma z_string_wf: "wf_row n (z_string n w)"
  by (simp add: z_string_def wf_row_def)

lemma row_op_diagonal:
  assumes "length st = 2 ^ n" "\<forall>q < n. \<not> row_x r ! q" "y < 2 ^ n"
  shows "row_op n r st ! y = sign (row_sign r) * chi n ((!) (row_z r)) y * st ! y"
  using assms flip_bits_none [of n "(!) (row_x r)" y] by (simp add: row_op_def y_factor_def)

lemma z_string_value:
  assumes "length st = 2 ^ n"
  shows "braket st (row_op n (z_string n w) st) = (\<Sum>y<2 ^ n. chi n (bit w) y * of_real ((cmod (st ! y))\<^sup>2))"
proof -
  have "row_op n (z_string n w) st ! y = chi n (bit w) y * st ! y" if "y < 2 ^ n" for y
  proof -
    have "chi n ((!) (row_z (z_string n w))) y = chi n (bit w) y" by (rule chi_cong) (simp add: z_string_def)
    then show ?thesis using row_op_diagonal [OF assms _ that, of "z_string n w"] by (simp add: z_string_def)
  qed
  then show ?thesis
    unfolding braket_def assms
    by (intro sum.cong refl) (simp add: complex_norm_square mult.commute mult.left_commute del: of_real_power)
qed

text \<open>The squared modulus of an amplitude from the values of the diagonal strings.\<close>

lemma amplitude_from_strings:
  assumes "length st = 2 ^ n" "b < 2 ^ n"
  shows "(\<Sum>w<(2 :: nat) ^ n. chi n (bit w) b * braket st (row_op n (z_string n w) st)) = 2 ^ n * of_real ((cmod (st ! b))\<^sup>2)"
proof -
  have m: "chi n (bit w) b * chi n (bit w) y = chi n (bit w) (b XOR y)" for w y :: nat
  proof -
    have "chi n (bit (b XOR y)) w = chi n (\<lambda>q. bxor (bit b q) (bit y q)) w" by (rule chi_cong) (simp add: bit_xor_iff)
    then show ?thesis by (simp only: chi_swap [of n w] chi_bxor)
  qed
  have xor: "b XOR y < 2 ^ n" "(b XOR y = 0) = (y = b)" if "y < 2 ^ n" for y
    using that assms(2) by (auto simp: less_exp_iff_bits bit_xor_iff bit_eq_iff)
  have "(\<Sum>w<(2 :: nat) ^ n. chi n (bit w) b * braket st (row_op n (z_string n w) st)) =
      (\<Sum>w<(2 :: nat) ^ n. \<Sum>y<2 ^ n. chi n (bit w) (b XOR y) * of_real ((cmod (st ! y))\<^sup>2))"
    unfolding z_string_value [OF assms(1)] sum_distrib_left mult.assoc [symmetric] m ..
  also have "\<dots> = (\<Sum>y<2 ^ n. \<Sum>w<(2 :: nat) ^ n. chi n (bit w) (b XOR y) * of_real ((cmod (st ! y))\<^sup>2))" by (rule sum.swap)
  also have "\<dots> = (\<Sum>y<2 ^ n. if y = b then 2 ^ n * of_real ((cmod (st ! y))\<^sup>2) else 0)"
    using xor by (intro sum.cong refl) (simp add: sum_distrib_right [symmetric] character_sum)
  also have "\<dots> = 2 ^ n * of_real ((cmod (st ! b))\<^sup>2)" using assms(2) by simp
  finally show ?thesis .
qed

section \<open>Products of generators\<close>

lemma group_loop_rowmult:
  "group_loop qs s (row_x r, row_z r, ph) = (let (ph', r') = rowmult_loop qs s ph r in (row_x r', row_z r', ph'))"
  by (induction qs s ph r rule: rowmult_loop.induct) simp_all

definition element_row :: "nat \<Rightarrow> bool list \<times> bool list \<times> int \<times> bool \<Rightarrow> pauli_row" where
  "element_row n g = (case g of (x, z, ph, sg) \<Rightarrow> \<lparr>row_n = n, row_x = x, row_z = z, row_sign = bxor sg (ph mod 4 = 2)\<rparr>)"

lemma group_step:
  assumes "wf_row n r" "wf_row n s" "\<not> row_anticommutes r s" "even ph" "r = element_row n (x, z, ph, sg)"
  shows "\<exists>x' z' ph'. group_loop [0..<n] s (x, z, ph) = (x', z', ph') \<and> even ph' \<and>
    element_row n (x', z', ph', bxor sg (row_sign s)) = row_product n r s"
proof -
  have rb: "row_x r = x" "row_z r = z" "row_n r = n" "row_sign r = bxor sg (ph mod 4 = 2)" using assms(5) by (simp_all add: element_row_def)
  have e: "rowmult_loop [0..<n] s ph r = product_loop [0..<n] r s ph r"
    by (rule rowmult_loop_product_loop) auto
  obtain ph' r' where p: "product_loop [0..<n] r s ph r = (ph', r')" by (cases "product_loop [0..<n] r s ph r")
  have ph: "ph' = ph + phase_sum n r s"
    using product_loop_phase [of "[0..<n]" r s ph r] p
    by (simp add: phase_sum_def interv_sum_list_conv_sum_set_nat atLeast0LessThan)
  have ev: "even (phase_sum n r s)" using assms(1,3) by (simp add: row_anticommutes_phase wf_row_def)
  have f: "row_n r' = n" "length (row_x r') = n" "length (row_z r') = n"
    using product_loop_fields [of "[0..<n]" r s ph r] p assms(1) by (simp_all add: wf_row_def)
  have b: "row_x r' ! q = bxor (row_x r ! q) (row_x s ! q)" "row_z r' ! q = bxor (row_z r ! q) (row_z s ! q)" if "q < n" for q
    using product_loop_x [of "[0..<n]" q r r s ph] product_loop_z [of "[0..<n]" q r r s ph] p assms(1) that by (simp_all add: wf_row_def)
  have "element_row n (row_x r', row_z r', ph', bxor sg (row_sign s)) = row_product n r s"
  proof (rule pauli_row_eqI [of n])
    show "wf_row n (element_row n (row_x r', row_z r', ph', bxor sg (row_sign s)))" using f by (simp add: element_row_def wf_row_def)
    show "wf_row n (row_product n r s)" by (rule wf_row_product [OF assms(1,2)])
    have "(ph' mod 4 = 2) = bxor (ph mod 4 = 2) (phase_sum n r s mod 4 = 2)"
      unfolding ph using assms(4) ev by presburger
    then show "row_sign (element_row n (row_x r', row_z r', ph', bxor sg (row_sign s))) = row_sign (row_product n r s)"
      by (auto simp: element_row_def row_product_sign [OF assms(1,2)] rb)
  qed (use b in \<open>simp_all add: element_row_def row_product_x [OF assms(1,2)] row_product_z [OF assms(1,2)]\<close>)
  moreover have "group_loop [0..<n] s (x, z, ph) = (row_x r', row_z r', ph')"
    using group_loop_rowmult [of "[0..<n]" s r ph] by (simp add: rb e p)
  ultimately show ?thesis using ph ev assms(4) by auto
qed

lemma group_element_ok:
  assumes "represents n t st"
  shows "m \<le> n \<Longrightarrow> \<exists>x z ph sg. fold (\<lambda>k (x, z, ph, sg). if bit sel k then
         (let s = tab_rows t ! (tab_n t + k); (x', z', ph') = group_loop [0..<n] s (x, z, ph)
          in (x', z', ph', bxor sg (row_sign s)))
       else (x, z, ph, sg)) [0..<m] (replicate n False, replicate n False, 0, False) = (x, z, ph, sg) \<and> even ph \<and>
     wf_row n (element_row n (x, z, ph, sg)) \<and> row_op n (element_row n (x, z, ph, sg)) st = st \<and>
     (\<forall>c < 2 * n. row_bit n (element_row n (x, z, ph, sg)) c = comb m (\<lambda>k. row_bit n (tab_rows t ! (n + k))) (bit sel) c)"
proof (induction m)
  case 0
  have l: "length st = 2 ^ n" using assms by (simp add: represents_def)
  have i: "element_row n (replicate n False, replicate n False, 0, False) = row_identity n"
    by (simp add: element_row_def row_identity_def)
  have "row_op n (row_identity n) st = st" using row_op_bits_none [OF l, of "row_identity n"] by (simp add: row_identity_def)
  moreover have "\<not> row_bit n (row_identity n) c" if "c < 2 * n" for c using that by (auto simp: row_bit_def row_identity_def)
  ultimately show ?case
    by (intro exI [of _ "replicate n False"] exI [of _ 0] exI [of _ False]) (simp add: i wf_row_identity comb_def)
next
  case (Suc m)
  have t: "tab_n t = n" "length st = 2 ^ n" "norm_sq st = 1" using assms by (simp_all add: represents_def)
  let ?F = "\<lambda>k (x, z, ph, sg). if bit sel k then
         (let s = tab_rows t ! (tab_n t + k); (x', z', ph') = group_loop [0..<n] s (x, z, ph)
          in (x', z', ph', bxor sg (row_sign s)))
       else (x, z, ph, sg)"
  obtain x z ph sg where ih: "fold ?F [0..<m] (replicate n False, replicate n False, 0, False) = (x, z, ph, sg)" "even ph"
     "wf_row n (element_row n (x, z, ph, sg))" "row_op n (element_row n (x, z, ph, sg)) st = st"
     "\<forall>c < 2 * n. row_bit n (element_row n (x, z, ph, sg)) c = comb m (\<lambda>k. row_bit n (tab_rows t ! (n + k))) (bit sel) c"
    using Suc by auto
  let ?r = "element_row n (x, z, ph, sg)" and ?s = "tab_rows t ! (n + m)"
  have s: "wf_row n ?s" "row_op n ?s st = st" using represents_row [OF assms, of m] Suc.prems by simp_all
  show ?case
  proof (cases "bit sel m")
    case True
    have na: "\<not> row_anticommutes ?r ?s" by (rule fixed_commute [OF ih(3) s(1) t(2,3) ih(4) s(2)])
    obtain x' z' ph' where g: "group_loop [0..<n] ?s (x, z, ph) = (x', z', ph')" "even ph'"
      "element_row n (x', z', ph', bxor sg (row_sign ?s)) = row_product n ?r ?s"
      using group_step [OF ih(3) s(1) na ih(2) refl] by blast
    have "row_op n (row_product n ?r ?s) st = st" using row_op_row_op [OF ih(3) s(1) t(2) na] ih(4) s(2) by simp
    moreover have "\<forall>c < 2 * n. row_bit n (row_product n ?r ?s) c = comb (Suc m) (\<lambda>k. row_bit n (tab_rows t ! (n + k))) (bit sel) c"
      using ih(5) True by (simp add: row_bit_product [OF ih(3) s(1)] comb_def del: not_iff)
    ultimately show ?thesis
      using ih(1) True g wf_row_product [OF ih(3) s(1)] t(1) by simp
  next
    case False
    then show ?thesis using ih by (simp add: comb_def)
  qed
qed

lemma group_element_row:
  assumes "represents n t st"
  shows "\<exists>x z ph sg. group_element t n sel = (x, z, ph, sg) \<and> even ph \<and>
     wf_row n (element_row n (x, z, ph, sg)) \<and> row_op n (element_row n (x, z, ph, sg)) st = st \<and>
     (\<forall>c < 2 * n. row_bit n (element_row n (x, z, ph, sg)) c = comb n (\<lambda>k. row_bit n (tab_rows t ! (n + k))) (bit sel) c)"
  unfolding group_element_def by (rule group_element_ok [OF assms order_refl])

section \<open>Terms of the sum\<close>

lemma fold_parity: "fold (\<lambda>q parity. if P q then bxor parity (f q) else parity) [0..<n] s = bxor s (parity_of (\<lambda>q. P q \<and> f q) n)"
  by (induction n) auto

lemma fold_negate: "fold (\<lambda>q parity. if P q then \<not> parity else parity) [0..<n] s = bxor s (parity_of P n)"
  by (induction n) auto

lemma fixed_diagonal:
  assumes "length st = 2 ^ n" "norm_sq st = 1" "wf_row n r" "\<forall>q < n. \<not> row_x r ! q" "row_op n r st = st"
    "w = horner_sum of_bool 2 (row_z r)"
  shows "braket st (row_op n (z_string n w) st) = sign (row_sign r)" "chi n ((!) (row_z r)) y = chi n (bit w) y"
proof -
  have w: "bit w q = row_z r ! q" if "q < n" for q
    using that assms(3,6) by (simp add: bit_horner_sum_bit_iff wf_row_def)
  show "chi n ((!) (row_z r)) y = chi n (bit w) y" by (rule chi_cong) (simp add: w)
  have "row_bit n (z_string n w) c = row_bit n r c" if "c < 2 * n" for c
    using assms(4) w [of "c - n"] that by (cases "c < n") (simp_all add: row_bit_def z_string_def)
  then have "\<forall>c < 2 * n. row_bit n (z_string n w) c = row_bit n r c" by blast
  then have "row_op n (r\<lparr>row_sign := False\<rparr>) st = row_op n (z_string n w) st"
    using row_op_bits_eq [OF z_string_wf assms(3)] by (simp add: z_string_def)
  moreover have "row_op n (r\<lparr>row_sign := False\<rparr>) st = scale (sign (row_sign r)) (row_op n r st)"
    using row_op_negate [of n r "row_sign r" st] by simp
  ultimately have "row_op n (z_string n w) st = scale (sign (row_sign r)) st" using assms(5) by simp
  then show "braket st (row_op n (z_string n w) st) = sign (row_sign r)"
    using assms(1,2) braket_self [of st] by (simp add: braket_scale)
qed

lemma group_term_value:
  assumes "represents n t st"
  shows "let r = element_row n (group_element t n sel); w = horner_sum of_bool 2 (row_z r) in
    complex_of_real (group_term n b (group_element t n sel)) =
      (if \<exists>q < n. row_x r ! q then 0 else chi n (bit w) b * braket st (row_op n (z_string n w) st))"
proof -
  have l: "length st = 2 ^ n" "norm_sq st = 1" using assms by (simp_all add: represents_def)
  obtain x z ph sg where g: "group_element t n sel = (x, z, ph, sg)" "even ph" "wf_row n (element_row n (x, z, ph, sg))"
    "row_op n (element_row n (x, z, ph, sg)) st = st" using group_element_row [OF assms] by blast
  let ?r = "element_row n (x, z, ph, sg)" and ?w = "horner_sum of_bool 2 z :: nat"
  have f: "row_x ?r = x" "row_z ?r = z" "row_sign ?r = bxor sg (ph mod 4 = 2)" "length x = n" "length z = n"
    using g(3) by (simp_all add: element_row_def wf_row_def)
  have x: "list_ex id x = (\<exists>q < n. x ! q)" using f(4) by (simp add: list_ex_length)
  show ?thesis
  proof (cases "\<exists>q < n. x ! q")
    case True
    then show ?thesis by (simp add: g(1) group_term_def x f(1) Let_def)
  next
    case False
    have ph: "(ph mod 4 + 4) mod 4 = 0 \<or> (ph mod 4 + 4) mod 4 = 2" "((ph mod 4 + 4) mod 4 = 2) = (ph mod 4 = 2)"
      using g(2) by presburger+
    have p: "fold (\<lambda>q parity. if z ! q \<and> bit b q then \<not> parity else parity) [0..<n] sg =
        bxor sg (parity_of (\<lambda>q. z ! q \<and> bit b q) n)" by (rule fold_negate)
    have "complex_of_real (group_term n b (x, z, ph, sg)) = sign (bxor (bxor sg (parity_of (\<lambda>q. z ! q \<and> bit b q) n)) (ph mod 4 = 2))"
      using False ph by (auto simp: group_term_def x p Let_def sign_def)
    also have "\<dots> = sign (row_sign ?r) * chi n ((!) z) b" by (simp only: f(3) sign_bxor chi_def mult_ac)
    also have "\<dots> = chi n (bit ?w) b * braket st (row_op n (z_string n ?w) st)"
      using fixed_diagonal(1) [OF l g(3) _ g(4), of ?w] fixed_diagonal(2) [OF l g(3) _ g(4), of ?w b] False f by simp
    finally show ?thesis using False by (auto simp: g(1) f Let_def)
  qed
qed

section \<open>The sum over the group\<close>

lemma comb_coordinate:
  assumes "tab_inv t" "tab_n t = n" "k < n"
  shows "symp n (comb n (\<lambda>k. row_bit n (tab_rows t ! (n + k))) B) (row_bit n (tab_rows t ! k)) = B k"
proof -
  have "symp n (row_bit n (tab_rows t ! (n + i))) (row_bit n (tab_rows t ! k)) = (i = k)" if "i < n" for i
    using tab_inv_anticommutes [OF assms(1), of "n + i" k] tab_inv_wf [OF assms(1), of "n + i"] row_anticommutes_symp assms that by auto
  then have "parity_of (\<lambda>i. B i \<and> symp n (row_bit n (tab_rows t ! (n + i))) (row_bit n (tab_rows t ! k))) n =
      parity_of (\<lambda>i. i = k \<and> B i) n" by (intro parity_of_cong) auto
  then show ?thesis unfolding symp_comb using parity_of_single [OF assms(3), of B] by simp
qed

lemma group_bijection:
  assumes "represents n t st"
  shows "bij_betw (\<lambda>sel. horner_sum of_bool 2 (row_z (element_row n (group_element t n sel))))
    {sel. sel < 2 ^ n \<and> (\<forall>q < n. \<not> row_x (element_row n (group_element t n sel)) ! q)}
    {w. w < 2 ^ n \<and> (\<forall>k < n. \<not> row_anticommutes (tab_rows t ! (n + k)) (z_string n w))}"
    (is "bij_betw ?f ?D ?W")
proof -
  have t: "tab_inv t" "tab_n t = n" "length st = 2 ^ n" "norm_sq st = 1" using assms by (simp_all add: represents_def)
  let ?r = "\<lambda>sel. element_row n (group_element t n sel)" and ?S = "\<lambda>k. tab_rows t ! (n + k)"
  have r: "wf_row n (?r sel)" "row_op n (?r sel) st = st" "\<And>c. c < 2 * n \<Longrightarrow> row_bit n (?r sel) c = comb n (\<lambda>k. row_bit n (?S k)) (bit sel) c" for sel
    using group_element_row [OF assms, of sel] by auto
  have f: "bit (?f sel) q = row_z (?r sel) ! q" if "q < n" for sel q
    using that r(1) [of sel] by (simp add: bit_horner_sum_bit_iff wf_row_def)
  have zs: "row_bit n (z_string n (?f sel)) c = row_bit n (?r sel) c" if "sel \<in> ?D" "c < 2 * n" for sel c
    using that f by (auto simp: row_bit_def z_string_def)
  have inj: "inj_on ?f ?D"
  proof (rule inj_onI)
    fix a b assume ab: "a \<in> ?D" "b \<in> ?D" "?f a = ?f b"
    have "comb n (\<lambda>k. row_bit n (?S k)) (bit a) c = comb n (\<lambda>k. row_bit n (?S k)) (bit b) c" if "c < 2 * n" for c
      using zs [OF ab(1) that] zs [OF ab(2) that] ab(3) r(3) [OF that] by simp
    then have "bit a k = bit b k" if "k < n" for k
      using symp_cong [of n "comb n (\<lambda>k. row_bit n (?S k)) (bit a)" "comb n (\<lambda>k. row_bit n (?S k)) (bit b)" "row_bit n (tab_rows t ! k)"]
        comb_coordinate [OF t(1,2) that] by simp
    moreover have "\<not> bit a k" "\<not> bit b k" if "n \<le> k" for k using ab(1,2) that by (auto simp: less_exp_iff_bits)
    ultimately show "a = b" by (intro bit_eqI) (metis not_le)
  qed
  have into: "?f sel \<in> ?W" if "sel \<in> ?D" for sel
  proof -
    have "?f sel < 2 ^ n" using r(1) [of sel] horner_sum_of_bool_2_less [of "row_z (?r sel)"] by (simp add: wf_row_def)
    moreover have "\<not> row_anticommutes (?S k) (z_string n (?f sel))" if "k < n" for k
    proof -
      have "row_anticommutes (z_string n (?f sel)) (?S k) = row_anticommutes (?r sel) (?S k)"
        unfolding row_anticommutes_symp [OF z_string_wf] row_anticommutes_symp [OF r(1)]
        by (rule symp_cong) (rule zs [OF \<open>sel \<in> ?D\<close>])
      then show ?thesis
        using fixed_commute [OF r(1) represents_row(1) [OF assms that] t(3,4) r(2) represents_row(3) [OF assms that]]
          row_anticommutes_wf_sym [OF z_string_wf represents_row(1) [OF assms that]] by simp
    qed
    ultimately show ?thesis by simp
  qed
  have onto: "\<exists>sel \<in> ?D. ?f sel = w" if w: "w \<in> ?W" for w
  proof -
    have "\<forall>k < n. \<not> symp n (row_bit n (z_string n w)) (row_bit n (?S k))"
      using w row_anticommutes_wf_sym [OF z_string_wf represents_row(1) [OF assms]] row_anticommutes_symp [OF z_string_wf] by blast
    from stabilizers_span [OF t(1,2) this] obtain B where
      B: "\<And>c. c < 2 * n \<Longrightarrow> row_bit n (z_string n w) c = comb n (\<lambda>k. row_bit n (?S k)) B c" by blast
    define sel :: nat where "sel = horner_sum of_bool 2 (map B [0..<n])"
    have "comb n (\<lambda>k. row_bit n (?S k)) (bit sel) c = comb n (\<lambda>k. row_bit n (?S k)) B c" for c
      unfolding sel_def by (rule comb_cong) (simp_all add: bit_horner_sum_bit_iff)
    then have e: "row_bit n (?r sel) c = row_bit n (z_string n w) c" if "c < 2 * n" for c using B r(3) that by simp
    have x: "\<not> row_x (?r sel) ! q" "row_z (?r sel) ! q = bit w q" if "q < n" for q
      using e [of q] e [of "n + q"] that by (simp_all add: row_bit_def z_string_def)
    have "sel < 2 ^ n" unfolding sel_def using horner_sum_of_bool_2_less [of "map B [0..<n]"] by simp
    moreover have "?f sel = w"
    proof (rule bit_eqI)
      fix q show "bit (?f sel) q = bit w q"
        using f x w r(1) [of sel] by (cases "q < n") (auto simp: less_exp_iff_bits bit_horner_sum_bit_iff wf_row_def)
    qed
    ultimately show ?thesis using x by blast
  qed
  show ?thesis
    unfolding bij_betw_def
  proof (intro conjI inj equalityI subsetI)
    fix w assume "w \<in> ?f ` ?D" then show "w \<in> ?W" using into by blast
  next
    fix w assume "w \<in> ?W" then show "w \<in> ?f ` ?D" using onto by (metis (no_types, lifting) image_eqI)
  qed
qed

lemma group_sum:
  assumes "represents n t st" "b < 2 ^ n"
  shows "(\<Sum>sel<2 ^ n. group_term n b (group_element t n sel)) = 2 ^ n * (cmod (st ! b))\<^sup>2"
proof -
  let ?D = "{sel. sel < 2 ^ n \<and> (\<forall>q < n. \<not> row_x (element_row n (group_element t n sel)) ! q)}"
  let ?W = "{w. w < 2 ^ n \<and> (\<forall>k < n. \<not> row_anticommutes (tab_rows t ! (n + k)) (z_string n w))}"
  let ?g = "\<lambda>w. chi n (bit w) b * braket st (row_op n (z_string n w) st)"
  let ?T = "\<lambda>sel. complex_of_real (group_term n b (group_element t n sel))"
  let ?f = "\<lambda>sel. horner_sum of_bool 2 (row_z (element_row n (group_element t n sel))) :: nat"
  have l: "length st = 2 ^ n" using assms(1) by (simp add: represents_def)
  have T: "?T sel = (if \<exists>q < n. row_x (element_row n (group_element t n sel)) ! q then 0 else ?g (?f sel))" for sel
    using group_term_value [OF assms(1), of sel b] unfolding Let_def .
  have "(\<Sum>sel<2 ^ n. ?T sel) = (\<Sum>sel \<in> ?D. ?T sel)"
    by (rule sum.mono_neutral_right) (auto simp: T)
  also have "\<dots> = (\<Sum>sel \<in> ?D. ?g (?f sel))" by (intro sum.cong refl) (auto simp: T)
  also have "\<dots> = (\<Sum>w \<in> ?W. ?g w)" by (rule sum.reindex_bij_betw [OF group_bijection [OF assms(1)]])
  also have "\<dots> = (\<Sum>w<2 ^ n. ?g w)"
  proof (rule sum.mono_neutral_left)
    show "\<forall>w \<in> {..<2 ^ n} - ?W. ?g w = 0" using anticommuting_value [OF assms(1) z_string_wf] by auto
  qed auto
  also have "\<dots> = 2 ^ n * of_real ((cmod (st ! b))\<^sup>2)" by (rule amplitude_from_strings [OF l assms(2)])
  finally have "complex_of_real (\<Sum>sel<2 ^ n. group_term n b (group_element t n sel)) = of_real (2 ^ n * (cmod (st ! b))\<^sup>2)" by simp
  then show ?thesis unfolding of_real_eq_iff .
qed

lemma rejects_zero:
  assumes "represents n t st" "b < 2 ^ n" "k < n" "rejects (tab_rows t ! (n + k)) b n"
  shows "st ! b = 0"
proof -
  let ?s = "tab_rows t ! (n + k)"
  note s = represents_row [OF assms(1,3)]
  have l: "length st = 2 ^ n" using assms(1) by (simp add: represents_def)
  have x: "\<forall>q < n. \<not> row_x ?s ! q" using assms(4) s(1) by (auto simp: rejects_def list_ex_length wf_row_def)
  have p: "bxor (row_sign ?s) (parity_of (\<lambda>q. bit b q \<and> row_z ?s ! q) n)"
    using assms(4) unfolding rejects_def fold_parity by (rule conjunct2)
  have "parity_of (\<lambda>q. bit b q \<and> row_z ?s ! q) n = parity_of (\<lambda>q. row_z ?s ! q \<and> bit b q) n" by (rule parity_of_cong) auto
  then have "sign (row_sign ?s) * chi n ((!) (row_z ?s)) b = - 1"
    using p unfolding chi_def sign_bxor [symmetric] by simp
  then show ?thesis using row_op_diagonal [OF l x assms(2)] s(3) by simp
qed

lemma stabilizer_probability_value:
  assumes "represents n t st" "b < 2 ^ n"
  shows "stabilizer_probability t b n = (cmod (st ! b))\<^sup>2"
proof (cases "list_ex (\<lambda>k. rejects (tab_rows t ! (tab_n t + k)) b n) [0..<n]")
  case True
  then have "st ! b = 0" using rejects_zero [OF assms] assms(1) by (auto simp: list_ex_iff represents_def)
  then show ?thesis using True by (simp add: stabilizer_probability_def)
next
  case False
  have "sum_list (map (\<lambda>sel. group_term n b (group_element t n sel)) [0..<2 ^ n]) =
      (\<Sum>sel<2 ^ n. group_term n b (group_element t n sel))"
    by (simp add: sum_list_distinct_conv_sum_set atLeast0LessThan)
  then show ?thesis using False group_sum [OF assms] by (simp add: stabilizer_probability_def)
qed

end
