(* ===== verification/PauliRefine.thy ===== *)
theory PauliRefine
  imports PauliClifford
begin

text \<open>
  When a step of Pauli propagation implements a unitary: the value of the sum in the state after the
  unitary differs from the value of the new sum in the state before it by at most the mass the step
  drops, and the only error is the refusal of a sum that is too long.
\<close>

section \<open>Draining the map\<close>

definition faithful :: "drain \<Rightarrow> bool" where
  "faithful drn \<longleftrightarrow> (\<forall>m. finite (dom m) \<longrightarrow> distinct (map fst (drn m)) \<and> map_of (drn m) = m)"

definition list_value :: "(pauli_key \<Rightarrow> complex) \<Rightarrow> (pauli_key \<times> weighted) list \<Rightarrow> complex" where
  "list_value e ts = sum_list (map (\<lambda>(k, w). coeff w * e k) ts)"

lemma list_value_simps [simp]: "list_value e [] = 0" "list_value e ((k, w) # ts) = coeff w * e k + list_value e ts"
  by (simp_all add: list_value_def)

lemma faithful_facts:
  assumes "faithful drn" "finite (dom (sum_terms s))"
  shows "fst ` set (drn (sum_terms s)) = dom (sum_terms s)" "list_value e (drn (sum_terms s)) = sum_value e s"
proof -
  have d: "distinct (map fst (drn (sum_terms s)))" "map_of (drn (sum_terms s)) = sum_terms s"
    using assms by (auto simp: faithful_def)
  show f: "fst ` set (drn (sum_terms s)) = dom (sum_terms s)" using d(2) dom_map_of_conv_image_fst by metis
  have "list_value e ts = (\<Sum>k \<in> fst ` set ts. coeff (the (map_of ts k)) * e k)" if "distinct (map fst ts)" for ts
    using that
  proof (induction ts)
    case (Cons t ts)
    obtain k w where t: "t = (k, w)" by (cases t)
    have "(\<Sum>k' \<in> fst ` set ts. coeff (the (map_of (t # ts) k')) * e k') = (\<Sum>k' \<in> fst ` set ts. coeff (the (map_of ts k')) * e k')"
      using Cons.prems by (intro sum.cong) (auto simp: t)
    then show ?case using Cons by (simp add: t)
  qed simp
  then show "list_value e (drn (sum_terms s)) = sum_value e s"
    using d f by (simp add: sum_value_def)
qed

section \<open>Refinement\<close>

definition over_cap :: "engine \<Rightarrow> omega_error \<Rightarrow> bool" where
  "over_cap en e \<longleftrightarrow> (\<exists>m cap. max_terms en = Some cap \<and> cap < m \<and> e = Unsupported (Too_many_terms m cap))"

definition step_ok :: "engine \<Rightarrow> u32 \<Rightarrow> (complex list \<Rightarrow> complex list) \<Rightarrow> pauli_sum \<Rightarrow> pauli_sum \<Rightarrow> bool" where
  "step_ok en N U s s' \<longleftrightarrow> sum_inv N s' \<and> (\<not> truncates en \<longrightarrow> dropped_mass s' = dropped_mass s) \<and>
     (\<forall>st. length st = 2 ^ unat N \<longrightarrow> norm_sq st = 1 \<longrightarrow>
        cmod (sum_value (string_value (unat N) (U st)) s - sum_value (string_value (unat N) st) s') \<le> dropped_mass s' - dropped_mass s)"

definition refines :: "engine \<Rightarrow> u32 \<Rightarrow> (pauli_sum \<Rightarrow> pauli_sum run) \<Rightarrow> (complex list \<Rightarrow> complex list) \<Rightarrow> bool" where
  "refines en N F U \<longleftrightarrow> isometric (unat N) U \<and> (\<forall>s. sum_inv N s \<longrightarrow>
     (case F s of Done s' \<Rightarrow> step_ok en N U s s' | Failed e \<Rightarrow> over_cap en e | Panicked \<Rightarrow> False))"

lemma refines_isometric: "refines en N F U \<Longrightarrow> isometric (unat N) U"
  by (simp add: refines_def)

lemma refines_run:
  "refines en N F U \<Longrightarrow> sum_inv N s \<Longrightarrow>
     (\<exists>s'. F s = Done s' \<and> step_ok en N U s s') \<or> (\<exists>e. F s = Failed e \<and> over_cap en e)"
  by (cases "F s") (auto simp: refines_def dest!: spec [of _ s])

lemma refinesI:
  assumes "isometric (unat N) U"
    "\<And>s. sum_inv N s \<Longrightarrow> (\<exists>s'. F s = Done s' \<and> step_ok en N U s s') \<or> (\<exists>e. F s = Failed e \<and> over_cap en e)"
  shows "refines en N F U"
proof -
  have "case F s of Done s' \<Rightarrow> step_ok en N U s s' | Failed e \<Rightarrow> over_cap en e | Panicked \<Rightarrow> False" if "sum_inv N s" for s
    using assms(2) [OF that] by auto
  then show ?thesis using assms(1) by (simp add: refines_def)
qed

lemma step_ok_trans:
  assumes "step_ok en N U s s1" "step_ok en N V s1 s2" "isometric (unat N) V"
  shows "step_ok en N (\<lambda>st. U (V st)) s s2"
proof -
  let ?v = "\<lambda>st. sum_value (string_value (unat N) st)"
  have "cmod (?v (U (V st)) s - ?v st s2) \<le> dropped_mass s2 - dropped_mass s"
    if st: "length st = 2 ^ unat N" "norm_sq st = 1" for st
  proof -
    note V = isometric_facts(1,2) [OF assms(3) st(1)]
    have "cmod (?v (U (V st)) s - ?v (V st) s1) \<le> dropped_mass s1 - dropped_mass s"
      using assms(1) V st unfolding step_ok_def by simp
    moreover have "cmod (?v (V st) s1 - ?v st s2) \<le> dropped_mass s2 - dropped_mass s1"
      using assms(2) st unfolding step_ok_def by simp
    ultimately show ?thesis
      using norm_triangle_ineq [of "?v (U (V st)) s - ?v (V st) s1" "?v (V st) s1 - ?v st s2"] by simp
  qed
  then show ?thesis using assms(1,2) unfolding step_ok_def by simp
qed

lemma refines_skip: "refines en N Done (\<lambda>st. st)"
  by (rule refinesI) (auto simp: isometric_id step_ok_def)

lemma refines_comp:
  assumes "refines en N F U" "refines en N G V"
  shows "refines en N (\<lambda>s. bind_run (F s) G) (\<lambda>st. U (V st))"
proof (rule refinesI)
  show "isometric (unat N) (\<lambda>st. U (V st))" using isometric_comp [OF assms [THEN refines_isometric]] .
  fix s assume inv: "sum_inv N s"
  show "(\<exists>s'. bind_run (F s) G = Done s' \<and> step_ok en N (\<lambda>st. U (V st)) s s') \<or>
      (\<exists>e. bind_run (F s) G = Failed e \<and> over_cap en e)"
    using refines_run [OF assms(1) inv]
  proof (elim disjE exE conjE)
    fix s1 assume s1: "F s = Done s1" "step_ok en N U s s1"
    then have "sum_inv N s1" by (simp add: step_ok_def)
    from refines_run [OF assms(2) this] show ?thesis
      using s1 step_ok_trans [OF s1(2) _ refines_isometric [OF assms(2)]] by auto
  qed auto
qed

lemma string_value_phase:
  assumes "length st = 2 ^ n" "cnj c * c = 1"
  shows "string_value n (scale c st) k = string_value n st k"
  using assms by (simp add: string_value_def raw_scale braket_scale mult.commute [of c])

lemma refines_phase:
  assumes "refines en N F U" "cnj c * c = 1" "\<And>st. length st = 2 ^ unat N \<Longrightarrow> V st = scale c (U st)"
  shows "refines en N F V"
proof (rule refinesI)
  note iU = refines_isometric [OF assms(1)]
  have "isometric (unat N) (\<lambda>st. scale c (U st))" using isometric_comp [OF isometric_scale [OF assms(2)] iU] .
  then show "isometric (unat N) V" using assms(3) by (simp add: isometric_def)
  fix s assume "sum_inv N s"
  have e: "string_value (unat N) (V st) = string_value (unat N) (U st)" if "length st = 2 ^ unat N" for st
    using string_value_phase [OF isometric_facts(1) [OF iU that] assms(2)] assms(3) [OF that] by (intro ext) simp
  then have "step_ok en N U s s' = step_ok en N V s s'" for s' by (simp add: step_ok_def)
  then show "(\<exists>s'. F s = Done s' \<and> step_ok en N V s s') \<or> (\<exists>e. F s = Failed e \<and> over_cap en e)"
    using refines_run [OF assms(1) \<open>sum_inv N s\<close>] by simp
qed

lemma refines_cong:
  assumes "refines en N F U" "\<And>st. length st = 2 ^ unat N \<Longrightarrow> V st = U st"
  shows "refines en N F V"
  using refines_phase [OF assms(1), of 1 V] assms(2) by simp

text \<open>A step that keeps the value of the sum exactly.\<close>

lemma refines_exact:
  assumes "isometric (unat N) U"
    "\<And>s. sum_inv N s \<Longrightarrow> \<exists>s'. F s = Done s' \<and> sum_inv N s' \<and> dropped_mass s' = dropped_mass s \<and>
       (\<forall>st. length st = 2 ^ unat N \<longrightarrow> sum_value (string_value (unat N) (U st)) s = sum_value (string_value (unat N) st) s')"
  shows "refines en N F U"
proof (rule refinesI [OF assms(1)])
  fix s assume "sum_inv N s"
  from assms(2) [OF this] show "(\<exists>s'. F s = Done s' \<and> step_ok en N U s s') \<or> (\<exists>e. F s = Failed e \<and> over_cap en e)"
    by (auto simp: step_ok_def)
qed

section \<open>The loops of the Clifford gates\<close>

lemma add_weighted_mass [simp]: "dropped_mass (add_weighted k c f s) = dropped_mass s"
  by (simp add: add_weighted_def)

lemma map_single_loop_ok:
  assumes t: "table1 img g" and q: "q < unat N" and l: "length st = 2 ^ unat N" and u: "unitary1 g"
  shows "\<forall>(k, w) \<in> set ts. canonical_key k \<and> key_n k = N \<Longrightarrow> sum_inv N out \<Longrightarrow>
    \<exists>out'. map_single_loop q img ts out = Done out' \<and> sum_inv N out' \<and> dropped_mass out' = dropped_mass out \<and>
      sum_value (string_value (unat N) st) out' =
        sum_value (string_value (unat N) st) out + list_value (string_value (unat N) (dense_1q q g st)) ts"
proof (induction ts arbitrary: out)
  case (Cons t' ts)
  obtain k w where kw: "t' = (k, w)" by (cases t')
  have k: "canonical_key k" "key_n k = N" "q < unat (key_n k)" using Cons.prems(1) q by (auto simp: kw)
  obtain nx nz f where im: "single_apply img (xbit k q) (zbit k q) = (nx, nz, f)" by (cases "single_apply img (xbit k q) (zbit k q)") auto
  obtain k' where k': "key_set k q nx nz = Done k'" "canonical_key k'" "key_n k' = key_n k"
    "\<forall>p < unat (key_n k). xbit k' p = ((xbit k)(q := nx)) p \<and> zbit k' p = ((zbit k)(q := nz)) p"
    using key_set_done [OF k(1,3)] by blast
  let ?out = "add_weighted k' (coeff w * f) (freq w) out"
  have inv: "sum_inv N ?out" using add_weighted_inv [OF Cons.prems(2)] k' k by simp
  have m: "moves1 g (xbit k q) (zbit k q) (xbit k' q) (zbit k' q) f"
    using t im k' q k by (auto simp: table1_def split: prod.splits)
  have "raw (unat N) (xbit k) (zbit k) (dense_1q q g st) = scale f (dense_1q q g (raw (unat N) (xbit k') (zbit k') st))"
    using k'(4) k m by (intro raw_dense_1q [OF l q]) auto
  from string_value_conj [OF isometric_dense_1q [OF q u] l this]
  have e: "string_value (unat N) (dense_1q q g st) k = f * string_value (unat N) st k'" .
  have "sum_value (string_value (unat N) st) ?out = sum_value (string_value (unat N) st) out + coeff w * f * string_value (unat N) st k'"
    using Cons.prems(2) by (intro add_weighted_value) (simp add: sum_inv_def)
  then show ?case
    using Cons.IH [OF _ inv] Cons.prems(1) key_x_bit [OF k(1,3)] im k'(1)
    by (auto simp: kw or_panic_def e)
qed simp

lemma untouched_bits:
  "sum_inv N s \<Longrightarrow> k \<in> dom (sum_terms s) \<Longrightarrow> q < unat N \<Longrightarrow> \<not> touches_qubit s q \<Longrightarrow> \<not> xbit k q \<and> \<not> zbit k q"
  by (auto simp: sum_inv_def)

lemma sum_value_cong: "(\<And>k. k \<in> dom (sum_terms s) \<Longrightarrow> e k = e' k) \<Longrightarrow> sum_value e s = sum_value e' s"
  unfolding sum_value_def by (intro sum.cong) auto

lemma drained_keys:
  assumes "faithful drn" "sum_inv N s" "(k, w) \<in> set (drn (sum_terms s))"
  shows "canonical_key k \<and> key_n k = N \<and> k \<in> dom (sum_terms s)"
proof -
  have "k \<in> fst ` set (drn (sum_terms s))" using assms(3) by (rule image_eqI [rotated]) simp
  also have "\<dots> = dom (sum_terms s)" using assms(1,2) by (intro faithful_facts) (simp_all add: sum_inv_def)
  finally show ?thesis using assms(2) by (auto simp: sum_inv_def)
qed

lemma rebuilt: "sum_inv N (sum_new\<lparr>dropped_mass := d\<rparr>)" "sum_value e (sum_new\<lparr>dropped_mass := d\<rparr>) = 0"
  by (simp_all add: sum_inv_def sum_new_def sum_value_def)

lemma map_single_refines:
  assumes d: "faithful drn" and t: "table1 img g" and u: "unitary1 g" and q: "q < unat N"
  shows "refines en N (map_single drn q img) (dense_1q q g)"
proof (rule refines_exact)
  show "isometric (unat N) (dense_1q q g)" using isometric_dense_1q [OF q u] .
  fix s assume inv: "sum_inv N s"
  let ?n = "unat N"
  show "\<exists>s'. map_single drn q img s = Done s' \<and> sum_inv N s' \<and> dropped_mass s' = dropped_mass s \<and>
       (\<forall>st. length st = 2 ^ ?n \<longrightarrow> sum_value (string_value ?n (dense_1q q g st)) s = sum_value (string_value ?n st) s')"
  proof (cases "touches_qubit s q")
    case True
    let ?out = "sum_new\<lparr>dropped_mass := dropped_mass s\<rparr>"
    have ks: "\<forall>(k, w) \<in> set (drn (sum_terms s)). canonical_key k \<and> key_n k = N" using drained_keys [OF d inv] by blast
    have fin: "finite (dom (sum_terms s))" using inv by (simp add: sum_inv_def)
    note loop = map_single_loop_ok [OF t q _ u ks rebuilt(1) [of N "dropped_mass s"]]
    obtain s' where s': "map_single_loop q img (drn (sum_terms s)) ?out = Done s'" "sum_inv N s'" "dropped_mass s' = dropped_mass s"
      using loop [of "replicate (2 ^ ?n) 0"] by auto
    have "sum_value (string_value ?n st) s' = sum_value (string_value ?n (dense_1q q g st)) s" if "length st = 2 ^ ?n" for st
      using loop [OF that] s'(1) faithful_facts(2) [OF d fin] by (auto simp: rebuilt)
    then show ?thesis using s' True by (simp add: map_single_def)
  next
    case False
    have "string_value ?n (dense_1q q g st) k = string_value ?n st k"
      if k: "k \<in> dom (sum_terms s)" and l: "length st = 2 ^ ?n" for k st
    proof -
      have "moves1 g (xbit k q) (zbit k q) (xbit k q) (zbit k q) 1"
        using t untouched_bits [OF inv k q False] by (auto simp: table1_def dest!: spec [of _ False])
      from raw_dense_1q [OF l q, where fx = "xbit k" and fx' = "xbit k" and fz = "zbit k" and fz' = "zbit k", OF refl refl this]
      show ?thesis using string_value_conj [OF isometric_dense_1q [OF q u] l, of k 1 k] by simp
    qed
    then show ?thesis using False inv by (auto simp: map_single_def intro: sum_value_cong)
  qed
qed

lemma key_set_two:
  assumes "canonical_key k" "c < unat (key_n k)" "t < unat (key_n k)" "c \<noteq> t"
  shows "\<exists>k1 k2. key_set k c x0 z0 = Done k1 \<and> key_set k1 t x1 z1 = Done k2 \<and> canonical_key k2 \<and> key_n k2 = key_n k \<and>
    (\<forall>p < unat (key_n k). xbit k2 p = ((xbit k)(c := x0, t := x1)) p \<and> zbit k2 p = ((zbit k)(c := z0, t := z1)) p)"
proof -
  obtain k1 where k1: "key_set k c x0 z0 = Done k1" "canonical_key k1" "key_n k1 = key_n k"
    "\<forall>p < unat (key_n k). xbit k1 p = ((xbit k)(c := x0)) p \<and> zbit k1 p = ((zbit k)(c := z0)) p"
    using key_set_done [OF assms(1,2)] by blast
  moreover obtain k2 where "key_set k1 t x1 z1 = Done k2" "canonical_key k2" "key_n k2 = key_n k1"
    "\<forall>p < unat (key_n k1). xbit k2 p = ((xbit k1)(t := x1)) p \<and> zbit k2 p = ((zbit k1)(t := z1)) p"
    using key_set_done [of k1 t x1 z1] k1 assms(3) by auto
  ultimately show ?thesis by (intro exI [of _ k1] exI [of _ k2]) (simp add: fun_upd_def)
qed

lemma map_two_loop_ok:
  assumes t: "table2 img g" and q: "c < unat N" "t < unat N" "c \<noteq> t" and l: "length st = 2 ^ unat N" and u: "unitary2 g"
  shows "\<forall>(k, w) \<in> set ts. canonical_key k \<and> key_n k = N \<Longrightarrow> sum_inv N out \<Longrightarrow>
    \<exists>out'. map_two_loop c t img ts out = Done out' \<and> sum_inv N out' \<and> dropped_mass out' = dropped_mass out \<and>
      sum_value (string_value (unat N) st) out' =
        sum_value (string_value (unat N) st) out + list_value (string_value (unat N) (dense_2q c t g st)) ts"
proof (induction ts arbitrary: out)
  case (Cons t' ts)
  obtain k w where kw: "t' = (k, w)" by (cases t')
  have k: "canonical_key k" "key_n k = N" "c < unat (key_n k)" "t < unat (key_n k)" using Cons.prems(1) q by (auto simp: kw)
  define a where "a = two_apply img (xbit k c) (zbit k c) (xbit k t) (zbit k t)"
  obtain k1 k' where k': "key_set k c (g2_xc a) (g2_zc a) = Done k1" "key_set k1 t (g2_xt a) (g2_zt a) = Done k'"
    "canonical_key k'" "key_n k' = key_n k"
    "\<forall>p < unat (key_n k). xbit k' p = ((xbit k)(c := g2_xc a, t := g2_xt a)) p \<and> zbit k' p = ((zbit k)(c := g2_zc a, t := g2_zt a)) p"
    using key_set_two [OF k(1,3,4) q(3)] by blast
  let ?out = "add_weighted k' (coeff w * g2_f a) (freq w) out"
  have inv: "sum_inv N ?out" using add_weighted_inv [OF Cons.prems(2)] k' k by simp
  have m: "moves2 g (xbit k c) (zbit k c) (xbit k t) (zbit k t) (xbit k' c) (zbit k' c) (xbit k' t) (zbit k' t) (g2_f a)"
    using t k' q k by (simp add: table2_def Let_def a_def)
  have "raw (unat N) (xbit k) (zbit k) (dense_2q c t g st) = scale (g2_f a) (dense_2q c t g (raw (unat N) (xbit k') (zbit k') st))"
    using k'(5) k m by (intro raw_dense_2q [OF l q]) auto
  from string_value_conj [OF isometric_dense_2q [OF q u] l this]
  have e: "string_value (unat N) (dense_2q c t g st) k = g2_f a * string_value (unat N) st k'" .
  have "sum_value (string_value (unat N) st) ?out =
      sum_value (string_value (unat N) st) out + coeff w * g2_f a * string_value (unat N) st k'"
    using Cons.prems(2) by (intro add_weighted_value) (simp add: sum_inv_def)
  then show ?case
    using Cons.IH [OF _ inv] Cons.prems(1) key_x_bit [OF k(1,3)] key_x_bit [OF k(1,4)] k'(1,2)
    by (auto simp: kw or_panic_def e a_def [symmetric] Let_def)
qed simp

lemma map_two_refines:
  assumes d: "faithful drn" and t: "table2 img g" and u: "unitary2 g" and q: "c < unat N" "t < unat N" "c \<noteq> t"
  shows "refines en N (map_two drn c t img) (dense_2q c t g)"
proof (rule refines_exact)
  show "isometric (unat N) (dense_2q c t g)" using isometric_dense_2q [OF q u] .
  fix s assume inv: "sum_inv N s"
  let ?n = "unat N"
  show "\<exists>s'. map_two drn c t img s = Done s' \<and> sum_inv N s' \<and> dropped_mass s' = dropped_mass s \<and>
       (\<forall>st. length st = 2 ^ ?n \<longrightarrow> sum_value (string_value ?n (dense_2q c t g st)) s = sum_value (string_value ?n st) s')"
  proof (cases "touches_qubit s c \<or> touches_qubit s t")
    case True
    let ?out = "sum_new\<lparr>dropped_mass := dropped_mass s\<rparr>"
    have ks: "\<forall>(k, w) \<in> set (drn (sum_terms s)). canonical_key k \<and> key_n k = N" using drained_keys [OF d inv] by blast
    have fin: "finite (dom (sum_terms s))" using inv by (simp add: sum_inv_def)
    note loop = map_two_loop_ok [OF t q _ u ks rebuilt(1) [of N "dropped_mass s"]]
    obtain s' where s': "map_two_loop c t img (drn (sum_terms s)) ?out = Done s'" "sum_inv N s'" "dropped_mass s' = dropped_mass s"
      using loop [of "replicate (2 ^ ?n) 0"] by auto
    have "sum_value (string_value ?n st) s' = sum_value (string_value ?n (dense_2q c t g st)) s" if "length st = 2 ^ ?n" for st
      using loop [OF that] s'(1) faithful_facts(2) [OF d fin] by (auto simp: rebuilt)
    then show ?thesis using s' True by (auto simp: map_two_def)
  next
    case False
    have "string_value ?n (dense_2q c t g st) k = string_value ?n st k"
      if k: "k \<in> dom (sum_terms s)" and l: "length st = 2 ^ ?n" for k st
    proof -
      have "two_apply img False False False False = gen2_ident" by (simp add: two_apply_def)
      then have "moves2 g (xbit k c) (zbit k c) (xbit k t) (zbit k t) (xbit k c) (zbit k c) (xbit k t) (zbit k t) 1"
        using t untouched_bits [OF inv k q(1)] untouched_bits [OF inv k q(2)] False
        by (auto simp: table2_def Let_def gen2_ident_def gen2_new_def dest!: spec [of _ False])
      from raw_dense_2q [OF l q, where fx = "xbit k" and fx' = "xbit k" and fz = "zbit k" and fz' = "zbit k", OF refl refl this]
      show ?thesis using string_value_conj [OF isometric_dense_2q [OF q u] l, of k 1 k] by simp
    qed
    then show ?thesis using False inv by (auto simp: map_two_def intro: sum_value_cong)
  qed
qed

end
