(* ===== verification/PauliRotate.thy ===== *)
theory PauliRotate
  imports PauliRefine
begin

text \<open>
  Rotations of Pauli propagation: the branch step implements \<open>exp(-i \<theta> R / 2)\<close> for a Hermitian string
  \<open>R\<close>, up to the mass of the children it does not create.
\<close>

section \<open>Generators\<close>

abbreviation gen_raw :: "nat \<Rightarrow> gen \<Rightarrow> complex list \<Rightarrow> complex list" where
  "gen_raw n r \<equiv> raw n (gbit (gen_x r)) (gbit (gen_z r))"

definition gen_ok :: "nat \<Rightarrow> gen \<Rightarrow> bool" where
  "gen_ok n r \<longleftrightarrow> canonical n (gen_x r) \<and> canonical n (gen_z r) \<and>
     cnj (gen_factor r) * cross n (gbit (gen_z r)) (gbit (gen_x r)) = gen_factor r \<and> cnj (gen_factor r) * gen_factor r = 1"

definition gen_op :: "nat \<Rightarrow> gen \<Rightarrow> complex list \<Rightarrow> complex list" where
  "gen_op n r st = scale (gen_factor r) (gen_raw n r st)"

lemma length_gen_op [simp]: "length (gen_op n r st) = length st"
  by (simp add: gen_op_def)

lemma gen_op_hermitian:
  assumes "gen_ok n r" "length a = 2 ^ n" "length b = 2 ^ n"
  shows "braket (gen_op n r a) b = braket a (gen_op n r b)"
  using assms by (simp add: gen_op_def braket_scale braket_raw gen_ok_def mult.assoc [symmetric])

lemma gen_op_involution:
  assumes "gen_ok n r" "length st = 2 ^ n"
  shows "gen_op n r (gen_op n r st) = st"
proof -
  let ?f = "gen_factor r" and ?c = "cross n (gbit (gen_z r)) (gbit (gen_x r))"
  have e: "cnj ?f * ?c = ?f" "cnj ?f * ?f = 1" using assms(1) by (simp_all add: gen_ok_def)
  have "?f * ?c = cnj ?f * ?c * ?c" by (simp only: e)
  also have "\<dots> = cnj ?f" by (simp add: mult.assoc)
  finally have "?f * (?f * ?c) = 1" using e(2) by (simp add: mult.commute)
  moreover have "gen_op n r (gen_op n r st) = scale (?f * (?f * ?c)) (raw n (\<lambda>q. bxor (gbit (gen_x r) q) (gbit (gen_x r) q))
      (\<lambda>q. bxor (gbit (gen_z r) q) (gbit (gen_z r) q)) st)"
    using assms(2) by (simp only: gen_op_def raw_scale length_ops raw_raw scale_scale)
  ultimately show ?thesis using raw_none [OF assms(2)] by simp
qed

section \<open>Rotations of states\<close>

definition rot :: "nat \<Rightarrow> gen \<Rightarrow> real \<Rightarrow> complex list \<Rightarrow> complex list" where
  "rot n r \<theta> st = vplus (scale (of_real (cos (\<theta> / 2))) st) (scale (- \<i> * of_real (sin (\<theta> / 2))) (gen_op n r st))"

lemma length_rot [simp]: "length (rot n r \<theta> st) = length st"
  by (simp add: rot_def)

lemma gen_op_linear:
  assumes "length a = 2 ^ n" "length b = 2 ^ n"
  shows "gen_op n r (scale c a) = scale c (gen_op n r a)" "gen_op n r (vplus a b) = vplus (gen_op n r a) (gen_op n r b)"
  using assms by (simp_all add: gen_op_def raw_scale raw_vplus scale_vplus mult.commute)

lemma rot_add:
  assumes "gen_ok n r" "length st = 2 ^ n"
  shows "rot n r \<theta> (rot n r \<phi> st) = rot n r (\<theta> + \<phi>) st"
proof (rule nth_equalityI)
  fix x assume "x < length (rot n r \<theta> (rot n r \<phi> st))"
  then have x: "x < length st" by simp
  have half: "(\<theta> + \<phi>) / 2 = \<theta> / 2 + \<phi> / 2" by (simp add: add_divide_distrib)
  have "gen_op n r (rot n r \<phi> st) = vplus (scale (of_real (cos (\<phi> / 2))) (gen_op n r st)) (scale (- \<i> * of_real (sin (\<phi> / 2))) st)"
    using assms(2) by (simp add: rot_def gen_op_linear gen_op_involution [OF assms])
  then show "rot n r \<theta> (rot n r \<phi> st) ! x = rot n r (\<theta> + \<phi>) st ! x"
    using x unfolding rot_def [of n r \<theta>] half cos_add sin_add rot_def [of n r "\<theta> + \<phi>"]
    by (simp add: rot_def algebra_simps)
qed simp

lemma rot_0: "rot n r 0 st = st"
  by (rule nth_equalityI) (simp_all add: rot_def)

lemma rot_adjoint:
  assumes "gen_ok n r" "length a = 2 ^ n" "length b = 2 ^ n"
  shows "braket (rot n r \<theta> a) b = braket a (rot n r (- \<theta>) b)"
  using assms gen_op_hermitian [OF assms]
  by (simp add: rot_def braket_vplus braket_scale algebra_simps)

lemma isometric_rot:
  assumes "gen_ok n r"
  shows "isometric n (rot n r \<theta>)"
  using rot_adjoint [OF assms] rot_add [OF assms] by (simp add: isometric_def rot_0)

text \<open>Conjugation by a rotation.\<close>

definition anti :: "nat \<Rightarrow> gen \<Rightarrow> pauli_key \<Rightarrow> bool" where
  "anti n r k = parity_of (\<lambda>q. bxor (xbit k q \<and> gbit (gen_z r) q) (zbit k q \<and> gbit (gen_x r) q)) n"

lemma key_past_gen:
  assumes "length st = 2 ^ n"
  shows "raw n (xbit k) (zbit k) (gen_op n r st) = scale (sign (anti n r k)) (gen_op n r (raw n (xbit k) (zbit k) st))"
proof -
  have c: "parity_of (\<lambda>q. gbit (gen_z r) q \<and> xbit k q) n = parity_of (\<lambda>q. xbit k q \<and> gbit (gen_z r) q) n"
    by (rule parity_of_cong) auto
  have s: "sign (anti n r k) = cross n (gbit (gen_z r)) (xbit k) * cross n (zbit k) (gbit (gen_x r))"
    unfolding cross_def c anti_def by (simp only: parity_of_bxor sign_bxor)
  have "raw n (\<lambda>q. bxor (gbit (gen_x r) q) (xbit k q)) (\<lambda>q. bxor (gbit (gen_z r) q) (zbit k q)) st =
      raw n (\<lambda>q. bxor (xbit k q) (gbit (gen_x r) q)) (\<lambda>q. bxor (zbit k q) (gbit (gen_z r) q)) st"
    by (rule raw_cong) auto
  then show ?thesis
    using assms unfolding gen_op_def s
    by (simp only: raw_scale length_ops raw_raw scale_scale) (simp add: mult.commute mult.left_commute)
qed

lemma string_value_rot_commute:
  assumes "gen_ok n r" "length st = 2 ^ n" "\<not> anti n r k"
  shows "string_value n (rot n r \<theta> st) k = string_value n st k"
proof -
  have "raw n (xbit k) (zbit k) (rot n r \<theta> st) = scale 1 (rot n r \<theta> (raw n (xbit k) (zbit k) st))"
    using assms(2,3) by (simp add: rot_def raw_vplus raw_scale key_past_gen)
  from string_value_conj [OF isometric_rot [OF assms(1)] assms(2) this] show ?thesis by simp
qed

lemma string_value_rot_anti:
  assumes g: "gen_ok n r" and l: "length st = 2 ^ n" and a: "anti n r k"
  shows "string_value n (rot n r \<theta> st) k = of_real (cos \<theta>) * string_value n st k +
    \<i> * of_real (sin \<theta>) * gen_factor r * cross n (gbit (gen_z r)) (xbit k) *
      braket st (raw n (\<lambda>q. bxor (gbit (gen_x r) q) (xbit k q)) (\<lambda>q. bxor (gbit (gen_z r) q) (zbit k q)) st)"
proof -
  let ?K = "raw n (xbit k) (zbit k) st"
  have "raw n (xbit k) (zbit k) (rot n r \<theta> st) = rot n r (- \<theta>) ?K"
    using l a by (simp add: rot_def raw_vplus raw_scale key_past_gen)
  then have "string_value n (rot n r \<theta> st) k = braket st (rot n r (- \<theta>) (rot n r (- \<theta>) ?K))"
    using rot_adjoint [OF g l, of "rot n r (- \<theta>) ?K" \<theta>] l by (simp add: string_value_def)
  also have "\<dots> = braket st (rot n r (- 2 * \<theta>) ?K)" using rot_add [OF g, of ?K "- \<theta>" "- \<theta>"] l by simp
  also have "\<dots> = of_real (cos \<theta>) * string_value n st k + \<i> * of_real (sin \<theta>) * braket st (gen_op n r ?K)"
    using l by (simp add: rot_def braket_vplus braket_scale string_value_def)
  also have "gen_op n r ?K = scale (gen_factor r * cross n (gbit (gen_z r)) (xbit k))
      (raw n (\<lambda>q. bxor (gbit (gen_x r) q) (xbit k q)) (\<lambda>q. bxor (gbit (gen_z r) q) (zbit k q)) st)"
    by (simp only: gen_op_def raw_raw [OF l] scale_scale)
  finally show ?thesis using l by (simp only: braket_scale length_ops mult.assoc)
qed


section \<open>The branch step\<close>

lemma check_cap_cases:
  "check_cap en s = Done () \<or> (\<exists>e. check_cap en s = Failed e \<and> over_cap en e)"
  by (auto simp: check_cap_def over_cap_def split: option.split)

lemma key_anti:
  assumes "gen_ok n r" "canonical_key k" "unat (key_n k) = n"
  shows "key_anticommutes_with k (gen_x r) (gen_z r) = Some (anti n r k)"
    "\<exists>rk. mul_raw_packed (gen_x r) (gen_z r) k = Some (rk, if parity_of (\<lambda>q. gbit (gen_z r) q \<and> xbit k q) n then - 1 else 1) \<and>
       canonical_key rk \<and> key_n rk = key_n k \<and>
       (\<forall>q < n. xbit rk q = bxor (gbit (gen_x r) q) (xbit k q) \<and> zbit rk q = bxor (gbit (gen_z r) q) (zbit k q))"
proof -
  have c: "canonical (unat (key_n k)) (gen_x r)" "canonical (unat (key_n k)) (gen_z r)" using assms by (simp_all add: gen_ok_def)
  then have w: "key_width k \<le> length (gen_x r)" "key_width k \<le> length (gen_z r)" by (simp_all add: canonical_def key_width_def)
  show "key_anticommutes_with k (gen_x r) (gen_z r) = Some (anti n r k)"
    using key_anticommutes_with_parity [OF assms(2) w] assms(3) by (simp only: anti_def)
  have "mul_raw_packed (gen_x r) (gen_z r) k \<noteq> None"
    using w by (simp add: mul_raw_packed_def Let_def split: prod.split)
  then obtain rk sg where m: "mul_raw_packed (gen_x r) (gen_z r) k = Some (rk, sg)" by (metis not_None_eq prod.exhaust)
  note f = mul_raw_facts [OF assms(2) c m]
  show "\<exists>rk. mul_raw_packed (gen_x r) (gen_z r) k = Some (rk, if parity_of (\<lambda>q. gbit (gen_z r) q \<and> xbit k q) n then - 1 else 1) \<and>
       canonical_key rk \<and> key_n rk = key_n k \<and>
       (\<forall>q < n. xbit rk q = bxor (gbit (gen_x r) q) (xbit k q) \<and> zbit rk q = bxor (gbit (gen_z r) q) (zbit k q))"
    using m f(1,2,5) f(3,4) assms(3) by (intro exI [of _ rk]) simp
qed

text \<open>The value of an anticommuting term after the rotation, with the term the product loop makes.\<close>

lemma string_value_children:
  assumes "gen_ok n r" "length st = 2 ^ n" "anti n r k"
    and "\<forall>q < n. xbit rk q = bxor (gbit (gen_x r) q) (xbit k q) \<and> zbit rk q = bxor (gbit (gen_z r) q) (zbit k q)"
  shows "string_value n (rot n r \<theta> st) k = of_real (cos \<theta>) * string_value n st k +
    \<i> * of_real (sin \<theta>) * gen_factor r * of_int (if parity_of (\<lambda>q. gbit (gen_z r) q \<and> xbit k q) n then - 1 else 1) * string_value n st rk"
proof -
  have "raw n (xbit rk) (zbit rk) st =
      raw n (\<lambda>q. bxor (gbit (gen_x r) q) (xbit k q)) (\<lambda>q. bxor (gbit (gen_z r) q) (zbit k q)) st"
    by (rule raw_cong) (use assms(4) in auto)
  then show ?thesis
    unfolding string_value_rot_anti [OF assms(1-3)] by (simp add: string_value_def cross_def sign_def)
qed

lemma sum_inv_mass: "sum_inv N (s\<lparr>dropped_mass := d\<rparr>) = sum_inv N s"
  by (simp add: sum_inv_def touches_qubit_def cong: if_cong)

definition branch_ok :: "engine \<Rightarrow> u32 \<Rightarrow> gen \<Rightarrow> real \<Rightarrow> (pauli_key \<times> weighted) list \<Rightarrow> pauli_sum \<Rightarrow> pauli_sum \<Rightarrow> bool" where
  "branch_ok en N r \<theta> ts out out' \<longleftrightarrow> sum_inv N out' \<and> (max_freq en = None \<longrightarrow> dropped_mass out' = dropped_mass out) \<and>
     (\<forall>st. length st = 2 ^ unat N \<longrightarrow> norm_sq st = 1 \<longrightarrow>
        cmod (sum_value (string_value (unat N) st) out + list_value (string_value (unat N) (rot (unat N) r \<theta> st)) ts -
          sum_value (string_value (unat N) st) out') \<le> dropped_mass out' - dropped_mass out)"

text \<open>One term: the sum after it, the value it must have added and the mass it may have dropped.\<close>

lemma branch_ok_step:
  assumes "branch_ok en N r \<theta> ts out1 out'"
    and "max_freq en = None \<Longrightarrow> dropped_mass out1 = dropped_mass out"
    and "\<And>st. length st = 2 ^ unat N \<Longrightarrow> norm_sq st = 1 \<Longrightarrow>
      cmod (sum_value (string_value (unat N) st) out + coeff w * string_value (unat N) (rot (unat N) r \<theta> st) k -
        sum_value (string_value (unat N) st) out1) \<le> dropped_mass out1 - dropped_mass out"
  shows "branch_ok en N r \<theta> ((k, w) # ts) out out'"
proof -
  let ?v = "\<lambda>st. sum_value (string_value (unat N) st)" and ?e = "\<lambda>st. string_value (unat N) (rot (unat N) r \<theta> st)"
  have "cmod (?v st out + list_value (?e st) ((k, w) # ts) - ?v st out') \<le> dropped_mass out' - dropped_mass out"
    if st: "length st = 2 ^ unat N" "norm_sq st = 1" for st
  proof -
    have "?v st out + list_value (?e st) ((k, w) # ts) - ?v st out' =
        (?v st out + coeff w * ?e st k - ?v st out1) + (?v st out1 + list_value (?e st) ts - ?v st out')"
      by simp
    then have "cmod (?v st out + list_value (?e st) ((k, w) # ts) - ?v st out') \<le>
        cmod (?v st out + coeff w * ?e st k - ?v st out1) + cmod (?v st out1 + list_value (?e st) ts - ?v st out')"
      by (simp only: norm_triangle_ineq)
    then show ?thesis
      using assms(3) [OF st] assms(1) st unfolding branch_ok_def by fastforce
  qed
  then show ?thesis using assms(1,2) unfolding branch_ok_def by simp
qed

lemma branch_loop_ok:
  assumes g: "gen_ok (unat N) r"
  shows "\<forall>(k, w) \<in> set ts. canonical_key k \<and> key_n k = N \<Longrightarrow> sum_inv N out \<Longrightarrow>
    (\<exists>out'. branch_loop en r (cos \<theta>) (sin \<theta>) ts out = Done out' \<and> branch_ok en N r \<theta> ts out out') \<or>
    (\<exists>e. branch_loop en r (cos \<theta>) (sin \<theta>) ts out = Failed e \<and> over_cap en e)"
proof (induction ts arbitrary: out)
  case Nil
  then show ?case by (simp add: branch_ok_def)
next
  case (Cons t' ts)
  obtain k w where kw: "t' = (k, w)" by (cases t')
  let ?n = "unat N" and ?v = "\<lambda>st. sum_value (string_value (unat N) st)"
  have k: "canonical_key k" "key_n k = N" and ts: "\<forall>(k, w) \<in> set ts. canonical_key k \<and> key_n k = N"
    using Cons.prems(1) by (auto simp: kw)
  have fin: "finite (dom (sum_terms s))" if "sum_inv N s" for s using that by (simp add: sum_inv_def)
  note anti = key_anti [OF g k(1)]
  show ?case
  proof (cases "anti ?n r k")
    case False
    let ?out = "add_weighted k (coeff w) (freq w) out"
    have inv: "sum_inv N ?out" by (rule add_weighted_inv [OF Cons.prems(2) k])
    have "branch_ok en N r \<theta> ts ?out out' \<Longrightarrow> branch_ok en N r \<theta> (t' # ts) out out'" for out'
      unfolding kw
      by (rule branch_ok_step [of en N r \<theta> ts ?out])
        (simp_all add: add_weighted_value [OF fin [OF Cons.prems(2)]] string_value_rot_commute [OF g _ False])
    then show ?thesis
      using Cons.IH [OF ts inv] check_cap_cases [of en ?out] anti(1) k(2) False by (auto simp: kw or_panic_def)
  next
    case True
    obtain rk sg where rk: "mul_raw_packed (gen_x r) (gen_z r) k = Some (rk, sg)"
      "sg = (if parity_of (\<lambda>q. gbit (gen_z r) q \<and> xbit k q) ?n then - 1 else 1)"
      "canonical_key rk" "key_n rk = N"
      "\<forall>q < ?n. xbit rk q = bxor (gbit (gen_x r) q) (xbit k q) \<and> zbit rk q = bxor (gbit (gen_z r) q) (zbit k q)"
      using anti(2) k(2) by auto
    let ?out1 = "add_weighted k (coeff w * of_real (cos \<theta>)) (freq w) out"
    define sc where "sc = coeff w * \<i> * of_real (sin \<theta>) * gen_factor r"
    have inv1: "sum_inv N ?out1" by (rule add_weighted_inv [OF Cons.prems(2) k])
    have val: "coeff w * string_value ?n (rot ?n r \<theta> st) k =
        coeff w * of_real (cos \<theta>) * string_value ?n st k + sc * of_int sg * string_value ?n st rk"
      if "length st = 2 ^ ?n" for st
      unfolding string_value_children [OF g that True rk(5), folded rk(2)] sc_def by (simp add: algebra_simps)
    show ?thesis
    proof (cases "case max_freq en of Some m \<Rightarrow> m < freq w + 1 | None \<Rightarrow> False")
      case dropped: True
      let ?out2 = "?out1\<lparr>dropped_mass := dropped_mass ?out1 + cmod sc\<rparr>"
      have inv: "sum_inv N ?out2" using inv1 by (simp only: sum_inv_mass)
      have v2: "?v st (s\<lparr>dropped_mass := d\<rparr>) = ?v st s" for st s d by (simp add: sum_value_def)
      have "branch_ok en N r \<theta> (t' # ts) out out'" if "branch_ok en N r \<theta> ts ?out2 out'" for out'
        unfolding kw
      proof (rule branch_ok_step [OF that])
        show "max_freq en = None \<Longrightarrow> dropped_mass ?out2 = dropped_mass out" using dropped by simp
        fix st assume st: "length st = 2 ^ ?n" "norm_sq st = 1"
        have "cmod sg = 1" unfolding rk(2) by simp
        then have "cmod (sc * of_int sg * string_value ?n st rk) \<le> cmod sc"
          using string_value_bound [OF st, of rk] by (simp add: norm_mult mult_left_le rk(2))
        then show "cmod (?v st out + coeff w * string_value ?n (rot ?n r \<theta> st) k - ?v st ?out2) \<le> dropped_mass ?out2 - dropped_mass out"
          by (simp add: v2 add_weighted_value [OF fin [OF Cons.prems(2)]] val [OF st(1)])
      qed
      then show ?thesis
        using Cons.IH [OF ts inv] dropped anti(1) k(2) True by (auto simp: kw or_panic_def sc_def [symmetric] Let_def)
    next
      case kept: False
      let ?out2 = "add_weighted rk (sc * of_int sg) (freq w + 1) ?out1"
      have inv: "sum_inv N ?out2" by (rule add_weighted_inv [OF inv1 rk(3,4)])
      have "branch_ok en N r \<theta> ts ?out2 out' \<Longrightarrow> branch_ok en N r \<theta> (t' # ts) out out'" for out'
        unfolding kw
        by (rule branch_ok_step [of en N r \<theta> ts ?out2])
          (simp_all add: add_weighted_value [OF fin [OF Cons.prems(2)]] add_weighted_value [OF fin [OF inv1]] val)
      then show ?thesis
        using Cons.IH [OF ts inv] kept check_cap_cases [of en ?out2] anti(1) k(2) True rk(1)
        by (auto simp: kw or_panic_def sc_def [symmetric] Let_def)
    qed
  qed
qed

lemma branch_step_refines:
  assumes d: "faithful drn" and g: "gen_ok (unat N) r"
  shows "refines en N (branch_step en drn r \<theta>) (rot (unat N) r \<theta>)"
proof (rule refinesI [OF isometric_rot [OF g]])
  fix s assume inv: "sum_inv N s"
  let ?n = "unat N" and ?F = "branch_step en drn r \<theta> s"
  have fin: "finite (dom (sum_terms s))" using inv by (simp add: sum_inv_def)
  show "(\<exists>s'. ?F = Done s' \<and> step_ok en N (rot ?n r \<theta>) s s') \<or> (\<exists>e. ?F = Failed e \<and> over_cap en e)"
  proof (cases "overlaps s (gen_x r) (gen_z r)")
    case True
    let ?out = "sum_new\<lparr>dropped_mass := dropped_mass s\<rparr>"
    have ks: "\<forall>(k, w) \<in> set (drn (sum_terms s)). canonical_key k \<and> key_n k = N" using drained_keys [OF d inv] by blast
    have "branch_ok en N r \<theta> (drn (sum_terms s)) ?out s' \<Longrightarrow> step_ok en N (rot ?n r \<theta>) s s'" for s'
      by (auto simp: branch_ok_def step_ok_def truncates_def rebuilt faithful_facts(2) [OF d fin])
    note ok = this
    show ?thesis
      using branch_loop_ok [OF g ks rebuilt(1) [of N "dropped_mass s"], where en = en and \<theta> = \<theta>]
    proof (elim disjE exE conjE)
      fix s' assume s': "branch_loop en r (cos \<theta>) (sin \<theta>) (drn (sum_terms s)) ?out = Done s'"
        "branch_ok en N r \<theta> (drn (sum_terms s)) ?out s'"
      then show ?thesis using check_cap_cases [of en s'] ok [OF s'(2)] True by (auto simp: branch_step_def)
    next
      fix e assume "branch_loop en r (cos \<theta>) (sin \<theta>) (drn (sum_terms s)) ?out = Failed e" "over_cap en e"
      then show ?thesis using True by (auto simp: branch_step_def)
    qed
  next
    case False
    have "string_value ?n (rot ?n r \<theta> st) k = string_value ?n st k"
      if k: "k \<in> dom (sum_terms s)" and l: "length st = 2 ^ ?n" for k st
    proof -
      have c: "canonical_key k" "key_n k = N" using inv k by (auto simp: sum_inv_def)
      have "key_width k \<le> length (gen_x r)" "key_width k \<le> length (gen_z r)"
        using g c by (simp_all add: gen_ok_def canonical_def key_width_def)
      from no_overlap_commutes [OF inv False k this] have "\<not> anti ?n r k" using key_anti(1) [OF g c(1)] c(2) by simp
      then show ?thesis by (rule string_value_rot_commute [OF g l])
    qed
    then have "sum_value (string_value ?n (rot ?n r \<theta> st)) s = sum_value (string_value ?n st) s" if "length st = 2 ^ ?n" for st
      using that by (intro sum_value_cong)
    then show ?thesis using False inv by (simp add: branch_step_def step_ok_def)
  qed
qed

end
