(* ===== verification/PauliGates.thy ===== *)
theory PauliGates
  imports PauliRotate
begin

text \<open>
  The gates that Pauli propagation takes apart: their rotations, products of Hermitian strings, give
  the gate matrices of the state-vector backend up to a global phase.
\<close>

section \<open>The generators\<close>

definition letter_gen :: "nat \<Rightarrow> (nat \<times> char) list \<Rightarrow> gen \<Rightarrow> gen \<Rightarrow> bool" where
  "letter_gen n ps r0 r \<longleftrightarrow> gen_ok n r \<and> gen_factor r = gen_factor r0 * \<i> ^ length (filter (\<lambda>(_, a). a = CHR ''y'') ps) \<and>
     (\<forall>q < n. gbit (gen_x r) q = (gbit (gen_x r0) q \<or> (q, CHR ''x'') \<in> set ps \<or> (q, CHR ''y'') \<in> set ps) \<and>
              gbit (gen_z r) q = (gbit (gen_z r0) q \<or> (q, CHR ''z'') \<in> set ps \<or> (q, CHR ''y'') \<in> set ps))"

lemma canonical_wset:
  assumes "canonical n ws" "q < n"
  shows "q div 64 < length ws" "canonical n (wset ws q)" "gbit (wset ws q) p = (p = q \<or> gbit ws p)"
proof -
  show b: "q div 64 < length ws" using assms by (simp add: canonical_def div_ceil64_bound)
  show "canonical n (wset ws q)" using assms by (auto simp: canonical_def wbit_wset [OF b])
  show "gbit (wset ws q) p = (p = q \<or> gbit ws p)" by (rule wbit_wset [OF b])
qed

lemma cross_upd:
  assumes "q < n" "\<And>p. (fz p \<and> fx p) = bxor (gz p \<and> gx p) (p = q \<and> c)"
  shows "cross n fz fx = cross n gz gx * sign c"
proof -
  have "parity_of (\<lambda>p. fz p \<and> fx p) n = bxor (parity_of (\<lambda>p. gz p \<and> gx p) n) (parity_of (\<lambda>p. p = q \<and> c) n)"
    unfolding parity_of_bxor [symmetric] by (rule parity_of_cong) (use assms(2) in auto)
  then show ?thesis using assms(1) unfolding cross_def parity_of_one by (simp add: sign_def)
qed

lemma gen_ok_letter:
  assumes g: "gen_ok n r" and q: "q < n" and free: "\<not> gbit (gen_x r) q" "\<not> gbit (gen_z r) q"
  shows "gen_ok n (r\<lparr>gen_z := wset (gen_z r) q\<rparr>)" "gen_ok n (r\<lparr>gen_x := wset (gen_x r) q\<rparr>)"
    "gen_ok n (r\<lparr>gen_x := wset (gen_x r) q, gen_z := wset (gen_z r) q, gen_factor := gen_factor r * \<i>\<rparr>)"
proof -
  have c: "canonical n (gen_x r)" "canonical n (gen_z r)" using g by (simp_all add: gen_ok_def)
  note w = canonical_wset [OF c(1) q] canonical_wset [OF c(2) q]
  have "cross n (gbit (wset (gen_z r) q)) (gbit (gen_x r)) = cross n (gbit (gen_z r)) (gbit (gen_x r)) * sign False"
    "cross n (gbit (gen_z r)) (gbit (wset (gen_x r) q)) = cross n (gbit (gen_z r)) (gbit (gen_x r)) * sign False"
    "cross n (gbit (wset (gen_z r) q)) (gbit (wset (gen_x r) q)) = cross n (gbit (gen_z r)) (gbit (gen_x r)) * sign True"
    by (rule cross_upd [OF q]; use free in \<open>auto simp: w\<close>)+
  then show "gen_ok n (r\<lparr>gen_z := wset (gen_z r) q\<rparr>)" "gen_ok n (r\<lparr>gen_x := wset (gen_x r) q\<rparr>)"
    "gen_ok n (r\<lparr>gen_x := wset (gen_x r) q, gen_z := wset (gen_z r) q, gen_factor := gen_factor r * \<i>\<rparr>)"
    using g w by (simp_all add: gen_ok_def mult.commute mult.left_commute)
qed

lemma gen_product_loop_ok:
  "distinct (map fst ps) \<Longrightarrow> \<forall>(q, a) \<in> set ps. q < n \<and> a \<in> {CHR ''x'', CHR ''y'', CHR ''z''} \<and> \<not> gbit (gen_x r0) q \<and> \<not> gbit (gen_z r0) q \<Longrightarrow>
     gen_ok n r0 \<Longrightarrow> \<exists>r. gen_product_loop ps r0 = Done r \<and> letter_gen n ps r0 r"
proof (induction ps r0 rule: gen_product_loop.induct)
  case (1 g)
  then show ?case by (simp add: letter_gen_def)
next
  case (2 q a ps g)
  have q: "q < n" "\<not> gbit (gen_x g) q" "\<not> gbit (gen_z g) q" using "2.prems"(2) by auto
  have c: "canonical n (gen_x g)" "canonical n (gen_z g)" using "2.prems"(3) by (simp_all add: gen_ok_def)
  note w = canonical_wset [OF c(1) q(1)] canonical_wset [OF c(2) q(1)]
  have fresh: "p \<noteq> q" if "(p, b) \<in> set ps" for p b using "2.prems"(1) that by force
  note ok = gen_ok_letter [OF "2.prems"(3) q]
  consider "a = CHR ''z''" | "a = CHR ''x''" | "a = CHR ''y''" using "2.prems"(2) by auto
  then show ?case
  proof cases
    case 1
    let ?g = "g\<lparr>gen_z := wset (gen_z g) q\<rparr>"
    have "\<exists>r. gen_product_loop ps ?g = Done r \<and> letter_gen n ps ?g r"
      using "2.prems" fresh by (intro "2.IH"(1) [OF 1] ok) (auto simp: w gen_set_bit_def)
    then show ?thesis using 1 w(4) by (auto simp: letter_gen_def gen_set_bit_def w)
  next
    case 2
    let ?g = "g\<lparr>gen_x := wset (gen_x g) q\<rparr>"
    have "\<exists>r. gen_product_loop ps ?g = Done r \<and> letter_gen n ps ?g r"
      using "2.prems" fresh 2 by (intro "2.IH"(2) ok) (auto simp: w gen_set_bit_def)
    then show ?thesis using 2 w(1) by (auto simp: letter_gen_def gen_set_bit_def w)
  next
    case 3
    let ?g = "g\<lparr>gen_x := wset (gen_x g) q, gen_z := wset (gen_z g) q, gen_factor := gen_factor g * \<i>\<rparr>"
    have "\<exists>r. gen_product_loop ps ?g = Done r \<and> letter_gen n ps ?g r"
      using "2.prems" fresh 3 by (intro "2.IH"(3) ok) (auto simp: w gen_set_bit_def)
    then show ?thesis using 3 w(1,4) by (auto simp: letter_gen_def gen_set_bit_def w)
  qed
qed

lemma canonical_zero: "canonical n (zero_words n)"
  by (auto simp: canonical_def zero_words_def wbit_replicate0)

lemma gbit_zero: "q < n \<Longrightarrow> \<not> gbit (zero_words n) q"
  by (simp add: zero_words_def wbit_replicate0 div_ceil64_bound)

definition gen_for :: "nat \<Rightarrow> (nat \<times> char) list \<Rightarrow> gen \<Rightarrow> bool" where
  "gen_for n ps r \<longleftrightarrow> gen_ok n r \<and> gen_factor r = \<i> ^ length (filter (\<lambda>(_, a). a = CHR ''y'') ps) \<and>
     (\<forall>q < n. gbit (gen_x r) q = ((q, CHR ''x'') \<in> set ps \<or> (q, CHR ''y'') \<in> set ps) \<and>
              gbit (gen_z r) q = ((q, CHR ''z'') \<in> set ps \<or> (q, CHR ''y'') \<in> set ps))"

lemma gen_product_ok:
  assumes "distinct (map fst ps)" "\<forall>(q, a) \<in> set ps. q < n \<and> a \<in> {CHR ''x'', CHR ''y'', CHR ''z''}"
  obtains r where "gen_product n ps = Done r" "gen_for n ps r"
proof -
  let ?r = "\<lparr>gen_x = zero_words n, gen_z = zero_words n, gen_n = n, gen_factor = 1\<rparr>"
  have "cross n (gbit (zero_words n)) (gbit (zero_words n)) = 1" by (rule cross_none) (rule gbit_zero)
  then have "gen_ok n ?r" by (simp add: gen_ok_def canonical_zero)
  then have "\<exists>r. gen_product_loop ps ?r = Done r \<and> letter_gen n ps ?r r"
    using assms gbit_zero by (intro gen_product_loop_ok) auto
  then show thesis using that gbit_zero by (auto simp: gen_product_def letter_gen_def gen_for_def)
qed


section \<open>Products of \<open>Z\<close>\<close>

definition odd_bits :: "nat list \<Rightarrow> nat \<Rightarrow> bool" where
  "odd_bits qs x = odd (length (filter (bit x) qs))"

lemma odd_bits_simps: "odd_bits [] x = False" "odd_bits (q # qs) x = bxor (bit x q) (odd_bits qs x)"
  by (auto simp: odd_bits_def)

lemma chi_odd_bits:
  "distinct qs \<Longrightarrow> set qs \<subseteq> {..<n} \<Longrightarrow> chi n (\<lambda>q. q \<in> set qs) x = sign (odd_bits qs x)"
proof (induction qs)
  case Nil
  then show ?case by (simp add: chi_none odd_bits_simps)
next
  case (Cons q qs)
  have "chi n (\<lambda>p. p \<in> set (q # qs)) x = chi n ((\<lambda>p. p \<in> set (q # qs))(q := False)) x * sign (q \<in> set (q # qs) \<and> bit x q)"
    using Cons.prems by (intro chi_split) simp
  also have "chi n ((\<lambda>p. p \<in> set (q # qs))(q := False)) x = chi n (\<lambda>p. p \<in> set qs) x"
    using Cons.prems by (intro chi_cong) auto
  finally show ?case using Cons by (auto simp: odd_bits_simps sign_def)
qed

text \<open>The phase that a rotation about a product of \<open>Z\<close> gives to an amplitude.\<close>

definition zphase :: "real \<Rightarrow> bool \<Rightarrow> complex" where
  "zphase \<theta> b = ei (if b then \<theta> / 2 else - \<theta> / 2)"

lemma rot_z_nth:
  assumes r: "gen_for n (map (\<lambda>q. (q, CHR ''z'')) qs) r" and "distinct qs" "set qs \<subseteq> {..<n}" "length st = 2 ^ n" "x < 2 ^ n"
  shows "rot n r \<theta> st ! x = zphase \<theta> (odd_bits qs x) * st ! x"
proof -
  have none: "length (filter (\<lambda>(_, a). a = CHR ''y'') (map (\<lambda>q. (q, CHR ''z'')) qs)) = 0" by (induction qs) auto
  have "gen_raw n r st = raw n (\<lambda>q. False) (\<lambda>q. q \<in> set qs) st"
    by (rule raw_cong) (use r in \<open>auto simp: gen_for_def\<close>)
  then have "gen_op n r st ! x = sign (odd_bits qs x) * st ! x"
    using assms r none by (simp add: gen_op_def gen_for_def flip_bits_none chi_odd_bits)
  then show ?thesis
    using assms(4,5) by (cases "odd_bits qs x") (simp_all add: rot_def zphase_def ei_def complex_eq_iff algebra_simps)
qed

lemma ei_mult: "ei a * ei b = ei (a + b)" "ei a * (ei b * z) = ei (a + b) * z"
  by (simp_all add: ei_add)

lemma ei_0 [simp]: "ei 0 = 1"
  by (simp add: ei_def complex_eq_iff)

lemma ei_unit: "cnj (ei t) * ei t = 1"
  by (rule ei_norm)

section \<open>One-qubit gates\<close>

lemma rot_rz:
  assumes "gen_for n [(q, CHR ''z'')] r" "q < n" "length st = 2 ^ n"
  shows "rot n r \<theta> st = dense_1q q (gate_rz \<theta>) st"
  using rot_z_nth [of n "[q]" r st] assms
  by (intro nth_equalityI) (auto simp: gate_rz_def diagonal_nth odd_bits_simps zphase_def)

lemma chi_one: "q < n \<Longrightarrow> chi n (\<lambda>p. p = q) x = sign (bit x q)"
  using chi_odd_bits [of "[q]" n x] by (simp add: odd_bits_simps)

lemma flip_one: "q < n \<Longrightarrow> flip_bits n (\<lambda>p. p = q) x = put_bit q (\<not> bit x q) x"
  by (rule bit_eqI) (auto simp: bit_flip_bits bit_put_bit)

lemma rot_rx:
  assumes r: "gen_for n [(q, CHR ''x'')] r" and "q < n" "length st = 2 ^ n"
  shows "rot n r \<theta> st = dense_1q q (gate_rx \<theta>) st"
proof (rule nth_equalityI)
  fix x assume "x < length (rot n r \<theta> st)"
  then have x: "x < 2 ^ n" using assms by simp
  have "gen_raw n r st = raw n (\<lambda>p. p = q) (\<lambda>p. False) st"
    by (rule raw_cong) (use r in \<open>auto simp: gen_for_def\<close>)
  then have "gen_op n r st ! x = st ! put_bit q (\<not> bit x q) x"
    using assms x r by (simp add: gen_op_def gen_for_def flip_one chi_none)
  then show "rot n r \<theta> st ! x = dense_1q q (gate_rx \<theta>) st ! x"
    using x assms(2,3) put_bit_same [of q x]
    by (cases "bit x q") (simp_all add: rot_def dense_1q_nth gate_rx_def Let_def numeral_2_eq_2 numeral_3_eq_3 complex_eq_iff)
qed simp

lemma rot_ry:
  assumes r: "gen_for n [(q, CHR ''y'')] r" and "q < n" "length st = 2 ^ n"
  shows "rot n r \<theta> st = dense_1q q (gate_ry \<theta>) st"
proof (rule nth_equalityI)
  fix x assume "x < length (rot n r \<theta> st)"
  then have x: "x < 2 ^ n" using assms by simp
  have "gen_raw n r st = raw n (\<lambda>p. p = q) (\<lambda>p. p = q) st"
    by (rule raw_cong) (use r in \<open>auto simp: gen_for_def\<close>)
  then have "gen_op n r st ! x = \<i> * sign (\<not> bit x q) * st ! put_bit q (\<not> bit x q) x"
    using assms x r by (simp add: gen_op_def gen_for_def flip_one chi_one bit_put_bit)
  then show "rot n r \<theta> st ! x = dense_1q q (gate_ry \<theta>) st ! x"
    using x assms(2,3) put_bit_same [of q x]
    by (cases "bit x q") (simp_all add: rot_def dense_1q_nth gate_ry_def Let_def numeral_2_eq_2 numeral_3_eq_3 complex_eq_iff)
qed simp

lemma scale_dense_1q: "scale c (dense_1q q g st) = dense_1q q (map ((*) c) g) st" if "length g = 4"
  using length4 [OF that] by (intro nth_equalityI) (auto simp: dense_1q_nth numeral_3_eq_3 numeral_2_eq_2 algebra_simps)

lemma gate_u1_rz: "gate_u1 l = map ((*) (ei (l / 2))) (gate_rz l)"
  by (simp add: gate_u1_def gate_rz_def ei_mult)

lemma gate_t_rz: "gate_t = gate_u1 (pi / 4)" "gate_tdg = gate_u1 (- pi / 4)"
  by (simp_all add: gate_t_def gate_tdg_def gate_u1_def)

lemma of_real_Complex: "Complex a 0 = of_real a" "Complex (- a) 0 = - of_real a"
  by (simp_all add: complex_eq_iff)

lemma gate_u3_product:
  "gate_u3 \<theta> \<phi> l = map ((*) (ei ((\<phi> + l) / 2))) (mul_1q (gate_rz \<phi>) (mul_1q (gate_ry \<theta>) (gate_rz l)))"
proof -
  have "ei ((\<phi> + l) / 2) * (ei (- (\<phi> / 2)) * ei (- (l / 2))) = 1"
    "ei ((\<phi> + l) / 2) * (ei (- (\<phi> / 2)) * ei (l / 2)) = ei l"
    "ei ((\<phi> + l) / 2) * (ei (\<phi> / 2) * ei (- (l / 2))) = ei \<phi>"
    "ei ((\<phi> + l) / 2) * (ei (\<phi> / 2) * ei (l / 2)) = ei (\<phi> + l)"
    by (simp_all add: ei_mult add_divide_distrib add.commute)
  then show ?thesis
    by (simp add: gate_u3_def gate_ry_def gate_rz_def mul_1q_def Let_def of_real_Complex mult.commute [of _ "complex_of_real _"] numeral_3_eq_3 numeral_2_eq_2)
qed

lemma rots_u3:
  assumes "gen_for n [(q, CHR ''z'')] rz" "gen_for n [(q, CHR ''y'')] ry" "q < n" "length st = 2 ^ n"
  shows "dense_1q q (gate_u3 \<theta> \<phi> l) st = scale (ei ((\<phi> + l) / 2)) (rot n rz \<phi> (rot n ry \<theta> (rot n rz l st)))"
proof -
  have "rot n rz \<phi> (rot n ry \<theta> (rot n rz l st)) = dense_1q q (mul_1q (gate_rz \<phi>) (mul_1q (gate_ry \<theta>) (gate_rz l))) st"
    using assms by (simp add: rot_rz [OF assms(1)] rot_ry [OF assms(2)] dense_1q_compose [of _ n])
  then show ?thesis by (simp add: gate_u3_product scale_dense_1q mul_1q_def)
qed

section \<open>Two-qubit gates\<close>

lemma rots_crz:
  assumes "gen_for n [(t, CHR ''z'')] rt" "gen_for n [(c, CHR ''z''), (t, CHR ''z'')] rct" "c < n" "t < n" "c \<noteq> t"
    "length st = 2 ^ n"
  shows "rot n rt (\<theta> / 2) (rot n rct (- \<theta> / 2) st) = dense_2q c t (gate_crz \<theta>) st"
proof (rule nth_equalityI)
  fix x assume "x < length (rot n rt (\<theta> / 2) (rot n rct (- \<theta> / 2) st))"
  then have x: "x < 2 ^ n" using assms by simp
  show "rot n rt (\<theta> / 2) (rot n rct (- \<theta> / 2) st) ! x = dense_2q c t (gate_crz \<theta>) st ! x"
    using x assms rot_z_nth [of n "[t]" rt "rot n rct (- \<theta> / 2) st" x] rot_z_nth [of n "[c, t]" rct st x]
    unfolding controlled_gates
    by (cases "bit x c"; cases "bit x t")
      (simp_all add: controlled_nth gate_rz_def diagonal_nth odd_bits_simps zphase_def ei_mult)
qed simp

lemma rots_cphase:
  assumes "gen_for n [(c, CHR ''z'')] rc" "gen_for n [(t, CHR ''z'')] rt" "gen_for n [(c, CHR ''z''), (t, CHR ''z'')] rct"
    "c < n" "t < n" "c \<noteq> t" "length st = 2 ^ n"
  shows "dense_2q c t (gate_cu3 0 0 l) st =
    scale (ei (l / 4)) (rot n rc (l / 2) (rot n rt (l / 2) (rot n rct (- l / 2) st)))"
proof (rule nth_equalityI)
  fix x assume "x < length (dense_2q c t (gate_cu3 0 0 l) st)"
  then have x: "x < 2 ^ n" using assms by simp
  let ?st = "rot n rct (- l / 2) st"
  have u: "gate_u3 0 0 l = [1, 0, 0, ei l]" by (simp add: gate_u3_def Let_def complex_eq_iff)
  show "dense_2q c t (gate_cu3 0 0 l) st ! x =
      scale (ei (l / 4)) (rot n rc (l / 2) (rot n rt (l / 2) ?st)) ! x"
    using x assms rot_z_nth [of n "[c]" rc "rot n rt (l / 2) ?st" x] rot_z_nth [of n "[t]" rt ?st x] rot_z_nth [of n "[c, t]" rct st x]
    unfolding controlled_gates u
    by (cases "bit x c"; cases "bit x t")
      (simp_all add: controlled_nth diagonal_nth odd_bits_simps zphase_def ei_mult)
qed simp

text \<open>The beam splitter: two commuting rotations about \<open>Y X\<close> and \<open>X Y\<close>.\<close>

lemma flip_two:
  "q < n \<Longrightarrow> r < n \<Longrightarrow> q \<noteq> r \<Longrightarrow>
     flip_bits n (\<lambda>p. p = q \<or> p = r) x = put_bit q (\<not> bit x q) (put_bit r (\<not> bit x r) x)"
  by (rule bit_eqI) (auto simp: bit_flip_bits bit_put_bit)

lemma gen_op_xy:
  assumes "gen_ok n g" "gen_factor g = \<i>" "q < n" "r < n" "q \<noteq> r" "y < n" "length st = 2 ^ n" "x < 2 ^ n"
    "\<forall>p < n. gbit (gen_x g) p = (p = q \<or> p = r) \<and> gbit (gen_z g) p = (p = y)" "y = q \<or> y = r"
  shows "gen_op n g st ! x = \<i> * sign (\<not> bit x y) * st ! put_bit q (\<not> bit x q) (put_bit r (\<not> bit x r) x)"
proof -
  have "gen_raw n g st = raw n (\<lambda>p. p = q \<or> p = r) (\<lambda>p. p = y) st"
    by (rule raw_cong) (use assms(9) in auto)
  then show ?thesis
    using assms by (auto simp: gen_op_def flip_two chi_one bit_put_bit)
qed

lemma i_twice: "\<i> * s * (\<i> * t * u) = - (s * t * u)"
  by (simp add: complex_eq_iff algebra_simps)

lemma rots_rbs:
  assumes g1: "gen_for n [(c, CHR ''y''), (t, CHR ''x'')] r1" and g2: "gen_for n [(c, CHR ''x''), (t, CHR ''y'')] r2"
    and q: "c < n" "t < n" "c \<noteq> t" and l: "length st = 2 ^ n"
  shows "rot n r1 \<theta> (rot n r2 (- \<theta>) st) = dense_2q c t (gate_rbs \<theta>) st"
proof (rule nth_equalityI)
  fix x assume "x < length (rot n r1 \<theta> (rot n r2 (- \<theta>) st))"
  then have x: "x < 2 ^ n" using l by simp
  let ?f = "\<lambda>x. put_bit c (\<not> bit x c) (put_bit t (\<not> bit x t) x)"
  let ?C = "complex_of_real (cos (\<theta> / 2))" and ?S = "complex_of_real (sin (\<theta> / 2))"
  have f: "?f y < 2 ^ n" if "y < 2 ^ n" for y using put_bit_less [OF put_bit_less [OF that q(2)] q(1)] .
  have "?f (?f x) = x" by (rule bit_eqI) (use q(3) in \<open>auto simp: bit_put_bit\<close>)
  then have ff: "?f (?f x) = x" "bit (?f x) t = (\<not> bit x t)" "bit (?f x) c = (\<not> bit x c)"
    using q(3) by (simp_all add: bit_put_bit)
  have o1: "gen_op n r1 v ! y = \<i> * sign (\<not> bit y c) * v ! ?f y" if "length v = 2 ^ n" "y < 2 ^ n" for v y
    using g1 q that by (intro gen_op_xy) (auto simp: gen_for_def)
  have o2: "gen_op n r2 v ! y = \<i> * sign (\<not> bit y t) * v ! ?f y" if "length v = 2 ^ n" "y < 2 ^ n" for v y
    using g2 q that by (intro gen_op_xy) (auto simp: gen_for_def)
  have A: "rot n r2 (- \<theta>) st ! y = ?C * st ! y - ?S * sign (\<not> bit y t) * st ! ?f y" if "y < 2 ^ n" for y
    using that l by (simp add: rot_def o2 i_twice)
  have s2: "?C * ?C + ?S * ?S = 1" using half_square [of \<theta>] by (simp flip: of_real_mult of_real_add)
  have co: "complex_of_real (cos \<theta>) = ?C * ?C - ?S * ?S" "complex_of_real (sin \<theta>) = 2 * ?S * ?C"
    using cos_double [of "\<theta> / 2"] sin_double [of "\<theta> / 2"] by (simp_all add: power2_eq_square)
  have "rot n r1 \<theta> (rot n r2 (- \<theta>) st) ! x =
      ?C * (?C * st ! x - ?S * sign (\<not> bit x t) * st ! ?f x) + ?S * sign (\<not> bit x c) * (?C * st ! ?f x - ?S * sign (bit x t) * st ! x)"
    using x l f [OF x] ff by (simp add: rot_def [of n r1] o1 A i_twice)
  also have "\<dots> = (?C * ?C - sign (\<not> bit x c) * sign (bit x t) * (?S * ?S)) * st ! x +
      ?S * ?C * (sign (\<not> bit x c) - sign (\<not> bit x t)) * st ! ?f x"
    by (simp add: algebra_simps)
  also have "\<dots> = dense_2q c t (gate_rbs \<theta>) st ! x"
  proof -
    have same: "put_bit c (bit x c) (put_bit t (bit x t) x) = x" by (simp add: put_bit_same)
    show ?thesis
      using x l q(3) s2 same
      by (cases "bit x c"; cases "bit x t")
        (simp_all add: dense_2q_def row_2q_def gate_rbs_def Let_def of_real_Complex co algebra_simps)
  qed
  finally show "rot n r1 \<theta> (rot n r2 (- \<theta>) st) ! x = dense_2q c t (gate_rbs \<theta>) st ! x" .
qed simp


section \<open>Three-qubit gates\<close>

definition ccz :: "nat \<Rightarrow> nat \<Rightarrow> nat \<Rightarrow> complex list \<Rightarrow> complex list" where
  "ccz a b t st = map (\<lambda>x. if bit x a \<and> bit x b \<and> bit x t then - st ! x else st ! x) [0..<length st]"

lemma length_ccz [simp]: "length (ccz a b t st) = length st"
  by (simp add: ccz_def)

lemma ei_pi: "ei (- (7 * pi / 8)) = - ei (pi / 8)"
proof -
  have "- (7 * pi / 8) = pi / 8 + - pi" by simp
  then show ?thesis by (simp only: ei_add) (simp add: ei_def complex_eq_iff)
qed

lemma rots_ccz:
  assumes g: "gen_for n (map (\<lambda>q. (q, CHR ''z'')) [a]) r1" "gen_for n (map (\<lambda>q. (q, CHR ''z'')) [b]) r2"
      "gen_for n (map (\<lambda>q. (q, CHR ''z'')) [t]) r3" "gen_for n (map (\<lambda>q. (q, CHR ''z'')) [a, b]) r4"
      "gen_for n (map (\<lambda>q. (q, CHR ''z'')) [a, t]) r5" "gen_for n (map (\<lambda>q. (q, CHR ''z'')) [b, t]) r6"
      "gen_for n (map (\<lambda>q. (q, CHR ''z'')) [a, b, t]) r7"
    and q: "a < n" "b < n" "t < n" "a \<noteq> b" "a \<noteq> t" "b \<noteq> t" and l: "length st = 2 ^ n"
  shows "rot n r1 (- pi / 4) (rot n r2 (- pi / 4) (rot n r3 (- pi / 4) (rot n r4 (pi / 4)
    (rot n r5 (pi / 4) (rot n r6 (pi / 4) (rot n r7 (- pi / 4) st)))))) = scale (ei (pi / 8)) (ccz a b t st)"
    (is "?R = _")
proof (rule nth_equalityI)
  fix x assume "x < length ?R"
  then have x: "x < 2 ^ n" using l by simp
  have "?R ! x = zphase (- pi / 4) (odd_bits [a] x) * (zphase (- pi / 4) (odd_bits [b] x) * (zphase (- pi / 4) (odd_bits [t] x) *
      (zphase (pi / 4) (odd_bits [a, b] x) * (zphase (pi / 4) (odd_bits [a, t] x) * (zphase (pi / 4) (odd_bits [b, t] x) *
      (zphase (- pi / 4) (odd_bits [a, b, t] x) * st ! x))))))"
    using q l x by (simp add: rot_z_nth [OF g(1)] rot_z_nth [OF g(2)] rot_z_nth [OF g(3)] rot_z_nth [OF g(4)]
        rot_z_nth [OF g(5)] rot_z_nth [OF g(6)] rot_z_nth [OF g(7)])
  also have "\<dots> = scale (ei (pi / 8)) (ccz a b t st) ! x"
    using x l
    by (cases "bit x a"; cases "bit x b"; cases "bit x t")
      (simp_all add: odd_bits_simps zphase_def ei_mult ccz_def ei_pi [simplified])
  finally show "?R ! x = scale (ei (pi / 8)) (ccz a b t st) ! x" .
qed simp

lemma hadamard_ccz:
  assumes "a < n" "b < n" "t < n" "a \<noteq> t" "b \<noteq> t" "length st = 2 ^ n"
  shows "dense_1q t gate_h (scale c (ccz a b t (dense_1q t gate_h st))) = scale c (permuted (toffoli a b t) st)"
proof (rule nth_equalityI)
  fix x assume "x < length (dense_1q t gate_h (scale c (ccz a b t (dense_1q t gate_h st))))"
  then have x: "x < 2 ^ n" using assms by simp
  have "isqrt2 * isqrt2 = of_real (1 / sqrt 2 * (1 / sqrt 2))" by (simp only: isqrt2_def of_real_mult)
  then have h: "isqrt2 * isqrt2 = 1 / 2" by simp
  have p: "put_bit t d x < 2 ^ n" for d using put_bit_less [OF x assms(3)] .
  show "dense_1q t gate_h (scale c (ccz a b t (dense_1q t gate_h st))) ! x = scale c (permuted (toffoli a b t) st) ! x"
    using x assms p h put_bit_same [of t x]
    by (cases "bit x a"; cases "bit x b"; cases "bit x t")
      (simp_all add: dense_1q_nth ccz_def bit_put_bit gate_h_def permuted_def toffoli_def numeral_2_eq_2 numeral_3_eq_3
        mult.left_commute [of isqrt2] mult.assoc [symmetric], simp_all add: algebra_simps)
qed simp


definition cx_index :: "nat \<Rightarrow> nat \<Rightarrow> nat \<Rightarrow> nat" where
  "cx_index c t x = (if bit x c then put_bit t (\<not> bit x t) x else x)"

lemma cx_nth: "c \<noteq> t \<Longrightarrow> x < length st \<Longrightarrow> dense_2q c t gate_cx st ! x = st ! cx_index c t x"
  unfolding controlled_gates by (simp add: controlled_nth flip_nth cx_index_def)

lemma cx_index_less: "x < 2 ^ n \<Longrightarrow> t < n \<Longrightarrow> cx_index c t x < 2 ^ n"
  by (simp add: cx_index_def put_bit_less)

lemma toffoli_less: "x < 2 ^ n \<Longrightarrow> t < n \<Longrightarrow> toffoli a b t x < 2 ^ n"
  by (simp add: toffoli_def put_bit_less)

lemma fredkin_as_cx:
  assumes "c < n" "a < n" "t < n" "c \<noteq> a" "c \<noteq> t" "a \<noteq> t" "length st = 2 ^ n"
  shows "dense_2q t a gate_cx (scale k (permuted (toffoli c a t) (dense_2q t a gate_cx st))) = scale k (permuted (fredkin c a t) st)"
proof (rule nth_equalityI)
  fix x assume "x < length (dense_2q t a gate_cx (scale k (permuted (toffoli c a t) (dense_2q t a gate_cx st))))"
  then have x: "x < 2 ^ n" using assms by simp
  let ?y = "cx_index t a x" and ?z = "toffoli c a t (cx_index t a x)"
  have y: "?y < 2 ^ n" "?z < 2 ^ n" using x assms by (simp_all add: cx_index_less toffoli_less)
  have "cx_index t a ?z = fredkin c a t x"
    using assms(4-6) by (intro bit_eqI) (auto simp: cx_index_def toffoli_def fredkin_def bit_put_bit)
  then show "dense_2q t a gate_cx (scale k (permuted (toffoli c a t) (dense_2q t a gate_cx st))) ! x =
      scale k (permuted (fredkin c a t) st) ! x"
    using x y assms by (simp add: cx_nth permuted_def)
qed simp

end
