(* ===== verification/PauliPropSound.thy ===== *)
theory PauliPropSound
  imports PauliGates
begin

text \<open>
  Pauli propagation is sound: the conjugation by every supported gate implements the gate's matrix, the
  peephole keeps the circuit, and the value read off at the end differs from the expectation of the
  state-vector backend by at most the dropped mass.
\<close>

section \<open>Sequences of rotations\<close>

lemma refines_eq: "(\<And>s. F s = G s) \<Longrightarrow> refines en N G U \<Longrightarrow> refines en N F U"
  by (simp add: refines_def)

lemma refines_as:
  assumes "refines en N G U" "\<And>s. F s = G s" "\<And>st. length st = 2 ^ unat N \<Longrightarrow> V st = scale c (U st)" "cnj c * c = 1"
  shows "refines en N F V"
  by (rule refines_eq [OF assms(2)]) (rule refines_phase [OF assms(1,4,3)])

lemma branches_nil: "refines en N (branches en drn []) (\<lambda>st. st)"
  by (rule refines_eq [OF _ refines_skip]) simp

lemma branches_cons:
  assumes "faithful drn" "gen_for (unat N) ps r" "refines en N (branches en drn gs) V"
  shows "refines en N (branches en drn ((Done r, \<theta>) # gs)) (\<lambda>st. rot (unat N) r \<theta> (V st))"
proof (rule refines_eq)
  show "branches en drn ((Done r, \<theta>) # gs) s = bind_run (branch_step en drn r \<theta> s) (branches en drn gs)" for s by simp
  have "gen_ok (unat N) r" using assms(2) by (simp add: gen_for_def)
  from refines_comp [OF branch_step_refines [OF assms(1) this] assms(3)]
  show "refines en N (\<lambda>s. bind_run (branch_step en drn r \<theta> s) (branches en drn gs)) (\<lambda>st. rot (unat N) r \<theta> (V st))" .
qed

lemma refines_check_cap: "refines en N (\<lambda>s. bind_run (check_cap en s) (\<lambda>_. Done s)) (\<lambda>st. st)"
proof (rule refinesI [OF isometric_id])
  fix s assume "sum_inv N s"
  then have "step_ok en N (\<lambda>st. st) s s" by (simp add: step_ok_def)
  then show "(\<exists>s'. bind_run (check_cap en s) (\<lambda>_. Done s) = Done s' \<and> step_ok en N (\<lambda>st. st) s s') \<or>
      (\<exists>e. bind_run (check_cap en s) (\<lambda>_. Done s) = Failed e \<and> over_cap en e)"
    using check_cap_cases [of en s] by auto
qed

section \<open>One operation\<close>

lemma resolve_all_nth: "resolve_all b es = Inr vs \<Longrightarrow> i < length es \<Longrightarrow> resolve_param b (es ! i) = Inr (vs ! i)"
proof (induction es arbitrary: vs i)
  case (Cons e es)
  then show ?case by (cases i) (auto split: sum.splits)
qed simp

lemma check_qubits_none:
  "check_qubits g n seen qs = None \<longleftrightarrow> distinct qs \<and> set seen \<inter> set qs = {} \<and> (\<forall>q \<in> set qs. unat q < n)"
  by (induction qs arbitrary: seen) (auto simp: not_le)

definition propagable :: "binding \<Rightarrow> nat \<Rightarrow> gate_op \<Rightarrow> bool" where
  "propagable b n op \<longleftrightarrow> valid_op n op \<and> op_condition op = None \<and>
     (op_gate op \<in> {Measure, Barrier} \<or> unitary_gate (op_gate op) \<and>
       (\<exists>ps. resolve_all b (op_params op) = Inr ps \<and> (op_gate op = CU3 \<longrightarrow> ps ! 0 = 0 \<and> ps ! 1 = 0)))"

definition prop_action :: "binding \<Rightarrow> gate_op \<Rightarrow> complex list \<Rightarrow> complex list" where
  "prop_action b op st = (if op_gate op \<in> {Measure, Barrier} then st else op_action b op st)"

text \<open>What the dispatch reads of a propagable operation: its parameters and its qubits.\<close>

definition reads :: "binding \<Rightarrow> nat \<Rightarrow> gate_op \<Rightarrow> real list \<Rightarrow> nat list \<Rightarrow> bool" where
  "reads b n op ps qs \<longleftrightarrow> unitary_gate (op_gate op) \<and> (op_gate op = CU3 \<longrightarrow> ps ! 0 = 0 \<and> ps ! 1 = 0) \<and>
     (\<forall>i < num_params (op_gate op). slot op b i = Done (ps ! i)) \<and>
     (\<forall>i < num_qubits (op_gate op). qubit_of op i = Done (qs ! i) \<and> qs ! i < n \<and>
        (\<forall>j < num_qubits (op_gate op). i \<noteq> j \<longrightarrow> qs ! i \<noteq> qs ! j)) \<and>
     prop_action b op = gate_action (op_gate op) ps qs"

lemma propagable_reads:
  assumes "propagable b n op" "op_gate op \<notin> {Measure, Barrier}"
  shows "\<exists>ps qs. reads b n op ps qs"
proof -
  let ?qs = "map unat (op_qubits op)"
  have v: "valid_op n op" using assms(1) by (simp add: propagable_def)
  obtain ps where ps: "resolve_all b (op_params op) = Inr ps" "unitary_gate (op_gate op)"
    "op_gate op = CU3 \<longrightarrow> ps ! 0 = 0 \<and> ps ! 1 = 0"
    using assms by (auto simp: propagable_def)
  have len: "num_params (op_gate op) \<le> length (op_params op)" using v by (simp add: valid_op_def)
  have "slot op b i = Done (ps ! i)" if "i < num_params (op_gate op)" for i
  proof -
    have "i < length (op_params op)" using len that by simp
    from this resolve_all_nth [OF ps(1) this] show ?thesis by (simp add: slot_def index_of_def or_fail_def)
  qed
  moreover have "qubit_of op i = Done (?qs ! i)" "?qs ! i < n" if "i < num_qubits (op_gate op)" for i
    using valid_op_nth(1,2) [OF v that] op_qubits_nth [OF v that] by simp_all
  moreover have "?qs ! i \<noteq> ?qs ! j" if "i < num_qubits (op_gate op)" "j < num_qubits (op_gate op)" "i \<noteq> j" for i j
    using valid_op_nth(3) [OF v that] op_qubits_nth [OF v that(1)] op_qubits_nth [OF v that(2)] by simp
  moreover have "prop_action b op = gate_action (op_gate op) ps ?qs"
    using assms(2) by (auto simp: prop_action_def op_action_def ps(1) intro!: ext)
  ultimately have "reads b n op ps ?qs" using ps unfolding reads_def by blast
  then show ?thesis by blast
qed

text \<open>The tables, gate by gate.\<close>

fun image1 :: "gate_kind \<Rightarrow> single_img option" where
  "image1 H = Some CLIFF_H" | "image1 X = Some CLIFF_X" | "image1 Y = Some CLIFF_Y" | "image1 Z = Some CLIFF_Z"
| "image1 S = Some CLIFF_S" | "image1 Sdg = Some CLIFF_SDG" | "image1 Sx = Some CLIFF_SX" | "image1 Sxdg = Some CLIFF_SXDG"
| "image1 _ = None"

fun image2 :: "gate_kind \<Rightarrow> two_img option" where
  "image2 CX = Some CX_IMG" | "image2 CZ = Some CZ_IMG" | "image2 Swap = Some SWAP_IMG" | "image2 CY = Some CY_IMG"
| "image2 _ = None"

lemma conjugate_clifford1:
  assumes "faithful drn" "reads b (unat N) op ps qs" "image1 (op_gate op) = Some img"
  shows "refines en N (conjugate_gate en drn op b (unat N)) (prop_action b op)"
proof -
  have "num_qubits (op_gate op) = 1" using assms(3) by (cases "op_gate op") auto
  then have r: "qubit_of op 0 = Done (qs ! 0)" "qs ! 0 < unat N" "prop_action b op = gate_action (op_gate op) ps qs"
    using assms(2) by (simp_all add: reads_def)
  obtain m where m: "matrix1 (op_gate op) ps = Some m" "table1 img m" "unitary1 m"
    using assms(3) tables1 by (cases "op_gate op") (auto simp: gate1q_unitary)
  have "prop_action b op st = dense_1q (qs ! 0) m st" for st by (simp add: r(3) gate_action_def m(1))
  moreover have "conjugate_gate en drn op b (unat N) s = map_single drn (qs ! 0) img s" for s
    using assms(3) r(1) by (cases "op_gate op") (auto simp: conjugate_gate_def Let_def)
  ultimately show ?thesis
    by (intro refines_as [OF map_single_refines [OF assms(1) m(2,3) r(2)], where c = 1]) simp_all
qed

lemma conjugate_clifford2:
  assumes "faithful drn" "reads b (unat N) op ps qs" "image2 (op_gate op) = Some img"
  shows "refines en N (conjugate_gate en drn op b (unat N)) (prop_action b op)"
proof -
  have "num_qubits (op_gate op) = 2" using assms(3) by (cases "op_gate op") auto
  then have r: "qubit_of op 0 = Done (qs ! 0)" "qubit_of op 1 = Done (qs ! 1)" "qs ! 0 < unat N" "qs ! 1 < unat N" "qs ! 0 \<noteq> qs ! 1"
    "prop_action b op = gate_action (op_gate op) ps qs"
    using assms(2) by (simp_all add: reads_def numeral_2_eq_2)
  obtain m where m: "matrix2 (op_gate op) ps = Some m" "matrix1 (op_gate op) ps = None" "table2 img m" "unitary2 m"
    using assms(3) tables2 by (cases "op_gate op") (auto simp: gate2q_unitary)
  have "prop_action b op st = dense_2q (qs ! 0) (qs ! 1) m st" for st by (simp add: r(6) gate_action_def m(1,2))
  moreover have "conjugate_gate en drn op b (unat N) s = map_two drn (qs ! 0) (qs ! 1) img s" for s
    using assms(3) r(1,2) by (cases "op_gate op") (auto simp: conjugate_gate_def Let_def)
  ultimately show ?thesis
    by (intro refines_as [OF map_two_refines [OF assms(1) m(3,4) r(3-5)], where c = 1]) simp_all
qed


text \<open>Rotations about one letter.\<close>

lemma gen_single_ok:
  assumes "q < n" "a \<in> {CHR ''x'', CHR ''y'', CHR ''z''}"
  obtains r where "gen_single n q a = Done r" "gen_for n [(q, a)] r"
  using gen_product_ok [of "[(q, a)]" n] assms that by (auto simp: gen_single_def)

lemma gen_zz_ok:
  assumes "c < n" "t < n" "c \<noteq> t"
  obtains r where "gen_zz n c t = Done r" "gen_for n [(c, CHR ''z''), (t, CHR ''z'')] r"
  using gen_product_ok [of "[(c, CHR ''z''), (t, CHR ''z'')]" n] assms that by (auto simp: gen_zz_def)

lemma gen_z_product_ok:
  assumes "distinct qs" "set qs \<subseteq> {..<n}"
  obtains r where "gen_z_product n qs = Done r" "gen_for n (map (\<lambda>q. (q, CHR ''z'')) qs) r"
  using gen_product_ok [of "map (\<lambda>q. (q, CHR ''z'')) qs" n] assms that
  by (auto simp: gen_z_product_def comp_def)

lemma conjugate_axis:
  assumes d: "faithful drn" and r: "reads b (unat N) op ps qs"
    and g: "op_gate op \<in> {Rz, Rx, Ry, U1, T, Tdg}"
  shows "refines en N (conjugate_gate en drn op b (unat N)) (prop_action b op)"
proof -
  let ?n = "unat N"
  have "num_qubits (op_gate op) = 1" using g by auto
  then have q: "qubit_of op 0 = Done (qs ! 0)" "qs ! 0 < ?n" and act: "prop_action b op = gate_action (op_gate op) ps qs"
    and sl: "0 < num_params (op_gate op) \<Longrightarrow> slot op b 0 = Done (ps ! 0)"
    using r by (simp_all add: reads_def)
  obtain rz where rz: "gen_single ?n (qs ! 0) (CHR ''z'') = Done rz" "gen_for ?n [(qs ! 0, CHR ''z'')] rz"
    using gen_single_ok [OF q(2), of "CHR ''z''"] by auto
  obtain rx where rx: "gen_single ?n (qs ! 0) (CHR ''x'') = Done rx" "gen_for ?n [(qs ! 0, CHR ''x'')] rx"
    using gen_single_ok [OF q(2), of "CHR ''x''"] by auto
  obtain ry where ry: "gen_single ?n (qs ! 0) (CHR ''y'') = Done ry" "gen_for ?n [(qs ! 0, CHR ''y'')] ry"
    using gen_single_ok [OF q(2), of "CHR ''y''"] by auto
  note B = branches_cons [OF d _ branches_nil, where en = en]
  have u1: "dense_1q (qs ! 0) (gate_u1 l) st = scale (ei (l / 2)) (rot ?n rz l st)" if "length st = 2 ^ ?n" for l st
    using rot_rz [OF rz(2) q(2) that] by (simp add: gate_u1_rz scale_dense_1q gate_rz_def)
  have one: "cnj 1 * 1 = (1 :: complex)" by simp
  consider "op_gate op = Rz" | "op_gate op = Rx" | "op_gate op = Ry" | "op_gate op = U1" | "op_gate op = T" | "op_gate op = Tdg"
    using g by blast
  then show ?thesis
  proof cases
    case 1
    then show ?thesis using q(1) sl
      by (intro refines_as [OF B [OF rz(2), of "ps ! 0"], where c = 1]) (simp_all add: conjugate_gate_def rz(1) act gate_action_def rot_rz [OF rz(2) q(2)])
  next
    case 2
    then show ?thesis using q(1) sl
      by (intro refines_as [OF B [OF rx(2), of "ps ! 0"], where c = 1]) (simp_all add: conjugate_gate_def rx(1) act gate_action_def rot_rx [OF rx(2) q(2)])
  next
    case 3
    then show ?thesis using q(1) sl
      by (intro refines_as [OF B [OF ry(2), of "ps ! 0"], where c = 1]) (simp_all add: conjugate_gate_def ry(1) act gate_action_def rot_ry [OF ry(2) q(2)])
  next
    case 4
    then show ?thesis using q(1) sl
      by (intro refines_as [OF B [OF rz(2), of "ps ! 0"] _ _ ei_unit]) (simp_all add: conjugate_gate_def rz(1) act gate_action_def u1)
  next
    case 5
    then show ?thesis using q(1)
      by (intro refines_as [OF B [OF rz(2), of "pi / 4"] _ _ ei_unit]) (simp_all add: conjugate_gate_def rz(1) act gate_action_def gate_t_rz u1)
  next
    case 6
    then show ?thesis using q(1)
      by (intro refines_as [OF B [OF rz(2), of "- pi / 4"] _ _ ei_unit]) (simp_all add: conjugate_gate_def rz(1) act gate_action_def gate_t_rz u1)
  qed
qed


lemma conjugate_euler:
  assumes d: "faithful drn" and r: "reads b (unat N) op ps qs" and g: "op_gate op \<in> {U3, U2}"
  shows "refines en N (conjugate_gate en drn op b (unat N)) (prop_action b op)"
proof -
  let ?n = "unat N" and ?q = "qs ! 0"
  have "num_qubits (op_gate op) = 1" using g by auto
  then have q: "qubit_of op 0 = Done ?q" "?q < ?n" and act: "prop_action b op = gate_action (op_gate op) ps qs"
    and sl: "\<And>i. i < num_params (op_gate op) \<Longrightarrow> slot op b i = Done (ps ! i)"
    using r by (simp_all add: reads_def)
  obtain rz where rz: "gen_single ?n ?q (CHR ''z'') = Done rz" "gen_for ?n [(?q, CHR ''z'')] rz"
    using gen_single_ok [OF q(2), of "CHR ''z''"] by auto
  obtain ry where ry: "gen_single ?n ?q (CHR ''y'') = Done ry" "gen_for ?n [(?q, CHR ''y'')] ry"
    using gen_single_ok [OF q(2), of "CHR ''y''"] by auto
  note B = branches_cons [OF d rz(2) branches_cons [OF d ry(2) branches_cons [OF d rz(2) branches_nil]], where en = en]
  note E = rots_u3 [OF rz(2) ry(2) q(2)]
  show ?thesis
  proof (cases "op_gate op = U3")
    case True
    then show ?thesis using q(1) sl [of 0] sl [of 1] sl [of 2]
      by (intro refines_as [OF B [of "ps ! 1" "ps ! 0" "ps ! 2"] _ _ ei_unit])
        (simp_all add: conjugate_gate_def rz(1) ry(1) act gate_action_def E)
  next
    case False
    then show ?thesis using q(1) sl [of 0] sl [of 1] g
      by (intro refines_as [OF B [of "ps ! 0" "pi / 2" "ps ! 1"] _ _ ei_unit])
        (simp_all add: conjugate_gate_def rz(1) ry(1) act gate_action_def gate_u2_def E)
  qed
qed

lemma conjugate_pair:
  assumes d: "faithful drn" and r: "reads b (unat N) op ps qs" and g: "op_gate op \<in> {CRz, CU3, Rbs}"
  shows "refines en N (conjugate_gate en drn op b (unat N)) (prop_action b op)"
proof -
  let ?n = "unat N" and ?c = "qs ! 0" and ?t = "qs ! Suc 0"
  have "num_qubits (op_gate op) = 2" using g by auto
  then have q: "qubit_of op 0 = Done ?c" "qubit_of op (Suc 0) = Done ?t" "?c < ?n" "?t < ?n" "?c \<noteq> ?t"
    and act: "prop_action b op = gate_action (op_gate op) ps qs"
    and sl: "\<And>i. i < num_params (op_gate op) \<Longrightarrow> slot op b i = Done (ps ! i)"
    using r by (simp_all add: reads_def numeral_2_eq_2)
  obtain rc where rc: "gen_single ?n ?c (CHR ''z'') = Done rc" "gen_for ?n [(?c, CHR ''z'')] rc"
    using gen_single_ok [OF q(3), of "CHR ''z''"] by auto
  obtain rt where rt: "gen_single ?n ?t (CHR ''z'') = Done rt" "gen_for ?n [(?t, CHR ''z'')] rt"
    using gen_single_ok [OF q(4), of "CHR ''z''"] by auto
  obtain rzz where rzz: "gen_zz ?n ?c ?t = Done rzz" "gen_for ?n [(?c, CHR ''z''), (?t, CHR ''z'')] rzz"
    using gen_zz_ok [OF q(3-5)] .
  obtain r1 where r1: "gen_product ?n [(?c, CHR ''y''), (?t, CHR ''x'')] = Done r1" "gen_for ?n [(?c, CHR ''y''), (?t, CHR ''x'')] r1"
    using gen_product_ok [of "[(?c, CHR ''y''), (?t, CHR ''x'')]" ?n] q by auto
  obtain r2 where r2: "gen_product ?n [(?c, CHR ''x''), (?t, CHR ''y'')] = Done r2" "gen_for ?n [(?c, CHR ''x''), (?t, CHR ''y'')] r2"
    using gen_product_ok [of "[(?c, CHR ''x''), (?t, CHR ''y'')]" ?n] q by auto
  note reads = conjugate_gate_def act gate_action_def q(1,2)
  consider "op_gate op = CRz" | "op_gate op = CU3" | "op_gate op = Rbs" using g by blast
  then show ?thesis
  proof cases
    case 1
    note B = branches_cons [OF d rt(2) branches_cons [OF d rzz(2) branches_nil], where en = en]
    show ?thesis using sl [of 0] 1
      by (intro refines_as [OF B [of "ps ! 0 / 2" "- (ps ! 0) / 2"], where c = 1])
        (simp_all add: reads rt(1) rzz(1) rots_crz [OF rt(2) rzz(2) q(3-5), simplified])
  next
    case 2
    note B = branches_cons [OF d rc(2) branches_cons [OF d rt(2) branches_cons [OF d rzz(2) branches_nil]], where en = en]
    have z: "ps ! 0 = 0" "ps ! 1 = 0" using r 2 by (simp_all add: reads_def)
    show ?thesis using sl [of 0] sl [of 1] sl [of 2] 2 z
      by (intro refines_as [OF B [of "ps ! 2 / 2" "ps ! 2 / 2" "- (ps ! 2) / 2"] _ _ ei_unit])
        (simp_all add: reads rc(1) rt(1) rzz(1) rots_cphase [OF rc(2) rt(2) rzz(2) q(3-5), simplified])
  next
    case 3
    note B = branches_cons [OF d r1(2) branches_cons [OF d r2(2) branches_nil], where en = en]
    show ?thesis using sl [of 0] 3
      by (intro refines_as [OF B [of "ps ! 0" "- (ps ! 0)"], where c = 1])
        (simp_all add: reads r1(1) r2(1) rots_rbs [OF r1(2) r2(2) q(3-5), simplified])
  qed
qed

lemma ccz_refines:
  assumes d: "faithful drn" and q: "x < unat N" "y < unat N" "z < unat N" "x \<noteq> y" "x \<noteq> z" "y \<noteq> z"
  shows "refines en N (branches en drn (ccz_rotations (unat N) x y z)) (\<lambda>st. scale (ei (pi / 8)) (ccz x y z st))"
proof -
  let ?n = "unat N" and ?g = "\<lambda>qs. map (\<lambda>q. (q, CHR ''z'')) qs"
  obtain r1 where r1: "gen_z_product ?n [x] = Done r1" "gen_for ?n (?g [x]) r1" using gen_z_product_ok [of "[x]" ?n] q by auto
  obtain r2 where r2: "gen_z_product ?n [y] = Done r2" "gen_for ?n (?g [y]) r2" using gen_z_product_ok [of "[y]" ?n] q by auto
  obtain r3 where r3: "gen_z_product ?n [z] = Done r3" "gen_for ?n (?g [z]) r3" using gen_z_product_ok [of "[z]" ?n] q by auto
  obtain r4 where r4: "gen_z_product ?n [x, y] = Done r4" "gen_for ?n (?g [x, y]) r4" using gen_z_product_ok [of "[x, y]" ?n] q by auto
  obtain r5 where r5: "gen_z_product ?n [x, z] = Done r5" "gen_for ?n (?g [x, z]) r5" using gen_z_product_ok [of "[x, z]" ?n] q by auto
  obtain r6 where r6: "gen_z_product ?n [y, z] = Done r6" "gen_for ?n (?g [y, z]) r6" using gen_z_product_ok [of "[y, z]" ?n] q by auto
  obtain r7 where r7: "gen_z_product ?n [x, y, z] = Done r7" "gen_for ?n (?g [x, y, z]) r7" using gen_z_product_ok [of "[x, y, z]" ?n] q by auto
  note B = branches_cons [OF d r1(2) branches_cons [OF d r2(2) branches_cons [OF d r3(2) branches_cons [OF d r4(2)
    branches_cons [OF d r5(2) branches_cons [OF d r6(2) branches_cons [OF d r7(2) branches_nil]]]]]]]
  show ?thesis
    by (rule refines_as [OF B [of en "- pi / 4" "- pi / 4" "- pi / 4" "pi / 4" "pi / 4" "pi / 4" "- pi / 4"], where c = 1])
      (simp_all add: ccz_rotations_def r1(1) r2(1) r3(1) r4(1) r5(1) r6(1) r7(1)
        rots_ccz [OF r1(2) r2(2) r3(2) r4(2) r5(2) r6(2) r7(2) q, simplified])
qed

lemma conjugate_triple:
  assumes d: "faithful drn" and r: "reads b (unat N) op ps qs" and g: "op_gate op \<in> {CCX, CSwap}"
  shows "refines en N (conjugate_gate en drn op b (unat N)) (prop_action b op)"
proof -
  let ?n = "unat N" and ?x = "qs ! 0" and ?y = "qs ! Suc 0" and ?z = "qs ! 2"
  have nq: "num_qubits (op_gate op) = 3" using g by auto
  then have act: "prop_action b op = gate_action (op_gate op) ps qs"
    and rd: "\<And>i. i < 3 \<Longrightarrow> qubit_of op i = Done (qs ! i) \<and> qs ! i < ?n"
    and ne: "\<And>i j. i < 3 \<Longrightarrow> j < 3 \<Longrightarrow> i \<noteq> j \<Longrightarrow> qs ! i \<noteq> qs ! j"
    using r by (simp_all add: reads_def)
  have q: "?x < ?n" "?y < ?n" "?z < ?n" "?x \<noteq> ?y" "?x \<noteq> ?z" "?y \<noteq> ?z"
    using rd [of 0] rd [of "Suc 0"] rd [of 2] ne [of 0 "Suc 0"] ne [of 0 2] ne [of "Suc 0" 2] by simp_all
  note Hz = map_single_refines [OF d tables1(1) gate1q_unitary(1) q(3), of en]
  note C = refines_comp [OF Hz refines_comp [OF ccz_refines [OF d q, of en] Hz]]
  have h: "dense_1q ?z gate_h (scale c (ccz ?x ?y ?z (dense_1q ?z gate_h st))) = scale c (permuted (toffoli ?x ?y ?z) st)"
    if "length st = 2 ^ ?n" for c st
    by (rule hadamard_ccz [OF q(1,2,3,5,6) that])
  show ?thesis
  proof (cases "op_gate op = CCX")
    case True
    have "prop_action b op st = permuted (toffoli ?x ?y ?z) st" for st by (simp add: act True gate_action_three)
    then show ?thesis
      using True rd [of 0] rd [of 1] rd [of 2]
      by (intro refines_phase [OF refines_eq [OF _ C], where c = "ei (- pi / 8)"])
        (simp_all add: conjugate_gate_def ei_unit h ei_mult)
  next
    case False
    then have g: "op_gate op = CSwap" using g by blast
    note X = map_two_refines [OF d tables2(1) gate2q_unitary(1) q(3,2) q(6) [symmetric], of en]
    note F = refines_comp [OF X refines_comp [OF Hz refines_comp [OF ccz_refines [OF d q, of en] refines_comp [OF Hz X]]]]
    have "prop_action b op st = permuted (fredkin ?x ?y ?z) st" for st by (simp add: act g gate_action_three)
    then show ?thesis
      using g rd [of 0] rd [of 1] rd [of 2]
      by (intro refines_phase [OF refines_eq [OF _ F], where c = "ei (- pi / 8)"])
        (simp_all add: conjugate_gate_def ei_unit h ei_mult fredkin_as_cx [OF q])
  qed
qed


lemma conjugate_refines:
  assumes d: "faithful drn" and p: "propagable b (unat N) op"
  shows "refines en N (conjugate en drn op b (unat N)) (prop_action b op)"
proof -
  let ?n = "unat N"
  have v: "valid_op ?n op" using p by (simp add: propagable_def)
  have c: "check_qubits (op_gate op) ?n [] (op_qubits op) = None"
    using v by (simp add: check_qubits_none valid_op_def)
  have "refines en N (conjugate_gate en drn op b ?n) (prop_action b op)"
  proof (cases "op_gate op \<in> {Measure, Barrier, Id}")
    case True
    then have "prop_action b op st = st" for st by (auto simp: prop_action_def op_action_def gate_action_def)
    then show ?thesis
      using True by (intro refines_as [OF refines_skip, where c = 1]) (auto simp: conjugate_gate_def)
  next
    case False
    then obtain ps qs where r: "reads b ?n op ps qs" using propagable_reads [OF p] by blast
    then have "unitary_gate (op_gate op)" by (simp add: reads_def)
    then consider img where "image1 (op_gate op) = Some img" | img where "image2 (op_gate op) = Some img"
      | "op_gate op \<in> {Rz, Rx, Ry, U1, T, Tdg}" | "op_gate op \<in> {U3, U2}" | "op_gate op \<in> {CRz, CU3, Rbs}" | "op_gate op \<in> {CCX, CSwap}"
      using False by (cases "op_gate op") auto
    then show ?thesis
      by cases (rule conjugate_clifford1 [OF d r] conjugate_clifford2 [OF d r] conjugate_axis [OF d r] conjugate_euler [OF d r]
          conjugate_pair [OF d r] conjugate_triple [OF d r]; assumption)+
  qed
  from refines_comp [OF this refines_check_cap]
  show ?thesis by (intro refines_eq [where F = "conjugate en drn op b ?n"]) (simp_all add: conjugate_def c unless_error_def)
qed

section \<open>The walk\<close>

lemma truncate_refines: "refines en N (\<lambda>s. Done (maybe_truncate en s)) (\<lambda>st. st)"
proof (rule refinesI [OF isometric_id])
  fix s assume inv: "sum_inv N s"
  have "step_ok en N (\<lambda>st. st) s (maybe_truncate en s)"
    using truncate_inv [OF inv] inv truncate_error [OF _ string_value_bound]
    by (auto simp: step_ok_def maybe_truncate_def sum_inv_def)
  then show "(\<exists>s'. Done (maybe_truncate en s) = Done s' \<and> step_ok en N (\<lambda>st. st) s s') \<or>
      (\<exists>e. Done (maybe_truncate en s) = Failed e \<and> over_cap en e)" by simp
qed

text \<open>The peephole: a \<open>Z\<close> rotation between two controlled flips is a \<open>Z Z\<close> rotation.\<close>

lemma zz_sandwich:
  assumes r: "gen_for n [(a, CHR ''z''), (c, CHR ''z'')] r" and q: "a < n" "c < n" "a \<noteq> c" and l: "length st = 2 ^ n"
  shows "dense_2q a c gate_cx (dense_1q c (gate_rz \<theta>) (dense_2q a c gate_cx st)) = rot n r \<theta> st"
proof (rule nth_equalityI)
  fix x assume "x < length (dense_2q a c gate_cx (dense_1q c (gate_rz \<theta>) (dense_2q a c gate_cx st)))"
  then have x: "x < 2 ^ n" "cx_index a c x < 2 ^ n" using l cx_index_less q by simp_all
  have i: "cx_index a c (cx_index a c x) = x" "bit (cx_index a c x) c = bxor (bit x a) (bit x c)"
    using q(3) by (auto simp: cx_index_def bit_put_bit put_bit_same)
  have "rot n r \<theta> st ! x = zphase \<theta> (odd_bits [a, c] x) * st ! x"
    using r q l x by (intro rot_z_nth) simp_all
  then show "dense_2q a c gate_cx (dense_1q c (gate_rz \<theta>) (dense_2q a c gate_cx st)) ! x = rot n r \<theta> st ! x"
    using x l q i by (auto simp: cx_nth gate_rz_def diagonal_nth zphase_def odd_bits_simps)
qed simp


lemma match_zz_facts:
  assumes "match_zz_triple ops e n = Some (a, c, \<theta>e)"
  obtains a' c' where "3 \<le> e" "e \<le> length ops" "a = unat a'" "c = unat c'" "a < n" "c < n" "a \<noteq> c"
    "op_gate (ops ! (e - 3)) = CX" "op_qubits (ops ! (e - 3)) = [a', c']"
    "op_gate (ops ! (e - 2)) = Rz" "op_qubits (ops ! (e - 2)) = [c']" "op_params (ops ! (e - 2)) = [\<theta>e]"
    "op_gate (ops ! (e - 1)) = CX" "op_qubits (ops ! (e - 1)) = [a', c']"
  using assms
  by (auto simp: match_zz_triple_def Let_def word_unat_eq_iff [symmetric] split: if_splits list.splits)

lemma fold_take_Suc: "i < length ops \<Longrightarrow> fold f (take (Suc i) ops) st = f (ops ! i) (fold f (take i ops) st)"
  by (simp add: take_Suc_conv_app_nth)

lemma zz_action:
  assumes p: "\<forall>op \<in> set ops. propagable b (unat N) op" and m: "match_zz_triple ops e (unat N) = Some (a, c, \<theta>e)"
    and l: "length st = 2 ^ unat N"
  shows "\<exists>\<theta> r. resolve_param b \<theta>e = Inr \<theta> \<and> gen_zz (unat N) a c = Done r \<and> gen_for (unat N) [(a, CHR ''z''), (c, CHR ''z'')] r \<and>
    (\<forall>st. length st = 2 ^ unat N \<longrightarrow>
      prop_action b (ops ! (e - 1)) (prop_action b (ops ! (e - 2)) (prop_action b (ops ! (e - 3)) st)) = rot (unat N) r \<theta> st)"
proof -
  obtain a' c' where z: "3 \<le> e" "e \<le> length ops" "a = unat a'" "c = unat c'" "a < unat N" "c < unat N" "a \<noteq> c"
    "op_gate (ops ! (e - 3)) = CX" "op_qubits (ops ! (e - 3)) = [a', c']"
    "op_gate (ops ! (e - 2)) = Rz" "op_qubits (ops ! (e - 2)) = [c']" "op_params (ops ! (e - 2)) = [\<theta>e]"
    "op_gate (ops ! (e - 1)) = CX" "op_qubits (ops ! (e - 1)) = [a', c']"
    using match_zz_facts [OF m] .
  obtain r where r: "gen_zz (unat N) a c = Done r" "gen_for (unat N) [(a, CHR ''z''), (c, CHR ''z'')] r"
    using gen_zz_ok [OF z(5-7)] .
  have "ops ! (e - 2) \<in> set ops" using z(1,2) by simp
  then have "propagable b (unat N) (ops ! (e - 2))" using p by blast
  then obtain \<theta> where th: "resolve_param b \<theta>e = Inr \<theta>"
    using z(10,12) by (auto simp: propagable_def split: sum.splits)
  have "prop_action b (ops ! (e - 3)) st = dense_2q a c gate_cx st" "prop_action b (ops ! (e - 1)) st = dense_2q a c gate_cx st"
    "prop_action b (ops ! (e - 2)) st = dense_1q c (gate_rz \<theta>) st" for st
    using z th by (simp_all add: prop_action_def op_action_def gate_action_def)
  then show ?thesis using r th zz_sandwich [OF r(2) z(5-7)] by auto
qed

lemma propagate_loop_refines:
  assumes d: "faithful drn" and p: "\<forall>op \<in> set ops. propagable b (unat N) op"
  shows "i \<le> length ops \<Longrightarrow> refines en N (propagate_loop en drn b (unat N) ops i) (fold (prop_action b) (take i ops))"
proof (induction i rule: less_induct)
  case (less i)
  let ?n = "unat N"
  have tr: "refines en N (\<lambda>s. propagate_loop en drn b ?n ops j (maybe_truncate en s)) (fold (prop_action b) (take j ops))"
    if "j < i" for j
  proof (rule refines_as [OF refines_comp [OF truncate_refines less.IH [OF that]], where c = 1])
    show "j \<le> length ops" using that less.prems by simp
  qed simp_all
  show ?case
  proof (cases "i = 0")
    case True
    then show ?thesis by (intro refines_as [OF refines_skip, where c = 1]) (simp_all add: propagate_loop.simps)
  next
    case False
    show ?thesis
    proof (cases "if fold_zz en then match_zz_triple ops i ?n else None")
      case None
      let ?op = "ops ! (i - 1)"
      have i: "i - 1 < length ops" "Suc (i - 1) = i" using False less.prems by simp_all
      have op: "propagable b ?n ?op" using p i(1) by simp
      then have "op_condition ?op = None" by (simp add: propagable_def)
      then have eq: "propagate_loop en drn b ?n ops i s =
          bind_run (conjugate en drn ?op b ?n s) (\<lambda>s'. propagate_loop en drn b ?n ops (i - 1) (maybe_truncate en s'))" for s
        using False None i(1) by (subst propagate_loop.simps) (simp add: index_of_def)
      have "i - 1 < i" using False by simp
      note R = refines_comp [OF conjugate_refines [OF d op] tr [OF this]]
      show ?thesis
        by (rule refines_as [OF R eq, where c = 1]) (simp_all add: fold_take_Suc [OF i(1), unfolded i(2)])
    next
      case (Some t)
      obtain a c \<theta>e where t: "t = (a, c, \<theta>e)" by (cases t)
      have m: "match_zz_triple ops i ?n = Some (a, c, \<theta>e)" using Some t by (simp split: if_splits)
      from match_zz_facts [OF m] have i: "3 \<le> i" by blast
      obtain \<theta> r where z: "resolve_param b \<theta>e = Inr \<theta>" "gen_zz ?n a c = Done r" "gen_for ?n [(a, CHR ''z''), (c, CHR ''z'')] r"
        "\<And>st. length st = 2 ^ ?n \<Longrightarrow>
          prop_action b (ops ! (i - 1)) (prop_action b (ops ! (i - 2)) (prop_action b (ops ! (i - 3)) st)) = rot ?n r \<theta> st"
        using zz_action [OF p m, of "replicate (2 ^ ?n) 0"] by auto
      have eq: "propagate_loop en drn b ?n ops i s =
          bind_run (branch_step en drn r \<theta> s) (\<lambda>s'. propagate_loop en drn b ?n ops (i - 3) (maybe_truncate en s'))" for s
        using False Some t z(1,2) by (subst propagate_loop.simps) (simp add: or_fail_def)
      have lt: "i - 3 < i" using i by simp
      have g: "gen_ok ?n r" using z(3) by (simp add: gen_for_def)
      note R = refines_comp [OF branch_step_refines [OF d g] tr [OF lt]]
      have f: "fold (prop_action b) (take i ops) st = prop_action b (ops ! (i - 1)) (prop_action b (ops ! (i - 2))
          (prop_action b (ops ! (i - 3)) (fold (prop_action b) (take (i - 3) ops) st)))" for st
      proof -
        have b: "i - 1 < length ops" "i - 2 < length ops" "i - 3 < length ops" using i less.prems by simp_all
        have "Suc (i - 1) = i" "Suc (i - 2) = i - 1" "Suc (i - 3) = i - 2" using i by simp_all
        then show ?thesis
          using b [THEN fold_take_Suc, of "prop_action b" st] by simp
      qed
      have len: "length (fold (prop_action b) (take (i - 3) ops) st) = 2 ^ ?n" if "length st = 2 ^ ?n" for st
        using isometric_facts(1) [OF refines_isometric [OF less.IH [OF lt]] that] less.prems by simp
      show ?thesis
        by (rule refines_as [OF R eq, where c = 1]) (simp_all only: f z(4) len scale_1, simp_all)
    qed
  qed
qed

end
