(* ===== verification/PauliExpect.thy ===== *)
theory PauliExpect
  imports PauliPropSound "HOL-Library.List_Lexorder"
begin

text \<open>
  The expectation of the Pauli propagation backend against the state-vector backend: the seeded sum has
  the value of the observable, the zero state reads off the terms without \<open>x\<close> bits, and together with
  the walk over the circuit the certified bound follows.
\<close>

section \<open>Seeding\<close>

definition z_at :: "pauli_string \<Rightarrow> nat \<Rightarrow> bool" where
  "z_at ps q \<longleftrightarrow> (\<exists>(r, p) \<in> set ps. unat r = q \<and> p \<in> {Pauli_Y, Pauli_Z})"

definition y_count :: "pauli_string \<Rightarrow> nat" where
  "y_count ps = length (filter (\<lambda>(_, p). p = Pauli_Y) ps)"

lemma seed_term_ok:
  assumes "\<forall>(q, p) \<in> set ps. unat q < unat N"
  shows "canonical_key k \<Longrightarrow> key_n k = N \<Longrightarrow> \<exists>k'. seed_term (unat N) ps k c = Done (k', c * \<i> ^ y_count ps) \<and>
    canonical_key k' \<and> key_n k' = N \<and>
    (\<forall>q < unat N. xbit k' q = (xbit k q \<or> flip_at ps q) \<and> zbit k' q = (zbit k q \<or> z_at ps q))"
  using assms
proof (induction "unat N" ps k c rule: seed_term.induct)
  case (1 key c)
  then show ?case by (simp add: y_count_def flip_at_def z_at_def)
next
  case (2 q p ps key c)
  have q: "unat q < unat (key_n key)" "\<not> unat N \<le> unat q" using "2.prems" by auto
  have ps: "\<forall>(q, p) \<in> set ps. unat q < unat N" using "2.prems"(3) by simp
  have fx: "flip_at ((q, x) # ps) r = (r = unat q \<and> x \<in> {Pauli_X, Pauli_Y} \<or> flip_at ps r)"
    and fz: "z_at ((q, x) # ps) r = (r = unat q \<and> x \<in> {Pauli_Y, Pauli_Z} \<or> z_at ps r)" for r x
    by (auto simp: flip_at_def z_at_def)
  obtain kx where kx: "key_set_x key (unat q) True = Some kx" "canonical_key kx" "key_n kx = N"
    "\<forall>r < unat N. xbit kx r = (r = unat q \<or> xbit key r) \<and> zbit kx r = zbit key r"
    using key_set_x_done [OF "2.prems"(1) q(1), of True] "2.prems"(2) by auto
  obtain kz where kz: "key_set_z key (unat q) True = Some kz" "canonical_key kz" "key_n kz = N"
    "\<forall>r < unat N. zbit kz r = (r = unat q \<or> zbit key r) \<and> xbit kz r = xbit key r"
    using key_set_z_done [OF "2.prems"(1) q(1), of True] "2.prems"(2) by auto
  obtain ky where ky: "key_set key (unat q) True True = Done ky" "canonical_key ky" "key_n ky = N"
    "\<forall>r < unat N. xbit ky r = (r = unat q \<or> xbit key r) \<and> zbit ky r = (r = unat q \<or> zbit key r)"
    using key_set_done [OF "2.prems"(1) q(1), of True True] "2.prems"(2) by auto
  show ?case
  proof (cases p)
    case Pauli_I
    then show ?thesis using "2.hyps"(1) [OF q(2) Pauli_I "2.prems"(1,2) ps] q by (simp add: fx fz y_count_def)
  next
    case Pauli_X
    from "2.hyps"(2) [OF q(2) Pauli_X kx(2,3) ps] kx q Pauli_X
    show ?thesis by (auto simp: fx fz y_count_def or_panic_def)
  next
    case Pauli_Z
    from "2.hyps"(4) [OF q(2) Pauli_Z kz(2,3) ps] kz q Pauli_Z
    show ?thesis by (auto simp: fx fz y_count_def or_panic_def)
  next
    case Pauli_Y
    from "2.hyps"(3) [OF q(2) Pauli_Y ky(2,3) ps] ky q Pauli_Y
    show ?thesis by (auto simp: fx fz y_count_def)
  qed
qed

text \<open>The coefficient of the image of an index.\<close>

lemma factor_product:
  "valid_string n ps \<Longrightarrow> prod_list (map (factor i) ps) = \<i> ^ y_count ps * chi n (z_at ps) i"
proof (induction ps)
  case Nil
  then show ?case by (simp add: y_count_def z_at_def chi_none)
next
  case (Cons t ps)
  obtain q p where t: "t = (q, p)" by (cases t)
  have v: "valid_string n ps" "unat q < n" "\<not> z_at ps (unat q)"
    using Cons.prems by (force simp: valid_string_def t z_at_def word_unat_eq_iff)+
  have "chi n (z_at (t # ps)) i = chi n ((z_at (t # ps))(unat q := False)) i * sign (z_at (t # ps) (unat q) \<and> bit i (unat q))"
    by (rule chi_split [OF v(2)])
  also have "chi n ((z_at (t # ps))(unat q := False)) i = chi n (z_at ps) i"
    using v(3) by (intro chi_cong) (auto simp: z_at_def t)
  also have "z_at (t # ps) (unat q) = (p \<in> {Pauli_Y, Pauli_Z})" using v(3) by (auto simp: z_at_def t)
  finally show ?case
    using Cons.IH [OF v(1)] by (cases p) (simp_all add: t y_count_def sign_def)
qed

lemma raw_pauli:
  assumes l: "length st = 2 ^ n" and v: "valid_string n ps"
  shows "\<i> ^ y_count ps * braket st (raw n (flip_at ps) (z_at ps) st) = braket st (pauli_apply ps st)"
proof -
  let ?f = "flip_bits n (flip_at ps)"
  have d: "distinct (map fst ps)" "\<And>q. flip_at ps q \<Longrightarrow> q < n" using v by (auto simp: valid_string_def flip_at_def)
  have im: "fst (pauli_image ps i) = ?f i" for i
    by (rule bit_eqI) (use d(2) in \<open>auto simp: pauli_image_bit [OF d(1)] bit_flip_bits\<close>)
  have "braket st (raw n (flip_at ps) (z_at ps) st) = (\<Sum>y<2 ^ n. cnj (st ! y) * (chi n (z_at ps) (?f y) * st ! ?f y))"
    using l by (simp add: braket_def)
  also have "\<dots> = (\<Sum>y<2 ^ n. cnj (st ! ?f y) * (chi n (z_at ps) y * st ! y))"
    using sum.reindex_bij_betw [OF flip_bits_bij, of "\<lambda>y. cnj (st ! y) * (chi n (z_at ps) (?f y) * st ! ?f y)" n "flip_at ps"]
    by simp
  finally have "\<i> ^ y_count ps * braket st (raw n (flip_at ps) (z_at ps) st) =
      (\<Sum>y<2 ^ n. cnj (st ! ?f y) * (\<i> ^ y_count ps * chi n (z_at ps) y) * st ! y)"
    by (simp add: sum_distrib_left mult.commute mult.left_commute)
  then show ?thesis
    unfolding braket_image [OF l v] by (simp add: im pauli_image_coeff factor_product [OF v])
qed

lemma string_value_pauli:
  assumes "length st = 2 ^ n" "valid_string n ps" "\<forall>q < n. xbit k q = flip_at ps q \<and> zbit k q = z_at ps q"
  shows "\<i> ^ y_count ps * string_value n st k = braket st (pauli_apply ps st)"
  using raw_pauli [OF assms(1,2)] raw_cong [of n "xbit k" "flip_at ps" "zbit k" "z_at ps"] assms(3)
  by (simp add: string_value_def)

lemma identity_bits:
  assumes "q < n" "n < 2 ^ 32"
  shows "\<not> xbit (key_identity n) q" "\<not> zbit (key_identity n) q"
  using assms div_ceil64_bound [OF assms(1)] identity_canonical(2) [OF assms(2)]
  by (simp_all add: xbit_def zbit_def x_words_def z_words_def key_width_def)
    (simp_all add: key_identity_def wbit_replicate0)

lemma seed_ok:
  "valid_observable (unat N) a \<Longrightarrow> sum_inv N s \<Longrightarrow> \<exists>s'. seed (unat N) a s = Done s' \<and> sum_inv N s' \<and>
     dropped_mass s' = dropped_mass s \<and>
     (\<forall>st. length st = 2 ^ unat N \<longrightarrow>
       Re (sum_value (string_value (unat N) st) s') = Re (sum_value (string_value (unat N) st) s) + obs_value a st)"
proof (induction a arbitrary: s)
  case Nil
  then show ?case by (simp add: obs_value_def)
next
  case (Cons t a)
  let ?n = "unat N"
  obtain r ps where t: "t = (r, ps)" by (cases t)
  have v: "valid_string ?n ps" "valid_observable ?n a" using Cons.prems(1) by (auto simp: valid_observable_def t)
  have q: "\<forall>(q, p) \<in> set ps. unat q < ?n" using v(1) by (simp add: valid_string_def)
  have b: "?n < 2 ^ 32" using unat_bound [of N] by simp
  have i: "canonical_key (key_identity ?n)" "key_n (key_identity ?n) = N"
    using identity_canonical(1) [OF b] by (simp_all add: key_identity_def)
  obtain k where k: "seed_term ?n ps (key_identity ?n) (of_real r) = Done (k, of_real r * \<i> ^ y_count ps)" "canonical_key k" "key_n k = N"
    "\<forall>q < ?n. xbit k q = flip_at ps q \<and> zbit k q = z_at ps q"
    using seed_term_ok [OF q i, of "of_real r"] identity_bits [OF _ b] by auto
  let ?s = "sum_add k (of_real r * \<i> ^ y_count ps) s"
  have inv: "sum_inv N ?s" unfolding sum_add_def by (rule add_weighted_inv [OF Cons.prems(2) k(2,3)])
  have fin: "finite (dom (sum_terms s))" using Cons.prems(2) by (simp add: sum_inv_def)
  obtain s' where s': "seed ?n a ?s = Done s'" "sum_inv N s'" "dropped_mass s' = dropped_mass ?s"
    "\<And>st. length st = 2 ^ ?n \<Longrightarrow>
       Re (sum_value (string_value ?n st) s') = Re (sum_value (string_value ?n st) ?s) + obs_value a st"
    using Cons.IH [OF v(2) inv] by blast
  have "Re (sum_value (string_value ?n st) ?s) =
      Re (sum_value (string_value ?n st) s) + r * Re (braket st (pauli_apply ps st))" if "length st = 2 ^ ?n" for st
    using string_value_pauli [OF that v(1) k(4)]
    by (simp add: sum_add_def add_weighted_value [OF fin] mult.assoc)
  then show ?case
    using s' k(1) by (intro exI [of _ s']) (simp add: t obs_value_def sum_add_def)
qed

section \<open>Reading the zero state\<close>

lemma all_iz_bits:
  assumes "canonical_key k"
  shows "key_is_all_iz k \<longleftrightarrow> (\<forall>q < unat (key_n k). \<not> xbit k q)"
proof -
  have len: "length (x_words k) = key_width k" using assms by (simp add: canonical_key_def x_words_def)
  have w: "w = 0 \<longleftrightarrow> (\<forall>j<64. \<not> bit (w :: u64) j)" for w
    using bit_eq_iff [of w 0] by (auto simp: bit_imp_possible_bit)
  have "key_is_all_iz k \<longleftrightarrow> (\<forall>i < key_width k. \<forall>j < 64. \<not> bit (x_words k ! i) j)"
    unfolding key_is_all_iz_def list_all_length len w ..
  also have "\<dots> \<longleftrightarrow> (\<forall>q. q div 64 < key_width k \<longrightarrow> \<not> xbit k q)"
  proof (intro iffI allI impI)
    fix i j assume h: "\<forall>q. q div 64 < key_width k \<longrightarrow> \<not> xbit k q" "i < key_width k" "j < (64 :: nat)"
    have "(64 * i + j) div 64 = i" "(64 * i + j) mod 64 = j" using h(3) by auto
    then show "\<not> bit (x_words k ! i) j" using h(1,2) by (metis wbit_bit xbit_def)
  next
    fix q assume "\<forall>i < key_width k. \<forall>j < 64. \<not> bit (x_words k ! i) j" "q div 64 < key_width k"
    then show "\<not> xbit k q" by (simp add: xbit_def wbit_bit)
  qed
  also have "\<dots> \<longleftrightarrow> (\<forall>q < unat (key_n k). \<not> xbit k q)"
    using assms by (auto simp: canonical_key_iff key_width_def div_ceil64_bound not_le) (meson not_le)
  finally show ?thesis .
qed

lemma string_value_zero:
  assumes "canonical_key k" "unat (key_n k) = n"
  shows "string_value n (sv_zero_state n) k = (if key_is_all_iz k then 1 else 0)"
proof -
  let ?z = "sv_zero_state n"
  have l: "length ?z = 2 ^ n" by (rule sv_zero_state_ok)
  have "string_value n ?z k = (\<Sum>y<(2 :: nat) ^ n. if y = 0 then raw n (xbit k) (zbit k) ?z ! 0 else 0)"
    unfolding string_value_def braket_def l by (intro sum.cong) (auto simp: zero_state_nth)
  also have "\<dots> = raw n (xbit k) (zbit k) ?z ! 0" by simp
  also have "\<dots> = chi n (zbit k) (flip_bits n (xbit k) 0) * ?z ! flip_bits n (xbit k) 0" using l by simp
  also have "\<dots> = (if key_is_all_iz k then 1 else 0)"
  proof (cases "key_is_all_iz k")
    case True
    then have "flip_bits n (xbit k) 0 = 0" using assms by (intro flip_bits_none) (simp add: all_iz_bits)
    then show ?thesis using True zero_state_nth [of 0 n] by (simp add: chi_def parity_of_False)
  next
    case False
    then obtain q where q: "q < n" "xbit k q" using assms by (auto simp: all_iz_bits)
    then have "bit (flip_bits n (xbit k) 0) q" by (simp add: bit_flip_bits)
    then have "flip_bits n (xbit k) 0 \<noteq> 0" by (metis bit_0_eq bot_apply bot_bool_def)
    then show ?thesis using False flip_bits_less [of 0 n "xbit k"] by (simp add: zero_state_nth)
  qed
  finally show ?thesis .
qed

lemma iz_value_zero:
  assumes "faithful drn" "sum_inv N s"
  shows "iz_value (drn (sum_terms s)) = sum_value (string_value (unat N) (sv_zero_state (unat N))) s"
proof -
  have "iz_value ts = list_value (string_value (unat N) (sv_zero_state (unat N))) ts"
    if "\<forall>(k, w) \<in> set ts. canonical_key k \<and> key_n k = N" for ts
    using that
  proof (induction ts)
    case (Cons t ts)
    then show ?case by (cases t) (auto simp: iz_value_def string_value_zero)
  qed (simp add: iz_value_def)
  then have "iz_value (drn (sum_terms s)) = list_value (string_value (unat N) (sv_zero_state (unat N))) (drn (sum_terms s))"
    using drained_keys [OF assms] by blast
  then show ?thesis using faithful_facts(2) [OF assms(1)] assms(2) by (simp add: sum_inv_def)
qed


section \<open>Both backends\<close>

definition propagable_circuit :: "binding \<Rightarrow> circuit_ir \<Rightarrow> bool" where
  "propagable_circuit b d \<longleftrightarrow> (\<forall>op \<in> set (cir_ops d). propagable b (unat (cir_qubits d)) op)"

definition exact_value :: "binding \<Rightarrow> circuit_ir \<Rightarrow> observable \<Rightarrow> real" where
  "exact_value b d a = obs_value a (fold (prop_action b) (cir_ops d) (sv_zero_state (unat (cir_qubits d))))"

lemma length_fold_prop_action: "length (fold (prop_action b) ops st) = length st"
  by (induction ops arbitrary: st) (simp_all add: prop_action_def op_action_def)

lemma fold_prop_action:
  "\<forall>op \<in> set ops. op_condition op = None \<Longrightarrow> fold (prop_action b) ops st = fold (op_action b) (filter (runs c) ops) st"
  by (induction ops arbitrary: st) (auto simp: prop_action_def runs_def condition_satisfied_def)

lemma sv_expectation_exact:
  assumes "refuse_qudits c ''statevector'' = None" "valid_observable (unat (cir_qubits c)) a"
    "prepare_for_expectation c a = Inr (d, a')" "propagable_circuit b d"
    "capacity_check (host_mem h) (cir_qubits d) False = Done ()"
  shows "sv_expectation h c b a = Done (exact_value b d a')"
proof -
  let ?n = "unat (cir_qubits d)"
  note keep = prepare_keeps [OF assms(3)] and z = sv_zero_state_ok(1) [of ?n]
  have vq: "validate_qubits (cir_qubits c) a = None"
    using assms(2) by (fastforce simp: validate_qubits_ok valid_observable_def valid_string_def word_less_nat_alt)
  have va: "valid_observable ?n a'" using assms(2) keep by (auto simp: valid_observable_def)
  have n: "?n < 64" using capacity_Done [OF assms(5)] .
  have p: "propagable b ?n op" if "op \<in> set (cir_ops d)" for op using assms(4) that by (simp add: propagable_circuit_def)
  have u: "unitary_ops b (cir_ops d)" using p by (auto simp: unitary_ops_def propagable_def)
  have v: "\<forall>op \<in> set (cir_ops d). valid_op ?n op" "\<forall>op \<in> set (cir_ops d). op_condition op = None"
    using p by (simp_all add: propagable_def)
  have "evolve_once (host_mem h) d b analytic_config r True =
      Done (fold (prop_action b) (cir_ops d) (sv_zero_state ?n), replicate (unat (cir_cbits d)) 0, r)" for r
    using evolve_unitary [of ?n "cir_ops d" b "sv_zero_state ?n"] n u v z assms(5)
    by (simp add: evolve_once_def Let_def analytic_config_def fold_prop_action [OF v(2), where c = "unat (cir_cbits d)"])
  then have "statevector_of (execute h d b analytic_config) = Done (fold (prop_action b) (cir_ops d) (sv_zero_state ?n))"
    using keep(2) assms(1) by (simp add: execute_def unless_error_def analytic_config_def statevector_of_def Let_def split: bool.split)
  moreover have "length (fold (prop_action b) (cir_ops d) st) = length st" for st
    by (rule length_fold_prop_action)
  ultimately show ?thesis
    using assms(1,3) vq va observable_loop_value [of _ "cir_qubits d" a' 0] n z
    by (simp add: sv_expectation_def unless_error_def or_fail_def exact_value_def)
qed

lemma propagate_sound:
  assumes "faithful drn" "propagable_circuit b d" "valid_observable (unat (cir_qubits d)) a"
  shows "(\<exists>s. propagate en drn d b a = Done s \<and> sum_inv (cir_qubits d) s \<and>
      (\<not> truncates en \<longrightarrow> dropped_mass s = 0) \<and>
      \<bar>exact_value b d a - Re (iz_value (drn (sum_terms s)))\<bar> \<le> dropped_mass s) \<or>
    (\<exists>e. propagate en drn d b a = Failed e \<and> over_cap en e)"
proof -
  let ?N = "cir_qubits d" and ?n = "unat (cir_qubits d)"
  obtain s0 where s0: "seed ?n a sum_new = Done s0" "sum_inv ?N s0" "dropped_mass s0 = 0"
    "\<And>st. length st = 2 ^ ?n \<Longrightarrow> Re (sum_value (string_value ?n st) s0) = obs_value a st"
    using seed_ok [OF assms(3) sum_new_inv] by (auto simp: sum_value_def sum_new_def)
  have p: "\<forall>op \<in> set (cir_ops d). propagable b ?n op" using assms(2) by (simp add: propagable_circuit_def)
  let ?U = "fold (prop_action b) (cir_ops d)"
  note R = propagate_loop_refines [OF assms(1) p order_refl, of en, simplified]
  have z: "length (sv_zero_state ?n) = 2 ^ ?n" "norm_sq (sv_zero_state ?n) = 1" by (rule sv_zero_state_ok)+
  have run: "propagate en drn d b a = propagate_loop en drn b ?n (cir_ops d) (length (cir_ops d)) s0"
    by (simp add: propagate_def Let_def s0(1))
  from refines_run [OF R s0(2)] show ?thesis
  proof (elim disjE exE conjE)
    fix s assume s: "propagate_loop en drn b ?n (cir_ops d) (length (cir_ops d)) s0 = Done s" "step_ok en ?N ?U s0 s"
    then have inv: "sum_inv ?N s" by (simp add: step_ok_def)
    have e: "cmod (sum_value (string_value ?n (?U (sv_zero_state ?n))) s0 - sum_value (string_value ?n (sv_zero_state ?n)) s) \<le> dropped_mass s"
      using s(2) z s0(3) unfolding step_ok_def by force
    have "exact_value b d a = Re (sum_value (string_value ?n (?U (sv_zero_state ?n))) s0)"
      using s0(4) isometric_facts(1) [OF refines_isometric [OF R] z(1)] by (simp add: exact_value_def)
    then have "\<bar>exact_value b d a - Re (iz_value (drn (sum_terms s)))\<bar> \<le> dropped_mass s"
      using order_trans [OF abs_Re_le_cmod e] by (simp add: iz_value_zero [OF assms(1) inv])
    then show ?thesis using s inv run s0(3) by (auto simp: step_ok_def)
  qed (auto simp: run)
qed


lemma prepare_again:
  assumes "prepare_for_expectation c a = Inr (d, a')"
  shows "prepare_for_expectation d a' = Inr (d, a')"
proof -
  obtain ms where p: "prepare_circuit_for_expectation c = Inr (d, ms)" "a' = dephase ms a"
    using assms by (auto simp: prepare_for_expectation_def map_sum_Inr)
  have "\<not> measures d"
  proof (cases "measures c")
    case True
    then obtain out where out: "defer_loop 0 (cir_ops c) [] [] = Inr (out, ms)" "d = with_ops out c"
      using p(1) by (auto simp: prepare_circuit_for_expectation_def map_sum_Inr defer_measurements_def split: option.splits)
    have "cir_ops d = out" using out(2) by (cases c) simp
    then show ?thesis using defer_loop_clean [OF out(1)] by (auto simp: measures_def list_ex_iff)
  next
    case False
    then show ?thesis using p(1) by (simp add: prepare_circuit_for_expectation_def)
  qed
  then show ?thesis by (simp add: prepare_for_expectation_def prepare_circuit_for_expectation_def dephase_def)
qed

lemma refuse_qudits_name: "refuse_qudits c x = None \<longleftrightarrow> refuse_qudits c y = None"
  by (simp add: refuse_qudits_def split: option.split)

text \<open>The certified run, with the value of the exact circuit in place of the other backend.\<close>

definition refused :: "engine \<Rightarrow> observable \<Rightarrow> omega_error \<Rightarrow> bool" where
  "refused en a e \<longleftrightarrow> over_cap en e \<or> (\<exists>m x. e = Unsupported (Uninformative m x) \<and> x \<le> m \<and>
     (\<not> truncates en \<longrightarrow> m = 0) \<and> (max_dropped_mass en = None \<longrightarrow> observable_l1_norm a \<le> x))"

lemma certificate_sound:
  assumes "faithful drn" "refuse_qudits c ''statevector'' = None" "valid_observable (unat (cir_qubits c)) a"
    "prepare_for_expectation c a = Inr (d, a')" "propagable_circuit b d"
  shows "(\<exists>v cert. expectation_with_certificate en drn c b a = Done (v, cert) \<and> cert_value cert = v \<and> cert_engine cert = en \<and>
      cert_range cert = observable_l1_norm a' \<and> past_ceiling en cert = None \<and>
      (\<not> truncates en \<longrightarrow> cert_dropped_mass cert = 0) \<and> \<bar>exact_value b d a' - v\<bar> \<le> cert_dropped_mass cert) \<or>
    (\<exists>e. expectation_with_certificate en drn c b a = Failed e \<and> refused en a' e)"
proof -
  note keep = prepare_keeps [OF assms(4)]
  have va: "valid_observable (unat (cir_qubits d)) a'" using assms(3) keep by (auto simp: valid_observable_def)
  have q: "refuse_qudits c ''pauliprop'' = None" using assms(2) refuse_qudits_name by blast
  from propagate_sound [OF assms(1,5) va, of en] show ?thesis
  proof (elim disjE exE conjE)
    fix s assume s: "propagate en drn d b a' = Done s" "\<not> truncates en \<longrightarrow> dropped_mass s = 0"
      "\<bar>exact_value b d a' - Re (iz_value (drn (sum_terms s)))\<bar> \<le> dropped_mass s"
    define cert where "cert = \<lparr>cert_dropped_mass = dropped_mass s, cert_final_terms = sum_len s, cert_engine = en,
      cert_range = observable_l1_norm a', cert_value = Re (iz_value (drn (sum_terms s)))\<rparr>"
    have run: "expectation_with_certificate en drn c b a =
        unless_error (past_ceiling en cert) (Done (Re (iz_value (drn (sum_terms s))), cert))"
      by (simp add: expectation_with_certificate_def q assms(4) s(1) unless_error_def or_fail_def cert_def Let_def)
    show ?thesis
    proof (cases "past_ceiling en cert")
      case None
      then show ?thesis using s run by (intro disjI1 exI [of _ cert] exI [of _ "cert_value cert"]) (simp add: unless_error_def, simp add: cert_def)
    next
      case (Some e)
      then have "\<exists>x. e = Unsupported (Uninformative (dropped_mass s) x) \<and> x \<le> dropped_mass s \<and>
          (max_dropped_mass en = None \<longrightarrow> observable_l1_norm a' \<le> x)"
        by (auto simp: past_ceiling_def cert_def Let_def split: option.splits if_splits)
      then show ?thesis using run Some s(2) by (auto simp: unless_error_def refused_def)
    qed
  next
    fix e assume "propagate en drn d b a' = Failed e" "over_cap en e"
    then show ?thesis by (simp add: expectation_with_certificate_def q assms(4) unless_error_def or_fail_def refused_def)
  qed
qed

lemma pauliprop_certificate:
  assumes "refuse_qudits c ''statevector'' = None" "prepare_for_expectation c a = Inr (d, a')"
  shows "pauliprop_expectation en drn c b a =
    bind_run (expectation_with_certificate en drn c b a) (\<lambda>(v, cert). Done v)"
proof -
  have q: "refuse_qudits c ''pauliprop'' = None" using assms(1) refuse_qudits_name by blast
  have qd: "refuse_qudits d ''pauliprop'' = None" using prepare_keeps(2) [OF assms(2)] q by simp
  have "expectation_with_certificate en drn c b a = expectation_with_certificate en drn d b a'"
    by (simp add: expectation_with_certificate_def q qd assms(2) prepare_again [OF assms(2)] or_fail_def unless_error_def)
  then show ?thesis
    by (cases "expectation_with_certificate en drn d b a'")
      (auto simp: pauliprop_expectation_def expectation_with_budget_def q assms(2) or_fail_def unless_error_def)
qed

text \<open>A concrete order of the terms: by the number of qubits and the words of the keys.\<close>

definition key_code :: "pauli_key \<Rightarrow> nat list" where
  "key_code k = unat (key_n k) # map unat (key_words k)"

definition key_of_code :: "nat list \<Rightarrow> pauli_key" where
  "key_of_code c = \<lparr>key_words = map of_nat (tl c), key_n = of_nat (hd c)\<rparr>"

definition drain_sorted :: drain where
  "drain_sorted m = map (\<lambda>k. (k, the (m k))) (map key_of_code (sorted_list_of_set (key_code ` dom m)))"

lemma key_of_code [simp]: "key_of_code (key_code k) = k"
  by (simp add: key_of_code_def key_code_def comp_def)

lemma drain_sorted_faithful: "faithful drain_sorted"
  unfolding faithful_def
proof (intro allI impI)
  fix m :: terms assume f: "finite (dom m)"
  let ?ks = "map key_of_code (sorted_list_of_set (key_code ` dom m))"
  have inj: "inj_on key_of_code (key_code ` dom m)" by (rule inj_on_inverseI [where g = key_code]) auto
  have d: "distinct ?ks" using f inj by (simp add: distinct_map)
  have set: "set ?ks = dom m" using f by (auto simp: image_image)
  have e: "map fst (drain_sorted m) = ?ks" by (simp add: drain_sorted_def comp_def)
  have "map_of (drain_sorted m) k = m k" for k
  proof (cases "k \<in> dom m")
    case True
    then have "(k, the (m k)) \<in> set (drain_sorted m)" using set by (auto simp: drain_sorted_def)
    then have "map_of (drain_sorted m) k = Some (the (m k))" using d e by (intro map_of_is_SomeI) simp_all
    then show ?thesis using True by auto
  next
    case False
    then have "k \<notin> fst ` set (drain_sorted m)" using set e by (metis set_map)
    then show ?thesis using False by (simp add: map_of_eq_None_iff domIff)
  qed
  then show "distinct (map fst (drain_sorted m)) \<and> map_of (drain_sorted m) = m" using d e by auto
qed

section \<open>Properties\<close>

text \<open>C2: Pauli propagation is certified against the state vector: on a circuit of supported unconditioned
  gates with resolving parameters that fits the state-vector backend's memory, with a valid observable and whatever order the hash map hands out its terms in, the state-vector
  backend returns a number, and the propagating backend never panics; it refuses, because the sum outgrew
  the ceiling on its terms or because the dropped mass reached the ceiling on the error, or it returns a
  value whose distance from that number is at most the dropped mass of its certificate.\<close>

theorem pauliprop_certified:
  assumes "faithful drn" "refuse_qudits c ''statevector'' = None" "valid_observable (unat (cir_qubits c)) a"
    "prepare_for_expectation c a = Inr (d, a')" "propagable_circuit b d"
    "capacity_check (host_mem h) (cir_qubits d) False = Done ()"
  shows "\<exists>w. sv_expectation h c b a = Done w \<and>
    (case expectation_with_certificate en drn c b a of
       Done (v, cert) \<Rightarrow> pauliprop_expectation en drn c b a = Done v \<and> \<bar>w - v\<bar> \<le> cert_dropped_mass cert \<and>
         (is_exact cert \<longrightarrow> v = w)
     | Failed e \<Rightarrow> pauliprop_expectation en drn c b a = Failed e \<and> refused en a' e
     | Panicked \<Rightarrow> False)"
proof (intro exI conjI)
  show "sv_expectation h c b a = Done (exact_value b d a')" by (rule sv_expectation_exact [OF assms(2-6)])
  show "case expectation_with_certificate en drn c b a of
       Done (v, cert) \<Rightarrow> pauliprop_expectation en drn c b a = Done v \<and> \<bar>exact_value b d a' - v\<bar> \<le> cert_dropped_mass cert \<and>
         (is_exact cert \<longrightarrow> v = exact_value b d a')
     | Failed e \<Rightarrow> pauliprop_expectation en drn c b a = Failed e \<and> refused en a' e
     | Panicked \<Rightarrow> False"
    using certificate_sound [OF assms(1-5), of en] pauliprop_certificate [OF assms(2,4), of en drn b]
    by (auto simp: is_exact_def)
qed


definition plus_state :: circuit_ir where
  "plus_state = CircuitIR 1 0
     [\<lparr>op_gate = H, op_qubits = [0], op_params = [], op_cbit = None, op_condition = None\<rparr>,
      \<lparr>op_gate = Rz, op_qubits = [0], op_params = [Concrete 1], op_cbit = None, op_condition = None\<rparr>] GateBased [] [] [] []"

lemma plus_state_facts:
  "refuse_qudits plus_state ''statevector'' = None" "valid_observable (unat (cir_qubits plus_state)) [(1, [(0, Pauli_X)])]"
  "prepare_for_expectation plus_state [(1, [(0, Pauli_X)])] = Inr (plus_state, [(1, [(0, Pauli_X)])])"
  "propagable_circuit [] plus_state"
  "capacity_check (host_mem \<lparr>host_mem = \<lparr>hm_oversubscribe = True, hm_available = None\<rparr>, seeded = (\<lambda>_. (sconst 0, sconst 0)),
     unseeded = (sconst 0, sconst 0), checked_build = True\<rparr>) (cir_qubits plus_state) False = Done ()"
  by (simp_all add: plus_state_def refuse_qudits_def first_qudit_def valid_observable_def valid_string_def
      prepare_for_expectation_def prepare_circuit_for_expectation_def measures_def dephase_def propagable_circuit_def
      propagable_def valid_op_def capacity_check_cases word_le_nat_alt)

theorem pauliprop_certified_witness:
  "\<exists>w. sv_expectation \<lparr>host_mem = \<lparr>hm_oversubscribe = True, hm_available = None\<rparr>, seeded = (\<lambda>_. (sconst 0, sconst 0)),
       unseeded = (sconst 0, sconst 0), checked_build = True\<rparr> plus_state [] [(1, [(0, Pauli_X)])] = Done w \<and>
    (case expectation_with_certificate (engine_with_truncation_freq (1 / 2) None None) drain_sorted plus_state [] [(1, [(0, Pauli_X)])] of
       Done (v, cert) \<Rightarrow> \<bar>w - v\<bar> \<le> cert_dropped_mass cert | Failed e \<Rightarrow> True | Panicked \<Rightarrow> False)"
  using pauliprop_certified [OF drain_sorted_faithful plus_state_facts, of "engine_with_truncation_freq (1 / 2) None None"]
  by (auto split: run.splits prod.splits)



section \<open>Where the two backends differ\<close>

text \<open>An observable whose terms all left with the measured qubits has range zero: the exact run drops
  nothing, reaches its ceiling of zero and is refused.\<close>

lemma zero_observable_refused:
  assumes "faithful drn" "refuse_qudits c ''statevector'' = None" "valid_observable (unat (cir_qubits c)) a"
    "prepare_for_expectation c a = Inr (d, [])" "propagable_circuit b d"
    "capacity_check (host_mem h) (cir_qubits d) False = Done ()"
    "\<not> truncates en" "max_terms en = None" "max_dropped_mass en = None"
  shows "sv_expectation h c b a = Done 0" "pauliprop_expectation en drn c b a = Failed (Unsupported (Uninformative 0 0))"
proof -
  show "sv_expectation h c b a = Done 0"
    using sv_expectation_exact [OF assms(2-6)] by (simp add: exact_value_def obs_value_def)
  have q: "refuse_qudits c ''pauliprop'' = None" using assms(2) refuse_qudits_name by blast
  have "valid_observable (unat (cir_qubits d)) []" by (simp add: valid_observable_def)
  from propagate_sound [OF assms(1,5) this, of en] obtain s where
    "propagate en drn d b [] = Done s" "dropped_mass s = 0" "Re (iz_value (drn (sum_terms s))) = 0"
    using assms(7,8) by (auto simp: over_cap_def exact_value_def obs_value_def)
  then show "pauliprop_expectation en drn c b a = Failed (Unsupported (Uninformative 0 0))"
    using assms(9) q unfolding pauliprop_certificate [OF assms(2,4)]
    by (simp add: expectation_with_certificate_def unless_error_def or_fail_def assms(4) past_ceiling_def observable_l1_norm_def Let_def)
qed

text \<open>A string that names a qubit twice: the seed sets the bits where the other backend multiplies.\<close>

lemma seed_repeated_qubit:
  "seed_term 1 [(0, Pauli_X), (0, Pauli_X)] (key_identity 1) 1 = seed_term 1 [(0, Pauli_X)] (key_identity 1) 1"
  "pauli_image [(0, Pauli_X), (0, Pauli_X)] i = (i, 1)"
proof -
  have "(i XOR 1) XOR 1 = i" by (simp add: xor.assoc)
  then show "pauli_image [(0, Pauli_X), (0, Pauli_X)] i = (i, 1)" by (simp add: pauli_image_def pauli_step_def Let_def)
qed (simp_all add: key_identity_def key_set_x_def or_panic_def wset_def div_ceil64_def Let_def)

text \<open>A controlled \<open>U3\<close> with angles inside the tolerance is propagated as if they were zero, and nothing
  is charged for it.\<close>

lemma cu3_tolerance:
  assumes "op_gate op = CU3" "op_params op = [Concrete \<theta>, Concrete \<phi>, Concrete l]" "\<bar>\<theta>\<bar> \<le> 1 / 10 ^ 12" "\<bar>\<phi>\<bar> \<le> 1 / 10 ^ 12"
  shows "conjugate_gate en drn op b n s = conjugate_gate en drn (op\<lparr>op_params := [Concrete 0, Concrete 0, Concrete l]\<rparr>) b n s"
  using assms
  by (simp add: conjugate_gate_def slot_def index_of_def or_fail_def qubit_of_def not_less [symmetric])

end
