(* ===== verification/TableauExpect.thy ===== *)
theory TableauExpect
  imports TableauProb PauliExpect
begin

text \<open>
  The tableau backend against the state-vector backend: expectations and exact probabilities.
\<close>

section \<open>The row of an observable's string\<close>

lemma pauli_bits_ok:
  "\<forall>(q, x) \<in> set ps. unat q < n \<Longrightarrow> wf_row n p \<Longrightarrow> \<exists>p'. pauli_bits n ps p = Done p' \<and> wf_row n p' \<and> row_sign p' = row_sign p \<and>
     (\<forall>q < n. row_x p' ! q = (row_x p ! q \<or> flip_at ps q) \<and> row_z p' ! q = (row_z p ! q \<or> z_at ps q))"
proof (induction n ps p rule: pauli_bits.induct)
  case (1 n p)
  then show ?case by (simp add: flip_at_def z_at_def)
qed (auto simp: flip_at_def z_at_def wf_row_def nth_list_update)

lemma y_product:
  assumes "valid_string n ps"
  shows "(\<Prod>q<n. if flip_at ps q \<and> z_at ps q then \<i> else 1) = \<i> ^ y_count ps"
  using assms
proof (induction ps)
  case Nil
  then show ?case by (simp add: y_count_def flip_at_def)
next
  case (Cons t ps)
  obtain q p where t: "t = (q, p)" by (cases t)
  have v: "valid_string n ps" "unat q < n" "\<not> flip_at ps (unat q)" "\<not> z_at ps (unat q)"
    using Cons.prems by (force simp: valid_string_def t z_at_def flip_at_def word_unat_eq_iff)+
  let ?g = "\<lambda>ps q. if flip_at ps q \<and> z_at ps q then \<i> else 1"
  have o: "?g (t # ps) r = ?g ps r" if "r \<noteq> unat q" for r using that by (auto simp: flip_at_def z_at_def t)
  have "(\<Prod>q<n. ?g (t # ps) q) = ?g (t # ps) (unat q) * (\<Prod>r \<in> {..<n} - {unat q}. ?g (t # ps) r)"
    using v(2) by (simp add: prod.remove [of "{..<n}" "unat q"])
  also have "(\<Prod>r \<in> {..<n} - {unat q}. ?g (t # ps) r) = (\<Prod>r \<in> {..<n} - {unat q}. ?g ps r)"
    using o by (intro prod.cong) auto
  also have "\<dots> = (\<Prod>q<n. ?g ps q)" using v by (simp add: prod.remove [of "{..<n}" "unat q"])
  also have "\<dots> = \<i> ^ y_count ps" by (rule Cons.IH [OF v(1)])
  also have "?g (t # ps) (unat q) = (if p = Pauli_Y then \<i> else 1)"
    using v(3,4) by (auto simp: flip_at_def z_at_def t)
  finally show ?case by (simp add: t y_count_def)
qed

lemma string_row:
  assumes "length st = 2 ^ n" "valid_string n ps"
  shows "\<exists>p. pauli_bits n ps (row_identity n) = Done p \<and> wf_row n p \<and> braket st (row_op n p st) = braket st (pauli_apply ps st)"
proof -
  obtain p where p: "pauli_bits n ps (row_identity n) = Done p" "wf_row n p" "\<not> row_sign p"
    "\<forall>q < n. row_x p ! q = flip_at ps q \<and> row_z p ! q = z_at ps q"
    using pauli_bits_ok [of ps n "row_identity n"] assms(2) wf_row_identity [of n] by (auto simp: row_identity_def valid_string_def)
  have "y_factor n p = \<i> ^ y_count ps"
    unfolding y_product [OF assms(2), symmetric] y_factor_def using p(4) by (intro prod.cong) auto
  moreover have "raw n ((!) (row_x p)) ((!) (row_z p)) st = raw n (flip_at ps) (z_at ps) st"
    by (rule raw_cong) (use p(4) in auto)
  ultimately have "braket st (row_op n p st) = braket st (pauli_apply ps st)"
    using raw_pauli [OF assms] p(3) assms(1) by (simp add: row_op_def braket_scale)
  then show ?thesis using p by blast
qed

section \<open>The value of a string\<close>

lemma stabilizer_expectation_value:
  assumes "represents n t st" "valid_string n ps"
  shows "stabilizer_expectation checked t ps = Done (Re (braket st (pauli_apply ps st)))"
proof -
  have t: "tab_n t = n" "length st = 2 ^ n" "norm_sq st = 1" using assms(1) by (simp_all add: represents_def)
  obtain p where p: "pauli_bits n ps (row_identity n) = Done p" "wf_row n p" "braket st (row_op n p st) = braket st (pauli_apply ps st)"
    using string_row [OF t(2) assms(2)] by blast
  show ?thesis
  proof (cases "\<exists>k < n. row_anticommutes (tab_rows t ! (n + k)) p")
    case True
    then have "list_ex (\<lambda>k. row_anticommutes (tab_rows t ! (n + k)) p) [0..<n]" by (auto simp: list_ex_iff)
    then show ?thesis
      using True anticommuting_value [OF assms(1) p(2)] p by (auto simp: stabilizer_expectation_def t(1) Let_def)
  next
    case False
    then have f: "\<not> list_ex (\<lambda>k. row_anticommutes (tab_rows t ! (n + k)) p) [0..<n]" by (auto simp: list_ex_iff)
    obtain r where r: "reduce_row n [0..<2 * n] p (stabilizer_pivots t) = Some r" "wf_row n r"
      "\<forall>d < 2 * n. \<not> row_bit n r d" "row_op n p st = scale (sign (row_sign r)) st"
      using commuting_value [OF assms(1) p(2)] False by blast
    have "\<not> row_x r ! q" "\<not> row_z r ! q" if "q < n" for q
      using r(3) that spec [OF r(3), of q] spec [OF r(3), of "n + q"] by (auto simp: row_bit_def)
    then have "\<not> list_ex id (row_x r)" "\<not> list_ex id (row_z r)"
      using r(2) by (auto simp: list_ex_length wf_row_def)
    moreover have "braket st (row_op n p st) = sign (row_sign r)"
      unfolding r(4) using t braket_self [of st] by (simp add: braket_scale)
    ultimately show ?thesis using f p r(1) by (auto simp: stabilizer_expectation_def t(1) Let_def)
  qed
qed

lemma tab_observable_loop_value:
  "represents n t st \<Longrightarrow> valid_observable n a \<Longrightarrow> tab_observable_loop checked t a acc = Done (acc + obs_value a st)"
proof (induction a arbitrary: acc)
  case (Cons x a)
  then show ?case
    using stabilizer_expectation_value [OF Cons.prems(1)] by (cases x) (auto simp: valid_observable_def obs_value_def add.assoc)
qed (simp add: obs_value_def)

section \<open>Both backends\<close>

definition tab_circuit :: "binding \<Rightarrow> circuit_ir \<Rightarrow> bool" where
  "tab_circuit b d \<longleftrightarrow> (\<forall>op \<in> set (cir_ops d). runnable b (unat (cir_qubits d)) op \<and> op_condition op = None)"

lemma analytic_run:
  assumes "refuse_qudits d ''statevector'' = None" "tab_circuit b d" "capacity_check (host_mem h) (cir_qubits d) False = Done ()"
    "draws_ok (run_rng h (cfg_seed cfg))" "cfg_shots cfg = None" "cfg_mode cfg = Skip"
  shows "(\<exists>t st. apply_circuit_tab (zero_state (unat (cir_qubits d))) d cs True = Done (t, cs) \<and>
      represents (unat (cir_qubits d)) t st \<and> execute h d b cfg = Done (Statevector st)) \<or>
    (\<exists>op \<in> set (cir_ops d). \<exists>e. apply_circuit_tab (zero_state (unat (cir_qubits d))) d cs True = Failed e \<and> tab_refuses True op e)"
proof -
  let ?n = "unat (cir_qubits d)"
  have n: "?n \<le> 64" using capacity_Done [OF assms(3)] by simp
  have ops: "\<forall>op \<in> set (cir_ops d). runnable b ?n op \<and> op_condition op = None" using assms(2) by (simp add: tab_circuit_def)
  from analytic_ops [OF n zero_state_represents ops assms(4), of cs "replicate (unat (cir_cbits d)) 0"] show ?thesis
  proof (elim disjE exE conjE)
    fix t st r' assume s: "apply_ops_tab (cir_ops d) True (zero_state ?n) cs = Done (t, cs)" "represents ?n t st"
      "evolve_ops Skip ?n b True (cir_ops d) (sv_zero_state ?n, replicate (unat (cir_cbits d)) 0, run_rng h (cfg_seed cfg)) =
        Done (st, replicate (unat (cir_cbits d)) 0, r')"
    have "execute h d b cfg = Done (Statevector st)"
      using assms s(3) by (simp add: execute_def unless_error_def evolve_once_def Let_def split: bool.split)
    then show ?thesis using s by (auto simp: apply_circuit_tab_def)
  qed (auto simp: apply_circuit_tab_def)
qed

section \<open>Properties\<close>

text \<open>C4: The tableau backend's expectation is the state-vector backend's: on a circuit of unconditioned
  operations whose parameters resolve, with resets, barriers and deferred measurements, that fits the
  state-vector backend's memory, and a valid observable, it never panics; it returns the number the state-vector backend returns, or it refuses because
  of a gate outside the Clifford group or a reset whose outcome is random.\<close>

theorem tableau_expectation_exact:
  assumes "refuse_qudits c ''statevector'' = None" "valid_observable (unat (cir_qubits c)) a"
    "prepare_for_expectation c a = Inr (d, a')" "tab_circuit b d"
    "capacity_check (host_mem h) (cir_qubits d) False = Done ()" "draws_ok (unseeded h)"
  shows "case tab_expectation ht c b a of
      Done v \<Rightarrow> sv_expectation h c b a = Done v
    | Failed e \<Rightarrow> \<exists>op \<in> set (cir_ops d). tab_refuses True op e
    | Panicked \<Rightarrow> False"
proof -
  note keep = prepare_keeps [OF assms(3)]
  let ?n = "unat (cir_qubits d)"
  have q: "refuse_qudits c ''pauli'' = None" "refuse_qudits d ''statevector'' = None"
    using assms(1) refuse_qudits_name keep(2) by auto
  have vq: "validate_qubits (cir_qubits c) a = None"
    using assms(2) by (fastforce simp: validate_qubits_ok valid_observable_def valid_string_def word_less_nat_alt)
  have va: "valid_observable ?n a'" using assms(2) keep by (auto simp: valid_observable_def)
  have n: "?n \<le> 64" using capacity_Done [OF assms(5)] by simp
  have r: "draws_ok (run_rng h (cfg_seed analytic_config))" "cfg_shots analytic_config = None" "cfg_mode analytic_config = Skip"
    using assms(6) by (simp_all add: run_rng_def analytic_config_def)
  have e: "tab_expectation ht c b a = bind_run (apply_circuit_tab (zero_state ?n) d (analytic_rng ht) True) (\<lambda>(t, r).
      tab_observable_loop (tab_checked ht) t a' 0)"
    using q(1) vq assms(3) keep by (simp add: tab_expectation_def unless_error_def or_fail_def)
  from analytic_run [OF q(2) assms(4,5) r, of "analytic_rng ht"] show ?thesis
  proof (elim disjE exE conjE)
    fix t st assume s: "apply_circuit_tab (zero_state ?n) d (analytic_rng ht) True = Done (t, analytic_rng ht)" "represents ?n t st"
      "execute h d b analytic_config = Done (Statevector st)"
    have l: "length st = 2 ^ ?n" using s(2) by (simp add: represents_def)
    show ?thesis
      using s tab_observable_loop_value [OF s(2) va] observable_loop_value [OF l n va] assms(1,3) vq keep
      by (simp add: e sv_expectation_def unless_error_def or_fail_def statevector_of_def)
  qed (auto simp: e)
qed

definition bell_circuit :: circuit_ir where
  "bell_circuit = CircuitIR 2 0
     [\<lparr>op_gate = H, op_qubits = [0], op_params = [], op_cbit = None, op_condition = None\<rparr>,
      \<lparr>op_gate = CX, op_qubits = [0, 1], op_params = [], op_cbit = None, op_condition = None\<rparr>] GateBased [] [] [] []"

definition quiet_env :: sv_env where
  "quiet_env = \<lparr>host_mem = \<lparr>hm_oversubscribe = True, hm_available = None\<rparr>, seeded = (\<lambda>_. (sconst 0, sconst 0)),
     unseeded = (sconst 0, sconst 0), checked_build = True\<rparr>"

definition fair_coins :: tab_env where
  "fair_coins = \<lparr>coins_of = (\<lambda>_. sconst False), coins_unseeded = sconst True, tab_checked = True\<rparr>"

lemma bell_facts:
  "refuse_qudits bell_circuit ''statevector'' = None" "valid_observable (unat (cir_qubits bell_circuit)) [(1, [(0, Pauli_Y), (1, Pauli_Y)])]"
  "prepare_for_expectation bell_circuit [(1, [(0, Pauli_Y), (1, Pauli_Y)])] = Inr (bell_circuit, [(1, [(0, Pauli_Y), (1, Pauli_Y)])])"
  "tab_circuit [] bell_circuit" "capacity_check (host_mem quiet_env) (cir_qubits bell_circuit) False = Done ()"
  "draws_ok (unseeded quiet_env)" "\<not> tab_refuses True op e" if "op \<in> set (cir_ops bell_circuit)" for op e
  using that
  by (auto simp: bell_circuit_def refuse_qudits_def first_qudit_def valid_observable_def valid_string_def
      prepare_for_expectation_def prepare_circuit_for_expectation_def measures_def dephase_def tab_circuit_def
      runnable_def valid_op_def capacity_check_cases word_le_nat_alt quiet_env_def draws_ok_def tab_refuses_def clifford_def)

theorem tableau_expectation_exact_witness:
  "\<exists>v. tab_expectation fair_coins bell_circuit [] [(1, [(0, Pauli_Y), (1, Pauli_Y)])] = Done v \<and>
     sv_expectation quiet_env bell_circuit [] [(1, [(0, Pauli_Y), (1, Pauli_Y)])] = Done v"
proof -
  have "hd (cir_ops bell_circuit) \<in> set (cir_ops bell_circuit)" by (simp add: bell_circuit_def)
  from tableau_expectation_exact [OF bell_facts(1-6) [OF this], of fair_coins] bell_facts(7) show ?thesis
    by (auto split: run.splits)
qed

text \<open>C7: The tableau backend's exact probabilities are the squared moduli of the state-vector backend's
  amplitudes, basis state by basis state: the early-out and the sum over the \<open>2^n\<close> products of stabilizers
  compute Born's rule, without collapse, on every circuit of unconditioned operations on at most 24 qubits that
  fits the state-vector backend's memory and that the backend does not refuse.\<close>

theorem tableau_probabilities_exact:
  assumes "refuse_qudits c ''statevector'' = None" "cir_type c \<noteq> Photonic" "cfg_shots cfg = None" "cfg_mode cfg = Skip"
    "unat (cir_qubits c) \<le> 24" "tab_circuit b c" "capacity_check (host_mem h) (cir_qubits c) False = Done ()"
    "draws_ok (run_rng h (cfg_seed cfg))"
  shows "case tab_execute ht c b cfg of
      Done res \<Rightarrow> \<exists>st. execute h c b cfg = Done (Statevector st) \<and> res = Probabilities (map (\<lambda>z. (cmod z)\<^sup>2) st)
    | Failed e \<Rightarrow> \<exists>op \<in> set (cir_ops c). tab_refuses True op e
    | Panicked \<Rightarrow> False"
proof -
  let ?n = "unat (cir_qubits c)"
  have q: "refuse_qudits c ''pauli'' = None" using assms(1) refuse_qudits_name by blast
  have e: "tab_execute ht c b cfg = bind_run (apply_circuit_tab (zero_state ?n) c (analytic_rng ht) True) (\<lambda>(t, r).
      Done (Probabilities (map (\<lambda>basis. stabilizer_probability t basis ?n) [0..<2 ^ ?n])))"
    using q assms(2-5) by (simp add: tab_execute_def unless_error_def Let_def)
  from analytic_run [OF assms(1,6-8,3,4), of "analytic_rng ht"] show ?thesis
  proof (elim disjE exE conjE)
    fix t st assume s: "apply_circuit_tab (zero_state ?n) c (analytic_rng ht) True = Done (t, analytic_rng ht)" "represents ?n t st"
      "execute h c b cfg = Done (Statevector st)"
    have "length st = 2 ^ ?n" using s(2) by (simp add: represents_def)
    then have "map (\<lambda>basis. stabilizer_probability t basis ?n) [0..<2 ^ ?n] = map (\<lambda>z. (cmod z)\<^sup>2) st"
      using stabilizer_probability_value [OF s(2)] by (intro nth_equalityI) simp_all
    then show ?thesis using s by (simp add: e)
  qed (auto simp: e)
qed

theorem tableau_probabilities_exact_witness:
  "\<exists>st. tab_execute fair_coins bell_circuit [] analytic_config = Done (Probabilities (map (\<lambda>z. (cmod z)\<^sup>2) st)) \<and>
     execute quiet_env bell_circuit [] analytic_config = Done (Statevector st)"
proof -
  have "hd (cir_ops bell_circuit) \<in> set (cir_ops bell_circuit)" by (simp add: bell_circuit_def)
  note f = bell_facts [OF this]
  have "cir_type bell_circuit \<noteq> Photonic" "cfg_shots analytic_config = None" "cfg_mode analytic_config = Skip"
    "unat (cir_qubits bell_circuit) \<le> 24" "draws_ok (run_rng quiet_env (cfg_seed analytic_config))"
    using f(6) by (simp_all add: bell_circuit_def analytic_config_def run_rng_def)
  from tableau_probabilities_exact [OF f(1) this(1-4) f(4,5) this(5), of fair_coins] bell_facts(7) show ?thesis
    by (auto split: run.splits)
qed

text \<open>C15: A measurement of the tableau obeys Born's rule: in the state the tableau represents, the outcome
  it returns has probability 1 when no stabilizer anticommutes with the measured operator and probability
  one half when one does, and the tableau after it represents the measured, renormalised state.\<close>

theorem tableau_measurement_born:
  assumes "represents n t st" "q < n" "measure_qubit t q coin = Some (b, t')"
  shows "branch_weight st q b = (if find_anticommuting t q = None then 1 else 1 / 2) \<and> represents n t' (measured st q b)"
  using measure_represents [OF assms] by blast

lemma plus_represents: "represents 1 (the (tab_h 0 (zero_state 1))) (dense_1q 0 gate_h (sv_zero_state 1))"
proof -
  have z: "represents 1 (zero_state 1) (sv_zero_state 1)" by (rule zero_state_represents)
  then have t: "tab_inv (zero_state 1)" "0 < tab_n (zero_state 1)" "length (sv_zero_state 1) = 2 ^ 1" "norm_sq (sv_zero_state 1) = 1"
    by (simp_all add: represents_def)
  have "norm_sq (dense_1q 0 gate_h (sv_zero_state 1)) = 1"
    using norm_dense_1q [OF t(3), of 0 gate_h] t(4) by (simp add: gate1q_unitary)
  then show ?thesis
    using represents_map [OF z conjugates_gates(1), of 0] tab_gates(1,2) [OF t(1,2)] by simp
qed

theorem tableau_measurement_born_witness:
  "\<exists>t'. measure_qubit (the (tab_h 0 (zero_state 1))) 0 True = Some (True, t') \<and>
     branch_weight (dense_1q 0 gate_h (sv_zero_state 1)) 0 True = 1 / 2 \<and>
     represents 1 t' (measured (dense_1q 0 gate_h (sv_zero_state 1)) 0 True)"
proof -
  have "find_anticommuting (the (tab_h 0 (zero_state 1))) 0 = Some 1" by code_simp
  moreover have "measure_qubit (the (tab_h 0 (zero_state 1))) 0 True =
      Some (True, snd (the (measure_qubit (the (tab_h 0 (zero_state 1))) 0 True)))" by code_simp
  ultimately show ?thesis using tableau_measurement_born [OF plus_represents, of 0 True True] by auto
qed

text \<open>C8: A trajectory of the tableau backend is a trajectory of the state-vector backend: whatever coins
  it draws, a circuit of gates, measurements, resets and conditions ends with the classical bits that the
  state-vector backend records for suitable draws from [0, 1), and its tableau represents that backend's
  final state; it never panics, and it refuses only gates outside the Clifford group.\<close>

theorem tableau_trajectory:
  assumes "\<forall>op \<in> set (cir_ops c). runnable b (unat (cir_qubits c)) op" "unat (cir_qubits c) \<le> 64"
  shows "case collapse_ops_tab (cir_ops c) (zero_state (unat (cir_qubits c)), bits, cs) of
      Done (t, bits', cs') \<Rightarrow> \<exists>st xs. represents (unat (cir_qubits c)) t st \<and> set xs \<subseteq> {0..<1} \<and>
        (\<forall>s w. evolve_ops Collapse (unat (cir_qubits c)) b False (cir_ops c) (sv_zero_state (unat (cir_qubits c)), bits, xs @- s, w) =
          Done (st, bits', s, w))
    | Failed e \<Rightarrow> \<exists>op \<in> set (cir_ops c). tab_refuses False op e
    | Panicked \<Rightarrow> False"
proof -
  have "set xs \<subseteq> {0..<1}" if "set xs \<subseteq> {1 / 4, 3 / 4}" for xs :: "real list"
  proof -
    have "{1 / 4, 3 / 4} \<subseteq> {0..<1 :: real}" by simp
    then show ?thesis using that by blast
  qed
  then show ?thesis
    using collapse_ops_step [OF assms(2) zero_state_represents assms(1), of bits cs]
    by (elim disjE exE conjE bexE) (simp_all, blast+)
qed

theorem tableau_trajectory_witness:
  "\<exists>t st xs. collapse_ops_tab (cir_ops bell_circuit) (zero_state 2, [], sconst True) = Done (t, [], sconst True) \<and> represents 2 t st \<and>
     set xs \<subseteq> {0..<1} \<and>
     (\<forall>s w. evolve_ops Collapse 2 [] False (cir_ops bell_circuit) (sv_zero_state 2, [], xs @- s, w) = Done (st, [], s, w))"
proof -
  have "hd (cir_ops bell_circuit) \<in> set (cir_ops bell_circuit)" by (simp add: bell_circuit_def)
  note f = bell_facts [OF this]
  have c: "\<forall>op \<in> set (cir_ops bell_circuit). runnable [] (unat (cir_qubits bell_circuit)) op" "unat (cir_qubits bell_circuit) = 2"
    using f(4) by (simp_all add: tab_circuit_def) (simp add: bell_circuit_def)
  have n: "\<not> tab_refuses False op e" if "op \<in> set (cir_ops bell_circuit)" for op e
    using that by (auto simp: bell_circuit_def tab_refuses_def clifford_def)
  have b: "bits' = [] \<and> cs' = sconst True" if "collapse_ops_tab (cir_ops bell_circuit) (zero_state 2, [], sconst True) = Done (t, bits', cs')" for t bits' cs'
    using that by (auto simp: bell_circuit_def collapse_op_tab_def condition_satisfied_def apply_gate_tab_def bind_run_Done Let_def)
  show ?thesis
    using tableau_trajectory [OF c(1), of "[]" "sconst True"] n b unfolding c(2)
    by (auto split: run.splits prod.splits)
qed

section \<open>Several observables\<close>

lemma validate_all_each: "validate_all n as = None \<Longrightarrow> a \<in> set as \<Longrightarrow> validate_qubits n a = None"
  by (induction as) (auto split: option.splits)

lemma tab_observables_each:
  "tab_observables checked t as = Done vs \<Longrightarrow> list_all2 (\<lambda>a v. tab_observable_loop checked t a 0 = Done v) as vs"
  by (induction as arbitrary: vs) (auto simp: bind_run_Done)

lemma prepare_multi_each:
  assumes "prepare_for_expectation_multi c as = Inr (d, as')"
  shows "list_all2 (\<lambda>a a'. prepare_for_expectation c a = Inr (d, a')) as as'"
proof (cases "measures c")
  case True
  then obtain m where "defer_measurements c = Inr (d, m)" "as' = map (dephase m) as"
    using assms by (auto simp: prepare_for_expectation_multi_def map_sum_Inr)
  then show ?thesis
    using True by (simp add: prepare_for_expectation_def prepare_circuit_for_expectation_def list_all2_conv_all_nth)
next
  case False
  then show ?thesis
    using assms by (simp add: prepare_for_expectation_multi_def prepare_for_expectation_def prepare_circuit_for_expectation_def
      dephase_def list_all2_conv_all_nth)
qed

lemma tab_expectation_multi_each:
  assumes "tab_expectation_multi h c b as = Done vs"
  shows "list_all2 (\<lambda>a v. tab_expectation h c b a = Done v) as vs"
proof -
  have q: "refuse_qudits c ''pauli'' = None" "validate_all (cir_qubits c) as = None"
    using assms by (auto simp: tab_expectation_multi_def unless_error_def split: option.splits)
  obtain d as' where p: "prepare_for_expectation_multi c as = Inr (d, as')"
    using assms q by (cases "prepare_for_expectation_multi c as") (auto simp: tab_expectation_multi_def unless_error_def or_fail_def)
  note each = prepare_multi_each [OF p]
  show ?thesis
  proof (cases "as' = []")
    case True
    then show ?thesis using assms q p each by (auto simp: tab_expectation_multi_def unless_error_def or_fail_def)
  next
    case False
    then obtain t r where t: "apply_circuit_tab (zero_state (unat (cir_qubits d))) d (analytic_rng h) True = Done (t, r)"
      "tab_observables (tab_checked h) t as' = Done vs"
      using assms q p by (auto simp: tab_expectation_multi_def unless_error_def or_fail_def bind_run_Done)
    have one: "tab_expectation h c b a = Done v"
      if "a \<in> set as" "prepare_for_expectation c a = Inr (d, a')" "tab_observable_loop (tab_checked h) t a' 0 = Done v" for a a' v
      using that q t(1) validate_all_each [OF q(2) that(1)] prepare_keeps [OF that(2)]
      by (simp add: tab_expectation_def unless_error_def or_fail_def)
    from each tab_observables_each [OF t(2)] show ?thesis
      unfolding list_all2_conv_all_nth using one by (metis nth_mem)
  qed
qed

section \<open>Where the two backends differ\<close>

text \<open>Outside the collapse mode the tableau backend never looks at the condition of an operation; the
  state-vector backend skips an operation whose condition fails.\<close>

lemma tableau_ignores_conditions:
  "apply_ops_tab (map (op_condition_update (\<lambda>_. None)) ops) analytic t r = apply_ops_tab ops analytic t r"
  "\<not> condition_satisfied op bits \<Longrightarrow> evolve_op mode n b analytic op (st, bits, r') = Done (st, bits, r')"
proof -
  have "apply_gate_tab t (op\<lparr>op_condition := None\<rparr>) r analytic = apply_gate_tab t op r analytic" for t op r
    by (cases "op_gate op") (simp_all add: apply_gate_tab_def tab_1q_def tab_2q_def qubit_of_def Let_def)
  then show "apply_ops_tab (map (op_condition_update (\<lambda>_. None)) ops) analytic t r = apply_ops_tab ops analytic t r"
    by (induction ops arbitrary: t r) (auto intro!: arg_cong2 [of _ _ _ _ bind_run])
  show "\<not> condition_satisfied op bits \<Longrightarrow> evolve_op mode n b analytic op (st, bits, r') = Done (st, bits, r')"
    by (simp add: evolve_op_def)
qed

text \<open>A measurement into a classical bit past the register is dropped by the guard of the collapse mode, and
  then widens the key past the recorded bits: the shot panics.\<close>

lemma collapse_op_length:
  "collapse_op_tab op (t, bits, r) = Done (t', bits', r') \<Longrightarrow> length bits' = length bits"
  by (auto simp: collapse_op_tab_def bind_run_Done set_cbit_ok(2) split: if_splits)

lemma collapse_ops_length:
  "collapse_ops_tab ops (t, bits, r) = Done (t', bits', r') \<Longrightarrow> length bits' = length bits"
proof (induction ops arbitrary: t bits r)
  case (Cons op ops)
  then show ?case using collapse_op_length by (fastforce simp: bind_run_Done)
qed simp

lemma wide_measurement_panics:
  assumes "0 < cir_cbits c" "unat (cir_cbits c) < unat width"
    "collapse_ops_tab (cir_ops c) (zero_state (unat (cir_qubits c)), replicate (unat (cir_cbits c)) 0, r) = Done s"
  shows "tab_shot c Collapse width r = Panicked"
  using assms collapse_ops_length [of "cir_ops c" "zero_state (unat (cir_qubits c))" "replicate (unat (cir_cbits c)) 0" r]
  by (cases s) (auto simp: tab_shot_def Let_def)

lemma wide_measurement_width:
  "tab_width (CircuitIR 1 1 [\<lparr>op_gate = Measure, op_qubits = [0], op_params = [], op_cbit = Some 5, op_condition = None\<rparr>]
     GateBased [] [] [] []) Collapse = 6"
  by (simp add: tab_width_def counts_outcome_width_def counts_keyed_on_creg_def measure_pairs_def List.map_filter_simps)

text \<open>A string that names a qubit twice: the bits are set where the other backend multiplies, and
  \<open>X X = 1\<close> on the first qubit has value 0 instead of 1.\<close>

lemma tableau_repeated_qubit:
  "stabilizer_expectation checked (zero_state 1) [(0, Pauli_X), (0, Pauli_X)] = Done 0"
  "pauli_image [(0, Pauli_X), (0, Pauli_X)] i = (i, 1)"
proof -
  have "list_ex (\<lambda>k. row_anticommutes (tab_rows (zero_state 1) ! (1 + k)) ((row_identity 1)\<lparr>row_x := [True]\<rparr>)) [0..<1]"
    by code_simp
  then show "stabilizer_expectation checked (zero_state 1) [(0, Pauli_X), (0, Pauli_X)] = Done 0"
    by (simp add: stabilizer_expectation_def zero_state_def row_identity_def Let_def)
  show "pauli_image [(0, Pauli_X), (0, Pauli_X)] i = (i, 1)" by (rule seed_repeated_qubit)
qed

end
