(* ===== verification/Majorana.thy ===== *)
theory Majorana
  imports PackedBits
begin

text \<open>
  The Majorana monomial algebra of
  \<^verbatim>\<open>crates/omega-backend-majoranaprop/src/majorana.rs\<close>.  A key is the set of the indices of the
  Majorana operators of a monomial, packed into words; the monomial is \<open>i^r\<close> times their ascending
  product, with \<open>r = m(m-1)/2\<close> for \<open>m\<close> indices.  Powers of \<open>i\<close> are exponents modulo 4; the values
  \<open>1.0\<close>, \<open>-1.0\<close> and \<open>0.0\<close> of the code are integers.  Failed assertions and index panics are \<open>None\<close>.
\<close>

record majorana_key =
  mj_words :: "u64 list"
  mj_modes :: u32

definition mj_words_for :: "nat \<Rightarrow> nat" where
  "mj_words_for n = div_ceil64 (2 * n)"

definition mj_tail_mask :: "nat \<Rightarrow> u64" where
  "mj_tail_mask n = (let r = (2 * n) mod 64 in if r = 0 then NOT 0 else push_bit r 1 - 1)"

text \<open>\<open>r_of\<close>: the code multiplies by \<open>m - 1\<close> wrapped, which for \<open>m = 0\<close> is multiplied by zero.\<close>

definition r_of :: "nat \<Rightarrow> nat" where
  "r_of m = (m * (m - 1)) div 2 mod 4"

definition mj_identity :: "nat \<Rightarrow> majorana_key" where
  "mj_identity n = \<lparr>mj_words = replicate (mj_words_for n) 0, mj_modes = of_nat n\<rparr>"

definition mj_bit :: "majorana_key \<Rightarrow> nat \<Rightarrow> bool option" where
  "mj_bit k i = (if i div 64 < length (mj_words k) then Some (wbit (mj_words k) i) else None)"

fun from_indices_loop :: "nat \<Rightarrow> nat list \<Rightarrow> majorana_key \<Rightarrow> majorana_key option" where
  "from_indices_loop n [] k = Some k"
| "from_indices_loop n (i # idx) k =
     (if \<not> i < 2 * n then None
      else case mj_bit k i of
        None \<Rightarrow> None
      | Some True \<Rightarrow> None
      | Some False \<Rightarrow> from_indices_loop n idx (k\<lparr>mj_words := wset (mj_words k) i\<rparr>))"

definition from_indices :: "nat \<Rightarrow> nat list \<Rightarrow> majorana_key option" where
  "from_indices n idx = from_indices_loop n idx (mj_identity n)"

definition mj_from_words :: "u64 list \<Rightarrow> nat \<Rightarrow> majorana_key option" where
  "mj_from_words ws n =
     (let w = mj_words_for n
      in if length ws \<noteq> w then None
         else Some \<lparr>mj_words = (if 0 < w then ws[w - 1 := ws ! (w - 1) AND mj_tail_mask n] else ws),
                    mj_modes = of_nat n\<rparr>)"

definition mj_length :: "majorana_key \<Rightarrow> nat" where
  "mj_length k = sum_list (map count_ones (mj_words k))"

definition mj_is_identity :: "majorana_key \<Rightarrow> bool" where
  "mj_is_identity k = list_all (\<lambda>w. w = 0) (mj_words k)"

definition mj_indices :: "majorana_key \<Rightarrow> nat list" where
  "mj_indices k = concat (map (\<lambda>wi. map (\<lambda>t. wi * 64 + t) (bit_loop (mj_words k ! wi)))
                     [0..<length (mj_words k)])"

definition mj_shared :: "majorana_key \<Rightarrow> majorana_key \<Rightarrow> nat" where
  "mj_shared c b = sum_list (map (\<lambda>(x, y). count_ones (x AND y)) (zip (mj_words c) (mj_words b)))"

definition mj_commutes :: "majorana_key \<Rightarrow> majorana_key \<Rightarrow> bool" where
  "mj_commutes c b = even (mj_length c * mj_length b - mj_shared c b)"

definition suffix_counts :: "u64 list \<Rightarrow> nat list" where
  "suffix_counts ws =
     snd (fold (\<lambda>k (above, suffix). let a = above + count_ones (ws ! k) in (a, suffix[k := a]))
       (rev [0..<length ws]) (0, replicate (length ws + 1) 0))"

definition above_in_word :: "u64 \<Rightarrow> nat \<Rightarrow> u64" where
  "above_in_word w j = (if j = 63 then 0 else drop_bit (j + 1) w)"

definition inversions_parity :: "majorana_key \<Rightarrow> majorana_key \<Rightarrow> nat" where
  "inversions_parity c b =
     (let suffix = suffix_counts (mj_words c)
      in fold (\<lambda>wi t. fold (\<lambda>j t. t + suffix ! (wi + 1) + count_ones (above_in_word (mj_words c ! wi) j))
                (bit_loop (mj_words b ! wi)) t)
           [0..<length (mj_words b)] 0 mod 2)"

definition mj_xor :: "majorana_key \<Rightarrow> majorana_key \<Rightarrow> majorana_key" where
  "mj_xor c b = c\<lparr>mj_words := map2 (XOR) (mj_words c) (mj_words b)
                    @ drop (length (mj_words b)) (mj_words c)\<rparr>"

definition mj_mul :: "majorana_key \<Rightarrow> majorana_key \<Rightarrow> majorana_key \<times> nat" where
  "mj_mul c b =
     (let out = mj_xor c b;
          rc = r_of (mj_length c); rb = r_of (mj_length b); rcb = r_of (mj_length out);
          t = inversions_parity c b
      in (out, (rc + rb + 4 - rcb + 2 * t) mod 4))"

definition rotate_by :: "majorana_key \<Rightarrow> majorana_key \<Rightarrow> majorana_key \<times> int" where
  "rotate_by b c = (let (k, e) = mj_mul c b in (k, if (e + 1) mod 4 = 0 then 1 else - 1))"

definition EVEN :: u64 where "EVEN = 0x5555555555555555"
definition ODD :: u64 where "ODD = 0xAAAAAAAAAAAAAAAA"

definition occ_bit :: "u64 list \<Rightarrow> nat \<Rightarrow> bool" where
  "occ_bit occ j = (drop_bit (j mod 64) (if j div 64 < length occ then occ ! (j div 64) else 0) AND 1 = 1)"

fun fock_loop :: "u64 list \<Rightarrow> nat \<Rightarrow> u64 list \<Rightarrow> int \<Rightarrow> int" where
  "fock_loop occ wi [] sg = sg"
| "fock_loop occ wi (w # ws) sg =
     (if push_bit 1 (w AND EVEN) \<noteq> w AND ODD then 0
      else fock_loop occ (Suc wi) ws
        (fold (\<lambda>k s. if occ_bit occ (wi * 32 + k div 2) then s else - s) (bit_loop (w AND EVEN)) sg))"

definition fock_expectation :: "majorana_key \<Rightarrow> u64 list \<Rightarrow> int" where
  "fock_expectation k occ = fock_loop occ 0 (mj_words k) 1"

definition vacuum_expectation :: "majorana_key \<Rightarrow> int" where
  "vacuum_expectation k = fock_expectation k []"

fun site_factor :: "nat \<Rightarrow> bool \<Rightarrow> bool \<Rightarrow> (nat list \<times> nat) option" where
  "site_factor j False False = None"
| "site_factor j True False = Some ([0..<2 * j] @ [2 * j], (4 - j mod 4) mod 4)"
| "site_factor j True True = Some ([0..<2 * j] @ [2 * j + 1], (4 - j mod 4) mod 4)"
| "site_factor j False True = Some ([2 * j, 2 * j + 1], 3)"

fun from_pauli_loop :: "nat \<Rightarrow> nat list \<Rightarrow> bool list \<Rightarrow> bool list \<Rightarrow> majorana_key \<times> nat \<times> nat \<Rightarrow>
    (majorana_key \<times> nat \<times> nat) option" where
  "from_pauli_loop n [] x z st = Some st"
| "from_pauli_loop n (j # js) x z (acc, e, steps) =
     (case site_factor j (x ! j) (z ! j) of
        None \<Rightarrow> from_pauli_loop n js x z (acc, e, steps)
      | Some (bits, ph) \<Rightarrow>
          (case from_indices n bits of
             None \<Rightarrow> None
           | Some s \<Rightarrow>
               (let factor_e = (ph + 4 - r_of (mj_length s)) mod 4; (next', me) = mj_mul acc s
                in from_pauli_loop n js x z (next', (e + factor_e + me) mod 4, steps + 1))))"

definition from_pauli_counted :: "bool list \<Rightarrow> bool list \<Rightarrow> (majorana_key \<times> nat \<times> nat) option" where
  "from_pauli_counted x z =
     (if length x \<noteq> length z then None
      else case from_pauli_loop (length x) [0..<length x] x z (mj_identity (length x), 0, 0) of
        None \<Rightarrow> None
      | Some (acc, e, steps) \<Rightarrow> if even e then Some (acc, e, steps) else None)"

definition from_pauli :: "bool list \<Rightarrow> bool list \<Rightarrow> (majorana_key \<times> nat) option" where
  "from_pauli x z = map_option (\<lambda>(key, e, _). (key, e)) (from_pauli_counted x z)"

section \<open>Counts and inversions over bit positions\<close>

abbreviation mbit :: "majorana_key \<Rightarrow> nat \<Rightarrow> bool" where
  "mbit k \<equiv> wbit (mj_words k)"

definition span :: "majorana_key \<Rightarrow> nat" where
  "span k = 64 * length (mj_words k)"

lemma sum_upt: "sum_list (map f [0..<m]) = (\<Sum>i<m. f i :: nat)"
  by (simp add: interv_sum_list_conv_sum_set_nat atLeast0LessThan)

lemma sum_list_nth: "sum_list (map f xs) = (\<Sum>i<length xs. f (xs ! i) :: nat)"
  by (simp add: sum_list_sum_nth atLeast0LessThan)

lemma mj_length_count: "mj_length k = count_below (mbit k) (span k)"
  unfolding mj_length_def sum_list_nth count_ones_words span_def
  by (rule count_below_cong) (simp add: wbit_bit)

lemma mj_shared_count:
  assumes "length (mj_words c) = length (mj_words b)"
  shows "mj_shared c b = count_below (\<lambda>q. mbit c q \<and> mbit b q) (span c)"
proof -
  have "mj_shared c b = (\<Sum>i<length (mj_words c). count_ones (mj_words c ! i AND mj_words b ! i))"
    using assms by (simp add: mj_shared_def sum_list_nth)
  also have "\<dots> = count_below (\<lambda>q. bit (mj_words c ! (q div 64) AND mj_words b ! (q div 64)) (q mod 64)) (span c)"
    by (simp add: span_def count_ones_words)
  also have "\<dots> = count_below (\<lambda>q. mbit c q \<and> mbit b q) (span c)"
    by (rule count_below_cong) (simp add: wbit_bit bit_and_iff)
  finally show ?thesis .
qed

lemma mbit_xor:
  assumes "length (mj_words c) = length (mj_words b)" "q < span c"
  shows "mbit (mj_xor c b) q = bxor (mbit c q) (mbit b q)"
proof -
  have "q div 64 < length (mj_words c)" using assms(2) by (simp add: span_def div_less_iff_less_mult mult.commute)
  then show ?thesis using assms by (simp add: mj_xor_def wbit_bit bit_xor_iff)
qed

lemma words_xor:
  assumes "length (mj_words c) = length (mj_words b)"
  shows "length (mj_words (mj_xor c b)) = length (mj_words c)" "span (mj_xor c b) = span c"
    "mj_modes (mj_xor c b) = mj_modes c"
  using assms by (simp_all add: mj_xor_def span_def)

text \<open>The number of inversions, and its parity as a double parity.\<close>

definition inversions :: "(nat \<Rightarrow> bool) \<Rightarrow> (nat \<Rightarrow> bool) \<Rightarrow> nat \<Rightarrow> nat" where
  "inversions P Q N = (\<Sum>j<N. if Q j then count_below (\<lambda>i. j < i \<and> P i) N else 0)"

definition inv_parity :: "(nat \<Rightarrow> bool) \<Rightarrow> (nat \<Rightarrow> bool) \<Rightarrow> nat \<Rightarrow> bool" where
  "inv_parity P Q N = parity_of (\<lambda>j. Q j \<and> parity_of (\<lambda>i. j < i \<and> P i) N) N"

lemma odd_sum_nat: "odd (\<Sum>q<n. f q :: nat) = parity_of (\<lambda>q. odd (f q)) n"
  by (induction n) auto

lemma odd_inversions: "odd (inversions P Q N) = inv_parity P Q N"
  unfolding inversions_def inv_parity_def odd_sum_nat
  by (rule parity_of_cong) (simp add: odd_count_below)

lemma suffix_counts_nth:
  "length (suffix_counts ws) = length ws + 1 \<and>
   (\<forall>k \<le> length ws. suffix_counts ws ! k = (\<Sum>i\<in>{k..<length ws}. count_ones (ws ! i)))"
proof -
  let ?f = "\<lambda>k (above, suffix). let a = above + count_ones (ws ! k) in (a, suffix[k := a :: nat])"
  let ?S = "\<lambda>k. \<Sum>i\<in>{k..<length ws}. count_ones (ws ! i)"
  have "m \<le> length ws \<Longrightarrow>
    \<exists>suffix. fold ?f (rev [m..<length ws]) (0, replicate (length ws + 1) 0) = (?S m, suffix) \<and>
      length suffix = length ws + 1 \<and> (\<forall>k \<le> length ws. suffix ! k = (if m \<le> k then ?S k else 0))" for m
  proof (induction "length ws - m" arbitrary: m)
    case 0
    then show ?case by (auto simp del: replicate_Suc)
  next
    case (Suc d)
    then have m: "m < length ws" by simp
    then obtain suffix where s: "fold ?f (rev [Suc m..<length ws]) (0, replicate (length ws + 1) 0) = (?S (Suc m), suffix)"
      "length suffix = length ws + 1" "\<forall>k \<le> length ws. suffix ! k = (if Suc m \<le> k then ?S k else 0)"
      using Suc.hyps(1) [of "Suc m"] Suc.hyps(2) by fastforce
    have "?S m = ?S (Suc m) + count_ones (ws ! m)" using m by (simp add: sum.atLeast_Suc_lessThan)
    then show ?case
      using s m by (auto simp: upt_conv_Cons [of m] nth_list_update Let_def)
  qed
  from this [of 0] show ?thesis by (auto simp: suffix_counts_def simp del: replicate_Suc)
qed

lemma count_ones_above:
  assumes "j < 64"
  shows "count_ones (above_in_word w j) = count_below (\<lambda>i. j < i \<and> bit w i) 64"
proof -
  have "count_ones (above_in_word w j) = count_below (\<lambda>i. bit w (Suc j + i)) 64"
    unfolding count_ones_below
    using assms by (intro count_below_cong) (auto simp: above_in_word_def bit_drop_bit_eq dest: bit_imp_le_length)
  also have "\<dots> = count_below (\<lambda>i. bit w (Suc j + i)) (63 - j)"
    using assms by (intro count_below_extend) (auto dest: bit_imp_le_length)
  also have "\<dots> = count_below (\<lambda>i. j < i \<and> bit w i) (Suc j + (63 - j))"
    unfolding count_below_add by (simp add: count_below_def)
  finally show ?thesis using assms by simp
qed

lemma inversions_word:
  assumes wi: "wi < length ws" and j: "j < 64"
  shows "suffix_counts ws ! (wi + 1) + count_ones (above_in_word (ws ! wi) j) =
    count_below (\<lambda>i. wi * 64 + j < i \<and> wbit ws i) (64 * length ws)"
proof -
  let ?P = "\<lambda>i. wi * 64 + j < i \<and> wbit ws i"
  let ?m = "length ws - (wi + 1)"
  have len: "64 * length ws = 64 * wi + (64 + 64 * ?m)" using wi by simp
  have "count_below ?P (64 * wi) = 0" by (auto simp: count_below_def filter_empty_conv)
  moreover have "count_below (\<lambda>i. ?P (64 * wi + i)) 64 = count_ones (above_in_word (ws ! wi) j)"
    unfolding count_ones_above [OF j] by (rule count_below_cong) (auto simp: wbit_bit)
  moreover have "count_below (\<lambda>i. ?P (64 * wi + (64 + i))) (64 * ?m) = suffix_counts ws ! (wi + 1)"
  proof -
    have "count_below (\<lambda>i. ?P (64 * wi + (64 + i))) (64 * ?m) =
        count_below (\<lambda>q. bit (ws ! (wi + 1 + q div 64)) (q mod 64)) (64 * ?m)"
    proof (rule count_below_cong)
      fix q
      have "64 * wi + (64 + q) = q + 64 * (wi + 1)" by simp
      then have "(64 * wi + (64 + q)) div 64 = wi + 1 + q div 64" "(64 * wi + (64 + q)) mod 64 = q mod 64"
        by simp_all
      then show "?P (64 * wi + (64 + q)) = bit (ws ! (wi + 1 + q div 64)) (q mod 64)"
        using j by (simp add: wbit_bit)
    qed
    also have "\<dots> = (\<Sum>i<?m. count_ones (ws ! (wi + 1 + i)))" by (simp add: count_ones_words)
    also have "\<dots> = (\<Sum>i\<in>{wi + 1..<length ws}. count_ones (ws ! i))"
      using wi by (intro sum.reindex_bij_witness [where i = "\<lambda>i. i - (wi + 1)" and j = "\<lambda>i. wi + 1 + i"]) auto
    finally show ?thesis using suffix_counts_nth [of ws] wi by simp
  qed
  ultimately show ?thesis unfolding len count_below_add by simp
qed

lemma fold_plus: "fold (\<lambda>j t. t + f j) xs a = a + sum_list (map f xs :: nat list)"
  by (induction xs arbitrary: a) auto

lemma sum_filter_upt: "sum_list (map f (filter P [0..<m])) = (\<Sum>i<m. if P i then f i else 0 :: nat)"
  by (induction m) auto

lemma sum_blocks: "(\<Sum>i<(m::nat). \<Sum>j<64. f (i * 64 + j)) = (\<Sum>q<64 * m. f q :: nat)"
proof (induction m)
  case (Suc m)
  have "{..<64 * Suc m} = {..<64 * m} \<union> {64 * m..<64 * m + 64}" by auto
  moreover have "(\<Sum>q\<in>{64 * m..<64 * m + 64}. f q) = (\<Sum>j<64. f (m * 64 + j))"
    by (intro sum.reindex_bij_witness [where i = "\<lambda>j. m * 64 + j" and j = "\<lambda>q. q - 64 * m"]) auto
  moreover have "sum f ({..<64 * m} \<union> {64 * m..<64 * m + 64}) = sum f {..<64 * m} + sum f {64 * m..<64 * m + 64}"
    by (rule sum.union_disjoint) auto
  ultimately show ?case using Suc by simp
qed simp

lemma inversions_parity_count:
  assumes "length (mj_words c) = length (mj_words b)"
  shows "inversions_parity c b = inversions (mbit c) (mbit b) (span c) mod 2"
proof -
  let ?w = "length (mj_words c)" and ?P = "mbit c" and ?Q = "mbit b"
  let ?A = "\<lambda>q. count_below (\<lambda>i. q < i \<and> ?P i) (64 * ?w)"
  have inner: "fold (\<lambda>j t. t + suffix_counts (mj_words c) ! (wi + 1) + count_ones (above_in_word (mj_words c ! wi) j))
      (bit_loop (mj_words b ! wi)) t = t + (\<Sum>j<64. if ?Q (wi * 64 + j) then ?A (wi * 64 + j) else 0)"
    if "wi < ?w" for wi t
  proof -
    have "fold (\<lambda>j t. t + suffix_counts (mj_words c) ! (wi + 1) + count_ones (above_in_word (mj_words c ! wi) j))
        (bit_loop (mj_words b ! wi)) t =
      t + (\<Sum>j<64. if bit (mj_words b ! wi) j then suffix_counts (mj_words c) ! (wi + 1) +
            count_ones (above_in_word (mj_words c ! wi) j) else 0)"
      unfolding add.assoc fold_plus bit_loop_filter sum_filter_upt ..
    also have "\<dots> = t + (\<Sum>j<64. if ?Q (wi * 64 + j) then ?A (wi * 64 + j) else 0)"
      using that inversions_word [of wi "mj_words c"] by (auto simp: wbit_bit intro!: sum.cong)
    finally show ?thesis .
  qed
  have "fold (\<lambda>wi t. fold (\<lambda>j t. t + suffix_counts (mj_words c) ! (wi + 1) +
      count_ones (above_in_word (mj_words c ! wi) j)) (bit_loop (mj_words b ! wi)) t) [0..<?w] 0 =
    fold (\<lambda>wi t. t + (\<Sum>j<64. if ?Q (wi * 64 + j) then ?A (wi * 64 + j) else 0)) [0..<?w] 0"
    by (rule fold_cong) (use inner in \<open>auto simp: fun_eq_iff\<close>)
  also have "\<dots> = (\<Sum>q<64 * ?w. if ?Q q then ?A q else 0)"
    by (simp add: fold_plus sum_upt sum_blocks [where f = "\<lambda>q. if ?Q q then ?A q else 0"])
  finally show ?thesis
    unfolding inversions_parity_def Let_def inversions_def span_def assms [symmetric] by simp
qed

section \<open>The algebra of the monomials\<close>

definition tri :: "nat \<Rightarrow> nat" where
  "tri m = (m * (m - 1)) div 2"

lemma tri_Suc: "tri (Suc m) = tri m + m"
proof -
  have "Suc m * m = m * (m - 1) + 2 * m" by (cases m) (simp_all add: algebra_simps)
  then show ?thesis by (simp add: tri_def del: mult_Suc)
qed

lemma tri_add: "tri (a + b) = tri a + tri b + a * b"
  by (induction b) (simp_all add: tri_Suc tri_def [of 0])

lemma tri_double: "tri (2 * s) mod 2 = s mod 2"
proof (induction s)
  case (Suc s)
  have "tri (2 * Suc s) = tri (2 * s) + 4 * s + 1"
    by (simp add: tri_Suc)
  with Suc show ?case by presburger
qed (simp add: tri_def)

lemma tri_xor:
  assumes "m + 2 * s = a + b"
  shows "odd (tri a + tri b + tri m) = odd (a * b + s)"
proof -
  have "tri a + tri b + a * b = tri m + tri (2 * s) + 2 * (m * s)"
    using tri_add [of a b] tri_add [of m "2 * s"] assms by simp
  then show ?thesis using tri_double [of s] by presburger
qed

lemma count_xor:
  "count_below (\<lambda>q. bxor (P q) (Q q)) N + 2 * count_below (\<lambda>q. P q \<and> Q q) N = count_below P N + count_below Q N"
  by (induction N) (auto simp: count_below_Suc count_below_def)

lemma inv_parity_Suc: "inv_parity P Q (Suc N) = bxor (inv_parity P Q N) (P N \<and> parity_of Q N)"
proof -
  have "parity_of (\<lambda>j. Q j \<and> parity_of (\<lambda>i. j < i \<and> P i) (Suc N)) N =
      parity_of (\<lambda>j. bxor (Q j \<and> parity_of (\<lambda>i. j < i \<and> P i) N) (P N \<and> Q j)) N"
    by (rule parity_of_cong) auto
  also have "\<dots> = bxor (inv_parity P Q N) (P N \<and> parity_of Q N)"
    unfolding parity_of_bxor inv_parity_def by (cases "P N") (simp_all add: parity_of_False)
  moreover have "\<not> parity_of (\<lambda>i. N < i \<and> P i) (Suc N)" by (rule parity_of_False) simp
  ultimately show ?thesis by (simp add: inv_parity_def)
qed

lemma inv_parity_0: "\<not> inv_parity P Q 0"
  by (simp add: inv_parity_def)

lemma inv_parity_swap:
  "bxor (inv_parity P Q N) (inv_parity Q P N) =
   bxor (parity_of P N \<and> parity_of Q N) (parity_of (\<lambda>q. P q \<and> Q q) N)"
proof (induction N)
  case (Suc N)
  then show ?case unfolding inv_parity_Suc parity_of.simps by argo
qed (simp add: inv_parity_0)

lemma inv_parity_left:
  "inv_parity (\<lambda>q. bxor (P q) (P' q)) Q N = bxor (inv_parity P Q N) (inv_parity P' Q N)"
proof (induction N)
  case (Suc N)
  then show ?case unfolding inv_parity_Suc by argo
qed (simp add: inv_parity_0)

lemma inv_parity_right:
  "inv_parity P (\<lambda>q. bxor (Q q) (Q' q)) N = bxor (inv_parity P Q N) (inv_parity P Q' N)"
proof (induction N)
  case (Suc N)
  then show ?case unfolding inv_parity_Suc parity_of_bxor by argo
qed (simp add: inv_parity_0)

lemma inv_parity_self: "inv_parity P P N = odd (tri (count_below P N))"
proof (induction N)
  case (Suc N)
  then show ?case
    using odd_count_below [of P N] by (auto simp: inv_parity_Suc count_below_Suc tri_Suc)
qed (simp add: inv_parity_0 count_below_def tri_def)

lemma inv_parity_cong:
  assumes "\<And>q. q < N \<Longrightarrow> P q = P' q" "\<And>q. q < N \<Longrightarrow> Q q = Q' q"
  shows "inv_parity P Q N = inv_parity P' Q' N"
  unfolding inv_parity_def using assms by (intro parity_of_cong conj_cong) auto

text \<open>What \<open>mul\<close> returns, over the integers.\<close>

abbreviation same_width :: "majorana_key \<Rightarrow> majorana_key \<Rightarrow> bool" where
  "same_width c b \<equiv> length (mj_words c) = length (mj_words b)"

lemma mod4_phase: "(x mod 4 + y mod 4 + 4 - z mod 4 + t) mod 4 = (x + y - z + t) mod (4 :: int)"
proof -
  have "x mod 4 + y mod 4 + 4 - z mod 4 + t = (x + y - z + t) + 4 * (1 - x div 4 - y div 4 + z div 4)"
    unfolding minus_mult_div_eq_mod [symmetric] by (simp add: algebra_simps)
  then show ?thesis by (simp only: mod_mult_self2)
qed

lemma mul_phase:
  assumes "same_width c b"
  shows "int (snd (mj_mul c b)) = (int (tri (mj_length c)) + int (tri (mj_length b))
    - int (tri (mj_length (mj_xor c b))) + 2 * of_bool (inv_parity (mbit c) (mbit b) (span c))) mod 4"
proof -
  let ?a = "tri (mj_length c)" and ?b = "tri (mj_length b)" and ?m = "tri (mj_length (mj_xor c b))"
  have t: "inversions_parity c b = of_bool (inv_parity (mbit c) (mbit b) (span c))"
    unfolding inversions_parity_count [OF assms] odd_inversions [symmetric]
    by (simp add: odd_iff_mod_2_eq_one of_bool_def)
  have "int (snd (mj_mul c b)) = int ((?a mod 4 + ?b mod 4 + 4 - ?m mod 4
      + 2 * of_bool (inv_parity (mbit c) (mbit b) (span c))) mod 4)"
    by (simp add: mj_mul_def Let_def r_of_def tri_def t)
  also have "\<dots> = (int ?a mod 4 + int ?b mod 4 + 4 - int ?m mod 4
      + 2 * of_bool (inv_parity (mbit c) (mbit b) (span c))) mod 4"
  proof -
    have "?m mod 4 \<le> ?a mod 4 + ?b mod 4 + 4" by (simp add: less_imp_le_nat trans_le_add2)
    then show ?thesis by (simp add: zmod_int of_nat_diff algebra_simps)
  qed
  also have "\<dots> = (int ?a + int ?b - int ?m + 2 * of_bool (inv_parity (mbit c) (mbit b) (span c))) mod 4"
    by (rule mod4_phase)
  finally show ?thesis .
qed

lemma length_xor:
  assumes "same_width c b"
  shows "mj_length (mj_xor c b) + 2 * mj_shared c b = mj_length c + mj_length b"
proof -
  have "mj_length (mj_xor c b) = count_below (\<lambda>q. bxor (mbit c q) (mbit b q)) (span c)"
    unfolding mj_length_count words_xor [OF assms]
    by (rule count_below_cong) (simp add: mbit_xor [OF assms])
  moreover have "span b = span c" using assms by (simp add: span_def)
  ultimately show ?thesis
    using count_xor [of "mbit c" "mbit b" "span c"]
    by (simp add: mj_shared_count [OF assms] mj_length_count)
qed

lemma shared_le:
  assumes "same_width c b"
  shows "mj_shared c b \<le> mj_length c * mj_length b"
proof -
  have "span b = span c" using assms by (simp add: span_def)
  then have "mj_shared c b \<le> mj_length c" "mj_shared c b \<le> mj_length b"
    unfolding mj_shared_count [OF assms] mj_length_count count_below_card
    by (auto intro!: card_mono)
  then show ?thesis
    by (cases "mj_length b") (auto intro: order_trans)
qed

lemma commutes_parity:
  assumes "same_width c b"
  shows "mj_commutes c b = even (mj_length c * mj_length b + mj_shared c b)"
  using shared_le [OF assms] by (simp add: mj_commutes_def)

lemma mul_phase_parity:
  assumes "same_width c b"
  shows "even (snd (mj_mul c b)) = mj_commutes c b"
proof -
  let ?a = "tri (mj_length c)" and ?b = "tri (mj_length b)" and ?m = "tri (mj_length (mj_xor c b))"
  have "even (int (snd (mj_mul c b))) = even (int ?a + int ?b - int ?m)"
    unfolding mul_phase [OF assms] by presburger
  also have "\<dots> = even (?a + ?b + ?m)" by presburger
  finally show ?thesis
    using tri_xor [OF length_xor [OF assms]] unfolding commutes_parity [OF assms] even_of_nat by blast
qed

lemma mj_xor_comm:
  assumes "same_width c b" "mj_modes c = mj_modes b"
  shows "mj_xor c b = mj_xor b c"
proof (rule majorana_key.equality)
  show "mj_words (mj_xor c b) = mj_words (mj_xor b c)"
    using assms(1) by (auto simp: mj_xor_def xor.commute intro!: nth_equalityI)
qed (use assms in \<open>simp_all add: mj_xor_def\<close>)

lemma mul_swap:
  assumes "same_width c b" "mj_modes c = mj_modes b"
  shows "fst (mj_mul c b) = fst (mj_mul b c)"
    "snd (mj_mul c b) = (snd (mj_mul b c) + 2 * of_bool (\<not> mj_commutes c b)) mod 4"
proof -
  have s: "span b = span c" using assms by (simp add: span_def)
  show "fst (mj_mul c b) = fst (mj_mul b c)" by (simp add: mj_mul_def Let_def mj_xor_comm [OF assms])
  let ?p = "inv_parity (mbit c) (mbit b) (span c)" and ?q = "inv_parity (mbit b) (mbit c) (span c)"
  let ?K = "int (tri (mj_length c)) + int (tri (mj_length b)) - int (tri (mj_length (mj_xor c b)))"
  have "bxor ?p ?q = odd (mj_length c * mj_length b + mj_shared c b)"
    using inv_parity_swap [of "mbit c" "mbit b" "span c"] odd_count_below [of "mbit c" "span c"]
      odd_count_below [of "mbit b" "span c"] odd_count_below [of "\<lambda>q. mbit c q \<and> mbit b q" "span c"]
    by (simp add: mj_length_count s mj_shared_count [OF assms(1)]) blast
  then have pq: "bxor ?p ?q = (\<not> mj_commutes c b)" by (simp add: commutes_parity [OF assms(1)])
  have e1: "int (snd (mj_mul c b)) = (?K + 2 * of_bool ?p) mod 4" by (rule mul_phase [OF assms(1)])
  have e2: "int (snd (mj_mul b c)) = (?K + 2 * of_bool ?q) mod 4"
    using mul_phase [of b c] assms by (simp add: s mj_xor_comm [OF assms] add.commute)
  have "(2 * of_bool ?p :: int) mod 4 = (2 * of_bool ?q + 2 * of_bool (\<not> mj_commutes c b)) mod 4"
    using pq by (cases ?p; cases ?q) auto
  then have "(?K + 2 * of_bool ?p) mod 4 = ((?K + 2 * of_bool ?q) mod 4 + 2 * of_bool (\<not> mj_commutes c b)) mod 4"
    by (metis (no_types, opaque_lifting) add.assoc mod_add_left_eq mod_add_right_eq)
  then have "int (snd (mj_mul c b)) = int ((snd (mj_mul b c) + 2 * of_bool (\<not> mj_commutes c b)) mod 4)"
    unfolding e1 by (simp add: e2 zmod_int)
  then show "snd (mj_mul c b) = (snd (mj_mul b c) + 2 * of_bool (\<not> mj_commutes c b)) mod 4"
    by (simp only: of_nat_eq_iff)
qed

lemma mj_xor_assoc:
  assumes "same_width a b" "same_width b c"
  shows "mj_xor (mj_xor a b) c = mj_xor a (mj_xor b c)"
proof (rule majorana_key.equality)
  show "mj_words (mj_xor (mj_xor a b) c) = mj_words (mj_xor a (mj_xor b c))"
    using assms by (auto simp: mj_xor_def xor.assoc intro!: nth_equalityI)
qed (simp_all add: mj_xor_def)

lemma mul_assoc:
  assumes ab: "same_width a b" and bc: "same_width b c"
  shows "fst (mj_mul (fst (mj_mul a b)) c) = fst (mj_mul a (fst (mj_mul b c)))"
    "(snd (mj_mul a b) + snd (mj_mul (fst (mj_mul a b)) c)) mod 4 =
     (snd (mj_mul b c) + snd (mj_mul a (fst (mj_mul b c)))) mod 4"
proof -
  have f: "fst (mj_mul x y) = mj_xor x y" for x y by (simp add: mj_mul_def Let_def)
  show "fst (mj_mul (fst (mj_mul a b)) c) = fst (mj_mul a (fst (mj_mul b c)))"
    unfolding f by (rule mj_xor_assoc [OF ab bc])
  let ?N = "span a"
  have s: "span b = ?N" "span c = ?N" using ab bc by (simp_all add: span_def)
  have w: "same_width (mj_xor a b) c" "same_width a (mj_xor b c)"
    using ab bc words_xor by simp_all
  let ?A = "mbit a" and ?B = "mbit b" and ?C = "mbit c"
  let ?ip = "\<lambda>P Q. inv_parity P Q ?N"
  have l: "?ip (mbit (mj_xor a b)) ?C = bxor (?ip ?A ?C) (?ip ?B ?C)"
    unfolding inv_parity_left [symmetric] using mbit_xor [OF ab] by (intro inv_parity_cong) auto
  have r: "?ip ?A (mbit (mj_xor b c)) = bxor (?ip ?A ?B) (?ip ?A ?C)"
    unfolding inv_parity_right [symmetric] using mbit_xor [OF bc] s by (intro inv_parity_cong) auto
  let ?t = "\<lambda>k. int (tri (mj_length k))"
  let ?X = "?t a + ?t b + ?t c - ?t (mj_xor a (mj_xor b c))"
  have "(int (snd (mj_mul a b)) + int (snd (mj_mul (mj_xor a b) c))) mod 4 =
      (?X + 2 * (of_bool (?ip ?A ?B) + of_bool (bxor (?ip ?A ?C) (?ip ?B ?C)))) mod 4"
    unfolding mul_phase [OF ab] mul_phase [OF w(1)] mod_add_eq words_xor(2) [OF ab] l
      mj_xor_assoc [OF ab bc] by (rule arg_cong [where f = "\<lambda>x. x mod 4"]) simp
  also have "\<dots> = (?X + 2 * (of_bool (?ip ?B ?C) + of_bool (bxor (?ip ?A ?B) (?ip ?A ?C)))) mod 4"
    by (cases "?ip ?A ?B"; cases "?ip ?A ?C"; cases "?ip ?B ?C"; simp; presburger)
  also have "\<dots> = (int (snd (mj_mul b c)) + int (snd (mj_mul a (mj_xor b c)))) mod 4"
    unfolding mul_phase [OF bc] mul_phase [OF w(2)] mod_add_eq s r
    by (rule arg_cong [where f = "\<lambda>x. x mod 4"]) simp
  finally have "int ((snd (mj_mul a b) + snd (mj_mul (mj_xor a b) c)) mod 4) =
      int ((snd (mj_mul b c) + snd (mj_mul a (mj_xor b c))) mod 4)"
    by (simp add: zmod_int)
  then show "(snd (mj_mul a b) + snd (mj_mul (fst (mj_mul a b)) c)) mod 4 =
     (snd (mj_mul b c) + snd (mj_mul a (fst (mj_mul b c)))) mod 4"
    unfolding f by (simp only: of_nat_eq_iff)
qed

lemma mul_self:
  shows "snd (mj_mul b b) = 0" "mj_is_identity (fst (mj_mul b b))"
proof -
  have z: "mj_words (mj_xor b b) = replicate (length (mj_words b)) 0"
    by (auto simp: mj_xor_def intro!: nth_equalityI)
  then show "mj_is_identity (fst (mj_mul b b))"
    by (simp add: mj_mul_def Let_def mj_is_identity_def list_all_iff)
  have "mj_length (mj_xor b b) = 0"
    by (simp add: mj_length_def z sum_list_replicate count_ones_def)
  then have "int (snd (mj_mul b b)) = (2 * int (tri (mj_length b)) + 2 * of_bool (odd (tri (mj_length b)))) mod 4"
    by (simp add: mul_phase inv_parity_self mj_length_count) (simp add: tri_def)
  also have "\<dots> = 0" by (cases "odd (tri (mj_length b))") (auto elim!: oddE evenE)
  finally show "snd (mj_mul b b) = 0" by simp
qed

section \<open>Monomials of index lists and the Jordan--Wigner image\<close>

definition mj_canonical :: "nat \<Rightarrow> majorana_key \<Rightarrow> bool" where
  "mj_canonical n k \<longleftrightarrow> canonical (2 * n) (mj_words k) \<and> mj_modes k = of_nat n"

lemma mj_canonical_identity: "mj_canonical n (mj_identity n)" "\<not> mbit (mj_identity n) q \<or> \<not> q < span (mj_identity n)"
  by (auto simp: mj_canonical_def canonical_def mj_identity_def mj_words_for_def wbit_replicate0 span_def
      div_less_iff_less_mult mult.commute)

lemma mj_canonical_span:
  assumes "mj_canonical n k"
  shows "span k = 64 * div_ceil64 (2 * n)" "2 * n \<le> span k" "length (mj_words k) = div_ceil64 (2 * n)"
  using assms canonical_bound [of "2 * n"] by (simp_all add: mj_canonical_def canonical_def span_def)

lemma mj_canonical_off:
  "mj_canonical n k \<Longrightarrow> 2 * n \<le> q \<Longrightarrow> q < span k \<Longrightarrow> \<not> mbit k q"
  by (simp add: mj_canonical_def canonical_def span_def div_less_iff_less_mult mult.commute)

lemma mj_canonical_xor:
  assumes "mj_canonical n a" "mj_canonical n b"
  shows "mj_canonical n (mj_xor a b)"
proof -
  have w: "same_width a b" using assms by (simp add: mj_canonical_span)
  show ?thesis
    using assms words_xor [OF w] mbit_xor [OF w] mj_canonical_off [OF assms(1)] mj_canonical_off [OF assms(2)]
      mj_canonical_span [OF assms(1)] mj_canonical_span [OF assms(2)]
    by (auto simp: mj_canonical_def canonical_def span_def div_less_iff_less_mult mult.commute)
qed

lemma from_indices_loop_bits:
  assumes "distinct idx" "\<forall>i \<in> set idx. i < 2 * n \<and> \<not> mbit k i" "mj_canonical n k"
  shows "\<exists>k'. from_indices_loop n idx k = Some k' \<and> mj_canonical n k' \<and>
    (\<forall>q < span k. mbit k' q = (mbit k q \<or> q \<in> set idx))"
  using assms
proof (induction idx arbitrary: k)
  case (Cons i idx)
  let ?k = "k\<lparr>mj_words := wset (mj_words k) i\<rparr>"
  have i: "i < 2 * n" "\<not> mbit k i" using Cons.prems by auto
  then have iw: "i div 64 < length (mj_words k)"
    using mj_canonical_span(3) [OF Cons.prems(3)] by (simp add: div_ceil64_bound)
  have b: "mbit ?k q = (q = i \<or> mbit k q)" for q using wbit_wset [OF iw] by simp
  have c: "mj_canonical n ?k"
    using Cons.prems(3) i b by (auto simp: mj_canonical_def canonical_def)
  have s: "span ?k = span k" by (simp add: span_def)
  have "distinct idx" "\<forall>i' \<in> set idx. i' < 2 * n \<and> \<not> mbit ?k i'" using Cons.prems b by auto
  from Cons.IH [OF this c] obtain k' where "from_indices_loop n idx ?k = Some k'" "mj_canonical n k'"
    "\<forall>q < span k. mbit k' q = (mbit ?k q \<or> q \<in> set idx)" unfolding s by blast
  then show ?case using i iw b by (auto simp: mj_bit_def)
qed simp

lemma from_indices_bits:
  assumes "distinct idx" "\<forall>i \<in> set idx. i < 2 * n"
  shows "\<exists>k. from_indices n idx = Some k \<and> mj_canonical n k \<and>
    (\<forall>q < span k. mbit k q = (q \<in> set idx)) \<and> mj_length k = length idx"
proof -
  have "\<forall>i \<in> set idx. i < 2 * n \<and> \<not> mbit (mj_identity n) i"
    using assms(2) mj_canonical_identity mj_canonical_span(2) [OF mj_canonical_identity(1) [of n]]
    by (meson order_less_le_trans)
  from from_indices_loop_bits [OF assms(1) this mj_canonical_identity(1)]
  obtain k where k: "from_indices n idx = Some k" "mj_canonical n k"
    "\<forall>q < span (mj_identity n). mbit k q = (mbit (mj_identity n) q \<or> q \<in> set idx)"
    unfolding from_indices_def by blast
  have b: "mbit k q = (q \<in> set idx)" if "q < span k" for q
    using k that mj_canonical_identity mj_canonical_span(1) by metis
  have "{q. q < span k \<and> mbit k q} = set idx"
    using b assms(2) mj_canonical_span(2) [OF k(2)] by auto
  then have "mj_length k = length idx"
    by (simp add: mj_length_count count_below_card distinct_card [OF assms(1)])
  with k b show ?thesis by blast
qed

fun in_site :: "nat \<Rightarrow> bool \<Rightarrow> bool \<Rightarrow> nat \<Rightarrow> bool" where
  "in_site j False False q = False"
| "in_site j True False q = (q < 2 * j \<or> q = 2 * j)"
| "in_site j True True q = (q < 2 * j \<or> q = 2 * j + 1)"
| "in_site j False True q = (q = 2 * j \<or> q = 2 * j + 1)"

lemma even_phase_diff: "even a = even r \<Longrightarrow> r < 4 \<Longrightarrow> even ((a + 4 - r) mod 4)" for a r :: nat
  by (simp only: even_even_mod_4_iff [symmetric]) (simp add: even_diff_nat)

lemma site_factor_facts:
  assumes "site_factor j x z = Some (bits, ph)"
  shows "distinct bits" "set bits = {q. in_site j x z q}" "\<forall>q \<in> set bits. q < 2 * j + 2"
    "even ((ph + 4 - r_of (length bits)) mod 4)"
    "x \<Longrightarrow> length bits = 2 * j + 1 \<and> {..<2 * j} \<subseteq> set bits"
    "\<not> x \<Longrightarrow> length bits = 2 \<and> set bits \<inter> {..<2 * j} = {}"
proof -
  have r: "(2 * j + 1) * (2 * j + 1 - 1) div 2 = (2 * j + 1) * j" by simp
  have e: "even (((4 - j mod 4) mod 4 + 4 - (2 * j + 1) * j mod 4) mod 4)"
  proof -
    have ev: "even (m mod 4) = even m" for m :: nat by (simp add: even_even_mod_4_iff [symmetric])
    have "even ((2 * j + 1) * j mod 4) = even j" unfolding ev by simp
    moreover have "even ((4 - j mod 4) mod 4) = even j"
    proof -
      have "\<not> 4 < j mod 4" using mod_less_divisor [of 4 j] by linarith
      then show ?thesis unfolding ev by (simp add: even_diff_nat ev)
    qed
    moreover have "(2 * j + 1) * j mod 4 < 4" by simp
    ultimately show ?thesis by (intro even_phase_diff) simp_all
  qed
  have "r_of (2 * j + 1) = (2 * j + 1) * j mod 4" unfolding r_of_def r ..
  then show "even ((ph + 4 - r_of (length bits)) mod 4)"
    using assms e by (cases x; cases z) (auto simp: r_of_def)
qed (use assms in \<open>cases x; cases z; auto; fail\<close>)+

lemma commutes_initial:
  assumes "same_width a s" "\<And>q. q < span a \<Longrightarrow> mbit a q \<Longrightarrow> q < 2 * j"
    and "(\<forall>q < 2 * j. q < span a \<longrightarrow> mbit s q) \<and> odd (mj_length s) \<or>
         (\<forall>q < 2 * j. q < span a \<longrightarrow> \<not> mbit s q) \<and> even (mj_length s)"
  shows "mj_commutes a s"
  using assms(3)
proof
  assume s: "(\<forall>q < 2 * j. q < span a \<longrightarrow> mbit s q) \<and> odd (mj_length s)"
  have "mj_shared a s = mj_length a"
    unfolding mj_shared_count [OF assms(1)] mj_length_count
    using s assms(2) by (intro count_below_cong) auto
  then show ?thesis using s by (simp add: commutes_parity [OF assms(1)])
next
  assume s: "(\<forall>q < 2 * j. q < span a \<longrightarrow> \<not> mbit s q) \<and> even (mj_length s)"
  have "mj_shared a s = 0"
    unfolding mj_shared_count [OF assms(1)] count_below_card
    using s assms(2) by auto
  then show ?thesis using s by (simp add: commutes_parity [OF assms(1)])
qed

lemma parity_of_from:
  assumes "j < n"
  shows "parity_of (\<lambda>i. j \<le> i \<and> P i) n = bxor (P j) (parity_of (\<lambda>i. Suc j \<le> i \<and> P i) n)"
proof -
  have "parity_of (\<lambda>i. j \<le> i \<and> P i) n = parity_of (\<lambda>i. bxor (i = j \<and> P i) (Suc j \<le> i \<and> P i)) n"
    by (rule parity_of_cong) auto
  then show ?thesis using parity_of_single [OF assms, of P] unfolding parity_of_bxor by simp
qed

lemma from_pauli_loop_facts:
  assumes "j \<le> n" "mj_canonical n acc" "even e" "\<And>q. q < span acc \<Longrightarrow> mbit acc q \<Longrightarrow> q < 2 * j"
  shows "\<exists>acc' e' steps'. from_pauli_loop n [j..<n] x z (acc, e, steps) = Some (acc', e', steps') \<and>
    even e' \<and> mj_canonical n acc' \<and>
    steps' = steps + length (filter (\<lambda>i. x ! i \<or> z ! i) [j..<n]) \<and>
    (\<forall>q < span acc. mbit acc' q = bxor (mbit acc q) (parity_of (\<lambda>i. j \<le> i \<and> in_site i (x ! i) (z ! i) q) n))"
  using assms
proof (induction "n - j" arbitrary: j acc e steps)
  case 0
  then have "parity_of (\<lambda>i. j \<le> i \<and> in_site i (x ! i) (z ! i) q) n = False" for q
    by (auto intro!: parity_of_False)
  then show ?case using 0 by simp
next
  case (Suc d)
  then have j: "j < n" by simp
  note par = parity_of_from [OF j]
  show ?case
  proof (cases "site_factor j (x ! j) (z ! j)")
    case None
    then have xz: "\<not> x ! j" "\<not> z ! j" by (cases "x ! j"; cases "z ! j"; simp)+
    have "\<And>q. q < span acc \<Longrightarrow> mbit acc q \<Longrightarrow> q < 2 * Suc j" using Suc.prems(4) by fastforce
    from Suc.hyps(1) [OF _ _ Suc.prems(2,3) this, of steps] Suc.hyps(2) j
    show ?thesis using None xz by (simp add: upt_conv_Cons par)
  next
    case (Some f)
    obtain bits ph where f: "f = (bits, ph)" by (cases f)
    note sf = site_factor_facts [OF Some [unfolded f]]
    have "\<forall>i \<in> set bits. i < 2 * n" using sf(3) j by auto
    from from_indices_bits [OF sf(1) this] obtain s where s: "from_indices n bits = Some s"
      "mj_canonical n s" "\<forall>q < span s. mbit s q = (q \<in> set bits)" "mj_length s = length bits"
      by blast
    have w: "same_width acc s" using Suc.prems(2) s(2) by (simp add: mj_canonical_span)
    then have sp: "span s = span acc" by (simp add: span_def)
    have comm: "mj_commutes acc s"
    proof (rule commutes_initial [OF w Suc.prems(4)])
      show "(\<forall>q < 2 * j. q < span acc \<longrightarrow> mbit s q) \<and> odd (mj_length s) \<or>
         (\<forall>q < 2 * j. q < span acc \<longrightarrow> \<not> mbit s q) \<and> even (mj_length s)"
        using s(3,4) sf(5,6) sp by (cases "x ! j") auto
    qed
    define acc1 where "acc1 = mj_xor acc s"
    define e1 where "e1 = (e + (ph + 4 - r_of (mj_length s)) mod 4 + snd (mj_mul acc s)) mod 4"
    have "even (e + (ph + 4 - r_of (mj_length s)) mod 4 + snd (mj_mul acc s))"
      using Suc.prems(3) sf(4) comm mul_phase_parity [OF w] s(4) by simp
    then have e1: "even e1" unfolding e1_def by (simp only: even_even_mod_4_iff [symmetric])
    have c1: "mj_canonical n acc1" unfolding acc1_def by (rule mj_canonical_xor [OF Suc.prems(2) s(2)])
    have b1: "mbit acc1 q = bxor (mbit acc q) (in_site j (x ! j) (z ! j) q)" if "q < span acc" for q
      using mbit_xor [OF w that] s(3) sf(2) that sp by (simp add: acc1_def)
    have s1: "span acc1 = span acc" unfolding acc1_def by (rule words_xor(2) [OF w])
    have lim: "q < 2 * Suc j" if "q < span acc1" "mbit acc1 q" for q
      using that b1 Suc.prems(4) [of q] sf(2,3) s1 by fastforce
    have "d = n - Suc j" "Suc j \<le> n" using Suc.hyps(2) j by simp_all
    from Suc.hyps(1) [OF this c1 e1 lim, of "Suc steps"]
    obtain acc' e' steps' where r: "from_pauli_loop n [Suc j..<n] x z (acc1, e1, Suc steps) = Some (acc', e', steps')"
      "even e'" "mj_canonical n acc'"
      "steps' = Suc steps + length (filter (\<lambda>i. x ! i \<or> z ! i) [Suc j..<n])"
      "\<forall>q < span acc1. mbit acc' q = bxor (mbit acc1 q) (parity_of (\<lambda>i. Suc j \<le> i \<and> in_site i (x ! i) (z ! i) q) n)"
      by blast
    have xz: "x ! j \<or> z ! j" using Some by (cases "x ! j"; cases "z ! j") auto
    have "from_pauli_loop n [j..<n] x z (acc, e, steps) = Some (acc', e', steps')"
      using r(1) j Some s(1) by (simp add: upt_conv_Cons f acc1_def e1_def mj_mul_def Let_def)
    then show ?thesis using r b1 s1 xz j by (auto simp: upt_conv_Cons par)
  qed
qed

lemma in_site_even: "in_site i x z (2 * k) = (if k = i then bxor x z else x \<and> k < i)"
  by (cases x; cases z) auto

lemma in_site_odd: "in_site i x z (2 * k + 1) = (if k = i then z else x \<and> k < i)"
  by (cases x; cases z) auto

lemma from_pauli_counted_facts:
  assumes "length x = length z"
  shows "\<exists>k e. from_pauli_counted x z = Some (k, e, length (filter (\<lambda>i. x ! i \<or> z ! i) [0..<length x])) \<and>
    even e \<and> mj_canonical (length x) k \<and>
    (\<forall>j < length x.
      mbit k (2 * j) = bxor (bxor (x ! j) (z ! j)) (parity_of (\<lambda>i. j < i \<and> x ! i) (length x)) \<and>
      mbit k (2 * j + 1) = bxor (z ! j) (parity_of (\<lambda>i. j < i \<and> x ! i) (length x)))"
proof -
  let ?n = "length x"
  let ?id = "mj_identity ?n"
  have id: "q < span ?id \<Longrightarrow> \<not> mbit ?id q" for q using mj_canonical_identity(2) by blast
  have "\<exists>k e steps'. from_pauli_loop ?n [0..<?n] x z (?id, 0, 0) = Some (k, e, steps') \<and>
    even e \<and> mj_canonical ?n k \<and> steps' = 0 + length (filter (\<lambda>i. x ! i \<or> z ! i) [0..<?n]) \<and>
    (\<forall>q < span ?id. mbit k q = bxor (mbit ?id q) (parity_of (\<lambda>i. 0 \<le> i \<and> in_site i (x ! i) (z ! i) q) ?n))"
    by (rule from_pauli_loop_facts) (use id mj_canonical_identity(1) in auto)
  then obtain k e where k: "from_pauli_loop ?n [0..<?n] x z (?id, 0, 0) =
      Some (k, e, length (filter (\<lambda>i. x ! i \<or> z ! i) [0..<?n]))" "even e" "mj_canonical ?n k"
    "\<forall>q < span ?id. mbit k q = parity_of (\<lambda>i. in_site i (x ! i) (z ! i) q) ?n"
    using id by auto
  have le: "2 * ?n \<le> span ?id" by (rule mj_canonical_span(2) [OF mj_canonical_identity(1)])
  have split: "parity_of (\<lambda>i. if j = i then P i else x ! i \<and> j < i) ?n =
      bxor (P j) (parity_of (\<lambda>i. j < i \<and> x ! i) ?n)" if "j < ?n" for j P
  proof -
    have "parity_of (\<lambda>i. if j = i then P i else x ! i \<and> j < i) ?n =
        parity_of (\<lambda>i. bxor (i = j \<and> P i) (j < i \<and> x ! i)) ?n"
      by (rule parity_of_cong) auto
    then show ?thesis using parity_of_single [OF that, of P] unfolding parity_of_bxor by simp
  qed
  have "mbit k (2 * j) = bxor (bxor (x ! j) (z ! j)) (parity_of (\<lambda>i. j < i \<and> x ! i) ?n) \<and>
      mbit k (2 * j + 1) = bxor (z ! j) (parity_of (\<lambda>i. j < i \<and> x ! i) ?n)" if j: "j < ?n" for j
  proof -
    have "2 * j < span ?id" "2 * j + 1 < span ?id" using j le by linarith+
    then show ?thesis
      using k(4) split [OF j] by (simp only: in_site_even in_site_odd)
  qed
  then have "\<forall>j < ?n. mbit k (2 * j) = bxor (bxor (x ! j) (z ! j)) (parity_of (\<lambda>i. j < i \<and> x ! i) ?n) \<and>
      mbit k (2 * j + 1) = bxor (z ! j) (parity_of (\<lambda>i. j < i \<and> x ! i) ?n)" by blast
  moreover have "from_pauli_counted x z = Some (k, e, length (filter (\<lambda>i. x ! i \<or> z ! i) [0..<?n]))"
    using k(1,2) assms by (simp add: from_pauli_counted_def)
  ultimately show ?thesis using k(2,3) by blast
qed

section \<open>Fock expectation values\<close>

lemma bit_EVEN: "bit EVEN i = (i < 64 \<and> even i)"
proof -
  have "\<forall>i \<in> set [0..<64]. bit EVEN i = even i" by (simp add: EVEN_def upt_rec bit_simps)
  then have "i < 64 \<Longrightarrow> bit EVEN i = even i" by simp
  then show ?thesis using bit_imp_le_length [of EVEN i] by (cases "i < 64") auto
qed

lemma bit_ODD: "bit ODD i = (i < 64 \<and> odd i)"
proof -
  have "\<forall>i \<in> set [0..<64]. bit ODD i = odd i" by (simp add: ODD_def upt_rec bit_simps)
  then have "i < 64 \<Longrightarrow> bit ODD i = odd i" by simp
  then show ?thesis using bit_imp_le_length [of ODD i] by (cases "i < 64") auto
qed

definition paired :: "u64 \<Rightarrow> bool" where
  "paired w \<longleftrightarrow> (\<forall>i < 32. bit w (2 * i) = bit w (2 * i + 1))"

lemma paired_masks: "(push_bit 1 (w AND EVEN) = w AND ODD) = paired w"
proof
  assume eq: "push_bit 1 (w AND EVEN) = w AND ODD"
  have "bit w (2 * i) = bit w (2 * i + 1)" if i: "i < 32" for i
  proof -
    have "bit (push_bit 1 (w AND EVEN)) (2 * i + 1) = bit (w AND ODD) (2 * i + 1)" by (simp only: eq)
    then show ?thesis using i unfolding bit_push_bit_iff bit_and_iff bit_EVEN bit_ODD by simp
  qed
  then show "paired w" by (simp add: paired_def)
next
  assume p: "paired w"
  show "push_bit 1 (w AND EVEN) = w AND ODD"
  proof (rule bit_eqI)
    fix m assume "possible_bit TYPE(64 word) m"
    then have m: "m < 64" by simp
    show "bit (push_bit 1 (w AND EVEN)) m = bit (w AND ODD) m"
    proof (cases "even m")
      case False
      then obtain i where i: "m = 2 * i + 1" by (elim oddE)
      then show ?thesis
        using p m unfolding paired_def bit_push_bit_iff bit_and_iff bit_EVEN bit_ODD by simp
    next
      case True
      then have "\<not> (1 \<le> m \<and> even (m - 1))" by presburger
      then show ?thesis
        using True unfolding bit_push_bit_iff bit_and_iff bit_EVEN bit_ODD by simp
    qed
  qed
qed

lemma fold_signs: "fold (\<lambda>k s. if P k then s else - s) ks (sg :: int) = sg * (- 1) ^ length (filter (\<lambda>k. \<not> P k) ks)"
  by (induction ks arbitrary: sg) auto

lemma fock_loop_value:
  "fock_loop occ wi ws sg = (if \<forall>i < length ws. paired (ws ! i)
     then sg * (- 1) ^ (\<Sum>i<length ws. count_below (\<lambda>k. even k \<and> bit (ws ! i) k \<and> \<not> occ_bit occ ((wi + i) * 32 + k div 2)) 64)
     else 0)"
proof (induction ws arbitrary: wi sg)
  case (Cons w ws)
  have len: "length (filter (\<lambda>k. \<not> occ_bit occ (wi * 32 + k div 2)) (bit_loop (w AND EVEN))) =
      count_below (\<lambda>k. even k \<and> bit w k \<and> \<not> occ_bit occ (wi * 32 + k div 2)) 64"
    unfolding bit_loop_filter filter_filter count_below_def
    by (rule arg_cong [where f = length], rule filter_cong) (auto simp: bit_and_iff bit_EVEN)
  have all: "(\<forall>i < length (w # ws). paired ((w # ws) ! i)) = (paired w \<and> (\<forall>i < length ws. paired (ws ! i)))"
    by (auto simp: less_Suc_eq_0_disj)
  have shift: "(\<Sum>i<length (w # ws). count_below (\<lambda>k. even k \<and> bit ((w # ws) ! i) k \<and> \<not> occ_bit occ ((wi + i) * 32 + k div 2)) 64) =
      count_below (\<lambda>k. even k \<and> bit w k \<and> \<not> occ_bit occ (wi * 32 + k div 2)) 64 +
      (\<Sum>i<length ws. count_below (\<lambda>k. even k \<and> bit (ws ! i) k \<and> \<not> occ_bit occ ((Suc wi + i) * 32 + k div 2)) 64)"
    by (simp add: lessThan_Suc_eq_insert_0 sum.reindex zero_notin_Suc_image ac_simps)
  show ?case
    unfolding all shift fock_loop.simps paired_masks Cons.IH fold_signs len power_add mult.assoc
    by (cases "paired w"; cases "\<forall>i<length ws. paired (ws ! i)") (simp_all del: add_Suc)
qed simp

lemma sum_count_blocks:
  "(\<Sum>i<m. count_below (\<lambda>k. P (i * 64 + k)) 64) = count_below P (64 * m)"
proof (induction m)
  case (Suc m)
  then show ?case
    using count_below_add [of P "64 * m" 64] by (simp add: add.commute mult.commute)
qed (simp add: count_below_def)

lemma count_even: "count_below (\<lambda>q. even q \<and> P (q div 2)) (2 * n) = count_below P n"
  by (induction n) (simp_all add: count_below_Suc count_below_def)

lemma double_div_mod:
  fixes j :: nat
  shows "2 * j div 64 = j div 32" "2 * j mod 64 = 2 * (j mod 32)"
    "(2 * j + 1) div 64 = j div 32" "(2 * j + 1) mod 64 = 2 * (j mod 32) + 1"
proof -
  have j: "j = 32 * (j div 32) + j mod 32" and lt: "j mod 32 < 32" by simp_all
  have e: "2 * j = 2 * (j mod 32) + (j div 32) * 64" using j by linarith
  show "2 * j div 64 = j div 32" "2 * j mod 64 = 2 * (j mod 32)"
    "(2 * j + 1) div 64 = j div 32" "(2 * j + 1) mod 64 = 2 * (j mod 32) + 1"
    using lt by (subst e, simp)+
qed

lemma fock_value:
  assumes c: "mj_canonical n k"
  shows "fock_expectation k occ = (if \<forall>j < n. mbit k (2 * j) = mbit k (2 * j + 1)
    then (- 1) ^ card {j. j < n \<and> mbit k (2 * j) \<and> \<not> occ_bit occ j} else 0)"
proof -
  let ?ws = "mj_words k" and ?w = "length (mj_words k)"
  have pair: "(\<forall>i < ?w. paired (?ws ! i)) = (\<forall>j < 32 * ?w. mbit k (2 * j) = mbit k (2 * j + 1))"
  proof
    assume p: "\<forall>i < ?w. paired (?ws ! i)"
    show "\<forall>j < 32 * ?w. mbit k (2 * j) = mbit k (2 * j + 1)"
    proof (intro allI impI)
      fix j assume "j < 32 * ?w"
      then have d: "j div 32 < ?w" by (simp add: div_less_iff_less_mult mult.commute)
      have e: "2 * j div 64 = j div 32" "2 * j mod 64 = 2 * (j mod 32)"
        "(2 * j + 1) div 64 = j div 32" "(2 * j + 1) mod 64 = 2 * (j mod 32) + 1"
        by (rule double_div_mod)+
      show "mbit k (2 * j) = mbit k (2 * j + 1)"
        using p d unfolding wbit_bit e by (simp add: paired_def)
    qed
  next
    assume p: "\<forall>j < 32 * ?w. mbit k (2 * j) = mbit k (2 * j + 1)"
    show "\<forall>i < ?w. paired (?ws ! i)"
      unfolding paired_def
    proof (intro allI impI)
      fix i t :: nat assume it: "i < ?w" "t < 32"
      have e: "2 * (32 * i + t) div 64 = i" "2 * (32 * i + t) mod 64 = 2 * t"
        "(2 * (32 * i + t) + 1) div 64 = i" "(2 * (32 * i + t) + 1) mod 64 = 2 * t + 1" using it by auto
      have "32 * i + t < 32 * ?w" using it by linarith
      with p show "bit (?ws ! i) (2 * t) = bit (?ws ! i) (2 * t + 1)"
        unfolding wbit_bit using e by metis
    qed
  qed
  have le: "n \<le> 32 * ?w" using mj_canonical_span [OF c] by (simp add: span_def)
  have off: "\<not> mbit k (2 * j)" "\<not> mbit k (2 * j + 1)" if "n \<le> j" "j < 32 * ?w" for j
    using that mj_canonical_off [OF c] by (auto simp: span_def)
  have pn: "(\<forall>j < 32 * ?w. mbit k (2 * j) = mbit k (2 * j + 1)) = (\<forall>j < n. mbit k (2 * j) = mbit k (2 * j + 1))"
    using off le by (meson le_less_linear order_less_le_trans)
  have idx: "count_below (\<lambda>q. even q \<and> bit (?ws ! i) q \<and> \<not> occ_bit occ ((0 + i) * 32 + q div 2)) 64 =
      count_below (\<lambda>q. even (i * 64 + q) \<and> mbit k (i * 64 + q) \<and> \<not> occ_bit occ ((i * 64 + q) div 2)) 64" for i
  proof (rule count_below_cong)
    fix q :: nat assume "q < 64"
    then have "(i * 64 + q) div 64 = i" "(i * 64 + q) mod 64 = q" "(i * 64 + q) div 2 = i * 32 + q div 2"
      "even (i * 64 + q) = even q" by auto
    then show "(even q \<and> bit (?ws ! i) q \<and> \<not> occ_bit occ ((0 + i) * 32 + q div 2)) =
        (even (i * 64 + q) \<and> mbit k (i * 64 + q) \<and> \<not> occ_bit occ ((i * 64 + q) div 2))"
      unfolding wbit_bit by simp
  qed
  have "(\<Sum>i<?w. count_below (\<lambda>q. even q \<and> bit (?ws ! i) q \<and> \<not> occ_bit occ ((0 + i) * 32 + q div 2)) 64) =
      count_below (\<lambda>q. even q \<and> mbit k q \<and> \<not> occ_bit occ (q div 2)) (2 * (32 * ?w))"
    unfolding idx sum_count_blocks [of "\<lambda>q. even q \<and> mbit k q \<and> \<not> occ_bit occ (q div 2)"] by simp
  also have "\<dots> = count_below (\<lambda>q. even q \<and> (mbit k (2 * (q div 2)) \<and> \<not> occ_bit occ (q div 2))) (2 * (32 * ?w))"
    by (rule count_below_cong) auto
  also have "\<dots> = count_below (\<lambda>j. mbit k (2 * j) \<and> \<not> occ_bit occ j) (32 * ?w)"
    by (rule count_even)
  also have "\<dots> = count_below (\<lambda>j. mbit k (2 * j) \<and> \<not> occ_bit occ j) n"
    using off le by (intro count_below_extend) auto
  finally show ?thesis
    unfolding fock_expectation_def fock_loop_value pair pn by (simp add: count_below_card)
qed

section \<open>Rotations\<close>

lemma mul_identity_left:
  assumes "mj_is_identity u" "same_width u b"
  shows "snd (mj_mul u b) = 0"
proof -
  have u: "mj_words u = replicate (length (mj_words u)) 0"
    using assms(1) by (auto simp: mj_is_identity_def list_all_length intro!: nth_equalityI)
  have nu: "q < span u \<Longrightarrow> \<not> mbit u q" for q
    by (subst u) (simp add: wbit_replicate0 span_def div_less_iff_less_mult mult.commute)
  have "mj_length u = 0" unfolding mj_length_count count_below_card using nu by auto
  moreover have "mj_shared u b = 0"
    unfolding mj_shared_count [OF assms(2)] count_below_card using nu by auto
  moreover have "\<not> parity_of (\<lambda>i. q < i \<and> mbit u i) (span u)" for q
    using nu by (intro parity_of_False) auto
  then have "\<not> inv_parity (mbit u) (mbit b) (span u)"
    unfolding inv_parity_def by (intro parity_of_False) auto
  moreover have "mj_length (mj_xor u b) = mj_length b"
    using length_xor [OF assms(2)] calculation by simp
  ultimately have "int (snd (mj_mul u b)) = 0"
    unfolding mul_phase [OF assms(2)] by (simp add: tri_def)
  then show ?thesis by simp
qed

lemma snd_rotate_by: "snd (rotate_by b c) = (if (snd (mj_mul c b) + 1) mod 4 = 0 then 1 else - 1)"
  by (simp add: rotate_by_def split_beta)

lemma fst_rotate_by: "fst (rotate_by b c) = mj_xor c b"
  by (simp add: rotate_by_def mj_mul_def split_beta Let_def)

lemma rotate_by_twice:
  assumes w: "same_width c b" and m: "mj_modes c = mj_modes b" and anti: "\<not> mj_commutes c b"
  shows "fst (rotate_by (fst (rotate_by b c)) c) = b \<and>
    snd (rotate_by (fst (rotate_by b c)) c) = - snd (rotate_by b c) \<and>
    \<not> mj_commutes c (fst (rotate_by b c))"
proof -
  let ?k = "mj_xor c b"
  have wk: "same_width c ?k" using words_xor [OF w] by simp
  have f: "fst (mj_mul x y) = mj_xor x y" for x y by (simp add: mj_mul_def Let_def)
  have e4: "snd (mj_mul x y) < 4" for x y by (simp add: mj_mul_def Let_def)
  have id: "mj_is_identity (mj_xor c c)" using mul_self(2) [of c] by (simp add: f)
  have "same_width (mj_xor c c) b" using words_xor(1) [of c c] w by simp
  then have z: "snd (mj_mul (mj_xor c c) b) = 0" using mul_identity_left [OF id] by simp
  have "(snd (mj_mul c c) + snd (mj_mul (mj_xor c c) b)) mod 4 =
      (snd (mj_mul c b) + snd (mj_mul c ?k)) mod 4"
    using mul_assoc(2) [of c c b] w by (simp add: f)
  then have sum: "(snd (mj_mul c b) + snd (mj_mul c ?k)) mod 4 = 0"
    by (simp add: z mul_self)
  have odd1: "odd (snd (mj_mul c b))" using mul_phase_parity [OF w] anti by simp
  have "(snd (mj_mul c b) = 1 \<and> snd (mj_mul c ?k) = 3) \<or> (snd (mj_mul c b) = 3 \<and> snd (mj_mul c ?k) = 1)"
    using sum odd1 e4 [of c b] e4 [of c ?k] by presburger
  then have signs: "snd (rotate_by ?k c) = - snd (rotate_by b c)" "odd (snd (mj_mul c ?k))"
    by (auto simp: snd_rotate_by dest: dvd_imp_le)
  have "mj_words (mj_xor c ?k) = mj_words b"
    using w by (auto simp: mj_xor_def xor.assoc [symmetric] intro!: nth_equalityI)
  then have "mj_xor c ?k = b" using m by (intro majorana_key.equality) (simp_all add: mj_xor_def)
  then show ?thesis
    using signs mul_phase_parity [OF wk] by (simp add: fst_rotate_by)
qed

section \<open>Products put into order\<close>

lemma mj_indices_filter: "mj_indices k = filter (mbit k) [0..<span k]"
proof -
  have "concat (map (\<lambda>wi. map (\<lambda>t. wi * 64 + t) (bit_loop (mj_words k ! wi))) [0..<m]) = filter (mbit k) [0..<64 * m]" for m
  proof (induction m)
    case (Suc m)
    have "[0..<64 * Suc m] = [0..<64 * m] @ map (\<lambda>t. m * 64 + t) [0..<64]"
      using upt_add_eq_append [of 0 "64 * m" 64] by (simp add: map_add_upt mult.commute add.commute)
    moreover have "filter (mbit k) (map (\<lambda>t. m * 64 + t) [0..<64]) = map (\<lambda>t. m * 64 + t) (bit_loop (mj_words k ! m))"
      unfolding bit_loop_filter filter_map by (intro arg_cong [where f = "map _"] filter_cong refl) (simp add: wbit_bit)
    ultimately show ?case using Suc by simp
  qed simp
  then show ?thesis by (simp add: mj_indices_def span_def)
qed

lemma mj_length_indices: "mj_length k = length (mj_indices k)"
  by (simp add: mj_length_count mj_indices_filter count_below_def)

text \<open>The product of Majorana operators, put into ascending order by the relations of the algebra: two
  different neighbours exchange with a change of sign, two equal ones cancel.\<close>

fun move_in :: "nat \<Rightarrow> nat list \<Rightarrow> bool \<times> nat list" where
  "move_in i [] = (False, [i])"
| "move_in i (j # js) =
     (if i < j then (False, i # j # js)
      else if i = j then (False, js)
      else let (s, ks) = move_in i js in (\<not> s, j # ks))"

fun reorder :: "nat list \<Rightarrow> bool \<times> nat list" where
  "reorder [] = (False, [])"
| "reorder (i # is) = (let (s, ks) = reorder is; (t, ls) = move_in i ks in (s \<noteq> t, ls))"

lemma move_in_value:
  "sorted_wrt (<) js \<Longrightarrow> sorted_wrt (<) (snd (move_in i js)) \<and>
     set (snd (move_in i js)) = (if i \<in> set js then set js - {i} else insert i (set js)) \<and>
     fst (move_in i js) = odd (length (filter (\<lambda>j. j < i) js))"
proof (induction js)
  case (Cons j js)
  show ?case
  proof (cases "j < i")
    case True
    then show ?thesis using Cons by (auto simp: case_prod_unfold Let_def split: if_splits)
  next
    case False
    then have f: "filter (\<lambda>j. j < i) js = []" using Cons.prems by (auto simp: filter_empty_conv)
    show ?thesis using False Cons.prems by (auto simp: f)
  qed
qed simp

lemma reorder_sorted: "sorted_wrt (<) bs \<Longrightarrow> reorder bs = (False, bs)"
proof (induction bs)
  case (Cons b bs)
  then show ?case by (cases bs) auto
qed simp

lemma reorder_append:
  assumes "sorted_wrt (<) bs"
  shows "sorted_wrt (<) cs \<Longrightarrow> sorted_wrt (<) (snd (reorder (cs @ bs))) \<and>
    set (snd (reorder (cs @ bs))) = {i. (i \<in> set cs) \<noteq> (i \<in> set bs)} \<and>
    fst (reorder (cs @ bs)) = odd (\<Sum>c\<leftarrow>cs. length (filter (\<lambda>b. b < c) bs))"
proof (induction cs)
  case Nil
  then show ?case using assms by (simp add: reorder_sorted)
next
  case (Cons c cs)
  obtain s ks where ks: "reorder (cs @ bs) = (s, ks)" by (cases "reorder (cs @ bs)")
  have ih: "sorted_wrt (<) ks" "set ks = {i. (i \<in> set cs) \<noteq> (i \<in> set bs)}"
    "s = odd (\<Sum>c\<leftarrow>cs. length (filter (\<lambda>b. b < c) bs))"
    using Cons ks by auto
  have c: "\<forall>i \<in> set cs. c < i" using Cons.prems by simp
  have len: "length (filter P xs) = card {x \<in> set xs. P x}" if "sorted_wrt (<) xs" for P and xs :: "nat list"
    using that by (metis distinct_card distinct_filter set_filter strict_sorted_iff)
  have "{i \<in> set ks. i < c} = {i \<in> set bs. i < c}" unfolding ih(2) using c by auto
  then have "length (filter (\<lambda>i. i < c) ks) = length (filter (\<lambda>i. i < c) bs)"
    by (simp only: len [OF ih(1)] len [OF assms])
  then show ?case
    using move_in_value [OF ih(1), of c] ih c by (auto simp: ks case_prod_unfold)
qed

lemma inversions_list:
  "inversions P Q N = (\<Sum>c\<leftarrow>filter P [0..<N]. length (filter (\<lambda>b. b < c) (filter Q [0..<N])))"
proof -
  have l: "length (filter P [0..<N]) = (\<Sum>i<N. of_bool (P i))" for P by (induction N) auto
  have "inversions P Q N = (\<Sum>j<N. \<Sum>i<N. of_bool (Q j \<and> j < i \<and> P i))"
    unfolding inversions_def count_below_def l by (intro sum.cong) auto
  also have "\<dots> = (\<Sum>i<N. \<Sum>j<N. of_bool (Q j \<and> j < i \<and> P i))" by (rule sum.swap)
  also have "\<dots> = (\<Sum>i<N. if P i then \<Sum>j<N. of_bool (j < i \<and> Q j) else 0)"
    by (intro sum.cong) (auto simp: conj_commute intro!: sum.cong)
  also have "\<dots> = (\<Sum>c\<leftarrow>filter P [0..<N]. length (filter (\<lambda>b. b < c) (filter Q [0..<N])))"
    unfolding sum_filter_upt filter_filter l by (intro sum.cong refl if_cong) auto
  finally show ?thesis .
qed

section \<open>Properties\<close>

text \<open>C21: \<open>mul\<close> multiplies Majorana monomials: when the indices of the first factor are written before
  those of the second and put into ascending order one at a time, with a change of sign for every exchange
  of different indices and equal ones cancelling, the result lists the indices of the product's label, and
  the power of \<open>i\<close> that \<open>mul\<close> returns, with the power carried by that label, is the sign of the reordering
  with the powers carried by the labels of the factors.\<close>

theorem majorana_mul_reorders:
  assumes "same_width c b"
  shows "\<exists>sgn. reorder (mj_indices c @ mj_indices b) = (sgn, mj_indices (fst (mj_mul c b))) \<and>
    (r_of (mj_length (fst (mj_mul c b))) + snd (mj_mul c b)) mod 4 =
    (r_of (mj_length c) + r_of (mj_length b) + 2 * of_bool sgn) mod 4"
proof -
  let ?out = "mj_xor c b"
  have w: "length (mj_words c) = length (mj_words b)" "span b = span c" using assms by (simp_all add: span_def)
  have s: "sorted_wrt (<) (mj_indices k)" for k by (simp add: mj_indices_filter sorted_wrt_filter)
  note r = reorder_append [OF s [of b] s [of c]]
  have "set (mj_indices ?out) = {i. (i \<in> set (mj_indices c)) \<noteq> (i \<in> set (mj_indices b))}"
    using mbit_xor [OF w(1)] w(2) words_xor [OF w(1)] by (auto simp: mj_indices_filter)
  then have label: "snd (reorder (mj_indices c @ mj_indices b)) = mj_indices ?out"
    using r s [of ?out] by (intro strict_sorted_equal) simp_all
  have "inversions (mbit c) (mbit b) (span c) = (\<Sum>i\<leftarrow>mj_indices c. length (filter (\<lambda>j. j < i) (mj_indices b)))"
    unfolding inversions_list mj_indices_filter w(2) ..
  then have t: "inversions_parity c b = of_bool (fst (reorder (mj_indices c @ mj_indices b)))"
    using r unfolding inversions_parity_count [OF w(1)] by (simp only: mod_2_eq_odd)
  have phase: "(o' + (x + 4 - o' + 2 * y) mod 4) mod 4 = (x + 2 * y) mod 4" if "o' < 4" for o' x y :: nat
  proof -
    have "(o' + (x + 4 - o' + 2 * y) mod 4) mod 4 = (o' + (x + 4 - o' + 2 * y)) mod 4" by (rule mod_add_right_eq)
    also have "o' + (x + 4 - o' + 2 * y) = x + 2 * y + 4" using that by simp
    finally show ?thesis by simp
  qed
  have m: "fst (mj_mul c b) = ?out"
    "snd (mj_mul c b) = (r_of (mj_length c) + r_of (mj_length b) + 4 - r_of (mj_length ?out) + 2 * inversions_parity c b) mod 4"
    by (simp_all add: mj_mul_def Let_def)
  have "r_of (mj_length ?out) < 4" by (simp add: r_of_def)
  note phase [OF this, of "r_of (mj_length c) + r_of (mj_length b)"]
  then show ?thesis unfolding m t using label by (metis prod.collapse)
qed

theorem majorana_mul_reorders_witness:
  "mj_indices (fst (mj_mul \<lparr>mj_words = [2], mj_modes = 1\<rparr> \<lparr>mj_words = [1], mj_modes = 1\<rparr>)) = [0, 1] \<and>
   snd (mj_mul \<lparr>mj_words = [2], mj_modes = 1\<rparr> \<lparr>mj_words = [1], mj_modes = 1\<rparr>) = 1"
proof -
  let ?c = "\<lparr>mj_words = [2 :: u64], mj_modes = 1\<rparr>" and ?b = "\<lparr>mj_words = [1 :: u64], mj_modes = 1\<rparr>"
  have tz: "trailing_zeros 1 = 0" "trailing_zeros 2 = 1"
    by (rule trailing_zeros_eqI; simp add: bit_1_iff)+ 
  have "bit_loop 1 = [0]" "bit_loop 2 = [1]"
    using bit_loop.simps [of 1] bit_loop.simps [of 2] bit_loop.simps [of 0] tz by simp_all
  then have i: "mj_indices ?c = [1]" "mj_indices ?b = [0]" by (simp_all add: mj_indices_def)
  have l: "same_width ?c ?b" by simp
  obtain sgn where s: "reorder [1, 0] = (sgn, mj_indices (fst (mj_mul ?c ?b)))"
    "(r_of (mj_length (fst (mj_mul ?c ?b))) + snd (mj_mul ?c ?b)) mod 4 = (r_of (mj_length ?c) + r_of (mj_length ?b) + 2 * of_bool sgn) mod 4"
    using majorana_mul_reorders [OF l, unfolded i append.simps] by blast
  have "snd (mj_mul ?c ?b) < 4" by (simp add: mj_mul_def Let_def)
  moreover have o: "sgn" "mj_indices (fst (mj_mul ?c ?b)) = [0, 1]" using s(1) by simp_all
  moreover have "(1 + snd (mj_mul ?c ?b)) mod 4 = 2"
    using s(2) o by (simp add: mj_length_indices i r_of_def)
  ultimately show ?thesis by presburger
qed

text \<open>The popcount test \<open>commutes\<close> decides commutation of the product computed by \<open>mul\<close>: its
  subtraction does not underflow, swapping the factors changes the phase by \<open>i^2\<close> exactly when the
  test fails, the phase is real exactly when it succeeds, and every monomial squares to the
  identity with phase 1.\<close>

theorem majorana_commutes_decides:
  assumes "same_width c b" "mj_modes c = mj_modes b"
  shows "mj_shared c b \<le> mj_length c * mj_length b \<and> fst (mj_mul c b) = fst (mj_mul b c) \<and>
    snd (mj_mul c b) = (snd (mj_mul b c) + 2 * of_bool (\<not> mj_commutes c b)) mod 4 \<and>
    even (snd (mj_mul c b)) = mj_commutes c b \<and>
    mj_is_identity (fst (mj_mul b b)) \<and> snd (mj_mul b b) = 0"
  using shared_le [OF assms(1)] mul_swap [OF assms] mul_phase_parity [OF assms(1)] mul_self by blast

theorem majorana_commutes_decides_witness:
  "snd (mj_mul \<lparr>mj_words = [1], mj_modes = 1\<rparr> \<lparr>mj_words = [2], mj_modes = 1\<rparr>) =
   (snd (mj_mul \<lparr>mj_words = [2], mj_modes = 1\<rparr> \<lparr>mj_words = [1], mj_modes = 1\<rparr>) +
     2 * of_bool (\<not> mj_commutes \<lparr>mj_words = [1], mj_modes = 1\<rparr> \<lparr>mj_words = [2], mj_modes = 1\<rparr>)) mod 4"
  using majorana_commutes_decides [of "\<lparr>mj_words = [1], mj_modes = 1\<rparr>" "\<lparr>mj_words = [2], mj_modes = 1\<rparr>"]
  by simp

text \<open>C25: \<open>rotate_by\<close> turns two labels into each other: for an anticommuting generator \<open>c\<close> the
  image of \<open>b\<close> again anticommutes with \<open>c\<close>, rotating it gives \<open>b\<close> back, and the two signs are
  opposite, so a rotation by \<open>phi\<close> is a plane rotation of the two coefficients.\<close>

theorem rotate_by_plane:
  assumes "same_width c b" "mj_modes c = mj_modes b" "\<not> mj_commutes c b"
  shows "fst (rotate_by (fst (rotate_by b c)) c) = b \<and>
    snd (rotate_by (fst (rotate_by b c)) c) = - snd (rotate_by b c) \<and>
    \<not> mj_commutes c (fst (rotate_by b c))"
  using assms by (rule rotate_by_twice)

theorem rotate_by_plane_witness:
  "fst (rotate_by (fst (rotate_by \<lparr>mj_words = [1], mj_modes = 1\<rparr> \<lparr>mj_words = [3], mj_modes = 1\<rparr>))
     \<lparr>mj_words = [3], mj_modes = 1\<rparr>) = \<lparr>mj_words = [1], mj_modes = 1\<rparr>"
proof -
  have "\<not> mj_commutes \<lparr>mj_words = [3], mj_modes = 1\<rparr> \<lparr>mj_words = [1], mj_modes = 1\<rparr>" by code_simp
  then show ?thesis
    using rotate_by_plane [of "\<lparr>mj_words = [3], mj_modes = 1\<rparr>" "\<lparr>mj_words = [1], mj_modes = 1\<rparr>"] by simp
qed

text \<open>C26: \<open>from_pauli_counted\<close> never trips one of its assertions on bit vectors of one length: the
  accumulated power of \<open>i\<close> is even, so the Pauli string maps to plus or minus a Hermitian
  monomial; the count is the number of non-identity sites; and the monomial is the one of the
  Jordan--Wigner transform, mode by mode.\<close>

theorem from_pauli_total:
  assumes "length x = length z"
  shows "\<exists>k e. from_pauli_counted x z = Some (k, e, card {i. i < length x \<and> (x ! i \<or> z ! i)}) \<and>
    from_pauli x z = Some (k, e) \<and> even e \<and> mj_canonical (length x) k \<and>
    (\<forall>j < length x.
      mbit k (2 * j) = odd (of_bool (bxor (x ! j) (z ! j)) + card {i. i < length x \<and> j < i \<and> x ! i}) \<and>
      mbit k (2 * j + 1) = odd (of_bool (z ! j) + card {i. i < length x \<and> j < i \<and> x ! i}))"
proof -
  have c: "length (filter (\<lambda>i. x ! i \<or> z ! i) [0..<length x]) = card {i. i < length x \<and> (x ! i \<or> z ! i)}"
    using count_below_card [of "\<lambda>i. x ! i \<or> z ! i" "length x"] by (simp add: count_below_def)
  have p: "odd (of_bool b + card {i. i < length x \<and> j < i \<and> x ! i}) =
      bxor b (parity_of (\<lambda>i. j < i \<and> x ! i) (length x))" for b j
    using odd_count_below [of "\<lambda>i. j < i \<and> x ! i" "length x"] by (cases b) (simp_all add: count_below_card)
  from from_pauli_counted_facts [OF assms] show ?thesis
    unfolding c p by (auto simp: from_pauli_def)
qed

theorem from_pauli_total_witness:
  "\<exists>k e. from_pauli [True, True, False] [False, True, True] = Some (k, e) \<and> even e"
  using from_pauli_total [of "[True, True, False]" "[False, True, True]"] by auto

text \<open>\<open>fock_expectation\<close> is the matrix element of the header comment: zero unless every mode is
  paired, else \<open>-1\<close> to the number of paired empty modes, with the occupation read as 0 beyond the
  words given; the vacuum is the case of no occupied mode.\<close>

theorem fock_expectation_value:
  assumes "mj_canonical n k"
  shows "fock_expectation k occ = (if \<forall>j < n. mbit k (2 * j) = mbit k (2 * j + 1)
      then (- 1) ^ card {j. j < n \<and> mbit k (2 * j) \<and> \<not> occ_bit occ j} else 0) \<and>
    vacuum_expectation k = (if \<forall>j < n. mbit k (2 * j) = mbit k (2 * j + 1)
      then (- 1) ^ card {j. j < n \<and> mbit k (2 * j)} else 0)"
  using fock_value [OF assms, of occ] fock_value [OF assms, of "[]"]
  by (simp add: vacuum_expectation_def occ_bit_def)

theorem fock_expectation_value_witness:
  "fock_expectation \<lparr>mj_words = [3], mj_modes = 1\<rparr> [] = - 1"
proof -
  have "mj_canonical 1 \<lparr>mj_words = [3], mj_modes = 1\<rparr>"
  proof -
    have "(3 :: u64) = mask 2" by (simp add: mask_eq_exp_minus_1)
    then have "bit (3 :: u64) q = bit (mask 2 :: u64) q" for q by (rule arg_cong)
    then have "\<not> bit (3 :: u64) q" if "2 \<le> q" for q
      using that by (simp add: bit_mask_iff)
    then show ?thesis by (auto simp: mj_canonical_def canonical_def div_ceil64_def wbit_bit)
  qed
  moreover have "{j. j < 1 \<and> wbit [3] (2 * j) \<and> \<not> occ_bit [] j} = {0}"
    by (auto simp: wbit_def occ_bit_def)
  moreover have "wbit [3] 0" "wbit [3] 1" by (simp_all add: wbit_def)
  ultimately show ?thesis using fock_expectation_value [of 1 _ "[]"] by force
qed

end
