(* ===== verification/HostAxis.thy ===== *)
theory HostAxis
  imports BTree RustString
begin

text \<open>
  Axes, requests, refusals and modes of \<^verbatim>\<open>crates/omega-hostgate/src/lib.rs\<close>.  The long dash of
  two messages is written with two hyphens.
\<close>

datatype axis = HostBytes | DeviceBytes u32 | Slots | Vendor string

text \<open>The derived order: variants in order of declaration, then their fields.\<close>

fun axis_key :: "axis \<Rightarrow> nat \<times> nat \<times> string" where
  "axis_key HostBytes = (0, 0, [])"
| "axis_key (DeviceBytes i) = (1, unat i, [])"
| "axis_key Slots = (2, 0, [])"
| "axis_key (Vendor v) = (3, 0, v)"

lemma axis_key_inj: "axis_key a = axis_key b \<Longrightarrow> a = b"
  by (cases a; cases b) (auto simp: word_unat_eq_iff)

instantiation axis :: linorder
begin

definition less_eq_axis :: "axis \<Rightarrow> axis \<Rightarrow> bool" where
  "less_eq_axis a b = (axis_key a \<le> axis_key b)"

definition less_axis :: "axis \<Rightarrow> axis \<Rightarrow> bool" where
  "less_axis a b = (axis_key a < axis_key b)"

instance
proof
  fix a b c :: axis
  show "(a < b) = (a \<le> b \<and> \<not> b \<le> a)"
    unfolding less_axis_def less_eq_axis_def by (rule less_le_not_le)
  show "a \<le> a" by (simp add: less_eq_axis_def)
  show "a \<le> b \<Longrightarrow> b \<le> c \<Longrightarrow> a \<le> c" unfolding less_eq_axis_def by (rule order_trans)
  show "a \<le> b \<Longrightarrow> b \<le> a \<Longrightarrow> a = b" unfolding less_eq_axis_def by (blast intro: axis_key_inj antisym)
  show "a \<le> b \<or> b \<le> a" unfolding less_eq_axis_def by (rule linear)
qed

end

definition axis_display :: "axis \<Rightarrow> string" where
  "axis_display a = (case a of
       HostBytes \<Rightarrow> ''host_bytes''
     | DeviceBytes i \<Rightarrow> ''device_bytes['' @ show_nat (unat i) @ '']''
     | Slots \<Rightarrow> ''slots''
     | Vendor v \<Rightarrow> ''vendor['' @ v @ '']'')"

text \<open>The name of an axis in the ledger determines the axis.\<close>

lemma axis_display_inj: "(axis_display a = axis_display b) = (a = b)"
  by (cases a; cases b) (auto simp: axis_display_def word_unat_eq_iff dest: inj_show_nat)

type_synonym amounts = "(axis, u64) btree"

record request =
  req_amounts :: amounts
  req_tag :: string

definition request_new :: "string \<Rightarrow> request" where
  "request_new tag = \<lparr>req_amounts = [], req_tag = tag\<rparr>"

definition want :: "axis \<Rightarrow> u64 \<Rightarrow> request \<Rightarrow> request" where
  "want axis amount r =
     (if 0 < amount
      then r\<lparr>req_amounts := bt_insert axis (sat_add (bt_get_or 0 axis (req_amounts r)) amount) (req_amounts r)\<rparr>
      else r)"

datatype refusal =
    TooLarge axis u64 u64
  | Busy axis u64 u64
  | Unavailable string

fun refusal_display :: "refusal \<Rightarrow> string" where
  "refusal_display (TooLarge axis required cap) =
     axis_display axis @ '': need '' @ show_nat (unat required) @ '', but the whole budget is ''
     @ show_nat (unat cap) @ '' -- this cannot fit, and retrying will not change that''"
| "refusal_display (Busy axis required available) =
     axis_display axis @ '': need '' @ show_nat (unat required) @ '', '' @ show_nat (unat available)
     @ '' free right now -- it fits, but not alongside what is already running''"
| "refusal_display (Unavailable why) = ''the host gate could not answer: '' @ why"

fun retryable :: "refusal \<Rightarrow> bool" where
  "retryable (Busy _ _ _) = True"
| "retryable _ = False"

datatype gate_mode = Off | Advisory | Enforce

text \<open>The error carries the text that the message quotes.\<close>

definition mode_parse :: "string \<Rightarrow> string + gate_mode" where
  "mode_parse s =
     (let t = to_ascii_lowercase (trim s)
      in if t = ''off'' \<or> t = '''' then Inr Off
         else if t = ''advisory'' then Inr Advisory
         else if t = ''enforce'' then Inr Enforce
         else Inl t)"

section \<open>Requests\<close>

lemma want_sorted: "bt_sorted (req_amounts r) \<Longrightarrow> bt_sorted (req_amounts (want a v r))"
  by (simp add: want_def bt_insert_sorted)

lemma want_amount:
  assumes "bt_sorted (req_amounts r)"
  shows "unat (bt_get_or 0 b (req_amounts (want a v r))) =
    (if b = a then min (unat (bt_get_or 0 a (req_amounts r)) + unat v) (2 ^ 64 - 1)
     else unat (bt_get_or 0 b (req_amounts r)))"
proof -
  have "unat (bt_get_or 0 a (req_amounts r)) \<le> 2 ^ 64 - 1"
    using unat_bound [of "bt_get_or 0 a (req_amounts r)"] by simp
  moreover have "\<not> 0 < v \<Longrightarrow> v = 0" using word_gt_0 by blast
  ultimately show ?thesis
    using assms by (auto simp: want_def bt_get_or_def bt_insert_get unat_sat_add)
qed

text \<open>Requests built by the API: \<open>new\<close> followed by \<open>want\<close>s.\<close>

definition request_of :: "string \<Rightarrow> (axis \<times> u64) list \<Rightarrow> request" where
  "request_of tag ws = fold (\<lambda>(a, v) r. want a v r) ws (request_new tag)"

lemma request_of_amount:
  "bt_sorted (req_amounts (request_of tag ws)) \<and>
   unat (bt_get_or 0 b (req_amounts (request_of tag ws))) =
     min (\<Sum>(a, v)\<leftarrow>ws. if a = b then unat v else 0) (2 ^ 64 - 1)"
proof (induction ws rule: rev_induct)
  case Nil
  then show ?case by (simp add: request_of_def request_new_def bt_sorted_def bt_get_or_def bt_get_def)
next
  case (snoc w ws)
  obtain a v where w: "w = (a, v)" by (cases w)
  have r: "request_of tag (ws @ [w]) = want a v (request_of tag ws)" by (simp add: request_of_def w)
  have "bt_sorted (req_amounts (request_of tag ws))" using snoc by blast
  then show ?case
    unfolding r using snoc want_sorted want_amount [of "request_of tag ws" b a v]
    by (cases "a = b") (simp_all add: w)
qed

section \<open>Properties\<close>

text \<open>A request never wraps: after any chain of \<open>want\<close> calls the amount asked on an axis is the
  exact sum of the calls for that axis, cut at the largest 64-bit value, so an overflowing request
  is enormous rather than small; and the names under which axes are stored are pairwise distinct.\<close>

theorem request_saturates:
  "unat (bt_get_or 0 b (req_amounts (request_of tag ws))) =
     min (\<Sum>(a, v)\<leftarrow>ws. if a = b then unat v else 0) (2 ^ 64 - 1) \<and>
   (axis_display a = axis_display b) = (a = b)"
  using request_of_amount axis_display_inj by blast

end
