(* ===== verification/HostIdentity.thy ===== *)
theory HostIdentity
  imports RustString
begin

text \<open>
  Holder identities and the process probe of \<^verbatim>\<open>crates/omega-hostgate/src/identity.rs\<close>.  What
  the operating system answers is an argument: on Linux the state of \<^verbatim>\<open>/proc/<pid>\<close>, on macOS the
  two output streams of \<^verbatim>\<open>ps\<close>, \<open>None\<close> when it does not run.
\<close>

datatype liveness = Alive u64 | Dead | Unknown

definition liveness_holds :: "liveness \<Rightarrow> bool" where
  "liveness_holds l = (l \<noteq> Dead)"

record holder_id =
  hid_pid :: u32
  hid_start :: u64

definition matches :: "holder_id \<Rightarrow> liveness \<Rightarrow> bool" where
  "matches h live = (case live of Alive start \<Rightarrow> start = hid_start h | Unknown \<Rightarrow> True | Dead \<Rightarrow> False)"

definition parse_stat :: "string \<Rightarrow> liveness" where
  "parse_stat stat =
     (case rsplit_once (CHR '')'') stat of
        None \<Rightarrow> Unknown
      | Some (_, rest) \<Rightarrow>
          (case split_whitespace rest of
             [] \<Rightarrow> Unknown
           | f # it \<Rightarrow>
               if f = ''Z'' then Dead
               else if 18 < length it
                    then (case parse_u64 (it ! 18) of Some start \<Rightarrow> Alive start | None \<Rightarrow> Unknown)
                    else Unknown))"

datatype proc_entry = No_dir | Stat_text string | Stat_not_found | Stat_error

definition probe_linux :: "(u32 \<Rightarrow> proc_entry) \<Rightarrow> u32 list \<Rightarrow> u32 \<Rightarrow> liveness option" where
  "probe_linux proc pids p =
     (if p \<in> set pids
      then Some (case proc p of No_dir \<Rightarrow> Dead | Stat_text s \<Rightarrow> parse_stat s
                 | Stat_not_found \<Rightarrow> Dead | Stat_error \<Rightarrow> Unknown)
      else None)"

definition hash_start :: "string \<Rightarrow> u64" where
  "hash_start s =
     (let h = fold (\<lambda>b h. (h XOR of_nat (of_char b)) * 0x00000100000001b3) s 0xcbf29ce484222325
      in if h = 0 then 1 else h)"

definition join_words :: "string list \<Rightarrow> string" where
  "join_words ws = (case ws of [] \<Rightarrow> [] | w # ws' \<Rightarrow> w @ concat (map (\<lambda>v. CHR '' '' # v) ws'))"

definition ps_line :: "string \<Rightarrow> (u32 \<times> liveness) option" where
  "ps_line line =
     (case split_whitespace (trim line) of
        p # state # rest \<Rightarrow>
          (case parse_u32 p of
             None \<Rightarrow> None
           | Some pid \<Rightarrow>
               Some (pid, if take 1 state = ''Z'' then Dead
                          else if join_words rest = [] then Unknown
                          else Alive (hash_start (join_words rest))))
      | _ \<Rightarrow> None)"

text \<open>The listing is read line by line into a hash map, a later line for a pid replacing an earlier
  one; pids asked for and not mentioned are then entered as dead.\<close>

definition ps_batch :: "(u32 list \<Rightarrow> (string \<times> string) option) \<Rightarrow> u32 list \<Rightarrow> (u32 \<rightharpoonup> liveness) \<times> bool" where
  "ps_batch ps pids =
     (case ps pids of
        None \<Rightarrow> ((\<lambda>p. if p \<in> set pids then Some Unknown else None), True)
      | Some (out, err) \<Rightarrow>
          if err \<noteq> [] then (Map.empty, False)
          else let seen = fold (\<lambda>line m. case ps_line line of None \<Rightarrow> m | Some (p, l) \<Rightarrow> m(p \<mapsto> l))
                            (text_lines out) Map.empty
               in (fold (\<lambda>p m. if m p = None then m(p \<mapsto> Dead) else m) pids seen, True))"

definition probe_macos :: "(u32 list \<Rightarrow> (string \<times> string) option) \<Rightarrow> u32 list \<Rightarrow> u32 \<Rightarrow> liveness option" where
  "probe_macos ps pids =
     (let (out, ok) = ps_batch ps pids
      in if ok then out
         else (\<lambda>p. if p \<in> set pids
                   then (let (one, ok1) = ps_batch ps [p];
                             v = (case one p of Some l \<Rightarrow> l | None \<Rightarrow> Unknown)
                         in Some (if ok1 then v else Dead))
                   else None))"

text \<open>\<open>self_start\<close> for the process \<open>me\<close>.\<close>

definition self_start :: "(u32 list \<Rightarrow> u32 \<Rightarrow> liveness option) \<Rightarrow> u32 \<Rightarrow> u64 option" where
  "self_start probe me = (case probe [me] me of Some (Alive start) \<Rightarrow> Some start | _ \<Rightarrow> None)"

section \<open>Parsing the stat line\<close>

lemma rsplit_once_last:
  assumes "c \<notin> set t"
  shows "rsplit_once c (s @ c # t) = Some (s, t)"
proof -
  have "takeWhile (\<lambda>d. d \<noteq> c) (rev t @ c # rev s) = rev t"
    using assms by (subst takeWhile_append2) auto
  moreover have "dropWhile (\<lambda>d. d \<noteq> c) (rev t @ c # rev s) = c # rev s"
    using assms by (subst dropWhile_append2) auto
  ultimately show ?thesis by (simp add: rsplit_once_def)
qed

lemma split_ws_loop_word:
  assumes "\<forall>c \<in> set w. \<not> is_ws c"
  shows "split_ws_loop cur (w @ s) = split_ws_loop (rev w @ cur) s"
  using assms by (induction w arbitrary: cur) auto

lemma space_ws: "is_ws CHR '' ''" by (simp add: is_ws_def)

lemma split_words:
  assumes "\<forall>f \<in> set fs. f \<noteq> [] \<and> (\<forall>c \<in> set f. \<not> is_ws c)"
  shows "split_whitespace (concat (map (\<lambda>f. CHR '' '' # f) fs)) = fs"
proof -
  have "split_ws_loop cur (concat (map (\<lambda>f. CHR '' '' # f) fs)) = (if cur = [] then fs else rev cur # fs)" for cur
    using assms
  proof (induction fs arbitrary: cur)
    case (Cons f fs)
    then show ?case using split_ws_loop_word [of f "[]"] by (simp add: space_ws)
  qed simp
  then show ?thesis by (simp add: split_whitespace_def)
qed

lemma parse_stat_fields:
  assumes "\<forall>f \<in> set fs. f \<noteq> [] \<and> (\<forall>c \<in> set f. \<not> is_ws c \<and> c \<noteq> CHR '')'')"
    and "20 \<le> length fs"
  shows "parse_stat (before @ '')'' @ concat (map (\<lambda>f. CHR '' '' # f) fs)) =
    (if fs ! 0 = ''Z'' then Dead
     else case parse_u64 (fs ! 19) of Some start \<Rightarrow> Alive start | None \<Rightarrow> Unknown)"
proof -
  have "CHR '')'' \<notin> set (concat (map (\<lambda>f. CHR '' '' # f) fs))" using assms(1) by auto
  then have r: "rsplit_once (CHR '')'') (before @ '')'' @ concat (map (\<lambda>f. CHR '' '' # f) fs)) =
      Some (before, concat (map (\<lambda>f. CHR '' '' # f) fs))"
    using rsplit_once_last by simp
  have s: "split_whitespace (concat (map (\<lambda>f. CHR '' '' # f) fs)) = fs"
    using assms(1) by (intro split_words) auto
  obtain f it where fs: "fs = f # it" using assms(2) by (cases fs) auto
  show ?thesis unfolding parse_stat_def r using assms(2) by (simp add: s) (simp add: fs)
qed

lemma ps_batch_fold:
  "fold (\<lambda>p m. if m p = None then m(p \<mapsto> Dead) else m) pids m q =
     (if m q = None \<and> q \<in> set pids then Some Dead else m q)"
  by (induction pids arbitrary: m) auto

section \<open>Properties\<close>

text \<open>The start time is read from field 22 whatever the process calls itself: with any text,
  parentheses and spaces included, before the last closing parenthesis, and at least twenty
  fields after it, \<open>parse_stat\<close> answers dead exactly for state Z and otherwise the value of the
  twentieth of those fields.\<close>

theorem parse_stat_any_name:
  assumes "\<forall>f \<in> set fs. f \<noteq> [] \<and> (\<forall>c \<in> set f. \<not> is_ws c \<and> c \<noteq> CHR '')'')"
    and "20 \<le> length fs" "fs ! 19 = show_nat (unat start)"
  shows "parse_stat (pid @ '' ('' @ name @ '')'' @ concat (map (\<lambda>f. CHR '' '' # f) fs)) =
    (if fs ! 0 = ''Z'' then Dead else Alive start)"
proof -
  have "parse_u64 (fs ! 19) = Some start"
    using unat_bound [of start] by (simp add: assms(3) parse_u64_def parse_unsigned_show)
  then show ?thesis using parse_stat_fields [OF assms(1,2), of "pid @ '' ('' @ name"] by simp
qed

theorem parse_stat_any_name_witness:
  "parse_stat (''7'' @ '' ('' @ '') Z ('' @ '')'' @
     concat (map (\<lambda>f. CHR '' '' # f) (''S'' # replicate 18 ''0'' @ [''52'']))) = Alive 52"
proof -
  have "(''S'' # replicate 18 ''0'' @ [''52'']) ! 19 = show_nat (unat (52 :: u64))" by code_simp
  moreover have "\<forall>f \<in> set (''S'' # replicate 18 ''0'' @ [''52'']). f \<noteq> [] \<and> (\<forall>c \<in> set f. \<not> is_ws c \<and> c \<noteq> CHR '')'')"
    by (auto simp: is_ws_def)
  ultimately show ?thesis
    using parse_stat_any_name [of "''S'' # replicate 18 ''0'' @ [''52'']" 52 "''7''" "'') Z (''"]
    by simp
qed

text \<open>A holder is pruned only on evidence: on Linux a probed pid fails to match its record only
  when its directory or stat file is gone, its state is zombie, or its stat gives another start
  time; and when the macOS listing was refused, a pid is called dead only if its own query was
  refused too or listed it as absent or a zombie.\<close>

theorem prune_needs_evidence:
  "(p \<in> set pids \<and> \<not> matches h (the (probe_linux proc pids p))) =
     (p \<in> set pids \<and> (proc p = No_dir \<or> proc p = Stat_not_found \<or>
        (\<exists>s. proc p = Stat_text s \<and> (parse_stat s = Dead \<or> (\<exists>t. parse_stat s = Alive t \<and> t \<noteq> hid_start h))))) \<and>
   (\<not> snd (ps_batch ps pids) \<and> probe_macos ps pids p = Some Dead) =
     (\<not> snd (ps_batch ps pids) \<and> p \<in> set pids \<and>
        (\<not> snd (ps_batch ps [p]) \<or> fst (ps_batch ps [p]) p = Some Dead))"
proof
  show "(p \<in> set pids \<and> \<not> matches h (the (probe_linux proc pids p))) =
     (p \<in> set pids \<and> (proc p = No_dir \<or> proc p = Stat_not_found \<or>
        (\<exists>s. proc p = Stat_text s \<and> (parse_stat s = Dead \<or> (\<exists>t. parse_stat s = Alive t \<and> t \<noteq> hid_start h)))))"
    by (auto simp: probe_linux_def matches_def split: proc_entry.splits liveness.splits)
  show "(\<not> snd (ps_batch ps pids) \<and> probe_macos ps pids p = Some Dead) =
     (\<not> snd (ps_batch ps pids) \<and> p \<in> set pids \<and>
        (\<not> snd (ps_batch ps [p]) \<or> fst (ps_batch ps [p]) p = Some Dead))"
    by (auto simp: probe_macos_def Let_def split_beta split: option.splits if_splits)
qed

theorem prune_needs_evidence_witness:
  "\<not> matches \<lparr>hid_pid = 7, hid_start = 5\<rparr> (the (probe_linux (\<lambda>_. Stat_not_found) [7] 7)) \<and>
   probe_macos (\<lambda>l. Some ([], if length l = 1 then [] else ''x'')) [7, 8] 7 = Some Dead"
proof -
  let ?ps = "\<lambda>l :: u32 list. Some ([] :: string, if length l = 1 then [] else ''x'')"
  have "\<not> snd (ps_batch ?ps [7, 8])" "fst (ps_batch ?ps [7]) 7 = Some Dead"
    by (simp_all add: ps_batch_def text_lines_def)
  then show ?thesis
    using prune_needs_evidence [of 7 "[7]" "\<lparr>hid_pid = 7, hid_start = 5\<rparr>" "\<lambda>_. Stat_not_found" ?ps]
      prune_needs_evidence [of 7 "[7, 8]" "\<lparr>hid_pid = 7, hid_start = 5\<rparr>" "\<lambda>_. Stat_not_found" ?ps]
    by simp
qed

end
