(* ===== verification/HostLedger.thy ===== *)
theory HostLedger
  imports HostAxis HostIdentity
begin

text \<open>
  The shared ledger file of \<^verbatim>\<open>crates/omega-hostgate/src/ledger.rs\<close>.  The contents of a file have
  an arbitrary type; the JSON reader and writer of \<^verbatim>\<open>serde_json\<close> are a parameter, the codec, and
  so is what the operating system answers to each call, \<open>None\<close> when it succeeds and the error text
  otherwise.  A transaction returns the states the directory goes through, one after each system
  call that changes it, so that a crash leaves one of them.
\<close>

text \<open>The values of \<^verbatim>\<open>serde_json\<close>, of which the program asks only for a boolean.\<close>

datatype json = Json_null | Json_bool bool | Json_number int | Json_string string
  | Json_array "json list" | Json_object "(string \<times> json) list"

fun as_bool :: "json \<Rightarrow> bool option" where
  "as_bool (Json_bool b) = Some b"
| "as_bool _ = None"

definition SCHEMA :: string where "SCHEMA = ''omega-hostgate-1''"

record holder_record =
  rec_pid :: u32
  rec_start :: u64
  rec_tag :: string
  rec_amounts :: "(string, u64) btree"
  rec_extra :: "(string, json) btree"

definition rec_holder :: "holder_record \<Rightarrow> holder_id" where
  "rec_holder r = \<lparr>hid_pid = rec_pid r, hid_start = rec_start r\<rparr>"

definition rec_amount :: "holder_record \<Rightarrow> axis \<Rightarrow> u64" where
  "rec_amount r a = bt_get_or 0 (axis_display a) (rec_amounts r)"

record ledger =
  led_schema :: string
  led_instance :: string
  led_caps :: "(string, u64) btree"
  led_holders :: "holder_record list"
  led_extra :: "(string, json) btree"

definition caps_of :: "amounts \<Rightarrow> (string, u64) btree" where
  "caps_of caps = bt_collect (map (\<lambda>(a, v). (axis_display a, v)) caps)"

definition ledger_new :: "string \<Rightarrow> amounts \<Rightarrow> ledger" where
  "ledger_new inst caps = \<lparr>led_schema = SCHEMA, led_instance = inst, led_caps = caps_of caps,
     led_holders = [], led_extra = []\<rparr>"

definition led_cap :: "ledger \<Rightarrow> axis \<Rightarrow> u64" where
  "led_cap l a = bt_get_or 0 (axis_display a) (led_caps l)"

text \<open>The sum wraps, as it does without overflow checks.\<close>

definition charged :: "ledger \<Rightarrow> axis \<Rightarrow> u64" where
  "charged l a = sum_list (map (\<lambda>r. rec_amount r a) (led_holders l))"

datatype ledger_error = Io string | Corrupt string | Schema string string

fun ledger_error_display :: "ledger_error \<Rightarrow> string" where
  "ledger_error_display (Io e) = e"
| "ledger_error_display (Corrupt why) = ''the ledger is unreadable ('' @ why @
     '') -- refusing rather than treating an unreadable budget as an empty one''"
| "ledger_error_display (Schema found expected) = ''ledger schema is '' @ found @
     '', this build speaks '' @ expected @
     '' -- leaving the file alone rather than rewriting a format it may not understand''"

section \<open>The store\<close>

record 'c codec =
  blank :: "'c \<Rightarrow> bool"
  from_json :: "'c \<Rightarrow> ledger option"
  to_json :: "ledger \<Rightarrow> 'c option"
  no_bytes :: 'c

record io =
  io_open_lock :: "string option"
  io_lock :: "string option"
  io_open :: "string option"
  io_read :: "string option"
  io_create :: "string option"
  io_write :: "string option"
  io_sync :: "string option"
  io_rename :: "string option"

record 'c disk =
  target :: "'c option"
  temp :: "'c option"

definition store_read :: "io \<Rightarrow> 'c codec \<Rightarrow> 'c disk \<Rightarrow> ledger_error + ledger option" where
  "store_read env cd d =
     (case target d of
        None \<Rightarrow> Inr None
      | Some buf \<Rightarrow>
          (case io_open env of Some e \<Rightarrow> Inl (Io e) | None \<Rightarrow>
           case io_read env of Some e \<Rightarrow> Inl (Io e) | None \<Rightarrow>
           if blank cd buf then Inl (Corrupt ''the file is empty'')
           else case from_json cd buf of
                  None \<Rightarrow> Inl (Corrupt ''not valid ledger JSON'')
                | Some l \<Rightarrow> if led_schema l \<noteq> SCHEMA then Inl (Schema (led_schema l) SCHEMA)
                            else Inr (Some l)))"

text \<open>The result and the states of the directory: temporary file created, written, renamed.\<close>

definition store_write :: "io \<Rightarrow> 'c codec \<Rightarrow> ledger \<Rightarrow> 'c disk \<Rightarrow> ledger_error option \<times> 'c disk list" where
  "store_write env cd l d =
     (case to_json cd l of
        None \<Rightarrow> (Some (Corrupt ''cannot serialise''), [])
      | Some body \<Rightarrow>
          (case io_create env of Some e \<Rightarrow> (Some (Io e), []) | None \<Rightarrow>
           let d1 = d\<lparr>temp := Some (no_bytes cd)\<rparr> in
           case io_write env of Some e \<Rightarrow> (Some (Io e), [d1]) | None \<Rightarrow>
           let d2 = d1\<lparr>temp := Some body\<rparr> in
           case io_sync env of Some e \<Rightarrow> (Some (Io e), [d1, d2]) | None \<Rightarrow>
           case io_rename env of Some e \<Rightarrow> (Some (Io e), [d1, d2]) | None \<Rightarrow>
           (None, [d1, d2, d2\<lparr>target := Some body, temp := None\<rparr>])))"

definition with_lock :: "io \<Rightarrow> 'c codec \<Rightarrow> string \<Rightarrow> amounts \<Rightarrow> (ledger \<Rightarrow> ledger \<times> 'a \<times> bool) \<Rightarrow> 'c disk \<Rightarrow>
    (ledger_error + 'a) \<times> 'c disk list" where
  "with_lock env cd inst caps f d =
     (case io_open_lock env of Some e \<Rightarrow> (Inl (Io e), []) | None \<Rightarrow>
      case io_lock env of Some e \<Rightarrow> (Inl (Io e), []) | None \<Rightarrow>
      case store_read env cd d of
        Inl e \<Rightarrow> (Inl e, [])
      | Inr found \<Rightarrow>
          let (l, stale) = (case found of
                Some l \<Rightarrow> if led_instance l \<noteq> inst then (ledger_new inst caps, True) else (l, False)
              | None \<Rightarrow> (ledger_new inst caps, False));
              (l', v, dirty) = f l
          in if dirty \<or> stale
             then (case store_write env cd l' d of
                     (Some e, ds) \<Rightarrow> (Inl e, ds) | (None, ds) \<Rightarrow> (Inr v, ds))
             else (Inr v, []))"

text \<open>The ledger a transaction starts from.\<close>

definition current :: "'c codec \<Rightarrow> string \<Rightarrow> amounts \<Rightarrow> 'c disk \<Rightarrow> ledger option" where
  "current cd inst caps d =
     (case target d of
        None \<Rightarrow> Some (ledger_new inst caps)
      | Some buf \<Rightarrow> if blank cd buf then None else (case from_json cd buf of
          None \<Rightarrow> None
        | Some l \<Rightarrow> if led_schema l \<noteq> SCHEMA then None
                    else if led_instance l \<noteq> inst then Some (ledger_new inst caps) else Some l))"

definition codec_ok :: "'c codec \<Rightarrow> bool" where
  "codec_ok cd \<longleftrightarrow> (\<forall>l b. to_json cd l = Some b \<longrightarrow> \<not> blank cd b \<and> from_json cd b = Some l)"

lemma store_write_states:
  assumes "store_write env cd l d = (r, ds)" "d' \<in> set ds"
  shows "target d' = target d \<or> (target d' = to_json cd l \<and> to_json cd l \<noteq> None)"
  using assms by (auto simp: store_write_def Let_def split: option.splits)

lemma store_write_last:
  assumes "store_write env cd l d = (r, ds)"
  shows "target (last (d # ds)) = (if r = None then to_json cd l else target d)"
    "r = None \<Longrightarrow> to_json cd l \<noteq> None"
  using assms by (auto simp: store_write_def Let_def split: option.splits)

lemma with_lock_current:
  assumes "with_lock env cd inst caps f d = (Inr v, ds)"
  shows "\<exists>l l' dirty. current cd inst caps d = Some l \<and> f l = (l', v, dirty) \<and>
    (target (last (d # ds)) = to_json cd l' \<and> to_json cd l' \<noteq> None \<or> \<not> dirty \<and> ds = [])"
proof -
  from assms have "\<exists>found. store_read env cd d = Inr found"
    by (auto simp: with_lock_def split: option.splits sum.splits)
  then obtain found where found: "store_read env cd d = Inr found" by blast
  define l where "l = (case found of
      Some l \<Rightarrow> if led_instance l \<noteq> inst then ledger_new inst caps else l | None \<Rightarrow> ledger_new inst caps)"
  have cur: "current cd inst caps d = Some l"
    using found by (auto simp: l_def current_def store_read_def split: option.splits if_splits)
  obtain l' v' dirty where f: "f l = (l', v', dirty)" by (cases "f l") auto
  show ?thesis
    using assms found f cur store_write_last [of env cd l' d]
    by (auto simp: with_lock_def l_def Let_def split: option.splits if_splits prod.splits)
qed

lemma with_lock_states:
  assumes "with_lock env cd inst caps f d = (r, ds)" "d' \<in> set ds"
  shows "target d' = target d \<or> (\<exists>l. current cd inst caps d = Some l \<and>
    target d' = to_json cd (fst (f l)) \<and> to_json cd (fst (f l)) \<noteq> None)"
proof -
  obtain found where found: "store_read env cd d = Inr found"
    using assms by (cases "store_read env cd d") (auto simp: with_lock_def split: option.splits)
  define l where "l = (case found of
      Some l \<Rightarrow> if led_instance l \<noteq> inst then ledger_new inst caps else l | None \<Rightarrow> ledger_new inst caps)"
  have cur: "current cd inst caps d = Some l"
    using found by (auto simp: l_def current_def store_read_def split: option.splits if_splits)
  obtain l' v' dirty where f: "f l = (l', v', dirty)" by (cases "f l") auto
  have "d' \<in> set (snd (store_write env cd l' d))"
    using assms found f
    by (auto simp: with_lock_def l_def Let_def split: option.splits if_splits prod.splits)
  then have "target d' = target d \<or> (target d' = to_json cd l' \<and> to_json cd l' \<noteq> None)"
    by (rule store_write_states [OF prod.collapse [symmetric]])
  then show ?thesis using cur f by auto
qed

lemma with_lock_error:
  assumes "with_lock env cd inst caps f d = (Inl e, ds)"
  shows "target (last (d # ds)) = target d"
proof -
  have "ds = [] \<or> (\<exists>l'. store_write env cd l' d = (Some e, ds))"
    using assms by (auto simp: with_lock_def Let_def split: option.splits sum.splits if_splits prod.splits)
  then show ?thesis using store_write_last(1) [of env cd _ d "Some e" ds] by auto
qed

section \<open>Properties\<close>

lemma with_lock_clean:
  assumes "with_lock env cd inst caps f d = (r, ds)"
    and "\<not> (\<exists>c l. target d = Some c \<and> from_json cd c = Some l \<and> led_instance l \<noteq> inst)"
    and "\<And>l. current cd inst caps d = Some l \<Longrightarrow> \<not> snd (snd (f l))"
  shows "ds = []"
proof (rule ccontr)
  assume "ds \<noteq> []"
  then obtain found where found: "store_read env cd d = Inr found"
    using assms(1) by (cases "store_read env cd d") (auto simp: with_lock_def split: option.splits)
  define l where "l = (case found of
      Some l \<Rightarrow> if led_instance l \<noteq> inst then ledger_new inst caps else l | None \<Rightarrow> ledger_new inst caps)"
  have cur: "current cd inst caps d = Some l"
    using found by (auto simp: l_def current_def store_read_def split: option.splits if_splits)
  obtain l' v' dirty where f: "f l = (l', v', dirty)" by (cases "f l") auto
  then have "\<not> dirty" using assms(3) [OF cur] by simp
  moreover have "\<not> (\<exists>l. found = Some l \<and> led_instance l \<noteq> inst)"
    using found assms(2) by (auto simp: store_read_def split: option.splits if_splits)
  ultimately show False
    using assms(1) found f \<open>ds \<noteq> []\<close>
    by (auto simp: with_lock_def l_def Let_def split: option.splits if_splits prod.splits)
qed

text \<open>C28: Every transaction is atomic for the ledger: in each directory state it passes through, a
  crash included, the file holds either its old contents or the complete serialisation of the
  transaction's ledger; a transaction that reports an error leaves the old contents; one that succeeds
  returns what the function computed from the ledger it found and, if that changed the ledger, ends with
  it written; and one that neither changed the ledger nor found it from another boot writes nothing.\<close>

theorem ledger_update_atomic:
  assumes "with_lock env cd inst caps f d = (r, ds)"
  shows "(\<forall>d' \<in> set ds. target d' = target d \<or>
      (\<exists>l b. current cd inst caps d = Some l \<and> to_json cd (fst (f l)) = Some b \<and> target d' = Some b)) \<and>
    (\<forall>e. r = Inl e \<longrightarrow> target (last (d # ds)) = target d) \<and>
    (\<forall>v. r = Inr v \<longrightarrow> (\<exists>l. current cd inst caps d = Some l \<and> fst (snd (f l)) = v \<and>
      (snd (snd (f l)) \<longrightarrow> (\<exists>b. to_json cd (fst (f l)) = Some b \<and> target (last (d # ds)) = Some b)))) \<and>
    ((\<forall>l. current cd inst caps d = Some l \<longrightarrow> \<not> snd (snd (f l))) \<and>
      \<not> (\<exists>c l. target d = Some c \<and> from_json cd c = Some l \<and> led_instance l \<noteq> inst) \<longrightarrow> ds = [])"
proof (intro conjI allI ballI impI)
  fix v assume "r = Inr v"
  with with_lock_current [of env cd inst caps f d v ds] assms
  show "\<exists>l. current cd inst caps d = Some l \<and> fst (snd (f l)) = v \<and>
      (snd (snd (f l)) \<longrightarrow> (\<exists>b. to_json cd (fst (f l)) = Some b \<and> target (last (d # ds)) = Some b))" by force
next
  assume "(\<forall>l. current cd inst caps d = Some l \<longrightarrow> \<not> snd (snd (f l))) \<and>
      \<not> (\<exists>c l. target d = Some c \<and> from_json cd c = Some l \<and> led_instance l \<noteq> inst)"
  then show "ds = []" using with_lock_clean [OF assms] by blast
qed (use with_lock_states [OF assms] with_lock_error assms in fastforce)+

definition quiet :: io where
  "quiet = \<lparr>io_open_lock = None, io_lock = None, io_open = None, io_read = None,
     io_create = None, io_write = None, io_sync = None, io_rename = None\<rparr>"

definition plain_codec :: "ledger option codec" where
  "plain_codec = \<lparr>blank = Option.is_none, from_json = (\<lambda>c. c), to_json = (\<lambda>l. Some (Some l)), no_bytes = None\<rparr>"

theorem ledger_update_atomic_witness:
  "target (last (snd (with_lock quiet plain_codec ''boot'' [] (\<lambda>l. (l, (), True)) \<lparr>target = None, temp = None\<rparr>)))
     \<in> {None, Some (Some (ledger_new ''boot'' []))}"
proof -
  let ?run = "with_lock quiet plain_codec ''boot'' [] (\<lambda>l. (l, (), True)) \<lparr>target = None, temp = None\<rparr>"
  have "snd ?run \<noteq> []"
    by (simp add: with_lock_def store_read_def store_write_def quiet_def plain_codec_def Let_def)
  then have "last (snd ?run) \<in> set (snd ?run)" by simp
  moreover have "current plain_codec ''boot'' [] \<lparr>target = None, temp = None\<rparr> = Some (ledger_new ''boot'' [])"
    "to_json plain_codec l = Some (Some l)" for l
    by (simp_all add: current_def plain_codec_def)
  ultimately show ?thesis using ledger_update_atomic [OF prod.collapse [symmetric, of ?run]] by auto
qed

text \<open>An unreadable ledger is never an empty one: when the file exists and is blank, or does not
  parse, or has another schema, every transaction fails with an error and changes nothing.\<close>

theorem unreadable_ledger_fails:
  assumes "target d = Some c"
    and "blank cd c \<or> from_json cd c = None \<or> (\<exists>l. from_json cd c = Some l \<and> led_schema l \<noteq> SCHEMA)"
  shows "\<exists>e. with_lock env cd inst caps f d = (Inl e, [])"
  using assms by (auto simp: with_lock_def store_read_def split: option.splits)

theorem unreadable_ledger_fails_witness:
  "\<exists>e. with_lock quiet plain_codec ''boot'' [] (\<lambda>l. (l, (), True)) \<lparr>target = Some None, temp = None\<rparr> = (Inl e, [])"
  by (rule unreadable_ledger_fails [where c = None]) (simp_all add: plain_codec_def)

end
