(* ===== verification/HostGate.thy ===== *)
theory HostGate
  imports HostLedger
begin

text \<open>
  The gate of \<^verbatim>\<open>crates/omega-hostgate/src/gate.rs\<close> and its use as an admission check in
  \<^verbatim>\<open>admission.rs\<close>.  Every operation is one transaction on the ledger file; the process probe, the
  answers of the operating system and the codec of the file are arguments.
\<close>

type_synonym prober = "u32 list \<Rightarrow> u32 \<Rightarrow> liveness option"

record axis_report =
  rep_axis :: axis
  rep_cap :: u64
  rep_configured :: u64
  rep_charged :: u64
  rep_holders :: nat

text \<open>A gate; \<open>gate_stored\<close> is whether it has a store.\<close>

record gate =
  gate_stored :: bool
  gate_instance :: string
  gate_caps :: amounts
  gate_mode :: gate_mode

definition gate_off :: gate where
  "gate_off = \<lparr>gate_stored = False, gate_instance = [], gate_caps = [], gate_mode = Off\<rparr>"

definition gate_new :: "string \<Rightarrow> amounts \<Rightarrow> gate_mode \<Rightarrow> gate" where
  "gate_new inst caps m =
     (if m = Off then gate_off
      else \<lparr>gate_stored = True, gate_instance = inst, gate_caps = caps, gate_mode = m\<rparr>)"

record grant =
  grant_gate :: "gate option"
  grant_holder :: holder_id
  grant_amounts :: amounts
  grant_tag :: string

definition inert :: grant where
  "inert = \<lparr>grant_gate = None, grant_holder = \<lparr>hid_pid = 0, hid_start = 0\<rparr>, grant_amounts = [], grant_tag = []\<rparr>"

section \<open>Operations on the ledger\<close>

definition reconcile_caps :: "ledger \<Rightarrow> amounts \<Rightarrow> ledger \<times> bool" where
  "reconcile_caps l configured =
     (if list_all (\<lambda>(a, v). led_cap l a = v) configured \<and> length (led_caps l) = length configured
      then (l, False)
      else if led_holders l \<noteq> [] then (l, False)
      else (l\<lparr>led_caps := caps_of configured\<rparr>, True))"

definition prune :: "prober \<Rightarrow> ledger \<Rightarrow> ledger" where
  "prune probe l =
     (let pids = map rec_pid (led_holders l)
      in if pids = [] then l
         else let seen = probe pids
              in l\<lparr>led_holders := filter (\<lambda>r. matches (rec_holder r)
                     (case seen (rec_pid r) of Some live \<Rightarrow> live | None \<Rightarrow> Unknown)) (led_holders l)\<rparr>)"

definition is_advisory :: "holder_record \<Rightarrow> bool" where
  "is_advisory r =
     (case bt_get ''advisory'' (rec_extra r) of
        None \<Rightarrow> False | Some v \<Rightarrow> (case as_bool v of None \<Rightarrow> False | Some b \<Rightarrow> b))"

definition charged_enforcing :: "ledger \<Rightarrow> axis \<Rightarrow> u64" where
  "charged_enforcing l a =
     sum_list (map (\<lambda>r. rec_amount r a) (filter (\<lambda>r. \<not> is_advisory r) (led_holders l)))"

fun price_caps :: "ledger \<Rightarrow> amounts \<Rightarrow> refusal option" where
  "price_caps l [] = None"
| "price_caps l ((a, v) # am) =
     (let cap = led_cap l a in if cap < v then Some (TooLarge a v cap) else price_caps l am)"

fun price_free :: "ledger \<Rightarrow> amounts \<Rightarrow> refusal option" where
  "price_free l [] = None"
| "price_free l ((a, v) # am) =
     (let free = sat_sub (led_cap l a) (charged_enforcing l a)
      in if free < v then Some (Busy a v free) else price_free l am)"

definition price :: "ledger \<Rightarrow> request \<Rightarrow> refusal option" where
  "price l req =
     (case price_caps l (req_amounts req) of Some r \<Rightarrow> Some r | None \<Rightarrow> price_free l (req_amounts req))"

definition position :: "holder_id \<Rightarrow> ledger \<Rightarrow> nat option" where
  "position h l =
     find (\<lambda>i. rec_pid (led_holders l ! i) = hid_pid h \<and> rec_start (led_holders l ! i) = hid_start h)
       [0..<length (led_holders l)]"

definition add_amounts :: "amounts \<Rightarrow> (string, u64) btree \<Rightarrow> (string, u64) btree" where
  "add_amounts am m =
     fold (\<lambda>(a, v) m. bt_insert (axis_display a) (sat_add (bt_get_or 0 (axis_display a) m) v) m) am m"

definition charge_holder :: "holder_id \<Rightarrow> amounts \<Rightarrow> string \<Rightarrow> bool \<Rightarrow> ledger \<Rightarrow> ledger" where
  "charge_holder me am tag advisory l =
     (let (idx, hs) = (case position me l of
            Some i \<Rightarrow> (i, led_holders l)
          | None \<Rightarrow> (length (led_holders l), led_holders l @
              [\<lparr>rec_pid = hid_pid me, rec_start = hid_start me, rec_tag = tag, rec_amounts = [],
                rec_extra = (if advisory then bt_insert ''advisory'' (Json_bool True) [] else [])\<rparr>]))
      in l\<lparr>led_holders := hs[idx := (hs ! idx)\<lparr>rec_amounts := add_amounts am (rec_amounts (hs ! idx))\<rparr>]\<rparr>)"

definition charge :: "holder_id \<Rightarrow> request \<Rightarrow> bool \<Rightarrow> ledger \<Rightarrow> ledger" where
  "charge me req advisory l = charge_holder me (req_amounts req) (req_tag req) advisory l"

definition sub_amounts :: "amounts \<Rightarrow> (string, u64) btree \<Rightarrow> (string, u64) btree" where
  "sub_amounts am m =
     fold (\<lambda>(a, v) m. case bt_get (axis_display a) m of
         Some s \<Rightarrow> bt_insert (axis_display a) (sat_sub s v) m | None \<Rightarrow> m) am m"

definition discharge :: "holder_id \<Rightarrow> amounts \<Rightarrow> ledger \<Rightarrow> ledger" where
  "discharge me mine l =
     (case position me l of
        None \<Rightarrow> l
      | Some i \<Rightarrow>
          let r = led_holders l ! i; r' = r\<lparr>rec_amounts := sub_amounts mine (rec_amounts r)\<rparr>
          in if list_all (\<lambda>(_, v). v = 0) (rec_amounts r')
             then l\<lparr>led_holders := take i (led_holders l) @ drop (Suc i) (led_holders l)\<rparr>
             else l\<lparr>led_holders := (led_holders l)[i := r']\<rparr>)"

section \<open>Operations of the gate\<close>

text \<open>The transaction of \<^verbatim>\<open>try_acquire\<close>.\<close>

definition acquire_tx :: "prober \<Rightarrow> gate \<Rightarrow> holder_id \<Rightarrow> request \<Rightarrow> ledger \<Rightarrow> ledger \<times> (refusal + unit) \<times> bool" where
  "acquire_tx probe g me req l =
     (let l1 = prune probe l;
          l2 = fst (reconcile_caps l1 (gate_caps g));
          advisory = (gate_mode g = Advisory)
      in case (if advisory then None else price l2 req) of
           Some refusal \<Rightarrow> (l2, Inl refusal, True)
         | None \<Rightarrow> (charge me req advisory l2, Inr (), True))"

definition try_acquire :: "io \<Rightarrow> 'c codec \<Rightarrow> prober \<Rightarrow> u32 \<Rightarrow> gate \<Rightarrow> request \<Rightarrow> 'c disk \<Rightarrow>
    (refusal + grant) \<times> 'c disk list" where
  "try_acquire env cd probe pid g req d =
     (if \<not> gate_stored g then (Inr inert, [])
      else let advisory = (gate_mode g = Advisory) in
        case self_start probe pid of
          None \<Rightarrow> (if advisory then Inr inert
                   else Inl (Unavailable ''cannot determine this process's own start time, so a grant could not be reclaimed if we died''), [])
        | Some start \<Rightarrow>
            let me = \<lparr>hid_pid = pid, hid_start = start\<rparr> in
            case with_lock env cd (gate_instance g) (gate_caps g) (acquire_tx probe g me req) d of
              (Inr (Inr _), ds) \<Rightarrow>
                (Inr \<lparr>grant_gate = Some g, grant_holder = me, grant_amounts = req_amounts req, grant_tag = req_tag req\<rparr>, ds)
            | (Inr (Inl refusal), ds) \<Rightarrow> (Inl refusal, ds)
            | (Inl e, ds) \<Rightarrow> (if advisory then Inr inert else Inl (Unavailable (ledger_error_display e)), ds))"

definition capacity_tx :: "prober \<Rightarrow> gate \<Rightarrow> ledger \<Rightarrow> ledger \<times> axis_report list \<times> bool" where
  "capacity_tx probe g l =
     (let l1 = prune probe l;
          (l2, adopted) = reconcile_caps l1 (gate_caps g);
          changed = (length (led_holders l2) \<noteq> length (led_holders l) \<or> adopted)
      in (l2, map (\<lambda>(a, _). \<lparr>rep_axis = a, rep_cap = led_cap l2 a,
                rep_configured = bt_get_or 0 a (gate_caps g),
                rep_charged = charged_enforcing l2 a,
                rep_holders = length (filter (\<lambda>r. 0 < rec_amount r a) (led_holders l2))\<rparr>) (gate_caps g),
          changed))"

definition capacity :: "io \<Rightarrow> 'c codec \<Rightarrow> prober \<Rightarrow> gate \<Rightarrow> 'c disk \<Rightarrow>
    (refusal + axis_report list) \<times> 'c disk list" where
  "capacity env cd probe g d =
     (if \<not> gate_stored g then (Inr [], [])
      else case with_lock env cd (gate_instance g) (gate_caps g) (capacity_tx probe g) d of
             (Inr rs, ds) \<Rightarrow> (Inr rs, ds)
           | (Inl e, ds) \<Rightarrow> (Inl (Unavailable (ledger_error_display e)), ds))"

definition transfer_tx :: "prober \<Rightarrow> holder_id \<Rightarrow> holder_id option \<Rightarrow> amounts \<Rightarrow> string \<Rightarrow> ledger \<Rightarrow> ledger \<times> unit \<times> bool" where
  "transfer_tx probe from to mine tag l =
     (let l1 = discharge from mine l;
          l2 = (case to of Some h \<Rightarrow> charge_holder h mine tag False l1 | None \<Rightarrow> l1)
      in (prune probe l2, (), True))"

definition transfer_target :: "prober \<Rightarrow> u32 \<Rightarrow> holder_id option" where
  "transfer_target probe pid =
     (case probe [pid] pid of
        Some (Alive start) \<Rightarrow> Some \<lparr>hid_pid = pid, hid_start = start\<rparr>
      | Some Unknown \<Rightarrow> Some \<lparr>hid_pid = pid, hid_start = 0\<rparr>
      | _ \<Rightarrow> None)"

definition release_tx :: "prober \<Rightarrow> holder_id \<Rightarrow> amounts \<Rightarrow> ledger \<Rightarrow> ledger \<times> unit \<times> bool" where
  "release_tx probe me mine l = (prune probe (discharge me mine l), (), True)"

text \<open>\<^verbatim>\<open>release\<close> and \<^verbatim>\<open>drop\<close>: the grant is disarmed first.\<close>

definition release_inner :: "io \<Rightarrow> 'c codec \<Rightarrow> prober \<Rightarrow> grant \<Rightarrow> 'c disk \<Rightarrow> (refusal + unit) \<times> grant \<times> 'c disk list" where
  "release_inner env cd probe gr d =
     (case grant_gate gr of
        None \<Rightarrow> (Inr (), gr, [])
      | Some g \<Rightarrow>
          let gr' = gr\<lparr>grant_gate := None\<rparr> in
          if \<not> gate_stored g then (Inr (), gr', [])
          else let gr'' = gr'\<lparr>grant_amounts := []\<rparr> in
            case with_lock env cd (gate_instance g) (gate_caps g)
                   (release_tx probe (grant_holder gr) (grant_amounts gr)) d of
              (Inr _, ds) \<Rightarrow> (Inr (), gr'', ds)
            | (Inl e, ds) \<Rightarrow> (Inl (Unavailable (ledger_error_display e)), gr'', ds))"

text \<open>\<^verbatim>\<open>transfer_to\<close> up to the end of its body; the grant it returns is dropped there.\<close>

definition transfer_body :: "io \<Rightarrow> 'c codec \<Rightarrow> prober \<Rightarrow> grant \<Rightarrow> u32 \<Rightarrow> 'c disk \<Rightarrow> (refusal + unit) \<times> grant \<times> 'c disk list" where
  "transfer_body env cd probe gr pid d =
     (case grant_gate gr of
        None \<Rightarrow> (Inr (), gr, [])
      | Some g \<Rightarrow>
          if \<not> gate_stored g then (Inr (), gr, [])
          else case with_lock env cd (gate_instance g) (gate_caps g)
                 (transfer_tx probe (grant_holder gr) (transfer_target probe pid) (grant_amounts gr) (grant_tag gr)) d of
            (Inr _, ds) \<Rightarrow> (Inr (), gr\<lparr>grant_gate := None, grant_amounts := []\<rparr>, ds)
          | (Inl e, ds) \<Rightarrow> (Inl (Unavailable (ledger_error_display e)), gr, ds))"

definition transfer_to :: "io \<Rightarrow> io \<Rightarrow> 'c codec \<Rightarrow> prober \<Rightarrow> grant \<Rightarrow> u32 \<Rightarrow> 'c disk \<Rightarrow> (refusal + unit) \<times> 'c disk list" where
  "transfer_to env env' cd probe gr pid d =
     (let (r, gr', ds) = transfer_body env cd probe gr pid d;
          (_, _, ds') = release_inner env' cd probe gr' (last (d # ds))
      in (r, ds @ ds'))"

section \<open>Admission\<close>

definition dense_bytes :: "u32 \<Rightarrow> u64" where
  "dense_bytes n = (if 60 \<le> n then - 1 else sat_mul (push_bit (unat n) 1) 16)"

text \<open>The refusal of the admission interface: the reason and whether a retry can help.\<close>

definition core_refusal :: "refusal \<Rightarrow> string \<times> bool" where
  "core_refusal r = (''host budget: '' @ refusal_display r, retryable r)"

definition admit_circuit :: "io \<Rightarrow> 'c codec \<Rightarrow> prober \<Rightarrow> gate \<Rightarrow> u32 \<Rightarrow> 'c disk \<Rightarrow>
    (string \<times> bool) option \<times> 'c disk list" where
  "admit_circuit env cd probe g n d =
     (let need = dense_bytes n in
      case capacity env cd probe g d of
        (Inl r, ds) \<Rightarrow> (Some (core_refusal r), ds)
      | (Inr reports, ds) \<Rightarrow>
          (case find (\<lambda>r. rep_axis r = HostBytes \<and> rep_cap r < need) reports of
             Some r \<Rightarrow> (Some (core_refusal (TooLarge HostBytes need (rep_cap r))), ds)
           | None \<Rightarrow> (None, ds)))"

definition admit_run :: "io \<Rightarrow> 'c codec \<Rightarrow> prober \<Rightarrow> u32 \<Rightarrow> gate \<Rightarrow> u32 \<Rightarrow> 'c disk \<Rightarrow>
    ((string \<times> bool) + grant) \<times> 'c disk list" where
  "admit_run env cd probe pid g n d =
     (let req = want HostBytes (dense_bytes n) (request_new (''omega:'' @ show_nat (unat n) @ ''q''))
      in case try_acquire env cd probe pid g req d of
           (Inl r, ds) \<Rightarrow> (Inl (core_refusal r), ds)
         | (Inr gr, ds) \<Rightarrow> (Inr gr, ds))"

end
