(* ===== verification/HostAccounting.thy ===== *)
theory HostAccounting
  imports HostGate
begin

text \<open>
  What the ledger operations of the gate do to the amounts charged, holder by holder and in
  total, as natural numbers.
\<close>

text \<open>The amount a request names for the ledger entry \<open>n\<close>, and the amounts recorded for it.\<close>

definition named :: "amounts \<Rightarrow> string \<Rightarrow> nat" where
  "named am n = (\<Sum>(a, v)\<leftarrow>am. if axis_display a = n then unat v else 0)"

definition rec_on :: "holder_record \<Rightarrow> string \<Rightarrow> nat" where
  "rec_on r n = unat (bt_get_or 0 n (rec_amounts r))"

definition amt :: "ledger \<Rightarrow> holder_id \<Rightarrow> string \<Rightarrow> nat" where
  "amt l h n = (\<Sum>r\<leftarrow>led_holders l. if rec_holder r = h then rec_on r n else 0)"

definition total :: "ledger \<Rightarrow> string \<Rightarrow> nat" where
  "total l n = (\<Sum>r\<leftarrow>led_holders l. rec_on r n)"

definition led_inv :: "ledger \<Rightarrow> bool" where
  "led_inv l \<longleftrightarrow> distinct (map rec_holder (led_holders l)) \<and>
     (\<forall>r \<in> set (led_holders l). bt_sorted (rec_amounts r) \<and> \<not> is_advisory r) \<and>
     (\<forall>n. total l n \<le> unat (bt_get_or 0 n (led_caps l)))"

section \<open>Amounts of one record\<close>

lemma bt_get_or_insert:
  "bt_sorted m \<Longrightarrow> bt_get_or 0 n (bt_insert k v m) = (if n = k then v else bt_get_or 0 n m)"
  by (simp add: bt_get_or_def bt_insert_get)

lemma add_amounts_get:
  assumes "bt_sorted m"
  shows "bt_sorted (add_amounts am m) \<and>
    unat (bt_get_or 0 n (add_amounts am m)) = min (unat (bt_get_or 0 n m) + named am n) (2 ^ 64 - 1)"
  using assms
proof (induction am arbitrary: m)
  case Nil
  have "unat (bt_get_or 0 n m) \<le> 2 ^ 64 - 1" using unat_bound [of "bt_get_or 0 n m"] by simp
  then show ?case using Nil by (simp add: add_amounts_def named_def)
next
  case (Cons av am)
  obtain a v where av: "av = (a, v)" by (cases av)
  let ?m = "bt_insert (axis_display a) (sat_add (bt_get_or 0 (axis_display a) m) v) m"
  have s: "bt_sorted ?m" using Cons.prems by (rule bt_insert_sorted)
  have step: "add_amounts (av # am) m = add_amounts am ?m" by (simp add: add_amounts_def av)
  have nm: "named (av # am) n = (if axis_display a = n then unat v else 0) + named am n"
    by (simp add: named_def av)
  have "unat (bt_get_or 0 n ?m) = (if n = axis_display a
      then min (unat (bt_get_or 0 n m) + unat v) (2 ^ 64 - 1) else unat (bt_get_or 0 n m))"
    using Cons.prems by (simp add: bt_get_or_insert unat_sat_add)
  then show ?case using Cons.IH [OF s] unfolding step nm by auto
qed

lemma sub_amounts_get:
  assumes "bt_sorted m"
  shows "bt_sorted (sub_amounts am m) \<and>
    unat (bt_get_or 0 n (sub_amounts am m)) = unat (bt_get_or 0 n m) - named am n"
  using assms
proof (induction am arbitrary: m)
  case Nil
  then show ?case by (simp add: sub_amounts_def named_def)
next
  case (Cons av am)
  obtain a v where av: "av = (a, v)" by (cases av)
  let ?m = "case bt_get (axis_display a) m of
      Some s \<Rightarrow> bt_insert (axis_display a) (sat_sub s v) m | None \<Rightarrow> m"
  have s: "bt_sorted ?m" using Cons.prems by (auto simp: bt_insert_sorted split: option.split)
  have step: "sub_amounts (av # am) m = sub_amounts am ?m" by (simp add: sub_amounts_def av)
  have nm: "named (av # am) n = (if axis_display a = n then unat v else 0) + named am n"
    by (simp add: named_def av)
  have "unat (bt_get_or 0 n ?m) = (if n = axis_display a
      then unat (bt_get_or 0 n m) - unat v else unat (bt_get_or 0 n m))"
    using Cons.prems
    by (auto simp: bt_get_or_insert unat_sat_sub split: option.split) (simp_all add: bt_get_or_def)
  then show ?case using Cons.IH [OF s] unfolding step nm by auto
qed

lemma add_amounts_rec:
  assumes "bt_sorted (rec_amounts r)"
  shows "rec_on (r\<lparr>rec_amounts := add_amounts am (rec_amounts r)\<rparr>) n = min (rec_on r n + named am n) (2 ^ 64 - 1)"
  using add_amounts_get [OF assms, of am n] by (simp add: rec_on_def)

lemma sub_amounts_rec:
  assumes "bt_sorted (rec_amounts r)"
  shows "rec_on (r\<lparr>rec_amounts := sub_amounts am (rec_amounts r)\<rparr>) n = rec_on r n - named am n"
  using sub_amounts_get [OF assms, of am n] by (simp add: rec_on_def)

lemma all_zero_rec:
  assumes "bt_sorted (rec_amounts r)" "list_all (\<lambda>(_, v). v = 0) (rec_amounts r)"
  shows "rec_on r n = 0"
  using assms by (auto simp: rec_on_def bt_get_or_def bt_get_in list_all_iff split: option.split)

section \<open>Sums over the holders\<close>

lemma sum_list_set:
  "i < length xs \<Longrightarrow> (\<Sum>x\<leftarrow>xs[i := y]. f x) + f (xs ! i) = (\<Sum>x\<leftarrow>xs. f x) + (f y :: nat)"
  by (induction xs arbitrary: i) (auto split: nat.split)

lemma sum_list_del:
  assumes "i < length xs"
  shows "(\<Sum>x\<leftarrow>take i xs @ drop (Suc i) xs. f x) + f (xs ! i) = (\<Sum>x\<leftarrow>xs. f x :: nat)"
  by (subst (4) id_take_nth_drop [OF assms]) simp

lemma sum_list_filter_le: "(\<Sum>x\<leftarrow>filter P xs. f x) \<le> (\<Sum>x\<leftarrow>xs. f x :: nat)"
  by (induction xs) auto

lemma sum_list_filter_same:
  "(\<And>x. x \<in> set xs \<Longrightarrow> \<not> P x \<Longrightarrow> f x = 0) \<Longrightarrow> (\<Sum>x\<leftarrow>filter P xs. f x) = (\<Sum>x\<leftarrow>xs. f x :: nat)"
  by (induction xs) auto

lemma sum_list_group:
  assumes "finite H" "g ` set xs \<subseteq> H"
  shows "(\<Sum>x\<leftarrow>xs. f x :: nat) = (\<Sum>h\<in>H. \<Sum>x\<leftarrow>xs. if g x = h then f x else 0)"
  using assms(2)
proof (induction xs)
  case (Cons x xs)
  have "(\<Sum>h\<in>H. if g x = h then f x else 0) = f x" using Cons.prems assms(1) by simp
  then show ?case using Cons by (simp add: sum.distrib)
qed simp

lemma position_Some:
  assumes "position h l = Some i"
  shows "i < length (led_holders l)" "rec_holder (led_holders l ! i) = h"
  using assms by (auto simp: position_def find_Some_iff rec_holder_def)

lemma position_None:
  "position h l = None \<Longrightarrow> r \<in> set (led_holders l) \<Longrightarrow> rec_holder r \<noteq> h"
  by (auto simp: position_def find_None_iff rec_holder_def in_set_conv_nth)

lemma amt_le_total: "amt l h n \<le> total l n"
  unfolding amt_def total_def by (rule sum_list_mono) simp

lemma sum_amt_le_total: "finite H \<Longrightarrow> (\<Sum>h\<in>H. amt l h n) \<le> total l n"
proof -
  assume H: "finite H"
  have "(\<Sum>h\<in>H. \<Sum>r\<leftarrow>rs. if rec_holder r = h then rec_on r n else 0) \<le> (\<Sum>r\<leftarrow>rs. rec_on r n)" for rs
    using H by (induction rs) (auto simp: sum.distrib intro!: add_mono)
  then show ?thesis by (simp add: amt_def total_def)
qed

lemma sum_list_single:
  "distinct (map g xs) \<Longrightarrow> i < length xs \<Longrightarrow>
   (\<Sum>x\<leftarrow>xs. if g x = g (xs ! i) then f x else 0 :: nat) = f (xs ! i)"
proof (induction xs arbitrary: i)
  case (Cons x xs)
  show ?case
  proof (cases i)
    case 0
    have "(\<Sum>y\<leftarrow>xs. if g y = g x then f y else 0) = 0"
      using Cons.prems(1) by (auto simp: sum_list_eq_0_iff image_iff)
    then show ?thesis using 0 by simp
  next
    case (Suc j)
    then have "g x \<noteq> g (xs ! j)" using Cons.prems by (auto simp: image_iff)
    then show ?thesis using Suc Cons by simp
  qed
qed simp

lemma amt_record:
  assumes "distinct (map rec_holder (led_holders l))" "i < length (led_holders l)"
  shows "amt l (rec_holder (led_holders l ! i)) n = rec_on (led_holders l ! i) n"
  unfolding amt_def using assms by (rule sum_list_single)

section \<open>The operations\<close>

text \<open>\<open>charge_holder\<close> adds exactly what it is given, when that stays below the cap.\<close>

lemma charge_holder_cases:
  obtains (old) i where "position me l = Some i"
      "charge_holder me am tag adv l = l\<lparr>led_holders := (led_holders l)[i := (led_holders l ! i)
         \<lparr>rec_amounts := add_amounts am (rec_amounts (led_holders l ! i))\<rparr>]\<rparr>"
  | (new) r where "position me l = None" "rec_holder r = me" "rec_amounts r = add_amounts am []"
      "is_advisory r = adv"
      "charge_holder me am tag adv l = l\<lparr>led_holders := led_holders l @ [r]\<rparr>"
proof (cases "position me l")
  case None
  let ?r = "\<lparr>rec_pid = hid_pid me, rec_start = hid_start me, rec_tag = tag, rec_amounts = add_amounts am [],
      rec_extra = (if adv then bt_insert ''advisory'' (Json_bool True) [] else [])\<rparr>"
  have "rec_holder ?r = me" "is_advisory ?r = adv"
    by (simp_all add: rec_holder_def is_advisory_def bt_get_def)
  moreover have "charge_holder me am tag adv l = l\<lparr>led_holders := led_holders l @ [?r]\<rparr>"
    using None by (simp add: charge_holder_def)
  ultimately show ?thesis using None new [of ?r] by simp
qed (simp add: old charge_holder_def)

lemma charge_holder_caps [ledger_simps]: "led_caps (charge_holder me am tag adv l) = led_caps l"
  "led_schema (charge_holder me am tag adv l) = led_schema l"
  "led_instance (charge_holder me am tag adv l) = led_instance l"
  by (simp_all add: charge_holder_def Let_def split_beta)

lemma charge_holder_facts:
  assumes inv: "led_inv l" and room: "\<And>n. total l n + named am n \<le> unat (bt_get_or 0 n (led_caps l))"
  shows charge_holder_led_inv: "led_inv (charge_holder me am tag False l)"
    and charge_holder_amt:
      "amt (charge_holder me am tag False l) h n = amt l h n + (if h = me then named am n else 0)"
    and charge_holder_total: "total (charge_holder me am tag False l) n = total l n + named am n"
proof -
  let ?l = "charge_holder me am tag False l"
  have max: "total l n + named am n \<le> 2 ^ 64 - 1" for n
    using room [of n] unat_bound [of "bt_get_or 0 n (led_caps l)"] by (simp add: le_diff_conv2)
  have "distinct (map rec_holder (led_holders ?l)) \<and>
      (\<forall>r \<in> set (led_holders ?l). bt_sorted (rec_amounts r) \<and> \<not> is_advisory r) \<and>
      (\<forall>n. total ?l n = total l n + named am n) \<and>
      (\<forall>h n. amt ?l h n = amt l h n + (if h = me then named am n else 0))"
  proof (cases rule: charge_holder_cases [of me l am tag False])
    case (old i)
    note i = position_Some [OF old(1)]
    let ?hs = "led_holders l" and ?r = "led_holders l ! i"
    let ?r' = "?r\<lparr>rec_amounts := add_amounts am (rec_amounts ?r)\<rparr>"
    have mem: "?r \<in> set ?hs" using i by simp
    then have srt: "bt_sorted (rec_amounts ?r)" and adv: "\<not> is_advisory ?r" using inv by (auto simp: led_inv_def)
    have le: "rec_on ?r n \<le> total l n" for n
      unfolding total_def using mem by (simp add: member_le_sum_list)
    have on: "rec_on ?r' n = rec_on ?r n + named am n" for n
      using add_amounts_rec [OF srt] max [of n] le [of n] by simp
    have id: "rec_holder ?r' = rec_holder ?r" by (simp add: rec_holder_def)
    have "map rec_holder (?hs[i := ?r']) = map rec_holder ?hs"
      using i by (simp add: map_update id list_update_same_conv)
    moreover have "\<forall>r \<in> set (?hs[i := ?r']). bt_sorted (rec_amounts r) \<and> \<not> is_advisory r"
      using inv srt adv add_amounts_get [OF srt] i
      by (auto simp: led_inv_def is_advisory_def dest!: set_update_subset_insert [THEN subsetD])
    moreover have "total ?l n = total l n + named am n" for n
      using sum_list_set [OF i(1), of "\<lambda>r. rec_on r n" ?r'] on [of n]
      unfolding old(2) by (simp add: total_def)
    moreover have "amt ?l h n = amt l h n + (if h = me then named am n else 0)" for h n
      using sum_list_set [OF i(1), of "\<lambda>r. if rec_holder r = h then rec_on r n else 0" ?r'] on [of n] id i(2)
      unfolding old(2) by (auto simp: amt_def)
    ultimately show ?thesis using inv old(2) by (simp add: led_inv_def)
  next
    case (new r)
    have on: "rec_on r n = named am n" for n
      using add_amounts_get [of "[]" am n] max [of n] new(3)
      by (simp add: rec_on_def bt_sorted_def bt_get_or_def bt_get_def)
    have "bt_sorted (rec_amounts r)" using add_amounts_get [of "[]" am] new(3) by (simp add: bt_sorted_def)
    moreover have "me \<notin> rec_holder ` set (led_holders l)" using position_None [OF new(1)] by blast
    ultimately show ?thesis
      using inv new(2,4) unfolding new(5) by (auto simp: led_inv_def total_def amt_def on)
  qed
  then show "led_inv ?l" "amt ?l h n = amt l h n + (if h = me then named am n else 0)"
    "total ?l n = total l n + named am n"
    using room by (simp_all add: led_inv_def ledger_simps)
qed

lemmas charge_holder_inv = charge_holder_led_inv charge_holder_amt

lemma discharge_caps [ledger_simps]: "led_caps (discharge me am l) = led_caps l"
  "led_schema (discharge me am l) = led_schema l"
  "led_instance (discharge me am l) = led_instance l"
  by (simp_all add: discharge_def Let_def split: option.split)

lemma discharge_inv:
  assumes inv: "led_inv l"
  shows "led_inv (discharge me am l)"
    and "amt (discharge me am l) h n = amt l h n - (if h = me then named am n else 0)"
    and "total (discharge me am l) n + min (amt l me n) (named am n) = total l n"
proof -
  let ?l = "discharge me am l"
  have "distinct (map rec_holder (led_holders ?l)) \<and>
      (\<forall>r \<in> set (led_holders ?l). bt_sorted (rec_amounts r) \<and> \<not> is_advisory r) \<and>
      (\<forall>n. total ?l n + min (amt l me n) (named am n) = total l n) \<and>
      (\<forall>h n. amt ?l h n = amt l h n - (if h = me then named am n else 0))"
  proof (cases "position me l")
    case None
    then have "amt l me n = 0" for n
      using position_None [OF None] by (auto simp: amt_def sum_list_eq_0_iff)
    then show ?thesis using None inv by (simp add: discharge_def led_inv_def)
  next
    case (Some i)
    note i = position_Some [OF Some]
    let ?hs = "led_holders l" and ?r = "led_holders l ! i"
    let ?r' = "?r\<lparr>rec_amounts := sub_amounts am (rec_amounts ?r)\<rparr>"
    have dist: "distinct (map rec_holder ?hs)" using inv by (simp add: led_inv_def)
    have mem: "?r \<in> set ?hs" using i by simp
    then have srt: "bt_sorted (rec_amounts ?r)" and adv: "\<not> is_advisory ?r" using inv by (auto simp: led_inv_def)
    have srt': "bt_sorted (rec_amounts ?r')" using sub_amounts_get [OF srt, of am] by simp
    have on: "rec_on ?r' n = rec_on ?r n - named am n" for n by (rule sub_amounts_rec [OF srt])
    have me: "amt l me n = rec_on ?r n" for n using amt_record [OF dist i(1)] i(2) by simp
    have id: "rec_holder ?r' = me" using i(2) by (simp add: rec_holder_def)
    have other: "amt l h n - (if h = me then named am n else 0) =
        amt l h n - (if h = me then rec_on ?r n - rec_on ?r' n else 0)" for h n
      using me by (simp add: on)
    show ?thesis
    proof (cases "list_all (\<lambda>(_, v). v = 0) (rec_amounts ?r')")
      case True
      then have z: "rec_on ?r' n = 0" for n by (rule all_zero_rec [OF srt'])
      then have small: "rec_on ?r n \<le> named am n" for n using on [of n] by simp
      have l': "?l = l\<lparr>led_holders := take i ?hs @ drop (Suc i) ?hs\<rparr>"
        using Some True by (simp add: discharge_def)
      have sub: "set (take i ?hs @ drop (Suc i) ?hs) \<subseteq> set ?hs"
        using set_take_subset set_drop_subset by fastforce
      have "distinct (map rec_holder (take i ?hs @ drop (Suc i) ?hs))"
        using dist by (subst (asm) id_take_nth_drop [OF i(1)]) simp
      moreover have "total ?l n + min (amt l me n) (named am n) = total l n" for n
        using sum_list_del [OF i(1), of "\<lambda>r. rec_on r n"] small [of n] unfolding l' me
        by (simp add: total_def)
      moreover have "amt ?l h n = amt l h n - (if h = me then named am n else 0)" for h n
        using sum_list_del [OF i(1), of "\<lambda>r. if rec_holder r = h then rec_on r n else 0"] i(2) z [of n]
        unfolding l' other by (auto simp: amt_def)
      ultimately show ?thesis using inv sub l' by (auto simp: led_inv_def)
    next
      case False
      then have l': "?l = l\<lparr>led_holders := ?hs[i := ?r']\<rparr>"
        using Some by (simp add: discharge_def Let_def)
      have "map rec_holder (?hs[i := ?r']) = map rec_holder ?hs"
        using i id by (simp add: map_update list_update_same_conv)
      moreover have "\<forall>r \<in> set (?hs[i := ?r']). bt_sorted (rec_amounts r) \<and> \<not> is_advisory r"
        using inv srt' adv by (auto simp: led_inv_def is_advisory_def dest!: set_update_subset_insert [THEN subsetD])
      moreover have "total ?l n + min (amt l me n) (named am n) = total l n" for n
        using sum_list_set [OF i(1), of "\<lambda>r. rec_on r n" ?r'] on [of n] unfolding l' me
        by (simp add: total_def)
      moreover have "amt ?l h n = amt l h n - (if h = me then named am n else 0)" for h n
        using sum_list_set [OF i(1), of "\<lambda>r. if rec_holder r = h then rec_on r n else 0" ?r'] i(2) id on [of n] me [of n]
        unfolding l' by (auto simp: amt_def)
      ultimately show ?thesis using dist l' by simp
    qed
  qed
  then show "led_inv ?l" "amt ?l h n = amt l h n - (if h = me then named am n else 0)"
    "total ?l n + min (amt l me n) (named am n) = total l n"
    using inv by (simp_all add: led_inv_def ledger_simps) (metis le_add1 order_trans)
qed

text \<open>Pruning drops records only, and none of a holder whose probe matches.\<close>

lemma prune_fields [ledger_simps]: "led_caps (prune probe l) = led_caps l"
  "led_schema (prune probe l) = led_schema l" "led_instance (prune probe l) = led_instance l"
  by (simp_all add: prune_def Let_def)

lemma prune_holders:
  "led_holders (prune probe l) = filter (\<lambda>r. matches (rec_holder r)
     (case probe (map rec_pid (led_holders l)) (rec_pid r) of Some live \<Rightarrow> live | None \<Rightarrow> Unknown)) (led_holders l)"
  by (simp add: prune_def Let_def)

lemma prune_total: "total (prune probe l) n \<le> total l n"
  unfolding total_def prune_holders by (rule sum_list_filter_le)

lemma prune_inv: "led_inv l \<Longrightarrow> led_inv (prune probe l)"
  using prune_total order_trans
  by (auto simp: led_inv_def ledger_simps prune_holders distinct_map_filter) blast

lemma prune_amt:
  assumes "\<And>pids. case probe pids (hid_pid h) of Some live \<Rightarrow> matches h live | None \<Rightarrow> True"
  shows "amt (prune probe l) h n = amt l h n"
  unfolding amt_def prune_holders
proof (rule sum_list_filter_same)
  fix r assume n: "\<not> matches (rec_holder r)
      (case probe (map rec_pid (led_holders l)) (rec_pid r) of Some live \<Rightarrow> live | None \<Rightarrow> Unknown)"
  have "rec_holder r = h \<Longrightarrow> rec_pid r = hid_pid h" by (auto simp: rec_holder_def)
  then show "(if rec_holder r = h then rec_on r n else 0) = 0"
    using n assms [of "map rec_pid (led_holders l)"] by (auto simp: matches_def split: option.splits)
qed

lemma reconcile_holders [ledger_simps]: "led_holders (fst (reconcile_caps l c)) = led_holders l"
  "led_schema (fst (reconcile_caps l c)) = led_schema l"
  "led_instance (fst (reconcile_caps l c)) = led_instance l"
  by (simp_all add: reconcile_caps_def)

lemma reconcile_inv: "led_inv l \<Longrightarrow> led_inv (fst (reconcile_caps l c))"
  by (auto simp: reconcile_caps_def led_inv_def total_def)

lemma reconcile_amt [ledger_simps]: "amt (fst (reconcile_caps l c)) h n = amt l h n"
  "total (fst (reconcile_caps l c)) n = total l n"
  by (simp_all add: amt_def total_def ledger_simps)

lemma ledger_new_inv: "led_inv (ledger_new inst caps)" "amt (ledger_new inst caps) h n = 0"
  by (simp_all add: ledger_new_def led_inv_def total_def amt_def)

section \<open>Pricing\<close>

lemma unat_sum_list:
  "(\<Sum>x\<leftarrow>xs. unat (f x)) < 2 ^ 64 \<Longrightarrow> unat (\<Sum>x\<leftarrow>xs. f x :: u64) = (\<Sum>x\<leftarrow>xs. unat (f x))"
  by (induction xs) (simp_all add: unat_word_ariths)

lemma charged_enforcing_total:
  assumes "led_inv l"
  shows "unat (charged_enforcing l a) = total l (axis_display a)"
proof -
  have f: "filter (\<lambda>r. \<not> is_advisory r) (led_holders l) = led_holders l"
    using assms by (auto simp: led_inv_def intro!: filter_True)
  have t: "total l (axis_display a) = (\<Sum>r\<leftarrow>led_holders l. unat (rec_amount r a))"
    by (simp add: total_def rec_on_def rec_amount_def)
  have "total l (axis_display a) < 2 ^ 64"
    using assms unat_bound [of "bt_get_or 0 (axis_display a) (led_caps l)"]
    by (auto simp: led_inv_def intro: order_le_less_trans)
  then show ?thesis unfolding charged_enforcing_def f t by (rule unat_sum_list)
qed

lemma price_free_None:
  "price_free l am = None \<Longrightarrow> (a, v) \<in> set am \<Longrightarrow> v \<le> sat_sub (led_cap l a) (charged_enforcing l a)"
  by (induction l am rule: price_free.induct) (auto simp: Let_def split: if_splits)

lemma price_caps_Some:
  "price_caps l am = Some r \<Longrightarrow> \<exists>a v. (a, v) \<in> set am \<and> r = TooLarge a v (led_cap l a) \<and> led_cap l a < v"
  by (induction l am rule: price_caps.induct) (auto simp: Let_def split: if_splits)

lemma price_caps_None: "(price_caps l am = None) = (\<forall>(a, v) \<in> set am. v \<le> led_cap l a)"
  by (induction l am rule: price_caps.induct) (auto simp: Let_def)

lemma price_free_Some:
  "price_free l am = Some r \<Longrightarrow> \<exists>a v. (a, v) \<in> set am \<and>
     r = Busy a v (sat_sub (led_cap l a) (charged_enforcing l a)) \<and>
     sat_sub (led_cap l a) (charged_enforcing l a) < v"
  by (induction l am rule: price_free.induct) (auto simp: Let_def split: if_splits)

lemma named_sorted:
  assumes "bt_sorted am"
  shows "named am n = (case find (\<lambda>(a, _). axis_display a = n) am of Some (_, v) \<Rightarrow> unat v | None \<Rightarrow> 0)"
  using assms
proof (induction am)
  case (Cons av am)
  obtain a v where av: "av = (a, v)" by (cases av)
  have s: "bt_sorted am" using Cons.prems by (simp add: av bt_sorted_Cons)
  show ?case
  proof (cases "axis_display a = n")
    case True
    have "a' \<noteq> a" if "(a', v') \<in> set am" for a' v'
      using Cons.prems that by (force simp: av bt_sorted_Cons)
    then have "named am n = 0"
      using True axis_display_inj by (fastforce simp: named_def sum_list_eq_0_iff)
    then show ?thesis using True by (simp add: named_def av)
  next
    case False
    then show ?thesis using Cons.IH [OF s] by (simp add: named_def av)
  qed
qed (simp add: named_def)

lemma price_room:
  assumes inv: "led_inv l" and p: "price l req = None" and s: "bt_sorted (req_amounts req)"
  shows "total l n + named (req_amounts req) n \<le> unat (bt_get_or 0 n (led_caps l))"
proof (cases "find (\<lambda>(a, _). axis_display a = n) (req_amounts req)")
  case None
  then show ?thesis using inv by (simp add: named_sorted [OF s] led_inv_def)
next
  case (Some av)
  obtain a v where av: "av = (a, v)" by (cases av)
  have mem: "(a, v) \<in> set (req_amounts req)" and n: "axis_display a = n"
    using Some av by (auto simp: find_Some_iff in_set_conv_nth)
  have "price_free l (req_amounts req) = None" using p by (auto simp: price_def split: option.splits)
  from price_free_None [OF this mem]
  have "unat v \<le> unat (led_cap l a) - total l n"
    using charged_enforcing_total [OF inv, of a] n by (simp add: word_le_nat_alt unat_sat_sub)
  moreover have "total l n \<le> unat (led_cap l a)" using inv n by (auto simp: led_inv_def led_cap_def)
  ultimately show ?thesis
    using Some by (simp add: named_sorted [OF s] av led_cap_def n)
qed

end
