(* ===== verification/HostSystem.thy ===== *)
theory HostSystem
  imports HostAccounting
begin

text \<open>
  The machine: the ledger file, the live processes and the grants they hold.  A step is one call
  of a gate operation by a live process, with any answers of the operating system, or a process
  starting or dying, also in the middle of a transaction.  Only enforcing gates of one boot take
  part, and the probe never misreports a live process.
\<close>

record 'c host =
  hdisk :: "'c disk"
  procs :: "u32 \<rightharpoonup> u64"
  held :: "(holder_id \<times> amounts) list"

definition probe_sound :: "(u32 \<rightharpoonup> u64) \<Rightarrow> prober \<Rightarrow> bool" where
  "probe_sound ps probe \<longleftrightarrow> (\<forall>pids p st. ps p = Some st \<longrightarrow>
     probe pids p \<in> {None, Some Unknown, Some (Alive st)} \<and> (p \<in> set pids \<longrightarrow> probe pids p \<noteq> None))"

definition enforcing :: "string \<Rightarrow> gate \<Rightarrow> bool" where
  "enforcing inst g \<longleftrightarrow> gate_stored g \<and> gate_mode g = Enforce \<and> gate_instance g = inst"

definition without :: "u32 \<Rightarrow> (holder_id \<times> amounts) list \<Rightarrow> (holder_id \<times> amounts) list" where
  "without pid hs = filter (\<lambda>(h, _). hid_pid h \<noteq> pid) hs"

definition armed :: "gate \<Rightarrow> holder_id \<Rightarrow> amounts \<Rightarrow> string \<Rightarrow> grant" where
  "armed g h am tag = \<lparr>grant_gate = Some g, grant_holder = h, grant_amounts = am, grant_tag = tag\<rparr>"

definition acquired :: "refusal + grant \<Rightarrow> (holder_id \<times> amounts) list" where
  "acquired r = (case r of Inr gr \<Rightarrow> [(grant_holder gr, grant_amounts gr)] | Inl _ \<Rightarrow> [])"

definition received :: "(u32 \<rightharpoonup> u64) \<Rightarrow> refusal + unit \<Rightarrow> holder_id option \<Rightarrow> amounts \<Rightarrow> (holder_id \<times> amounts) list" where
  "received ps r to am = (case (r, to) of
     (Inr _, Some h) \<Rightarrow> if ps (hid_pid h) = Some (hid_start h) then [(h, am)] else [] | _ \<Rightarrow> [])"

inductive host_step :: "string \<Rightarrow> 'c codec \<Rightarrow> 'c host \<Rightarrow> 'c host \<Rightarrow> bool" for inst cd where
  acquire: "procs s pid = Some st \<Longrightarrow> probe_sound (procs s) probe \<Longrightarrow> enforcing inst g \<Longrightarrow>
    bt_sorted (req_amounts req) \<Longrightarrow> try_acquire env cd probe pid g req (hdisk s) = (r, ds) \<Longrightarrow>
    host_step inst cd s (s\<lparr>hdisk := last (hdisk s # ds), held := acquired r @ held s\<rparr>)"
| release: "(h, am) \<in> set (held s) \<Longrightarrow> probe_sound (procs s) probe \<Longrightarrow> enforcing inst g \<Longrightarrow>
    release_inner env cd probe (armed g h am tag) (hdisk s) = (r, gr', ds) \<Longrightarrow>
    host_step inst cd s (s\<lparr>hdisk := last (hdisk s # ds), held := remove1 (h, am) (held s)\<rparr>)"
| transfer: "(h, am) \<in> set (held s) \<Longrightarrow> probe_sound (procs s) probe \<Longrightarrow> enforcing inst g \<Longrightarrow>
    probe [pid] pid \<noteq> Some Unknown \<Longrightarrow>
    transfer_to env env' cd probe (armed g h am tag) pid (hdisk s) = (r, ds) \<Longrightarrow>
    host_step inst cd s (s\<lparr>hdisk := last (hdisk s # ds),
      held := received (procs s) r (transfer_target probe pid) am @ remove1 (h, am) (held s)\<rparr>)"
| status: "probe_sound (procs s) probe \<Longrightarrow> enforcing inst g \<Longrightarrow>
    capacity env cd probe g (hdisk s) = (rs, ds) \<Longrightarrow>
    host_step inst cd s (s\<lparr>hdisk := last (hdisk s # ds)\<rparr>)"
| crash: "host_step inst cd s (s\<lparr>procs := (procs s)(pid := None), held := without pid (held s)\<rparr>)"
| crash_acquire: "procs s pid = Some st \<Longrightarrow> probe_sound (procs s) probe \<Longrightarrow> enforcing inst g \<Longrightarrow>
    bt_sorted (req_amounts req) \<Longrightarrow> try_acquire env cd probe pid g req (hdisk s) = (r, ds) \<Longrightarrow> d \<in> set ds \<Longrightarrow>
    host_step inst cd s (s\<lparr>hdisk := d, procs := (procs s)(pid := None), held := without pid (held s)\<rparr>)"
| crash_release: "(h, am) \<in> set (held s) \<Longrightarrow> probe_sound (procs s) probe \<Longrightarrow> enforcing inst g \<Longrightarrow>
    release_inner env cd probe (armed g h am tag) (hdisk s) = (r, gr', ds) \<Longrightarrow> d \<in> set ds \<Longrightarrow>
    host_step inst cd s (s\<lparr>hdisk := d, procs := (procs s)(hid_pid h := None), held := without (hid_pid h) (held s)\<rparr>)"
| spawn: "procs s pid = None \<Longrightarrow> host_step inst cd s (s\<lparr>procs := (procs s)(pid \<mapsto> st)\<rparr>)"

inductive host_reachable :: "string \<Rightarrow> 'c codec \<Rightarrow> 'c host \<Rightarrow> bool" for inst cd where
  start: "target (hdisk s) = None \<Longrightarrow> held s = [] \<Longrightarrow> host_reachable inst cd s"
| step: "host_reachable inst cd s \<Longrightarrow> host_step inst cd s s' \<Longrightarrow> host_reachable inst cd s'"

section \<open>The invariant\<close>

definition need :: "(holder_id \<times> amounts) list \<Rightarrow> holder_id \<Rightarrow> string \<Rightarrow> nat" where
  "need hs h n = (\<Sum>(h', am)\<leftarrow>hs. if h' = h then named am n else 0)"

definition covers :: "ledger \<Rightarrow> (holder_id \<times> amounts) list \<Rightarrow> bool" where
  "covers l hs \<longleftrightarrow> (\<forall>h n. need hs h n \<le> amt l h n)"

definition all_live :: "(u32 \<rightharpoonup> u64) \<Rightarrow> (holder_id \<times> amounts) list \<Rightarrow> bool" where
  "all_live ps hs \<longleftrightarrow> (\<forall>(h, _) \<in> set hs. ps (hid_pid h) = Some (hid_start h))"

definition good_ledger :: "string \<Rightarrow> ledger \<Rightarrow> bool" where
  "good_ledger inst l \<longleftrightarrow> led_schema l = SCHEMA \<and> led_instance l = inst \<and> led_inv l"

definition good_disk :: "string \<Rightarrow> 'c codec \<Rightarrow> 'c disk \<Rightarrow> (holder_id \<times> amounts) list \<Rightarrow> bool" where
  "good_disk inst cd d hs \<longleftrightarrow> (case target d of
       None \<Rightarrow> hs = []
     | Some c \<Rightarrow> \<not> blank cd c \<and> (\<exists>l. from_json cd c = Some l \<and> good_ledger inst l \<and> covers l hs))"

definition host_inv :: "string \<Rightarrow> 'c codec \<Rightarrow> 'c host \<Rightarrow> bool" where
  "host_inv inst cd s \<longleftrightarrow> all_live (procs s) (held s) \<and> good_disk inst cd (hdisk s) (held s)"

lemma need_simps: "need [] h n = 0"
  "need ((h', am) # hs) h n = (if h' = h then named am n else 0) + need hs h n"
  by (simp_all add: need_def)

lemma need_remove1: "(h', am) \<in> set hs \<Longrightarrow>
  need (remove1 (h', am) hs) h n + (if h = h' then named am n else 0) = need hs h n"
  by (induction hs) (auto simp: need_simps)

lemma need_without: "need (without pid hs) h n = (if hid_pid h = pid then 0 else need hs h n)"
  by (induction hs) (auto simp: need_simps without_def split: if_split_asm)

lemma need_member: "(h, am) \<in> set hs \<Longrightarrow> named am n \<le> need hs h n"
  by (induction hs) (auto simp: need_simps)

lemma good_disk_current:
  assumes "good_disk inst cd d hs"
  shows "\<exists>l. current cd inst caps d = Some l \<and> good_ledger inst l \<and> covers l hs"
proof (cases "target d")
  case None
  then show ?thesis
    using assms ledger_new_inv [of inst caps]
    by (auto simp: good_disk_def current_def good_ledger_def covers_def need_simps ledger_new_def)
next
  case (Some c)
  then show ?thesis
    using assms by (auto simp: good_disk_def current_def good_ledger_def)
qed

lemma good_disk_mono: "good_disk inst cd d hs \<Longrightarrow> (\<And>h n. need hs' h n \<le> need hs h n) \<Longrightarrow>
    (hs = [] \<Longrightarrow> hs' = []) \<Longrightarrow> good_disk inst cd d hs'"
  by (auto simp: good_disk_def covers_def split: option.splits) (meson order_trans)

lemma good_disk_written:
  assumes "codec_ok cd" "target d = to_json cd l" "to_json cd l \<noteq> None" "good_ledger inst l" "covers l hs"
  shows "good_disk inst cd d hs"
  using assms by (auto simp: good_disk_def codec_ok_def)

text \<open>A transaction that keeps the ledger good keeps the disk good, wherever it stops.\<close>

lemma with_lock_good:
  assumes cd: "codec_ok cd" and d: "good_disk inst cd d hs"
    and f: "\<And>l. good_ledger inst l \<Longrightarrow> covers l hs \<Longrightarrow> good_ledger inst (fst (f l)) \<and> covers (fst (f l)) hs'"
    and run: "with_lock env cd inst caps f d = (r, ds)"
    and drop: "\<And>h n. need hs' h n \<le> need hs h n" "hs = [] \<Longrightarrow> hs' = []"
  shows "good_disk inst cd (last (d # ds)) hs'" "d' \<in> set ds \<Longrightarrow> good_disk inst cd d' hs'"
proof -
  obtain l where l: "current cd inst caps d = Some l" "good_ledger inst l" "covers l hs"
    using good_disk_current [OF d] by blast
  note fl = f [OF l(2,3)]
  have *: "good_disk inst cd d' hs'" if "d' \<in> set ds" for d'
    using with_lock_states [OF run that]
  proof
    assume "target d' = target d"
    then have "good_disk inst cd d' hs" using d by (simp add: good_disk_def)
    then show ?thesis by (rule good_disk_mono [OF _ drop])
  qed (use l fl in \<open>auto intro: good_disk_written [OF cd]\<close>)
  then show "d' \<in> set ds \<Longrightarrow> good_disk inst cd d' hs'" .
  show "good_disk inst cd (last (d # ds)) hs'"
  proof (cases "ds = []")
    case True
    then show ?thesis using good_disk_mono [OF d drop] by simp
  next
    case False
    then show ?thesis using * [of "last ds"] by simp
  qed
qed

lemma with_lock_good_dirty:
  assumes cd: "codec_ok cd" and d: "good_disk inst cd d hs"
    and f: "\<And>l. good_ledger inst l \<Longrightarrow> covers l hs \<Longrightarrow> good_ledger inst (fst (f l)) \<and>
        snd (snd (f l)) \<and> covers (fst (f l)) (hs' (fst (snd (f l))))"
    and run: "with_lock env cd inst caps f d = (Inr v, ds)"
  shows "good_disk inst cd (last (d # ds)) (hs' v)"
proof -
  obtain l0 where l0: "current cd inst caps d = Some l0" "good_ledger inst l0" "covers l0 hs"
    using good_disk_current [OF d] by blast
  from with_lock_current [OF run] l0 obtain l' dirty where l: "f l0 = (l', v, dirty)"
    "target (last (d # ds)) = to_json cd l' \<and> to_json cd l' \<noteq> None \<or> \<not> dirty \<and> ds = []" by auto
  then show ?thesis using f [OF l0(2,3)] good_disk_written [OF cd, of "last (d # ds)" l'] by auto
qed

section \<open>The transactions\<close>

lemma le_sub: "a + x = b \<Longrightarrow> b \<le> c \<Longrightarrow> a \<le> c - x" for a b c x :: nat
  by simp

lemma prune_covers:
  assumes "probe_sound ps probe" "all_live ps hs" "covers l hs"
  shows "covers (prune probe l) hs"
proof -
  have "need hs h n \<le> amt (prune probe l) h n" for h n
  proof (cases "ps (hid_pid h) = Some (hid_start h)")
    case True
    have "case probe pids (hid_pid h) of Some live \<Rightarrow> matches h live | None \<Rightarrow> True" for pids
    proof -
      have "probe pids (hid_pid h) \<in> {None, Some Unknown, Some (Alive (hid_start h))}"
        using assms(1) True by (simp add: probe_sound_def)
      then show ?thesis by (auto simp: matches_def)
    qed
    then show ?thesis using prune_amt [where probe = probe and h = h and l = l and n = n] assms(3) by (simp add: covers_def)
  next
    case False
    then have "need hs h n = 0"
      using assms(2) by (auto simp: need_def all_live_def sum_list_eq_0_iff)
    then show ?thesis by simp
  qed
  then show ?thesis by (simp add: covers_def)
qed

lemma prune_good: "good_ledger inst l \<Longrightarrow> good_ledger inst (prune probe l)"
  by (simp add: good_ledger_def ledger_simps prune_inv)

lemma reconcile_good: "good_ledger inst l \<Longrightarrow> good_ledger inst (fst (reconcile_caps l c))"
  by (simp add: good_ledger_def ledger_simps reconcile_inv)

lemma reconcile_covers: "covers l hs \<Longrightarrow> covers (fst (reconcile_caps l c)) hs"
  by (simp add: covers_def ledger_simps)

lemma acquire_tx_good:
  assumes ps: "probe_sound ps probe" "all_live ps hs" and g: "gate_mode g = Enforce"
    and s: "bt_sorted (req_amounts req)" and l: "good_ledger inst l" "covers l hs"
  shows "good_ledger inst (fst (acquire_tx probe g me req l)) \<and> snd (snd (acquire_tx probe g me req l)) \<and>
    covers (fst (acquire_tx probe g me req l))
      ((case fst (snd (acquire_tx probe g me req l)) of Inr _ \<Rightarrow> [(me, req_amounts req)] | Inl _ \<Rightarrow> []) @ hs)"
proof -
  define l2 where "l2 = fst (reconcile_caps (prune probe l) (gate_caps g))"
  have l2: "good_ledger inst l2" "covers l2 hs"
    unfolding l2_def using l ps prune_covers by (auto intro: prune_good reconcile_good reconcile_covers)
  show ?thesis
  proof (cases "price l2 req")
    case None
    have inv: "led_inv l2" using l2 by (simp add: good_ledger_def)
    note room = price_room [OF inv None s]
    note c = charge_holder_inv [OF inv room, of me "req_tag req"]
    have tx: "acquire_tx probe g me req l = (charge me req False l2, Inr (), True)"
      using None g by (simp add: acquire_tx_def l2_def Let_def)
    have "covers (charge me req False l2) ([(me, req_amounts req)] @ hs)"
      using l2(2) c(2) by (auto simp: covers_def charge_def need_simps)
    moreover have "good_ledger inst (charge me req False l2)"
      using l2(1) c(1) by (simp add: good_ledger_def charge_def ledger_simps)
    ultimately show ?thesis by (simp add: tx)
  next
    case (Some r)
    then have "acquire_tx probe g me req l = (l2, Inl r, True)"
      using g by (simp add: acquire_tx_def l2_def Let_def)
    then show ?thesis using l2 by simp
  qed
qed

lemma release_tx_good:
  assumes ps: "probe_sound ps probe" "all_live ps hs" and mem: "(h, am) \<in> set hs"
    and l: "good_ledger inst l" "covers l hs"
  shows "good_ledger inst (fst (release_tx probe h am l)) \<and> snd (snd (release_tx probe h am l)) \<and>
    covers (fst (release_tx probe h am l)) (remove1 (h, am) hs)"
proof -
  have inv: "led_inv l" using l by (simp add: good_ledger_def)
  note d = discharge_inv [OF inv, of h am]
  have "covers (discharge h am l) (remove1 (h, am) hs)"
    unfolding covers_def
  proof (intro allI)
    fix h' n
    show "need (remove1 (h, am) hs) h' n \<le> amt (discharge h am l) h' n"
      unfolding d(2)
      by (rule le_sub [OF need_remove1 [OF mem]]) (use l(2) in \<open>simp add: covers_def\<close>)
  qed
  moreover have "all_live ps (remove1 (h, am) hs)"
    using ps(2) by (auto simp: all_live_def dest: notin_set_remove1)
  ultimately have "covers (prune probe (discharge h am l)) (remove1 (h, am) hs)"
    using prune_covers ps(1) by blast
  moreover have "good_ledger inst (prune probe (discharge h am l))"
    using l d(1) by (intro prune_good) (simp add: good_ledger_def ledger_simps)
  ultimately show ?thesis by (simp add: release_tx_def)
qed

lemma transfer_tx_good:
  assumes ps: "probe_sound ps probe" "all_live ps hs" and mem: "(h, am) \<in> set hs"
    and l: "good_ledger inst l" "covers l hs"
  shows "good_ledger inst (fst (transfer_tx probe h to am tag l)) \<and> snd (snd (transfer_tx probe h to am tag l)) \<and>
    covers (fst (transfer_tx probe h to am tag l)) (received ps (Inr ()) to am @ remove1 (h, am) hs)"
proof -
  have inv: "led_inv l" using l by (simp add: good_ledger_def)
  let ?l1 = "discharge h am l"
  note d = discharge_inv [OF inv, of h am]
  have enough: "named am n \<le> amt l h n" for n
    using need_member [OF mem, of n] l(2) order_trans by (auto simp: covers_def) blast
  have c1: "need (remove1 (h, am) hs) h' n \<le> amt ?l1 h' n" for h' n
    unfolding d(2)
    by (rule le_sub [OF need_remove1 [OF mem]]) (use l(2) in \<open>simp add: covers_def\<close>)
  have live: "all_live ps (received ps (Inr ()) to am @ remove1 (h, am) hs)"
    using ps(2) by (auto simp: all_live_def received_def split: option.splits if_splits dest: notin_set_remove1)
  define l2 where "l2 = (case to of Some h \<Rightarrow> charge_holder h am tag False ?l1 | None \<Rightarrow> ?l1)"
  have l2: "good_ledger inst l2 \<and> covers l2 (received ps (Inr ()) to am @ remove1 (h, am) hs)"
  proof (cases to)
    case None
    then show ?thesis
      using c1 d(1) l(1) by (simp add: l2_def received_def covers_def good_ledger_def ledger_simps)
  next
    case (Some h2)
    have room: "total ?l1 n + named am n \<le> unat (bt_get_or 0 n (led_caps ?l1))" for n
      using d(3) [of n] enough [of n] inv by (simp add: led_inv_def ledger_simps)
    note c = charge_holder_inv [OF d(1) room, of h2 tag]
    have "need (received ps (Inr ()) to am @ remove1 (h, am) hs) h' n \<le>
        (if h' = h2 then named am n else 0) + need (remove1 (h, am) hs) h' n" for h' n
      by (simp add: received_def Some need_simps)
    then have "covers l2 (received ps (Inr ()) to am @ remove1 (h, am) hs)"
      unfolding covers_def l2_def Some option.case c(2)
      by (intro allI) (rule order_trans, assumption?, use c1 in \<open>simp add: add.commute add_mono\<close>)
    then show ?thesis
      using c(1) l(1) by (simp add: l2_def Some good_ledger_def ledger_simps)
  qed
  have "transfer_tx probe h to am tag l = (prune probe l2, (), True)"
    by (simp add: transfer_tx_def l2_def Let_def)
  then show ?thesis using l2 prune_good prune_covers [OF ps(1) live] by auto
qed

lemma capacity_tx_good:
  assumes ps: "probe_sound ps probe" "all_live ps hs" and l: "good_ledger inst l" "covers l hs"
  shows "good_ledger inst (fst (capacity_tx probe g l)) \<and> covers (fst (capacity_tx probe g l)) hs"
proof -
  have "fst (capacity_tx probe g l) = fst (reconcile_caps (prune probe l) (gate_caps g))"
    by (simp add: capacity_tx_def Let_def split_beta)
  then show ?thesis
    using l ps prune_covers by (auto intro: prune_good reconcile_good reconcile_covers)
qed

section \<open>Steps keep the invariant\<close>

lemma covers_append: "covers l (xs @ ys) \<Longrightarrow> covers l ys"
proof -
  assume c: "covers l (xs @ ys)"
  have "need ys h n \<le> need (xs @ ys) h n" for h n by (simp add: need_def)
  then show ?thesis using c order_trans unfolding covers_def by blast
qed

lemma acquire_good:
  assumes cd: "codec_ok cd" and ps: "probe_sound ps probe" "all_live ps hs"
    and me: "ps pid = Some st" and g: "enforcing inst g" and s: "bt_sorted (req_amounts req)"
    and d: "good_disk inst cd d hs" and run: "try_acquire env cd probe pid g req d = (r, ds)"
  shows "good_disk inst cd (last (d # ds)) (acquired r @ hs) \<and> all_live ps (acquired r @ hs) \<and>
    (\<forall>d' \<in> set ds. good_disk inst cd d' hs)"
proof (cases "self_start probe pid")
  case None
  then show ?thesis
    using run d ps g by (auto simp: try_acquire_def enforcing_def acquired_def)
next
  case (Some start)
  have "probe [pid] pid \<in> {None, Some Unknown, Some (Alive st)}" using ps(1) me by (simp add: probe_sound_def)
  then have start: "start = st" using Some by (auto simp: self_start_def)
  define me' where "me' = \<lparr>hid_pid = pid, hid_start = st\<rparr>"
  define f where "f = acquire_tx probe g me' req"
  have gm: "gate_mode g = Enforce" "gate_stored g" "gate_instance g = inst" using g by (simp_all add: enforcing_def)
  obtain out where out: "with_lock env cd inst (gate_caps g) f d = (out, ds)"
    and r: "r = (case out of Inl e \<Rightarrow> Inl (Unavailable (ledger_error_display e))
        | Inr (Inl refusal) \<Rightarrow> Inl refusal
        | Inr (Inr _) \<Rightarrow> Inr \<lparr>grant_gate = Some g, grant_holder = me', grant_amounts = req_amounts req, grant_tag = req_tag req\<rparr>)"
    using run gm Some
    by (auto simp: try_acquire_def f_def me'_def start Let_def split: prod.splits sum.splits)
  let ?hs' = "\<lambda>v. (case v of Inr _ \<Rightarrow> [(me', req_amounts req)] | Inl _ \<Rightarrow> []) @ hs"
  have tx: "good_ledger inst (fst (f l)) \<and> snd (snd (f l)) \<and> covers (fst (f l)) (?hs' (fst (snd (f l))))"
    if "good_ledger inst l" "covers l hs" for l
    unfolding f_def by (rule acquire_tx_good [OF ps gm(1) s that])
  have weak: "good_ledger inst (fst (f l)) \<and> covers (fst (f l)) hs" if "good_ledger inst l" "covers l hs" for l
    using tx [OF that] covers_append [of "fst (f l)" _ hs] by blast
  note states = with_lock_good [OF cd d weak out order_refl]
  have all: "\<forall>d' \<in> set ds. good_disk inst cd d' hs" using states(2) by blast
  show ?thesis
  proof (cases out)
    case (Inl e)
    then show ?thesis using states(1) all ps r by (simp add: acquired_def)
  next
    case (Inr v)
    have "good_disk inst cd (last (d # ds)) (?hs' v)"
      by (rule with_lock_good_dirty [OF cd d tx out [unfolded Inr]])
    moreover have "acquired r @ hs = ?hs' v" using Inr r by (auto simp: acquired_def split: sum.splits)
    moreover have "all_live ps (?hs' v)"
      using ps(2) me by (auto simp: all_live_def me'_def split: sum.splits)
    ultimately show ?thesis using all by simp
  qed
qed

lemma all_live_remove1: "all_live ps hs \<Longrightarrow> all_live ps (remove1 x hs)"
  by (auto simp: all_live_def dest: notin_set_remove1)

lemma release_good:
  assumes cd: "codec_ok cd" and ps: "probe_sound ps probe" "all_live ps hs"
    and mem: "(h, am) \<in> set hs" and g: "enforcing inst g"
    and d: "good_disk inst cd d hs" and run: "release_inner env cd probe (armed g h am tag) d = (r, gr', ds)"
  shows "good_disk inst cd (last (d # ds)) (remove1 (h, am) hs)"
    "d' \<in> set ds \<Longrightarrow> good_disk inst cd d' (remove1 (h, am) hs)"
proof -
  obtain out where out: "with_lock env cd inst (gate_caps g) (release_tx probe h am) d = (out, ds)"
    using run g by (auto simp: release_inner_def armed_def enforcing_def Let_def split: prod.splits sum.splits)
  have f: "good_ledger inst (fst (release_tx probe h am l)) \<and> covers (fst (release_tx probe h am l)) (remove1 (h, am) hs)"
    if "good_ledger inst l" "covers l hs" for l
    using release_tx_good [OF ps mem that] by simp
  have le: "need (remove1 (h, am) hs) h' n \<le> need hs h' n" for h' n
    using need_remove1 [OF mem, of h' n] by simp
  show "good_disk inst cd (last (d # ds)) (remove1 (h, am) hs)"
    "d' \<in> set ds \<Longrightarrow> good_disk inst cd d' (remove1 (h, am) hs)"
    using with_lock_good [OF cd d f out le] by auto
qed

lemma transfer_good:
  assumes cd: "codec_ok cd" and ps: "probe_sound ps probe" "all_live ps hs"
    and mem: "(h, am) \<in> set hs" and g: "enforcing inst g"
    and d: "good_disk inst cd d hs" and run: "transfer_to env env' cd probe (armed g h am tag) pid d = (r, ds)"
  shows "good_disk inst cd (last (d # ds)) (received ps r (transfer_target probe pid) am @ remove1 (h, am) hs)"
proof -
  let ?to = "transfer_target probe pid"
  obtain rb gr' ds1 where b: "transfer_body env cd probe (armed g h am tag) pid d = (rb, gr', ds1)"
    by (cases "transfer_body env cd probe (armed g h am tag) pid d") auto
  obtain rr gr'' ds2 where c: "release_inner env' cd probe gr' (last (d # ds1)) = (rr, gr'', ds2)"
    by (cases "release_inner env' cd probe gr' (last (d # ds1))") auto
  have r: "r = rb" "ds = ds1 @ ds2" using run b c by (simp_all add: transfer_to_def)
  obtain out where out: "with_lock env cd inst (gate_caps g) (transfer_tx probe h ?to am tag) d = (out, ds1)"
    and res: "(\<exists>u. out = Inr u \<and> rb = Inr () \<and> grant_gate gr' = None) \<or>
        (\<exists>e e'. out = Inl e \<and> rb = Inl e' \<and> gr' = armed g h am tag)"
    using b g by (auto simp: transfer_body_def armed_def enforcing_def split: prod.splits sum.splits)
  have tx: "good_ledger inst (fst (transfer_tx probe h ?to am tag l)) \<and> snd (snd (transfer_tx probe h ?to am tag l)) \<and>
      covers (fst (transfer_tx probe h ?to am tag l)) (received ps (Inr ()) ?to am @ remove1 (h, am) hs)"
    if "good_ledger inst l" "covers l hs" for l
    by (rule transfer_tx_good [OF ps mem that])
  from res show ?thesis
  proof
    assume "\<exists>u. out = Inr u \<and> rb = Inr () \<and> grant_gate gr' = None"
    then obtain u where u: "out = Inr u" "rb = Inr ()" "grant_gate gr' = None" by blast
    then have "ds2 = []" using c by (simp add: release_inner_def)
    then show ?thesis
      using with_lock_good_dirty [OF cd d tx out [unfolded u(1)]] u r by simp
  next
    assume "\<exists>e e'. out = Inl e \<and> rb = Inl e' \<and> gr' = armed g h am tag"
    then obtain e e' where e: "out = Inl e" "rb = Inl e'" "gr' = armed g h am tag" by blast
    have "target (last (d # ds1)) = target d" using with_lock_error [OF out [unfolded e(1)]] .
    then have d1: "good_disk inst cd (last (d # ds1)) hs" using d by (simp add: good_disk_def)
    have "last (d # ds) = last (last (d # ds1) # ds2)" by (simp add: r)
    moreover have "received ps r ?to am = []" by (simp add: received_def r e)
    ultimately show ?thesis
      using release_good(1) [OF cd ps mem g d1 c [unfolded e(3)]] by (simp only: append_Nil)
  qed
qed

lemma good_disk_without:
  "good_disk inst cd d hs \<Longrightarrow> good_disk inst cd d (without pid hs)"
  by (rule good_disk_mono, assumption) (simp_all add: need_without, simp add: without_def)

lemma all_live_without:
  "all_live ps hs \<Longrightarrow> all_live (ps(pid := None)) (without pid hs)"
  by (auto simp: all_live_def without_def)

lemma host_step_inv:
  assumes cd: "codec_ok cd"
  shows "host_step inst cd s s' \<Longrightarrow> host_inv inst cd s \<Longrightarrow> host_inv inst cd s'"
proof (induction rule: host_step.induct)
  case (acquire s pid st probe g req env r ds)
  then show ?case
    using acquire_good [OF cd acquire.hyps(2) _ acquire.hyps(1,3,4) _ acquire.hyps(5)]
    by (auto simp: host_inv_def)
next
  case (release h am s probe g env tag r gr' ds)
  then show ?case
    using release_good(1) [OF cd release.hyps(2) _ release.hyps(1,3) _ release.hyps(4)]
    by (auto simp: host_inv_def all_live_remove1)
next
  case (transfer h am s probe g pid env env' tag r ds)
  have "all_live (procs s) (received (procs s) r (transfer_target probe pid) am @ remove1 (h, am) (held s))"
    using transfer.prems by (auto simp: host_inv_def all_live_def received_def split: sum.splits option.splits
        if_splits dest: notin_set_remove1)
  then show ?case
    using transfer_good [OF cd transfer.hyps(2) _ transfer.hyps(1,3) _ transfer.hyps(5)] transfer.prems
    by (auto simp: host_inv_def)
next
  case (status s probe g env rs ds)
  obtain out where out: "with_lock env cd inst (gate_caps g) (capacity_tx probe g) (hdisk s) = (out, ds)"
    using status.hyps by (auto simp: capacity_def enforcing_def split: prod.splits sum.splits)
  have live: "all_live (procs s) (held s)" and d: "good_disk inst cd (hdisk s) (held s)"
    using status.prems by (simp_all add: host_inv_def)
  have "good_disk inst cd (last (hdisk s # ds)) (held s)"
    using with_lock_good(1) [OF cd d capacity_tx_good [OF status.hyps(1) live] out order_refl] by simp
  then show ?case using live by (simp add: host_inv_def)
next
  case (crash s pid)
  then show ?case by (simp add: host_inv_def good_disk_without all_live_without)
next
  case (crash_acquire s pid st probe g req env r ds d)
  then show ?case
    using acquire_good [OF cd crash_acquire.hyps(2) _ crash_acquire.hyps(1,3,4) _ crash_acquire.hyps(5)]
    by (auto simp: host_inv_def good_disk_without all_live_without)
next
  case (crash_release h am s probe g env tag r gr' ds d)
  have d: "good_disk inst cd d (remove1 (h, am) (held s))"
    using release_good(2) [OF cd crash_release.hyps(2) _ crash_release.hyps(1,3) _ crash_release.hyps(4,5)]
      crash_release.prems by (simp add: host_inv_def)
  have "need (without (hid_pid h) (held s)) h' n \<le> need (remove1 (h, am) (held s)) h' n" for h' n
    using need_remove1 [OF crash_release.hyps(1), of h' n] by (cases "h' = h") (auto simp: need_without)
  moreover have "remove1 (h, am) (held s) = [] \<Longrightarrow> without (hid_pid h) (held s) = []"
    using crash_release.hyps(1) by (cases "held s") (auto simp: without_def split: if_splits)
  ultimately have "good_disk inst cd d (without (hid_pid h) (held s))"
    by (rule good_disk_mono [OF d])
  then show ?case using crash_release.prems by (simp add: host_inv_def all_live_without)
next
  case (spawn s pid st)
  then show ?case by (force simp: host_inv_def all_live_def split_beta)
qed

lemma host_reachable_inv:
  assumes "codec_ok cd"
  shows "host_reachable inst cd s \<Longrightarrow> host_inv inst cd s"
proof (induction rule: host_reachable.induct)
  case (start s)
  then show ?case by (simp add: host_inv_def all_live_def good_disk_def)
next
  case (step s s')
  then show ?case using host_step_inv [OF assms] by blast
qed

text \<open>What the live processes hold on an axis, in all.\<close>

definition granted :: "(holder_id \<times> amounts) list \<Rightarrow> axis \<Rightarrow> nat" where
  "granted hs a = (\<Sum>(h, am)\<leftarrow>hs. \<Sum>(b, v)\<leftarrow>am. if b = a then unat v else 0)"

lemma granted_named: "granted hs a = (\<Sum>(h, am)\<leftarrow>hs. named am (axis_display a))"
  by (simp add: granted_def named_def axis_display_inj)

lemma granted_le_total:
  assumes "covers l hs"
  shows "granted hs a \<le> total l (axis_display a)"
proof -
  let ?n = "axis_display a" and ?H = "fst ` set hs"
  have "granted hs a = (\<Sum>h\<in>?H. \<Sum>x\<leftarrow>hs. if fst x = h then named (snd x) ?n else 0)"
    unfolding granted_named split_beta by (rule sum_list_group) simp_all
  also have "\<dots> = (\<Sum>h\<in>?H. need hs h ?n)" unfolding need_def split_beta ..
  also have "\<dots> \<le> (\<Sum>h\<in>?H. amt l h ?n)" using assms by (intro sum_mono) (simp add: covers_def)
  also have "\<dots> \<le> total l ?n" by (rule sum_amt_le_total) simp
  finally show ?thesis .
qed


section \<open>A concrete machine\<close>

text \<open>One process asks an enforcing gate of 100 bytes for 10; the file holds the ledger itself.\<close>

definition gate100 :: gate where
  "gate100 = gate_new ''boot'' [(HostBytes, 100)] Enforce"

definition one_probe :: prober where
  "one_probe pids p = (if p = 7 then Some (Alive 3) else Some Dead)"

definition machine0 :: "ledger option host" where
  "machine0 = \<lparr>hdisk = \<lparr>target = None, temp = None\<rparr>, procs = [7 \<mapsto> 3], held = []\<rparr>"

definition ask10 :: "(refusal + grant) \<times> ledger option disk list" where
  "ask10 = try_acquire quiet plain_codec one_probe 7 gate100 (want HostBytes 10 (request_new ''job''))
     \<lparr>target = None, temp = None\<rparr>"

definition machine1 :: "ledger option host" where
  "machine1 = machine0\<lparr>hdisk := last (hdisk machine0 # snd ask10), held := acquired (fst ask10) @ held machine0\<rparr>"

lemma plain_codec_ok: "codec_ok plain_codec"
  by (simp add: codec_ok_def plain_codec_def)

lemma one_probe_sound: "probe_sound [7 \<mapsto> 3] one_probe"
  by (auto simp: probe_sound_def one_probe_def split: if_splits)

lemma machine1_reachable: "host_reachable ''boot'' plain_codec machine1"
proof -
  have "host_reachable ''boot'' plain_codec machine0"
    by (rule host_reachable.start) (simp_all add: machine0_def)
  moreover have "host_step ''boot'' plain_codec machine0 machine1"
    unfolding machine1_def
  proof (rule host_step.acquire)
    show "procs machine0 7 = Some 3" "probe_sound (procs machine0) one_probe"
      using one_probe_sound by (simp_all add: machine0_def)
    show "enforcing ''boot'' gate100" by (simp add: enforcing_def gate100_def gate_new_def)
    show "bt_sorted (req_amounts (want HostBytes 10 (request_new ''job'')))"
      by (rule want_sorted) (simp add: request_new_def bt_sorted_def)
    show "try_acquire quiet plain_codec one_probe 7 gate100 (want HostBytes 10 (request_new ''job'')) (hdisk machine0) =
        (fst ask10, snd ask10)"
      by (simp add: ask10_def machine0_def)
  qed
  ultimately show ?thesis by (rule host_reachable.step)
qed

lemmas run_defs = ask10_def try_acquire_def gate100_def gate_new_def self_start_def one_probe_def with_lock_def
  quiet_def plain_codec_def store_read_def store_write_def acquire_tx_def prune_def ledger_new_def caps_of_def
  bt_collect_def reconcile_caps_def led_cap_def price_def charge_def charge_holder_def position_def want_def
  request_new_def axis_display_def bt_get_or_def bt_get_def add_amounts_def sat_add_def sat_sub_def charged_enforcing_def
  machine0_def machine1_def acquired_def

lemma want10: "req_amounts (want HostBytes 10 (request_new ''job'')) = [(HostBytes, 10)]"
  by (simp add: run_defs)

lemma machine1_held: "held machine1 = [(\<lparr>hid_pid = 7, hid_start = 3\<rparr>, [(HostBytes, 10)])]"
  by (simp add: run_defs Let_def)

lemma machine1_file: "\<exists>l. target (hdisk machine1) = Some (Some l)"
  by (simp add: run_defs Let_def)

section \<open>Properties\<close>

text \<open>C10: The budget is never overcommitted: in every state the machine reaches, through any
  interleaving of acquisitions, releases, transfers to live children, status calls, crashes (also
  in the middle of a transaction), recycled pids and failing system calls, by enforcing gates of one boot
  and with transfers only to children whose start time can be read, the ledger is readable
  and on every axis the sum of what live processes hold is at most the cap in force.\<close>

theorem no_overcommit:
  assumes "codec_ok cd" "host_reachable inst cd s" "target (hdisk s) = Some c"
  shows "\<exists>l. from_json cd c = Some l \<and> (\<forall>a. granted (held s) a \<le> unat (led_cap l a))"
proof -
  have "good_disk inst cd (hdisk s) (held s)"
    using host_reachable_inv [OF assms(1,2)] by (simp add: host_inv_def)
  then obtain l where l: "from_json cd c = Some l" "led_inv l" "covers l (held s)"
    using assms(3) by (auto simp: good_disk_def good_ledger_def)
  have "granted (held s) a \<le> unat (led_cap l a)" for a
    using granted_le_total [OF l(3), of a] l(2)
    by (auto simp: led_inv_def led_cap_def elim: order_trans)
  with l show ?thesis by blast
qed

theorem no_overcommit_witness:
  "\<exists>l. target (hdisk machine1) = Some (Some l) \<and> (\<forall>a. granted (held machine1) a \<le> unat (led_cap l a))"
proof -
  obtain l where l: "target (hdisk machine1) = Some (Some l)" using machine1_file by blast
  from no_overcommit [OF plain_codec_ok machine1_reachable l] l show ?thesis by (simp add: plain_codec_def)
qed

text \<open>C17: The accounting covers reality: in every state reachable by enforcing gates of one boot that
  transfer only to children whose start time can be read, a grant is held only by a live
  process, what each holder's record charges on an axis is at least what that holder's live grants
  sum to, so no crash or pruning by others ever frees memory still in use, and a missing file means
  that nothing is held.\<close>

theorem accounting_covers_reality:
  assumes "codec_ok cd" "host_reachable inst cd s"
  shows "all_live (procs s) (held s) \<and>
    (case target (hdisk s) of None \<Rightarrow> held s = []
     | Some c \<Rightarrow> (\<exists>l. from_json cd c = Some l \<and>
         (\<forall>h a. need (held s) h (axis_display a) \<le> amt l h (axis_display a))))"
  using host_reachable_inv [OF assms]
  by (auto simp: host_inv_def good_disk_def covers_def split: option.splits)

theorem accounting_covers_reality_witness:
  "held machine1 = [(\<lparr>hid_pid = 7, hid_start = 3\<rparr>, [(HostBytes, 10)])] \<and> all_live (procs machine1) (held machine1)"
proof -
  show ?thesis using accounting_covers_reality [OF plain_codec_ok machine1_reachable] machine1_held by simp
qed

text \<open>C13: The verdict of an enforcing acquisition on a sound ledger is exact: with the pruned ledger
  and its cap and charge per axis, the request is called too large exactly when some amount exceeds
  the cap, whatever is free; otherwise busy exactly when some amount exceeds what is free; and
  otherwise it is granted.\<close>

theorem acquire_verdict_exact:
  assumes "led_inv l" "gate_mode g = Enforce"
    and "l2 = fst (reconcile_caps (prune probe l) (gate_caps g))"
  shows "fst (snd (acquire_tx probe g me req l)) =
    (if \<exists>(a, v) \<in> set (req_amounts req). led_cap l2 a < v
     then Inl (the (price_caps l2 (req_amounts req)))
     else if \<exists>(a, v) \<in> set (req_amounts req). unat (led_cap l2 a) - total l2 (axis_display a) < unat v
     then Inl (the (price_free l2 (req_amounts req)))
     else Inr ()) \<and>
    (\<forall>r. price_caps l2 (req_amounts req) = Some r \<longrightarrow> \<not> retryable r) \<and>
    (\<forall>r. price_free l2 (req_amounts req) = Some r \<longrightarrow> retryable r)"
proof -
  have inv: "led_inv l2" unfolding assms(3) using assms(1) by (intro reconcile_inv prune_inv)
  have free: "(sat_sub (led_cap l2 a) (charged_enforcing l2 a) < v) =
      (unat (led_cap l2 a) - total l2 (axis_display a) < unat v)" for a v
    by (simp add: word_less_nat_alt unat_sat_sub charged_enforcing_total [OF inv])
  have caps: "(price_caps l2 am = None) = (\<not> (\<exists>(a, v) \<in> set am. led_cap l2 a < v))" for am
    by (auto simp: price_caps_None not_less)
  have frees: "(price_free l2 am = None) =
      (\<not> (\<exists>(a, v) \<in> set am. unat (led_cap l2 a) - total l2 (axis_display a) < unat v))" for am
  proof (induction am)
    case (Cons av am)
    then show ?case by (cases av) (auto simp: Let_def free)
  qed simp
  have verdict: "fst (snd (acquire_tx probe g me req l)) = (case price l2 req of Some r \<Rightarrow> Inl r | None \<Rightarrow> Inr ())"
    using assms(2) by (simp add: acquire_tx_def Let_def assms(3) [symmetric] split: option.split)
  show ?thesis
    unfolding verdict price_def
    using caps [of "req_amounts req"] frees [of "req_amounts req"]
      price_caps_Some [of l2 "req_amounts req"] price_free_Some [of l2 "req_amounts req"]
    by (auto split: option.splits)
qed

theorem acquire_verdict_exact_witness:
  "fst (snd (acquire_tx one_probe gate100 \<lparr>hid_pid = 7, hid_start = 3\<rparr> (want HostBytes 10 (request_new ''job''))
     (ledger_new ''boot'' [(HostBytes, 100)]))) = Inr ()"
proof -
  let ?l = "ledger_new ''boot'' [(HostBytes, 100)]"
  have g: "gate_mode gate100 = Enforce" by (simp add: gate100_def gate_new_def)
  have l2: "?l = fst (reconcile_caps (prune one_probe ?l) (gate_caps gate100))" by (simp add: run_defs)
  have c: "led_cap ?l HostBytes = 100" by (simp add: run_defs)
  have t: "total ?l n = 0" for n by (simp add: total_def ledger_new_def)
  show ?thesis
    using acquire_verdict_exact [OF ledger_new_inv(1) g l2, of "\<lparr>hid_pid = 7, hid_start = 3\<rparr>"
        "want HostBytes 10 (request_new ''job'')"]
    by (simp add: want10 c t)
qed

text \<open>A release returns exactly what the grant took: charging a request that fits and then
  discharging the same amounts leaves every holder's charge and every axis total as they were.\<close>

theorem charge_discharge_roundtrip:
  assumes "led_inv l" "price l req = None" "bt_sorted (req_amounts req)"
  shows "amt (discharge me (req_amounts req) (charge me req False l)) h n = amt l h n \<and>
    total (discharge me (req_amounts req) (charge me req False l)) n = total l n \<and>
    led_inv (discharge me (req_amounts req) (charge me req False l))"
proof -
  note room = price_room [OF assms]
  note c = charge_holder_inv [OF assms(1) room, of me "req_tag req", folded charge_def]
  note d = discharge_inv [OF c(1), of me "req_amounts req"]
  have "total (charge me req False l) n = total l n + named (req_amounts req) n"
    using charge_holder_total [OF assms(1) room, of me "req_tag req" n] by (simp add: charge_def)
  then show ?thesis
    using d(1) d(2) [of h n] d(3) [of n] c(2) [of h n] c(2) [of me n] by simp
qed

theorem charge_discharge_roundtrip_witness:
  "total (discharge \<lparr>hid_pid = 7, hid_start = 3\<rparr> [(HostBytes, 10)]
     (charge \<lparr>hid_pid = 7, hid_start = 3\<rparr> (want HostBytes 10 (request_new ''job'')) False
       (ledger_new ''boot'' [(HostBytes, 100)]))) ''host_bytes'' = 0"
proof -
  let ?l = "ledger_new ''boot'' [(HostBytes, 100)]" and ?r = "want HostBytes 10 (request_new ''job'')"
  have "price ?l ?r = None" by (simp add: run_defs Let_def)
  moreover have "bt_sorted (req_amounts ?r)" by (simp add: want10 bt_sorted_def)
  moreover have "total ?l ''host_bytes'' = 0" by (simp add: total_def ledger_new_def)
  ultimately show ?thesis
    using charge_discharge_roundtrip [OF ledger_new_inv(1), of "''boot''" "[(HostBytes, 100)]" ?r] by (simp add: want10)
qed

text \<open>C27: The gate fails closed: over a ledger file that is blank, does not parse or has another
  schema, an enforcing gate refuses every acquisition, its report is an error rather than an empty
  list, its circuit admission refuses, and the file is left as it is.\<close>

theorem gate_fails_closed:
  assumes "enforcing inst g" "target d = Some c"
    and "blank cd c \<or> from_json cd c = None \<or> (\<exists>l. from_json cd c = Some l \<and> led_schema l \<noteq> SCHEMA)"
  shows "\<exists>why why' why''. try_acquire env cd probe pid g req d = (Inl (Unavailable why), []) \<and>
    capacity env cd probe g d = (Inl (Unavailable why'), []) \<and>
    admit_circuit env cd probe g n d = (Some (why'', False), [])"
proof -
  have w: "\<exists>e. with_lock env cd (gate_instance g) (gate_caps g) f d = (Inl e, [])"
    for f :: "ledger \<Rightarrow> ledger \<times> 'x \<times> bool"
    using assms(2,3) by (auto simp: with_lock_def store_read_def split: option.splits)
  obtain why' where cap: "capacity env cd probe g d = (Inl (Unavailable why'), [])"
    using assms(1) w [of "capacity_tx probe g"] by (auto simp: capacity_def enforcing_def)
  have "\<exists>why. try_acquire env cd probe pid g req d = (Inl (Unavailable why), [])"
  proof (cases "self_start probe pid")
    case (Some start)
    obtain e where "with_lock env cd (gate_instance g) (gate_caps g)
        (acquire_tx probe g \<lparr>hid_pid = pid, hid_start = start\<rparr> req) d = (Inl e, [])"
      using w by blast
    then show ?thesis using assms(1) Some by (simp add: try_acquire_def enforcing_def)
  qed (use assms(1) in \<open>simp add: try_acquire_def enforcing_def\<close>)
  then show ?thesis using cap by (auto simp: admit_circuit_def core_refusal_def)
qed

theorem gate_fails_closed_witness:
  "\<exists>why. capacity quiet plain_codec one_probe gate100 \<lparr>target = Some None, temp = None\<rparr> = (Inl (Unavailable why), [])"
proof -
  have "enforcing ''boot'' gate100" by (simp add: enforcing_def gate100_def gate_new_def)
  then show ?thesis
    using gate_fails_closed [of "''boot''" gate100 "\<lparr>target = Some None, temp = None\<rparr>" None plain_codec quiet one_probe]
    by (simp add: plain_codec_def)
qed

text \<open>An advisory process cannot spend the budget it does not honour: its acquisition is never
  refused, and when the process has no record yet it leaves the enforcing charge of every axis as
  the pruning left it.\<close>

theorem advisory_spends_nothing:
  assumes "gate_mode g = Advisory" "position me (prune probe l) = None"
  shows "fst (snd (acquire_tx probe g me req l)) = Inr () \<and>
    charged_enforcing (fst (acquire_tx probe g me req l)) a = charged_enforcing (prune probe l) a"
proof -
  let ?l2 = "fst (reconcile_caps (prune probe l) (gate_caps g))"
  have tx: "acquire_tx probe g me req l = (charge_holder me (req_amounts req) (req_tag req) True ?l2, Inr (), True)"
    using assms(1) by (simp add: acquire_tx_def charge_def Let_def)
  have none: "position me ?l2 = None" using assms(2) by (simp add: position_def ledger_simps)
  show ?thesis
    unfolding tx using none
    by (cases rule: charge_holder_cases [of me ?l2 "req_amounts req" "req_tag req" True])
      (simp_all add: charged_enforcing_def ledger_simps)
qed

theorem advisory_spends_nothing_witness:
  "charged_enforcing (fst (acquire_tx one_probe (gate_new ''boot'' [(HostBytes, 100)] Advisory)
     \<lparr>hid_pid = 7, hid_start = 3\<rparr> (want HostBytes 500 (request_new ''job'')) (ledger_new ''boot'' [(HostBytes, 100)])))
     HostBytes = 0"
proof -
  let ?g = "gate_new ''boot'' [(HostBytes, 100)] Advisory" and ?l = "ledger_new ''boot'' [(HostBytes, 100)]"
  have p: "prune one_probe ?l = ?l" by (simp add: prune_def ledger_new_def)
  have "gate_mode ?g = Advisory" by (simp add: gate_new_def)
  moreover have "position \<lparr>hid_pid = 7, hid_start = 3\<rparr> (prune one_probe ?l) = None"
    unfolding p by (simp add: position_def ledger_new_def)
  ultimately have "charged_enforcing (fst (acquire_tx one_probe ?g \<lparr>hid_pid = 7, hid_start = 3\<rparr>
      (want HostBytes 500 (request_new ''job'')) ?l)) HostBytes = charged_enforcing (prune one_probe ?l) HostBytes"
    using advisory_spends_nothing by blast
  then show ?thesis unfolding p by (simp add: charged_enforcing_def ledger_new_def)
qed

section \<open>Two consequences of the transfer\<close>

text \<open>A transferred grant is always recorded as enforcing: handing over an advisory grant to a
  process without a record charges the enforcing budget with it.\<close>

theorem advisory_transfer_charges_enforcing:
  assumes "position h (discharge from am l) = None"
  shows "\<exists>r. led_holders (charge_holder h am tag False (discharge from am l)) =
      led_holders (discharge from am l) @ [r] \<and> \<not> is_advisory r \<and> rec_holder r = h \<and>
      rec_amounts r = add_amounts am []"
  using assms
  by (cases rule: charge_holder_cases [of h "discharge from am l" am tag False]) auto

text \<open>A grant transferred to a process whose start time could not be read is recorded under start
  time 0, and the first probe that can read the start time prunes it although the process lives.\<close>

theorem unknown_transfer_pruned:
  assumes "transfer_target probe pid = Some h" "probe [pid] pid = Some Unknown" "st \<noteq> 0"
  shows "\<not> matches h (Alive st)"
  using assms by (auto simp: transfer_target_def matches_def)

end
