(* ===== verification/HostConfig.thy ===== *)
theory HostConfig
  imports Complex_Main HostGate
begin

text \<open>
  The configuration of \<^verbatim>\<open>crates/omega-hostgate/src/config.rs\<close>.  The environment and what the
  machine says about itself are arguments.  A floating-point fraction is a real number or one of
  the two non-finite cases; \<open>rnd\<close> is the rounding of a floating-point operation and \<open>parse_f64\<close>
  the standard library's reader.  Errors carry the key and the kind of the message.
\<close>

datatype ceiling_kind = Ceiling_host | Ceiling_cgroup

datatype provenance = From_env string | From_profile | From_detected | From_cgroup | From_default ceiling_kind

fun provenance_label :: "provenance \<Rightarrow> string" where
  "provenance_label (From_env n) = ''env:'' @ n"
| "provenance_label From_profile = ''profile''"
| "provenance_label From_detected = ''detected''"
| "provenance_label From_cgroup = ''cgroup''"
| "provenance_label (From_default Ceiling_host) = ''default''"
| "provenance_label (From_default Ceiling_cgroup) = ''default, of cgroup''"

definition DEFAULT_MEM_RESERVE_FLOOR :: u64 where "DEFAULT_MEM_RESERVE_FLOOR = push_bit 30 4"
definition DEFAULT_MEM_RESERVE_CEILING :: u64 where "DEFAULT_MEM_RESERVE_CEILING = push_bit 30 8"

text \<open>\<open>clamp\<close> panics when its bounds are the wrong way round.\<close>

definition clamp :: "u64 \<Rightarrow> u64 \<Rightarrow> u64 \<Rightarrow> u64 option" where
  "clamp v lo hi = (if hi < lo then None else Some (if v < lo then lo else if hi < v then hi else v))"

definition default_host_bytes :: "u64 \<Rightarrow> u64 option" where
  "default_host_bytes ceil =
     (if ceil \<le> 1 then Some ceil
      else let proportional = ceil div 8;
               quarter = ceil div 4;
               flr = max (min DEFAULT_MEM_RESERVE_FLOOR quarter) 1
           in case clamp proportional flr DEFAULT_MEM_RESERVE_CEILING of
                None \<Rightarrow> None
              | Some reserve \<Rightarrow> Some (max (sat_sub ceil reserve) 1))"

record limit =
  lim_value :: u64
  lim_from :: provenance

definition host_memory_default :: "u64 \<Rightarrow> provenance \<Rightarrow> limit option" where
  "host_memory_default ceil from =
     map_option (\<lambda>v. \<lparr>lim_value = v,
       lim_from = From_default (if from = From_cgroup then Ceiling_cgroup else Ceiling_host)\<rparr>)
       (default_host_bytes ceil)"

datatype profile = Gentle | Balanced | Greedy

fun profile_fraction :: "profile \<Rightarrow> real" where
  "profile_fraction Gentle = 1 / 4"
| "profile_fraction Balanced = 1 / 2"
| "profile_fraction Greedy = 9 / 10"

definition profile_parse :: "string \<Rightarrow> string + profile" where
  "profile_parse s =
     (let t = to_ascii_lowercase (trim s)
      in if t = ''gentle'' then Inr Gentle
         else if t = ''balanced'' then Inr Balanced
         else if t = ''greedy'' then Inr Greedy
         else Inl t)"

record detected =
  det_host_bytes :: u64
  det_cgroup_bytes :: "u64 option"
  det_cores :: u64
  det_boot_identified :: bool

record config =
  cfg_path :: "string option"
  cfg_mode :: gate_mode
  cfg_caps :: amounts
  cfg_provenance :: "(axis \<times> provenance) list"
  cfg_boot_identified :: bool

datatype value_error = Empty_size | Not_a_size string | Size_overflow string | Not_slots string
  | Not_percentage string | Not_fraction string | Fraction_range string

datatype config_error = Unidentified_boot | Bad_mode string | Bad_profile string
  | Bad_value string value_error | Unknown_size string | Clamp_panic

definition ENV_PATH :: string where "ENV_PATH = ''OMEGA_HOSTGATE''"
definition ENV_MODE :: string where "ENV_MODE = ''OMEGA_HOSTGATE_MODE''"
definition ENV_PROFILE :: string where "ENV_PROFILE = ''OMEGA_HOSTGATE_PROFILE''"
definition ENV_MAX_MEM :: string where "ENV_MAX_MEM = ''OMEGA_HOSTGATE_MAX_MEM''"
definition ENV_MEM_FRACTION :: string where "ENV_MEM_FRACTION = ''OMEGA_HOSTGATE_MEM_FRACTION''"
definition ENV_SLOTS :: string where "ENV_SLOTS = ''OMEGA_HOSTGATE_SLOTS''"
definition ENV_CPU_FRACTION :: string where "ENV_CPU_FRACTION = ''OMEGA_HOSTGATE_CPU_FRACTION''"

section \<open>Reading values\<close>

definition suffix_mult :: "char \<Rightarrow> u64 option" where
  "suffix_mult c =
     (if c \<in> {CHR ''K'', CHR ''k''} then Some (push_bit 10 1)
      else if c \<in> {CHR ''M'', CHR ''m''} then Some (push_bit 20 1)
      else if c \<in> {CHR ''G'', CHR ''g''} then Some (push_bit 30 1)
      else if c \<in> {CHR ''T'', CHR ''t''} then Some (push_bit 40 1)
      else None)"

definition parse_bytes :: "string \<Rightarrow> value_error + u64" where
  "parse_bytes s =
     (let t = trim s in
      if t = [] then Inl Empty_size
      else let (digits, mult) = (case suffix_mult (last t) of
                 Some m \<Rightarrow> (butlast t, m) | None \<Rightarrow> (t, 1))
           in case parse_u64 (trim digits) of
                None \<Rightarrow> Inl (Not_a_size s)
              | Some n \<Rightarrow> (case checked_mul n mult of None \<Rightarrow> Inl (Size_overflow s) | Some v \<Rightarrow> Inr v))"

definition parse_slots :: "string \<Rightarrow> value_error + u64" where
  "parse_slots s = (case parse_u64 (trim s) of Some v \<Rightarrow> Inr v | None \<Rightarrow> Inl (Not_slots s))"

datatype f64 = Finite real | Infinite | Not_a_number

definition parse_fraction :: "(string \<Rightarrow> f64 option) \<Rightarrow> (real \<Rightarrow> real) \<Rightarrow> string \<Rightarrow> value_error + real" where
  "parse_fraction parse_f64 rnd s =
     (let t = trim s;
          r = (if t \<noteq> [] \<and> last t = CHR ''%''
               then (case parse_f64 (trim (butlast t)) of
                       None \<Rightarrow> Inl (Not_percentage s)
                     | Some (Finite x) \<Rightarrow> Inr (Finite (rnd (x / 100)))
                     | Some f \<Rightarrow> Inr f)
               else (case parse_f64 t of None \<Rightarrow> Inl (Not_fraction s) | Some f \<Rightarrow> Inr f))
      in case r of
           Inl e \<Rightarrow> Inl e
         | Inr (Finite x) \<Rightarrow> if x \<le> 0 \<or> 1 < x then Inl (Fraction_range s) else Inr x
         | Inr _ \<Rightarrow> Inl (Fraction_range s))"

text \<open>The cast to an unsigned integer saturates.\<close>

definition f64_as_u64 :: "real \<Rightarrow> u64" where
  "f64_as_u64 x = (if x < 0 then 0 else if 2 ^ 64 \<le> x then - 1 else of_int \<lfloor>x\<rfloor>)"

definition scale :: "(real \<Rightarrow> real) \<Rightarrow> u64 \<Rightarrow> real \<Rightarrow> u64" where
  "scale rnd whole f =
     (let v = f64_as_u64 (of_int \<lfloor>rnd (rnd (of_nat (unat whole)) * f)\<rfloor>)
      in if 0 < whole then max v 1 else 0)"

section \<open>Resolving\<close>

definition resolve_axis :: "(string \<Rightarrow> f64 option) \<Rightarrow> (real \<Rightarrow> real) \<Rightarrow> (string \<Rightarrow> string option) \<Rightarrow>
    string \<Rightarrow> string \<Rightarrow> profile option \<Rightarrow> u64 option \<Rightarrow> provenance \<Rightarrow> (string \<Rightarrow> value_error + u64) \<Rightarrow>
    (u64 \<Rightarrow> provenance \<Rightarrow> limit option) \<Rightarrow> config_error + limit" where
  "resolve_axis parse_f64 rnd get abs_key frac_key prof det det_from parse_abs fallback =
     (case get abs_key of
        Some v \<Rightarrow>
          (case parse_abs v of
             Inl e \<Rightarrow> Inl (Bad_value abs_key e)
           | Inr value \<Rightarrow> Inr \<lparr>lim_value = (case det of Some d \<Rightarrow> min value d | None \<Rightarrow> value),
                               lim_from = From_env abs_key\<rparr>)
      | None \<Rightarrow>
          (case det of
             None \<Rightarrow> Inl (Unknown_size abs_key)
           | Some d \<Rightarrow>
               (case get frac_key of
                  Some v \<Rightarrow>
                    (case parse_fraction parse_f64 rnd v of
                       Inl e \<Rightarrow> Inl (Bad_value frac_key e)
                     | Inr f \<Rightarrow> Inr \<lparr>lim_value = scale rnd d f, lim_from = From_env frac_key\<rparr>)
                | None \<Rightarrow>
                    (case prof of
                       Some p \<Rightarrow> Inr \<lparr>lim_value = scale rnd d (profile_fraction p), lim_from = From_profile\<rparr>
                     | None \<Rightarrow> (case fallback d det_from of Some l \<Rightarrow> Inr l | None \<Rightarrow> Inl Clamp_panic)))))"

definition trim_end_slash :: "string \<Rightarrow> string" where
  "trim_end_slash s = rev (dropWhile (\<lambda>c. c = CHR ''/'') (rev s))"

definition is_per_boot_path :: "string \<Rightarrow> (string \<Rightarrow> string option) \<Rightarrow> bool" where
  "is_per_boot_path p get =
     ((case get ''XDG_RUNTIME_DIR'' of
         Some rt \<Rightarrow> (let rt' = trim_end_slash rt in rt' \<noteq> [] \<and> starts_with (rt' @ ''/'') p)
       | None \<Rightarrow> False)
      \<or> list_ex (\<lambda>pre. starts_with pre p) [''/run/'', ''/var/run/'', ''/dev/shm/''])"

definition detected_memory :: "detected \<Rightarrow> u64 \<times> provenance" where
  "detected_memory d =
     (case det_cgroup_bytes d of
        Some c \<Rightarrow> if c < det_host_bytes d then (c, From_cgroup) else (det_host_bytes d, From_detected)
      | None \<Rightarrow> (det_host_bytes d, From_detected))"

definition nonzero :: "u64 \<Rightarrow> u64 option" where
  "nonzero v = (if v = 0 then None else Some v)"

definition resolve :: "(string \<Rightarrow> f64 option) \<Rightarrow> (real \<Rightarrow> real) \<Rightarrow> (string \<Rightarrow> string option) \<Rightarrow> detected \<Rightarrow>
    config_error + config" where
  "resolve parse_f64 rnd get d =
     (case (case get ENV_PATH of Some s \<Rightarrow> if trim s = [] then None else Some s | None \<Rightarrow> None) of
        None \<Rightarrow> Inr \<lparr>cfg_path = None, cfg_mode = Off, cfg_caps = [], cfg_provenance = [], cfg_boot_identified = True\<rparr>
      | Some path \<Rightarrow>
          if \<not> det_boot_identified d \<and> \<not> is_per_boot_path path get then Inl Unidentified_boot
          else case (case get ENV_MODE of Some v \<Rightarrow> mode_parse v | None \<Rightarrow> Inr Enforce) of
            Inl e \<Rightarrow> Inl (Bad_mode e)
          | Inr mode \<Rightarrow>
              (case (case get ENV_PROFILE of Some v \<Rightarrow> (case profile_parse v of Inl e \<Rightarrow> Inl e | Inr p \<Rightarrow> Inr (Some p))
                     | None \<Rightarrow> Inr None) of
                 Inl e \<Rightarrow> Inl (Bad_profile e)
               | Inr prof \<Rightarrow>
                   let (mem, mem_from) = detected_memory d in
                   (case resolve_axis parse_f64 rnd get ENV_MAX_MEM ENV_MEM_FRACTION prof (nonzero mem) mem_from
                           parse_bytes host_memory_default of
                      Inl e \<Rightarrow> Inl e
                    | Inr m \<Rightarrow>
                        (case resolve_axis parse_f64 rnd get ENV_SLOTS ENV_CPU_FRACTION prof (nonzero (det_cores d))
                                From_detected parse_slots (\<lambda>whole from. Some \<lparr>lim_value = whole, lim_from = from\<rparr>) of
                           Inl e \<Rightarrow> Inl e
                         | Inr s \<Rightarrow> Inr \<lparr>cfg_path = Some path, cfg_mode = mode,
                             cfg_caps = bt_insert Slots (lim_value s) (bt_insert HostBytes (lim_value m) []),
                             cfg_provenance = [(HostBytes, lim_from m), (Slots, lim_from s)],
                             cfg_boot_identified = det_boot_identified d\<rparr>))))"

definition into_gate :: "string \<Rightarrow> config \<Rightarrow> gate" where
  "into_gate boot c = (case cfg_path c of None \<Rightarrow> gate_off | Some _ \<Rightarrow> gate_new boot (cfg_caps c) (cfg_mode c))"

section \<open>Detection on Linux\<close>

definition boot_id :: "string option \<Rightarrow> string" where
  "boot_id file = (case file of Some s \<Rightarrow> if trim s \<noteq> [] then trim s else ''unknown-boot'' | None \<Rightarrow> ''unknown-boot'')"

definition detect_host_bytes :: "string option \<Rightarrow> u64" where
  "detect_host_bytes meminfo =
     (case meminfo of None \<Rightarrow> 0 | Some s \<Rightarrow>
      case find (starts_with ''MemTotal:'') (text_lines s) of None \<Rightarrow> 0 | Some l \<Rightarrow>
      (let fs = split_whitespace l in
       if 1 < length fs
       then (case parse_u64 (fs ! 1) of Some kb \<Rightarrow> kb * 1024 | None \<Rightarrow> 0)
       else 0))"

definition cgroup_relative :: "string option \<Rightarrow> string option" where
  "cgroup_relative self_cgroup =
     (case self_cgroup of None \<Rightarrow> None | Some s \<Rightarrow>
      case find (starts_with ''0::'') (text_lines s) of None \<Rightarrow> None | Some l \<Rightarrow>
      (let p = trim (drop 3 l) in if starts_with ''/'' p \<and> p \<noteq> ''/'' then Some p else None))"

fun first_limit :: "(string \<Rightarrow> string option) \<Rightarrow> string list \<Rightarrow> u64 option" where
  "first_limit files [] = None"
| "first_limit files (p # ps) =
     (case files p of
        None \<Rightarrow> first_limit files ps
      | Some s \<Rightarrow>
          if trim s = ''max'' then first_limit files ps
          else case parse_u64 (trim s) of
                 None \<Rightarrow> first_limit files ps
               | Some v \<Rightarrow> if 0 < v \<and> v < push_bit 62 1 then Some v else first_limit files ps)"

definition detect_cgroup_bytes :: "(string \<Rightarrow> string option) \<Rightarrow> u64 option" where
  "detect_cgroup_bytes files =
     first_limit files
       ((case cgroup_relative (files ''/proc/self/cgroup'') of
           Some rel \<Rightarrow> [''/sys/fs/cgroup'' @ rel @ ''/memory.max''] | None \<Rightarrow> []) @
        [''/sys/fs/cgroup/memory.max'', ''/sys/fs/cgroup/memory/memory.limit_in_bytes''])"

lemma trim_no_ws: "(\<And>c. c \<in> set s \<Longrightarrow> \<not> is_ws c) \<Longrightarrow> trim s = s"
proof -
  assume h: "\<And>c. c \<in> set s \<Longrightarrow> \<not> is_ws c"
  have "dropWhile is_ws t = t" if "\<And>c. c \<in> set t \<Longrightarrow> \<not> is_ws c" for t
    using that by (cases t) auto
  from this [of s] this [of "rev s"] h show ?thesis by (simp add: trim_def trim_start_def trim_end_def)
qed

section \<open>The default reserve\<close>

definition reserve_nat :: "nat \<Rightarrow> nat" where
  "reserve_nat c = max (max (min (2 ^ 32) (c div 4)) 1) (min (c div 8) (2 ^ 33))"

lemma unat_max: "unat (max a b) = max (unat a) (unat (b :: u64))"
  by (simp add: max_def word_le_nat_alt)

lemma unat_min: "unat (min a b) = min (unat a) (unat (b :: u64))"
  by (simp add: min_def word_le_nat_alt)

lemma reserve_consts: "unat DEFAULT_MEM_RESERVE_FLOOR = 2 ^ 32" "unat DEFAULT_MEM_RESERVE_CEILING = 2 ^ 33"
  by (simp_all add: DEFAULT_MEM_RESERVE_FLOOR_def DEFAULT_MEM_RESERVE_CEILING_def)

lemma default_host_bytes_nat:
  "\<exists>v. default_host_bytes c = Some v \<and>
     unat v = (if unat c \<le> 1 then unat c else max (unat c - reserve_nat (unat c)) 1)"
proof (cases "c \<le> 1")
  case True
  then have "unat c \<le> 1" by (simp add: word_le_nat_alt)
  then show ?thesis using True by (simp add: default_host_bytes_def)
next
  case False
  then have c: "\<not> unat c \<le> 1" by (simp add: word_le_nat_alt)
  let ?f = "max (min DEFAULT_MEM_RESERVE_FLOOR (c div 4)) 1"
  have f: "unat ?f = max (min (2 ^ 32) (unat c div 4)) 1"
    by (simp add: unat_max unat_min reserve_consts unat_div)
  have le: "\<not> DEFAULT_MEM_RESERVE_CEILING < ?f"
    unfolding word_less_nat_alt f reserve_consts by simp
  obtain r where r: "clamp (c div 8) ?f DEFAULT_MEM_RESERVE_CEILING = Some r"
    using le by (simp add: clamp_def)
  have "unat r = reserve_nat (unat c)"
    using r le f unfolding clamp_def reserve_nat_def
    by (auto simp: word_less_nat_alt reserve_consts unat_div split: if_splits)
  then show ?thesis
    using False c r by (simp add: default_host_bytes_def Let_def unat_max unat_sat_sub)
qed

lemma reserve_bounds:
  assumes "1 < c"
  shows "reserve_nat c < c" "reserve_nat c \<le> 2 ^ 33" "min (2 ^ 32) (c div 4) \<le> reserve_nat c" "1 \<le> reserve_nat c"
  using assms by (auto simp: reserve_nat_def max_def min_def)

lemma max_min_step:
  "a' \<le> a + 1 \<Longrightarrow> b' \<le> b + 1 \<Longrightarrow>
   max (max (min k a') 1) (min b' m) \<le> max (max (min k a) 1) (min b m) + (1 :: nat)"
  by (auto simp: max_def min_def)

lemma reserve_mono: "c \<le> c' \<Longrightarrow> c - reserve_nat c \<le> c' - reserve_nat c'"
proof (rule lift_Suc_mono_le [where f = "\<lambda>c. c - reserve_nat c"])
  fix n :: nat
  have "Suc n div 4 \<le> n div 4 + 1" "Suc n div 8 \<le> n div 8 + 1" by linarith+
  then have "reserve_nat (Suc n) \<le> reserve_nat n + 1"
    unfolding reserve_nat_def by (rule max_min_step)
  then show "n - reserve_nat n \<le> Suc n - reserve_nat (Suc n)" by linarith
qed

section \<open>Resolved caps\<close>

text \<open>A rounding that is monotone and exact on the integers a double represents exactly.\<close>

definition rounds :: "(real \<Rightarrow> real) \<Rightarrow> bool" where
  "rounds rnd \<longleftrightarrow> mono rnd \<and> (\<forall>n :: nat. n \<le> 2 ^ 53 \<longrightarrow> rnd (of_nat n) = of_nat n)"

lemma scale_le:
  assumes r: "rounds rnd" and t: "unat whole \<le> 2 ^ 53" and f: "0 < f" "f \<le> 1"
  shows "scale rnd whole f \<le> whole" "0 < whole \<Longrightarrow> 0 < scale rnd whole f"
proof -
  let ?x = "rnd (rnd (of_nat (unat whole)) * f)"
  have ex: "n \<le> 2 ^ 53 \<Longrightarrow> rnd (real n) = real n" for n using r unfolding rounds_def by blast
  have mono: "a \<le> b \<Longrightarrow> rnd a \<le> rnd b" for a b using r monoD unfolding rounds_def by blast
  have e: "rnd (of_nat (unat whole)) = of_nat (unat whole)" by (rule ex [OF t])
  have "real (unat whole) * f \<le> real (unat whole)" using f by (intro mult_left_le) (simp_all del: of_nat_unat)
  then have le: "?x \<le> real (unat whole)" using mono [of "real (unat whole) * f" "real (unat whole)"]
    unfolding e by (simp only:)
  have "rnd 0 = 0" using ex [of 0] by simp
  moreover have "0 \<le> real (unat whole) * f" using f(1) by (intro mult_nonneg_nonneg of_nat_0_le_iff) simp
  ultimately have ge: "0 \<le> ?x" using mono [of 0 "real (unat whole) * f"] unfolding e by simp
  have fl: "0 \<le> \<lfloor>?x\<rfloor>" "\<lfloor>?x\<rfloor> \<le> int (unat whole)" using ge le by (simp_all add: floor_le_iff)
  have big: "real_of_int \<lfloor>?x\<rfloor> < 2 ^ 64"
  proof -
    have "real_of_int \<lfloor>?x\<rfloor> \<le> real (unat whole)" using fl(2) by (metis of_int_le_iff of_int_of_nat_eq)
    moreover have "real (unat whole) \<le> 2 ^ 53" using t by (metis of_nat_le_iff of_nat_numeral of_nat_power)
    moreover have "(2 :: real) ^ 53 < 2 ^ 64" by simp
    ultimately show ?thesis by (rule le_less_trans [OF order_trans])
  qed
  have v: "f64_as_u64 (of_int \<lfloor>?x\<rfloor>) = of_int \<lfloor>?x\<rfloor>"
    using fl(1) big by (simp add: f64_as_u64_def not_le)
  obtain z where z: "\<lfloor>?x\<rfloor> = int z" using fl(1) zero_le_imp_eq_int by blast
  then have zle: "z \<le> unat whole" using fl(2) by (simp only: of_nat_le_iff)
  then have "z < 2 ^ 64" using t by (rule le_less_trans [OF order_trans]) simp
  then have u: "unat (of_int \<lfloor>?x\<rfloor> :: u64) = z" unfolding z of_int_of_nat_eq by (rule unat_u64_of_nat)
  have one: "0 < whole \<Longrightarrow> 1 \<le> unat whole" by (simp add: word_less_nat_alt Suc_le_eq)
  show "scale rnd whole f \<le> whole"
    unfolding scale_def Let_def v using zle u one by (auto simp: word_le_nat_alt unat_max)
  show "0 < whole \<Longrightarrow> 0 < scale rnd whole f"
    unfolding scale_def Let_def v by (simp add: word_less_nat_alt unat_max)
qed

lemma parse_fraction_range:
  "parse_fraction parse_f64 rnd s = Inr f \<Longrightarrow> 0 < f \<and> f \<le> 1"
  by (auto simp: parse_fraction_def Let_def split: sum.splits f64.splits if_splits option.splits)

lemma profile_fraction_range: "0 < profile_fraction p \<and> profile_fraction p \<le> 1"
  by (cases p) simp_all

lemma default_le:
  "host_memory_default d from = Some l \<Longrightarrow> lim_value l \<le> d"
proof -
  assume h: "host_memory_default d from = Some l"
  obtain v where v: "default_host_bytes d = Some v"
    "unat v = (if unat d \<le> 1 then unat d else max (unat d - reserve_nat (unat d)) 1)"
    using default_host_bytes_nat by blast
  then have "unat v \<le> unat d" by auto
  then show ?thesis using h v(1) by (auto simp: host_memory_default_def word_le_nat_alt)
qed

lemma resolve_axis_le:
  assumes "resolve_axis parse_f64 rnd get ak fk prof (Some d) from pa fb = Inr l"
    and "rounds rnd" "unat d \<le> 2 ^ 53" "\<And>l. fb d from = Some l \<Longrightarrow> lim_value l \<le> d"
  shows "lim_value l \<le> d"
  using assms scale_le(1) [OF assms(2,3)] parse_fraction_range profile_fraction_range
  by (auto simp: resolve_axis_def split: option.splits sum.splits) 

section \<open>Properties\<close>

text \<open>The default host cap never panics on its clamp; for a ceiling above one byte it is positive,
  at most the ceiling, and keeps back a reserve of at least one byte, at least the smaller of 4 GiB
  and a quarter of the ceiling, and at most 8 GiB; and a larger ceiling never gives a smaller cap.\<close>

theorem default_host_bytes_reserve:
  "\<exists>v. default_host_bytes c = Some v \<and> v \<le> c \<and>
     (1 < unat c \<longrightarrow> 0 < unat v \<and> (\<exists>r. unat c = unat v + r \<and> 1 \<le> r \<and>
        min (2 ^ 32) (unat c div 4) \<le> r \<and> r \<le> 2 ^ 33)) \<and>
     (\<forall>c' v'. c \<le> c' \<longrightarrow> default_host_bytes c' = Some v' \<longrightarrow> v \<le> v')"
proof -
  obtain v where v: "default_host_bytes c = Some v"
    "unat v = (if unat c \<le> 1 then unat c else max (unat c - reserve_nat (unat c)) 1)"
    using default_host_bytes_nat by blast
  have mono: "v \<le> v'" if "c \<le> c'" and v': "default_host_bytes c' = Some v'" for c' v'
  proof -
    have u: "unat v' = (if unat c' \<le> 1 then unat c' else max (unat c' - reserve_nat (unat c')) 1)"
      using default_host_bytes_nat [of c'] v' by auto
    have "unat c \<le> unat c'" using that by (simp add: word_le_nat_alt)
    then show ?thesis
      using v(2) u reserve_mono [of "unat c" "unat c'"] by (auto simp: word_le_nat_alt)
  qed
  have "v \<le> c" using v(2) by (auto simp: word_le_nat_alt)
  moreover have "1 < unat c \<Longrightarrow> 0 < unat v \<and> (\<exists>r. unat c = unat v + r \<and> 1 \<le> r \<and>
        min (2 ^ 32) (unat c div 4) \<le> r \<and> r \<le> 2 ^ 33)"
  proof -
    assume c: "1 < unat c"
    note b = reserve_bounds [OF c]
    have "unat v = unat c - reserve_nat (unat c)" using v(2) c b(1) by auto
    then have "unat c = unat v + reserve_nat (unat c)" "0 < unat v" using b(1) by auto
    then show ?thesis using b by blast
  qed
  ultimately show ?thesis using v(1) mono by blast
qed

theorem default_host_bytes_reserve_witness:
  "\<exists>v. default_host_bytes 8 = Some v \<and> v \<le> 8 \<and>
     (\<exists>r. unat (8 :: u64) = unat v + r \<and> 1 \<le> r \<and> unat (8 :: u64) div 4 \<le> r \<and> r \<le> 2 ^ 33) \<and>
     (\<exists>v'. default_host_bytes 9 = Some v' \<and> v \<le> v')"
proof -
  have "(8 :: u64) \<le> 9" "1 < unat (8 :: u64)" "min (2 ^ 32) (unat (8 :: u64) div 4) = unat (8 :: u64) div 4"
    by simp_all
  then show ?thesis using default_host_bytes_reserve [of 8] default_host_bytes_nat [of 9]
    by (metis (full_types))
qed

text \<open>A resolved memory cap never exceeds what was detected: when the host size is known and
  below 2^53 bytes, whichever of the absolute setting, the fraction, the profile or the default
  produced it, the cap on host bytes is at most the host memory and at most a smaller cgroup limit;
  and a ledger path without a boot identity on a file system not cleared at boot is refused.\<close>

theorem resolve_within_machine:
  assumes "rounds rnd" "resolve parse_f64 rnd get d = Inr c" "cfg_path c = Some path"
    and "det_host_bytes d \<noteq> 0" "det_cgroup_bytes d \<noteq> Some 0" "unat (det_host_bytes d) \<le> 2 ^ 53"
  shows "bt_get_or 0 HostBytes (cfg_caps c) \<le> det_host_bytes d \<and>
    (\<forall>g. det_cgroup_bytes d = Some g \<longrightarrow> bt_get_or 0 HostBytes (cfg_caps c) \<le> g) \<and>
    (det_boot_identified d \<or> is_per_boot_path path get)"
proof -
  obtain mem src where mem: "detected_memory d = (mem, src)" by (cases "detected_memory d")
  have le: "mem \<le> det_host_bytes d" "\<forall>g. det_cgroup_bytes d = Some g \<longrightarrow> mem \<le> g" and nz: "mem \<noteq> 0"
    using mem assms(4,5) by (auto simp: detected_memory_def not_less split: option.splits if_splits)
  obtain m s where m: "resolve_axis parse_f64 rnd get ENV_MAX_MEM ENV_MEM_FRACTION
        (case get ENV_PROFILE of Some v \<Rightarrow> (case profile_parse v of Inl e \<Rightarrow> None | Inr p \<Rightarrow> Some p) | None \<Rightarrow> None)
        (Some mem) src parse_bytes host_memory_default = Inr m"
    and caps: "cfg_caps c = bt_insert Slots s (bt_insert HostBytes (lim_value m) [])"
    and boot: "det_boot_identified d \<or> is_per_boot_path path get"
    using assms(2,3) mem nz
    by (auto simp: resolve_def nonzero_def Let_def split: option.splits sum.splits if_splits)
  have b: "unat mem \<le> 2 ^ 53" using le(1) assms(6) by (simp add: word_le_nat_alt)
  have "lim_value m \<le> mem"
    by (rule resolve_axis_le [OF m assms(1) b]) (rule default_le)
  moreover have "bt_get_or 0 HostBytes (cfg_caps c) = lim_value m"
  proof -
    have "HostBytes < Slots" by (simp add: less_axis_def less_prod_def)
    then show ?thesis by (simp add: caps bt_get_or_def bt_get_def)
  qed
  ultimately show ?thesis using le boot by auto
qed

theorem resolve_within_machine_witness:
  "\<exists>c. resolve (\<lambda>_. None) id [''OMEGA_HOSTGATE'' \<mapsto> ''/run/gate'']
     \<lparr>det_host_bytes = 16, det_cgroup_bytes = Some 8, det_cores = 2, det_boot_identified = True\<rparr> = Inr c \<and>
     bt_get_or 0 HostBytes (cfg_caps c) \<le> 8"
proof -
  let ?get = "[''OMEGA_HOSTGATE'' \<mapsto> ''/run/gate'']"
  let ?d = "\<lparr>det_host_bytes = 16, det_cgroup_bytes = Some 8, det_cores = 2, det_boot_identified = True\<rparr>"
  obtain v where v: "default_host_bytes 8 = Some v" using default_host_bytes_nat by blast
  have g: "?get ENV_PATH = Some ''/run/gate''" "?get ENV_MODE = None" "?get ENV_PROFILE = None"
    "?get ENV_MAX_MEM = None" "?get ENV_MEM_FRACTION = None" "?get ENV_SLOTS = None" "?get ENV_CPU_FRACTION = None"
    by (simp_all add: ENV_PATH_def ENV_MODE_def ENV_PROFILE_def ENV_MAX_MEM_def
        ENV_MEM_FRACTION_def ENV_SLOTS_def ENV_CPU_FRACTION_def)
  have t: "trim ''/run/gate'' \<noteq> []" by (subst trim_no_ws) (auto simp: is_ws_def)
  have m: "detected_memory ?d = (8, From_cgroup)" by (simp add: detected_memory_def)
  obtain c where c: "resolve (\<lambda>_. None) id ?get ?d = Inr c" "cfg_path c = Some ''/run/gate''"
    using t v by (simp add: resolve_def g m resolve_axis_def nonzero_def host_memory_default_def del: fun_upd_apply)
  have "rounds id" by (simp add: rounds_def mono_def)
  from resolve_within_machine [OF this c] c(1) show ?thesis by simp
qed

text \<open>Sizes are read exactly: a whole number followed by an optional binary suffix gives the number
  times the suffix when that fits 64 bits, and an overflow error, never a wrapped value, otherwise.\<close>

theorem parse_bytes_exact:
  assumes "n < 2 ^ 64" "(c, k) \<in> {(CHR ''K'', 10), (CHR ''M'', 20), (CHR ''G'', 30), (CHR ''T'', 40 :: nat)}"
  shows "parse_bytes (show_nat n @ [c]) =
    (if n * 2 ^ k < 2 ^ 64 then Inr (of_nat (n * 2 ^ k)) else Inl (Size_overflow (show_nat n @ [c])))"
proof -
  have ws: "\<not> is_ws d" if "d \<in> set (show_nat n)" for d
    using show_nat_digits [OF that] by (auto simp: digit_value_def is_ws_def Let_def split: if_splits)
  have tr: "trim (show_nat n) = show_nat n" "trim (show_nat n @ [c]) = show_nat n @ [c]"
    using ws assms(2) by (intro trim_no_ws; auto simp: is_ws_def)+
  have m: "suffix_mult c = Some (push_bit k 1)"
    using assms(2) by (elim insertE) (simp_all only: prod.inject suffix_mult_def, simp_all)
  have k: "k < 64" using assms(2) by auto
  have "(2 :: nat) ^ k < 2 ^ 64" using k by (intro power_strict_increasing) simp_all
  then have "unat (of_nat (2 ^ k) :: u64) = 2 ^ k" by (rule unat_u64_of_nat)
  moreover have "(push_bit k 1 :: u64) = of_nat (2 ^ k)" by (simp add: push_bit_eq_mult)
  ultimately have "unat (push_bit k 1 :: u64) = 2 ^ k" by (simp only:)
  note m = m this
  have p: "unat (2 ^ k :: u64) = 2 ^ k" using m(2) by (simp add: push_bit_eq_mult)
  have n: "parse_u64 (show_nat n) = Some (of_nat n)" "unat (of_nat n :: u64) = n"
    using assms(1) by (simp_all add: parse_u64_def parse_unsigned_show unat_of_nat)
  have "of_nat n * push_bit k 1 = (of_nat (n * 2 ^ k) :: u64)"
    by (simp add: push_bit_eq_mult)
  then show ?thesis
    using p by (simp add: parse_bytes_def Let_def tr m(1) n(1) checked_mul_def n(2))
qed

theorem parse_bytes_exact_witness: "parse_bytes (show_nat 48 @ ''G'') = Inr 51539607552"
  using parse_bytes_exact [of 48 "CHR ''G''" 30] by simp

section \<open>A cgroup limit without a host size\<close>

text \<open>When the host size could not be read, a known cgroup limit is dropped: an absolute setting is
  then not cut at it.\<close>

theorem cgroup_dropped_without_host:
  assumes "det_host_bytes d = 0"
  shows "detected_memory d = (0, From_detected)"
  using assms by (auto simp: detected_memory_def split: option.splits)

end
