(* ===== verification/HostCensus.thy ===== *)
theory HostCensus
  imports RustString
begin

text \<open>
  The resident-memory census of \<^verbatim>\<open>crates/omega-hostgate/src/watch.rs\<close>: reading the process table,
  folding it into the tree of one process, and the counter of an exclusive control group.  What the
  file system and the process listing answer is an argument.  The theorem about \<open>fold_tree\<close> says
  that a sample counts every descendant of the root exactly once.
\<close>

datatype census_failure = Did_not_run string | Refused string | Unreadable u32 string

fun census_failure_display :: "census_failure \<Rightarrow> string" where
  "census_failure_display (Did_not_run why) =
     ''ps did not run at all ('' @ why @ ''); this is not a census and not a reading of zero''"
| "census_failure_display (Refused why) =
     ''ps complained ('' @ why @ ''); the listing is a refusal and not a census, not a reading of zero''"
| "census_failure_display (Unreadable pid why) =
     ''/proc/'' @ show_nat (unat pid) @ '' is unreadable ('' @ why @
     ''); this is not a census and not a reading of zero''"

record proc_snap =
  sn_pid :: u32
  sn_ppid :: u32
  sn_rss :: u64
  sn_zombie :: bool

record unreadable_proc =
  un_pid :: u32
  un_why :: string

datatype observation = Exited_obs | Alive_obs u64 "u32 list"

section \<open>Folding the table into a tree\<close>

record table =
  tb_children :: "u32 \<Rightarrow> u32 list"
  tb_rss :: "u32 \<rightharpoonup> u64"
  tb_zombie :: "u32 set"
  tb_saw_root :: bool

definition empty_table :: table where
  "empty_table = \<lparr>tb_children = (\<lambda>_. []), tb_rss = Map.empty, tb_zombie = {}, tb_saw_root = False\<rparr>"

definition add_row :: "u32 \<Rightarrow> proc_snap \<Rightarrow> table \<Rightarrow> table" where
  "add_row root row t =
     (let t1 = t\<lparr>tb_saw_root := tb_saw_root t \<or> sn_pid row = root,
                 tb_children := (tb_children t)(sn_ppid row := tb_children t (sn_ppid row) @ [sn_pid row])\<rparr>
      in if sn_zombie row then t1\<lparr>tb_zombie := insert (sn_pid row) (tb_zombie t1)\<rparr>
         else t1\<lparr>tb_rss := (tb_rss t1)(sn_pid row \<mapsto> sn_rss row)\<rparr>)"

text \<open>The loop over the rows; \<open>None\<close> is the early return at a zombie root.\<close>

fun scan_rows :: "u32 \<Rightarrow> proc_snap list \<Rightarrow> table \<Rightarrow> table option" where
  "scan_rows root [] t = Some t"
| "scan_rows root (row # rows) t =
     (if sn_pid row = root \<and> sn_zombie row then None else scan_rows root rows (add_row root row t))"

text \<open>The walk.  The top of the stack is the head of the list, so the children, pushed in order,
  arrive reversed.\<close>

function walk :: "table \<Rightarrow> u32 list \<Rightarrow> u32 set \<Rightarrow> u32 list \<Rightarrow> u64 \<Rightarrow> u64 \<times> u32 list" where
  "walk t [] seen pids acc = (acc, pids)"
| "walk t (pid # stack) seen pids acc =
     (if pid \<in> seen then walk t stack seen pids acc
      else let acc' = (if pid \<in> tb_zombie t then acc
                       else sat_add acc (case tb_rss t pid of Some r \<Rightarrow> r | None \<Rightarrow> 0))
           in walk t (rev (tb_children t pid) @ stack) (insert pid seen) (pids @ [pid]) acc')"
  by pat_completeness auto
termination
proof (relation "measures [\<lambda>(t, stack, seen, pids, acc). card (- seen), \<lambda>(t, stack, seen, pids, acc). length stack]")
  fix t :: table and pid :: u32 and stack seen pids acc
  show "((t, stack, seen, pids, acc), t, pid # stack, seen, pids, acc)
      \<in> measures [\<lambda>(t, stack, seen, pids, acc). card (- seen), \<lambda>(t, stack, seen, pids, acc). length stack]"
    by simp
next
  fix t :: table and pid :: u32 and stack :: "u32 list" and seen :: "u32 set" and pids acc x
  assume "pid \<notin> seen"
  then have "card (- insert pid seen) < card (- seen)"
    by (intro psubset_card_mono) auto
  then show "((t, rev (tb_children t pid) @ stack, insert pid seen, pids @ [pid], x), t, pid # stack, seen, pids, acc)
      \<in> measures [\<lambda>(t, stack, seen, pids, acc). card (- seen), \<lambda>(t, stack, seen, pids, acc). length stack]"
    by simp
qed simp_all

definition fold_tree :: "u32 \<Rightarrow> proc_snap list \<Rightarrow> unreadable_proc list \<Rightarrow> census_failure + observation" where
  "fold_tree root rows unreadable =
     (case unreadable of
        bad # _ \<Rightarrow> Inl (Unreadable (un_pid bad) (un_why bad))
      | [] \<Rightarrow>
          (case scan_rows root rows empty_table of
             None \<Rightarrow> Inr Exited_obs
           | Some t \<Rightarrow>
               if \<not> tb_saw_root t then Inr Exited_obs
               else let (acc, pids) = walk t [root] {} [] 0 in Inr (Alive_obs acc pids)))"

section \<open>Parsers\<close>

definition ppid_from_stat :: "string \<Rightarrow> u32 option" where
  "ppid_from_stat stat =
     (case rsplit_once CHR '')'' stat of None \<Rightarrow> None
      | Some (_, rest) \<Rightarrow> (case split_whitespace rest of _ # p # _ \<Rightarrow> parse_u32 p | _ \<Rightarrow> None))"

definition state_is_zombie :: "string \<Rightarrow> bool" where
  "state_is_zombie stat =
     (case rsplit_once CHR '')'' stat of None \<Rightarrow> False
      | Some (_, rest) \<Rightarrow> (case split_whitespace rest of s # _ \<Rightarrow> s = ''Z'' | [] \<Rightarrow> False))"

definition rss_from_statm :: "string \<Rightarrow> u64 \<Rightarrow> u64 option" where
  "rss_from_statm statm page_size =
     (case split_whitespace statm of
        _ # p # _ \<Rightarrow> map_option (\<lambda>pages. sat_mul pages page_size) (parse_u64 p)
      | _ \<Rightarrow> None)"

definition parse_memory_current :: "string \<Rightarrow> u64 option" where
  "parse_memory_current text =
     (let t = trim text in if t = [] \<or> t = ''max'' then None else parse_u64 t)"

definition parse_cgroup_procs :: "string \<Rightarrow> u32 list" where
  "parse_cgroup_procs text = List.map_filter parse_u32 (split_whitespace text)"

definition parse_cgroup_v2_rel :: "string \<Rightarrow> string option" where
  "parse_cgroup_v2_rel text =
     (case List.map_filter (\<lambda>l. strip_prefix ''0::'' (trim l)) (text_lines text) of
        r # _ \<Rightarrow> Some r | [] \<Rightarrow> None)"

definition exclusive_leaf_bytes :: "u64 \<Rightarrow> u32 list \<Rightarrow> u32 list \<Rightarrow> u64 option" where
  "exclusive_leaf_bytes memory_current cgroup_pids tree_pids =
     (if cgroup_pids = [] \<or> memory_current = 0 then None
      else if list_all (\<lambda>p. p \<in> set tree_pids) cgroup_pids then Some memory_current else None)"

definition parse_ps_line :: "string \<Rightarrow> proc_snap option" where
  "parse_ps_line line =
     (case split_whitespace line of
        a # b # c # state # _ \<Rightarrow>
          (case (parse_u32 a, parse_u32 b, parse_u64 c) of
             (Some pid, Some ppid, Some kib) \<Rightarrow>
               Some \<lparr>sn_pid = pid, sn_ppid = ppid, sn_rss = sat_mul kib 1024,
                     sn_zombie = (take 1 state = ''Z'')\<rparr>
           | _ \<Rightarrow> None)
      | _ \<Rightarrow> None)"

section \<open>One sample on macOS\<close>

text \<open>The rows up to the first line that does not parse.\<close>

fun ps_rows :: "string list \<Rightarrow> string + proc_snap list" where
  "ps_rows [] = Inr []"
| "ps_rows (l # ls) =
     (let line = trim l in
      if line = [] then ps_rows ls
      else case parse_ps_line line of
             None \<Rightarrow> Inl line
           | Some row \<Rightarrow> (case ps_rows ls of Inl b \<Rightarrow> Inl b | Inr rows \<Rightarrow> Inr (row # rows)))"

definition census_from_ps :: "u32 \<Rightarrow> string \<Rightarrow> string \<Rightarrow> census_failure + observation" where
  "census_from_ps root out err =
     (if err \<noteq> []
      then Inl (Refused (if trim err = [] then ''ps wrote to stderr'' else trim err))
      else if list_all (\<lambda>c. is_ws c \<and> of_char c \<noteq> (11 :: nat)) out
      then Inl (Refused ''ps produced no rows; an empty listing is not a census of this machine'')
      else case ps_rows (text_lines out) of
             Inl line \<Rightarrow> Inl (Refused (''unparseable ps line '' @ debug_str line @ ''; the listing is not a census''))
           | Inr rows \<Rightarrow> fold_tree root rows [])"

definition sample_macos :: "string + string \<times> string \<Rightarrow> u32 \<Rightarrow> census_failure + observation" where
  "sample_macos ps root =
     (case ps of Inr (out, err) \<Rightarrow> census_from_ps root out err | Inl e \<Rightarrow> Inl (Did_not_run e))"

section \<open>One sample on Linux\<close>

datatype file_read = Text string | Not_found | Read_error string

definition page_size :: "int \<Rightarrow> u64" where
  "page_size n = (if 0 < n then of_int n else 4096)"

definition proc_path :: "u32 \<Rightarrow> string \<Rightarrow> string" where
  "proc_path pid name = ''/proc/'' @ show_nat (unat pid) @ ''/'' @ name"

definition read_proc_row :: "(string \<Rightarrow> file_read) \<Rightarrow> u64 \<Rightarrow> u32 \<Rightarrow> unreadable_proc + proc_snap option" where
  "read_proc_row files page pid =
     (case files (proc_path pid ''stat'') of
        Not_found \<Rightarrow> Inr None
      | Read_error e \<Rightarrow> Inl \<lparr>un_pid = pid, un_why = e\<rparr>
      | Text stat \<Rightarrow>
          (case ppid_from_stat stat of
             None \<Rightarrow> Inl \<lparr>un_pid = pid, un_why = ''stat did not yield a ppid''\<rparr>
           | Some ppid \<Rightarrow>
               (case files (proc_path pid ''statm'') of
                  Not_found \<Rightarrow> Inr None
                | Read_error e \<Rightarrow> Inl \<lparr>un_pid = pid, un_why = e\<rparr>
                | Text statm \<Rightarrow>
                    Inr (Some \<lparr>sn_pid = pid, sn_ppid = ppid,
                       sn_rss = (case rss_from_statm statm page of Some b \<Rightarrow> b | None \<Rightarrow> 0),
                       sn_zombie = state_is_zombie stat\<rparr>))))"

text \<open>The entries of the directory listing: an error or a name.\<close>

fun proc_rows :: "(string \<Rightarrow> file_read) \<Rightarrow> u64 \<Rightarrow> (string + string) list \<Rightarrow> string + proc_snap list \<times> unreadable_proc list" where
  "proc_rows files page [] = Inr ([], [])"
| "proc_rows files page (Inl e # ents) = Inl e"
| "proc_rows files page (Inr name # ents) =
     (case proc_rows files page ents of
        Inl e \<Rightarrow> Inl e
      | Inr (rows, bad) \<Rightarrow>
          (case parse_u32 name of
             None \<Rightarrow> Inr (rows, bad)
           | Some pid \<Rightarrow>
               (case read_proc_row files page pid of
                  Inr (Some row) \<Rightarrow> Inr (row # rows, bad)
                | Inr None \<Rightarrow> Inr (rows, bad)
                | Inl b \<Rightarrow> Inr (rows, b # bad))))"

definition sample_proc :: "(string \<Rightarrow> file_read) \<Rightarrow> u64 \<Rightarrow> string + (string + string) list \<Rightarrow> u32 \<Rightarrow>
    census_failure + observation" where
  "sample_proc files page dir root =
     (case dir of
        Inl e \<Rightarrow> Inl (Did_not_run (''cannot list /proc: '' @ e))
      | Inr ents \<Rightarrow>
          (case proc_rows files page ents of
             Inl e \<Rightarrow> Inl (Did_not_run (''cannot list /proc: '' @ e))
           | Inr (rows, bad) \<Rightarrow> fold_tree root rows bad))"

definition readable :: "file_read \<Rightarrow> string option" where
  "readable f = (case f of Text s \<Rightarrow> Some s | _ \<Rightarrow> None)"

definition try_exclusive_cgroup :: "(string \<Rightarrow> file_read) \<Rightarrow> u32 \<Rightarrow> u32 list \<Rightarrow> u64 option" where
  "try_exclusive_cgroup files root tree_pids =
     Option.bind (readable (files (proc_path root ''cgroup''))) (\<lambda>cg.
     Option.bind (map_option trim (parse_cgroup_v2_rel cg)) (\<lambda>rel.
       if rel = [] \<or> rel = ''/'' then None
       else if \<not> starts_with ''/'' rel then None
       else let dir = ''/sys/fs/cgroup'' @ rel in
         Option.bind (readable (files (dir @ ''/memory.current''))) (\<lambda>cur.
         Option.bind (parse_memory_current cur) (\<lambda>bytes.
         Option.bind (readable (files (dir @ ''/cgroup.procs''))) (\<lambda>procs.
           exclusive_leaf_bytes bytes (parse_cgroup_procs procs) tree_pids)))))"

definition sample_linux :: "(string \<Rightarrow> file_read) \<Rightarrow> u64 \<Rightarrow> string + (string + string) list \<Rightarrow> u32 \<Rightarrow>
    census_failure + observation" where
  "sample_linux files page dir root =
     (case sample_proc files page dir root of
        Inl e \<Rightarrow> Inl e
      | Inr (Alive_obs rss pids) \<Rightarrow>
          (case try_exclusive_cgroup files root pids of
             Some bytes \<Rightarrow> Inr (Alive_obs bytes pids) | None \<Rightarrow> Inr (Alive_obs rss pids))
      | Inr Exited_obs \<Rightarrow> Inr Exited_obs)"

section \<open>The walk visits the descendants of the root, each once\<close>

text \<open>The parent relation of a table, and what one pid adds to the sum: nothing for a zombie, else
  its last row.\<close>

definition parents :: "proc_snap list \<Rightarrow> (u32 \<times> u32) set" where
  "parents rows = (\<lambda>r. (sn_ppid r, sn_pid r)) ` set rows"

definition reading :: "proc_snap list \<Rightarrow> u32 \<Rightarrow> nat" where
  "reading rows p =
     (if list_ex (\<lambda>r. sn_pid r = p \<and> sn_zombie r) rows then 0
      else case find (\<lambda>r. sn_pid r = p) (rev rows) of Some r \<Rightarrow> unat (sn_rss r) | None \<Rightarrow> 0)"

definition table_reading :: "table \<Rightarrow> u32 \<Rightarrow> nat" where
  "table_reading t p =
     (if p \<in> tb_zombie t then 0 else case tb_rss t p of Some r \<Rightarrow> unat r | None \<Rightarrow> 0)"

lemma scan_rows_None:
  "scan_rows root rows t = None \<longleftrightarrow> (\<exists>r \<in> set rows. sn_pid r = root \<and> sn_zombie r)"
  by (induction rows arbitrary: t) auto

lemma scan_rows_children:
  "scan_rows root rows t = Some t' \<Longrightarrow>
     tb_children t' p = tb_children t p @ map sn_pid (filter (\<lambda>r. sn_ppid r = p) rows)"
  by (induction rows arbitrary: t) (auto simp: add_row_def Let_def split: if_splits)

lemma scan_rows_saw:
  "scan_rows root rows t = Some t' \<Longrightarrow>
     tb_saw_root t' = (tb_saw_root t \<or> (\<exists>r \<in> set rows. sn_pid r = root))"
  by (induction rows arbitrary: t) (auto simp: add_row_def Let_def split: if_splits)

lemma scan_rows_zombie:
  "scan_rows root rows t = Some t' \<Longrightarrow>
     tb_zombie t' = tb_zombie t \<union> {sn_pid r |r. r \<in> set rows \<and> sn_zombie r}"
  by (induction rows arbitrary: t) (auto simp: add_row_def Let_def split: if_splits)

lemma scan_rows_rss:
  "scan_rows root rows t = Some t' \<Longrightarrow> \<not> list_ex (\<lambda>r. sn_pid r = p \<and> sn_zombie r) rows \<Longrightarrow>
     tb_rss t' p = (case find (\<lambda>r. sn_pid r = p) (rev rows) of Some r \<Rightarrow> Some (sn_rss r) | None \<Rightarrow> tb_rss t p)"
proof (induction rows arbitrary: t)
  case (Cons row rows)
  have s: "scan_rows root rows (add_row root row t) = Some t'"
    and z: "\<not> list_ex (\<lambda>r. sn_pid r = p \<and> sn_zombie r) rows"
    and n: "sn_pid row = p \<Longrightarrow> \<not> sn_zombie row"
    using Cons.prems by (auto split: if_splits)
  have "find (\<lambda>r. sn_pid r = p) (xs @ [row]) =
      (case find (\<lambda>r. sn_pid r = p) xs of Some r \<Rightarrow> Some r
       | None \<Rightarrow> if sn_pid row = p then Some row else None)" for xs
    by (induction xs) auto
  moreover have "tb_rss (add_row root row t) p = (if sn_pid row = p then Some (sn_rss row) else tb_rss t p)"
    using n by (auto simp: add_row_def Let_def)
  ultimately show ?case
    using Cons.IH [OF s z] by (auto split: option.splits)
qed simp

lemma scan_rows_reading:
  assumes "scan_rows root rows empty_table = Some t"
  shows "table_reading t p = reading rows p"
  using scan_rows_zombie [OF assms] scan_rows_rss [OF assms, of p]
  by (auto simp: table_reading_def reading_def empty_table_def list_ex_iff split: option.splits)

lemma walk_visits:
  assumes "walk t stack seen pids acc = (acc', pids')"
    and "set pids = seen" "distinct pids"
    and "unat acc = min (\<Sum>p\<in>seen. table_reading t p) (2 ^ 64 - 1)"
    and "\<And>p. p \<in> seen \<Longrightarrow> set (tb_children t p) \<subseteq> seen \<union> set stack"
    and "seen \<union> set stack \<subseteq> reach" "\<And>p. p \<in> reach \<Longrightarrow> set (tb_children t p) \<subseteq> reach"
  shows "(\<exists>more. pids' = pids @ more) \<and> distinct pids' \<and> seen \<union> set stack \<subseteq> set pids' \<and> set pids' \<subseteq> reach
    \<and> (\<forall>p \<in> set pids'. set (tb_children t p) \<subseteq> set pids')
    \<and> unat acc' = min (\<Sum>p\<in>set pids'. table_reading t p) (2 ^ 64 - 1)"
  using assms
proof (induction t stack seen pids acc rule: walk.induct)
  case (1 t seen pids acc)
  then show ?case by auto
next
  case (2 t pid stack seen pids acc)
  show ?case
  proof (cases "pid \<in> seen")
    case True
    have "(\<exists>more. pids' = pids @ more) \<and> distinct pids' \<and> seen \<union> set stack \<subseteq> set pids' \<and> set pids' \<subseteq> reach
    \<and> (\<forall>p \<in> set pids'. set (tb_children t p) \<subseteq> set pids')
    \<and> unat acc' = min (\<Sum>p\<in>set pids'. table_reading t p) (2 ^ 64 - 1)"
    proof (rule 2(1) [OF True])
      show "walk t stack seen pids acc = (acc', pids')" using 2(3) True by simp
      show "set (tb_children t p) \<subseteq> seen \<union> set stack" if "p \<in> seen" for p using 2(7) [OF that] True by auto
    qed (use 2 in auto)
    then show ?thesis using True by auto
  next
    case False
    let ?acc = "if pid \<in> tb_zombie t then acc
                else sat_add acc (case tb_rss t pid of Some r \<Rightarrow> r | None \<Rightarrow> 0)"
    have "unat ?acc = min (\<Sum>p\<in>insert pid seen. table_reading t p) (2 ^ 64 - 1)"
      using 2(6) False
      by (auto simp: table_reading_def unat_sat_add split: option.splits)
    moreover have "set (tb_children t p) \<subseteq> insert pid seen \<union> set (rev (tb_children t pid) @ stack)"
      if "p \<in> insert pid seen" for p
      using that 2(7) [of p] by (cases "p = pid") auto
    moreover have "insert pid seen \<union> set (rev (tb_children t pid) @ stack) \<subseteq> reach"
      using 2(8) 2(9) [of pid] by auto
    moreover have "walk t (rev (tb_children t pid) @ stack) (insert pid seen) (pids @ [pid]) ?acc = (acc', pids')"
      using 2(3) False by (simp add: Let_def)
    ultimately have "(\<exists>more. pids' = (pids @ [pid]) @ more) \<and> distinct pids'
      \<and> insert pid seen \<union> set (rev (tb_children t pid) @ stack) \<subseteq> set pids' \<and> set pids' \<subseteq> reach
      \<and> (\<forall>p \<in> set pids'. set (tb_children t p) \<subseteq> set pids')
      \<and> unat acc' = min (\<Sum>p\<in>set pids'. table_reading t p) (2 ^ 64 - 1)"
      using 2(4,5,9) False by (intro 2(2) [OF False refl]) auto
    then show ?thesis by auto
  qed
qed

lemma reach_parents:
  assumes "scan_rows root rows empty_table = Some t"
  shows "set (tb_children t p) = {q. (p, q) \<in> parents rows}"
  using scan_rows_children [OF assms, of p] by (auto simp: empty_table_def parents_def image_iff)

lemma fold_tree_alive:
  assumes "\<exists>r \<in> set rows. sn_pid r = root" "\<not> (\<exists>r \<in> set rows. sn_pid r = root \<and> sn_zombie r)"
  obtains acc pids where "fold_tree root rows [] = Inr (Alive_obs acc (root # pids))"
    "distinct (root # pids)" "set (root # pids) = {p. (root, p) \<in> (parents rows)\<^sup>*}"
    "unat acc = min (\<Sum>p\<in>set (root # pids). reading rows p) (2 ^ 64 - 1)"
proof -
  obtain t where t: "scan_rows root rows empty_table = Some t"
    using assms(2) scan_rows_None [of root rows empty_table] by (cases "scan_rows root rows empty_table") auto
  obtain acc ps where w: "walk t [root] {} [] 0 = (acc, ps)" by fastforce
  have w1: "walk t (rev (tb_children t root)) {root} [root]
      (if root \<in> tb_zombie t then 0 else sat_add 0 (case tb_rss t root of Some r \<Rightarrow> r | None \<Rightarrow> 0)) = (acc, ps)"
    using w by (simp add: Let_def)
  have reach: "set (tb_children t p) \<subseteq> {q. (root, q) \<in> (parents rows)\<^sup>*}" if "p \<in> {q. (root, q) \<in> (parents rows)\<^sup>*}" for p
    using that reach_parents [OF t, of p] by (auto intro: rtrancl_into_rtrancl)
  have "(\<exists>more. ps = [root] @ more) \<and> distinct ps \<and> {root} \<union> set (rev (tb_children t root)) \<subseteq> set ps
    \<and> set ps \<subseteq> {q. (root, q) \<in> (parents rows)\<^sup>*} \<and> (\<forall>p \<in> set ps. set (tb_children t p) \<subseteq> set ps)
    \<and> unat acc = min (\<Sum>p\<in>set ps. table_reading t p) (2 ^ 64 - 1)"
    using reach by (intro walk_visits [OF w1])
      (auto simp: table_reading_def unat_sat_add reach_parents [OF t] split: option.splits)
  then obtain more where ps: "ps = root # more" and d: "distinct ps"
    and sub: "set ps \<subseteq> {q. (root, q) \<in> (parents rows)\<^sup>*}"
    and cl: "\<forall>p \<in> set ps. set (tb_children t p) \<subseteq> set ps"
    and acc: "unat acc = min (\<Sum>p\<in>set ps. table_reading t p) (2 ^ 64 - 1)" by auto
  have "q \<in> set ps" if "(root, q) \<in> (parents rows)\<^sup>*" for q
    using that
  proof (induction rule: rtrancl_induct)
    case base
    then show ?case using ps by simp
  next
    case (step y z)
    then show ?case using cl reach_parents [OF t, of y] by auto
  qed
  then have "set ps = {p. (root, p) \<in> (parents rows)\<^sup>*}" using sub by auto
  moreover have "fold_tree root rows [] = Inr (Alive_obs acc ps)"
    using t w scan_rows_saw [OF t] assms(1) by (simp add: fold_tree_def del: walk.simps)
  ultimately show thesis using that ps d acc scan_rows_reading [OF t] by auto
qed

lemma proc_rows_complete:
  "proc_rows files page ents = Inr (rows, bad) \<Longrightarrow>
     set ents \<subseteq> range Inr \<and>
     bad = List.map_filter (\<lambda>e. case e of Inr n \<Rightarrow> (case parse_u32 n of None \<Rightarrow> None | Some pid \<Rightarrow>
              (case read_proc_row files page pid of Inl b \<Rightarrow> Some b | Inr _ \<Rightarrow> None)) | Inl _ \<Rightarrow> None) ents \<and>
     rows = List.map_filter (\<lambda>e. case e of Inr n \<Rightarrow> (case parse_u32 n of None \<Rightarrow> None | Some pid \<Rightarrow>
              (case read_proc_row files page pid of Inl b \<Rightarrow> None | Inr r \<Rightarrow> r)) | Inl _ \<Rightarrow> None) ents"
proof (induction files page ents arbitrary: rows bad rule: proc_rows.induct)
  case (3 files page name ents)
  obtain rows' bad' where r: "proc_rows files page ents = Inr (rows', bad')"
    using 3(2) by (auto split: sum.splits)
  show ?case using 3(2) 3(1) [OF r] r
    by (auto simp: List.map_filter_simps split: option.splits sum.splits)
qed (auto simp: List.map_filter_simps)

text \<open>Without an unreadable entry every listed pid was read, and a row that was made is in the table.\<close>

lemma proc_rows_read:
  "proc_rows files page ents = Inr (rows, []) \<Longrightarrow> Inr n \<in> set ents \<Longrightarrow> parse_u32 n = Some pid \<Longrightarrow>
     \<exists>r. read_proc_row files page pid = Inr r \<and> (\<forall>row. r = Some row \<longrightarrow> row \<in> set rows)"
proof (induction files page ents arbitrary: rows rule: proc_rows.induct)
  case (3 files page name ents)
  obtain rows' where r: "proc_rows files page ents = Inr (rows', [])" "set rows' \<subseteq> set rows"
    using 3(2) subset_insertI by (force split: sum.splits option.splits)
  show ?case
  proof (cases "n = name")
    case True
    then show ?thesis using 3(2,4) r(1) by (auto split: sum.splits option.splits)
  next
    case False
    then show ?thesis using 3(1) [OF r(1)] 3(3,4) r(2) by auto
  qed
qed auto

section \<open>Properties\<close>

text \<open>C31: A census of a readable table in which the root is listed and is not a zombie counts the tree
  exactly: the pids are distinct, they are the root first and then precisely its descendants by the
  parent relation, and the resident sum adds each pid once (its last row, nothing for a zombie),
  cut at the largest 64-bit value.  One unreadable entry fails the census whatever the rows say.\<close>

theorem fold_tree_exact:
  assumes "\<exists>r \<in> set rows. sn_pid r = root" "\<not> (\<exists>r \<in> set rows. sn_pid r = root \<and> sn_zombie r)"
  shows "(\<exists>acc pids. fold_tree root rows [] = Inr (Alive_obs acc (root # pids)) \<and> distinct (root # pids) \<and>
      set (root # pids) = {p. (root, p) \<in> (parents rows)\<^sup>*} \<and>
      unat acc = min (\<Sum>p\<in>set (root # pids). reading rows p) (2 ^ 64 - 1)) \<and>
    fold_tree root rows (bad # bads) = Inl (Unreadable (un_pid bad) (un_why bad))"
proof
  show "\<exists>acc pids. fold_tree root rows [] = Inr (Alive_obs acc (root # pids)) \<and> distinct (root # pids) \<and>
      set (root # pids) = {p. (root, p) \<in> (parents rows)\<^sup>*} \<and>
      unat acc = min (\<Sum>p\<in>set (root # pids). reading rows p) (2 ^ 64 - 1)"
    by (rule fold_tree_alive [OF assms]) blast
qed (simp add: fold_tree_def)

definition worker_table :: "proc_snap list" where
  "worker_table =
     [\<lparr>sn_pid = 1, sn_ppid = 0, sn_rss = 5, sn_zombie = False\<rparr>,
      \<lparr>sn_pid = 7, sn_ppid = 1, sn_rss = 17, sn_zombie = False\<rparr>,
      \<lparr>sn_pid = 9, sn_ppid = 8, sn_rss = 3700, sn_zombie = False\<rparr>,
      \<lparr>sn_pid = 8, sn_ppid = 7, sn_rss = 0, sn_zombie = True\<rparr>]"

theorem fold_tree_exact_witness:
  "fold_tree 7 worker_table [] = Inr (Alive_obs 3717 [7, 8, 9]) \<and>
   {p. (7, p) \<in> (parents worker_table)\<^sup>*} = {7, 8, 9}"
proof -
  have f: "fold_tree 7 worker_table [] = Inr (Alive_obs 3717 [7, 8, 9])"
    by (simp add: fold_tree_def worker_table_def add_row_def empty_table_def Let_def sat_add_def)
  have "\<exists>r \<in> set worker_table. sn_pid r = 7" "\<not> (\<exists>r \<in> set worker_table. sn_pid r = 7 \<and> sn_zombie r)"
    by (simp_all add: worker_table_def)
  from fold_tree_exact [OF this] show ?thesis using f by auto
qed

text \<open>C32: On Linux a sample that reports a tree has read every process of the listing: the listing itself
  did not fail, and of every pid in it either the \<^verbatim>\<open>stat\<close> or the \<^verbatim>\<open>statm\<close> file is gone, or both could be
  read, the first names a parent, and the census has its row; so a file that exists and cannot be read, or
  a \<^verbatim>\<open>stat\<close> without a parent, never becomes a reading (only a \<^verbatim>\<open>statm\<close> without a resident size counts as
  0, which the module's documentation denies).  The reported size is the sum of the tree, or else the
  counter of a control group that is positive and all of whose members are pids of that tree.\<close>

theorem linux_sample_sound:
  assumes "sample_linux files page dir root = Inr (Alive_obs rss pids)"
  shows "\<exists>ents rows tree. dir = Inr ents \<and> set ents \<subseteq> range Inr \<and>
    (\<forall>n pid. Inr n \<in> set ents \<and> parse_u32 n = Some pid \<longrightarrow>
      files (proc_path pid ''stat'') = Not_found \<or>
      (\<exists>stat ppid. files (proc_path pid ''stat'') = Text stat \<and> ppid_from_stat stat = Some ppid \<and>
        (files (proc_path pid ''statm'') = Not_found \<or>
         (\<exists>statm. files (proc_path pid ''statm'') = Text statm \<and>
           \<lparr>sn_pid = pid, sn_ppid = ppid, sn_rss = (case rss_from_statm statm page of Some b \<Rightarrow> b | None \<Rightarrow> 0),
             sn_zombie = state_is_zombie stat\<rparr> \<in> set rows)))) \<and>
    proc_rows files page ents = Inr (rows, []) \<and> fold_tree root rows [] = Inr (Alive_obs tree pids) \<and>
    (rss = tree \<or> 0 < rss \<and> (\<exists>rel cur procs. files (''/sys/fs/cgroup'' @ rel @ ''/memory.current'') = Text cur \<and>
       parse_u64 (trim cur) = Some rss \<and> files (''/sys/fs/cgroup'' @ rel @ ''/cgroup.procs'') = Text procs \<and>
       parse_cgroup_procs procs \<noteq> [] \<and> set (parse_cgroup_procs procs) \<subseteq> set pids))"
proof -
  obtain tree where s: "sample_proc files page dir root = Inr (Alive_obs tree pids)"
    and r: "rss = tree \<or> try_exclusive_cgroup files root pids = Some rss"
    using assms by (auto simp: sample_linux_def split: sum.splits observation.splits option.splits)
  obtain ents rows bad where e: "dir = Inr ents" "proc_rows files page ents = Inr (rows, bad)"
    "fold_tree root rows bad = Inr (Alive_obs tree pids)"
    using s by (auto simp: sample_proc_def split: sum.splits)
  have b: "bad = []" using e(3) by (cases bad) (auto simp: fold_tree_def)
  note c = proc_rows_complete [OF e(2)]
  have ok: "files (proc_path pid ''stat'') = Not_found \<or>
      (\<exists>stat ppid. files (proc_path pid ''stat'') = Text stat \<and> ppid_from_stat stat = Some ppid \<and>
        (files (proc_path pid ''statm'') = Not_found \<or>
         (\<exists>statm. files (proc_path pid ''statm'') = Text statm \<and>
           \<lparr>sn_pid = pid, sn_ppid = ppid, sn_rss = (case rss_from_statm statm page of Some b \<Rightarrow> b | None \<Rightarrow> 0),
             sn_zombie = state_is_zombie stat\<rparr> \<in> set rows)))" if n: "Inr n \<in> set ents" "parse_u32 n = Some pid" for n pid
    using proc_rows_read [OF e(2) [unfolded b] n] by (auto simp: read_proc_row_def split: file_read.splits option.splits)
  have "rss = tree \<or> 0 < rss \<and> (\<exists>rel cur procs. files (''/sys/fs/cgroup'' @ rel @ ''/memory.current'') = Text cur \<and>
       parse_u64 (trim cur) = Some rss \<and> files (''/sys/fs/cgroup'' @ rel @ ''/cgroup.procs'') = Text procs \<and>
       parse_cgroup_procs procs \<noteq> [] \<and> set (parse_cgroup_procs procs) \<subseteq> set pids)"
    using r by (force simp: try_exclusive_cgroup_def exclusive_leaf_bytes_def parse_memory_current_def readable_def
        list_all_iff word_neq_0_conv Let_def split: file_read.splits if_splits option.splits Option.bind_splits)
  then show ?thesis using e b c ok by blast
qed

definition one_files :: "string \<Rightarrow> file_read" where
  "one_files p =
     (if p = ''/proc/7/stat'' then Text ''7 (w) S 1'' else if p = ''/proc/7/statm'' then Text ''9 3'' else Not_found)"

theorem linux_sample_sound_witness:
  "sample_linux one_files 4096 (Inr [Inr ''self'', Inr ''7'']) 7 = Inr (Alive_obs 12288 [7]) \<and>
   (\<exists>rows tree. proc_rows one_files 4096 [Inr ''self'', Inr ''7''] = Inr (rows, []) \<and>
     fold_tree 7 rows [] = Inr (Alive_obs tree [7]))"
proof -
  have char7: "char_of (55 :: nat) = CHR ''7''" using char_of_char [of "CHR ''7''", where 'a = nat] by simp
  have path: "proc_path 7 ''stat'' = ''/proc/7/stat''" "proc_path 7 ''statm'' = ''/proc/7/statm''"
    "proc_path 7 ''cgroup'' = ''/proc/7/cgroup''"
    by (simp_all add: proc_path_def show_nat.simps digit_char_def char7)
  have nums: "parse_u64 ''3'' = Some 3" "parse_u32 ''1'' = Some 1" "parse_u32 ''self'' = None" "parse_u32 ''7'' = Some 7"
    by (simp_all add: parse_u32_def parse_u64_def parse_unsigned_def digit_value_def)
  have fields: "rsplit_once CHR '')'' ''7 (w) S 1'' = Some (''7 (w'', '' S 1'')"
    "split_whitespace '' S 1'' = [''S'', ''1'']" "split_whitespace ''9 3'' = [''9'', ''3'']" by code_simp+
  have stat: "ppid_from_stat ''7 (w) S 1'' = Some 1" "\<not> state_is_zombie ''7 (w) S 1''"
    by (simp_all add: ppid_from_stat_def state_is_zombie_def fields nums)
  have r: "read_proc_row one_files 4096 7 =
      Inr (Some \<lparr>sn_pid = 7, sn_ppid = 1, sn_rss = 12288, sn_zombie = False\<rparr>)"
    by (simp add: read_proc_row_def path one_files_def stat rss_from_statm_def fields nums sat_mul_def)
  have c: "one_files (proc_path 7 ''cgroup'') = Not_found" by (simp add: path one_files_def)
  have s: "sample_linux one_files 4096 (Inr [Inr ''self'', Inr ''7'']) 7 = Inr (Alive_obs 12288 [7])"
    by (simp add: sample_linux_def sample_proc_def r nums c try_exclusive_cgroup_def readable_def
        fold_tree_def add_row_def empty_table_def Let_def sat_add_def)
  obtain ents rows tree where "Inr [Inr ''self'', Inr ''7''] = (Inr ents :: string + (string + string) list)"
    "proc_rows one_files 4096 ents = Inr (rows, [])" "fold_tree 7 rows [] = Inr (Alive_obs tree [7])"
    using linux_sample_sound [OF s] by (elim exE conjE) (rule that)
  then show ?thesis using s by (intro conjI exI) (simp_all only: sum.inject)
qed

end
