(* ===== verification/HostWatch.thy ===== *)
theory HostWatch
  imports HostCensus
begin

text \<open>
  The supervisor of \<^verbatim>\<open>crates/omega-hostgate/src/watch.rs\<close>: what it does with a sample, the polling
  loop, and the signals it sends.  The samples, the answers of \<^verbatim>\<open>try_wait\<close> and the answer of \<^verbatim>\<open>wait\<close>
  are arguments, in the order in which the loop asks for them; a watch that outlasts its arguments
  has the value \<open>None\<close>, so that every statement about a returned verdict is about some prefix of an
  execution.  Sleeping is not modelled.
\<close>

datatype reaction = Continue u64 | Over_cap u64 "u32 list" | Exited | Fail_closed string

definition react :: "census_failure + observation \<Rightarrow> u64 \<Rightarrow> reaction" where
  "react sample limit_bytes =
     (case sample of
        Inl e \<Rightarrow> Fail_closed (census_failure_display e)
      | Inr Exited_obs \<Rightarrow> Exited
      | Inr (Alive_obs rss pids) \<Rightarrow> if limit_bytes < rss then Over_cap rss pids else Continue rss)"

datatype 's watch_end = Finished 's u64 u32 | Exceeded u64 | Census_failed u64 string

fun peak_bytes :: "'s watch_end \<Rightarrow> u64" where
  "peak_bytes (Finished _ peak _) = peak"
| "peak_bytes (Exceeded peak) = peak"
| "peak_bytes (Census_failed peak _) = peak"

definition EXIT_KILLED :: u8 where "EXIT_KILLED = 5"
definition EXIT_CENSUS_FAILED :: u8 where "EXIT_CENSUS_FAILED = 4"
definition CENSUS_DISAGREEMENT_RETRIES :: nat where "CENSUS_DISAGREEMENT_RETRIES = 3"

datatype interval_error = Not_whole string | Zero_interval

definition parse_interval_ms :: "string \<Rightarrow> interval_error + u64" where
  "parse_interval_ms s =
     (case parse_u64 s of None \<Rightarrow> Inl (Not_whole s) | Some n \<Rightarrow> if n = 0 then Inl Zero_interval else Inr n)"

section \<open>Signals\<close>

text \<open>The arguments of the calls of \<^verbatim>\<open>kill\<close>, in order; the signal is always 9.  The casts to a signed
  integer keep the bits.\<close>

definition sigkill :: "u32 \<Rightarrow> int list" where
  "sigkill pid = (if pid \<le> 1 then [] else [sint pid])"

definition sigkill_group :: "u32 \<Rightarrow> int list" where
  "sigkill_group pgid = (if pgid \<le> 1 then [] else [sint (- pgid)])"

definition signal_kill_tree :: "u32 \<Rightarrow> u32 list \<Rightarrow> bool \<Rightarrow> int list" where
  "signal_kill_tree root pids own_process_group =
     concat (map sigkill (filter (\<lambda>p. p \<noteq> root) pids)) @ sigkill root @
     (if own_process_group then sigkill_group root else [])"

datatype wait_result = Wait_ok | Wait_invalid_input | Wait_error string

fun reap :: "wait_result \<Rightarrow> string option" where
  "reap Wait_ok = None"
| "reap Wait_invalid_input = None"
| "reap (Wait_error e) = Some e"

section \<open>The polling loop\<close>

record watch =
  wt_root :: u32
  wt_limit :: u64
  wt_own_group :: bool
  wt_wait :: wait_result

type_synonym 's verdict = "(string + 's watch_end) \<times> int list"

definition kill_and :: "watch \<Rightarrow> u32 list \<Rightarrow> 's watch_end \<Rightarrow> 's verdict" where
  "kill_and w pids e =
     (case reap (wt_wait w) of Some err \<Rightarrow> Inl err | None \<Rightarrow> Inr e,
      signal_kill_tree (wt_root w) pids (wt_own_group w))"

definition absent_why :: "u32 \<Rightarrow> string" where
  "absent_why root = ''census did not include live pid '' @ show_nat (unat root) @ '' on '' @
     show_nat (CENSUS_DISAGREEMENT_RETRIES + 1) @ '' consecutive samples over 150ms; the process is still '' @
     ''running, so absence is not an exit and not a reading of zero''"

text \<open>The retries after a sample that does not list a root which \<open>try_wait\<close> reports alive.\<close>

datatype 's retry = Retry_more u64 u32 "(census_failure + observation) list" "(string + 's option) list"
  | Retry_done "'s verdict" | Retry_starved | Retry_absent

fun disagree :: "watch \<Rightarrow> nat \<Rightarrow> u64 \<Rightarrow> u32 \<Rightarrow> (census_failure + observation) list \<Rightarrow> (string + 's option) list \<Rightarrow> 's retry" where
  "disagree w 0 peak n ss ws = Retry_absent"
| "disagree w (Suc k) peak n ss ws =
     (case ws of
        [] \<Rightarrow> Retry_starved
      | Inl e # _ \<Rightarrow> Retry_done (Inl e, [])
      | Inr (Some status) # _ \<Rightarrow> Retry_done (Inr (Finished status peak n), [])
      | Inr None # ws' \<Rightarrow>
          (case ss of
             [] \<Rightarrow> Retry_starved
           | s # ss' \<Rightarrow>
               (case react s (wt_limit w) of
                  Continue rss \<Rightarrow> Retry_more (max peak rss) (sat_add n 1) ss' ws'
                | Over_cap rss pids \<Rightarrow> Retry_done (kill_and w pids (Exceeded (max peak rss)))
                | Fail_closed why \<Rightarrow> Retry_done (kill_and w [wt_root w] (Census_failed peak why))
                | Exited \<Rightarrow> disagree w k peak n ss' ws')))"

lemma disagree_shorter: "disagree w k peak n ss ws = Retry_more p m ss' ws' \<Longrightarrow> length ss' \<le> length ss"
  by (induction w k peak n ss ws rule: disagree.induct)
    (auto intro: le_SucI split: list.splits sum.splits option.splits reaction.splits)

function supervise_with :: "watch \<Rightarrow> u64 \<Rightarrow> u32 \<Rightarrow> (census_failure + observation) list \<Rightarrow> (string + 's option) list \<Rightarrow> 's verdict option" where
  "supervise_with w peak n [] ws = None"
| "supervise_with w peak n (s # ss) ws =
     (case react s (wt_limit w) of
        Continue rss \<Rightarrow>
          (case ws of
             [] \<Rightarrow> None
           | Inl e # _ \<Rightarrow> Some (Inl e, [])
           | Inr (Some status) # _ \<Rightarrow> Some (Inr (Finished status (max peak rss) (sat_add n 1)), [])
           | Inr None # ws' \<Rightarrow> supervise_with w (max peak rss) (sat_add n 1) ss ws')
      | Over_cap rss pids \<Rightarrow> Some (kill_and w pids (Exceeded (max peak rss)))
      | Fail_closed why \<Rightarrow> Some (kill_and w [wt_root w] (Census_failed peak why))
      | Exited \<Rightarrow>
          (case ws of
             [] \<Rightarrow> None
           | Inl e # _ \<Rightarrow> Some (Inl e, [])
           | Inr (Some status) # _ \<Rightarrow> Some (Inr (Finished status peak n), [])
           | Inr None # ws' \<Rightarrow>
               (case disagree w CENSUS_DISAGREEMENT_RETRIES peak n ss ws' of
                  Retry_more peak' n' ss' ws'' \<Rightarrow> supervise_with w peak' n' ss' ws''
                | Retry_done v \<Rightarrow> Some v
                | Retry_starved \<Rightarrow> None
                | Retry_absent \<Rightarrow>
                    Some (kill_and w [wt_root w] (Census_failed peak (absent_why (wt_root w)))))))"
  by pat_completeness auto
termination
  by (relation "measure (\<lambda>(w, peak, n, ss, ws). length ss)") (auto dest!: disagree_shorter)

definition supervise :: "watch \<Rightarrow> (census_failure + observation) list \<Rightarrow> (string + 's option) list \<Rightarrow> 's verdict option" where
  "supervise w ss ws = supervise_with w 0 0 ss ws"

section \<open>What a verdict means\<close>

definition alive :: "u64 \<times> u32 list \<Rightarrow> census_failure + observation" where
  "alive p = Inr (Alive_obs (fst p) (snd p))"

definition inside :: "u64 \<Rightarrow> (u64 \<times> u32 list) list \<Rightarrow> bool" where
  "inside lim good = list_all (\<lambda>p. fst p \<le> lim) good"

definition highest :: "u64 \<Rightarrow> (u64 \<times> u32 list) list \<Rightarrow> u64" where
  "highest peak good = fold (\<lambda>p m. max m (fst p)) good peak"

definition counted :: "u32 \<Rightarrow> (u64 \<times> u32 list) list \<Rightarrow> u32" where
  "counted n good = fold (\<lambda>_ m. sat_add m 1) good n"

lemma react_alive_le: "fst p \<le> lim \<Longrightarrow> react (alive p) lim = Continue (fst p)"
  by (simp add: react_def alive_def)

lemma supervise_prefix:
  "inside (wt_limit w) good \<Longrightarrow>
     supervise_with w peak n (map alive good @ ss) (replicate (length good) (Inr None) @ ws) =
     supervise_with w (highest peak good) (counted n good) ss ws"
  by (induction good arbitrary: peak n) (simp_all add: inside_def highest_def counted_def react_alive_le)

lemma highest_le: "inside lim good \<Longrightarrow> peak \<le> lim \<Longrightarrow> highest peak good \<le> lim"
  by (induction good arbitrary: peak) (auto simp: inside_def highest_def)

lemma disagree_exits:
  "k \<le> j \<Longrightarrow> disagree w j peak n (replicate k (Inr Exited_obs) @ ss) (replicate k (Inr None) @ ws) =
     disagree w (j - k) peak n ss ws"
proof (induction k arbitrary: j)
  case (Suc k)
  then obtain j' where "j = Suc j'" by (cases j) auto
  with Suc show ?case by (simp add: react_def)
qed simp

lemma disagree_more:
  "react s (wt_limit w) = Continue rss \<Longrightarrow> 0 < j \<Longrightarrow>
     disagree w j peak n (s # ss) (Inr None # ws) = Retry_more (max peak rss) (sat_add n 1) ss ws"
  by (cases j) simp_all

text \<open>The meaning of a verdict: a run reported as finished was never signalled and its peak is inside
  the limit; a run reported as exceeding it was over the limit and the root was killed; a failed
  census has killed the root.\<close>

fun honest :: "watch \<Rightarrow> 's verdict \<Rightarrow> bool" where
  "honest w (Inr (Finished _ peak _), sigs) = (peak \<le> wt_limit w \<and> sigs = [])"
| "honest w (Inr (Exceeded peak), sigs) = (wt_limit w < peak \<and> set (sigkill (wt_root w)) \<subseteq> set sigs)"
| "honest w (Inr (Census_failed peak _), sigs) =
     (peak \<le> wt_limit w \<and> sigs = signal_kill_tree (wt_root w) [wt_root w] (wt_own_group w))"
| "honest w (Inl _, sigs) = (sigs = [] \<or> (\<exists>e. wt_wait w = Wait_error e) \<and> set (sigkill (wt_root w)) \<subseteq> set sigs)"

lemma react_cases:
  "react s lim = Continue r \<Longrightarrow> r \<le> lim" "react s lim = Over_cap r pids \<Longrightarrow> lim < r"
  by (auto simp: react_def split: sum.splits observation.splits if_splits)

lemma honest_exceeded: "react s (wt_limit w) = Over_cap r pids \<Longrightarrow> honest w (kill_and w pids (Exceeded (max peak r)))"
  using react_cases(2) [of s "wt_limit w" r pids]
  by (cases "wt_wait w") (auto simp: kill_and_def signal_kill_tree_def less_max_iff_disj)

lemma honest_failed: "peak \<le> wt_limit w \<Longrightarrow> honest w (kill_and w [wt_root w] (Census_failed peak why))"
  by (cases "wt_wait w") (auto simp: kill_and_def signal_kill_tree_def)

lemma disagree_honest:
  "peak \<le> wt_limit w \<Longrightarrow> disagree w k peak n ss ws = Retry_done v \<Longrightarrow> honest w v"
  by (induction w k peak n ss ws rule: disagree.induct)
    (auto simp: honest_failed intro: honest_exceeded split: list.splits sum.splits option.splits reaction.splits)

lemma disagree_peak:
  "peak \<le> wt_limit w \<Longrightarrow> disagree w k peak n ss ws = Retry_more p m ss' ws' \<Longrightarrow> p \<le> wt_limit w"
  by (induction w k peak n ss ws rule: disagree.induct)
    (auto dest: react_cases(1) split: list.splits sum.splits option.splits reaction.splits)

lemma supervise_with_honest:
  "supervise_with w peak n ss ws = Some v \<Longrightarrow> peak \<le> wt_limit w \<Longrightarrow> honest w v"
proof (induction w peak n ss ws rule: supervise_with.induct)
  case (2 w peak n s ss ws)
  show ?case
  proof (cases "react s (wt_limit w)")
    case (Continue rss)
    then show ?thesis
      using 2 react_cases(1) [OF Continue] by (auto split: list.splits sum.splits option.splits)
  next
    case (Over_cap rss pids)
    then show ?thesis using 2(3) honest_exceeded [OF Over_cap] by auto
  next
    case Exited
    note step = 2(3) [unfolded supervise_with.simps Exited reaction.case]
    show ?thesis
    proof (cases "\<exists>ws'. ws = Inr None # ws'")
      case True
      then obtain ws' where ws: "ws = Inr None # ws'" by blast
      show ?thesis
      proof (cases "disagree w CENSUS_DISAGREEMENT_RETRIES peak n ss ws'")
        case (Retry_more p m ss' ws'')
        show ?thesis
          using 2(2) [OF Exited ws refl refl Retry_more] step disagree_peak [OF 2(4) Retry_more]
          by (simp add: ws Retry_more)
      qed (use step disagree_honest [OF 2(4)] honest_failed [OF 2(4)] in \<open>auto simp: ws\<close>)
    qed (use step 2(4) in \<open>auto split: list.splits sum.splits option.splits\<close>)
  next
    case (Fail_closed why)
    then show ?thesis using 2(3,4) honest_failed by auto
  qed
qed simp

lemma replicate_four: "replicate 4 x = x # replicate 3 x"
  by (simp add: numeral_eq_Suc)

lemma uint_below: "unat p < 2 ^ 31 \<Longrightarrow> uint (p :: u32) < 2 ^ 31"
  unfolding unat_eq_nat_uint by (subst (asm) nat_less_iff) auto

lemma sint_small: "unat p < 2 ^ 31 \<Longrightarrow> sint (p :: u32) = int (unat p)"
proof -
  assume "unat p < 2 ^ 31"
  then have p: "0 \<le> uint p" "uint p < 2 ^ 31" using uint_below by auto
  have "sint p = signed_take_bit 31 (uint p)" by (simp add: sint_uint)
  also have "\<dots> = uint p" using p by (intro signed_take_bit_int_eq_self) linarith+
  finally show ?thesis by simp
qed

lemma sint_neg_small: "unat p < 2 ^ 31 \<Longrightarrow> sint (- p :: u32) = - int (unat p)"
proof -
  assume "unat p < 2 ^ 31"
  then have p: "0 \<le> uint p" "uint p < 2 ^ 31" using uint_below by auto
  have "uint (- p) = take_bit 32 (- uint p)" by (simp add: uint_word_ariths take_bit_eq_mod)
  then have "sint (- p) = signed_take_bit 31 (take_bit 32 (- uint p))" by (simp add: sint_uint)
  also have "\<dots> = signed_take_bit 31 (- uint p)" by (simp add: signed_take_bit_take_bit)
  also have "\<dots> = - uint p" using p by (intro signed_take_bit_int_eq_self) linarith+
  finally show ?thesis by simp
qed

lemma sigkill_small: "unat p < 2 ^ 31 \<Longrightarrow> sigkill p = (if unat p \<le> 1 then [] else [int (unat p)])"
  by (simp add: sigkill_def sint_small word_le_nat_alt)

section \<open>Properties\<close>

text \<open>C30: Every verdict of the watch is honest, whatever the samples and the answers of wait are: a run
  reported as finished has a peak inside the limit and was never signalled; a run reported as
  exceeding the limit has a peak above it and the root was killed; a failed census killed the root
  and its group before it was reported, never becoming a reading.\<close>

theorem supervise_honest:
  assumes "supervise w ss ws = Some v"
  shows "honest w v"
  using supervise_with_honest [of w 0 0 ss ws v] assms by (simp add: supervise_def)

theorem supervise_honest_witness:
  "honest \<lparr>wt_root = 7, wt_limit = 100, wt_own_group = True, wt_wait = Wait_ok\<rparr>
     (Inr (Exceeded 101 :: unit watch_end), [8, 7, -7])"
proof -
  let ?w = "\<lparr>wt_root = 7, wt_limit = 100, wt_own_group = True, wt_wait = Wait_ok\<rparr>"
  have "supervise ?w [Inr (Alive_obs 60 [7]), Inr (Alive_obs 101 [7, 8])] [Inr None] =
      Some (Inr (Exceeded 101 :: unit watch_end), [8, 7, -7])"
    by (simp add: supervise_def react_def kill_and_def signal_kill_tree_def sigkill_def sigkill_group_def max_def word_le_nat_alt)
  then show ?thesis by (rule supervise_honest)
qed

text \<open>C29: The watch acts on the first sample that is not a reading inside the limit: after any number of
  such readings, with the child still running, a sample above the limit kills the listed tree, and
  a census that failed kills the root and reports the failure; up to three samples that do not list
  the running root are retried and a reading inside the limit then resumes the watch, while a
  fourth kills the root.\<close>

theorem supervise_reacts:
  assumes "inside (wt_limit w) good" "0 < k" "k \<le> 3" "fst p \<le> wt_limit w" "wt_limit w < r"
  shows "supervise w (map alive good @ Inr (Alive_obs r pids) # ss) (replicate (length good) (Inr None) @ ws) =
      Some (kill_and w pids (Exceeded r)) \<and>
    supervise w (map alive good @ Inl e # ss) (replicate (length good) (Inr None) @ ws) =
      Some (kill_and w [wt_root w] (Census_failed (highest 0 good) (census_failure_display e))) \<and>
    supervise w (map alive good @ replicate k (Inr Exited_obs) @ alive p # ss)
        (replicate (length good) (Inr None) @ replicate (k + 1) (Inr None) @ ws) =
      supervise_with w (max (highest 0 good) (fst p)) (sat_add (counted 0 good) 1) ss ws \<and>
    supervise w (map alive good @ replicate 4 (Inr Exited_obs) @ ss)
        (replicate (length good) (Inr None) @ replicate 4 (Inr None) @ ws) =
      Some (kill_and w [wt_root w] (Census_failed (highest 0 good) (absent_why (wt_root w))))"
proof (intro conjI)
  let ?h = "highest 0 good" and ?c = "counted 0 good"
  have le: "?h \<le> wt_limit w" using highest_le [OF assms(1)] by simp
  then have max: "max ?h r = r" using assms(5) by simp
  note pre = supervise_prefix [OF assms(1), of 0 0]
  show "supervise w (map alive good @ Inr (Alive_obs r pids) # ss) (replicate (length good) (Inr None) @ ws) =
      Some (kill_and w pids (Exceeded r))"
    using assms(5) unfolding supervise_def pre by (simp add: react_def max)
  show "supervise w (map alive good @ Inl e # ss) (replicate (length good) (Inr None) @ ws) =
      Some (kill_and w [wt_root w] (Census_failed ?h (census_failure_display e)))"
    unfolding supervise_def pre by (simp add: react_def)
  obtain j where k: "k = Suc j" using assms(2) by (cases k) auto
  have "disagree w 3 ?h ?c (replicate j (Inr Exited_obs) @ alive p # ss) (replicate j (Inr None) @ Inr None # ws) =
      Retry_more (max ?h (fst p)) (sat_add ?c 1) ss ws"
    using assms(3,4) by (subst disagree_exits) (auto simp: k intro!: disagree_more react_alive_le)
  then show "supervise w (map alive good @ replicate k (Inr Exited_obs) @ alive p # ss)
        (replicate (length good) (Inr None) @ replicate (k + 1) (Inr None) @ ws) =
      supervise_with w (max ?h (fst p)) (sat_add ?c 1) ss ws"
    unfolding supervise_def pre
    by (simp add: k react_def CENSUS_DISAGREEMENT_RETRIES_def replicate_app_Cons_same)
  have "disagree w 3 ?h ?c (replicate 3 (Inr Exited_obs) @ ss) (replicate 3 (Inr None) @ ws) = Retry_absent"
    by (subst disagree_exits) auto
  then show "supervise w (map alive good @ replicate 4 (Inr Exited_obs) @ ss)
        (replicate (length good) (Inr None) @ replicate 4 (Inr None) @ ws) =
      Some (kill_and w [wt_root w] (Census_failed ?h (absent_why (wt_root w))))"
    unfolding supervise_def pre by (simp add: react_def CENSUS_DISAGREEMENT_RETRIES_def replicate_four)
qed

theorem supervise_reacts_witness:
  "supervise \<lparr>wt_root = 7, wt_limit = 100, wt_own_group = True, wt_wait = Wait_ok\<rparr>
     (map alive [(60, [7])] @ replicate 2 (Inr Exited_obs) @ alive (90, [7]) # [])
     (replicate (length [(60, [7])]) (Inr None) @ replicate (2 + 1) (Inr None) @ [Inr (Some ())]) = None \<and>
   supervise \<lparr>wt_root = 7, wt_limit = 100, wt_own_group = True, wt_wait = Wait_ok\<rparr>
     (map alive [(60, [7])] @ Inr (Alive_obs 101 [7, 8]) # []) (replicate (length [(60, [7])]) (Inr None) @ []) =
     Some (Inr (Exceeded 101 :: unit watch_end), [8, 7, -7])"
proof -
  let ?w = "\<lparr>wt_root = 7, wt_limit = 100, wt_own_group = True, wt_wait = Wait_ok\<rparr>"
  have h: "inside (wt_limit ?w) [(60, [7])]" "(0 :: nat) < 2" "(2 :: nat) \<le> 3"
    "fst (90, [7 :: u32]) \<le> wt_limit ?w" "wt_limit ?w < 101"
    by (simp_all add: inside_def word_le_nat_alt word_less_nat_alt)
  have k: "kill_and ?w [7, 8] (Exceeded 101 :: unit watch_end) = (Inr (Exceeded 101), [8, 7, -7])"
    by (simp add: kill_and_def signal_kill_tree_def sigkill_def sigkill_group_def word_le_nat_alt)
  show ?thesis
    using supervise_reacts [OF h, where ss = "[]" and ws = "[] :: (string + unit option) list" and pids = "[7, 8]"]
      supervise_reacts [OF h, where ss = "[]" and ws = "[Inr (Some ())]"] k
    by simp
qed

text \<open>With pids below 2^31 the kill list is exact and safe: it signals each listed pid and the root
  exactly when the pid is above 1, so never the caller's group and never init; the root comes after
  all the others, and last of all its process group, if it leads one.\<close>

theorem kill_tree_exact:
  assumes "unat root < 2 ^ 31" "\<forall>p \<in> set pids. unat p < 2 ^ 31"
  shows "signal_kill_tree root pids own =
    map (\<lambda>p. int (unat p)) (filter (\<lambda>p. p \<noteq> root \<and> 1 < unat p) pids) @
    (if 1 < unat root then [int (unat root)] @ (if own then [- int (unat root)] else []) else [])"
proof -
  have "concat (map sigkill (filter (\<lambda>p. p \<noteq> root) pids)) =
      map (\<lambda>p. int (unat p)) (filter (\<lambda>p. p \<noteq> root \<and> 1 < unat p) pids)"
    using assms(2) by (induction pids) (auto simp: sigkill_small)
  then show ?thesis
    using assms(1) by (simp add: signal_kill_tree_def sigkill_small sigkill_group_def sint_neg_small word_le_nat_alt)
qed

theorem kill_tree_exact_witness: "signal_kill_tree 7 [7, 0, 9, 1, 8] True = [9, 8, 7, -7]"
  using kill_tree_exact [of 7 "[7, 0, 9, 1, 8]" True] by simp

text \<open>A pid above the signed range passes the guard of \<open>sigkill\<close>: the largest one is the call that
  signals every process.\<close>

lemma sigkill_everyone: "sigkill (- 1) = [- 1]"
  by (simp add: sigkill_def word_le_nat_alt unat_minus_one_max)

end
