(* ===== verification/Adjoint.thy ===== *)
theory Adjoint
  imports SvExpect
begin

text \<open>
  The adjoint gradient, \<^verbatim>\<open>crates/omega-backend-statevector/src/adjoint.rs\<close>, and the backend's
  \<^verbatim>\<open>adjoint_gradient\<close> of \<^verbatim>\<open>sim.rs\<close>: a forward sweep that keeps every intermediate state, the image of the
  final state under the observable, and a backward sweep that pulls this image back through the
  circuit while it adds up what each parameter slot contributes.  The hash map of the gradients is kept as
  an ordered map.
\<close>

section \<open>Gates\<close>

definition is_unitary :: "gate_kind \<Rightarrow> bool" where
  "is_unitary g = (g \<notin> {Measure, Barrier, Reset})"

text \<open>The parameters of an operation and its first qubit, which every gate reads.\<close>

definition with_resolved :: "gate_op \<Rightarrow> binding \<Rightarrow> (real list \<Rightarrow> nat \<Rightarrow> 'a run) \<Rightarrow> 'a run" where
  "with_resolved op b f =
     bind_run (or_fail (resolve_all b (op_params op))) (\<lambda>ps. bind_run (qubit_of op 0) (f ps))"

definition apply_gate_forward :: "complex list \<Rightarrow> nat \<Rightarrow> gate_op \<Rightarrow> binding \<Rightarrow> complex list run" where
  "apply_gate_forward st n op b = with_resolved op b (\<lambda>ps q0.
     let one = (\<lambda>g. or_panic (apply_1q st n q0 g));
         two = (\<lambda>g. bind_run (qubit_of op 1) (\<lambda>q1. or_panic (apply_2q st n q0 q1 g)))
     in case op_gate op of
       H \<Rightarrow> one gate_h
     | X \<Rightarrow> one gate_x
     | Y \<Rightarrow> one gate_y
     | Z \<Rightarrow> one gate_z
     | S \<Rightarrow> one gate_s
     | Sdg \<Rightarrow> one gate_sdg
     | Sx \<Rightarrow> one gate_sx
     | Sxdg \<Rightarrow> one gate_sxdg
     | T \<Rightarrow> one gate_t
     | Tdg \<Rightarrow> one gate_tdg
     | Id \<Rightarrow> Done st
     | Rx \<Rightarrow> bind_run (with1 gate_rx ps) one
     | Ry \<Rightarrow> bind_run (with1 gate_ry ps) one
     | Rz \<Rightarrow> bind_run (with1 gate_rz ps) one
     | U1 \<Rightarrow> bind_run (with1 gate_u1 ps) one
     | U2 \<Rightarrow> bind_run (with2 gate_u2 ps) one
     | U3 \<Rightarrow> bind_run (with3 gate_u3 ps) one
     | CX \<Rightarrow> two gate_cx
     | CY \<Rightarrow> two gate_cy
     | CZ \<Rightarrow> two gate_cz
     | Swap \<Rightarrow> two gate_swap
     | CRz \<Rightarrow> bind_run (with1 gate_crz ps) two
     | CU3 \<Rightarrow> bind_run (with3 gate_cu3 ps) two
     | Rbs \<Rightarrow> bind_run (with1 gate_rbs ps) two
     | CCX \<Rightarrow> on_3q (apply_ccx st n) op
     | CSwap \<Rightarrow> on_3q (apply_cswap st n) op
     | g \<Rightarrow> Failed (Unsupported (Adjoint_gate g)))"

definition apply_gate_derivative :: "complex list \<Rightarrow> nat \<Rightarrow> gate_op \<Rightarrow> binding \<Rightarrow> nat \<Rightarrow> complex list run" where
  "apply_gate_derivative st n op b param_idx = with_resolved op b (\<lambda>ps q0.
     let one = (\<lambda>g. or_panic (apply_1q st n q0 g));
         two = (\<lambda>g. bind_run (qubit_of op 1) (\<lambda>q1. or_panic (apply_2q st n q0 q1 g)));
         none = Failed (Unsupported (No_derivative (op_gate op) param_idx))
     in case op_gate op of
       Rx \<Rightarrow> if param_idx = 0 then bind_run (with1 gate_drx ps) one else none
     | Ry \<Rightarrow> if param_idx = 0 then bind_run (with1 gate_dry ps) one else none
     | Rz \<Rightarrow> if param_idx = 0 then bind_run (with1 gate_drz ps) one else none
     | U1 \<Rightarrow> if param_idx = 0 then bind_run (with1 gate_du1_dl ps) one else none
     | U2 \<Rightarrow> if param_idx = 0 then bind_run (with2 gate_du2_dp ps) one
             else if param_idx = 1 then bind_run (with2 gate_du2_dl ps) one else none
     | U3 \<Rightarrow> if param_idx = 0 then bind_run (with3 gate_du3_dt ps) one
             else if param_idx = 1 then bind_run (with3 gate_du3_dp ps) one
             else if param_idx = 2 then bind_run (with3 gate_du3_dl ps) one else none
     | CRz \<Rightarrow> if param_idx = 0 then bind_run (with1 gate_dcrz ps) two else none
     | CU3 \<Rightarrow> if param_idx = 0 then bind_run (with3 gate_dcu3_dt ps) two
              else if param_idx = 1 then bind_run (with3 gate_dcu3_dp ps) two
              else if param_idx = 2 then bind_run (with3 gate_dcu3_dl ps) two else none
     | Rbs \<Rightarrow> if param_idx = 0 then bind_run (with1 gate_drbs ps) two else none
     | _ \<Rightarrow> none)"

definition apply_adjoint_gate :: "complex list \<Rightarrow> nat \<Rightarrow> gate_op \<Rightarrow> binding \<Rightarrow> complex list run" where
  "apply_adjoint_gate st n op b = with_resolved op b (\<lambda>ps q0.
     let one = (\<lambda>g. or_panic (apply_1q st n q0 g));
         two = (\<lambda>g. bind_run (qubit_of op 1) (\<lambda>q1. or_panic (apply_2q st n q0 q1 g)))
     in case op_gate op of
       H \<Rightarrow> one gate_h
     | X \<Rightarrow> one gate_x
     | Y \<Rightarrow> one gate_y
     | Z \<Rightarrow> one gate_z
     | S \<Rightarrow> one gate_sdg
     | Sdg \<Rightarrow> one gate_s
     | Sx \<Rightarrow> one gate_sxdg
     | Sxdg \<Rightarrow> one gate_sx
     | T \<Rightarrow> one gate_tdg
     | Tdg \<Rightarrow> one gate_t
     | Id \<Rightarrow> Done st
     | Rx \<Rightarrow> bind_run (with1 gate_rx ps) (one \<circ> adjoint_1q)
     | Ry \<Rightarrow> bind_run (with1 gate_ry ps) (one \<circ> adjoint_1q)
     | Rz \<Rightarrow> bind_run (with1 gate_rz ps) (one \<circ> adjoint_1q)
     | U1 \<Rightarrow> bind_run (with1 gate_u1 ps) (one \<circ> adjoint_1q)
     | U2 \<Rightarrow> bind_run (with2 gate_u2 ps) (one \<circ> adjoint_1q)
     | U3 \<Rightarrow> bind_run (with3 gate_u3 ps) (one \<circ> adjoint_1q)
     | CX \<Rightarrow> two gate_cx
     | CY \<Rightarrow> two (adjoint_2q gate_cy)
     | CZ \<Rightarrow> two gate_cz
     | Swap \<Rightarrow> two gate_swap
     | CRz \<Rightarrow> bind_run (with1 gate_crz ps) (two \<circ> adjoint_2q)
     | CU3 \<Rightarrow> bind_run (with3 gate_cu3 ps) (two \<circ> adjoint_2q)
     | Rbs \<Rightarrow> bind_run (with1 (\<lambda>a. gate_rbs (- a)) ps) two
     | CCX \<Rightarrow> on_3q (apply_ccx st n) op
     | CSwap \<Rightarrow> on_3q (apply_cswap st n) op
     | g \<Rightarrow> Failed (Unsupported (Adjoint_gate g)))"

section \<open>The observable\<close>

text \<open>One term: every index adds its amplitude, times the coefficient, at its image.\<close>

fun add_images :: "pauli_string \<Rightarrow> real \<Rightarrow> complex list \<Rightarrow> nat list \<Rightarrow> complex list \<Rightarrow> complex list run" where
  "add_images ps coeff st [] res = Done res"
| "add_images ps coeff st (i # is) res =
     (let (j, phase) = fold (pauli_step i) ps (i, of_real coeff) in
      if list_ex (\<lambda>(q, _). 64 \<le> unat q) ps \<or> length res \<le> j \<or> length st \<le> i then Panicked
      else add_images ps coeff st is (res[j := res ! j + phase * st ! i]))"

fun add_terms :: "complex list \<Rightarrow> nat \<Rightarrow> observable \<Rightarrow> complex list \<Rightarrow> complex list run" where
  "add_terms st n [] res = Done res"
| "add_terms st n ((coeff, ps) # ts) res =
     bind_run (add_images ps coeff st [0..<push_bit n 1] res) (add_terms st n ts)"

definition apply_observable :: "complex list \<Rightarrow> nat \<Rightarrow> observable \<Rightarrow> complex list run" where
  "apply_observable st n a =
     (if 64 \<le> n then Panicked else add_terms st n a (replicate (push_bit n 1) 0))"

definition inner_product :: "complex list \<Rightarrow> complex list \<Rightarrow> complex" where
  "inner_product a b = sum_list (map (\<lambda>(x, y). cnj x * y) (zip a b))"

section \<open>Symbols\<close>

fun collect_symbols_inner :: "param_expr \<Rightarrow> u32 list \<Rightarrow> u32 list" where
  "collect_symbols_inner (Symbol i) out = out @ [i]"
| "collect_symbols_inner (Negate e) out = collect_symbols_inner e out"
| "collect_symbols_inner (Add e f) out = collect_symbols_inner f (collect_symbols_inner e out)"
| "collect_symbols_inner (Mul e f) out = collect_symbols_inner f (collect_symbols_inner e out)"
| "collect_symbols_inner (Concrete _) out = out"

definition collect_symbols :: "param_expr \<Rightarrow> u32 list" where
  "collect_symbols e = remdups_adj (sort (collect_symbols_inner e []))"

definition significant :: "real \<Rightarrow> bool" where
  "significant chain = (1 / 10 ^ 30 \<le> \<bar>chain\<bar>)"

fun active_symbols :: "binding \<Rightarrow> param_expr \<Rightarrow> u32 list \<Rightarrow> (u32 \<times> real) list run" where
  "active_symbols b e [] = Done []"
| "active_symbols b e (s # ss) =
     bind_run (or_fail (resolve_derivative b e s)) (\<lambda>chain.
       bind_run (active_symbols b e ss) (\<lambda>active.
         Done (if significant chain then (s, chain) # active else active)))"

section \<open>The sweeps\<close>

text \<open>The state after each gate is appended to the checkpoints.\<close>

fun forward_sweep :: "nat \<Rightarrow> binding \<Rightarrow> gate_op list \<Rightarrow> complex list \<Rightarrow> complex list list \<Rightarrow>
    (complex list \<times> complex list list) run" where
  "forward_sweep n b [] st checkpoints = Done (st, checkpoints)"
| "forward_sweep n b (op # ops) st checkpoints =
     bind_run (apply_gate_forward st n op b) (\<lambda>st'. forward_sweep n b ops st' (checkpoints @ [st']))"

definition add_gradient :: "u32 \<Rightarrow> real \<Rightarrow> (u32, real) btree \<Rightarrow> (u32, real) btree" where
  "add_gradient s v m = bt_insert s (bt_get_or 0 s m + v) m"

text \<open>The parameter slots of one operation.\<close>

fun slot_loop :: "complex list \<Rightarrow> complex list \<Rightarrow> nat \<Rightarrow> gate_op \<Rightarrow> binding \<Rightarrow> (nat \<times> param_expr) list \<Rightarrow>
    (u32, real) btree \<Rightarrow> (u32, real) btree run" where
  "slot_loop lam psi n op b [] m = Done m"
| "slot_loop lam psi n op b ((idx, e) # es) m =
     bind_run (active_symbols b e (collect_symbols e)) (\<lambda>active.
       if active = [] then slot_loop lam psi n op b es m
       else bind_run (apply_gate_derivative psi n op b idx) (\<lambda>du_psi.
         let ip = inner_product lam du_psi in
         slot_loop lam psi n op b es (fold (\<lambda>(s, chain). add_gradient s (2 * Re ip * chain)) active m)))"

fun backward_sweep :: "nat \<Rightarrow> binding \<Rightarrow> complex list list \<Rightarrow> (nat \<times> gate_op) list \<Rightarrow> complex list \<Rightarrow>
    (u32, real) btree \<Rightarrow> (u32, real) btree run" where
  "backward_sweep n b checkpoints [] lam m = Done m"
| "backward_sweep n b checkpoints ((step, op) # steps) lam m =
     bind_run (index_of checkpoints step) (\<lambda>psi.
       bind_run (slot_loop lam psi n op b (List.enumerate 0 (op_params op)) m) (\<lambda>m'.
         bind_run (apply_adjoint_gate lam n op b) (\<lambda>lam'.
           backward_sweep n b checkpoints steps lam' m')))"

text \<open>The width is shifted before it is checked: a build that checks its shifts panics there; in the
  others the check that follows refuses.\<close>

definition adjoint_gradient :: "sv_env \<Rightarrow> circuit_ir \<Rightarrow> binding \<Rightarrow> observable \<Rightarrow> (u32 \<times> real) list run" where
  "adjoint_gradient h c b a =
     (let n = unat (cir_qubits c);
          ops = filter (\<lambda>op. is_unitary (op_gate op)) (cir_ops c)
      in if checked_build h \<and> 64 \<le> n then Panicked
         else bind_run (check_adjoint (host_mem h) (cir_qubits c) (length ops) 1) (\<lambda>_.
           let init = sv_zero_state n in
           bind_run (forward_sweep n b ops init [init]) (\<lambda>(st, checkpoints).
             bind_run (apply_observable st n a) (\<lambda>lam.
               bind_run (backward_sweep n b checkpoints (rev (List.enumerate 0 ops)) lam []) (\<lambda>gradients.
                 Done (sort_key fst (map (\<lambda>(s, _). (s, bt_get_or 0 s gradients)) (cir_symbols c))))))))"

text \<open>The operation of the backend; \<open>None\<close> asks the caller for another method.\<close>

definition sv_adjoint_gradient :: "sv_env \<Rightarrow> circuit_ir \<Rightarrow> binding \<Rightarrow> observable \<Rightarrow> (u32 \<times> real) list option run" where
  "sv_adjoint_gradient h c b a =
     unless_error (refuse_qudits c ''statevector'')
       (unless_error (validate_qubits (cir_qubits c) a)
         (bind_run (or_fail (prepare_for_expectation c a)) (\<lambda>(d, a').
           if circuit_has_reset d then Done None
           else bind_run (adjoint_gradient h d b a') (\<lambda>g. Done (Some g)))))"

end
