(* ===== verification/AdjointGates.thy ===== *)
theory AdjointGates
  imports Adjoint SvAlgebra
begin

text \<open>
  What the three gate routines of the adjoint gradient compute: the forward one the action of the gate's
  matrix, the backward one the action of its adjoint, and the derivative one a partial derivative
  of the action; together they give the derivative of a state that passes through the gate.
\<close>

section \<open>Derivatives of lists of amplitudes\<close>

definition sv_deriv :: "nat \<Rightarrow> (real \<Rightarrow> complex list) \<Rightarrow> complex list \<Rightarrow> real \<Rightarrow> bool" where
  "sv_deriv n F D t \<longleftrightarrow> (\<forall>i < n. ((\<lambda>s. F s ! i) has_vector_derivative D ! i) (at t))"

lemma sv_deriv_entries: "entry_derivatives n F D t = sv_deriv n F D t"
  by (simp add: entry_derivatives_def sv_deriv_def has_vector_derivative_complex_iff has_real_derivative_iff_has_vector_derivative)

lemma sv_deriv_cong: "sv_deriv n F D t \<Longrightarrow> (\<And>i. i < n \<Longrightarrow> D ! i = E ! i) \<Longrightarrow> sv_deriv n F E t"
  by (simp add: sv_deriv_def)

lemma sv_deriv_nth: "sv_deriv n F D t \<Longrightarrow> i < n \<Longrightarrow> ((\<lambda>s. F s ! i) has_vector_derivative D ! i) (at t)"
  by (simp add: sv_deriv_def)

text \<open>A weighted sum of lists, entry by entry.\<close>

definition combine :: "nat \<Rightarrow> (real \<times> complex list) list \<Rightarrow> complex list" where
  "combine n ts = map (\<lambda>i. \<Sum>(c, v)\<leftarrow>ts. of_real c * v ! i) [0..<n]"

lemma length_combine [simp]: "length (combine n ts) = n"
  by (simp add: combine_def)

lemma combine_nth [simp]: "i < n \<Longrightarrow> combine n ts ! i = (\<Sum>(c, v)\<leftarrow>ts. of_real c * v ! i)"
  by (simp add: combine_def)

text \<open>A function of one real argument composed with another.\<close>

lemma sv_deriv_chain:
  assumes "entry_derivatives n G D (f t)" "(f has_real_derivative f') (at t)"
  shows "sv_deriv n (\<lambda>s. G (f s)) (combine n [(f', D)]) t"
  using assms
  unfolding sv_deriv_entries [symmetric] entry_derivatives_def
  by (auto intro!: DERIV_chain2 [where g = f] simp: mult.commute [of f'])

lemma u3_deriv:
  assumes "(f has_real_derivative f') (at t)" "(g has_real_derivative g') (at t)" "(h has_real_derivative h') (at t)"
  shows "sv_deriv 4 (\<lambda>s. gate_u3 (f s) (g s) (h s))
    (combine 4 [(f', gate_du3_dt (f t) (g t) (h t)), (g', gate_du3_dp (f t) (g t) (h t)), (h', gate_du3_dl (f t) (g t) (h t))]) t"
proof -
  note [derivative_intros] = DERIV_chain2 [OF DERIV_cos] DERIV_chain2 [OF DERIV_sin]
  show ?thesis
  unfolding sv_deriv_entries [symmetric] entry_derivatives_def all_less_4
  using assms
  by (simp add: gate_u3_def gate_du3_dt_def gate_du3_dp_def gate_du3_dl_def Let_def ei_def numeral_2_eq_2 numeral_3_eq_3)
    (auto intro!: derivative_eq_intros simp: algebra_simps)
qed

section \<open>Partial derivatives of the matrices\<close>

fun partials1 :: "gate_kind \<Rightarrow> real list \<Rightarrow> gate1q list" where
  "partials1 Rx ps = [gate_drx (ps ! 0)]" | "partials1 Ry ps = [gate_dry (ps ! 0)]"
| "partials1 Rz ps = [gate_drz (ps ! 0)]" | "partials1 U1 ps = [gate_du1_dl (ps ! 0)]"
| "partials1 U2 ps = [gate_du2_dp (ps ! 0) (ps ! 1), gate_du2_dl (ps ! 0) (ps ! 1)]"
| "partials1 U3 ps = [gate_du3_dt (ps ! 0) (ps ! 1) (ps ! 2), gate_du3_dp (ps ! 0) (ps ! 1) (ps ! 2),
     gate_du3_dl (ps ! 0) (ps ! 1) (ps ! 2)]"
| "partials1 _ ps = []"

fun partials2 :: "gate_kind \<Rightarrow> real list \<Rightarrow> gate2q list" where
  "partials2 CRz ps = [gate_dcrz (ps ! 0)]" | "partials2 Rbs ps = [gate_drbs (ps ! 0)]"
| "partials2 CU3 ps = [gate_dcu3_dt (ps ! 0) (ps ! 1) (ps ! 2), gate_dcu3_dp (ps ! 0) (ps ! 1) (ps ! 2),
     gate_dcu3_dl (ps ! 0) (ps ! 1) (ps ! 2)]"
| "partials2 _ ps = []"

text \<open>Parameters that move with one variable, and their velocities.\<close>

definition moving :: "(real \<Rightarrow> real list) \<Rightarrow> real list \<Rightarrow> nat \<Rightarrow> real \<Rightarrow> bool" where
  "moving P ds k t \<longleftrightarrow> length ds = k \<and> (\<forall>s. length (P s) = k) \<and>
     (\<forall>i < k. ((\<lambda>s. P s ! i) has_real_derivative ds ! i) (at t))"

lemma moving_nth: "moving P ds k t \<Longrightarrow> i < k \<Longrightarrow> ((\<lambda>s. P s ! i) has_real_derivative ds ! i) (at t)"
  by (simp add: moving_def)

lemma moving_zip:
  "moving P ds 0 t \<Longrightarrow> ds = []" "moving P ds 1 t \<Longrightarrow> zip ds [a] = [(ds ! 0, a)]"
  "moving P ds 2 t \<Longrightarrow> zip ds [a, b] = [(ds ! 0, a), (ds ! 1, b)]"
  "moving P ds 3 t \<Longrightarrow> zip ds [a, b, c] = [(ds ! 0, a), (ds ! 1, b), (ds ! 2, c)]"
  by (auto simp: moving_def numeral_2_eq_2 numeral_3_eq_3 length_Suc_conv)

lemma sv_deriv_const: "sv_deriv n (\<lambda>_. M) (combine n []) t"
  by (simp add: sv_deriv_def)

lemma matrix1_deriv:
  assumes "moving P ds (num_params g) t" "matrix1 g (P t) \<noteq> None"
  shows "sv_deriv 4 (\<lambda>s. the (matrix1 g (P s))) (combine 4 (zip ds (partials1 g (P t)))) t"
proof -
  have one: "num_params g = 1 \<Longrightarrow> entry_derivatives 4 G D (P t ! 0) \<Longrightarrow>
      sv_deriv 4 (\<lambda>s. G (P s ! 0)) (combine 4 (zip ds [D])) t" for G D
    using moving_zip(2) [of P ds t D] moving_nth [OF assms(1), of 0] assms(1)
      sv_deriv_chain [of 4 G D "\<lambda>s. P s ! 0" t "ds ! 0"] by simp
  show ?thesis
  proof (cases g)
    case U3
    then show ?thesis
      using assms(1) u3_deriv [OF moving_nth [OF assms(1), of 0] moving_nth [OF assms(1), of 1] moving_nth [OF assms(1), of 2]]
      by (simp add: moving_zip(4) [of P ds t])
  next
    case U2
    have "sv_deriv 4 (\<lambda>s. gate_u3 (pi / 2) (P s ! 0) (P s ! 1))
      (combine 4 [(0, gate_du3_dt (pi / 2) (P t ! 0) (P t ! 1)), (ds ! 0, gate_du3_dp (pi / 2) (P t ! 0) (P t ! 1)),
         (ds ! 1, gate_du3_dl (pi / 2) (P t ! 0) (P t ! 1))]) t"
      using u3_deriv [OF DERIV_const moving_nth [OF assms(1), of 0] moving_nth [OF assms(1), of 1]] U2 by simp
    then have "sv_deriv 4 (\<lambda>s. gate_u3 (pi / 2) (P s ! 0) (P s ! 1))
      (combine 4 [(ds ! 0, gate_du2_dp (P t ! 0) (P t ! 1)), (ds ! 1, gate_du2_dl (P t ! 0) (P t ! 1))]) t"
      by (rule sv_deriv_cong) (simp add: gate_du2_dp_def gate_du2_dl_def)
    then show ?thesis
      using assms(1) U2 by (simp add: gate_u2_def moving_zip(3) [of P ds t])
  qed (use assms moving_zip(1) [of P ds t] one entry_derivatives_1q in \<open>simp_all add: sv_deriv_const\<close>)
qed

lemma cu3_deriv:
  assumes "(f has_real_derivative f') (at t)" "(g has_real_derivative g') (at t)" "(h has_real_derivative h') (at t)"
  shows "sv_deriv 16 (\<lambda>s. gate_cu3 (f s) (g s) (h s))
    (combine 16 [(f', gate_dcu3_dt (f t) (g t) (h t)), (g', gate_dcu3_dp (f t) (g t) (h t)), (h', gate_dcu3_dl (f t) (g t) (h t))]) t"
proof -
  have "sv_deriv 16 (\<lambda>s. gate_cu3 (f s) (g s) (h s)) (lower_block (combine 4
      [(f', gate_du3_dt (f t) (g t) (h t)), (g', gate_du3_dp (f t) (g t) (h t)), (h', gate_du3_dl (f t) (g t) (h t))])) t"
    using entry_derivatives_lower [of "\<lambda>s. gate_u3 (f s) (g s) (h s)"] u3_deriv [OF assms]
    by (simp add: sv_deriv_entries controlled_gates(5))
  then show ?thesis
  proof (rule sv_deriv_cong)
    fix i :: nat assume i: "i < 16"
    have "of_real f' * lower_block a ! i + (of_real g' * lower_block b ! i + of_real h' * lower_block c ! i) =
        lower_block (combine 4 [(f', a), (g', b), (h', c)]) ! i" for a b c
      using i by (auto simp: lower_block_def numeral_eq_Suc less_Suc_eq)
    then show "lower_block (combine 4 [(f', gate_du3_dt (f t) (g t) (h t)), (g', gate_du3_dp (f t) (g t) (h t)),
        (h', gate_du3_dl (f t) (g t) (h t))]) ! i = combine 16 [(f', gate_dcu3_dt (f t) (g t) (h t)),
        (g', gate_dcu3_dp (f t) (g t) (h t)), (h', gate_dcu3_dl (f t) (g t) (h t))] ! i"
      using i by (simp add: gate_dcu3_dt_def gate_dcu3_dp_def gate_dcu3_dl_def)
  qed
qed

lemma matrix2_deriv:
  assumes "moving P ds (num_params g) t" "matrix2 g (P t) \<noteq> None"
  shows "sv_deriv 16 (\<lambda>s. the (matrix2 g (P s))) (combine 16 (zip ds (partials2 g (P t)))) t"
proof -
  have one: "num_params g = 1 \<Longrightarrow> entry_derivatives 16 G D (P t ! 0) \<Longrightarrow>
      sv_deriv 16 (\<lambda>s. G (P s ! 0)) (combine 16 (zip ds [D])) t" for G D
    using moving_zip(2) [of P ds t D] moving_nth [OF assms(1), of 0] assms(1)
      sv_deriv_chain [of 16 G D "\<lambda>s. P s ! 0" t "ds ! 0"] by simp
  show ?thesis
  proof (cases g)
    case CU3
    then show ?thesis
      using assms(1) cu3_deriv [OF moving_nth [OF assms(1), of 0] moving_nth [OF assms(1), of 1] moving_nth [OF assms(1), of 2]]
      by (simp add: moving_zip(4) [of P ds t])
  qed (use assms moving_zip(1) [of P ds t] one entry_derivatives_2q in \<open>simp_all add: sv_deriv_const\<close>)
qed

section \<open>Derivatives of gate actions\<close>

definition slot_actions :: "gate_kind \<Rightarrow> real list \<Rightarrow> nat list \<Rightarrow> complex list \<Rightarrow> complex list list" where
  "slot_actions g ps qs st =
     map (\<lambda>m. dense_1q (qs ! 0) m st) (partials1 g ps) @ map (\<lambda>m. dense_2q (qs ! 0) (qs ! 1) m st) (partials2 g ps)"

lemma dense_1q_combine:
  assumes "length st = 2 ^ n" "i < 2 ^ n"
  shows "dense_1q q (combine 4 ts) st ! i = (\<Sum>(c, m)\<leftarrow>ts. of_real c * dense_1q q m st ! i)"
  using assms by (induction ts) (auto simp: dense_1q_nth combine_def algebra_simps)

lemma row_2q_less: "row_2q q r x < 4"
  by (simp add: row_2q_def)

lemma dense_2q_combine:
  assumes "length st = 2 ^ n" "i < 2 ^ n"
  shows "dense_2q q r (combine 16 ts) st ! i = (\<Sum>(c, m)\<leftarrow>ts. of_real c * dense_2q q r m st ! i)"
proof -
  have "4 * row_2q q r i + 3 < 16" using row_2q_less [of q r i] by linarith
  then show ?thesis using assms by (induction ts) (auto simp: dense_2q_def algebra_simps)
qed

lemma has_vector_derivative_entry:
  assumes "sv_deriv m M M' t" "sv_deriv N \<psi> \<delta> t" "a < m" "y < N"
  shows "((\<lambda>s. M s ! a * \<psi> s ! y) has_vector_derivative M t ! a * \<delta> ! y + M' ! a * \<psi> t ! y) (at t)"
  using has_vector_derivative_mult [OF sv_deriv_nth [OF assms(1,3)] sv_deriv_nth [OF assms(2,4)]] by simp

lemma dense_1q_deriv:
  assumes "sv_deriv 4 M M' t" "sv_deriv (2 ^ n) \<psi> \<delta> t" "\<And>s. length (\<psi> s) = 2 ^ n" "length \<delta> = 2 ^ n" "q < n" "x < 2 ^ n"
  shows "((\<lambda>s. dense_1q q (M s) (\<psi> s) ! x) has_vector_derivative
    dense_1q q (M t) \<delta> ! x + dense_1q q M' (\<psi> t) ! x) (at t)"
proof -
  note e = has_vector_derivative_entry [OF assms(1,2)]
  have l: "put_bit q u x < 2 ^ n" for u using put_bit_less [OF assms(6,5)] .
  have a: "2 * of_bool (bit x q) + 1 < (4 :: nat)" "2 * of_bool (bit x q) < (4 :: nat)" by auto
  show ?thesis
    using has_vector_derivative_add [OF e [OF a(2) l [of False]] e [OF a(1) l [of True]]] assms(3,4,6)
    by (simp add: dense_1q_nth algebra_simps)
qed

lemma dense_2q_deriv:
  assumes "sv_deriv 16 M M' t" "sv_deriv (2 ^ n) \<psi> \<delta> t" "\<And>s. length (\<psi> s) = 2 ^ n" "length \<delta> = 2 ^ n"
    "q < n" "r < n" "x < 2 ^ n"
  shows "((\<lambda>s. dense_2q q r (M s) (\<psi> s) ! x) has_vector_derivative
    dense_2q q r (M t) \<delta> ! x + dense_2q q r M' (\<psi> t) ! x) (at t)"
proof -
  note e = has_vector_derivative_entry [OF assms(1,2)]
  have l: "put_bit q u (put_bit r v x) < 2 ^ n" for u v using put_bit_less [OF put_bit_less [OF assms(7,6)] assms(5)] .
  have a: "4 * row_2q q r x < 16" "4 * row_2q q r x + 1 < 16" "4 * row_2q q r x + 2 < 16" "4 * row_2q q r x + 3 < 16"
    using row_2q_less [of q r x] by linarith+
  show ?thesis
    using has_vector_derivative_add [OF has_vector_derivative_add [OF has_vector_derivative_add [OF
      e [OF a(1) l [of False False]] e [OF a(2) l [of False True]]] e [OF a(3) l [of True False]]] e [OF a(4) l [of True True]]]
      assms(3,4,7)
    by (simp add: dense_2q_def algebra_simps)
qed

lemma matrix_None: "(matrix1 g ps = None) = (matrix1 g qs = None)" "(matrix2 g ps = None) = (matrix2 g qs = None)"
  by (cases g; simp)+

lemma partials_arity:
  "matrix1 g ps \<noteq> None \<Longrightarrow> partials2 g qs = []" "matrix2 g ps \<noteq> None \<Longrightarrow> partials1 g qs = []"
  "g \<in> {CCX, CSwap, Id} \<Longrightarrow> partials1 g qs = [] \<and> partials2 g qs = []"
  by (cases g; simp)+

lemma length_slot_actions: "unitary_gate g \<Longrightarrow> length (slot_actions g ps qs st) = num_params g"
  by (cases g) (simp_all add: slot_actions_def)

lemma unitary_gate_cases:
  assumes "unitary_gate g"
  obtains (one) "matrix1 g ps \<noteq> None" | (two) "matrix2 g ps \<noteq> None" "matrix1 g ps = None"
    | (none) "g \<in> {CCX, CSwap, Id}" "matrix1 g ps = None" "matrix2 g ps = None"
  using assms by (cases g) auto

lemma zip_slots: "zip ds (map f xs) = map (\<lambda>(c, m). (c, f m)) (zip ds xs)"
  by (simp add: zip_map2)

lemma permuted_deriv:
  assumes "sv_deriv (2 ^ n) \<psi> \<delta> t" "\<And>s. length (\<psi> s) = 2 ^ n" "length \<delta> = 2 ^ n" "\<And>x. x < 2 ^ n \<Longrightarrow> \<pi> x < 2 ^ n"
  shows "sv_deriv (2 ^ n) (\<lambda>s. permuted \<pi> (\<psi> s)) (permuted \<pi> \<delta>) t"
  using assms by (simp add: sv_deriv_def permuted_def)

text \<open>The derivative of a state behind a gate: the action on the derivative before it, plus the slots,
  each with its velocity.\<close>

lemma gate_action_deriv:
  assumes "valid_op n op" "unitary_gate (op_gate op)" "moving P ds (num_params (op_gate op)) t"
    "sv_deriv (2 ^ n) \<psi> \<delta> t" "\<And>s. length (\<psi> s) = 2 ^ n" "length \<delta> = 2 ^ n"
  shows "sv_deriv (2 ^ n) (\<lambda>s. gate_action (op_gate op) (P s) (map unat (op_qubits op)) (\<psi> s))
    (combine (2 ^ n) ((1, gate_action (op_gate op) (P t) (map unat (op_qubits op)) \<delta>) #
      zip ds (slot_actions (op_gate op) (P t) (map unat (op_qubits op)) (\<psi> t)))) t"
  using assms(2)
proof (cases rule: unitary_gate_cases [where ps = "P t"])
  case one
  define m where "m s = the (matrix1 (op_gate op) (P s))" for s
  have m: "matrix1 (op_gate op) (P s) = Some (m s)" for s
    using one matrix_None(1) [of "op_gate op" "P t" "P s"] by (auto simp: m_def)
  note b = num_bounds(1) [OF m]
  have q: "unat (op_qubits op ! 0) < n" "map unat (op_qubits op) ! 0 = unat (op_qubits op ! 0)"
    using valid_op_nth(2) [OF assms(1) b] op_qubits_nth [OF assms(1) b] by auto
  have d: "sv_deriv 4 m (combine 4 (zip ds (partials1 (op_gate op) (P t)))) t"
    using matrix1_deriv [OF assms(3) one] by (simp add: m)
  show ?thesis
    unfolding sv_deriv_def
    using dense_1q_deriv [OF d assms(4-6) q(1)] assms(5) partials_arity(1) [OF one]
    by (simp add: gate_action_def m q(2) slot_actions_def dense_1q_combine [where n = n] zip_slots comp_def case_prod_unfold)
next
  case two
  define m where "m s = the (matrix2 (op_gate op) (P s))" for s
  have m: "matrix2 (op_gate op) (P s) = Some (m s)" for s
    using two(1) matrix_None(2) [of "op_gate op" "P t" "P s"] by (auto simp: m_def)
  have m1: "matrix1 (op_gate op) (P s) = None" for s using two(2) matrix_None(1) [of "op_gate op" "P t" "P s"] by simp
  note b = num_bounds(2) [OF m]
  then have b0: "0 < num_qubits (op_gate op)" by simp
  have q: "unat (op_qubits op ! 0) < n" "map unat (op_qubits op) ! 0 = unat (op_qubits op ! 0)"
    "unat (op_qubits op ! 1) < n" "map unat (op_qubits op) ! 1 = unat (op_qubits op ! 1)"
    using valid_op_nth(2) [OF assms(1) b] op_qubits_nth [OF assms(1) b] valid_op_nth(2) [OF assms(1) b0]
      op_qubits_nth [OF assms(1) b0] by auto
  have d: "sv_deriv 16 m (combine 16 (zip ds (partials2 (op_gate op) (P t)))) t"
    using matrix2_deriv [OF assms(3) two(1)] by (simp add: m)
  show ?thesis
    unfolding sv_deriv_def
    using dense_2q_deriv [OF d assms(4-6) q(1,3)] assms(5) partials_arity(2) [OF two(1)]
    by (simp add: gate_action_def m m1 q(2,4) [simplified] slot_actions_def dense_2q_combine [where n = n] zip_slots comp_def case_prod_unfold)
next
  case none
  have l: "(\<And>x. x < 2 ^ n \<Longrightarrow> toffoli (map unat (op_qubits op) ! 0) (map unat (op_qubits op) ! 1) (map unat (op_qubits op) ! 2) x < 2 ^ n)"
    "(\<And>x. x < 2 ^ n \<Longrightarrow> fredkin (map unat (op_qubits op) ! 0) (map unat (op_qubits op) ! 1) (map unat (op_qubits op) ! 2) x < 2 ^ n)"
    if "op_gate op \<in> {CCX, CSwap}" using three_qubit_less [OF assms(1) that] by blast+
  have "sv_deriv (2 ^ n) (\<lambda>s. gate_action (op_gate op) (P s) (map unat (op_qubits op)) (\<psi> s))
      (gate_action (op_gate op) (P t) (map unat (op_qubits op)) \<delta>) t"
    using none(1) permuted_deriv [OF assms(4-6) l(1)] permuted_deriv [OF assms(4-6) l(2)] assms(4)
    by (auto simp: gate_action_three gate_action_def)
  then show ?thesis
    by (rule sv_deriv_cong) (use partials_arity(3) [OF none(1)] in \<open>simp add: slot_actions_def\<close>)
qed

section \<open>The three routines\<close>

definition adjoint_action :: "gate_kind \<Rightarrow> real list \<Rightarrow> nat list \<Rightarrow> complex list \<Rightarrow> complex list" where
  "adjoint_action g ps qs st =
     (case matrix1 g ps of Some m \<Rightarrow> dense_1q (qs ! 0) (adjoint_1q m) st
      | None \<Rightarrow> (case matrix2 g ps of Some m \<Rightarrow> dense_2q (qs ! 0) (qs ! 1) (adjoint_2q m) st
      | None \<Rightarrow> gate_action g ps qs st))"

lemma length_adjoint_action [simp]: "length (adjoint_action g ps qs st) = length st"
  by (simp add: adjoint_action_def split: option.split)

lemma adjoint_constants:
  "adjoint_1q gate_h = gate_h" "adjoint_1q gate_x = gate_x" "adjoint_1q gate_y = gate_y" "adjoint_1q gate_z = gate_z"
  "adjoint_1q gate_s = gate_sdg" "adjoint_1q gate_sdg = gate_s" "adjoint_1q gate_sx = gate_sxdg"
  "adjoint_1q gate_sxdg = gate_sx" "adjoint_1q gate_t = gate_tdg" "adjoint_1q gate_tdg = gate_t"
  by (simp_all add: adjoint_1q_def gate1q_defs Let_def complex_eq_iff isqrt2_def ei_def numeral_2_eq_2 numeral_3_eq_3)

lemma adjoint_constants2:
  "adjoint_2q gate_cx = gate_cx" "adjoint_2q gate_cz = gate_cz" "adjoint_2q gate_swap = gate_swap"
  "adjoint_2q (gate_rbs \<theta>) = gate_rbs (- \<theta>)"
  by (simp_all add: adjoint_2q_def upt_rec gate2q_defs Let_def complex_eq_iff)

lemma length_adjoint_2q: "length (adjoint_2q g) = 16"
  by (simp add: adjoint_2q_def upt_rec)

lemma with_resolved_value:
  assumes "valid_op n op" "unitary_gate (op_gate op)" "resolve_all b (op_params op) = Inr ps"
  shows "with_resolved op b f = f ps (unat (op_qubits op ! 0))"
proof -
  have "0 < num_qubits (op_gate op)" using assms(2) by (cases "op_gate op") auto
  then show ?thesis using valid_op_nth(1) [OF assms(1), of 0] assms(3) by (simp add: with_resolved_def or_fail_def)
qed

lemma valid_qubits:
  assumes "valid_op n op" "length st = 2 ^ n" "n \<le> 64"
  shows "1 \<le> num_qubits (op_gate op) \<Longrightarrow> apply_1q st n (unat (op_qubits op ! 0)) g = Some (dense_1q (map unat (op_qubits op) ! 0) g st)"
    "2 \<le> num_qubits (op_gate op) \<Longrightarrow> qubit_of op (Suc 0) = Done (map unat (op_qubits op) ! Suc 0)"
    "2 \<le> num_qubits (op_gate op) \<Longrightarrow> length g2 = 16 \<Longrightarrow>
      apply_2q st n (unat (op_qubits op ! 0)) (map unat (op_qubits op) ! Suc 0) g2 =
      Some (dense_2q (map unat (op_qubits op) ! 0) (map unat (op_qubits op) ! Suc 0) g2 st)"
proof -
  note nth = valid_op_nth [OF assms(1)] and q = op_qubits_nth [OF assms(1)]
  show "1 \<le> num_qubits (op_gate op) \<Longrightarrow> apply_1q st n (unat (op_qubits op ! 0)) g = Some (dense_1q (map unat (op_qubits op) ! 0) g st)"
    using nth(2) [of 0] q [of 0] kernels(1) [OF assms(2,3)] by simp
  show "2 \<le> num_qubits (op_gate op) \<Longrightarrow> qubit_of op (Suc 0) = Done (map unat (op_qubits op) ! Suc 0)"
    using nth(1) [of 1] q [of 1] by simp
  show "2 \<le> num_qubits (op_gate op) \<Longrightarrow> length g2 = 16 \<Longrightarrow>
      apply_2q st n (unat (op_qubits op ! 0)) (map unat (op_qubits op) ! Suc 0) g2 =
      Some (dense_2q (map unat (op_qubits op) ! 0) (map unat (op_qubits op) ! Suc 0) g2 st)"
    using nth(2) [of 0] nth(2) [of 1] nth(3) [of 0 1] q [of 0] q [of 1] kernels(3) [OF assms(2,3)] by simp
qed

lemma three_qubit_kernels:
  assumes "valid_op n op" "length st = 2 ^ n" "n \<le> 64"
  shows "op_gate op = CCX \<Longrightarrow> on_3q (apply_ccx st n) op = Done (gate_action CCX ps (map unat (op_qubits op)) st)"
    "op_gate op = CSwap \<Longrightarrow> on_3q (apply_cswap st n) op = Done (gate_action CSwap ps (map unat (op_qubits op)) st)"
proof -
  note q = op_qubits_nth [OF assms(1)]
  show "op_gate op = CCX \<Longrightarrow> on_3q (apply_ccx st n) op = Done (gate_action CCX ps (map unat (op_qubits op)) st)"
    using on_3q_valid [OF assms(1), of "apply_ccx st n" "\<lambda>a b c. permuted (toffoli a b c) st"] kernels(5) [OF assms(2,3)]
      q [of 0] q [of 1] q [of 2] by (simp add: gate_action_three)
  show "op_gate op = CSwap \<Longrightarrow> on_3q (apply_cswap st n) op = Done (gate_action CSwap ps (map unat (op_qubits op)) st)"
    using on_3q_valid [OF assms(1), of "apply_cswap st n" "\<lambda>a b c. permuted (fredkin a b c) st"] kernels(6) [OF assms(2,3)]
      q [of 0] q [of 1] q [of 2] by (simp add: gate_action_three)
qed

lemma gate_params:
  assumes "valid_op n op" "resolve_all b (op_params op) = Inr ps"
  shows "num_params (op_gate op) \<le> length ps"
  using resolve_all_length [OF assms(2)] assms(1) by (simp add: valid_op_def)

lemma length_constants:
  "length gate_cx = 16" "length gate_cy = 16" "length gate_cz = 16" "length gate_swap = 16" "length (gate_crz a) = 16"
  "length (gate_cu3 a c d) = 16" "length (gate_rbs a) = 16" "length (gate_dcrz a) = 16" "length (gate_drbs a) = 16"
  "length (gate_dcu3_dt a c d) = 16" "length (gate_dcu3_dp a c d) = 16" "length (gate_dcu3_dl a c d) = 16"
  by (simp_all add: gate2q_defs gate_dcrz_def gate_drbs_def gate_dcu3_dt_def gate_dcu3_dp_def gate_dcu3_dl_def
      lower_block_def Let_def)

lemma apply_gate_forward_value:
  assumes "valid_op n op" "length st = 2 ^ n" "n \<le> 64" "unitary_gate (op_gate op)" "resolve_all b (op_params op) = Inr ps"
  shows "apply_gate_forward st n op b = Done (gate_action (op_gate op) ps (map unat (op_qubits op)) st)"
  using assms(4) gate_params [OF assms(1,5)]
  by (cases "op_gate op")
    (simp_all add: apply_gate_forward_def with_resolved_value [OF assms(1,4,5)] valid_qubits [OF assms(1-3)] or_panic_def
      gate_action_def with_params three_qubit_kernels [OF assms(1-3), of ps, unfolded gate_action_three] Let_def length_constants)

lemma apply_adjoint_gate_value:
  assumes "valid_op n op" "length st = 2 ^ n" "n \<le> 64" "unitary_gate (op_gate op)" "resolve_all b (op_params op) = Inr ps"
  shows "apply_adjoint_gate st n op b = Done (adjoint_action (op_gate op) ps (map unat (op_qubits op)) st)"
  using assms(4) gate_params [OF assms(1,5)]
  by (cases "op_gate op")
    (simp_all add: apply_adjoint_gate_def with_resolved_value [OF assms(1,4,5)] valid_qubits [OF assms(1-3)] or_panic_def
      adjoint_action_def with_params three_qubit_kernels [OF assms(1-3), of ps] length_adjoint_2q adjoint_constants
      adjoint_constants2 length_constants gate_action_def [of Id])

lemma apply_gate_derivative_value:
  assumes "valid_op n op" "length st = 2 ^ n" "n \<le> 64" "unitary_gate (op_gate op)" "resolve_all b (op_params op) = Inr ps"
    "k < num_params (op_gate op)"
  shows "apply_gate_derivative st n op b k = Done (slot_actions (op_gate op) ps (map unat (op_qubits op)) st ! k)"
  using assms(4,6) gate_params [OF assms(1,5)]
  by (cases "op_gate op")
    (auto simp: apply_gate_derivative_def with_resolved_value [OF assms(1,4,5)] valid_qubits [OF assms(1-3)] or_panic_def
      slot_actions_def with_params length_constants less_Suc_eq numeral_2_eq_2 numeral_3_eq_3 Let_def)

section \<open>Adjoints\<close>

lemma braket_dense_1q:
  assumes "length a = 2 ^ n" "length c = 2 ^ n" "q < n"
  shows "braket (dense_1q q (adjoint_1q g) a) c = braket a (dense_1q q g c)"
  unfolding braket_def length_dense assms(1)
proof (rule sum_cong_groups1 [OF assms(3)])
  fix x :: nat assume x: "x < 2 ^ n"
  have v: "dense_1q q h d ! put_bit q u x =
      h ! (2 * of_bool u) * d ! put_bit q False x + h ! (2 * of_bool u + 1) * d ! put_bit q True x" if "length d = 2 ^ n" for h d u
    using put_bit_less [OF x assms(3), of u] that by (simp add: dense_1q_nth bit_put_bit)
  show "cnj (dense_1q q (adjoint_1q g) a ! put_bit q False x) * c ! put_bit q False x +
      cnj (dense_1q q (adjoint_1q g) a ! put_bit q True x) * c ! put_bit q True x =
      cnj (a ! put_bit q False x) * dense_1q q g c ! put_bit q False x +
      cnj (a ! put_bit q True x) * dense_1q q g c ! put_bit q True x"
    by (simp add: v assms(1,2) adjoint_1q_def numeral_2_eq_2 numeral_3_eq_3 algebra_simps)
qed

lemma adjoint_2q_nth: "i < 4 \<Longrightarrow> j < 4 \<Longrightarrow> adjoint_2q g ! (4 * i + j) = cnj (g ! (4 * j + i))"
  by (auto simp: adjoint_2q_def upt_rec numeral_eq_Suc less_Suc_eq)

lemma braket_dense_2q:
  assumes "length a = 2 ^ n" "length c = 2 ^ n" "q < n" "r < n" "q \<noteq> r"
  shows "braket (dense_2q q r (adjoint_2q g) a) c = braket a (dense_2q q r g c)"
  unfolding braket_def length_dense assms(1)
proof (rule sum_cong_groups2 [OF assms(3-5)])
  fix x :: nat assume x: "x < 2 ^ n"
  let ?p = "\<lambda>u v. put_bit q u (put_bit r v x)"
  have p: "put_bit q w (put_bit r z (?p u v)) = ?p w z" for u v w z
    using assms(5) by (intro bit_eqI) (auto simp: bit_put_bit)
  have v: "dense_2q q r h d ! ?p u v =
      (let k = 2 * of_bool u + of_bool v in h ! (4 * k) * d ! ?p False False + h ! (4 * k + 1) * d ! ?p False True +
        h ! (4 * k + 2) * d ! ?p True False + h ! (4 * k + 3) * d ! ?p True True)" if "length d = 2 ^ n" for h d u v
  proof -
    have l: "?p u v < 2 ^ n" using put_bit_less [OF put_bit_less [OF x assms(4)] assms(3)] .
    have "row_2q q r (?p u v) = 2 * of_bool u + of_bool v" using assms(5) by (simp add: row_2q_def bit_put_bit)
    then show ?thesis using l that by (simp add: dense_2q_def p Let_def)
  qed
  note e = adjoint_2q_nth [of _ _ g]
  show "cnj (dense_2q q r (adjoint_2q g) a ! ?p False False) * c ! ?p False False +
      cnj (dense_2q q r (adjoint_2q g) a ! ?p False True) * c ! ?p False True +
      cnj (dense_2q q r (adjoint_2q g) a ! ?p True False) * c ! ?p True False +
      cnj (dense_2q q r (adjoint_2q g) a ! ?p True True) * c ! ?p True True =
      cnj (a ! ?p False False) * dense_2q q r g c ! ?p False False + cnj (a ! ?p False True) * dense_2q q r g c ! ?p False True +
      cnj (a ! ?p True False) * dense_2q q r g c ! ?p True False + cnj (a ! ?p True True) * dense_2q q r g c ! ?p True True"
    unfolding v [OF assms(1)] v [OF assms(2)] Let_def
    using e [of 0 0] e [of 0 1] e [of 0 2] e [of 0 3] e [of 1 0] e [of 1 1] e [of 1 2] e [of 1 3]
      e [of 2 0] e [of 2 1] e [of 2 2] e [of 2 3] e [of 3 0] e [of 3 1] e [of 3 2] e [of 3 3]
    by (simp add: algebra_simps)
qed

lemma braket_permuted:
  assumes "length a = 2 ^ n" "length c = 2 ^ n" "\<And>x. x < 2 ^ n \<Longrightarrow> \<pi> x < 2 ^ n" "\<And>x. x < 2 ^ n \<Longrightarrow> \<pi> (\<pi> x) = x"
  shows "braket (permuted \<pi> a) c = braket a (permuted \<pi> c)"
proof -
  have b: "bij_betw \<pi> {..<2 ^ n} {..<2 ^ n}"
    using assms(3,4) by (intro bij_betw_byWitness [where f' = \<pi>]) auto
  have "braket (permuted \<pi> a) c = (\<Sum>x<2 ^ n. cnj (a ! \<pi> x) * c ! x)"
    by (simp add: braket_def permuted_def assms(1))
  also have "\<dots> = (\<Sum>x<2 ^ n. cnj (a ! \<pi> (\<pi> x)) * c ! \<pi> x)"
    by (rule sum.reindex_bij_betw [OF b, symmetric])
  also have "\<dots> = braket a (permuted \<pi> c)"
    using assms(4) by (simp add: braket_def permuted_def assms(1,2))
  finally show ?thesis .
qed

lemma three_qubit_involution:
  assumes "valid_op n op" "op_gate op \<in> {CCX, CSwap}"
  shows "toffoli (map unat (op_qubits op) ! 0) (map unat (op_qubits op) ! 1) (map unat (op_qubits op) ! 2)
      (toffoli (map unat (op_qubits op) ! 0) (map unat (op_qubits op) ! 1) (map unat (op_qubits op) ! 2) x) = x"
    "fredkin (map unat (op_qubits op) ! 0) (map unat (op_qubits op) ! 1) (map unat (op_qubits op) ! 2)
      (fredkin (map unat (op_qubits op) ! 0) (map unat (op_qubits op) ! 1) (map unat (op_qubits op) ! 2) x) = x"
proof -
  have ne: "map unat (op_qubits op) ! i \<noteq> map unat (op_qubits op) ! j" if "i < 3" "j < 3" "i \<noteq> j" for i j
    using valid_op_nth(3) [OF assms(1), of i j] op_qubits_nth [OF assms(1), of i] op_qubits_nth [OF assms(1), of j] assms(2) that
    by auto
  have d: "map unat (op_qubits op) ! 2 \<noteq> map unat (op_qubits op) ! 0" "map unat (op_qubits op) ! 2 \<noteq> map unat (op_qubits op) ! 1"
    "map unat (op_qubits op) ! 1 \<noteq> map unat (op_qubits op) ! 0" using ne by simp_all
  then show "toffoli (map unat (op_qubits op) ! 0) (map unat (op_qubits op) ! 1) (map unat (op_qubits op) ! 2)
      (toffoli (map unat (op_qubits op) ! 0) (map unat (op_qubits op) ! 1) (map unat (op_qubits op) ! 2) x) = x"
    "fredkin (map unat (op_qubits op) ! 0) (map unat (op_qubits op) ! 1) (map unat (op_qubits op) ! 2)
      (fredkin (map unat (op_qubits op) ! 0) (map unat (op_qubits op) ! 1) (map unat (op_qubits op) ! 2) x) = x"
    by (intro bit_eqI; auto simp: toffoli_def fredkin_def bit_put_bit)+
qed

text \<open>The backward routine moves a gate from one side of the inner product to the other.\<close>

lemma braket_adjoint_action:
  assumes "valid_op n op" "unitary_gate (op_gate op)" "length a = 2 ^ n" "length c = 2 ^ n"
  shows "braket (adjoint_action (op_gate op) ps (map unat (op_qubits op)) a) c =
    braket a (gate_action (op_gate op) ps (map unat (op_qubits op)) c)"
  using assms(2)
proof (cases rule: unitary_gate_cases [where ps = ps])
  case one
  then obtain m where m: "matrix1 (op_gate op) ps = Some m" by blast
  note b = num_bounds(1) [OF m]
  have "map unat (op_qubits op) ! 0 < n" using valid_op_nth(2) [OF assms(1) b] op_qubits_nth [OF assms(1) b] by simp
  then show ?thesis using braket_dense_1q [OF assms(3,4)] by (simp add: adjoint_action_def gate_action_def m)
next
  case two
  then obtain m where m: "matrix2 (op_gate op) ps = Some m" by blast
  note b = num_bounds(2) [OF m]
  then have b0: "0 < num_qubits (op_gate op)" by simp
  have "map unat (op_qubits op) ! 0 < n" "map unat (op_qubits op) ! 1 < n" "map unat (op_qubits op) ! 0 \<noteq> map unat (op_qubits op) ! 1"
    using valid_op_nth(2) [OF assms(1) b] op_qubits_nth [OF assms(1) b] valid_op_nth(2) [OF assms(1) b0]
      op_qubits_nth [OF assms(1) b0] valid_op_nth(3) [OF assms(1) b0 b] by auto
  then show ?thesis using braket_dense_2q [OF assms(3,4)] two by (simp add: adjoint_action_def gate_action_def m)
next
  case none
  then show ?thesis
    using braket_permuted [OF assms(3,4) three_qubit_less(1) [OF assms(1)] three_qubit_involution(1) [OF assms(1)]]
      braket_permuted [OF assms(3,4) three_qubit_less(2) [OF assms(1)] three_qubit_involution(2) [OF assms(1)]]
    by (auto simp: adjoint_action_def gate_action_three gate_action_def [of Id])
qed

end
