(* ===== verification/AdjointCorrect.thy ===== *)
theory AdjointCorrect
  imports AdjointGates
begin

text \<open>
  The adjoint gradient is the derivative: the two sweeps of \<^verbatim>\<open>adjoint.rs\<close> add up, for every symbol,
  the derivative of the expectation that the backend computes as a function of that symbol's value.
\<close>

section \<open>The observable\<close>

lemma inner_product_braket: "length a = length b \<Longrightarrow> inner_product a b = braket a b"
  unfolding inner_product_def braket_def
  by (induction a b rule: list_induct2) (simp_all add: lessThan_Suc_eq_insert_0 sum.reindex del: sum.lessThan_Suc)

lemma fold_pauli_step:
  "fold (pauli_step i) ps (i, c) = (fst (pauli_image ps i), c * snd (pauli_image ps i))"
proof (induction ps rule: rev_induct)
  case (snoc x ps)
  obtain q p where x: "x = (q, p)" by (cases x)
  obtain j d where jd: "pauli_image ps i = (j, d)" by (cases "pauli_image ps i")
  have "pauli_image (ps @ [x]) i = pauli_step i x (pauli_image ps i)" by (simp add: pauli_image_def)
  then show ?case using snoc by (cases p) (simp_all add: x jd pauli_step_def Let_def)
qed (simp add: pauli_image_def)

lemma add_images_value:
  assumes "length st = 2 ^ n" "valid_string n ps" "n \<le> 64"
  shows "length res = 2 ^ n \<Longrightarrow> distinct is \<Longrightarrow> \<forall>i \<in> set is. i < 2 ^ n \<Longrightarrow>
    \<exists>res'. add_images ps c st is res = Done res' \<and> length res' = 2 ^ n \<and>
      (\<forall>i < 2 ^ n. res' ! fst (pauli_image ps i) =
        res ! fst (pauli_image ps i) + (if i \<in> set is then of_real c * snd (pauli_image ps i) * st ! i else 0))"
proof (induction "is" arbitrary: res)
  case (Cons i "is")
  have d: "distinct (map fst ps)" using assms(2) by (simp add: valid_string_def)
  have ok: "\<not> list_ex (\<lambda>(q, _). 64 \<le> unat q) ps"
    using assms(2,3) by (fastforce simp: valid_string_def list_ex_iff)
  have less: "fst (pauli_image ps k) < 2 ^ n" if "k < 2 ^ n" for k
    using pauli_apply_image [OF assms(1,2) that] by simp
  have i: "i < 2 ^ n" using Cons.prems(3) by simp
  let ?j = "fst (pauli_image ps i)" and ?v = "of_real c * snd (pauli_image ps i) * st ! i"
  let ?res = "res[?j := res ! ?j + ?v]"
  obtain res' where r: "add_images ps c st is ?res = Done res'" "length res' = 2 ^ n"
    "\<forall>k < 2 ^ n. res' ! fst (pauli_image ps k) =
      ?res ! fst (pauli_image ps k) + (if k \<in> set is then of_real c * snd (pauli_image ps k) * st ! k else 0)"
    using Cons.IH [of ?res] Cons.prems by auto
  have inj: "fst (pauli_image ps k) = ?j \<longleftrightarrow> k = i" for k
    using pauli_image_involution(1) [OF d] by metis
  have "?res ! fst (pauli_image ps k) = res ! fst (pauli_image ps k) + (if k = i then ?v else 0)" if "k < 2 ^ n" for k
    using less [OF that] less [OF i] Cons.prems(1) inj [of k] by (auto simp: nth_list_update)
  moreover have "add_images ps c st (i # is) res = add_images ps c st is ?res"
    using ok less [OF i] i Cons.prems(1) assms(1) by (simp add: fold_pauli_step)
  ultimately show ?case using r Cons.prems(2) by (intro exI [of _ res']) auto
qed simp

lemma add_images_all:
  assumes "length st = 2 ^ n" "valid_string n ps" "n \<le> 64" "length res = 2 ^ n"
  shows "add_images ps c st [0..<2 ^ n] res = Done (map (\<lambda>x. res ! x + of_real c * pauli_apply ps st ! x) [0..<2 ^ n])"
proof -
  obtain res' where r: "add_images ps c st [0..<2 ^ n] res = Done res'" "length res' = 2 ^ n"
    "\<forall>i < 2 ^ n. res' ! fst (pauli_image ps i) = res ! fst (pauli_image ps i) + of_real c * snd (pauli_image ps i) * st ! i"
    using add_images_value [OF assms, of "[0..<2 ^ n]" c] by auto
  have "res' ! x = res ! x + of_real c * pauli_apply ps st ! x" if x: "x < 2 ^ n" for x
  proof -
    let ?i = "fst (pauli_image ps x)"
    have i: "?i < 2 ^ n" using pauli_apply_image [OF assms(1,2) x] by simp
    have "fst (pauli_image ps ?i) = x"
      using pauli_image_involution(1) assms(2) by (simp add: valid_string_def)
    then show ?thesis using r(3) i pauli_apply_image [OF assms(1,2) i] by (auto simp: mult.assoc)
  qed
  then have "res' = map (\<lambda>x. res ! x + of_real c * pauli_apply ps st ! x) [0..<2 ^ n]"
    using r(2) by (intro nth_equalityI) auto
  then show ?thesis using r(1) by simp
qed

definition obs_apply :: "nat \<Rightarrow> observable \<Rightarrow> complex list \<Rightarrow> complex list" where
  "obs_apply n a st = combine (2 ^ n) (map (\<lambda>(c, ps). (c, pauli_apply ps st)) a)"

lemma add_terms_value:
  assumes "length st = 2 ^ n" "n \<le> 64"
  shows "valid_observable n a \<Longrightarrow> length res = 2 ^ n \<Longrightarrow>
    add_terms st n a res = Done (map (\<lambda>x. res ! x + obs_apply n a st ! x) [0..<2 ^ n])"
proof (induction a arbitrary: res)
  case Nil
  then show ?case by (auto simp: obs_apply_def intro: nth_equalityI)
next
  case (Cons t a)
  obtain c ps where t: "t = (c, ps)" by (cases t)
  have v: "valid_string n ps" "valid_observable n a" using Cons.prems by (auto simp: t valid_observable_def)
  show ?case
    using Cons.IH [OF v(2)] add_images_all [OF assms(1) v(1) assms(2) Cons.prems(2)]
    by (auto simp: t obs_apply_def add.assoc intro!: map_cong)
qed

lemma apply_observable_value:
  assumes "length st = 2 ^ n" "n < 64" "valid_observable n a"
  shows "apply_observable st n a = Done (obs_apply n a st)"
proof -
  have "map (\<lambda>x. replicate (2 ^ n) 0 ! x + obs_apply n a st ! x) [0..<2 ^ n] = obs_apply n a st"
    by (rule nth_equalityI) (auto simp: obs_apply_def)
  then show ?thesis
    using add_terms_value [of st n a "replicate (2 ^ n) 0"] assms by (simp add: apply_observable_def)
qed

lemma braket_combine:
  "length c = 2 ^ n \<Longrightarrow> braket (combine (2 ^ n) ts) c = (\<Sum>(r, v)\<leftarrow>ts. of_real r * (\<Sum>x<2 ^ n. cnj (v ! x) * c ! x))"
proof (induction ts)
  case (Cons t ts)
  obtain r v where t: "t = (r, v)" by (cases t)
  have "braket (combine (2 ^ n) (t # ts)) c =
      (\<Sum>x<2 ^ n. of_real r * (cnj (v ! x) * c ! x) + cnj (combine (2 ^ n) ts ! x) * c ! x)"
    unfolding braket_def length_combine by (intro sum.cong refl) (simp add: t algebra_simps)
  also have "\<dots> = of_real r * (\<Sum>x<2 ^ n. cnj (v ! x) * c ! x) + braket (combine (2 ^ n) ts) c"
    by (simp add: sum.distrib sum_distrib_left braket_def)
  finally show ?case using Cons by (simp add: t)
qed (simp add: braket_def)

lemma braket_pauli_deriv:
  assumes "sv_deriv (2 ^ n) \<psi> \<delta> t" "\<And>s. length (\<psi> s) = 2 ^ n" "length \<delta> = 2 ^ n" "valid_string n ps"
  shows "((\<lambda>s. Re (braket (\<psi> s) (pauli_apply ps (\<psi> s)))) has_real_derivative
    2 * Re (braket (pauli_apply ps (\<psi> t)) \<delta>)) (at t)"
proof -
  have d: "distinct (map fst ps)" using assms(4) by (simp add: valid_string_def)
  let ?j = "\<lambda>i. fst (pauli_image ps i)" and ?c = "\<lambda>i. snd (pauli_image ps i)"
  let ?\<psi> = "\<psi> t"
  have less: "?j i < 2 ^ n" if "i < 2 ^ n" for i
    using pauli_apply_image [OF assms(2) assms(4) that] by simp
  have "((\<lambda>s. cnj (\<psi> s ! ?j i) * ?c i * \<psi> s ! i) has_vector_derivative
      cnj (?\<psi> ! ?j i) * ?c i * \<delta> ! i + cnj (\<delta> ! ?j i) * ?c i * ?\<psi> ! i) (at t)" if i: "i < 2 ^ n" for i
    using has_vector_derivative_mult [OF has_vector_derivative_mult [OF
        bounded_linear.has_vector_derivative [OF bounded_linear_cnj sv_deriv_nth [OF assms(1) less [OF i]]]
        has_vector_derivative_const [of "?c i"]] sv_deriv_nth [OF assms(1) i]] by simp
  then have "((\<lambda>s. \<Sum>i<2 ^ n. cnj (\<psi> s ! ?j i) * ?c i * \<psi> s ! i) has_vector_derivative
      (\<Sum>i<2 ^ n. cnj (?\<psi> ! ?j i) * ?c i * \<delta> ! i + cnj (\<delta> ! ?j i) * ?c i * ?\<psi> ! i)) (at t)"
    by (intro has_vector_derivative_sum) simp
  then have v: "((\<lambda>s. braket (\<psi> s) (pauli_apply ps (\<psi> s))) has_vector_derivative
      (\<Sum>i<2 ^ n. cnj (?\<psi> ! ?j i) * ?c i * \<delta> ! i) + (\<Sum>i<2 ^ n. cnj (\<delta> ! ?j i) * ?c i * ?\<psi> ! i)) (at t)"
    using braket_image [OF assms(2,4)] by (simp add: sum.distrib)
  have first: "(\<Sum>i<2 ^ n. cnj (?\<psi> ! ?j i) * ?c i * \<delta> ! i) = braket (pauli_apply ps ?\<psi>) \<delta>"
  proof -
    have "cnj (?\<psi> ! ?j i) * ?c i * \<delta> ! i = cnj (pauli_apply ps ?\<psi> ! i) * \<delta> ! i" if i: "i < 2 ^ n" for i
      using pauli_apply_image [OF assms(2,4) less [OF i]] pauli_image_involution [OF d] by (simp add: mult.commute)
    then show ?thesis
      unfolding braket_def length_pauli_apply assms(2) by (intro sum.cong refl) (simp only: lessThan_iff)
  qed
  have second: "(\<Sum>i<2 ^ n. cnj (\<delta> ! ?j i) * ?c i * ?\<psi> ! i) = cnj (braket (pauli_apply ps ?\<psi>) \<delta>)"
  proof -
    have "(\<Sum>i<2 ^ n. cnj (\<delta> ! ?j i) * ?c i * ?\<psi> ! i) = (\<Sum>i<2 ^ n. cnj (\<delta> ! ?j i) * pauli_apply ps ?\<psi> ! ?j i)"
      using pauli_apply_image [OF assms(2,4)] by (intro sum.cong) (auto simp: mult.assoc)
    also have "\<dots> = (\<Sum>i<2 ^ n. cnj (\<delta> ! i) * pauli_apply ps ?\<psi> ! i)"
      by (rule sum.reindex_bij_betw [OF pauli_image_bij [OF assms(4)]])
    finally show ?thesis by (simp add: braket_def assms(2) mult.commute)
  qed
  have "((\<lambda>s. Re (braket (\<psi> s) (pauli_apply ps (\<psi> s)))) has_vector_derivative
      Re (braket (pauli_apply ps ?\<psi>) \<delta> + cnj (braket (pauli_apply ps ?\<psi>) \<delta>))) (at t)"
    using bounded_linear.has_vector_derivative [OF bounded_linear_Re v] unfolding first second .
  then show ?thesis by (simp add: has_real_derivative_iff_has_vector_derivative)
qed

lemma obs_value_deriv:
  assumes "sv_deriv (2 ^ n) \<psi> \<delta> t" "\<And>s. length (\<psi> s) = 2 ^ n" "length \<delta> = 2 ^ n" "valid_observable n a"
  shows "((\<lambda>s. obs_value a (\<psi> s)) has_real_derivative 2 * Re (braket (obs_apply n a (\<psi> t)) \<delta>)) (at t)"
  using assms(4)
proof (induction a)
  case Nil
  then show ?case using braket_combine [OF assms(3), of "[]"] by (simp add: obs_value_def obs_apply_def)
next
  case (Cons u a)
  obtain c ps where u: "u = (c, ps)" by (cases u)
  have v: "valid_string n ps" "valid_observable n a" using Cons.prems by (auto simp: u valid_observable_def)
  have e: "braket (obs_apply n (u # a) (\<psi> t)) \<delta> =
      of_real c * braket (pauli_apply ps (\<psi> t)) \<delta> + braket (obs_apply n a (\<psi> t)) \<delta>"
    unfolding obs_apply_def braket_combine [OF assms(3)] by (simp add: u braket_def assms(2))
  show ?case
    unfolding e
    using DERIV_add [OF DERIV_cmult [OF braket_pauli_deriv [OF assms(1-3) v(1)], of c] Cons.IH [OF v(2)]]
    by (simp add: obs_value_def u algebra_simps)
qed

section \<open>Symbols and slots\<close>

lemma collect_symbols_inner_eq: "collect_symbols_inner e out = out @ param_symbols e"
  by (induction e arbitrary: out) auto

lemma sorted_dedup_distinct: "sorted (xs :: 'a :: linorder list) \<Longrightarrow> distinct (remdups_adj xs)"
  by (induction xs rule: remdups_adj.induct) auto

lemma collect_symbols_set: "set (collect_symbols e) = set (param_symbols e)" "distinct (collect_symbols e)"
  by (simp_all add: collect_symbols_def collect_symbols_inner_eq sorted_dedup_distinct)

text \<open>How fast an expression moves with a symbol.\<close>

definition velocity :: "(u32 \<Rightarrow> real) \<Rightarrow> u32 \<Rightarrow> param_expr \<Rightarrow> real" where
  "velocity \<rho> s e = param_value \<rho> (differentiate s e)"

lemma velocity_absent: "s \<notin> set (param_symbols e) \<Longrightarrow> velocity \<rho> s e = 0"
  by (induction e) (auto simp: velocity_def)

definition bound_expr :: "binding \<Rightarrow> param_expr \<Rightarrow> bool" where
  "bound_expr b e \<longleftrightarrow> (\<forall>i \<in> set (param_symbols e). bound b i)"

lemma resolve_bound: "bound_expr b e \<Longrightarrow> resolve_param b e = Inr (param_value (assignment b) e)"
  using find_None_all [of "\<lambda>i. \<not> bound b i" "param_symbols e"]
  by (simp add: resolve_param_value bound_expr_def)

lemma resolve_all_bound:
  "\<forall>e \<in> set es. bound_expr b e \<Longrightarrow> resolve_all b es = Inr (map (param_value (assignment b)) es)"
  by (induction es) (auto simp: resolve_bound)

lemma resolve_derivative_bound: "bound_expr b e \<Longrightarrow> resolve_derivative b e s = Inr (velocity (assignment b) s e)"
  using resolve_bound [of b "differentiate s e"] differentiate_symbols [of s e]
  by (auto simp: resolve_derivative_def velocity_def bound_expr_def)

lemma active_symbols_value:
  "bound_expr b e \<Longrightarrow> active_symbols b e ss =
     Done (filter (\<lambda>(s, v). significant v) (map (\<lambda>s. (s, velocity (assignment b) s e)) ss))"
  by (induction ss) (auto simp: resolve_derivative_bound or_fail_def)

lemma add_gradient_get:
  "bt_sorted m \<Longrightarrow> bt_sorted (add_gradient s v m) \<and>
     bt_get_or 0 r (add_gradient s v m) = bt_get_or 0 r m + (if r = s then v else 0)"
  by (simp add: add_gradient_def bt_insert_sorted bt_get_or_def bt_insert_get)

lemma add_gradients_get:
  "bt_sorted m \<Longrightarrow> bt_sorted (fold (\<lambda>(s, v). add_gradient s (w * v)) as m) \<and>
     bt_get_or 0 r (fold (\<lambda>(s, v). add_gradient s (w * v)) as m) =
     bt_get_or 0 r m + w * (\<Sum>(s, v)\<leftarrow>as. if r = s then v else 0)"
proof (induction as arbitrary: m)
  case (Cons x as)
  obtain s v where x: "x = (s, v)" by (cases x)
  show ?case
    using Cons.IH [of "add_gradient s (w * v) m"] add_gradient_get [OF Cons.prems, of s "w * v"]
    by (simp add: x algebra_simps)
qed simp

text \<open>No derivative of a parameter lies strictly between zero and the threshold.\<close>

definition settled :: "binding \<Rightarrow> param_expr \<Rightarrow> bool" where
  "settled b e \<longleftrightarrow> (\<forall>s. velocity (assignment b) s e = 0 \<or> significant (velocity (assignment b) s e))"

lemma active_total:
  assumes "settled b e"
  shows "(\<Sum>(s, v)\<leftarrow>filter (\<lambda>(s, v). significant v) (map (\<lambda>s. (s, velocity (assignment b) s e)) (collect_symbols e)).
    if r = s then v else 0) = velocity (assignment b) r e"
proof -
  have "(\<Sum>(s, v)\<leftarrow>filter (\<lambda>(s, v). significant v) (map (\<lambda>s. (s, velocity (assignment b) s e)) ss). if r = s then v else 0) =
      (\<Sum>s\<leftarrow>ss. if r = s then velocity (assignment b) r e else 0)" for ss
    using assms by (induction ss) (auto simp: settled_def)
  also have "(\<Sum>s\<leftarrow>collect_symbols e. if r = s then velocity (assignment b) r e else 0) = velocity (assignment b) r e"
    using velocity_absent [of r e "assignment b"] collect_symbols_set [of e]
    by (simp add: sum_list_distinct_conv_sum_set sum.delta' eq_commute [of r])
  finally show ?thesis .
qed

definition op_qs :: "gate_op \<Rightarrow> nat list" where "op_qs op = map unat (op_qubits op)"

definition op_values :: "(u32 \<Rightarrow> real) \<Rightarrow> gate_op \<Rightarrow> real list" where
  "op_values \<rho> op = map (param_value \<rho>) (op_params op)"

text \<open>An operation whose gradient the sweep can take.\<close>

definition differentiable_op :: "nat \<Rightarrow> binding \<Rightarrow> gate_op \<Rightarrow> bool" where
  "differentiable_op n b op \<longleftrightarrow> valid_op n op \<and> unitary_gate (op_gate op) \<and>
     length (op_params op) = num_params (op_gate op) \<and> (\<forall>e \<in> set (op_params op). bound_expr b e \<and> settled b e)"

lemma differentiable_resolve:
  "differentiable_op n b op \<Longrightarrow> resolve_all b (op_params op) = Inr (op_values (assignment b) op)"
  by (simp add: differentiable_op_def resolve_all_bound op_values_def)

lemma slot_loop_value:
  assumes "differentiable_op n b op" "length lam = 2 ^ n" "length psi = 2 ^ n" "n \<le> 64"
  shows "bt_sorted m \<Longrightarrow> \<forall>(k, e) \<in> set es. k < num_params (op_gate op) \<and> e \<in> set (op_params op) \<Longrightarrow>
    \<exists>m'. slot_loop lam psi n op b es m = Done m' \<and> bt_sorted m' \<and>
      (\<forall>r. bt_get_or 0 r m' = bt_get_or 0 r m + (\<Sum>(k, e)\<leftarrow>es. velocity (assignment b) r e *
        (2 * Re (braket lam (slot_actions (op_gate op) (op_values (assignment b) op) (op_qs op) psi ! k)))))"
proof (induction es arbitrary: m)
  case (Cons x es)
  obtain k e where x: "x = (k, e)" by (cases x)
  have k: "k < num_params (op_gate op)" and e: "bound_expr b e" "settled b e"
    using Cons.prems(2) assms(1) by (auto simp: x differentiable_op_def)
  let ?act = "filter (\<lambda>(s, v). significant v) (map (\<lambda>s. (s, velocity (assignment b) s e)) (collect_symbols e))"
  let ?slot = "slot_actions (op_gate op) (op_values (assignment b) op) (op_qs op) psi ! k"
  let ?w = "2 * Re (braket lam ?slot)"
  have u: "valid_op n op" "unitary_gate (op_gate op)" using assms(1) by (simp_all add: differentiable_op_def)
  have d: "apply_gate_derivative psi n op b k = Done ?slot"
    using apply_gate_derivative_value [OF u(1) assms(3,4) u(2) differentiable_resolve [OF assms(1)] k] by (simp add: op_qs_def)
  have "length ?slot = 2 ^ n"
    using k length_slot_actions [OF u(2), of "op_values (assignment b) op" "op_qs op" psi]
    by (auto simp: slot_actions_def nth_append assms(3))
  then have ip: "inner_product lam ?slot = braket lam ?slot" using assms(2) by (simp add: inner_product_braket)
  show ?case
  proof (cases "?act = []")
    case True
    have zero: "velocity (assignment b) r e = 0" for r
      using active_total [OF e(2), of r] True by simp
    have "slot_loop lam psi n op b (x # es) m = slot_loop lam psi n op b es m"
      using True by (simp add: x active_symbols_value [OF e(1)])
    then show ?thesis using Cons.IH [OF Cons.prems(1)] Cons.prems(2) by (simp add: x zero)
  next
    case False
    let ?m = "fold (\<lambda>(s, v). add_gradient s (?w * v)) ?act m"
    note g = add_gradients_get [OF Cons.prems(1), of ?w ?act, unfolded active_total [OF e(2)]]
    have "slot_loop lam psi n op b (x # es) m = slot_loop lam psi n op b es ?m"
      using False by (simp only: x slot_loop.simps active_symbols_value [OF e(1)] bind_run.simps if_False d ip Let_def)
    moreover obtain m' where "slot_loop lam psi n op b es ?m = Done m'" "bt_sorted m'"
      "\<And>r. bt_get_or 0 r m' = bt_get_or 0 r ?m + (\<Sum>(k, e)\<leftarrow>es. velocity (assignment b) r e *
        (2 * Re (braket lam (slot_actions (op_gate op) (op_values (assignment b) op) (op_qs op) psi ! k))))"
      using Cons.IH [of ?m] Cons.prems(2) g by (auto simp: x)
    ultimately show ?thesis using g by (simp add: x)
  qed
qed simp

section \<open>The sweeps\<close>

text \<open>A state and its derivative with respect to one symbol, through one operation and through a circuit.\<close>

definition value_action :: "(u32 \<Rightarrow> real) \<Rightarrow> gate_op \<Rightarrow> complex list \<Rightarrow> complex list" where
  "value_action \<rho> op st = gate_action (op_gate op) (op_values \<rho> op) (op_qs op) st"

definition tangent_action :: "(u32 \<Rightarrow> real) \<Rightarrow> u32 \<Rightarrow> gate_op \<Rightarrow> complex list \<times> complex list \<Rightarrow> complex list \<times> complex list" where
  "tangent_action \<rho> s op = (\<lambda>(psi, \<delta>). (value_action \<rho> op psi,
     combine (length psi) ((1, value_action \<rho> op \<delta>) # zip (map (velocity \<rho> s) (op_params op))
       (slot_actions (op_gate op) (op_values \<rho> op) (op_qs op) psi))))"

definition tangent_run :: "(u32 \<Rightarrow> real) \<Rightarrow> u32 \<Rightarrow> gate_op list \<Rightarrow> complex list \<Rightarrow> complex list \<times> complex list" where
  "tangent_run \<rho> s ops st = fold (tangent_action \<rho> s) ops (st, replicate (length st) 0)"

lemma length_value_action [simp]: "length (value_action \<rho> op st) = length st"
  by (simp add: value_action_def)

lemma tangent_run_snoc: "tangent_run \<rho> s (ops @ [op]) st = tangent_action \<rho> s op (tangent_run \<rho> s ops st)"
  by (simp add: tangent_run_def)

lemma tangent_run_state: "fst (tangent_run \<rho> s ops st) = fold (value_action \<rho>) ops st"
  by (induction ops rule: rev_induct)
    (auto simp: tangent_run_snoc, simp_all add: tangent_run_def tangent_action_def case_prod_unfold)

lemma length_fold_value [simp]: "length (fold (value_action \<rho>) ops st) = length st"
  by (induction ops arbitrary: st) auto

lemma length_tangent_run [simp]: "length (snd (tangent_run \<rho> s ops st)) = length st"
  by (induction ops rule: rev_induct)
    (simp add: tangent_run_def, simp add: tangent_run_snoc tangent_action_def case_prod_unfold tangent_run_state)

lemma moving_params:
  "moving (\<lambda>t. op_values (\<rho>(s := t)) op) (map (velocity (\<rho>(s := x)) s) (op_params op)) (length (op_params op)) x"
  using param_value_derivative [of \<rho> s _ x] by (simp add: moving_def op_values_def velocity_def)

lemma tangent_run_deriv:
  assumes "length st = 2 ^ n"
  shows "\<forall>op \<in> set ops. differentiable_op n b op \<Longrightarrow>
    sv_deriv (2 ^ n) (\<lambda>t. fold (value_action (\<rho>(s := t))) ops st) (snd (tangent_run (\<rho>(s := x)) s ops st)) x"
proof (induction ops rule: rev_induct)
  case Nil
  then show ?case by (simp add: tangent_run_def sv_deriv_def assms)
next
  case (snoc op ops)
  have op: "valid_op n op" "unitary_gate (op_gate op)" "length (op_params op) = num_params (op_gate op)"
    using snoc.prems by (simp_all add: differentiable_op_def)
  have "sv_deriv (2 ^ n) (\<lambda>t. value_action (\<rho>(s := t)) op (fold (value_action (\<rho>(s := t))) ops st))
      (snd (tangent_action (\<rho>(s := x)) s op (fold (value_action (\<rho>(s := x))) ops st, snd (tangent_run (\<rho>(s := x)) s ops st)))) x"
    unfolding tangent_action_def value_action_def [of _ op] op_qs_def [of op] prod.case snd_conv length_fold_value assms
    by (rule gate_action_deriv [OF op(1,2) moving_params [of \<rho> s op x, unfolded op(3)] snoc.IH])
      (use snoc.prems assms in simp_all)
  moreover have "tangent_run (\<rho>(s := x)) s ops st =
      (fold (value_action (\<rho>(s := x))) ops st, snd (tangent_run (\<rho>(s := x)) s ops st))"
    by (metis prod.collapse tangent_run_state)
  ultimately show ?case by (simp add: tangent_run_snoc del: fun_upd_apply)
qed

lemma braket_combine_right:
  assumes "length a = 2 ^ n"
  shows "braket a (combine (2 ^ n) ts) = (\<Sum>(r, v)\<leftarrow>ts. of_real r * braket a v)"
proof (induction ts)
  case (Cons t ts)
  obtain r v where t: "t = (r, v)" by (cases t)
  have "braket a (combine (2 ^ n) (t # ts)) =
      (\<Sum>x<2 ^ n. of_real r * (cnj (a ! x) * v ! x) + cnj (a ! x) * combine (2 ^ n) ts ! x)"
    unfolding braket_def assms by (intro sum.cong refl) (simp add: t algebra_simps)
  also have "\<dots> = of_real r * braket a v + braket a (combine (2 ^ n) ts)"
    by (simp add: sum.distrib sum_distrib_left braket_def assms)
  finally show ?case using Cons by (simp add: t)
qed (simp add: braket_def assms)

lemma Re_weighted_sum: "Re (\<Sum>(r, v)\<leftarrow>ts. of_real r * f v) = (\<Sum>(r, v)\<leftarrow>ts. r * Re (f v))"
  by (induction ts) auto

text \<open>What one operation adds to the inner product with the pulled-back observable.\<close>

lemma tangent_braket:
  assumes "differentiable_op n b op" "length lam = 2 ^ n" "length psi = 2 ^ n" "length \<delta> = 2 ^ n"
  shows "2 * Re (braket lam (snd (tangent_action (assignment b) s op (psi, \<delta>)))) =
    2 * Re (braket (adjoint_action (op_gate op) (op_values (assignment b) op) (op_qs op) lam) \<delta>) +
    (\<Sum>(k, e)\<leftarrow>List.enumerate 0 (op_params op). velocity (assignment b) s e *
      (2 * Re (braket lam (slot_actions (op_gate op) (op_values (assignment b) op) (op_qs op) psi ! k))))"
proof -
  let ?slots = "slot_actions (op_gate op) (op_values (assignment b) op) (op_qs op) psi" and ?v = "velocity (assignment b) s"
  have op: "valid_op n op" "unitary_gate (op_gate op)" "length (op_params op) = length ?slots"
    using assms(1) by (simp_all add: differentiable_op_def length_slot_actions)
  have "2 * (\<Sum>(r, v)\<leftarrow>zip (map ?v (op_params op)) ?slots. r * Re (braket lam v)) =
      (\<Sum>(k, e)\<leftarrow>List.enumerate 0 (op_params op). ?v e * (2 * Re (braket lam (?slots ! k))))"
  proof -
    have "zip (map ?v (op_params op)) ?slots = map (\<lambda>(k, e). (?v e, ?slots ! k)) (List.enumerate 0 (op_params op))"
      using op(3) by (intro nth_equalityI) (auto simp: nth_enumerate_eq)
    then show ?thesis
      by (simp add: sum_list_const_mult [symmetric] comp_def case_prod_unfold mult.left_commute)
  qed
  moreover have "snd (tangent_action (assignment b) s op (psi, \<delta>)) =
      combine (2 ^ n) ((1, value_action (assignment b) op \<delta>) # zip (map ?v (op_params op)) ?slots)"
    by (simp add: tangent_action_def assms(3))
  ultimately show ?thesis
    using braket_adjoint_action [OF op(1,2) assms(2,4), of "op_values (assignment b) op"]
    by (simp add: braket_combine_right [OF assms(2)] Re_weighted_sum value_action_def op_qs_def algebra_simps)
qed

lemma forward_sweep_value:
  assumes "n \<le> 64"
  shows "\<forall>op \<in> set ops. differentiable_op n b op \<Longrightarrow> length st = 2 ^ n \<Longrightarrow>
    forward_sweep n b ops st cps = Done (fold (value_action (assignment b)) ops st,
      cps @ map (\<lambda>k. fold (value_action (assignment b)) (take (Suc k) ops) st) [0..<length ops])"
proof (induction ops arbitrary: st cps)
  case (Cons op ops)
  have op: "valid_op n op" "unitary_gate (op_gate op)" "differentiable_op n b op"
    using Cons.prems(1) by (simp_all add: differentiable_op_def)
  have "apply_gate_forward st n op b = Done (value_action (assignment b) op st)"
    using apply_gate_forward_value [OF op(1) Cons.prems(2) assms op(2) differentiable_resolve [OF op(3)]]
    by (simp add: value_action_def op_qs_def)
  moreover have "[0..<length (op # ops)] = 0 # map Suc [0..<length ops]"
    by (simp add: map_Suc_upt upt_conv_Cons del: upt_Suc)
  ultimately show ?case using Cons by (simp add: comp_def del: upt_Suc)
qed simp

lemma backward_sweep_value:
  assumes "n \<le> 64" "length st = 2 ^ n"
  shows "\<forall>op \<in> set ops. differentiable_op n b op \<Longrightarrow> length lam = 2 ^ n \<Longrightarrow> bt_sorted m \<Longrightarrow> length ops < length cps \<Longrightarrow>
    \<forall>k < length ops. cps ! k = fold (value_action (assignment b)) (take k ops) st \<Longrightarrow>
    \<exists>m'. backward_sweep n b cps (rev (List.enumerate 0 ops)) lam m = Done m' \<and> bt_sorted m' \<and>
      (\<forall>s. bt_get_or 0 s m' = bt_get_or 0 s m + 2 * Re (braket lam (snd (tangent_run (assignment b) s ops st))))"
proof (induction ops arbitrary: lam m rule: rev_induct)
  case Nil
  then show ?case by (simp add: tangent_run_def braket_def assms(2))
next
  case (snoc op ops)
  let ?\<rho> = "assignment b"
  let ?psi = "fold (value_action ?\<rho>) ops st"
  have op: "valid_op n op" "unitary_gate (op_gate op)" "differentiable_op n b op" "length (op_params op) = num_params (op_gate op)"
    using snoc.prems(1) by (simp_all add: differentiable_op_def)
  have psi: "index_of cps (length ops) = Done ?psi" "length ?psi = 2 ^ n"
    using snoc.prems(4,5) assms(2) by (auto simp: index_of_def)
  obtain m1 where m1: "slot_loop lam ?psi n op b (List.enumerate 0 (op_params op)) m = Done m1" "bt_sorted m1"
    "\<And>r. bt_get_or 0 r m1 = bt_get_or 0 r m + (\<Sum>(k, e)\<leftarrow>List.enumerate 0 (op_params op). velocity ?\<rho> r e *
      (2 * Re (braket lam (slot_actions (op_gate op) (op_values ?\<rho> op) (op_qs op) ?psi ! k))))"
    using slot_loop_value [OF op(3) snoc.prems(2) psi(2) assms(1) snoc.prems(3), of "List.enumerate 0 (op_params op)"] op(4)
    by (fastforce simp: in_set_enumerate_eq)
  let ?lam = "adjoint_action (op_gate op) (op_values ?\<rho> op) (op_qs op) lam"
  have lam: "apply_adjoint_gate lam n op b = Done ?lam"
    using apply_adjoint_gate_value [OF op(1) snoc.prems(2) assms(1) op(2) differentiable_resolve [OF op(3)]]
    by (simp add: op_qs_def)
  obtain m' where m': "backward_sweep n b cps (rev (List.enumerate 0 ops)) ?lam m1 = Done m'" "bt_sorted m'"
    "\<And>s. bt_get_or 0 s m' = bt_get_or 0 s m1 + 2 * Re (braket ?lam (snd (tangent_run ?\<rho> s ops st)))"
    using snoc.IH [of ?lam m1] snoc.prems m1(2) by (force simp: nth_append)
  have "snd (tangent_run ?\<rho> s (ops @ [op]) st) = snd (tangent_action ?\<rho> s op (?psi, snd (tangent_run ?\<rho> s ops st)))" for s
    by (metis prod.collapse tangent_run_snoc tangent_run_state)
  then show ?case
    using psi m1 lam m' tangent_braket [OF op(3) snoc.prems(2) psi(2), of "snd (tangent_run ?\<rho> s ops st)" s for s] assms(2)
    by (simp add: enumerate_append_eq)
qed

section \<open>The circuit\<close>

definition differentiable_circuit :: "binding \<Rightarrow> circuit_ir \<Rightarrow> bool" where
  "differentiable_circuit b d \<longleftrightarrow> valid_circuit d \<and> (\<forall>op \<in> set (cir_ops d). op_gate op = Barrier \<or>
     op_condition op = None \<and> differentiable_op (unat (cir_qubits d)) b op)"

lemma check_adjoint_Done:
  "check_adjoint h n gates rows = Done () \<Longrightarrow> capacity_check h n False = Done () \<and> unat n < 64"
  using capacity_Done [of h n False] by (cases "capacity_check h n False") (auto simp: check_adjoint_def)

lemma unitary_gate_not: "unitary_gate g \<Longrightarrow> g \<notin> {Measure, Barrier, Reset}"
  by (cases g) auto

lemma differentiable_circuit_ops:
  assumes "differentiable_circuit b d"
  shows "\<forall>op \<in> set (filter (\<lambda>op. is_unitary (op_gate op)) (cir_ops d)). differentiable_op (unat (cir_qubits d)) b op"
    "\<not> circuit_has_reset d" "filter (runs k) (cir_ops d) = filter (\<lambda>op. is_unitary (op_gate op)) (cir_ops d)"
proof -
  have u: "op_gate op = Barrier \<or> op_condition op = None \<and> differentiable_op (unat (cir_qubits d)) b op \<and>
      op_gate op \<notin> {Measure, Barrier, Reset}" if "op \<in> set (cir_ops d)" for op
    using assms that unitary_gate_not by (auto simp: differentiable_circuit_def differentiable_op_def)
  then show "\<forall>op \<in> set (filter (\<lambda>op. is_unitary (op_gate op)) (cir_ops d)). differentiable_op (unat (cir_qubits d)) b op"
    "\<not> circuit_has_reset d"
    by (force simp: is_unitary_def circuit_has_reset_def list_ex_iff)+
  show "filter (runs k) (cir_ops d) = filter (\<lambda>op. is_unitary (op_gate op)) (cir_ops d)"
    by (rule filter_cong [OF refl]) (use u in \<open>fastforce simp: runs_def condition_satisfied_def is_unitary_def\<close>)
qed

lemma sort_pairs: "sort_key fst (map (\<lambda>(s, _). (s, f s)) xs) = map (\<lambda>s. (s, f s)) (sort (map fst xs))"
proof -
  have "insort_key fst (s, f s) (map (\<lambda>s. (s, f s)) ys) = map (\<lambda>s. (s, f s)) (insort s ys)" for s ys
    by (induction ys) auto
  then show ?thesis by (induction xs) auto
qed

lemma adjoint_gradient_value:
  assumes "differentiable_circuit b d" "valid_observable (unat (cir_qubits d)) a"
    "check_adjoint (host_mem h) (cir_qubits d) (length (filter (\<lambda>op. is_unitary (op_gate op)) (cir_ops d))) 1 = Done ()"
  defines "ops \<equiv> filter (\<lambda>op. is_unitary (op_gate op)) (cir_ops d)" and "n \<equiv> unat (cir_qubits d)"
  shows "adjoint_gradient h d b a = Done (map (\<lambda>s. (s, 2 * Re (braket (obs_apply n a (fold (value_action (assignment b)) ops (sv_zero_state n)))
    (snd (tangent_run (assignment b) s ops (sv_zero_state n)))))) (sorted_symbol_ids d))"
proof -
  let ?\<psi> = "fold (value_action (assignment b)) ops (sv_zero_state n)"
  note c = check_adjoint_Done [OF assms(3)]
  have n: "n < 64" "n \<le> 64" "\<not> 64 \<le> unat (cir_qubits d)" using c by (simp_all add: n_def)
  note ops = differentiable_circuit_ops(1) [OF assms(1), folded ops_def n_def]
  note z = sv_zero_state_ok(1) [of n]
  let ?cps = "[sv_zero_state n] @ map (\<lambda>k. fold (value_action (assignment b)) (take (Suc k) ops) (sv_zero_state n)) [0..<length ops]"
  have f: "forward_sweep n b ops (sv_zero_state n) [sv_zero_state n] = Done (?\<psi>, ?cps)"
    by (rule forward_sweep_value [OF n(2) ops z])
  have o: "apply_observable ?\<psi> n a = Done (obs_apply n a ?\<psi>)"
    using apply_observable_value [OF _ n(1)] assms(2) z by (simp add: n_def)
  have cps: "\<forall>k < length ops. ?cps ! k = fold (value_action (assignment b)) (take k ops) (sv_zero_state n)"
    by (auto simp: nth_Cons split: nat.split)
  obtain m where m: "backward_sweep n b ?cps (rev (List.enumerate 0 ops)) (obs_apply n a ?\<psi>) [] = Done m"
    "\<And>s. bt_get_or 0 s m = 2 * Re (braket (obs_apply n a ?\<psi>) (snd (tangent_run (assignment b) s ops (sv_zero_state n))))"
    using backward_sweep_value [OF n(2) z ops, of "obs_apply n a ?\<psi>" "[]" ?cps] cps
    by (auto simp: obs_apply_def bt_sorted_def bt_get_or_def bt_get_def)
  show ?thesis
    using n(3) assms(3) f o m
    by (simp add: adjoint_gradient_def Let_def n_def [symmetric] ops_def [symmetric] sorted_symbol_ids_def sort_pairs)
qed

lemma sv_expectation_value:
  assumes "refuse_qudits c ''statevector'' = None" "valid_observable (unat (cir_qubits c)) a"
    "prepare_for_expectation c a = Inr (d, a')" "differentiable_circuit b d" "bt_sorted b"
    "capacity_check (host_mem h) (cir_qubits d) False = Done ()"
  defines "ops \<equiv> filter (\<lambda>op. is_unitary (op_gate op)) (cir_ops d)" and "n \<equiv> unat (cir_qubits d)"
  shows "sv_expectation h c (bind_param s t b) a =
    Done (obs_value a' (fold (value_action ((assignment b)(s := t))) ops (sv_zero_state n)))"
proof -
  let ?b = "bind_param s t b"
  note keep = prepare_keeps [OF assms(3)] and z = sv_zero_state_ok(1) [of n]
  have vq: "validate_qubits (cir_qubits c) a = None"
    using assms(2) by (fastforce simp: validate_qubits_ok valid_observable_def valid_string_def word_less_nat_alt)
  have va: "valid_observable n a'" using assms(2) keep by (auto simp: valid_observable_def n_def)
  have n: "n < 64" using capacity_Done [OF assms(6)] by (simp add: n_def)
  have res: "resolve_all ?b (op_params op) = Inr (op_values ((assignment b)(s := t)) op)" if "differentiable_op n b op" for op
    using that resolve_all_bound [of "op_params op" ?b] bound_insert [OF assms(5)]
    by (auto simp: differentiable_op_def bound_expr_def op_values_def assignment_insert [OF assms(5)])
  have u: "unitary_ops ?b (cir_ops d)"
    using assms(4) res by (auto simp: unitary_ops_def differentiable_circuit_def differentiable_op_def n_def)
  have "op_action ?b op st = value_action ((assignment b)(s := t)) op st" if "op \<in> set ops" for op st
    using differentiable_circuit_ops(1) [OF assms(4)] res that
    by (simp add: op_action_def value_action_def op_qs_def ops_def n_def)
  then have f: "fold (op_action ?b) ops st = fold (value_action ((assignment b)(s := t))) ops st" for st
    by (intro fold_cong) (auto intro!: ext)
  have v: "valid_circuit d" using assms(4) by (simp add: differentiable_circuit_def)
  have "evolve_once (host_mem h) d ?b analytic_config r True =
      Done (fold (op_action ?b) ops (sv_zero_state n), replicate (unat (cir_cbits d)) 0, r)" for r
    using evolve_unitary [of n "cir_ops d" ?b "sv_zero_state n"] n u v z assms(6) differentiable_circuit_ops(3) [OF assms(4)]
    by (simp add: evolve_once_def valid_circuit_def Let_def analytic_config_def n_def ops_def)
  then have "statevector_of (execute h d ?b analytic_config) = Done (fold (value_action ((assignment b)(s := t))) ops (sv_zero_state n))"
    using differentiable_circuit_ops(2) [OF assms(4)] keep(2) assms(1)
    by (simp add: execute_def unless_error_def stochastic_evolution_def collapses_def analytic_config_def statevector_of_def
        Let_def f)
  then show ?thesis
    using assms(1,3) vq va observable_loop_value [of _ "cir_qubits d" a' 0] n z
    by (simp add: sv_expectation_def unless_error_def or_fail_def n_def [symmetric])
qed

section \<open>Properties\<close>

text \<open>C3: The adjoint gradient is the gradient of the expectation: when the deferred circuit holds only
  barriers and unconditioned unitary gates with one expression per parameter, every symbol in them is
  bound, no derivative of a parameter lies strictly between zero and the threshold, and the tape fits, the
  backend returns one number for every symbol, in ascending order of the symbols, and each number is the
  derivative of the expectation the same backend computes, as a function of that symbol's binding.\<close>

theorem adjoint_gradient_exact:
  assumes "refuse_qudits c ''statevector'' = None" "valid_observable (unat (cir_qubits c)) a"
    "prepare_for_expectation c a = Inr (d, a')" "differentiable_circuit b d" "bt_sorted b"
    "check_adjoint (host_mem h) (cir_qubits d) (length (filter (\<lambda>op. is_unitary (op_gate op)) (cir_ops d))) 1 = Done ()"
  shows "\<exists>g. sv_adjoint_gradient h c b a = Done (Some g) \<and> map fst g = sorted_symbol_ids d \<and>
    (\<forall>(s, v) \<in> set g. \<exists>E. (\<forall>t. sv_expectation h c (bind_param s t b) a = Done (E t)) \<and>
      (E has_real_derivative v) (at (assignment b s)))"
proof -
  let ?n = "unat (cir_qubits d)" and ?ops = "filter (\<lambda>op. is_unitary (op_gate op)) (cir_ops d)" and ?\<rho> = "assignment b"
  let ?st = "sv_zero_state ?n"
  let ?v = "\<lambda>s. 2 * Re (braket (obs_apply ?n a' (fold (value_action ?\<rho>) ?ops ?st)) (snd (tangent_run ?\<rho> s ?ops ?st)))"
  let ?E = "\<lambda>s t. obs_value a' (fold (value_action (?\<rho>(s := t))) ?ops ?st)"
  note keep = prepare_keeps [OF assms(3)] and z = sv_zero_state_ok(1) [of ?n]
  note ops = differentiable_circuit_ops [OF assms(4)]
  have va: "valid_observable ?n a'" using assms(2) keep by (auto simp: valid_observable_def)
  have vq: "validate_qubits (cir_qubits c) a = None"
    using assms(2) by (fastforce simp: validate_qubits_ok valid_observable_def valid_string_def word_less_nat_alt)
  have "sv_adjoint_gradient h c b a = Done (Some (map (\<lambda>s. (s, ?v s)) (sorted_symbol_ids d)))"
    using assms(1,3) vq ops(2) adjoint_gradient_value [OF assms(4) va assms(6)]
    by (simp add: sv_adjoint_gradient_def unless_error_def or_fail_def)
  moreover have "(?E s has_real_derivative ?v s) (at (?\<rho> s))" for s
    using obs_value_deriv [OF tangent_run_deriv [OF z ops(1), of ?\<rho> s "?\<rho> s"] _ _ va] z by simp
  moreover have "sv_expectation h c (bind_param s t b) a = Done (?E s t)" for s t
    using sv_expectation_value [OF assms(1-5)] check_adjoint_Done [OF assms(6)] by simp
  ultimately show ?thesis by (intro exI [of _ "map (\<lambda>s. (s, ?v s)) (sorted_symbol_ids d)"]) (auto simp: comp_def)
qed

definition rotated :: circuit_ir where
  "rotated = CircuitIR 1 0 [\<lparr>op_gate = Ry, op_qubits = [0], op_params = [Add (Symbol 5) (Symbol 5)], op_cbit = None,
     op_condition = None\<rparr>] GateBased [(5, ''t'')] [] [] []"

theorem adjoint_gradient_exact_witness:
  "\<exists>v. sv_adjoint_gradient \<lparr>host_mem = \<lparr>hm_oversubscribe = True, hm_available = None\<rparr>, seeded = (\<lambda>_. (sconst 0, sconst 0)),
       unseeded = (sconst 0, sconst 0), checked_build = True\<rparr> rotated [(5, 1)] [(1, [(0, Pauli_Z)])] = Done (Some [(5, v)])"
proof -
  let ?h = "\<lparr>host_mem = \<lparr>hm_oversubscribe = True, hm_available = None\<rparr>, seeded = (\<lambda>_. (sconst 0, sconst 0)),
       unseeded = (sconst 0, sconst 0), checked_build = True\<rparr>"
  have v: "velocity \<rho> s (Add (Symbol 5) (Symbol 5)) = (if s = 5 then 2 else 0)" for \<rho> s
    by (auto simp: velocity_def)
  have d: "differentiable_circuit [(5, 1)] rotated"
    by (simp add: differentiable_circuit_def rotated_def valid_circuit_def differentiable_op_def valid_op_def bound_expr_def
        settled_def v significant_def bound_def bt_get_def)
  have p: "prepare_for_expectation rotated [(1, [(0, Pauli_Z)])] = Inr (rotated, [(1, [(0, Pauli_Z)])])"
    by (simp add: prepare_for_expectation_def prepare_circuit_for_expectation_def measures_def rotated_def dephase_def flips_on_def)
  have k: "check_adjoint (host_mem ?h) (cir_qubits rotated) k 1 = Done ()" for k
    by (simp add: rotated_def check_adjoint_def capacity_check_cases word_le_nat_alt)
  have q: "refuse_qudits rotated ''statevector'' = None" "valid_observable (unat (cir_qubits rotated)) [(1, [(0, Pauli_Z)])]"
    by (simp_all add: refuse_qudits_def first_qudit_def rotated_def valid_observable_def valid_string_def)
  have b: "bt_sorted [(5 :: u32, 1 :: real)]" by (simp add: bt_sorted_def)
  obtain g where g: "sv_adjoint_gradient ?h rotated [(5, 1)] [(1, [(0, Pauli_Z)])] = Done (Some g)"
    "map fst g = sorted_symbol_ids rotated"
    using adjoint_gradient_exact [OF q p d b k] by blast
  have "map fst g = [5]" unfolding g(2) by (simp add: sorted_symbol_ids_def rotated_def)
  then obtain v where "g = [(5, v)]" by auto
  then show ?thesis using g(1) by blast
qed

text \<open>A condition makes the gradient wrong: the expectation skips an operation whose condition fails of the
  cleared register, the sweep differentiates it.\<close>

lemma adjoint_ignores_condition:
  assumes "op_condition op = Some cnd" "is_unitary (op_gate op)"
  shows "adjoint_gradient h (with_ops [op] d) b a = adjoint_gradient h (with_ops [op\<lparr>op_condition := None\<rparr>] d) b a"
proof -
  have q: "qubit_of (op\<lparr>op_condition := None\<rparr>) i = qubit_of op i" for i by (simp add: qubit_of_def)
  have w: "with_resolved (op\<lparr>op_condition := None\<rparr>) b f = with_resolved op b f" for f :: "real list \<Rightarrow> nat \<Rightarrow> complex list run"
    by (simp add: with_resolved_def q)
  have o3: "on_3q k (op\<lparr>op_condition := None\<rparr>) = on_3q k op" for k by (simp add: on_3q_def q)
  have g: "op_gate (op\<lparr>op_condition := None\<rparr>) = op_gate op" by simp
  have fw: "apply_gate_forward st n (op\<lparr>op_condition := None\<rparr>) b = apply_gate_forward st n op b"
    "apply_adjoint_gate st n (op\<lparr>op_condition := None\<rparr>) b = apply_adjoint_gate st n op b"
    "apply_gate_derivative st n (op\<lparr>op_condition := None\<rparr>) b k = apply_gate_derivative st n op b k" for st n k
    by (simp_all only: apply_gate_forward_def apply_adjoint_gate_def apply_gate_derivative_def w q o3 g)
  have sl: "slot_loop lam psi n (op\<lparr>op_condition := None\<rparr>) b es m = slot_loop lam psi n op b es m" for lam psi n es m
  proof (induction es arbitrary: m)
    case (Cons x es)
    then show ?case by (cases x) (simp only: slot_loop.simps fw Let_def)
  qed simp
  show ?thesis using assms(2)
    by (simp add: adjoint_gradient_def fw sl Let_def)
qed

text \<open>The width is shifted before it is refused: a build that checks its arithmetic panics on the circuits
  that the expectation refuses.\<close>

lemma adjoint_shift_panics:
  assumes "checked_build h" "64 \<le> cir_qubits c" "refuse_qudits c ''statevector'' = None" "\<not> measures c" "\<not> circuit_has_reset c"
  shows "sv_adjoint_gradient h c b [] = Panicked" "sv_expectation h c b [] = Failed (Unsupported (Too_many_qubits (cir_qubits c)))"
proof -
  have p: "prepare_for_expectation c [] = Inr (c, [])"
    using assms(4) by (simp add: prepare_for_expectation_def prepare_circuit_for_expectation_def dephase_def)
  have n: "64 \<le> unat (cir_qubits c)" using assms(2) by (simp add: word_le_nat_alt)
  show "sv_adjoint_gradient h c b [] = Panicked"
    using assms n p by (simp add: sv_adjoint_gradient_def adjoint_gradient_def unless_error_def or_fail_def)
  show "sv_expectation h c b [] = Failed (Unsupported (Too_many_qubits (cir_qubits c)))"
    using assms p by (simp add: sv_expectation_def unless_error_def or_fail_def execute_def evolve_once_def capacity_check_def
        MAX_QUBITS_def statevector_of_def stochastic_evolution_def collapses_def analytic_config_def Let_def)
qed

end
