(* ===== verification/SvDefer.thy ===== *)
theory SvDefer
  imports SvExpect
begin

text \<open>
  Deferred measurement is a simulation: every collapse trajectory of a circuit that can be deferred is
  the deferred circuit's state, projected on the outcomes of the measured qubits and normalised.
\<close>

section \<open>Weighted states\<close>

definition weighted :: "(nat \<Rightarrow> complex) \<Rightarrow> complex list \<Rightarrow> complex list" where
  "weighted w st = map (\<lambda>x. st ! x * w x) [0..<length st]"

text \<open>The weight of an index under the outcomes \<open>A\<close> of the qubits \<open>M\<close>.\<close>

definition outcome_weight :: "real \<Rightarrow> nat set \<Rightarrow> nat set \<Rightarrow> nat \<Rightarrow> complex" where
  "outcome_weight c M A x = (if \<forall>q \<in> M. bit x q = (q \<in> A) then of_real c else 0)"

lemma length_weighted [simp]: "length (weighted w st) = length st"
  by (simp add: weighted_def)

lemma weighted_project: "weighted (outcome_weight c M A) st = scaled c (project M A st)"
  by (auto simp: weighted_def outcome_weight_def scaled_def project_def)

lemma weighted_empty: "weighted (outcome_weight 1 {} A) st = st"
  by (rule nth_equalityI) (simp_all add: weighted_def outcome_weight_def)

lemma outcome_weight_put: "q \<notin> M \<Longrightarrow> outcome_weight c M A (put_bit q b x) = outcome_weight c M A x"
  unfolding outcome_weight_def by (intro if_cong refl) (auto simp: bit_put_bit)

lemma weighted_dense_1q:
  assumes "length st = 2 ^ n" "q < n" "\<And>b x. w (put_bit q b x) = w x"
  shows "dense_1q q g (weighted w st) = weighted w (dense_1q q g st)"
proof (rule nth_equalityI)
  fix x assume "x < length (dense_1q q g (weighted w st))"
  then have x: "x < 2 ^ n" using assms(1) by simp
  show "dense_1q q g (weighted w st) ! x = weighted w (dense_1q q g st) ! x"
    using x assms put_bit_less [OF x assms(2)] by (simp add: dense_1q_def weighted_def algebra_simps)
qed simp

lemma weighted_dense_2q:
  assumes "length st = 2 ^ n" "q < n" "s < n" "\<And>b x. w (put_bit q b x) = w x" "\<And>b x. w (put_bit s b x) = w x"
  shows "dense_2q q s g (weighted w st) = weighted w (dense_2q q s g st)"
proof (rule nth_equalityI)
  fix x assume "x < length (dense_2q q s g (weighted w st))"
  then have x: "x < 2 ^ n" using assms(1) by simp
  have less: "put_bit q a (put_bit s b x) < 2 ^ n" for a b
    using put_bit_less [OF put_bit_less [OF x assms(3)] assms(2)] .
  show "dense_2q q s g (weighted w st) ! x = weighted w (dense_2q q s g st) ! x"
    using x assms less by (simp add: dense_2q_def weighted_def algebra_simps)
qed simp

lemma weighted_permuted:
  assumes "length st = 2 ^ n" "\<And>x. x < 2 ^ n \<Longrightarrow> \<pi> x < 2 ^ n" "\<And>x. w (\<pi> x) = w x"
  shows "permuted \<pi> (weighted w st) = weighted w (permuted \<pi> st)"
  using assms by (auto simp: permuted_def weighted_def)

lemma weighted_action:
  assumes "length st = 2 ^ n" "valid_op n op" "unitary_gate (op_gate op)"
    "op_gate op = Id \<or> (\<forall>q \<in> set (op_qubits op). \<forall>b x. w (put_bit (unat q) b x) = w x)"
  shows "gate_action (op_gate op) ps (map unat (op_qubits op)) (weighted w st) =
    weighted w (gate_action (op_gate op) ps (map unat (op_qubits op)) st)"
proof (cases "op_gate op = Id")
  case False
  note q = valid_op_nth [OF assms(2)] and nth = op_qubits_nth [OF assms(2)]
  have len: "num_qubits (op_gate op) \<le> length (op_qubits op)" using assms(2) by (simp add: valid_op_def)
  have w: "w (put_bit (unat (op_qubits op ! i)) b x) = w x" if "i < num_qubits (op_gate op)" for i b x
    using assms(4) False that len by simp
  consider m where "matrix1 (op_gate op) ps = Some m" | m where "matrix2 (op_gate op) ps = Some m" "matrix1 (op_gate op) ps = None"
    | "op_gate op = CCX" | "op_gate op = CSwap"
    using assms(3) False by (cases "op_gate op") auto
  then show ?thesis
  proof cases
    case 1
    note b = num_bounds(1) [OF 1]
    show ?thesis using weighted_dense_1q [OF assms(1) q(2) [OF b] w [OF b]] nth [OF b] 1 by (simp add: gate_action_def)
  next
    case 2
    note b = num_bounds(2) [OF 2(1)]
    then have b0: "0 < num_qubits (op_gate op)" by simp
    show ?thesis
      using weighted_dense_2q [OF assms(1) q(2) [OF b0] q(2) [OF b] w [OF b0] w [OF b]] 2 nth [OF b0] nth [OF b]
      by (simp add: gate_action_def)
  next
    case 3
    have b: "unat (op_qubits op ! i) < n" if "i < 3" for i using q(2) [of i] 3 that by simp
    have "toffoli (map unat (op_qubits op) ! 0) (map unat (op_qubits op) ! 1) (map unat (op_qubits op) ! 2) x < 2 ^ n"
      if "x < 2 ^ n" for x using put_bit_less [OF that b [of 2]] that nth [of 2] 3 by (simp add: toffoli_def)
    then show ?thesis
      unfolding 3 gate_action_three using w [of 2] nth [of 2] 3
      by (intro weighted_permuted [OF assms(1)]) (auto simp: toffoli_def)
  next
    case 4
    have b: "unat (op_qubits op ! i) < n" if "i < 3" for i using q(2) [of i] 4 that by simp
    have "fredkin (map unat (op_qubits op) ! 0) (map unat (op_qubits op) ! 1) (map unat (op_qubits op) ! 2) x < 2 ^ n"
      if "x < 2 ^ n" for x
      using put_bit_less [OF put_bit_less [OF that b [of 2]] b [of 1]] that nth [of 1] nth [of 2] 4 by (simp add: fredkin_def)
    moreover have "w (fredkin (map unat (op_qubits op) ! 0) (map unat (op_qubits op) ! 1) (map unat (op_qubits op) ! 2) x) = w x" for x
      using w [of 1] w [of 2] nth [of 1] nth [of 2] 4 by (auto simp: fredkin_def)
    ultimately show ?thesis
      unfolding 4 gate_action_three by (rule weighted_permuted [OF assms(1)])
  qed
qed (simp add: gate_action_def)

text \<open>A controlled gate on a state whose control is known.\<close>

lemma weighted_controlled:
  assumes "length st = 2 ^ n" "m < n" "t < n" "m \<noteq> t" "length g = 4"
    "\<And>b x. w (put_bit t b x) = w x" "\<And>x. w x \<noteq> 0 \<Longrightarrow> bit x m = v"
  shows "weighted w (dense_2q m t (controlled_matrix g) st) = (if v then dense_1q t g (weighted w st) else weighted w st)"
proof (rule nth_equalityI)
  fix x assume "x < length (weighted w (dense_2q m t (controlled_matrix g) st))"
  then have x: "x < 2 ^ n" using assms(1) by simp
  have p: "put_bit m (bit x m) (put_bit t b x) = put_bit t b x" for b
    using assms(4) by (intro bit_eqI) (auto simp: bit_put_bit)
  have less: "put_bit t b x < 2 ^ n" for b using put_bit_less [OF x assms(3)] .
  show "weighted w (dense_2q m t (controlled_matrix g) st) ! x =
      (if v then dense_1q t g (weighted w st) else weighted w st) ! x"
  proof (cases "w x = 0")
    case True
    then show ?thesis using x less assms(1,6) by (simp add: weighted_def dense_1q_def)
  next
    case False
    then have b: "bit x m = v" by (rule assms(7))
    show ?thesis
      using x less assms(1,6) b p [of False] p [of True] put_bit_same [of t x]
      by (cases v; cases "bit x t")
        (auto simp: weighted_def dense_1q_def dense_2q_def row_2q_def controlled_matrix_def numeral_2_eq_2
          numeral_3_eq_3 algebra_simps)
  qed
qed (simp split: if_splits)


lemma weighted_scaled: "scaled k (weighted (outcome_weight c M A) st) = weighted (outcome_weight (k * c) M A) st"
  by (auto simp: scaled_def weighted_def outcome_weight_def)

text \<open>A measurement adds its qubit and its outcome to the weight.\<close>

definition with_outcome :: "nat \<Rightarrow> bool \<Rightarrow> nat set \<Rightarrow> nat set" where
  "with_outcome q v A = (if v then insert q A else A - {q})"

lemma with_outcome_mem [simp]: "p \<in> with_outcome q v A \<longleftrightarrow> (if p = q then v else p \<in> A)"
  by (auto simp: with_outcome_def)

lemma branch_weighted:
  assumes "q \<in> M \<longrightarrow> v = (q \<in> A)"
  shows "branch (weighted (outcome_weight c M A) st) q v = weighted (outcome_weight c (insert q M) (with_outcome q v A)) st"
proof -
  have "(if bit x q = v then outcome_weight c M A x else 0) = outcome_weight c (insert q M) (with_outcome q v A) x" for x
  proof (cases "bit x q = v")
    case True
    then have "(\<forall>p \<in> insert q M. bit x p = (p \<in> with_outcome q v A)) = (\<forall>p \<in> M. bit x p = (p \<in> A))"
      using assms by (auto split: if_splits)
    then show ?thesis using True by (simp add: outcome_weight_def)
  qed (auto simp: outcome_weight_def)
  then show ?thesis
    by (intro nth_equalityI) (simp_all add: branch_def weighted_def, metis mult_zero_right)
qed

lemma weighted_measure:
  assumes "length st = 2 ^ n" "q < 64" "norm_sq (weighted (outcome_weight c M A) st) = 1" "0 < c" "unit_draw (shd (fst r))"
  obtains v c' where "q \<in> M \<longrightarrow> v = (q \<in> A)" "0 < c'"
    "projective_measure (weighted (outcome_weight c M A) st) n q r =
       Done (of_bool v, weighted (outcome_weight c' (insert q M) (with_outcome q v A)) st, stl (fst r), snd r)"
    "norm_sq (weighted (outcome_weight c' (insert q M) (with_outcome q v A)) st) = 1"
proof -
  let ?st = "weighted (outcome_weight c M A) st"
  define v where "v = (branch_weight ?st q False \<le> shd (fst r))"
  have w: "0 < branch_weight ?st q v"
    and m: "projective_measure ?st n q r = Done (of_bool v, measured ?st q v, stl (fst r), snd r)"
    using measure_spec [of ?st n q r] assms by (simp_all add: Let_def v_def)
  have agree: "q \<in> M \<longrightarrow> v = (q \<in> A)"
  proof (rule ccontr)
    assume "\<not> (q \<in> M \<longrightarrow> v = (q \<in> A))"
    then have "branch_weight ?st q v = 0"
      by (auto simp: branch_weight_def weighted_def outcome_weight_def intro!: sum.neutral split: if_splits)
    then show False using w by simp
  qed
  define c' where "c' = 1 / sqrt (branch_weight ?st q v) * c"
  have st': "measured ?st q v = weighted (outcome_weight c' (insert q M) (with_outcome q v A)) st"
    by (simp add: measured_def branch_weighted [OF agree] weighted_scaled c'_def)
  show thesis
    using that [OF agree, of c'] w assms(4) m st' measured_facts(1) [OF w] by (simp add: c'_def)
qed

section \<open>What the precondition gives\<close>

definition untouched :: "nat set \<Rightarrow> gate_op list \<Rightarrow> bool" where
  "untouched M ops \<longleftrightarrow> (\<forall>op \<in> set ops. op_gate op \<in> {Id, Barrier, Measure} \<or> (\<forall>q \<in> set (op_qubits op). unat q \<notin> M))"

lemma reuse_untouched: "reuse_after mq j ops = None \<Longrightarrow> untouched {unat mq} ops"
  by (induction mq j ops rule: reuse_after.induct)
    (auto simp: untouched_def word_unat_eq_iff [symmetric] split: if_splits)

lemma untouched_insert: "untouched {q} ops \<Longrightarrow> untouched M ops \<Longrightarrow> untouched (insert q M) ops"
  by (auto simp: untouched_def)

lemma untouched_Cons: "untouched M (op # ops) \<longleftrightarrow> untouched M [op] \<and> untouched M ops"
  by (auto simp: untouched_def)

lemma defer_check_tail: "defer_check i (op # ops) = None \<Longrightarrow> defer_check (Suc i) ops = None"
  by (auto split: if_splits option.splits)

lemma defer_check_measure:
  assumes "defer_check i (op # ops) = None" "op_gate op = Measure" "op_qubits op \<noteq> []"
  shows "op_condition op = None" "untouched {unat (op_qubits op ! 0)} ops"
proof -
  have q: "first_qubit op = Some (op_qubits op ! 0)" using assms(3) by (cases "op_qubits op") (auto simp: first_qubit_def)
  show "op_condition op = None" using assms by (cases "op_condition op") (auto split: if_splits)
  have "reuse_after (op_qubits op ! 0) (Suc i) ops = None"
    using assms q by (auto split: if_splits option.splits)
  then show "untouched {unat (op_qubits op ! 0)} ops" by (rule reuse_untouched)
qed

text \<open>The classical register holds the outcomes of the qubits that wrote it.\<close>

definition register_ok :: "(u32, u32) btree \<Rightarrow> u8 list \<Rightarrow> nat set \<Rightarrow> nat set \<Rightarrow> bool" where
  "register_ok w bits M A \<longleftrightarrow> bt_sorted w \<and> (\<forall>cb q. bt_get cb w = Some q \<longrightarrow>
     unat q \<in> M \<and> unat cb < length bits \<and> bits ! unat cb = of_bool (unat q \<in> A))"

lemma register_ok_measure:
  assumes "register_ok w bits M A" "op_qubits op \<noteq> []" "unat (op_qubits op ! 0) \<in> M \<longrightarrow> v = (unat (op_qubits op ! 0) \<in> A)"
    "\<And>b. op_cbit op = Some b \<Longrightarrow> unat b < length bits"
  shows "register_ok (write_bit op w) (set_cbit (op_cbit op) (of_bool v) bits)
    (insert (unat (op_qubits op ! 0)) M) (with_outcome (unat (op_qubits op ! 0)) v A)"
proof -
  have f: "first_qubit op = Some (op_qubits op ! 0)" using assms(2) by (cases "op_qubits op") (auto simp: first_qubit_def)
  have kept: "bits ! unat cb = of_bool (unat q \<in> with_outcome (unat (op_qubits op ! 0)) v A)" if "bt_get cb w = Some q" for cb q
  proof (cases "unat q = unat (op_qubits op ! 0)")
    case True
    moreover have "unat q \<in> M" "bits ! unat cb = of_bool (unat q \<in> A)" using assms(1) that by (simp_all add: register_ok_def)
    ultimately show ?thesis using assms(3) by simp
  next
    case False
    then show ?thesis using assms(1) that by (simp add: register_ok_def)
  qed
  show ?thesis
  proof (cases "op_cbit op")
    case None
    then show ?thesis using assms(1) kept by (simp add: register_ok_def write_bit_def set_cbit_def del: with_outcome_mem)
  next
    case (Some b)
    have b: "unat b < length bits" using assms(4) Some by simp
    have w: "write_bit op w = bt_insert b (op_qubits op ! 0) w" using Some f by (simp add: write_bit_def)
    have get: "bt_get cb (write_bit op w) = (if cb = b then Some (op_qubits op ! 0) else bt_get cb w)" for cb
      using assms(1) by (simp add: w bt_insert_get register_ok_def)
    have bits: "set_cbit (op_cbit op) (of_bool v) bits ! unat cb = (if cb = b then of_bool v else bits ! unat cb)" for cb
      using Some b by (simp add: set_cbit_def word_unat_eq_iff)
    have "bt_sorted (write_bit op w)" using assms(1) by (simp add: w bt_insert_sorted register_ok_def)
    then show ?thesis
      using assms(1) kept b unfolding register_ok_def get bits set_cbit_ok(2)
      by (simp add: set_cbit_ok(2) del: with_outcome_mem split: if_splits) (simp add: with_outcome_def)
  qed
qed

lemma single_bit_condition:
  assumes "op_condition op = Some (cb, 1, 1)" "unat cb < length bits" "bits ! unat cb = of_bool v"
  shows "condition_satisfied op bits = v"
  using assms by (cases v) (simp_all add: condition_satisfied_def)


section \<open>One operation\<close>

lemma evolve_unitary_op:
  assumes "n \<le> 64" "valid_op n op" "length st = 2 ^ n" "unitary_gate (op_gate op)"
    "resolve_all b (op_params op) = Inr ps" "condition_satisfied op bits"
  shows "evolve_op mode n b analytic op (st, bits, r) = Done (op_action b op st, bits, r)"
proof -
  have "op_gate op \<notin> {Measure, Barrier}" using assms(4) by auto
  then show ?thesis
    using apply_gate_action [OF assms(3,1,2,5,4)] assms(5,6) by (simp add: evolve_op_def op_action_def)
qed

lemma weighted_op_action:
  assumes "length st = 2 ^ n" "valid_op n op" "unitary_gate (op_gate op)" "untouched M [op]"
  shows "op_action b op (weighted (outcome_weight c M A) st) = weighted (outcome_weight c M A) (op_action b op st)"
  unfolding op_action_def
proof (rule weighted_action [OF assms(1-3)])
  have "op_gate op = Id \<or> (\<forall>q \<in> set (op_qubits op). unat q \<notin> M)"
    using assms(3,4) by (auto simp: untouched_def)
  then show "op_gate op = Id \<or> (\<forall>q \<in> set (op_qubits op). \<forall>b x.
      outcome_weight c M A (put_bit (unat q) b x) = outcome_weight c M A x)"
    by (auto simp: outcome_weight_put)
qed

text \<open>A conditioned flip is the controlled flip of the deferred circuit.\<close>

lemma evolve_controlled:
  assumes "n \<le> 64" "valid_op n op" "length st = 2 ^ n" "resolve_all b (op_params op) = Inr ps" "0 < c"
    and "controlled_form (op_gate op) = Some g" "op_condition op = Some (cb, 1, 1)" "bt_get cb w = Some ctrl"
    and "register_ok w bits M A" "untouched M [op]" "unat ctrl < n"
  shows "evolve_op mode n b analytic op (weighted (outcome_weight c M A) st, bits, r) =
    Done (weighted (outcome_weight c M A) (op_action b (controlled_op g ctrl op) st), bits, r) \<and>
    norm_sq (weighted (outcome_weight c M A) (op_action b (controlled_op g ctrl op) st)) =
    norm_sq (weighted (outcome_weight c M A) st)"
proof -
  let ?v = "unat ctrl \<in> A" and ?t = "unat (op_qubits op ! 0)" and ?w = "outcome_weight c M A"
  obtain m where m: "matrix1 (op_gate op) ps = Some m" "length m = 4" "unitary_gate (op_gate op)"
      "op_gate op \<notin> {Id, Barrier, Measure}" "num_qubits (op_gate op) = 1"
      "\<And>qs. gate_action g ps qs st = dense_2q (qs ! 0) (qs ! 1) (controlled_matrix m) st"
    using controlled_form_cases [OF assms(6)] by (auto simp: gate_action_def controlled_gates gate1q_defs)
  have r: "unat ctrl \<in> M" "unat cb < length bits" "bits ! unat cb = of_bool ?v"
    using assms(8,9) by (auto simp: register_ok_def)
  have q: "op_qubits op \<noteq> []" "?t < n"
    using assms(2) m(5) valid_op_nth(2) [OF assms(2), of 0] by (auto simp: valid_op_def)
  have t: "?t \<notin> M" using assms(10) m(4) q(1) by (auto simp: untouched_def)
  have act: "op_action b (controlled_op g ctrl op) st = dense_2q (unat ctrl) ?t (controlled_matrix m) st"
    using q(1) assms(4) by (simp add: op_action_def controlled_op_def m(6))
  have flip: "weighted ?w (dense_2q (unat ctrl) ?t (controlled_matrix m) st) =
      (if ?v then dense_1q ?t m (weighted ?w st) else weighted ?w st)"
  proof (rule weighted_controlled [OF assms(3,11) q(2) _ m(2)])
    show "unat ctrl \<noteq> ?t" using r(1) t by auto
    show "?w (put_bit ?t b x) = ?w x" for b x using t by (rule outcome_weight_put)
    show "bit x (unat ctrl) = ?v" if "?w x \<noteq> 0" for x
      using that r(1) by (auto simp: outcome_weight_def split: if_splits)
  qed
  show ?thesis
  proof (cases ?v)
    case True
    then have "condition_satisfied op bits" using single_bit_condition [OF assms(7) r(2,3)] by simp
    moreover have "op_action b op (weighted ?w st) = weighted ?w (op_action b (controlled_op g ctrl op) st)"
      using True q(1) act flip by (simp add: op_action_def assms(4) gate_action_def m(1))
    ultimately show ?thesis
      using evolve_unitary_op [OF assms(1,2) _ m(3) assms(4)] norm_gate_action [OF _ assms(2) m(3), of "weighted ?w st" ps] assms(3)
      by (simp add: op_action_def assms(4))
  next
    case False
    then have "\<not> condition_satisfied op bits" using single_bit_condition [OF assms(7) r(2,3)] by simp
    then show ?thesis using False act flip by (simp add: evolve_op_def)
  qed
qed


section \<open>The simulation\<close>

fun measured_qubits :: "gate_op list \<Rightarrow> nat set" where
  "measured_qubits [] = {}"
| "measured_qubits (op # ops) =
     (if op_gate op = Measure then insert (unat (op_qubits op ! 0)) (measured_qubits ops) else measured_qubits ops)"

fun last_writers :: "gate_op list \<Rightarrow> (u32, u32) btree \<Rightarrow> (u32, u32) btree" where
  "last_writers [] w = w"
| "last_writers (op # ops) w = last_writers ops (if op_gate op = Measure then write_bit op w else w)"

text \<open>The state of a trajectory against the state of the deferred circuit.\<close>

definition simulates :: "nat \<Rightarrow> nat set \<Rightarrow> nat set \<Rightarrow> (u32, u32) btree \<Rightarrow> nat \<Rightarrow> complex list \<Rightarrow>
    complex list \<times> u8 list \<times> rng \<Rightarrow> bool" where
  "simulates n M A w nc \<phi> s \<longleftrightarrow> (\<exists>c bits r. s = (weighted (outcome_weight c M A) \<phi>, bits, r) \<and> 0 < c \<and>
     length \<phi> = 2 ^ n \<and> norm_sq (weighted (outcome_weight c M A) \<phi>) = 1 \<and> length bits = nc \<and>
     register_ok w bits M A \<and> draws_ok r)"

lemma runs_unconditional: "op_condition op = None \<Longrightarrow> op_gate op \<notin> {Measure, Barrier} \<Longrightarrow> runs k op"
  by (simp add: runs_def condition_satisfied_def)

lemma simulates_measure:
  assumes "simulates n M A w nc \<phi> s" "valid_op n op" "op_gate op = Measure" "op_condition op = None" "n \<le> 64"
    "\<And>b. op_cbit op = Some b \<Longrightarrow> unat b < nc"
  obtains A' s' where "evolve_op Collapse n b an op s = Done s'"
    "simulates n (insert (unat (op_qubits op ! 0)) M) A' (write_bit op w) nc \<phi> s'"
proof -
  let ?q = "unat (op_qubits op ! 0)"
  obtain c bits r where s: "s = (weighted (outcome_weight c M A) \<phi>, bits, r)" "0 < c" "length \<phi> = 2 ^ n"
      "norm_sq (weighted (outcome_weight c M A) \<phi>) = 1" "length bits = nc" "register_ok w bits M A" "draws_ok r"
    using assms(1) by (auto simp: simulates_def)
  have "?q < n" using measured_qubit [OF assms(2,3)] by blast
  then have q: "qubit_of op 0 = Done ?q" "?q < 64" "op_qubits op \<noteq> []"
    using measured_qubit [OF assms(2,3)] assms(2,3,5) by (simp, simp, simp add: valid_op_def)
  obtain v c' where v: "?q \<in> M \<longrightarrow> v = (?q \<in> A)" "0 < c'"
      "projective_measure (weighted (outcome_weight c M A) \<phi>) n ?q r =
       Done (of_bool v, weighted (outcome_weight c' (insert ?q M) (with_outcome ?q v A)) \<phi>, stl (fst r), snd r)"
      "norm_sq (weighted (outcome_weight c' (insert ?q M) (with_outcome ?q v A)) \<phi>) = 1"
    using weighted_measure [OF s(3) q(2) s(4,2) draws_ok_shd [OF s(7)]] by metis
  show thesis
  proof (rule that)
    show "evolve_op Collapse n b an op s =
        Done (weighted (outcome_weight c' (insert ?q M) (with_outcome ?q v A)) \<phi>,
          set_cbit (op_cbit op) (of_bool v) bits, stl (fst r), snd r)"
      using v(3) q(1) assms(3,4) by (cases v) (simp_all add: s(1) evolve_op_def condition_satisfied_def)
    show "simulates n (insert ?q M) (with_outcome ?q v A) (write_bit op w) nc \<phi>
        (weighted (outcome_weight c' (insert ?q M) (with_outcome ?q v A)) \<phi>,
          set_cbit (op_cbit op) (of_bool v) bits, stl (fst r), snd r)"
      using v(2,4) s(3,5) register_ok_measure [OF s(6) q(3) v(1)] assms(6) draws_ok_stl [OF s(7)] set_cbit_ok(2)
      unfolding simulates_def by blast
  qed
qed

lemma deferred_simulation:
  assumes "n \<le> 64"
  shows "defer_loop i ops w m = Inr (out, ms) \<Longrightarrow> defer_check j ops = None \<Longrightarrow> \<forall>op \<in> set ops. valid_op n op \<Longrightarrow>
    unitary_ops b ops \<Longrightarrow> \<forall>op \<in> set ops. \<forall>cb. op_cbit op = Some cb \<longrightarrow> unat cb < nc \<Longrightarrow>
    untouched M ops \<Longrightarrow> simulates n M A w nc \<phi> s \<Longrightarrow> M \<subseteq> {..<n} \<Longrightarrow>
    \<exists>s' A'. evolve_ops Collapse n b an ops s = Done s' \<and>
      simulates n (M \<union> measured_qubits ops) A' (last_writers ops w) nc (fold (op_action b) (filter (runs k) out) \<phi>) s'"
proof (induction ops arbitrary: i w m out j M A \<phi> s)
  case Nil
  then show ?case by auto
next
  case (Cons op ops)
  have tail: "unitary_ops b ops" "untouched M ops" "untouched M [op]" "defer_check (Suc j) ops = None" "valid_op n op"
    "\<forall>op \<in> set ops. valid_op n op" "\<forall>op \<in> set ops. \<forall>cb. op_cbit op = Some cb \<longrightarrow> unat cb < nc"
    using Cons.prems untouched_Cons [of M op ops] defer_check_tail [of j op ops] by (auto simp: unitary_ops_def)
  obtain c bits r where s: "s = (weighted (outcome_weight c M A) \<phi>, bits, r)" "0 < c" "length \<phi> = 2 ^ n"
      "register_ok w bits M A"
    using Cons.prems(7) by (auto simp: simulates_def)
  from Cons.prems(1) show ?case
  proof (cases rule: defer_loop_Cons)
    case measure
    let ?q = "unat (op_qubits op ! 0)"
    have q: "op_qubits op \<noteq> []" "?q < n" using measured_qubit [OF tail(5) measure(1)] tail(5) measure(1) by (auto simp: valid_op_def)
    note chk = defer_check_measure [OF Cons.prems(2) measure(1) q(1)]
    obtain A' s' where st: "evolve_op Collapse n b an op s = Done s'"
        "simulates n (insert ?q M) A' (write_bit op w) nc \<phi> s'"
      using simulates_measure [OF Cons.prems(7) tail(5) measure(1) chk(1) assms] Cons.prems(5) by (metis list.set_intros(1))
    show ?thesis
      using Cons.IH [OF measure(2) tail(4,6,1,7) untouched_insert [OF chk(2) tail(2)] st(2)] q(2) Cons.prems(8) st(1) measure(1)
      by auto
  next
    case (keep out')
    have ev: "evolve_op Collapse n b an op s = Done (weighted (outcome_weight c M A) \<psi>, bits, r)"
      and psi: "fold (op_action b) (filter (runs k) out) \<phi> = fold (op_action b) (filter (runs k) out') \<psi>"
      and sim: "simulates n M A w nc \<psi> (weighted (outcome_weight c M A) \<psi>, bits, r)"
      if psi: "\<psi> = (if op_gate op = Barrier then \<phi> else op_action b op \<phi>)" for \<psi>
    proof -
      have un: "evolve_op Collapse n b an op s = Done (weighted (outcome_weight c M A) (op_action b op \<phi>), bits, r) \<and>
          norm_sq (weighted (outcome_weight c M A) (op_action b op \<phi>)) = norm_sq (weighted (outcome_weight c M A) \<phi>)"
        if nb: "op_gate op \<noteq> Barrier"
      proof -
        obtain ps where ps: "unitary_gate (op_gate op)" "resolve_all b (op_params op) = Inr ps"
          using Cons.prems(4) keep(1) nb by (auto simp: unitary_ops_def)
        have "norm_sq (op_action b op (weighted (outcome_weight c M A) \<phi>)) = norm_sq (weighted (outcome_weight c M A) \<phi>)"
          using norm_gate_action [OF _ tail(5) ps(1)] s(3) by (simp add: op_action_def)
        then show ?thesis
          using evolve_unitary_op [OF assms tail(5) _ ps] weighted_op_action [OF s(3) tail(5) ps(1) tail(3), of b c A] s(3) keep(2)
          by (simp add: s(1) condition_satisfied_def)
      qed
      show "evolve_op Collapse n b an op s = Done (weighted (outcome_weight c M A) \<psi>, bits, r)"
        using un keep(2) by (cases "op_gate op = Barrier") (simp_all add: psi s(1) evolve_op_def condition_satisfied_def)
      show "fold (op_action b) (filter (runs k) out) \<phi> = fold (op_action b) (filter (runs k) out') \<psi>"
        using keep(1,2) runs_unconditional [of op k] by (auto simp: psi keep(3) runs_def)
      show "simulates n M A w nc \<psi> (weighted (outcome_weight c M A) \<psi>, bits, r)"
        using Cons.prems(7) un s by (auto simp: psi simulates_def op_action_def)
    qed
    show ?thesis
      using Cons.IH [OF keep(4) tail(4,6,1,7,2) sim [OF refl] Cons.prems(8)] ev [OF refl] psi [OF refl] keep(1) by auto
  next
    case (control cbit ctrl g out' m')
    obtain ps where ps: "resolve_all b (op_params op) = Inr ps"
      using Cons.prems(4) controlled_form_cases [OF control(4)] by (auto simp: unitary_ops_def)
    have c: "unat ctrl < n" using control(3) s(4) Cons.prems(8) by (auto simp: register_ok_def)
    let ?\<psi> = "op_action b (controlled_op g ctrl op) \<phi>"
    note ev = evolve_controlled [OF assms tail(5) s(3) ps s(2) control(4,2,3) s(4) tail(3) c, of Collapse an r]
    have sim: "simulates n M A w nc ?\<psi> (weighted (outcome_weight c M A) ?\<psi>, bits, r)"
      using Cons.prems(7) ev s by (auto simp: simulates_def op_action_def)
    have "runs k (controlled_op g ctrl op)"
      using controlled_form_cases [OF control(4)] by (intro runs_unconditional) (auto simp: controlled_op_def)
    then show ?thesis
      using Cons.IH [OF control(7) tail(4,6,1,7,2) sim Cons.prems(8)] ev control(1) by (simp add: control(6) s(1))
  qed
qed



section \<open>The deferred circuit runs\<close>

lemma set_bt_insert: "set (bt_insert k v m) \<subseteq> insert (k, v) (set m)"
  by (induction k v m rule: bt_insert.induct) auto

lemma bt_get_set: "bt_get k m = Some v \<Longrightarrow> (k, v) \<in> set m"
  by (simp add: bt_get_def map_of_SomeD)

lemma valid_controlled:
  assumes "valid_op n op" "controlled_form (op_gate op) = Some g" "unat ctrl < n" "ctrl \<notin> set (op_qubits op)"
  shows "valid_op n (controlled_op g ctrl op) \<and> unitary_gate g"
  using controlled_form_cases [OF assms(2)] assms by (auto simp: valid_op_def controlled_op_def)

lemma deferred_runs:
  "defer_loop i ops w m = Inr (out, ms) \<Longrightarrow> unitary_ops b ops \<Longrightarrow> \<forall>op \<in> set ops. valid_op n op \<Longrightarrow>
     \<forall>(cb, q) \<in> set w. unat q < n \<Longrightarrow> unitary_ops b out \<and> (\<forall>op \<in> set out. valid_op n op)"
proof (induction ops arbitrary: i w m out)
  case (Cons op ops)
  have tail: "unitary_ops b ops" "\<forall>op \<in> set ops. valid_op n op" "valid_op n op"
    using Cons.prems by (auto simp: unitary_ops_def)
  from Cons.prems(1) show ?case
  proof (cases rule: defer_loop_Cons)
    case measure
    have "\<forall>(cb, q) \<in> set (write_bit op w). unat q < n"
      using Cons.prems(4) tail(3) set_bt_insert [of _ _ w]
      by (cases "op_qubits op") (fastforce simp: write_bit_def first_qubit_def valid_op_def split: option.splits)+
    then show ?thesis using Cons.IH [OF measure(2) tail(1,2)] by simp
  next
    case (keep out')
    then show ?thesis
      using Cons.IH [OF keep(4) tail(1,2) Cons.prems(4)] Cons.prems(2) tail(3) by (auto simp: unitary_ops_def)
  next
    case (control cbit ctrl g out' m')
    have "unat ctrl < n" using bt_get_set [OF control(3)] Cons.prems(4) by auto
    then have "valid_op n (controlled_op g ctrl op)" "unitary_gate g"
      using valid_controlled [OF tail(3) control(4) _ control(5)] by auto
    moreover have "\<exists>ps. resolve_all b (op_params op) = Inr ps"
      using Cons.prems(2) controlled_form_cases [OF control(4)] by (auto simp: unitary_ops_def)
    ultimately show ?thesis
      using Cons.IH [OF control(7) tail(1,2) Cons.prems(4)] by (auto simp: control(6) unitary_ops_def controlled_op_def)
  qed
qed (simp add: unitary_ops_def)

lemma defer_measurements_Inr:
  assumes "defer_measurements c = Inr (d, ms)"
  obtains out where "defer_check 0 (cir_ops c) = None" "defer_loop 0 (cir_ops c) [] [] = Inr (out, ms)" "d = with_ops out c"
  using assms by (auto simp: defer_measurements_def map_sum_Inr split: option.splits)

lemma last_writers_keys:
  "\<forall>op \<in> set ops. valid_op n op \<Longrightarrow> bt_sorted w \<Longrightarrow> bt_sorted (last_writers ops w)"
  by (induction ops arbitrary: w) (auto simp: write_bit_def bt_insert_sorted split: option.split)

section \<open>Properties\<close>

text \<open>C6: Deferring the measurements of a circuit is a refinement of running it: when the circuit can be
  deferred, holds unitary gates whose parameters resolve and measurements into declared bits (no reset), and
  fits the host's memory, every collapse trajectory of the original circuit succeeds and ends in the deferred circuit's
  state, projected on some outcomes of the measured qubits and normalised; the classical register holds,
  for every bit, the outcome of the qubit that was measured into it last.\<close>

theorem deferral_simulates:
  assumes "valid_circuit c" "cbits_ok c" "unitary_ops b (cir_ops c)" "defer_measurements c = Inr (d, ms)"
    "draws_ok r" "capacity_check h (cir_qubits c) (cfg_shots cfg \<noteq> None) = Done ()" "cfg_mode cfg = Collapse"
  shows "\<exists>\<phi> A bits r'. let \<psi> = project (measured_qubits (cir_ops c)) A \<phi> in
     evolve_once h d b (cfg\<lparr>cfg_mode := Skip\<rparr>) r an = Done (\<phi>, replicate (unat (cir_cbits c)) 0, r) \<and>
     evolve_once h c b cfg r an = Done (scaled (1 / sqrt (norm_sq \<psi>)) \<psi>, bits, r') \<and> 0 < norm_sq \<psi> \<and>
     list_all (\<lambda>(cb, q). bits ! unat cb = of_bool (unat q \<in> A)) (last_writers (cir_ops c) [])"
proof -
  let ?n = "unat (cir_qubits c)" and ?nc = "unat (cir_cbits c)" and ?M = "measured_qubits (cir_ops c)"
  have n: "?n \<le> 64" using capacity_Done [OF assms(6)] by simp
  obtain out where out: "defer_check 0 (cir_ops c) = None" "defer_loop 0 (cir_ops c) [] [] = Inr (out, ms)" "d = with_ops out c"
    using assms(4) by (rule defer_measurements_Inr)
  have valid: "\<forall>op \<in> set (cir_ops c). valid_op ?n op" using assms(1) by (simp add: valid_circuit_def)
  have d: "valid_circuit d" "unitary_ops b (cir_ops d)"
    using deferred_runs [OF out(2) assms(3) valid] by (simp_all add: out(3) valid_circuit_def)
  define \<phi> where "\<phi> = fold (op_action b) (filter (runs ?nc) out) (sv_zero_state ?n)"
  have dd: "evolve_once h d b (cfg\<lparr>cfg_mode := Skip\<rparr>) r an = Done (\<phi>, replicate ?nc 0, r)"
    using evolve_unitary [OF n, of out b "sv_zero_state ?n"] d assms(6) sv_zero_state_ok(1)
    by (simp add: evolve_once_def valid_circuit_def out(3) Let_def \<phi>_def)
  have "simulates ?n {} {} [] ?nc (sv_zero_state ?n) (sv_zero_state ?n, replicate ?nc 0, r)"
    using sv_zero_state_ok assms(5) unfolding simulates_def
    by (intro exI [of _ 1]) (simp add: weighted_empty register_ok_def bt_sorted_def bt_get_def)
  note sim = this
  have cb: "\<forall>op \<in> set (cir_ops c). \<forall>cb. op_cbit op = Some cb \<longrightarrow> unat cb < ?nc"
    using assms(2) by (auto simp: cbits_ok_def word_less_nat_alt)
  have un: "untouched {} (cir_ops c)" by (simp add: untouched_def)
  obtain s' A where s: "evolve_ops Collapse ?n b an (cir_ops c) (sv_zero_state ?n, replicate ?nc 0, r) = Done s'"
      "simulates ?n ?M A (last_writers (cir_ops c) []) ?nc \<phi> s'"
    using deferred_simulation [OF n out(2,1) valid assms(3) cb un sim empty_subsetI, of an ?nc] by (auto simp: \<phi>_def)
  obtain k bits r' where k: "s' = (scaled k (project ?M A \<phi>), bits, r')" "0 < k"
      "norm_sq (scaled k (project ?M A \<phi>)) = 1" "register_ok (last_writers (cir_ops c) []) bits ?M A"
    using s(2) by (auto simp: simulates_def weighted_project)
  have "k\<^sup>2 * norm_sq (project ?M A \<phi>) = 1" using k(3) by (simp add: norm_scaled)
  then have pos: "norm_sq (project ?M A \<phi>) = 1 / k\<^sup>2" using k(2) by (simp add: field_simps)
  then have kk: "k = 1 / sqrt (norm_sq (project ?M A \<phi>))" using k(2) by (simp add: real_sqrt_divide)
  have "bt_sorted (last_writers (cir_ops c) [])" using last_writers_keys [OF valid] by (simp add: bt_sorted_def)
  then have "list_all (\<lambda>(cb, q). bits ! unat cb = of_bool (unat q \<in> A)) (last_writers (cir_ops c) [])"
    using k(4) by (auto simp: list_all_iff register_ok_def bt_get_in)
  moreover have "evolve_once h c b cfg r an = Done s'"
    using s(1) assms(6,7) by (simp add: evolve_once_def Let_def)
  moreover have "0 < norm_sq (project ?M A \<phi>)" using pos k(2) by simp
  ultimately show ?thesis using dd kk k(1) unfolding Let_def by (intro exI [of _ \<phi>] exI [of _ A] exI [of _ bits] exI [of _ r']) simp
qed


text \<open>A flip, its measurement, and a flip of another qubit conditioned on the outcome.\<close>

definition feed_forward :: circuit_ir where
  "feed_forward = CircuitIR 2 1
     [\<lparr>op_gate = H, op_qubits = [0], op_params = [], op_cbit = None, op_condition = None\<rparr>,
      \<lparr>op_gate = Measure, op_qubits = [0], op_params = [], op_cbit = Some 0, op_condition = None\<rparr>,
      \<lparr>op_gate = X, op_qubits = [1], op_params = [], op_cbit = None, op_condition = Some (0, 1, 1)\<rparr>]
     GateBased [] [] [] []"

definition feed_forward_deferred :: circuit_ir where
  "feed_forward_deferred = with_ops
     [\<lparr>op_gate = H, op_qubits = [0], op_params = [], op_cbit = None, op_condition = None\<rparr>,
      \<lparr>op_gate = CX, op_qubits = [0, 1], op_params = [], op_cbit = None, op_condition = None\<rparr>] feed_forward"

theorem deferral_simulates_witness:
  "\<exists>\<phi> A bits r'.
     evolve_once \<lparr>hm_oversubscribe = True, hm_available = None\<rparr> feed_forward_deferred []
       \<lparr>cfg_shots = None, cfg_seed = None, cfg_mode = Skip\<rparr> (sconst 0, sconst 0) False = Done (\<phi>, [0], sconst 0, sconst 0) \<and>
     evolve_once \<lparr>hm_oversubscribe = True, hm_available = None\<rparr> feed_forward []
       \<lparr>cfg_shots = None, cfg_seed = None, cfg_mode = Collapse\<rparr> (sconst 0, sconst 0) False =
       Done (scaled (1 / sqrt (norm_sq (project {0} A \<phi>))) (project {0} A \<phi>), bits, r') \<and>
     0 < norm_sq (project {0} A \<phi>) \<and> bits ! 0 = of_bool (0 \<in> A)"
proof -
  have "defer_measurements feed_forward = Inr (feed_forward_deferred, [0])"
    by (simp add: defer_measurements_def feed_forward_def feed_forward_deferred_def first_qubit_def bt_get_def controlled_op_def)
  moreover have "valid_circuit feed_forward" "cbits_ok feed_forward" "unitary_ops [] (cir_ops feed_forward)"
    by (simp_all add: feed_forward_def valid_circuit_def valid_op_def cbits_ok_def unitary_ops_def)
  moreover have "draws_ok (sconst 0, sconst 0)" by (simp add: draws_ok_def)
  ultimately show ?thesis
    using deferral_simulates [of feed_forward "[]" feed_forward_deferred "[0]" "(sconst 0, sconst 0)"
        "\<lparr>hm_oversubscribe = True, hm_available = None\<rparr>" "\<lparr>cfg_shots = None, cfg_seed = None, cfg_mode = Collapse\<rparr>" False]
    by (simp add: capacity_check_cases feed_forward_def Let_def write_bit_def first_qubit_def)
qed

end
