(* ===== verification/Optimize.thy ===== *)
theory Optimize
  imports Circuit "HOL-Library.Multiset"
begin

text \<open>
  The peephole optimiser, \<^verbatim>\<open>crates/omega-core/src/optimize.rs\<close>: its three passes over the operations,
  with the position the loops keep, and the fixed point around them.  Each loop is a function whose
  measure is the argument that it ends; \<open>None\<close> is the panic of an operation with too few qubits.
\<close>

section \<open>Removing redundancies\<close>

definition negligible :: "real \<Rightarrow> bool" where
  "negligible v = (\<bar>v\<bar> < 1 / 10 ^ 15)"

fun rotation :: "gate_kind \<Rightarrow> bool" where
  "rotation Rx = True" | "rotation Ry = True" | "rotation Rz = True" | "rotation U1 = True" | "rotation _ = False"

definition retained :: "gate_op \<Rightarrow> bool" where
  "retained op =
     (if op_gate op = Id then False
      else if rotation (op_gate op)
      then (case op_params op of Concrete v # _ \<Rightarrow> \<not> negligible v | _ \<Rightarrow> True)
      else True)"

definition is_self_inverse_pair :: "gate_op \<Rightarrow> gate_op \<Rightarrow> bool" where
  "is_self_inverse_pair a b =
     (if op_gate a \<noteq> op_gate b \<or> op_qubits a \<noteq> op_qubits b then False
      else op_gate a \<in> {H, X, Y, Z, CX, CZ, Swap})"

text \<open>\<open>Vec::remove\<close> of a position and the next.\<close>

definition remove_pair :: "nat \<Rightarrow> 'a list \<Rightarrow> 'a list" where
  "remove_pair i xs = take i xs @ drop (i + 2) xs"

lemma length_remove_pair: "i + 1 < length xs \<Longrightarrow> length (remove_pair i xs) = length xs - 2"
  by (simp add: remove_pair_def)

function cancel_loop :: "nat \<Rightarrow> gate_op list \<Rightarrow> gate_op list" where
  "cancel_loop i ops =
     (if i + 1 < length ops then
        (if is_self_inverse_pair (ops ! i) (ops ! (i + 1)) then cancel_loop (i - 1) (remove_pair i ops)
         else cancel_loop (i + 1) ops)
      else ops)"
  by pat_completeness auto
termination
  by (relation "measure (\<lambda>(i, ops). 2 * length ops - i)") (auto simp: length_remove_pair)

definition remove_redundancies :: "gate_op list \<Rightarrow> gate_op list" where
  "remove_redundancies ops = cancel_loop 0 (filter retained ops)"

section \<open>Merging rotations\<close>

definition mergeable :: "gate_op \<Rightarrow> gate_op \<Rightarrow> bool" where
  "mergeable a b = (op_gate a = op_gate b \<and> op_qubits a = op_qubits b \<and> rotation (op_gate a) \<and>
     length (op_params a) = 1 \<and> length (op_params b) = 1)"

text \<open>The merged parameter; none when the sum is negligible.\<close>

definition merged_param :: "param_expr \<Rightarrow> param_expr \<Rightarrow> param_expr option" where
  "merged_param p q =
     (case (p, q) of
        (Concrete x, Concrete y) \<Rightarrow> if negligible (x + y) then None else Some (Concrete (x + y))
      | _ \<Rightarrow> Some (Add p q))"

function merge_loop :: "nat \<Rightarrow> gate_op list \<Rightarrow> gate_op list" where
  "merge_loop i ops =
     (if i + 1 < length ops then
        let a = ops ! i; b = ops ! (i + 1) in
        (if mergeable a b then
           (case merged_param (op_params a ! 0) (op_params b ! 0) of
              None \<Rightarrow> merge_loop (i - 1) (remove_pair i ops)
            | Some p \<Rightarrow> merge_loop i (take i ops @ a\<lparr>op_params := (op_params a)[0 := p]\<rparr> # drop (i + 2) ops))
         else merge_loop (i + 1) ops)
      else ops)"
  by pat_completeness auto
termination
  by (relation "measure (\<lambda>(i, ops). 2 * length ops - i)") (auto simp: length_remove_pair)

definition merge_rotations :: "gate_op list \<Rightarrow> gate_op list" where
  "merge_rotations ops = merge_loop 0 ops"

section \<open>Commuting single-qubit gates to the left\<close>

fun z_diagonal :: "gate_kind \<Rightarrow> bool" where
  "z_diagonal Rz = True" | "z_diagonal Z = True" | "z_diagonal S = True" | "z_diagonal Sdg = True"
| "z_diagonal T = True" | "z_diagonal Tdg = True" | "z_diagonal U1 = True" | "z_diagonal _ = False"

definition qubit_at :: "gate_op \<Rightarrow> nat \<Rightarrow> u32 option" where
  "qubit_at op i = (if i < length (op_qubits op) then Some (op_qubits op ! i) else None)"

definition try_commute :: "gate_op \<Rightarrow> gate_op \<Rightarrow> bool option" where
  "try_commute a b =
     (if num_qubits (op_gate b) \<noteq> 1 \<or> num_qubits (op_gate a) < 2 then Some False
      else case qubit_at b 0 of None \<Rightarrow> None | Some q \<Rightarrow>
        (case qubit_at a 0 of None \<Rightarrow> None | Some q0 \<Rightarrow>
          if op_gate a = CX then
            (case qubit_at a 1 of None \<Rightarrow> None | Some q1 \<Rightarrow>
              if q = q0 then Some (z_diagonal (op_gate b))
              else if q = q1 then Some (op_gate b = X)
              else Some True)
          else if op_gate a = CZ then
            (if q = q0 then Some (z_diagonal (op_gate b))
             else case qubit_at a 1 of None \<Rightarrow> None | Some q1 \<Rightarrow>
               if q = q1 then Some (z_diagonal (op_gate b)) else Some True)
          else
            (if q = q0 then Some False
             else case qubit_at a 1 of None \<Rightarrow> None | Some q1 \<Rightarrow> Some (q \<noteq> q1))))"

definition swap_next :: "nat \<Rightarrow> 'a list \<Rightarrow> 'a list" where
  "swap_next i xs = xs[i := xs ! (i + 1), i + 1 := xs ! i]"

lemma length_swap_next [simp]: "length (swap_next i xs) = length xs"
  by (simp add: swap_next_def)

text \<open>One walk over the operations, with the flag of a change.\<close>

function commute_pass :: "nat \<Rightarrow> gate_op list \<Rightarrow> bool \<Rightarrow> (gate_op list \<times> bool) option" where
  "commute_pass i ops changed =
     (if i + 1 < length ops then
        (case try_commute (ops ! i) (ops ! (i + 1)) of
           None \<Rightarrow> None
         | Some True \<Rightarrow> commute_pass (i + 1) (swap_next i ops) True
         | Some False \<Rightarrow> commute_pass (i + 1) ops changed)
      else Some (ops, changed))"
  by pat_completeness auto
termination
  by (relation "measure (\<lambda>(i, ops, changed). length ops - i)") auto

declare cancel_loop.simps [simp del] merge_loop.simps [simp del] commute_pass.simps [simp del]

text \<open>Every swap moves a single-qubit gate before a wider one; the pairs still out of that order are
  the measure of the outer loop.\<close>

definition single :: "gate_op \<Rightarrow> bool" where "single op = (num_qubits (op_gate op) = 1)"
definition wide :: "gate_op \<Rightarrow> bool" where "wide op = (2 \<le> num_qubits (op_gate op))"

fun inversions :: "gate_op list \<Rightarrow> nat" where
  "inversions [] = 0"
| "inversions (op # ops) = (if wide op then length (filter single ops) else 0) + inversions ops"

lemma inversions_swap:
  assumes "wide a" "single b"
  shows "Suc (inversions (xs @ b # a # ys)) = inversions (xs @ a # b # ys)"
proof (induction xs)
  case Nil
  then show ?case using assms by (auto simp: wide_def single_def)
qed auto

lemma swap_next_split:
  assumes "i + 1 < length xs"
  shows "xs = take i xs @ xs ! i # xs ! (i + 1) # drop (i + 2) xs"
    and "swap_next i xs = take i xs @ xs ! (i + 1) # xs ! i # drop (i + 2) xs"
proof -
  have d: "drop i xs = xs ! i # xs ! (i + 1) # drop (i + 2) xs"
    using assms by (metis Cons_nth_drop_Suc Suc_eq_plus1 Suc_lessD add_2_eq_Suc')
  then show s: "xs = take i xs @ xs ! i # xs ! (i + 1) # drop (i + 2) xs" by (metis append_take_drop_id)
  have "length (take i xs) = i" using assms by simp
  then show "swap_next i xs = take i xs @ xs ! (i + 1) # xs ! i # drop (i + 2) xs"
    unfolding swap_next_def
    by (subst (1) s) (simp add: list_update_append)
qed

lemma try_commute_kinds: "try_commute a b = Some True \<Longrightarrow> wide a \<and> single b"
  by (auto simp: try_commute_def wide_def single_def split: if_splits)

lemma commute_pass_inversions:
  "commute_pass i ops changed = Some (ops', changed') \<Longrightarrow>
     length ops' = length ops \<and> inversions ops' \<le> inversions ops \<and>
     (changed' \<longrightarrow> changed \<or> inversions ops' < inversions ops) \<and> (changed \<longrightarrow> changed') \<and>
     (\<not> changed' \<longrightarrow> ops' = ops)"
proof (induction i ops changed rule: commute_pass.induct)
  case (1 i ops changed)
  show ?case
  proof (cases "i + 1 < length ops")
    case lt: True
    obtain c where c: "try_commute (ops ! i) (ops ! (i + 1)) = Some c"
      using "1.prems" lt by (subst (asm) commute_pass.simps) (auto split: option.splits)
    show ?thesis
    proof (cases c)
      case True
      have "Suc (inversions (swap_next i ops)) = inversions ops"
        using inversions_swap try_commute_kinds c True swap_next_split [OF lt] by metis
      moreover have "commute_pass (i + 1) (swap_next i ops) True = Some (ops', changed')"
        using "1.prems" c True lt by (simp add: commute_pass.simps [of i])
      ultimately show ?thesis using "1.IH"(1) [OF lt c] True by auto
    next
      case False
      moreover have "commute_pass (i + 1) ops changed = Some (ops', changed')"
        using "1.prems" c False lt by (simp add: commute_pass.simps [of i])
      ultimately show ?thesis using "1.IH"(2) [OF lt c] by simp
    qed
  next
    case False
    then show ?thesis using "1.prems" by (subst (asm) commute_pass.simps) auto
  qed
qed

function commute_through_multis :: "gate_op list \<Rightarrow> gate_op list option" where
  "commute_through_multis ops =
     (case commute_pass 0 ops False of
        None \<Rightarrow> None
      | Some (ops', changed) \<Rightarrow> if changed then commute_through_multis ops' else Some ops')"
  by pat_completeness auto
termination
  by (relation "measure inversions") (auto dest: commute_pass_inversions)

declare commute_through_multis.simps [simp del]


section \<open>The fixed point\<close>

lemma cancel_loop_length: "length (cancel_loop i ops) \<le> length ops"
proof (induction i ops rule: cancel_loop.induct)
  case (1 i ops)
  then show ?case by (subst cancel_loop.simps) (auto simp: length_remove_pair)
qed

lemma merge_loop_length: "length (merge_loop i ops) \<le> length ops"
proof (induction i ops rule: merge_loop.induct)
  case (1 i ops)
  then show ?case
    by (subst merge_loop.simps) (fastforce simp: Let_def length_remove_pair split: option.split)
qed

lemma remove_redundancies_length: "length (remove_redundancies ops) \<le> length ops"
  unfolding remove_redundancies_def by (rule le_trans [OF cancel_loop_length length_filter_le])

lemma merge_rotations_length: "length (merge_rotations ops) \<le> length ops"
  using merge_loop_length [of 0 ops] by (simp add: merge_rotations_def)

lemma commute_through_multis_length: "commute_through_multis ops = Some ops' \<Longrightarrow> length ops' = length ops"
proof (induction ops arbitrary: ops' rule: commute_through_multis.induct)
  case (1 ops)
  obtain ops1 ch where p: "commute_pass 0 ops False = Some (ops1, ch)"
    using "1.prems" by (subst (asm) commute_through_multis.simps) (auto split: option.splits)
  then have "if ch then commute_through_multis ops1 = Some ops' else ops' = ops1"
    using "1.prems" by (subst (asm) commute_through_multis.simps) auto
  then show ?case using "1.IH" [OF p refl] commute_pass_inversions [OF p] by (cases ch) auto
qed

definition merge_phase :: "gate_op list \<Rightarrow> gate_op list" where
  "merge_phase ops = merge_rotations (remove_redundancies ops)"

lemma merge_phase_length: "length (merge_phase ops) \<le> length ops"
  using merge_rotations_length remove_redundancies_length le_trans unfolding merge_phase_def by blast

function optimize_loop :: "gate_op list \<Rightarrow> gate_op list option" where
  "optimize_loop ops =
     (let after_merge = merge_phase ops in
      case commute_through_multis after_merge of
        None \<Rightarrow> None
      | Some commuted \<Rightarrow>
          let ops' = merge_phase commuted in
          if length ops' = length ops \<and> length ops' = length after_merge then Some ops'
          else optimize_loop ops')"
  by pat_completeness auto
termination
proof (relation "measure length"; clarsimp)
  fix ops commuted
  assume "commute_through_multis (merge_phase ops) = Some commuted"
    "length (merge_phase commuted) = length ops \<longrightarrow> length ops \<noteq> length (merge_phase ops)"
  then show "length (merge_phase commuted) < length ops"
    using merge_phase_length [of ops] merge_phase_length [of commuted] commute_through_multis_length [of "merge_phase ops" commuted]
    by auto
qed

declare optimize_loop.simps [simp del]

definition optimize :: "circuit_ir \<Rightarrow> (circuit_ir \<times> nat) option" where
  "optimize c = map_option (\<lambda>ops. (with_ops ops c, length (cir_ops c) - length ops)) (optimize_loop (cir_ops c))"

section \<open>What a loop that changes nothing has checked\<close>

lemma cancel_loop_stable:
  "length (cancel_loop i ops) = length ops \<Longrightarrow>
     cancel_loop i ops = ops \<and> (\<forall>j. i \<le> j \<longrightarrow> j + 1 < length ops \<longrightarrow> \<not> is_self_inverse_pair (ops ! j) (ops ! (j + 1)))"
proof (induction i ops rule: cancel_loop.induct)
  case (1 i ops)
  show ?case
  proof (cases "i + 1 < length ops")
    case lt: True
    show ?thesis
    proof (cases "is_self_inverse_pair (ops ! i) (ops ! (i + 1))")
      case True
      then have "length (cancel_loop i ops) \<le> length ops - 2"
        using cancel_loop_length [of "i - 1" "remove_pair i ops"] lt
        by (subst cancel_loop.simps) (simp add: length_remove_pair)
      then show ?thesis using "1.prems" lt by simp
    next
      case False
      have e: "cancel_loop i ops = cancel_loop (i + 1) ops" using lt False by (subst cancel_loop.simps) simp
      show ?thesis
        using "1.IH"(2) [OF lt False] "1.prems" False unfolding e by (metis Suc_eq_plus1 le_antisym not_less_eq_eq)
    qed
  next
    case False
    then show ?thesis by (subst cancel_loop.simps) auto
  qed
qed

lemma merge_loop_stable:
  "length (merge_loop i ops) = length ops \<Longrightarrow>
     merge_loop i ops = ops \<and> (\<forall>j. i \<le> j \<longrightarrow> j + 1 < length ops \<longrightarrow> \<not> mergeable (ops ! j) (ops ! (j + 1)))"
proof (induction i ops rule: merge_loop.induct)
  case (1 i ops)
  show ?case
  proof (cases "i + 1 < length ops")
    case lt: True
    show ?thesis
    proof (cases "mergeable (ops ! i) (ops ! (i + 1))")
      case True
      have "length (merge_loop i ops) < length ops"
      proof (cases "merged_param (op_params (ops ! i) ! 0) (op_params (ops ! (i + 1)) ! 0)")
        case None
        then show ?thesis
          using merge_loop_length [of "i - 1" "remove_pair i ops"] lt True
          by (subst merge_loop.simps) (simp add: length_remove_pair)
      next
        case (Some p)
        let ?ops = "take i ops @ (ops ! i)\<lparr>op_params := (op_params (ops ! i))[0 := p]\<rparr> # drop (i + 2) ops"
        have "merge_loop i ops = merge_loop i ?ops" using Some lt True by (subst merge_loop.simps) (simp add: Let_def)
        then show ?thesis using merge_loop_length [of i ?ops] lt by simp
      qed
      then show ?thesis using "1.prems" by simp
    next
      case False
      have e: "merge_loop i ops = merge_loop (i + 1) ops" using lt False by (subst merge_loop.simps) (simp add: Let_def)
      show ?thesis
        using "1.IH"(3) [OF lt refl refl False] "1.prems" False unfolding e by (metis Suc_eq_plus1 le_antisym not_less_eq_eq)
    qed
  next
    case False
    then show ?thesis by (subst merge_loop.simps) auto
  qed
qed


lemma commute_pass_stable:
  "commute_pass i ops changed = Some (ops', False) \<Longrightarrow>
     \<forall>j. i \<le> j \<longrightarrow> j + 1 < length ops \<longrightarrow> try_commute (ops ! j) (ops ! (j + 1)) = Some False"
proof (induction i ops changed rule: commute_pass.induct)
  case (1 i ops changed)
  show ?case
  proof (cases "i + 1 < length ops")
    case lt: True
    obtain c where c: "try_commute (ops ! i) (ops ! (i + 1)) = Some c"
      using "1.prems" lt by (subst (asm) commute_pass.simps) (auto split: option.splits)
    have "\<not> c"
    proof
      assume c': c
      then have "commute_pass (i + 1) (swap_next i ops) True = Some (ops', False)"
        using "1.prems" c lt by (simp add: commute_pass.simps [of i])
      then show False by (auto dest: commute_pass_inversions)
    qed
    moreover then have "commute_pass (i + 1) ops changed = Some (ops', False)"
      using "1.prems" c lt by (simp add: commute_pass.simps [of i])
    ultimately show ?thesis
      using "1.IH"(2) [OF lt c] c by (metis (full_types) Suc_eq_plus1 le_antisym not_less_eq_eq)
  qed auto
qed

lemma commute_through_multis_stable:
  "commute_through_multis ops = Some ops' \<Longrightarrow>
     \<forall>j. j + 1 < length ops' \<longrightarrow> try_commute (ops' ! j) (ops' ! (j + 1)) = Some False"
proof (induction ops arbitrary: ops' rule: commute_through_multis.induct)
  case (1 ops)
  obtain ops1 ch where p: "commute_pass 0 ops False = Some (ops1, ch)"
    using "1.prems" by (subst (asm) commute_through_multis.simps) (auto split: option.splits)
  then have e: "if ch then commute_through_multis ops1 = Some ops' else ops' = ops1"
    using "1.prems" by (subst (asm) commute_through_multis.simps) auto
  show ?case
  proof (cases ch)
    case True
    then show ?thesis using "1.IH" [OF p refl] e by simp
  next
    case False
    then have "ops' = ops" using e commute_pass_inversions [OF p] by simp
    then show ?thesis using commute_pass_stable [of 0 ops False ops1] p False by simp
  qed
qed

lemma filter_length_all: "length (filter P xs) = length xs \<Longrightarrow> list_all P xs"
  by (metis filter_id_conv length_filter_less list_all_iff order_less_irrefl)

text \<open>Adjacent operations that no pass would touch.\<close>

definition normal_form :: "gate_op list \<Rightarrow> bool" where
  "normal_form ops \<longleftrightarrow> list_all retained ops \<and>
     (\<forall>j. j + 1 < length ops \<longrightarrow> \<not> is_self_inverse_pair (ops ! j) (ops ! (j + 1)) \<and>
        \<not> mergeable (ops ! j) (ops ! (j + 1)) \<and> try_commute (ops ! j) (ops ! (j + 1)) = Some False)"

lemma merge_phase_stable:
  assumes "length (merge_phase ops) = length ops"
  shows "merge_phase ops = ops" "list_all retained ops"
    "\<forall>j. j + 1 < length ops \<longrightarrow> \<not> is_self_inverse_pair (ops ! j) (ops ! (j + 1)) \<and> \<not> mergeable (ops ! j) (ops ! (j + 1))"
proof -
  let ?f = "filter retained ops"
  have l: "length (cancel_loop 0 ?f) = length ops" "length (merge_loop 0 (cancel_loop 0 ?f)) = length ops" "length ?f = length ops"
    using assms merge_rotations_length [of "remove_redundancies ops"] remove_redundancies_length [of ops]
      cancel_loop_length [of 0 ?f] length_filter_le [of retained ops]
    unfolding merge_phase_def merge_rotations_def remove_redundancies_def by linarith+
  show f: "list_all retained ops" using l(3) by (rule filter_length_all)
  then have "?f = ops" by (simp add: list_all_iff)
  then show "merge_phase ops = ops"
    "\<forall>j. j + 1 < length ops \<longrightarrow> \<not> is_self_inverse_pair (ops ! j) (ops ! (j + 1)) \<and> \<not> mergeable (ops ! j) (ops ! (j + 1))"
    using cancel_loop_stable [of 0 ops] merge_loop_stable [of 0 ops] l
    by (simp_all add: merge_phase_def merge_rotations_def remove_redundancies_def)
qed

lemma optimize_loop_normal: "optimize_loop ops = Some ops' \<Longrightarrow> normal_form ops' \<and> length ops' \<le> length ops"
proof (induction ops arbitrary: ops' rule: optimize_loop.induct)
  case (1 ops)
  obtain cm where c: "commute_through_multis (merge_phase ops) = Some cm"
    using "1.prems" by (subst (asm) optimize_loop.simps) (auto simp: Let_def split: option.splits)
  have len: "length (merge_phase cm) \<le> length ops"
    using merge_phase_length [of cm] merge_phase_length [of ops] commute_through_multis_length [OF c] by simp
  show ?case
  proof (cases "length (merge_phase cm) = length ops \<and> length (merge_phase cm) = length (merge_phase ops)")
    case True
    then have "length (merge_phase cm) = length cm" using commute_through_multis_length [OF c] by simp
    note st = merge_phase_stable [OF this]
    have "ops' = cm" using "1.prems" c True st(1) by (subst (asm) optimize_loop.simps) (simp add: Let_def)
    then show ?thesis
      using st commute_through_multis_stable [OF c] len by (auto simp: normal_form_def)
  next
    case False
    then have "optimize_loop (merge_phase cm) = Some ops'"
      using "1.prems" c by (subst (asm) optimize_loop.simps) (auto simp: Let_def split: if_splits)
    then show ?thesis using "1.IH" [OF refl c refl False] len by auto
  qed
qed

section \<open>What every operation keeps\<close>

definition kept_by_merge :: "(gate_op \<Rightarrow> bool) \<Rightarrow> bool" where
  "kept_by_merge P \<longleftrightarrow> (\<forall>a b p. P a \<longrightarrow> P b \<longrightarrow> mergeable a b \<longrightarrow>
     merged_param (op_params a ! 0) (op_params b ! 0) = Some p \<longrightarrow> P (a\<lparr>op_params := (op_params a)[0 := p]\<rparr>))"

lemma set_remove_pair: "set (remove_pair i xs) \<subseteq> set xs"
  by (auto simp: remove_pair_def dest: in_set_takeD in_set_dropD)

lemma cancel_loop_set: "set (cancel_loop i ops) \<subseteq> set ops"
proof (induction i ops rule: cancel_loop.induct)
  case (1 i ops)
  then show ?case using set_remove_pair [of i ops] by (subst cancel_loop.simps) auto
qed

lemma merge_loop_all: "kept_by_merge P \<Longrightarrow> list_all P ops \<Longrightarrow> list_all P (merge_loop i ops)"
proof (induction i ops rule: merge_loop.induct)
  case (1 i ops)
  show ?case
  proof (cases "i + 1 < length ops \<and> mergeable (ops ! i) (ops ! (i + 1))")
    case True
    then have ab: "P (ops ! i)" "P (ops ! (i + 1))" "i + 1 < length ops" "mergeable (ops ! i) (ops ! (i + 1))"
      using "1.prems"(2) by (auto simp: list_all_length)
    show ?thesis
    proof (cases "merged_param (op_params (ops ! i) ! 0) (op_params (ops ! (i + 1)) ! 0)")
      case None
      have "list_all P (remove_pair i ops)" using "1.prems"(2) set_remove_pair [of i ops] by (auto simp: list_all_iff)
      then show ?thesis using "1.IH"(1) [OF ab(3) refl refl ab(4) None "1.prems"(1)] ab(3,4) None
        by (subst merge_loop.simps) (simp add: Let_def)
    next
      case (Some p)
      have "P ((ops ! i)\<lparr>op_params := (op_params (ops ! i))[0 := p]\<rparr>)"
        using "1.prems"(1) ab Some by (auto simp: kept_by_merge_def)
      then have "list_all P (take i ops @ (ops ! i)\<lparr>op_params := (op_params (ops ! i))[0 := p]\<rparr> # drop (i + 2) ops)"
        using "1.prems"(2) by (auto simp: list_all_iff dest: in_set_takeD in_set_dropD)
      then show ?thesis using "1.IH"(2) [OF ab(3) refl refl ab(4) Some "1.prems"(1)] ab(3,4) Some
        by (subst merge_loop.simps) (simp add: Let_def)
    qed
  next
    case False
    then show ?thesis using "1.IH"(3) "1.prems" by (subst merge_loop.simps) (auto simp: Let_def)
  qed
qed

lemma merge_phase_all: "kept_by_merge P \<Longrightarrow> list_all P ops \<Longrightarrow> list_all P (merge_phase ops)"
  unfolding merge_phase_def merge_rotations_def remove_redundancies_def
  by (rule merge_loop_all) (use cancel_loop_set [of 0 "filter retained ops"] in \<open>auto simp: list_all_iff\<close>)


lemma swap_next_mset: "i + 1 < length xs \<Longrightarrow> mset (swap_next i xs) = mset xs"
  by (metis add_mset_commute mset.simps(2) mset_append swap_next_split)

lemma commute_pass_mset: "commute_pass i ops changed = Some (ops', changed') \<Longrightarrow> mset ops' = mset ops"
proof (induction i ops changed rule: commute_pass.induct)
  case (1 i ops changed)
  then show ?case
    by (subst (asm) (3) commute_pass.simps) (auto simp: swap_next_mset split: option.splits bool.splits if_splits)
qed

lemma commute_through_multis_mset: "commute_through_multis ops = Some ops' \<Longrightarrow> mset ops' = mset ops"
proof (induction ops arbitrary: ops' rule: commute_through_multis.induct)
  case (1 ops)
  obtain ops1 ch where p: "commute_pass 0 ops False = Some (ops1, ch)"
    using "1.prems" by (subst (asm) commute_through_multis.simps) (auto split: option.splits)
  then have "if ch then commute_through_multis ops1 = Some ops' else ops' = ops1"
    using "1.prems" by (subst (asm) commute_through_multis.simps) auto
  then show ?case using "1.IH" [OF p refl] commute_pass_mset [OF p] by (cases ch) auto
qed

section \<open>No panic\<close>

definition enough_qubits :: "gate_op \<Rightarrow> bool" where
  "enough_qubits op \<longleftrightarrow> num_qubits (op_gate op) \<le> length (op_qubits op)"

lemma kept_enough: "kept_by_merge enough_qubits"
  by (simp add: kept_by_merge_def enough_qubits_def)

lemma try_commute_total: "enough_qubits a \<Longrightarrow> enough_qubits b \<Longrightarrow> try_commute a b \<noteq> None"
  by (auto simp: try_commute_def enough_qubits_def qubit_at_def)

lemma commute_pass_total: "list_all enough_qubits ops \<Longrightarrow> commute_pass i ops changed \<noteq> None"
proof (induction i ops changed rule: commute_pass.induct)
  case (1 i ops changed)
  show ?case
  proof (cases "i + 1 < length ops")
    case lt: True
    then obtain c where c: "try_commute (ops ! i) (ops ! (i + 1)) = Some c"
      using try_commute_total [of "ops ! i" "ops ! (i + 1)"] "1.prems" by (auto simp: list_all_length)
    have "list_all enough_qubits (swap_next i ops)"
      using "1.prems" mset_eq_setD [OF swap_next_mset [OF lt]] by (simp add: list_all_iff)
    then show ?thesis
      using "1.IH"(1) [OF lt c] "1.IH"(2) [OF lt c] "1.prems" lt c by (subst commute_pass.simps) (auto split: bool.split)
  qed (subst commute_pass.simps, simp)
qed

lemma commute_through_multis_total: "list_all enough_qubits ops \<Longrightarrow> commute_through_multis ops \<noteq> None"
proof (induction ops rule: commute_through_multis.induct)
  case (1 ops)
  obtain ops1 ch where p: "commute_pass 0 ops False = Some (ops1, ch)"
    using commute_pass_total [OF "1.prems", of 0 False] by (cases "commute_pass 0 ops False") auto
  have "list_all enough_qubits ops1"
    using "1.prems" mset_eq_setD [OF commute_pass_mset [OF p]] by (simp add: list_all_iff)
  then show ?case using "1.IH" [OF p refl] p by (subst commute_through_multis.simps) auto
qed

lemma optimize_loop_total: "list_all enough_qubits ops \<Longrightarrow> optimize_loop ops \<noteq> None"
proof (induction ops rule: optimize_loop.induct)
  case (1 ops)
  have m: "list_all enough_qubits (merge_phase ops)" using merge_phase_all [OF kept_enough "1.prems"] .
  obtain cm where c: "commute_through_multis (merge_phase ops) = Some cm"
    using commute_through_multis_total [OF m] by auto
  have "list_all enough_qubits cm"
    using m mset_eq_setD [OF commute_through_multis_mset [OF c]] by (simp add: list_all_iff)
  then have "list_all enough_qubits (merge_phase cm)" by (rule merge_phase_all [OF kept_enough])
  then show ?case using "1.IH" [OF refl c refl] c by (subst optimize_loop.simps) (auto simp: Let_def)
qed

section \<open>Properties\<close>

text \<open>C40: Optimising always ends, and ends in a normal form: on a circuit whose operations name as many
  qubits as their gates act on, the fixed-point loop and the loops inside it stop without a panic; the
  result is no longer than the circuit, the count returned is the number of operations removed, no
  operation that is left is an identity or a negligible rotation, and no two neighbours cancel, merge or
  can be commuted.\<close>

theorem optimize_terminates:
  assumes "list_all enough_qubits (cir_ops c)"
  shows "case optimize c of None \<Rightarrow> False
    | Some (c', removed) \<Rightarrow> normal_form (cir_ops c') \<and> length (cir_ops c') + removed = length (cir_ops c) \<and>
        cir_qubits c' = cir_qubits c \<and> cir_cbits c' = cir_cbits c"
proof -
  obtain ops where o: "optimize_loop (cir_ops c) = Some ops" using optimize_loop_total [OF assms] by auto
  then show ?thesis using optimize_loop_normal [OF o] by (simp add: optimize_def)
qed

theorem optimize_terminates_witness:
  "\<exists>c' removed. optimize (CircuitIR 2 0
     [\<lparr>op_gate = H, op_qubits = [0], op_params = [], op_cbit = None, op_condition = None\<rparr>,
      \<lparr>op_gate = CX, op_qubits = [0, 1], op_params = [], op_cbit = None, op_condition = None\<rparr>,
      \<lparr>op_gate = Rz, op_qubits = [0], op_params = [Concrete 1], op_cbit = None, op_condition = None\<rparr>]
     GateBased [] [] [] []) = Some (c', removed) \<and> normal_form (cir_ops c') \<and> length (cir_ops c') + removed = 3"
  using optimize_terminates [of "CircuitIR 2 0
     [\<lparr>op_gate = H, op_qubits = [0], op_params = [], op_cbit = None, op_condition = None\<rparr>,
      \<lparr>op_gate = CX, op_qubits = [0, 1], op_params = [], op_cbit = None, op_condition = None\<rparr>,
      \<lparr>op_gate = Rz, op_qubits = [0], op_params = [Concrete 1], op_cbit = None, op_condition = None\<rparr>]
     GateBased [] [] [] []"]
  by (auto simp: enough_qubits_def split: option.splits)

end
