(* ===== verification/OptimizeSound.thy ===== *)
theory OptimizeSound
  imports SvAlgebra Optimize
begin

text \<open>
  What the optimiser does to the state: cancelling, merging and commuting are exact on unconditioned
  circuits of one- and two-qubit gates, and every rotation dropped as negligible moves the state by
  less than the tolerance.
\<close>

section \<open>Rotations\<close>

fun rotation_matrix :: "gate_kind \<Rightarrow> real \<Rightarrow> gate1q" where
  "rotation_matrix Rx v = gate_rx v" | "rotation_matrix Ry v = gate_ry v"
| "rotation_matrix Rz v = gate_rz v" | "rotation_matrix _ v = gate_u1 v"

lemma rotation_cases: "rotation g \<Longrightarrow> g \<in> {Rx, Ry, Rz, U1}"
  by (cases g) auto

lemma matrix1_rotation: "rotation g \<Longrightarrow> matrix1 g ps = Some (rotation_matrix g (ps ! 0))"
  by (drule rotation_cases) auto

lemma rotation_unitary: "rotation g \<Longrightarrow> unitary_gate g \<and> num_qubits g = 1"
  by (drule rotation_cases) auto

lemma rotation_add:
  assumes "rotation g"
  shows "mul_1q (rotation_matrix g x) (rotation_matrix g y) = rotation_matrix g (x + y)"
proof -
  have h: "(x + y) / 2 = x / 2 + y / 2" by (simp add: add_divide_distrib)
  have m: "(- x - y) / 2 = - (x / 2 + y / 2)" by (simp add: add_divide_distrib)
  show ?thesis
    using rotation_cases [OF assms]
    by (auto simp: mul_1q_def gate_rx_def gate_ry_def gate_rz_def gate_u1_def Let_def complex_eq_iff ei_def h m
        cos_add sin_add cos_diff sin_diff algebra_simps numeral_2_eq_2 numeral_3_eq_3)
qed

lemma cos_gap: "2 - 2 * cos (x :: real) \<le> x\<^sup>2"
proof -
  have "2 - 2 * cos x = 4 * (sin (x / 2))\<^sup>2" using cos_double_sin [of "x / 2"] by simp
  also have "(sin (x / 2))\<^sup>2 \<le> (x / 2)\<^sup>2" using abs_sin_x_le_abs_x [of "x / 2"] by (simp only: abs_le_square_iff)
  finally show ?thesis by (simp add: power_divide)
qed

lemma norm_dense_1q_le:
  assumes "length st = 2 ^ n" "q < n"
    "\<And>u w. (cmod (g ! 0 * u + g ! 1 * w))\<^sup>2 + (cmod (g ! 2 * u + g ! 3 * w))\<^sup>2 \<le> k * ((cmod u)\<^sup>2 + (cmod w)\<^sup>2)"
  shows "norm_sq (dense_1q q g st) \<le> k * norm_sq st"
proof -
  have "norm_sq (dense_1q q g st) \<le> (\<Sum>x<2 ^ n. k * (cmod (st ! x))\<^sup>2)"
    unfolding norm_sq_def length_dense assms(1) sum_bit_split_put [OF assms(2)]
  proof (rule sum_mono)
    fix x assume "x \<in> clear_at n q"
    then have x: "x < 2 ^ n" by (simp add: clear_at_def)
    show "(cmod (dense_1q q g st ! put_bit q False x))\<^sup>2 + (cmod (dense_1q q g st ! put_bit q True x))\<^sup>2
        \<le> k * (cmod (st ! put_bit q False x))\<^sup>2 + k * (cmod (st ! put_bit q True x))\<^sup>2"
      using assms(3) [of "st ! put_bit q False x" "st ! put_bit q True x"] put_bit_less [OF x assms(2)] assms(1)
      by (simp add: dense_1q_nth bit_put_bit distrib_left numeral_2_eq_2 numeral_3_eq_3)
  qed
  then show ?thesis by (simp add: norm_sq_def assms(1) sum_distrib_left)
qed

definition minus_one :: "gate1q \<Rightarrow> gate1q" where
  "minus_one g = [g ! 0 - 1, g ! 1, g ! 2, g ! 3 - 1]"

lemma diff_minus_one: "sv_diff (dense_1q q g st) st = dense_1q q (minus_one g) st"
proof (rule nth_equalityI)
  fix x assume "x < length (sv_diff (dense_1q q g st) st)"
  then show "sv_diff (dense_1q q g st) st ! x = dense_1q q (minus_one g) st ! x"
    using put_bit_same [of q x] by (cases "bit x q") (simp_all add: dense_1q_nth minus_one_def numeral_3_eq_3 numeral_2_eq_2 algebra_simps)
qed simp

lemma rotation_block:
  "(cmod (Complex c 0 * u + Complex 0 (- d) * w))\<^sup>2 + (cmod (Complex 0 (- d) * u + Complex c 0 * w))\<^sup>2 =
     (c\<^sup>2 + d\<^sup>2) * ((cmod u)\<^sup>2 + (cmod w)\<^sup>2)"
  "(cmod (Complex c 0 * u + Complex (- d) 0 * w))\<^sup>2 + (cmod (Complex d 0 * u + Complex c 0 * w))\<^sup>2 =
     (c\<^sup>2 + d\<^sup>2) * ((cmod u)\<^sup>2 + (cmod w)\<^sup>2)"
  unfolding cmod_power2 by (simp_all add: power2_eq_square algebra_simps)

lemma minus_one_gap:
  assumes "rotation g"
  shows "(cmod (minus_one (rotation_matrix g v) ! 0 * u + minus_one (rotation_matrix g v) ! 1 * w))\<^sup>2 +
    (cmod (minus_one (rotation_matrix g v) ! 2 * u + minus_one (rotation_matrix g v) ! 3 * w))\<^sup>2 \<le>
    v\<^sup>2 * ((cmod u)\<^sup>2 + (cmod w)\<^sup>2)"
proof -
  have "(v / 2)\<^sup>2 \<le> v\<^sup>2" by (simp add: power_divide)
  then have half: "2 - 2 * cos (v / 2) \<le> v\<^sup>2" using cos_gap [of "v / 2"] by linarith
  have ei: "(cmod (ei x - 1))\<^sup>2 = 2 - 2 * cos x" for x
    using sin_cos_squared_add [of x] unfolding cmod_power2 by (simp add: ei_def power2_eq_square algebra_simps)
  have up: "k * ((cmod u)\<^sup>2 + (cmod w)\<^sup>2) \<le> v\<^sup>2 * ((cmod u)\<^sup>2 + (cmod w)\<^sup>2)" if "k \<le> v\<^sup>2" for k
    using that by (intro mult_right_mono) simp_all
  have sc: "(cos (v / 2) - 1)\<^sup>2 + (sin (v / 2))\<^sup>2 = 2 - 2 * cos (v / 2)"
    using sin_cos_squared_add [of "v / 2"] by (simp add: power2_eq_square algebra_simps)
  show ?thesis
    using rotation_cases [OF assms]
  proof (elim insertE)
    assume "g = Rx"
    have "minus_one (rotation_matrix g v) = [Complex (cos (v / 2) - 1) 0, Complex 0 (- sin (v / 2)),
        Complex 0 (- sin (v / 2)), Complex (cos (v / 2) - 1) 0]"
      using \<open>g = Rx\<close> by (simp add: minus_one_def gate_rx_def Let_def complex_eq_iff)
    then show ?thesis using up [OF half] rotation_block [of "cos (v / 2) - 1" u "sin (v / 2)" w] by (simp add: sc numeral_3_eq_3)
  next
    assume "g = Ry"
    have "minus_one (rotation_matrix g v) = [Complex (cos (v / 2) - 1) 0, Complex (- sin (v / 2)) 0,
        Complex (sin (v / 2)) 0, Complex (cos (v / 2) - 1) 0]"
      using \<open>g = Ry\<close> by (simp add: minus_one_def gate_ry_def Let_def complex_eq_iff)
    then show ?thesis using up [OF half] rotation_block [of "cos (v / 2) - 1" u "sin (v / 2)" w] by (simp add: sc numeral_3_eq_3)
  next
    assume "g = Rz"
    then have "minus_one (rotation_matrix g v) = [ei (- v / 2) - 1, 0, 0, ei (v / 2) - 1]"
      by (simp add: minus_one_def gate_rz_def)
    moreover have "(cmod ((ei (- v / 2) - 1) * u))\<^sup>2 + (cmod ((ei (v / 2) - 1) * w))\<^sup>2 =
        (2 - 2 * cos (v / 2)) * ((cmod u)\<^sup>2 + (cmod w)\<^sup>2)"
      unfolding norm_mult power_mult_distrib ei by (simp add: distrib_left)
    ultimately show ?thesis using up [OF half] by (simp add: numeral_3_eq_3)
  next
    assume "g = U1"
    then have "minus_one (rotation_matrix g v) = [0, 0, 0, ei v - 1]"
      by (simp add: minus_one_def gate_u1_def)
    moreover have "(cmod ((ei v - 1) * w))\<^sup>2 = (2 - 2 * cos v) * (cmod w)\<^sup>2"
      unfolding norm_mult power_mult_distrib ei ..
    moreover have "(2 - 2 * cos v) * (cmod w)\<^sup>2 \<le> v\<^sup>2 * ((cmod u)\<^sup>2 + (cmod w)\<^sup>2)"
      using cos_gap [of v] by (intro mult_mono) simp_all
    ultimately show ?thesis by (simp add: numeral_3_eq_3)
  qed simp
qed

lemma rotation_near:
  assumes "rotation g" "length st = 2 ^ n" "q < n"
  shows "sv_dist (dense_1q q (rotation_matrix g v) st) st \<le> \<bar>v\<bar> * sqrt (norm_sq st)"
proof -
  have "norm_sq (dense_1q q (minus_one (rotation_matrix g v)) st) \<le> v\<^sup>2 * norm_sq st"
    by (rule norm_dense_1q_le [OF assms(2,3) minus_one_gap [OF assms(1)]])
  then have "sqrt (norm_sq (dense_1q q (minus_one (rotation_matrix g v)) st)) \<le> sqrt (v\<^sup>2 * norm_sq st)" by simp
  then show ?thesis by (simp add: sv_dist_def diff_minus_one real_sqrt_mult)
qed


section \<open>Operations\<close>

definition sound_op :: "nat \<Rightarrow> binding \<Rightarrow> gate_op \<Rightarrow> bool" where
  "sound_op n b op \<longleftrightarrow> valid_op n op \<and> num_qubits (op_gate op) < 3 \<and> op_condition op = None \<and>
     (op_gate op \<in> {Measure, Barrier} \<or> unitary_gate (op_gate op) \<and> (\<exists>ps. resolve_all b (op_params op) = Inr ps))"

lemma length_op_action [simp]: "length (op_action b op st) = length st"
  by (simp add: op_action_def)

lemma length_run [simp]: "length (fold (op_action b) ops st) = length st"
  by (induction ops arbitrary: st) auto

lemma inert_action: "op_gate op \<in> {Measure, Barrier, Id} \<Longrightarrow> op_action b op st = st"
  by (auto simp: op_action_def gate_action_def)

lemma op_action_norm:
  "sound_op n b op \<Longrightarrow> length st = 2 ^ n \<Longrightarrow> norm_sq (op_action b op st) = norm_sq st"
  using norm_gate_action [of st n op] inert_action [of op b st] by (auto simp: sound_op_def op_action_def)

lemma op_action_dist:
  assumes "sound_op n b op" "length a = 2 ^ n" "length c = 2 ^ n"
  shows "sv_dist (op_action b op a) (op_action b op c) = sv_dist a c"
proof (cases "op_gate op \<in> {Measure, Barrier}")
  case True
  then have "op_gate op \<in> {Measure, Barrier, Id}" by auto
  then show ?thesis by (simp add: inert_action)
next
  case False
  then have u: "valid_op n op" "unitary_gate (op_gate op)" using assms(1) by (auto simp: sound_op_def)
  show ?thesis
    using gate_action_diff [OF assms(2,3) u] norm_gate_action [OF _ u, of "sv_diff a c"] assms(2)
    by (simp add: sv_dist_def op_action_def)
qed

lemma run_dist:
  "list_all (sound_op n b) ops \<Longrightarrow> length a = 2 ^ n \<Longrightarrow> length c = 2 ^ n \<Longrightarrow>
     sv_dist (fold (op_action b) ops a) (fold (op_action b) ops c) = sv_dist a c"
  by (induction ops arbitrary: a c) (auto simp: op_action_dist)

lemma run_norm:
  "list_all (sound_op n b) ops \<Longrightarrow> length a = 2 ^ n \<Longrightarrow> norm_sq (fold (op_action b) ops a) = norm_sq a"
  by (induction ops arbitrary: a) (auto simp: op_action_norm)

text \<open>Two sequences whose states differ by less than \<open>k\<close> tolerances.\<close>

definition near :: "nat \<Rightarrow> binding \<Rightarrow> nat \<Rightarrow> gate_op list \<Rightarrow> gate_op list \<Rightarrow> bool" where
  "near n b k ops ops' \<longleftrightarrow> (\<forall>st. length st = 2 ^ n \<longrightarrow>
     sv_dist (fold (op_action b) ops st) (fold (op_action b) ops' st) \<le> real k * (1 / 10 ^ 15) * sqrt (norm_sq st))"

lemma near_exact: "(\<And>st. length st = 2 ^ n \<Longrightarrow> fold (op_action b) ops st = fold (op_action b) ops' st) \<Longrightarrow> near n b k ops ops'"
  by (simp add: near_def)

lemma near_refl: "near n b 0 ops ops"
  by (rule near_exact) simp

lemma near_trans:
  assumes "near n b k ops ops'" "near n b k' ops' ops''"
  shows "near n b (k + k') ops ops''"
  unfolding near_def
proof (intro allI impI)
  fix st :: "complex list" assume l: "length st = 2 ^ n"
  show "sv_dist (fold (op_action b) ops st) (fold (op_action b) ops'' st) \<le> real (k + k') * (1 / 10 ^ 15) * sqrt (norm_sq st)"
    using sv_dist_triangle [of "fold (op_action b) ops st" "fold (op_action b) ops' st" "fold (op_action b) ops'' st"]
      assms l by (fastforce simp: near_def add_divide_distrib distrib_right)
qed

lemma near_mono: "near n b k ops ops' \<Longrightarrow> k \<le> k' \<Longrightarrow> near n b k' ops ops'"
  unfolding near_def by (meson order_trans mult_right_mono of_nat_mono real_sqrt_ge_zero norm_sq_nonneg zero_le_divide_1_iff zero_le_power zero_le_numeral)

lemma near_context:
  assumes "near n b k ops ops'" "list_all (sound_op n b) xs" "list_all (sound_op n b) ys"
    "list_all (sound_op n b) ops" "list_all (sound_op n b) ops'"
  shows "near n b k (xs @ ops @ ys) (xs @ ops' @ ys)"
  unfolding near_def
proof (intro allI impI)
  fix st :: "complex list" assume l: "length st = 2 ^ n"
  let ?x = "fold (op_action b) xs st"
  have "sv_dist (fold (op_action b) ops ?x) (fold (op_action b) ops' ?x) \<le> real k * (1 / 10 ^ 15) * sqrt (norm_sq ?x)"
    using assms(1) l unfolding near_def by (metis length_run)
  then show "sv_dist (fold (op_action b) (xs @ ops @ ys) st) (fold (op_action b) (xs @ ops' @ ys) st)
      \<le> real k * (1 / 10 ^ 15) * sqrt (norm_sq st)"
    using run_dist [OF assms(3)] run_norm [OF assms(2) l] l by simp
qed

lemma sound_action:
  assumes "sound_op n b op" "matrix1 (op_gate op) ps' = Some m"
  obtains ps q where "resolve_all b (op_params op) = Inr ps" "op_qubits op \<noteq> []" "q = unat (op_qubits op ! 0)" "q < n"
    "op_action b op = dense_1q q (the (matrix1 (op_gate op) ps))"
proof -
  have u: "valid_op n op" "num_qubits (op_gate op) = 1" "op_gate op \<notin> {Measure, Barrier}"
    using assms by (cases "op_gate op"; auto simp: sound_op_def)+
  obtain ps where ps: "resolve_all b (op_params op) = Inr ps" using assms u(3) by (auto simp: sound_op_def)
  have q: "unat (op_qubits op ! 0) < n" "map unat (op_qubits op) ! 0 = unat (op_qubits op ! 0)" "op_qubits op \<noteq> []"
    using valid_op_nth(2) [OF u(1), of 0] op_qubits_nth [OF u(1), of 0] u by (auto simp: valid_op_def)
  have "matrix1 (op_gate op) ps \<noteq> None" using assms(2) by (cases "op_gate op") auto
  then have "op_action b op = dense_1q (unat (op_qubits op ! 0)) (the (matrix1 (op_gate op) ps))"
    by (auto simp: op_action_def gate_action_def ps q(2) fun_eq_iff)
  then show thesis using that ps q by blast
qed


section \<open>One rewriting step\<close>

lemma near_drop:
  assumes "sound_op n b op" "\<not> retained op"
  shows "near n b 1 [op] []"
proof (cases "op_gate op = Id")
  case True
  then show ?thesis by (intro near_exact) (simp add: inert_action)
next
  case False
  then obtain v vs where v: "rotation (op_gate op)" "op_params op = Concrete v # vs" "negligible v"
    using assms(2) by (auto simp: retained_def split: if_splits list.splits param_expr.splits)
  obtain ps q where a: "resolve_all b (op_params op) = Inr ps" "q < n" "op_action b op = dense_1q q (the (matrix1 (op_gate op) ps))"
    using sound_action [OF assms(1) matrix1_rotation [OF v(1)]] by metis
  have "ps ! 0 = v" using a(1) v(2) by (auto split: sum.splits)
  then have e: "op_action b op = dense_1q q (rotation_matrix (op_gate op) v)" using a(3) matrix1_rotation [OF v(1)] by simp
  show ?thesis
    unfolding near_def
  proof (intro allI impI)
    fix st :: "complex list" assume l: "length st = 2 ^ n"
    have "\<bar>v\<bar> * sqrt (norm_sq st) \<le> 1 / 10 ^ 15 * sqrt (norm_sq st)"
      using v(3) by (intro mult_right_mono) (simp_all add: negligible_def)
    then show "sv_dist (fold (op_action b) [op] st) (fold (op_action b) [] st) \<le> real 1 * (1 / 10 ^ 15) * sqrt (norm_sq st)"
      using rotation_near [OF v(1) l a(2), of v] by (simp add: e)
  qed
qed

lemma near_filter: "list_all (sound_op n b) ops \<Longrightarrow> near n b (length ops - length (filter retained ops)) ops (filter retained ops)"
proof (induction ops)
  case Nil
  show ?case by (simp add: near_refl)
next
  case (Cons op ops)
  have sound: "list_all (sound_op n b) (filter retained ops)" using Cons.prems by (auto simp: list_all_iff)
  have tail: "near n b (length ops - length (filter retained ops)) (op # ops) (op # filter retained ops)"
    using near_context [OF Cons.IH, of "[op]" "[]"] Cons.prems sound by simp
  show ?case
  proof (cases "retained op")
    case True
    then show ?thesis using tail by simp
  next
    case False
    have one: "near n b 1 (op # filter retained ops) (filter retained ops)"
      using near_context [OF near_drop [OF _ False], of n b "[]" "filter retained ops"] Cons.prems sound by simp
    have len: "length (op # ops) - length (filter retained (op # ops)) = length ops - length (filter retained ops) + 1"
      using False length_filter_le [of retained ops] by (simp add: Suc_diff_le)
    show ?thesis unfolding len using near_trans [OF tail one] False by simp
  qed
qed

lemma self_inverse_matrices:
  "mul_1q gate_h gate_h = [1, 0, 0, 1]" "mul_1q gate_x gate_x = [1, 0, 0, 1]"
  "mul_1q gate_y gate_y = [1, 0, 0, 1]" "mul_1q gate_z gate_z = [1, 0, 0, 1]"
proof -
  have "2 * (isqrt2 * isqrt2) = 1" by (simp add: isqrt2_def complex_eq_iff)
  then show "mul_1q gate_h gate_h = [1, 0, 0, 1]" by (simp add: mul_1q_def gate_h_def)
qed (simp_all add: mul_1q_def gate_x_def gate_y_def gate_z_def)

lemma self_inverse_gates:
  "g \<in> {H, X, Y, Z} \<Longrightarrow> \<exists>m \<in> {gate_h, gate_x, gate_y, gate_z}. \<forall>ps. matrix1 g ps = Some m"
  "g \<in> {CX, CZ, Swap} \<Longrightarrow> \<exists>m \<in> {gate_cx, gate_cz, gate_swap}. \<forall>ps. matrix1 g ps = None \<and> matrix2 g ps = Some m"
  by (elim insertE; simp)+

lemma near_cancel:
  assumes "sound_op n b x" "sound_op n b y" "is_self_inverse_pair x y"
  shows "near n b 0 [x, y] []"
proof (rule near_exact)
  fix st :: "complex list" assume l: "length st = 2 ^ n"
  have g: "op_gate y = op_gate x" "op_qubits y = op_qubits x" "op_gate x \<in> {H, X, Y, Z, CX, CZ, Swap}"
    using assms(3) by (auto simp: is_self_inverse_pair_def split: if_splits)
  have v: "valid_op n x" using assms(1) by (simp add: sound_op_def)
  note q = valid_op_nth(2,3) [OF v] and nth = op_qubits_nth [OF v]
  show "fold (op_action b) [x, y] st = fold (op_action b) [] st"
  proof (cases "op_gate x \<in> {H, X, Y, Z}")
    case True
    have "mul_1q m m = [1, 0, 0, 1]" if "m \<in> {gate_h, gate_x, gate_y, gate_z}" for m
      using that self_inverse_matrices by auto
    moreover obtain m where m: "m \<in> {gate_h, gate_x, gate_y, gate_z}" "\<And>ps. matrix1 (op_gate x) ps = Some m"
      using self_inverse_gates(1) [OF True] by blast
    moreover have nq: "num_qubits (op_gate x) = 1" using True by auto
    moreover have "op_action b x s = dense_1q (unat (op_qubits x ! 0)) m s" "op_action b y s = dense_1q (unat (op_qubits x ! 0)) m s" for s
      using nth [of 0] nq g(1,2) m(2) by (simp_all add: op_action_def gate_action_def)
    ultimately show ?thesis
      using q(1) [of 0] dense_1q_compose [OF l, of "unat (op_qubits x ! 0)" m m] by (simp add: dense_1q_one)
  next
    case False
    have b: "unat (op_qubits x ! 0) < n" "unat (op_qubits x ! 1) < n" "unat (op_qubits x ! 0) \<noteq> unat (op_qubits x ! 1)"
      "map unat (op_qubits x) ! 0 = unat (op_qubits x ! 0)" "map unat (op_qubits x) ! 1 = unat (op_qubits x ! 1)"
      using False g(3) q(1) [of 0] q(1) [of 1] q(2) [of 0 1] nth [of 0] nth [of 1] by auto
    have c: "dense_2q (unat (op_qubits x ! 0)) (unat (op_qubits x ! 1)) m (dense_2q (unat (op_qubits x ! 0)) (unat (op_qubits x ! 1)) m st) = st"
      if "m \<in> {gate_cx, gate_cz, gate_swap}" for m
      using that self_inverse_matrices controlled_compose [OF l b(1-3)] controlled_one [OF l b(3)] swap_swap [OF l b(1,2)]
      by (auto simp: controlled_gates)
    obtain m where m: "m \<in> {gate_cx, gate_cz, gate_swap}" "\<And>ps. matrix1 (op_gate x) ps = None" "\<And>ps. matrix2 (op_gate x) ps = Some m"
      using self_inverse_gates(2) [of "op_gate x"] False g(3) by blast
    have "op_action b x s = dense_2q (unat (op_qubits x ! 0)) (unat (op_qubits x ! 1)) m s"
      "op_action b y s = dense_2q (unat (op_qubits x ! 0)) (unat (op_qubits x ! 1)) m s" for s
      using b(4,5) g(1,2) m(2,3) by (simp_all add: op_action_def gate_action_def)
    then show ?thesis using c [OF m(1)] by simp
  qed
qed


lemma rotation_parts:
  assumes "sound_op n b x" "rotation (op_gate x)" "length (op_params x) = 1"
  obtains p v where "op_params x = [p]" "resolve_param b p = Inr v" "op_qubits x \<noteq> []" "unat (op_qubits x ! 0) < n"
    "op_action b x = dense_1q (unat (op_qubits x ! 0)) (rotation_matrix (op_gate x) v)"
proof -
  obtain p where p: "op_params x = [p]" using assms(3) by (auto simp: length_Suc_conv)
  obtain ps where a: "resolve_all b (op_params x) = Inr ps" "op_qubits x \<noteq> []" "unat (op_qubits x ! 0) < n"
      "op_action b x = dense_1q (unat (op_qubits x ! 0)) (the (matrix1 (op_gate x) ps))"
    using sound_action [OF assms(1) matrix1_rotation [OF assms(2)]] by metis
  obtain v where v: "resolve_param b p = Inr v" "ps = [v]" using a(1) by (auto simp: p split: sum.splits)
  show thesis
    using that [OF p v(1) a(2,3)] a(4) matrix1_rotation [OF assms(2), of ps] v(2) by simp
qed

lemma merged_resolves:
  "merged_param p q = Some r \<Longrightarrow> resolve_param b p = Inr u \<Longrightarrow> resolve_param b q = Inr v \<Longrightarrow> resolve_param b r = Inr (u + v)"
  by (cases p; cases q) (auto simp: merged_param_def split: if_splits)

lemma mergeable_parts:
  assumes "sound_op n b x" "sound_op n b y" "mergeable x y"
  obtains u v where "resolve_param b (op_params x ! 0) = Inr u" "resolve_param b (op_params y ! 0) = Inr v"
    "rotation (op_gate x)" "unat (op_qubits x ! 0) < n"
    "\<And>st. length st = 2 ^ n \<Longrightarrow>
       fold (op_action b) [x, y] st = dense_1q (unat (op_qubits x ! 0)) (rotation_matrix (op_gate x) (u + v)) st"
proof -
  have m: "op_gate y = op_gate x" "op_qubits y = op_qubits x" "rotation (op_gate x)"
    "length (op_params x) = 1" "length (op_params y) = 1"
    using assms(3) by (auto simp: mergeable_def)
  obtain p u where x: "op_params x = [p]" "resolve_param b p = Inr u" "unat (op_qubits x ! 0) < n"
      "op_action b x = dense_1q (unat (op_qubits x ! 0)) (rotation_matrix (op_gate x) u)"
    using rotation_parts [OF assms(1) m(3,4)] by metis
  obtain q v where y: "op_params y = [q]" "resolve_param b q = Inr v"
      "op_action b y = dense_1q (unat (op_qubits x ! 0)) (rotation_matrix (op_gate x) v)"
    using rotation_parts [OF assms(2) _ m(5)] m(1-3) by metis
  show thesis
    using that [of u v] x y m(3) dense_1q_compose [where n = n] rotation_add [OF m(3), of v u] by (simp add: add.commute)
qed

lemma near_merge_none:
  assumes "sound_op n b x" "sound_op n b y" "mergeable x y" "merged_param (op_params x ! 0) (op_params y ! 0) = None"
  shows "near n b 1 [x, y] []"
  unfolding near_def
proof (intro allI impI)
  fix st :: "complex list" assume l: "length st = 2 ^ n"
  obtain u v where m: "resolve_param b (op_params x ! 0) = Inr u" "resolve_param b (op_params y ! 0) = Inr v"
      "rotation (op_gate x)" "unat (op_qubits x ! 0) < n"
      "fold (op_action b) [x, y] st = dense_1q (unat (op_qubits x ! 0)) (rotation_matrix (op_gate x) (u + v)) st"
    using mergeable_parts [OF assms(1-3)] l by metis
  have "negligible (u + v)"
    using assms(4) m(1,2) by (auto simp: merged_param_def split: param_expr.splits if_splits)
  then have "\<bar>u + v\<bar> * sqrt (norm_sq st) \<le> 1 / 10 ^ 15 * sqrt (norm_sq st)"
    by (intro mult_right_mono) (simp_all add: negligible_def)
  then show "sv_dist (fold (op_action b) [x, y] st) (fold (op_action b) [] st) \<le> real 1 * (1 / 10 ^ 15) * sqrt (norm_sq st)"
    using rotation_near [OF m(3) l m(4), of "u + v"] unfolding m(5) by simp
qed

lemma sound_rotation:
  assumes "sound_op n b x" "rotation (op_gate x)" "op_gate z = op_gate x" "op_qubits z = op_qubits x"
    "op_condition z = op_condition x" "op_params z = [p]" "resolve_param b p = Inr w"
  shows "sound_op n b z"
    "op_action b z = dense_1q (unat (op_qubits x ! 0)) (rotation_matrix (op_gate x) w)"
proof -
  have r: "resolve_all b (op_params z) = Inr [w]" using assms(6,7) by simp
  have k: "op_gate x \<in> {Rx, Ry, Rz, U1}" using rotation_cases [OF assms(2)] .
  have "valid_op n z" using assms(1,3,4,6) k by (auto simp: sound_op_def valid_op_def)
  then show s: "sound_op n b z"
    using assms(1,3,5) r rotation_unitary [OF assms(2)] by (auto simp: sound_op_def)
  have rz: "rotation (op_gate z)" "length (op_params z) = 1" using assms(2,3,6) by simp_all
  show "op_action b z = dense_1q (unat (op_qubits x ! 0)) (rotation_matrix (op_gate x) w)"
    using rotation_parts [OF s rz] assms(3,4,6,7) by (metis list.inject sum.inject(2))
qed

lemma sound_merge:
  assumes "sound_op n b x" "sound_op n b y" "mergeable x y" "merged_param (op_params x ! 0) (op_params y ! 0) = Some p"
  shows "sound_op n b (x\<lparr>op_params := (op_params x)[0 := p]\<rparr>)"
    "near n b 0 [x, y] [x\<lparr>op_params := (op_params x)[0 := p]\<rparr>]"
proof -
  let ?z = "x\<lparr>op_params := (op_params x)[0 := p]\<rparr>"
  obtain u v where m: "resolve_param b (op_params x ! 0) = Inr u" "resolve_param b (op_params y ! 0) = Inr v"
      "rotation (op_gate x)" "unat (op_qubits x ! 0) < n"
      "\<And>st. length st = 2 ^ n \<Longrightarrow>
         fold (op_action b) [x, y] st = dense_1q (unat (op_qubits x ! 0)) (rotation_matrix (op_gate x) (u + v)) st"
    using mergeable_parts [OF assms(1-3)] by metis
  have r: "resolve_param b p = Inr (u + v)" using merged_resolves [OF assms(4) m(1,2)] .
  have len: "length (op_params x) = 1" using assms(3) by (simp add: mergeable_def)
  then have z: "op_params ?z = [p]" by (auto simp: length_Suc_conv)
  show s: "sound_op n b ?z"
    by (rule sound_rotation(1) [OF assms(1) m(3) _ _ _ z r]) simp_all
  have "op_action b ?z = dense_1q (unat (op_qubits x ! 0)) (rotation_matrix (op_gate x) (u + v))"
    by (rule sound_rotation(2) [OF assms(1) m(3) _ _ _ z r]) simp_all
  then show "near n b 0 [x, y] [?z]" using m(5) by (intro near_exact) simp
qed


section \<open>Commuting\<close>

lemma wide_action:
  assumes "sound_op n b x" "wide x"
  obtains m q0 q1 where "q0 = unat (op_qubits x ! 0)" "q1 = unat (op_qubits x ! 1)" "q0 < n" "q1 < n" "q0 \<noteq> q1"
    "qubit_at x 0 = Some (op_qubits x ! 0)" "qubit_at x 1 = Some (op_qubits x ! 1)"
    "op_action b x = dense_2q q0 q1 m" "op_gate x = CX \<longrightarrow> m = gate_cx" "op_gate x = CZ \<longrightarrow> m = gate_cz"
proof -
  have two: "num_qubits (op_gate x) = 2" using assms by (simp add: sound_op_def wide_def)
  have v: "valid_op n x" using assms(1) by (simp add: sound_op_def)
  obtain ps where u: "unitary_gate (op_gate x)" "resolve_all b (op_params x) = Inr ps"
    using assms(1) two by (auto simp: sound_op_def)
  have none: "matrix1 (op_gate x) ps = None" using two by (cases "op_gate x") auto
  obtain m where m: "matrix2 (op_gate x) ps = Some m" using u(1) two by (cases "op_gate x") auto
  have q: "unat (op_qubits x ! 0) < n" "unat (op_qubits x ! 1) < n" "unat (op_qubits x ! 0) \<noteq> unat (op_qubits x ! 1)"
    "map unat (op_qubits x) ! 0 = unat (op_qubits x ! 0)" "map unat (op_qubits x) ! 1 = unat (op_qubits x ! 1)"
    using valid_op_nth(2,3) [OF v, of 0] valid_op_nth(2) [OF v, of 1] op_qubits_nth [OF v] two by auto
  have at: "qubit_at x 0 = Some (op_qubits x ! 0)" "qubit_at x 1 = Some (op_qubits x ! 1)"
    using v two by (auto simp: valid_op_def qubit_at_def)
  have act: "op_action b x = dense_2q (unat (op_qubits x ! 0)) (unat (op_qubits x ! 1)) m"
    using q(4,5) by (simp add: fun_eq_iff op_action_def gate_action_def u(2) none m)
  have "op_gate x = CX \<longrightarrow> m = gate_cx" "op_gate x = CZ \<longrightarrow> m = gate_cz" using m by auto
  then show thesis using that [OF refl refl q(1-3) at act] by blast
qed

lemma single_action:
  assumes "sound_op n b y" "single y" "op_gate y \<noteq> Id"
  obtains g q where "q = unat (op_qubits y ! 0)" "q < n" "qubit_at y 0 = Some (op_qubits y ! 0)" "op_action b y = dense_1q q g"
    "z_diagonal (op_gate y) \<longrightarrow> (\<exists>u v. g = [u, 0, 0, v])" "op_gate y = X \<longrightarrow> g = gate_x"
proof -
  have one: "num_qubits (op_gate y) = 1" using assms by (simp add: single_def)
  obtain ps where u: "unitary_gate (op_gate y)" "resolve_all b (op_params y) = Inr ps"
    using assms(1) one by (auto simp: sound_op_def)
  obtain g where g: "matrix1 (op_gate y) ps = Some g" using u(1) one assms(3) by (cases "op_gate y") auto
  obtain q where a: "op_qubits y \<noteq> []" "q = unat (op_qubits y ! 0)" "q < n" "op_action b y = dense_1q q g"
    using sound_action [OF assms(1) g] u(2) g by (metis option.sel sum.inject(2))
  have "z_diagonal (op_gate y) \<longrightarrow> (\<exists>u v. g = [u, 0, 0, v])" "op_gate y = X \<longrightarrow> g = gate_x"
    using g by (cases "op_gate y"; auto simp: gate1q_defs)+
  then show thesis using that [OF a(2,3) _ a(4)] a(1) by (simp add: qubit_at_def)
qed

lemma near_commute:
  assumes "sound_op n b x" "sound_op n b y" "try_commute x y = Some True"
  shows "near n b 0 [x, y] [y, x]"
proof (rule near_exact)
  fix st :: "complex list" assume l: "length st = 2 ^ n"
  note k = try_commute_kinds [OF assms(3)]
  show "fold (op_action b) [x, y] st = fold (op_action b) [y, x] st"
  proof (cases "op_gate y = Id")
    case True
    then show ?thesis by (simp add: inert_action)
  next
    case False
    obtain m q0 q1 where x: "q0 = unat (op_qubits x ! 0)" "q1 = unat (op_qubits x ! 1)" "q0 < n" "q1 < n" "q0 \<noteq> q1"
        "qubit_at x 0 = Some (op_qubits x ! 0)" "qubit_at x 1 = Some (op_qubits x ! 1)"
        "op_action b x = dense_2q q0 q1 m" "op_gate x = CX \<longrightarrow> m = gate_cx" "op_gate x = CZ \<longrightarrow> m = gate_cz"
      using wide_action [OF assms(1)] k by metis
    obtain g q where y: "q = unat (op_qubits y ! 0)" "q < n" "qubit_at y 0 = Some (op_qubits y ! 0)" "op_action b y = dense_1q q g"
        "z_diagonal (op_gate y) \<longrightarrow> (\<exists>u v. g = [u, 0, 0, v])" "op_gate y = X \<longrightarrow> g = gate_x"
      using single_action [OF assms(2) _ False] k by metis
    have "q \<noteq> q0 \<and> q \<noteq> q1 \<or> q = q0 \<and> z_diagonal (op_gate y) \<and> op_gate x \<in> {CX, CZ} \<or>
        q = q1 \<and> op_gate y = X \<and> op_gate x = CX \<or> q = q1 \<and> z_diagonal (op_gate y) \<and> op_gate x = CZ"
      using assms(3) x(1,2,6,7) y(1,3) by (auto simp: try_commute_def word_unat_eq_iff split: if_splits)
    then have "dense_1q q g (dense_2q q0 q1 m st) = dense_2q q0 q1 m (dense_1q q g st)"
    proof (elim disjE conjE)
      assume "q \<noteq> q0" "q \<noteq> q1"
      then show ?thesis by (rule dense_commute [OF l y(2) x(3,4)])
    next
      assume d: "q = q0" "z_diagonal (op_gate y)" "op_gate x \<in> {CX, CZ}"
      obtain u v where "g = [u, 0, 0, v]" using y(5) d(2) by auto
      then show ?thesis
        using diagonal_control_commute [OF l x(3-5)] x(9,10) d(1,3) by (auto simp: controlled_gates)
    next
      assume d: "q = q1" "op_gate y = X" "op_gate x = CX"
      then show ?thesis using flip_target_commute [OF l x(3-5)] x(9) y(6) by (simp add: controlled_gates)
    next
      assume d: "q = q1" "z_diagonal (op_gate y)" "op_gate x = CZ"
      obtain u v where g: "g = [u, 0, 0, v]" using y(5) d(2) by auto
      have "m = controlled_matrix [1, 0, 0, - 1]" using x(10) d(3) by (simp add: controlled_gates gate_z_def)
      then show ?thesis using diagonal_target_commute [OF l x(5)] d(1) g by simp
    qed
    then show ?thesis by (simp add: x(8) y(4))
  qed
qed


section \<open>The loops\<close>

lemma kept_sound: "kept_by_merge (sound_op n b)"
  unfolding kept_by_merge_def by (blast intro: sound_merge(1))

lemma split_pair: "i + 1 < length xs \<Longrightarrow> xs = take i xs @ [xs ! i, xs ! (i + 1)] @ drop (i + 2) xs"
  using swap_next_split(1) [of i xs] by simp

lemma list_all_take_drop: "list_all P xs \<Longrightarrow> list_all P (take i xs) \<and> list_all P (drop i xs)"
  by (auto simp: list_all_iff dest: in_set_takeD in_set_dropD)

text \<open>A rewriting of two neighbours in their context.\<close>

lemma near_pair:
  assumes "list_all (sound_op n b) ops" "i + 1 < length ops" "near n b k [ops ! i, ops ! (i + 1)] zs" "list_all (sound_op n b) zs"
  shows "near n b k ops (take i ops @ zs @ drop (i + 2) ops)"
proof -
  have "sound_op n b (ops ! i)" "sound_op n b (ops ! (i + 1))" using assms(1,2) by (auto simp: list_all_length)
  then show ?thesis
    using near_context [OF assms(3), of "take i ops" "drop (i + 2) ops"] list_all_take_drop [OF assms(1)] assms(4)
      split_pair [OF assms(2)] by simp
qed

lemma near_chain:
  assumes "near n b k ops ops'" "near n b k' ops' ops''" "k + k' \<le> m"
  shows "near n b m ops ops''"
  using near_mono [OF near_trans [OF assms(1,2)] assms(3)] .

lemma near_cancel_loop:
  "list_all (sound_op n b) ops \<Longrightarrow> near n b 0 ops (cancel_loop i ops)"
proof (induction i ops rule: cancel_loop.induct)
  case (1 i ops)
  show ?case
  proof (cases "i + 1 < length ops \<and> is_self_inverse_pair (ops ! i) (ops ! (i + 1))")
    case True
    then have lt: "i + 1 < length ops" and inv: "is_self_inverse_pair (ops ! i) (ops ! (i + 1))" by auto
    have "near n b 0 [ops ! i, ops ! (i + 1)] []"
      using near_cancel [OF _ _ inv] "1.prems" lt by (auto simp: list_all_length)
    then have "near n b 0 ops (remove_pair i ops)"
      using near_pair [OF "1.prems" lt, of 0 "[]"] by (simp add: remove_pair_def)
    moreover have "list_all (sound_op n b) (remove_pair i ops)"
      using "1.prems" set_remove_pair [of i ops] by (auto simp: list_all_iff)
    ultimately show ?thesis
      using near_chain "1.IH"(1) [OF lt inv] lt inv by (subst cancel_loop.simps) fastforce
  next
    case False
    then show ?thesis using "1.IH"(2) "1.prems" by (subst cancel_loop.simps) (auto simp: near_refl)
  qed
qed

lemma near_merge_loop:
  "list_all (sound_op n b) ops \<Longrightarrow> near n b (length ops - length (merge_loop i ops)) ops (merge_loop i ops)"
proof (induction i ops rule: merge_loop.induct)
  case (1 i ops)
  let ?x = "ops ! i" and ?y = "ops ! (i + 1)"
  show ?case
  proof (cases "i + 1 < length ops \<and> mergeable ?x ?y")
    case True
    then have lt: "i + 1 < length ops" and m: "mergeable ?x ?y" by auto
    have xy: "sound_op n b ?x" "sound_op n b ?y" using "1.prems" lt by (auto simp: list_all_length)
    show ?thesis
    proof (cases "merged_param (op_params ?x ! 0) (op_params ?y ! 0)")
      case None
      have e: "merge_loop i ops = merge_loop (i - 1) (remove_pair i ops)"
        using lt m None by (subst merge_loop.simps) (simp add: Let_def)
      have s: "list_all (sound_op n b) (remove_pair i ops)" using "1.prems" set_remove_pair [of i ops] by (auto simp: list_all_iff)
      have "near n b 1 ops (remove_pair i ops)"
        using near_pair [OF "1.prems" lt near_merge_none [OF xy m None]] by (simp add: remove_pair_def)
      then show ?thesis
        unfolding e
        by (rule near_chain [OF _ "1.IH"(1) [OF lt refl refl m None s]])
          (use length_remove_pair [OF lt] merge_loop_length [of "i - 1" "remove_pair i ops"] lt in simp)
    next
      case (Some p)
      let ?z = "?x\<lparr>op_params := (op_params ?x)[0 := p]\<rparr>"
      let ?ops = "take i ops @ ?z # drop (i + 2) ops"
      have e: "merge_loop i ops = merge_loop i ?ops" using lt m Some by (subst merge_loop.simps) (simp add: Let_def)
      note z = sound_merge [OF xy m Some]
      have s: "list_all (sound_op n b) ?ops" using list_all_take_drop [OF "1.prems"] z(1) by simp
      have "near n b 0 ops ?ops" using near_pair [OF "1.prems" lt z(2)] z(1) by simp
      then show ?thesis
        unfolding e by (rule near_chain [OF _ "1.IH"(2) [OF lt refl refl m Some s]]) (use lt in simp)
    qed
  next
    case False
    then show ?thesis using "1.IH"(3) "1.prems" by (subst (1 2) merge_loop.simps) (auto simp: near_refl Let_def)
  qed
qed

lemma near_merge_phase:
  assumes "list_all (sound_op n b) ops"
  shows "near n b (length ops - length (merge_phase ops)) ops (merge_phase ops)"
proof -
  let ?f = "filter retained ops"
  have s: "list_all (sound_op n b) ?f" "list_all (sound_op n b) (cancel_loop 0 ?f)"
    using assms cancel_loop_set [of 0 ?f] by (auto simp: list_all_iff)
  have "near n b (length ops - length ?f) ops (cancel_loop 0 ?f)"
    using near_trans [OF near_filter [OF assms] near_cancel_loop [OF s(1)]] by simp
  then show ?thesis
    unfolding merge_phase_def merge_rotations_def remove_redundancies_def
    by (rule near_chain [OF _ near_merge_loop [OF s(2)]])
      (use cancel_loop_length [of 0 ?f] length_filter_le [of retained ops] merge_loop_length [of 0 "cancel_loop 0 ?f"] in linarith)
qed


lemma mset_list_all: "mset xs = mset ys \<Longrightarrow> list_all P xs = list_all P ys"
  by (metis list_all_iff mset_eq_setD)

lemma near_commute_pass:
  "commute_pass i ops changed = Some (ops', changed') \<Longrightarrow> list_all (sound_op n b) ops \<Longrightarrow> near n b 0 ops ops'"
proof (induction i ops changed rule: commute_pass.induct)
  case (1 i ops changed)
  show ?case
  proof (cases "i + 1 < length ops")
    case lt: True
    obtain c where c: "try_commute (ops ! i) (ops ! (i + 1)) = Some c"
      using "1.prems"(1) lt by (subst (asm) commute_pass.simps) (auto split: option.splits)
    show ?thesis
    proof (cases c)
      case True
      have p: "commute_pass (i + 1) (swap_next i ops) True = Some (ops', changed')"
        using "1.prems"(1) c True lt by (simp add: commute_pass.simps [of i])
      have xy: "sound_op n b (ops ! i)" "sound_op n b (ops ! (i + 1))" using "1.prems"(2) lt by (auto simp: list_all_length)
      have "near n b 0 [ops ! i, ops ! (i + 1)] [ops ! (i + 1), ops ! i]" using near_commute [OF xy] c True by simp
      then have "near n b 0 ops (swap_next i ops)"
        using near_pair [OF "1.prems"(2) lt, of 0 "[ops ! (i + 1), ops ! i]"] xy swap_next_split(2) [OF lt] by simp
      moreover have "list_all (sound_op n b) (swap_next i ops)"
        using "1.prems"(2) mset_list_all [OF swap_next_mset [OF lt]] by blast
      ultimately show ?thesis using near_trans [of n b 0 ops "swap_next i ops" 0 ops'] "1.IH"(1) [OF lt c _ p] True by simp
    next
      case False
      moreover have "commute_pass (i + 1) ops changed = Some (ops', changed')"
        using "1.prems"(1) c False lt by (simp add: commute_pass.simps [of i])
      ultimately show ?thesis using "1.IH"(2) [OF lt c] "1.prems"(2) by simp
    qed
  next
    case False
    then show ?thesis using "1.prems" by (subst (asm) commute_pass.simps) (auto simp: near_refl)
  qed
qed

lemma near_commute_through:
  "commute_through_multis ops = Some ops' \<Longrightarrow> list_all (sound_op n b) ops \<Longrightarrow> near n b 0 ops ops'"
proof (induction ops arbitrary: ops' rule: commute_through_multis.induct)
  case (1 ops)
  obtain ops1 ch where p: "commute_pass 0 ops False = Some (ops1, ch)"
    using "1.prems"(1) by (subst (asm) commute_through_multis.simps) (auto split: option.splits)
  then have e: "if ch then commute_through_multis ops1 = Some ops' else ops' = ops1"
    using "1.prems"(1) by (subst (asm) commute_through_multis.simps) auto
  have s: "list_all (sound_op n b) ops1" using "1.prems"(2) mset_list_all [OF commute_pass_mset [OF p]] by blast
  have "near n b 0 ops ops1" by (rule near_commute_pass [OF p "1.prems"(2)])
  then show ?case using "1.IH" [OF p refl] e s near_trans [of n b 0 ops ops1 0 ops'] by (cases ch) auto
qed

lemma near_optimize_loop:
  "optimize_loop ops = Some ops' \<Longrightarrow> list_all (sound_op n b) ops \<Longrightarrow>
     near n b (length ops - length ops') ops ops' \<and> list_all (sound_op n b) ops'"
proof (induction ops arbitrary: ops' rule: optimize_loop.induct)
  case (1 ops)
  let ?m = "merge_phase ops"
  obtain cm where c: "commute_through_multis ?m = Some cm"
    using "1.prems"(1) by (subst (asm) optimize_loop.simps) (auto simp: Let_def split: option.splits)
  let ?m' = "merge_phase cm"
  have s: "list_all (sound_op n b) ?m" using merge_phase_all [OF kept_sound "1.prems"(2)] .
  then have s': "list_all (sound_op n b) cm" using mset_list_all [OF commute_through_multis_mset [OF c]] by blast
  have s'': "list_all (sound_op n b) ?m'" using merge_phase_all [OF kept_sound s'] .
  have len: "length ?m \<le> length ops" "length ?m' \<le> length ?m" "length cm = length ?m"
    using merge_phase_length [of ops] merge_phase_length [of cm] commute_through_multis_length [OF c] by simp_all
  have "near n b (length ops - length ?m) ops cm"
    using near_trans [OF near_merge_phase [OF "1.prems"(2)] near_commute_through [OF c s]] by simp
  then have step: "near n b (length ops - length ?m') ops ?m'"
    by (rule near_chain [OF _ near_merge_phase [OF s']]) (use len in simp)
  show ?case
  proof (cases "length ?m' = length ops \<and> length ?m' = length ?m")
    case True
    then have "ops' = ?m'" using "1.prems"(1) c by (subst (asm) optimize_loop.simps) (simp add: Let_def)
    then show ?thesis using step s'' by simp
  next
    case False
    then have l: "optimize_loop ?m' = Some ops'"
      using "1.prems"(1) c by (subst (asm) optimize_loop.simps) (auto simp: Let_def split: if_splits)
    note ih = "1.IH" [OF refl c refl False l s'']
    show ?thesis
      using near_chain [OF step conjunct1 [OF ih]] conjunct2 [OF ih] optimize_loop_normal [OF l] len by simp
  qed
qed

section \<open>Where the optimiser changes the circuit\<close>

text \<open>The condition of a gate is not part of the comparison: a conditioned flip cancels an unconditioned one.\<close>

lemma optimize_ignores_conditions:
  "optimize_loop [\<lparr>op_gate = X, op_qubits = [0], op_params = [], op_cbit = None, op_condition = Some (0, 1, 1)\<rparr>,
     \<lparr>op_gate = X, op_qubits = [0], op_params = [], op_cbit = None, op_condition = None\<rparr>] = Some []"
  by (simp add: optimize_loop.simps merge_phase_def merge_rotations_def remove_redundancies_def retained_def
      cancel_loop.simps is_self_inverse_pair_def remove_pair_def merge_loop.simps commute_through_multis.simps
      commute_pass.simps)

text \<open>Only the first two qubits of a three-qubit gate are compared: a gate on the third moves before it.\<close>

lemma optimize_moves_past_target:
  "optimize_loop [\<lparr>op_gate = CCX, op_qubits = [0, 1, 2], op_params = [], op_cbit = None, op_condition = None\<rparr>,
     \<lparr>op_gate = H, op_qubits = [2], op_params = [], op_cbit = None, op_condition = None\<rparr>] =
   Some [\<lparr>op_gate = H, op_qubits = [2], op_params = [], op_cbit = None, op_condition = None\<rparr>,
     \<lparr>op_gate = CCX, op_qubits = [0, 1, 2], op_params = [], op_cbit = None, op_condition = None\<rparr>]"
  by (simp add: optimize_loop.simps merge_phase_def merge_rotations_def remove_redundancies_def retained_def
      cancel_loop.simps is_self_inverse_pair_def remove_pair_def merge_loop.simps mergeable_def
      commute_through_multis.simps commute_pass.simps try_commute_def qubit_at_def swap_next_def)

lemma toffoli_target_order:
  "fold (op_action []) [\<lparr>op_gate = CCX, op_qubits = [0, 1, 2], op_params = [], op_cbit = None, op_condition = None\<rparr>,
     \<lparr>op_gate = H, op_qubits = [2], op_params = [], op_cbit = None, op_condition = None\<rparr>] [0, 0, 0, 1, 0, 0, 0, 0] ! 7 = - isqrt2"
  "fold (op_action []) [\<lparr>op_gate = H, op_qubits = [2], op_params = [], op_cbit = None, op_condition = None\<rparr>,
     \<lparr>op_gate = CCX, op_qubits = [0, 1, 2], op_params = [], op_cbit = None, op_condition = None\<rparr>] [0, 0, 0, 1, 0, 0, 0, 0] ! 7 = isqrt2"
proof -
  let ?st = "[0, 0, 0, 1, 0, 0, 0, 0] :: complex list"
  have p: "put_bit 2 False (7 :: nat) = 3" "put_bit 2 True (7 :: nat) = 7" "put_bit 2 False (3 :: nat) = 3" "put_bit 2 True (3 :: nat) = 7"
    by (simp_all add: put_bit_def set_bit_eq_or unset_bit_eq_and_not)
  have t: "toffoli 0 1 2 7 = 3" "toffoli 0 1 2 3 = 7" using p by (simp_all add: toffoli_def bit_iff_odd)
  have h: "dense_1q 2 gate_h st ! 7 = isqrt2 * st ! 3 - isqrt2 * st ! 7" "dense_1q 2 gate_h st ! 3 = isqrt2 * st ! 3 + isqrt2 * st ! 7"
    if "length st = 8" for st
  proof -
    have b: "bit (7 :: nat) 2" "\<not> bit (3 :: nat) 2" by (simp_all add: bit_iff_odd)
    have g: "gate_h ! 0 = isqrt2" "gate_h ! Suc 0 = isqrt2" "gate_h ! 2 = isqrt2" "gate_h ! 3 = - isqrt2"
      by (simp_all add: gate_h_def)
    show "dense_1q 2 gate_h st ! 7 = isqrt2 * st ! 3 - isqrt2 * st ! 7"
      using dense_1q_nth [of 7 st 2 gate_h] that by (simp only: b p g of_bool_eq mult_1_right) (simp add: g)
    show "dense_1q 2 gate_h st ! 3 = isqrt2 * st ! 3 + isqrt2 * st ! 7"
      using dense_1q_nth [of 3 st 2 gate_h] that by (simp only: b p g of_bool_eq mult_1_right) (simp add: g)
  qed
  have c: "permuted (toffoli 0 1 2) st ! 7 = st ! 3" "permuted (toffoli 0 1 2) st ! 3 = st ! 7" if "length st = 8" for st
    using that t unfolding permuted_def by (simp_all del: upt.simps upt_Suc)
  have e: "?st ! 3 = 1" "?st ! 7 = 0" by (simp_all add: eval_nat_numeral)
  show "fold (op_action []) [\<lparr>op_gate = CCX, op_qubits = [0, 1, 2], op_params = [], op_cbit = None, op_condition = None\<rparr>,
     \<lparr>op_gate = H, op_qubits = [2], op_params = [], op_cbit = None, op_condition = None\<rparr>] ?st ! 7 = - isqrt2"
    using h(1) [of "permuted (toffoli 0 1 2) ?st"] c [of ?st] e by (simp add: op_action_def gate_action_def)
  show "fold (op_action []) [\<lparr>op_gate = H, op_qubits = [2], op_params = [], op_cbit = None, op_condition = None\<rparr>,
     \<lparr>op_gate = CCX, op_qubits = [0, 1, 2], op_params = [], op_cbit = None, op_condition = None\<rparr>] ?st ! 7 = isqrt2"
    using h(2) [of ?st] c(1) [of "dense_1q 2 gate_h ?st"] e by (simp add: op_action_def gate_action_def)
qed

section \<open>Properties\<close>

definition sound_circuit :: "binding \<Rightarrow> circuit_ir \<Rightarrow> bool" where
  "sound_circuit b c \<longleftrightarrow> list_all (sound_op (unat (cir_qubits c)) b) (cir_ops c)"

lemma sound_circuit_runs:
  assumes "sound_circuit b c" "cfg_mode cfg = Skip" "capacity_check h (cir_qubits c) (cfg_shots cfg \<noteq> None) = Done ()"
  shows "evolve_once h c b cfg r an =
    Done (fold (op_action b) (cir_ops c) (sv_zero_state (unat (cir_qubits c))), replicate (unat (cir_cbits c)) 0, r)"
proof -
  have "fold (op_action b) (filter (runs k) ops) st = fold (op_action b) ops st" if "\<forall>op \<in> set ops. op_condition op = None" for k ops st
    using that by (induction ops arbitrary: st) (auto simp: runs_def condition_satisfied_def inert_action)
  moreover have "unat (cir_qubits c) \<le> 64" using capacity_Done [OF assms(3)] by simp
  moreover have "\<forall>op \<in> set (cir_ops c). valid_op (unat (cir_qubits c)) op" "unitary_ops b (cir_ops c)"
    "\<forall>op \<in> set (cir_ops c). op_condition op = None"
    using assms(1) by (auto simp: sound_circuit_def list_all_iff sound_op_def unitary_ops_def)
  ultimately show ?thesis
    using evolve_unitary [of "unat (cir_qubits c)" "cir_ops c" b "sv_zero_state (unat (cir_qubits c))"] assms(2,3) sv_zero_state_ok(1)
    by (simp add: evolve_once_def Let_def)
qed

text \<open>C9: Optimising keeps what the circuit computes: on a circuit of unconditioned one- and two-qubit unitary
  gates, measurements and barriers that fits the host's memory, with measurements skipped, the state that the
  state-vector backend computes for the optimised circuit differs from that of the original by at most
  \<open>10^-15\<close> for every operation removed, and the classical register and the draws are the same.\<close>

theorem optimize_sound:
  assumes "sound_circuit b c" "cfg_mode cfg = Skip" "capacity_check h (cir_qubits c) (cfg_shots cfg \<noteq> None) = Done ()"
  shows "\<exists>c' removed \<phi> \<phi>'. optimize c = Some (c', removed) \<and>
    evolve_once h c b cfg r an = Done (\<phi>, replicate (unat (cir_cbits c)) 0, r) \<and>
    evolve_once h c' b cfg r an = Done (\<phi>', replicate (unat (cir_cbits c)) 0, r) \<and>
    sv_dist \<phi> \<phi>' \<le> real removed / 10 ^ 15"
proof -
  let ?n = "unat (cir_qubits c)"
  have "list_all enough_qubits (cir_ops c)"
    using assms(1) by (auto simp: sound_circuit_def list_all_iff sound_op_def valid_op_def enough_qubits_def)
  then obtain ops where o: "optimize_loop (cir_ops c) = Some ops" using optimize_loop_total by auto
  let ?c' = "with_ops ops c"
  note near = near_optimize_loop [OF o, of ?n b]
  have s': "sound_circuit b ?c'" using near assms(1) by (simp add: sound_circuit_def)
  have "sv_dist (fold (op_action b) (cir_ops c) (sv_zero_state ?n)) (fold (op_action b) ops (sv_zero_state ?n))
      \<le> real (length (cir_ops c) - length ops) * (1 / 10 ^ 15) * sqrt (norm_sq (sv_zero_state ?n))"
    using near assms(1) sv_zero_state_ok(1) unfolding sound_circuit_def near_def by blast
  then show ?thesis
    using sound_circuit_runs [OF assms] sound_circuit_runs [OF s' assms(2)] assms(3) o sv_zero_state_ok(2)
    by (simp add: optimize_def)
qed

theorem optimize_sound_witness:
  "\<exists>c' removed \<phi> \<phi>'. optimize (CircuitIR 2 0
     [\<lparr>op_gate = H, op_qubits = [0], op_params = [], op_cbit = None, op_condition = None\<rparr>,
      \<lparr>op_gate = CX, op_qubits = [0, 1], op_params = [], op_cbit = None, op_condition = None\<rparr>]
     GateBased [] [] [] []) = Some (c', removed) \<and>
    evolve_once \<lparr>hm_oversubscribe = True, hm_available = None\<rparr> (CircuitIR 2 0
     [\<lparr>op_gate = H, op_qubits = [0], op_params = [], op_cbit = None, op_condition = None\<rparr>,
      \<lparr>op_gate = CX, op_qubits = [0, 1], op_params = [], op_cbit = None, op_condition = None\<rparr>]
     GateBased [] [] [] []) []
      \<lparr>cfg_shots = None, cfg_seed = None, cfg_mode = Skip\<rparr> (sconst 0, sconst 0) True = Done (\<phi>, [], sconst 0, sconst 0) \<and>
    evolve_once \<lparr>hm_oversubscribe = True, hm_available = None\<rparr> c' []
      \<lparr>cfg_shots = None, cfg_seed = None, cfg_mode = Skip\<rparr> (sconst 0, sconst 0) True = Done (\<phi>', [], sconst 0, sconst 0) \<and>
    sv_dist \<phi> \<phi>' \<le> real removed / 10 ^ 15"
  using optimize_sound [of "[]" "CircuitIR 2 0
     [\<lparr>op_gate = H, op_qubits = [0], op_params = [], op_cbit = None, op_condition = None\<rparr>,
      \<lparr>op_gate = CX, op_qubits = [0, 1], op_params = [], op_cbit = None, op_condition = None\<rparr>]
     GateBased [] [] [] []" "\<lparr>cfg_shots = None, cfg_seed = None, cfg_mode = Skip\<rparr>" "\<lparr>hm_oversubscribe = True, hm_available = None\<rparr>"
     "(sconst 0, sconst 0)" True]
  by (auto simp: sound_circuit_def sound_op_def valid_op_def capacity_check_cases)

end
